(* ===== verification/Prelude.thy ===== *)
theory Prelude
  imports Main "HOL-Library.Word"
begin

text \<open>
  Shared vocabulary of the development.

  \<^item> \<open>ts_error\<close> is the error enum of \<open>crates/infrastore-core/src/error.rs\<close>. A payload that the
    code renders into a message is kept as a short string naming the branch that raised it; the
    wording of messages is not modelled.
  \<^item> \<open>'e + 'a\<close> is Rust's \<open>Result<'a, 'e>\<close> (\<open>Inl\<close> is \<open>Err\<close>, \<open>Inr\<close> is \<open>Ok\<close>); \<open>rbind\<close> is the
    \<open>?\<close> operator and \<open>rmap_all\<close> is \<open>iter().map(f).collect::<Result<Vec<_>, _>>()\<close>.
  \<^item> Machine integers that the code guards with checked operations are \<open>nat\<close> (\<open>usize\<close>, \<open>u64\<close>) or
    \<open>int\<close> (\<open>i64\<close>, \<open>i32\<close>), with the bound written out by the \<open>checked_\<close> functions. The target is a
    64-bit platform, so \<open>usize\<close> has 64 bits.
\<close>

section \<open>Errors and results\<close>

named_theorems result_elims \<open>how a successful or failed result decomposes\<close>

datatype ts_error =
    NotFound
  | OwnerMismatch int int string int string
  | DuplicateTimeSeries
  | DuplicateAssociation string
  | DuplicateAssociationId int
  | InvalidParameter string
  | IntegrityError string
  | IncompatibleFormat string string
  | CatalogMigrationRequired int int
  | CatalogTooNew int int
  | MismatchedArtifact string string
  | StoreExists string
  | StoreInUse string
  | ReadOnlyStore
  | ConnectionError string
  | IoError
  | SqliteError
  | SerdeError

type_synonym 'a result = "ts_error + 'a"

definition rbind :: "'e + 'a \<Rightarrow> ('a \<Rightarrow> 'e + 'b) \<Rightarrow> 'e + 'b" where
  "rbind r f = (case r of Inl e \<Rightarrow> Inl e | Inr a \<Rightarrow> f a)"

lemma rbind_simps [simp]:
  "rbind (Inl e) f = Inl e"
  "rbind (Inr a) f = f a"
  by (simp_all add: rbind_def)

lemma rbind_Inr_iff [result_elims]:
  "rbind r f = Inr b \<longleftrightarrow> (\<exists>a. r = Inr a \<and> f a = Inr b)"
  by (cases r) auto

lemma rbind_Inl_iff [result_elims]:
  "rbind r f = Inl e \<longleftrightarrow> r = Inl e \<or> (\<exists>a. r = Inr a \<and> f a = Inl e)"
  by (cases r) auto

lemma rbind_cong [fundef_cong]:
  assumes "r = s" and "\<And>a. s = Inr a \<Longrightarrow> f a = g a"
  shows "rbind r f = rbind s g"
  using assms by (cases s) auto

definition ok_or :: "'a option \<Rightarrow> 'e \<Rightarrow> 'e + 'a" where
  "ok_or x e = (case x of None \<Rightarrow> Inl e | Some a \<Rightarrow> Inr a)"

lemma ok_or_simps [simp]:
  "ok_or None e = Inl e"
  "ok_or (Some a) e = Inr a"
  by (simp_all add: ok_or_def)

lemma ok_or_Inr_iff [result_elims]: "ok_or x e = Inr a \<longleftrightarrow> x = Some a"
  by (cases x) auto

lemma ok_or_Inl_iff [result_elims]: "ok_or x e = Inl e' \<longleftrightarrow> x = None \<and> e' = e"
  by (cases x) auto

definition map_err :: "('e \<Rightarrow> 'f) \<Rightarrow> 'e + 'a \<Rightarrow> 'f + 'a" where
  "map_err f r = (case r of Inl e \<Rightarrow> Inl (f e) | Inr a \<Rightarrow> Inr a)"

lemma map_err_simps [simp]:
  "map_err f (Inl e) = Inl (f e)"
  "map_err f (Inr a) = Inr a"
  by (simp_all add: map_err_def)

lemma map_err_Inr_iff [result_elims]: "map_err f r = Inr a \<longleftrightarrow> r = Inr a"
  by (cases r) auto

fun rmap_all :: "('a \<Rightarrow> 'e + 'b) \<Rightarrow> 'a list \<Rightarrow> 'e + 'b list" where
  "rmap_all f [] = Inr []"
| "rmap_all f (x # xs) = rbind (f x) (\<lambda>y. rbind (rmap_all f xs) (\<lambda>ys. Inr (y # ys)))"

lemma rmap_all_Inr_iff [result_elims]:
  "rmap_all f xs = Inr ys \<longleftrightarrow> list_all2 (\<lambda>x y. f x = Inr y) xs ys"
  by (induction xs arbitrary: ys) (auto simp: result_elims list_all2_Cons1)

lemma rmap_all_length: "rmap_all f xs = Inr ys \<Longrightarrow> length ys = length xs"
  by (auto simp: result_elims list_all2_lengthD)

lemma rmap_all_pure: "(\<And>x. x \<in> set xs \<Longrightarrow> f x = Inr (g x)) \<Longrightarrow> rmap_all f xs = Inr (map g xs)"
  by (induction xs) auto

fun rfold :: "('s \<Rightarrow> 'a \<Rightarrow> 'e + 's) \<Rightarrow> 's \<Rightarrow> 'a list \<Rightarrow> 'e + 's" where
  "rfold f s [] = Inr s"
| "rfold f s (x # xs) = rbind (f s x) (\<lambda>s'. rfold f s' xs)"

lemma rfold_append: "rfold f s (xs @ ys) = rbind (rfold f s xs) (\<lambda>s'. rfold f s' ys)"
proof (induction xs arbitrary: s)
  case (Cons x xs)
  then show ?case by (cases "f s x") auto
qed simp

lemma rfold_invariant:
  assumes "rfold f s xs = Inr s'" and "P s"
    and "\<And>s x t. P s \<Longrightarrow> x \<in> set xs \<Longrightarrow> f s x = Inr t \<Longrightarrow> P t"
  shows "P s'"
  using assms
proof (induction xs arbitrary: s)
  case (Cons x xs)
  from Cons.prems(1) obtain t where t: "f s x = Inr t" "rfold f t xs = Inr s'"
    by (auto simp: result_elims)
  have "P t" by (rule Cons.prems(3) [OF Cons.prems(2) _ t(1)]) simp
  then show ?case by (rule Cons.IH [OF t(2)]) (rule Cons.prems(3), auto)
qed simp

text \<open>
  Where the code can also panic (an unchecked slice or an overflowing sum), the error side tells a
  reported error from a panic.
\<close>

datatype 'e failure = Raised 'e | Panicked

definition raise :: "'e + 'a \<Rightarrow> 'e failure + 'a" where "raise r = map_err Raised r"

lemma raise_simps [simp]: "raise (Inl e) = Inl (Raised e)" "raise (Inr a) = Inr a"
  by (simp_all add: raise_def)

lemma raise_Inr_iff [result_elims]: "raise r = Inr a \<longleftrightarrow> r = Inr a"
  by (cases r) auto

section \<open>Bounded integers\<close>

definition usize_max :: nat where "usize_max = 18446744073709551615"
definition i64_min :: int where "i64_min = - 9223372036854775808"
definition i64_max :: int where "i64_max = 9223372036854775807"
definition i32_min :: int where "i32_min = - 2147483648"
definition i32_max :: int where "i32_max = 2147483647"
definition u32_max :: nat where "u32_max = 4294967295"

lemmas int_limits = usize_max_def i64_min_def i64_max_def i32_min_def i32_max_def u32_max_def

definition in_i64 :: "int \<Rightarrow> bool" where "in_i64 n \<longleftrightarrow> i64_min \<le> n \<and> n \<le> i64_max"
definition in_i32 :: "int \<Rightarrow> bool" where "in_i32 n \<longleftrightarrow> i32_min \<le> n \<and> n \<le> i32_max"

definition checked_usize :: "nat \<Rightarrow> nat option" where
  "checked_usize n = (if n \<le> usize_max then Some n else None)"

definition checked_i64 :: "int \<Rightarrow> int option" where
  "checked_i64 n = (if in_i64 n then Some n else None)"

definition checked_i32 :: "int \<Rightarrow> int option" where
  "checked_i32 n = (if in_i32 n then Some n else None)"

definition checked_u32 :: "int \<Rightarrow> nat option" where
  "checked_u32 n = (if 0 \<le> n \<and> n \<le> int u32_max then Some (nat n) else None)"

lemma checked_usize_Some [simp]: "checked_usize n = Some m \<longleftrightarrow> n \<le> usize_max \<and> m = n"
  by (auto simp: checked_usize_def)

lemma checked_i64_Some [simp]: "checked_i64 n = Some m \<longleftrightarrow> in_i64 n \<and> m = n"
  by (auto simp: checked_i64_def)

lemma checked_i32_Some [simp]: "checked_i32 n = Some m \<longleftrightarrow> in_i32 n \<and> m = n"
  by (auto simp: checked_i32_def)

definition saturating_mul :: "nat \<Rightarrow> nat \<Rightarrow> nat" where
  "saturating_mul a b = min (a * b) usize_max"

text \<open>Unchecked arithmetic on \<open>usize\<close> wraps in a release build.\<close>

definition wrapping :: "nat \<Rightarrow> nat" where "wrapping n = n mod (usize_max + 1)"

definition clamp_nat :: "nat \<Rightarrow> nat \<Rightarrow> nat \<Rightarrow> nat" where
  "clamp_nat x lo hi = (if x < lo then lo else if hi < x then hi else x)"

lemma clamp_nat_bounds: "lo \<le> hi \<Longrightarrow> lo \<le> clamp_nat x lo hi \<and> clamp_nat x lo hi \<le> hi"
  by (auto simp: clamp_nat_def)

definition div_ceil :: "nat \<Rightarrow> nat \<Rightarrow> nat" where
  "div_ceil a b = (a + b - 1) div b"

lemma div_ceil_mult_ge:
  assumes "0 < b" shows "a \<le> div_ceil a b * b"
proof -
  have "a + b - 1 = (a + b - 1) div b * b + (a + b - 1) mod b" by simp
  moreover have "(a + b - 1) mod b < b" using assms by simp
  ultimately show ?thesis unfolding div_ceil_def using assms by linarith
qed

text \<open>Rust's integer division and remainder truncate towards zero.\<close>

definition quot :: "int \<Rightarrow> int \<Rightarrow> int" where
  "quot a b = sgn a * sgn b * (\<bar>a\<bar> div \<bar>b\<bar>)"

definition remt :: "int \<Rightarrow> int \<Rightarrow> int" where
  "remt a b = a - b * quot a b"

lemma quot_nonneg: "0 \<le> a \<Longrightarrow> 0 < b \<Longrightarrow> quot a b = a div b"
  by (cases "a = 0") (auto simp: quot_def)

lemma remt_nonneg: "0 \<le> a \<Longrightarrow> 0 < b \<Longrightarrow> remt a b = a mod b"
  by (simp add: remt_def quot_nonneg minus_mult_div_eq_mod)

lemma quot_neg: "a < 0 \<Longrightarrow> 0 < b \<Longrightarrow> quot a b = - ((- a) div b)"
  by (auto simp: quot_def)

lemma quot_mult_self: "0 < b \<Longrightarrow> quot (a * b) b = a"
  by (cases "a = 0") (auto simp: quot_def abs_mult sgn_mult abs_sgn mult.commute)

section \<open>Lists\<close>

definition get_at :: "'a list \<Rightarrow> nat \<Rightarrow> 'a option" where
  "get_at xs i = (if i < length xs then Some (xs ! i) else None)"

lemma get_at_Some: "get_at xs i = Some x \<longleftrightarrow> i < length xs \<and> xs ! i = x"
  by (auto simp: get_at_def)

definition segment :: "nat \<Rightarrow> nat \<Rightarrow> 'a list \<Rightarrow> 'a list" where
  "segment start n xs = take n (drop start xs)"

lemma length_segment: "start + n \<le> length xs \<Longrightarrow> length (segment start n xs) = n"
  by (simp add: segment_def)

lemma segment_nth: "i < n \<Longrightarrow> start + n \<le> length xs \<Longrightarrow> segment start n xs ! i = xs ! (start + i)"
  by (simp add: segment_def)

lemma segment_full: "segment 0 (length xs) xs = xs"
  by (simp add: segment_def)

lemma segment_segment: "j + m \<le> n \<Longrightarrow> segment j m (segment i n xs) = segment (i + j) m xs"
  by (simp add: segment_def drop_take add.commute min_def)

lemma length_concat_uniform:
  "(\<And>x. x \<in> set xs \<Longrightarrow> length (f x) = w) \<Longrightarrow> length (concat (map f xs)) = length xs * w"
  by (induction xs) auto

lemma concat_map_segment:
  assumes "\<And>x. x \<in> set xs \<Longrightarrow> length (f x) = w" and "i < length xs"
  shows "segment (i * w) w (concat (map f xs)) = f (xs ! i)"
  using assms
proof (induction xs arbitrary: i)
  case (Cons x xs)
  then show ?case by (cases i) (auto simp: segment_def)
qed simp

end
