(* ===== verification/Bytes.thy ===== *)
theory Bytes
  imports Prelude
begin

text \<open>
  Little-endian encodings and element codecs: \<open>to_le_bytes\<close> and \<open>from_le_bytes\<close> of the integer types,
  the \<open>Element\<close> trait of \<open>crates/infrastore-core/src/types/array.rs\<close> as the locale \<open>element_codec\<close>,
  and its implementations as interpretations. A float is its bit pattern: the crate encodes,
  compares and hashes floats by bits.
\<close>

type_synonym byte = "8 word"

section \<open>Natural numbers in little-endian bytes\<close>

fun le_bytes :: "nat \<Rightarrow> nat \<Rightarrow> byte list" where
  "le_bytes 0 v = []"
| "le_bytes (Suc n) v = word_of_nat (v mod 256) # le_bytes n (v div 256)"

fun le_value :: "byte list \<Rightarrow> nat" where
  "le_value [] = 0"
| "le_value (b # bs) = unat b + 256 * le_value bs"

lemma length_le_bytes [simp]: "length (le_bytes n v) = n"
  by (induction n arbitrary: v) auto

lemma unat_byte: "n < 256 \<Longrightarrow> unat (word_of_nat n :: byte) = n"
  by (simp add: unat_of_nat take_bit_eq_mod)

lemma le_value_le_bytes: "v < 256 ^ n \<Longrightarrow> le_value (le_bytes n v) = v"
proof (induction n arbitrary: v)
  case (Suc n)
  then have "v div 256 < 256 ^ n" by (simp add: less_mult_imp_div_less)
  with Suc.IH show ?case by (simp add: unat_byte)
qed simp

lemma le_bytes_inject: "v < 256 ^ n \<Longrightarrow> w < 256 ^ n \<Longrightarrow> le_bytes n v = le_bytes n w \<longleftrightarrow> v = w"
  by (metis le_value_le_bytes)

lemma unat_byte_less [simp]: "unat (b :: byte) < 256"
  using unsigned_less [of b, where 'a = nat] by simp

lemma le_value_bound: "le_value bs < 256 ^ length bs"
proof (induction bs)
  case (Cons b bs)
  define x y where "x = le_value bs" and "y = (256::nat) ^ length bs"
  have "unat b < 256" by (rule unat_byte_less)
  moreover have "x < y" using Cons by (simp add: x_def y_def)
  ultimately have "unat b + 256 * x < 256 * y" by linarith
  then show ?case by (simp add: x_def y_def)
qed simp

lemma le_bytes_le_value: "le_bytes (length bs) (le_value bs) = bs"
proof (induction bs)
  case (Cons b bs)
  have "unat b < 256" by (rule unat_byte_less)
  with Cons show ?case by simp
qed simp

section \<open>The element codec\<close>

datatype dtype = F64 | F32 | I64 | I32 | U64 | Bool | I16 | I8 | U32 | U16 | U8

fun dtype_size :: "dtype \<Rightarrow> nat" where
  "dtype_size F64 = 8" | "dtype_size I64 = 8" | "dtype_size U64 = 8"
| "dtype_size F32 = 4" | "dtype_size I32 = 4" | "dtype_size U32 = 4"
| "dtype_size I16 = 2" | "dtype_size U16 = 2"
| "dtype_size Bool = 1" | "dtype_size I8 = 1" | "dtype_size U8 = 1"

lemma dtype_size_pos [simp]: "0 < dtype_size d" "dtype_size d \<noteq> 0"
  by (cases d; simp)+

text \<open>An implementation of \<open>Element\<close> is the record of its constant and its two functions.\<close>

record 'a element =
  elem_dtype :: dtype
  push_le_bytes :: "'a \<Rightarrow> byte list"
  from_le_bytes :: "byte list \<Rightarrow> 'a"

locale element_codec =
  fixes E :: "'a element"
  assumes push_length: "length (push_le_bytes E v) = dtype_size (elem_dtype E)"
    and from_push: "from_le_bytes E (push_le_bytes E v) = v"
begin

lemma push_inject: "push_le_bytes E v = push_le_bytes E w \<longleftrightarrow> v = w"
  by (metis from_push)

lemma length_concat_push: "length (concat (map (push_le_bytes E) vs)) = length vs * dtype_size (elem_dtype E)"
  by (rule length_concat_uniform) (rule push_length)

end

definition numeric_element :: "dtype \<Rightarrow> 'a::len word element" where
  "numeric_element d =
     \<lparr>elem_dtype = d, push_le_bytes = (\<lambda>w. le_bytes (dtype_size d) (unat w)),
      from_le_bytes = (\<lambda>bs. word_of_nat (le_value bs))\<rparr>"

definition bool_element :: "bool element" where
  "bool_element =
     \<lparr>elem_dtype = Bool, push_le_bytes = (\<lambda>b. [if b then 1 else 0]),
      from_le_bytes = (\<lambda>bs. hd bs \<noteq> 0)\<rparr>"

lemma numeric_element_codec:
  assumes "LENGTH('a) = 8 * dtype_size d"
  shows "element_codec (numeric_element d :: 'a::len word element)"
proof
  fix w :: "'a word"
  have "unat w < 2 ^ (8 * dtype_size d)" using unsigned_less [of w, where 'a = nat] assms by simp
  then have "unat w < 256 ^ dtype_size d" by (simp add: power_mult)
  then show "from_le_bytes (numeric_element d) (push_le_bytes (numeric_element d) w) = w"
    by (simp add: numeric_element_def le_value_le_bytes)
qed (simp add: numeric_element_def)

definition f64_element :: "64 word element" where "f64_element = numeric_element F64"
definition f32_element :: "32 word element" where "f32_element = numeric_element F32"
definition i64_element :: "64 word element" where "i64_element = numeric_element I64"
definition i32_element :: "32 word element" where "i32_element = numeric_element I32"
definition i16_element :: "16 word element" where "i16_element = numeric_element I16"
definition i8_element :: "8 word element" where "i8_element = numeric_element I8"
definition u64_element :: "64 word element" where "u64_element = numeric_element U64"
definition u32_element :: "32 word element" where "u32_element = numeric_element U32"
definition u16_element :: "16 word element" where "u16_element = numeric_element U16"
definition u8_element :: "8 word element" where "u8_element = numeric_element U8"

lemmas element_defs = f64_element_def f32_element_def i64_element_def i32_element_def i16_element_def
  i8_element_def u64_element_def u32_element_def u16_element_def u8_element_def

interpretation f64: element_codec f64_element
  unfolding element_defs by (rule numeric_element_codec) simp

interpretation f32: element_codec f32_element
  unfolding element_defs by (rule numeric_element_codec) simp

interpretation i64: element_codec i64_element
  unfolding element_defs by (rule numeric_element_codec) simp

interpretation i32: element_codec i32_element
  unfolding element_defs by (rule numeric_element_codec) simp

interpretation i16: element_codec i16_element
  unfolding element_defs by (rule numeric_element_codec) simp

interpretation i8: element_codec i8_element
  unfolding element_defs by (rule numeric_element_codec) simp

interpretation u64: element_codec u64_element
  unfolding element_defs by (rule numeric_element_codec) simp

interpretation u32: element_codec u32_element
  unfolding element_defs by (rule numeric_element_codec) simp

interpretation u16: element_codec u16_element
  unfolding element_defs by (rule numeric_element_codec) simp

interpretation u8: element_codec u8_element
  unfolding element_defs by (rule numeric_element_codec) simp

interpretation bool: element_codec bool_element
  by unfold_locales (simp_all add: bool_element_def)

end
