(* ===== verification/TypedArray.thy ===== *)
theory TypedArray
  imports Bytes RustStr
begin

text \<open>
  \<open>crates/infrastore-core/src/types/array.rs\<close> and the array helpers of
  \<open>crates/infrastore-core/src/storage.rs\<close>: element types, the runtime-typed array with its validating
  constructors and its readers, and the block copy behind every slice. Errors that the code reports
  as a message are strings naming the branch.
\<close>

section \<open>Element types\<close>

definition dtype_all :: "dtype list" where
  "dtype_all = [F64, F32, I64, I32, U64, Bool, I16, I8, U32, U16, U8]"

fun dtype_code :: "dtype \<Rightarrow> int" where
  "dtype_code F64 = 0" | "dtype_code F32 = 1" | "dtype_code I64 = 2" | "dtype_code I32 = 3"
| "dtype_code U64 = 4" | "dtype_code Bool = 5" | "dtype_code I16 = 6" | "dtype_code I8 = 7"
| "dtype_code U32 = 8" | "dtype_code U16 = 9" | "dtype_code U8 = 10"

definition dtype_from_code :: "int \<Rightarrow> dtype option" where
  "dtype_from_code code = (if code < 0 then None else get_at dtype_all (nat code))"

fun dtype_str :: "dtype \<Rightarrow> string" where
  "dtype_str F64 = ''f64''" | "dtype_str F32 = ''f32''" | "dtype_str I64 = ''i64''"
| "dtype_str I32 = ''i32''" | "dtype_str U64 = ''u64''" | "dtype_str Bool = ''bool''"
| "dtype_str I16 = ''i16''" | "dtype_str I8 = ''i8''" | "dtype_str U32 = ''u32''"
| "dtype_str U16 = ''u16''" | "dtype_str U8 = ''u8''"

definition dtype_parse :: "string \<Rightarrow> dtype option" where
  "dtype_parse s = find (\<lambda>d. dtype_str d = s) dtype_all"

lemma dtype_from_code_code: "dtype_from_code (dtype_code d) = Some d"
  by (cases d) (simp_all add: dtype_from_code_def get_at_def dtype_all_def)

lemma dtype_parse_str: "dtype_parse (dtype_str d) = Some d"
  by (cases d) (simp_all add: dtype_parse_def dtype_all_def)

section \<open>The array\<close>

record typed_array =
  arr_dtype :: dtype
  shape :: "nat list"
  bytes :: "byte list"

text \<open>\<open>try_fold\<close> with \<open>checked_mul\<close>: an overflow on the way is an error even if a later dimension is 0.\<close>

fun element_count_from :: "nat \<Rightarrow> nat list \<Rightarrow> nat option" where
  "element_count_from acc [] = Some acc"
| "element_count_from acc (d # ds) =
     (case checked_usize (acc * d) of None \<Rightarrow> None | Some n \<Rightarrow> element_count_from n ds)"

definition element_count :: "nat list \<Rightarrow> string + nat" where
  "element_count s = ok_or (element_count_from 1 s) ''more elements than usize can hold''"

definition expected_bytes :: "dtype \<Rightarrow> nat list \<Rightarrow> string + nat" where
  "expected_bytes d s =
     rbind (element_count s)
       (\<lambda>n. ok_or (checked_usize (n * dtype_size d)) ''more bytes than usize can hold'')"

definition check_bytes :: "typed_array \<Rightarrow> string + unit" where
  "check_bytes a =
     rbind (expected_bytes (arr_dtype a) (shape a))
       (\<lambda>expected. if length (bytes a) \<noteq> expected then Inl ''bytes do not match shape'' else Inr ())"

definition ta_new :: "dtype \<Rightarrow> nat list \<Rightarrow> byte list \<Rightarrow> string + typed_array" where
  "ta_new d s bs =
     (let a = \<lparr>arr_dtype = d, shape = s, bytes = bs\<rparr> in rbind (check_bytes a) (\<lambda>_. Inr a))"

definition ta_length :: "typed_array \<Rightarrow> nat" where
  "ta_length a = (case shape a of [] \<Rightarrow> 0 | n # _ \<Rightarrow> n)"

definition element_shape :: "typed_array \<Rightarrow> nat list" where
  "element_shape a = (case shape a of [] \<Rightarrow> [] | _ # s \<Rightarrow> s)"

text \<open>An unchecked product, which wraps in a release build.\<close>

definition num_elements :: "typed_array \<Rightarrow> nat" where
  "num_elements a = prod_list (shape a) mod (usize_max + 1)"

definition from_slice :: "'a element \<Rightarrow> nat list \<Rightarrow> 'a list \<Rightarrow> string + typed_array" where
  "from_slice E s values =
     rbind (element_count s)
       (\<lambda>n. if length values \<noteq> n then Inl ''values do not match shape''
         else Inr \<lparr>arr_dtype = elem_dtype E, shape = s, bytes = concat (map (push_le_bytes E) values)\<rparr>)"

text \<open>\<open>chunks_exact\<close>: the whole chunks of width \<open>n\<close>, a trailing partial one left out.\<close>

definition chunks_exact :: "nat \<Rightarrow> 'a list \<Rightarrow> 'a list list" where
  "chunks_exact n xs = map (\<lambda>i. segment (i * n) n xs) [0..<length xs div n]"

definition to_vec :: "'a element \<Rightarrow> typed_array \<Rightarrow> string + 'a list" where
  "to_vec E a =
     (if arr_dtype a \<noteq> elem_dtype E then Inl ''wrong dtype''
      else Inr (map (from_le_bytes E) (chunks_exact (dtype_size (elem_dtype E)) (bytes a))))"

definition element_at :: "'a element \<Rightarrow> typed_array \<Rightarrow> nat \<Rightarrow> string + 'a" where
  "element_at E a index =
     (if arr_dtype a \<noteq> elem_dtype E then Inl ''wrong dtype''
      else let size = dtype_size (elem_dtype E);
        range = (case checked_usize (index * size) of
            None \<Rightarrow> None
          | Some start \<Rightarrow>
              (case checked_usize (index + 1) of
                 None \<Rightarrow> None
               | Some n \<Rightarrow> map_option (\<lambda>end. (start, end)) (checked_usize (n * size))))
      in ok_or (map_option (from_le_bytes E)
           (case range of
              None \<Rightarrow> None
            | Some (start, end) \<Rightarrow>
                if start \<le> end \<and> end \<le> length (bytes a)
                then Some (segment start (end - start) (bytes a)) else None))
          ''element index is past the array'')"

definition ta_step :: "typed_array \<Rightarrow> nat \<Rightarrow> string failure + typed_array" where
  "ta_step a index =
     (if ta_length a \<le> index then Inl (Raised ''step index is past the array'')
      else rbind (raise (expected_bytes (arr_dtype a) (element_shape a)))
        (\<lambda>width. let start = index * width
          in if length (bytes a) < start + width then Inl Panicked
             else raise (ta_new (arr_dtype a) (element_shape a) (segment start width (bytes a)))))"

section \<open>Slicing along an axis\<close>

definition write_window_block ::
  "typed_array \<Rightarrow> nat \<Rightarrow> nat \<Rightarrow> nat \<Rightarrow> byte list \<Rightarrow> ts_error failure + byte list" where
  "write_window_block a axis start n out =
     (if length (shape a) \<le> axis then Inl (Raised (IntegrityError ''count axis out of bounds''))
      else let axis_len = shape a ! axis in
        if axis_len < start + n then Inl (Raised (InvalidParameter ''window block out of bounds''))
        else let outer = prod_list (take axis (shape a));
            inner_bytes = prod_list (drop (axis + 1) (shape a)) * dtype_size (arr_dtype a);
            run = n * inner_bytes
          in rfold (\<lambda>out i.
               let src = (i * axis_len + start) * inner_bytes
               in if length (bytes a) < src + run then Inl Panicked
                  else Inr (out @ segment src run (bytes a)))
             out [0..<outer])"

definition slice_axis :: "typed_array \<Rightarrow> nat \<Rightarrow> nat \<times> nat \<Rightarrow> ts_error failure + typed_array" where
  "slice_axis a axis rng =
     (case rng of (lo, hi) \<Rightarrow>
        let len = (if axis < length (shape a) then shape a ! axis else 0)
        in if hi < lo \<or> len < hi then Inl (Raised (InvalidParameter ''slice out of bounds''))
           else rbind (write_window_block a axis lo (hi - lo) [])
             (\<lambda>bs. Inr \<lparr>arr_dtype = arr_dtype a, shape = (shape a)[axis := hi - lo], bytes = bs\<rparr>))"

section \<open>Well-formed arrays\<close>

definition wf_array :: "typed_array \<Rightarrow> bool" where
  "wf_array a \<longleftrightarrow> check_bytes a = Inr ()"

lemma element_count_from_Some:
  "element_count_from acc s = Some n \<Longrightarrow> n = acc * prod_list s \<and> (acc \<le> usize_max \<longrightarrow> n \<le> usize_max)"
  by (induction acc s rule: element_count_from.induct) (auto split: option.splits)

lemma element_count_Inr: "element_count s = Inr n \<Longrightarrow> n = prod_list s \<and> n \<le> usize_max"
  using element_count_from_Some [of 1 s n] by (auto simp: element_count_def result_elims usize_max_def)

lemma expected_bytes_Inr:
  "expected_bytes d s = Inr n \<Longrightarrow> n = prod_list s * dtype_size d \<and> n \<le> usize_max"
  using element_count_Inr by (fastforce simp: expected_bytes_def result_elims)

lemma wf_array_length: "wf_array a \<Longrightarrow> length (bytes a) = prod_list (shape a) * dtype_size (arr_dtype a)"
  by (auto simp: wf_array_def check_bytes_def result_elims dest!: expected_bytes_Inr split: if_splits)

lemma wf_array_bounded: "wf_array a \<Longrightarrow> length (bytes a) \<le> usize_max"
  by (auto simp: wf_array_def check_bytes_def result_elims dest!: expected_bytes_Inr split: if_splits)

lemma element_count_total:
  "0 < acc \<Longrightarrow> acc * prod_list s \<le> usize_max \<Longrightarrow> 0 \<notin> set s \<Longrightarrow>
   element_count_from acc s = Some (acc * prod_list s)"
proof (induction acc s rule: element_count_from.induct)
  case (2 acc d ds)
  then have "0 < prod_list ds" by (auto intro!: Nat.gr0I simp: prod_list_zero_iff)
  then have "acc * d \<le> acc * d * prod_list ds" using mult_le_mono2 [of 1 "prod_list ds" "acc * d"] by simp
  then have le: "acc * d \<le> usize_max" by (rule order_trans) (use 2 in \<open>simp add: mult.assoc\<close>)
  have ih: "element_count_from (acc * d) ds = Some (acc * d * prod_list ds)"
    using 2 le by (intro "2.IH") (simp_all add: mult.assoc)
  show ?case using ih le by (simp add: checked_usize_def mult.assoc)
qed simp

lemma ta_new_Inr: "ta_new d s bs = Inr a \<longleftrightarrow> a = \<lparr>arr_dtype = d, shape = s, bytes = bs\<rparr> \<and> wf_array a"
  by (auto simp: ta_new_def wf_array_def Let_def result_elims)

lemma dtype_size_le [simp]: "dtype_size d \<le> 8"
  by (cases d) simp_all

section \<open>Elements\<close>

lemma chunks_exact_concat:
  assumes "\<And>x. x \<in> set xs \<Longrightarrow> length (f x) = w" "0 < w"
  shows "chunks_exact w (concat (map f xs)) = map f xs"
proof -
  have "segment (i * w) w (concat (map f xs)) = f (xs ! i)" if "i < length xs" for i
    using concat_map_segment [of xs f w i] assms(1) that by blast
  then show ?thesis
    using assms(2) length_concat_uniform [of xs f w] assms(1)
    by (intro nth_equalityI) (simp_all add: chunks_exact_def)
qed

lemma length_chunks_exact [simp]: "length (chunks_exact w xs) = length xs div w"
  by (simp add: chunks_exact_def)

lemma chunks_exact_nth: "i < length xs div w \<Longrightarrow> chunks_exact w xs ! i = segment (i * w) w xs"
  by (simp add: chunks_exact_def)

lemma chunks_exact_segment:
  assumes "0 < w" "i + n \<le> length xs div w"
  shows "chunks_exact w (segment (i * w) (n * w) xs) = segment i n (chunks_exact w xs)"
proof (rule nth_equalityI)
  have "(i + n) * w \<le> length xs div w * w" using assms(2) by (rule mult_le_mono1)
  also have "\<dots> \<le> length xs" by (rule div_times_less_eq_dividend)
  finally have len: "i * w + n * w \<le> length xs" by (simp only: distrib_right)
  show "length (chunks_exact w (segment (i * w) (n * w) xs)) = length (segment i n (chunks_exact w xs))"
    using assms length_segment [OF len] length_segment [of i n "chunks_exact w xs"] by simp
  fix j assume "j < length (chunks_exact w (segment (i * w) (n * w) xs))"
  then have j: "j < n" using assms length_segment [OF len] by simp
  then have "j * w + w \<le> n * w" using mult_le_mono1 [of "Suc j" n w] by simp
  then have "chunks_exact w (segment (i * w) (n * w) xs) ! j = segment (i * w + j * w) w xs"
    using j assms(1) length_segment [OF len] by (simp add: chunks_exact_nth segment_segment)
  also have "\<dots> = chunks_exact w xs ! (i + j)"
    using j assms(2) by (simp add: chunks_exact_nth distrib_right)
  also have "\<dots> = segment i n (chunks_exact w xs) ! j"
    using j assms(2) by (simp add: segment_nth)
  finally show "chunks_exact w (segment (i * w) (n * w) xs) ! j = segment i n (chunks_exact w xs) ! j" .
qed

context element_codec
begin

lemma to_vec_from_slice:
  assumes "from_slice E s vs = Inr a" shows "to_vec E a = Inr vs"
  using assms push_length from_push chunks_exact_concat [of vs "push_le_bytes E" "dtype_size (elem_dtype E)"]
  by (auto simp: from_slice_def to_vec_def result_elims comp_def split: if_splits)

lemma from_slice_wf:
  assumes "from_slice E s vs = Inr a" "length vs * dtype_size (elem_dtype E) \<le> usize_max"
  shows "wf_array a"
proof -
  obtain n where n: "element_count s = Inr n" "length vs = n"
    and a: "a = \<lparr>arr_dtype = elem_dtype E, shape = s, bytes = concat (map (push_le_bytes E) vs)\<rparr>"
    using assms(1) by (auto simp: from_slice_def result_elims split: if_splits)
  then show ?thesis
    using assms(2) length_concat_push [of vs]
    by (simp add: wf_array_def check_bytes_def expected_bytes_def checked_usize_def)
qed

end

lemma element_at_to_vec:
  assumes wf: "wf_array a" and vs: "to_vec E a = Inr vs"
  shows "element_at E a i = (if i < length vs then Inr (vs ! i) else Inl ''element index is past the array'')"
proof -
  define w where "w = dtype_size (elem_dtype E)"
  have w: "0 < w" by (simp add: w_def)
  have d: "arr_dtype a = elem_dtype E" using vs by (auto simp: to_vec_def split: if_splits)
  have vs: "vs = map (from_le_bytes E) (chunks_exact w (bytes a))"
    using vs d by (simp add: to_vec_def w_def)
  have len: "length (bytes a) \<le> usize_max" using wf by (rule wf_array_bounded)
  have n: "length (bytes a) = length vs * w" using wf_array_length [OF wf] d w by (simp add: vs w_def)
  show ?thesis
  proof (cases "i < length vs")
    case True
    then have le: "(i + 1) * w \<le> length (bytes a)" unfolding n by (intro mult_le_mono1) simp
    moreover have "i + 1 \<le> (i + 1) * w" "i * w \<le> (i + 1) * w"
      using mult_le_mono2 [of 1 w "i + 1"] w by simp_all
    ultimately have "i * w \<le> usize_max" "i + 1 \<le> usize_max" "(i + 1) * w \<le> usize_max"
      using len by linarith+
    moreover have "segment (i * w) w (bytes a) = chunks_exact w (bytes a) ! i"
      using True by (simp add: chunks_exact_nth vs)
    ultimately show ?thesis
      using True d le by (simp add: element_at_def w_def [symmetric] Let_def checked_usize_def vs)
  next
    case False
    then have "length (bytes a) < (i + 1) * w" unfolding n using w by (intro mult_strict_right_mono) simp_all
    with False d show ?thesis
      by (auto simp: element_at_def w_def [symmetric] Let_def checked_usize_def)
  qed
qed

section \<open>Row-major indexing\<close>

text \<open>The element bytes at a multi-dimensional index, the reference for slicing.\<close>

fun flat_index :: "nat list \<Rightarrow> nat list \<Rightarrow> nat" where
  "flat_index (d # ds) (i # is) = i * prod_list ds + flat_index ds is"
| "flat_index _ _ = 0"

definition element_bytes :: "typed_array \<Rightarrow> nat list \<Rightarrow> byte list" where
  "element_bytes a idx =
     segment (flat_index (shape a) idx * dtype_size (arr_dtype a)) (dtype_size (arr_dtype a)) (bytes a)"

definition in_shape :: "nat list \<Rightarrow> nat list \<Rightarrow> bool" where
  "in_shape s idx \<longleftrightarrow> list_all2 (<) idx s"

lemma mult_add_less: "a < m \<Longrightarrow> b < n \<Longrightarrow> a * n + b < m * (n::nat)"
  using mult_le_mono1 [of "Suc a" m n] by simp

lemma flat_index_bound: "list_all2 (<) idx s \<Longrightarrow> flat_index s idx < prod_list s"
  by (induction idx s rule: list_all2_induct) (auto intro: mult_add_less)

lemma flat_index_append:
  "length ip = length pre \<Longrightarrow>
   flat_index (pre @ post) (ip @ iq) = flat_index pre ip * prod_list post + flat_index post iq"
  by (induction ip pre rule: list_induct2) (simp_all add: distrib_right mult.assoc)

lemma rfold_append_steps:
  "(\<And>i out. i \<in> set is \<Longrightarrow> f out i = Inr (out @ g i)) \<Longrightarrow>
   rfold f out is = Inr (out @ concat (map g is))"
  by (induction "is" arbitrary: out) simp_all

lemma window_block_bytes:
  assumes len: "length bs = outer * (L * ib)" and n: "start + n \<le> L" and k: "k < outer"
  shows "(k * L + start) * ib + n * ib \<le> length bs"
proof -
  have "k * L + start + n \<le> outer * L" using k n mult_le_mono1 [of "Suc k" outer L] by simp
  then have "(k * L + start + n) * ib \<le> outer * L * ib" by (rule mult_le_mono1)
  then show ?thesis by (simp add: len distrib_right mult.assoc)
qed

lemma shape_split:
  "axis < length s \<Longrightarrow> prod_list s = prod_list (take axis s) * (s ! axis * prod_list (drop (Suc axis) s))"
  by (subst id_take_nth_drop [of axis s]) simp_all

lemma write_window_block_Inr:
  assumes wf: "wf_array a" and axis: "axis < length (shape a)" and n: "start + n \<le> shape a ! axis"
  defines "ib \<equiv> prod_list (drop (Suc axis) (shape a)) * dtype_size (arr_dtype a)"
  shows "write_window_block a axis start n out =
    Inr (out @ concat (map (\<lambda>k. segment ((k * shape a ! axis + start) * ib) (n * ib) (bytes a))
                        [0..<prod_list (take axis (shape a))]))"
proof -
  have len: "length (bytes a) = prod_list (take axis (shape a)) * (shape a ! axis * ib)"
    using wf_array_length [OF wf] shape_split [OF axis] by (simp add: ib_def)
  show ?thesis
    using axis n window_block_bytes [OF len n]
    unfolding write_window_block_def
    by (simp add: ib_def [symmetric] not_le not_less Let_def)
      (intro rfold_append_steps, simp add: not_less)
qed

lemma sliced_element:
  assumes len: "length bs = outer * (L * (P * sz))" and n: "start + n \<le> L" and k: "k < outer"
    and i: "i < n" and q: "q < P"
  defines "block \<equiv> \<lambda>k. segment ((k * L + start) * (P * sz)) (n * (P * sz)) bs"
  shows "segment (((k * n + i) * P + q) * sz) sz (concat (map block [0..<outer])) =
    segment (((k * L + (start + i)) * P + q) * sz) sz bs"
proof -
  have "i * P + q < n * P" using i q by (rule mult_add_less)
  then have inner: "(i * P + q) * sz + sz \<le> n * (P * sz)"
    using mult_le_mono1 [of "Suc (i * P + q)" "n * P" sz] by (simp add: ac_simps)
  have blocks: "length (block j) = n * (P * sz)" if "j \<in> set [0..<outer]" for j
    using that window_block_bytes [OF len n, of j] by (simp add: block_def length_segment)
  have "segment (((k * n + i) * P + q) * sz) sz (concat (map block [0..<outer])) =
      segment ((i * P + q) * sz) sz (segment (k * (n * (P * sz))) (n * (P * sz)) (concat (map block [0..<outer])))"
    by (subst segment_segment [OF inner]) (simp add: algebra_simps)
  also have "segment (k * (n * (P * sz))) (n * (P * sz)) (concat (map block [0..<outer])) = block k"
    using concat_map_segment [of "[0..<outer]" block "n * (P * sz)" k] blocks k by simp
  also have "segment ((i * P + q) * sz) sz (block k) = segment (((k * L + (start + i)) * P + q) * sz) sz bs"
    unfolding block_def by (subst segment_segment [OF inner]) (simp add: algebra_simps)
  finally show ?thesis .
qed

lemma element_count_from_mono:
  "list_all2 (\<le>) s t \<Longrightarrow> acc \<le> acc' \<Longrightarrow> element_count_from acc' t = Some n \<Longrightarrow>
   \<exists>m \<le> n. element_count_from acc s = Some m"
proof (induction s t arbitrary: acc acc' rule: list_all2_induct)
  case (Cons d s d' t)
  have le: "acc * d \<le> acc' * d'" using Cons.hyps(1) Cons.prems(1) by (rule mult_le_mono [rotated])
  have "acc' * d' \<le> usize_max" "element_count_from (acc' * d') t = Some n"
    using Cons.prems(2) by (auto simp: checked_usize_def split: if_splits)
  then show ?case using Cons.IH [OF le] le by (simp add: checked_usize_def)
qed auto

lemma wf_array_shrink:
  assumes "wf_array a" "list_all2 (\<le>) s (shape a)" "length bs = prod_list s * dtype_size (arr_dtype a)"
  shows "wf_array \<lparr>arr_dtype = arr_dtype a, shape = s, bytes = bs\<rparr>"
proof -
  obtain n where n: "element_count_from 1 (shape a) = Some n" "n * dtype_size (arr_dtype a) \<le> usize_max"
    using assms(1)
    by (auto simp: wf_array_def check_bytes_def expected_bytes_def element_count_def result_elims)
  then obtain m where m: "m \<le> n" "element_count_from 1 s = Some m"
    using element_count_from_mono [OF assms(2), of 1 1 n] by auto
  have "m * dtype_size (arr_dtype a) \<le> usize_max"
    using mult_le_mono1 [OF m(1)] n(2) by (rule order_trans)
  moreover have "m = prod_list s" using element_count_from_Some [OF m(2)] by simp
  ultimately show ?thesis
    using m(2) assms(3)
    by (simp add: wf_array_def check_bytes_def expected_bytes_def element_count_def checked_usize_def)
qed

lemma in_shape_split:
  assumes "axis < length s"
  shows "in_shape (s[axis := n]) idx \<longleftrightarrow> length idx = length s \<and>
    in_shape (take axis s) (take axis idx) \<and> idx ! axis < n \<and>
    in_shape (drop (Suc axis) s) (drop (Suc axis) idx)"
proof (cases "length idx = length s")
  case True
  have "idx = take axis idx @ idx ! axis # drop (Suc axis) idx"
    using True assms by (simp add: id_take_nth_drop [symmetric])
  moreover have "s[axis := n] = take axis s @ n # drop (Suc axis) s"
    using assms by (rule upd_conv_take_nth_drop)
  ultimately show ?thesis
    using True assms unfolding in_shape_def
    by (metis (mono_tags, lifting) length_take list_all2_Cons list_all2_append min.absorb4 nat_less_le)
qed (auto simp: in_shape_def dest: list_all2_lengthD)

lemma sliced_index:
  assumes "axis < length s" "length idx = length s"
  shows "flat_index (s[axis := n]) idx =
    (flat_index (take axis s) (take axis idx) * n + idx ! axis) * prod_list (drop (Suc axis) s) +
    flat_index (drop (Suc axis) s) (drop (Suc axis) idx)"
proof -
  have "flat_index (s[axis := n]) idx =
      flat_index (take axis s @ n # drop (Suc axis) s) (take axis idx @ idx ! axis # drop (Suc axis) idx)"
    using assms by (simp add: upd_conv_take_nth_drop [symmetric] id_take_nth_drop [symmetric])
  also have "\<dots> = (flat_index (take axis s) (take axis idx) * n + idx ! axis) * prod_list (drop (Suc axis) s) +
      flat_index (drop (Suc axis) s) (drop (Suc axis) idx)"
    using assms by (subst flat_index_append) (simp_all add: algebra_simps)
  finally show ?thesis .
qed

lemma slice_axis_ok:
  assumes wf: "wf_array a" and axis: "axis < length (shape a)" and r: "lo \<le> hi" "hi \<le> shape a ! axis"
  obtains b where "slice_axis a axis (lo, hi) = Inr b" "arr_dtype b = arr_dtype a"
    "shape b = (shape a)[axis := hi - lo]" "wf_array b"
    "\<And>idx. in_shape (shape b) idx \<Longrightarrow> element_bytes b idx = element_bytes a (idx[axis := lo + idx ! axis])"
proof -
  define outer L P sz n where "outer = prod_list (take axis (shape a))" and "L = shape a ! axis"
    and "P = prod_list (drop (Suc axis) (shape a))" and "sz = dtype_size (arr_dtype a)" and "n = hi - lo"
  note defs = outer_def L_def P_def sz_def n_def
  have n: "lo + n \<le> L" using r by (simp add: defs)
  have len: "length (bytes a) = outer * (L * (P * sz))"
    using wf_array_length [OF wf] shape_split [OF axis] by (simp add: defs)
  define block where "block = (\<lambda>k. segment ((k * L + lo) * (P * sz)) (n * (P * sz)) (bytes a))"
  define b where "b = \<lparr>arr_dtype = arr_dtype a, shape = (shape a)[axis := n], bytes = concat (map block [0..<outer])\<rparr>"
  have slice: "slice_axis a axis (lo, hi) = Inr b"
    using axis r write_window_block_Inr [OF wf axis n [unfolded L_def], of "[]"]
    by (simp add: slice_axis_def Let_def b_def block_def defs)
  have blocks: "length (block k) = n * (P * sz)" if "k \<in> set [0..<outer]" for k
    using that window_block_bytes [OF len n, of k] by (simp add: block_def length_segment)
  have "prod_list ((shape a)[axis := n]) = outer * (n * P)"
    using shape_split [of axis "(shape a)[axis := n]"] axis by (simp add: defs)
  then have "length (concat (map block [0..<outer])) = prod_list ((shape a)[axis := n]) * sz"
    using length_concat_uniform [of "[0..<outer]" block, OF blocks] by simp
  moreover have "list_all2 (\<le>) ((shape a)[axis := n]) (shape a)"
    using axis n by (auto simp: list_all2_conv_all_nth nth_list_update L_def)
  ultimately have "wf_array b" unfolding b_def by (intro wf_array_shrink [OF wf]) (simp_all add: sz_def)
  moreover have "element_bytes b idx = element_bytes a (idx[axis := lo + idx ! axis])"
    if "in_shape (shape b) idx" for idx
  proof -
    have idx: "length idx = length (shape a)" "idx ! axis < n"
      "in_shape (take axis (shape a)) (take axis idx)"
      "in_shape (drop (Suc axis) (shape a)) (drop (Suc axis) idx)"
      using that in_shape_split [OF axis, of n idx] by (simp_all add: b_def)
    define k q where "k = flat_index (take axis (shape a)) (take axis idx)"
      and "q = flat_index (drop (Suc axis) (shape a)) (drop (Suc axis) idx)"
    have k: "k < outer" "q < P"
      using idx(3,4) flat_index_bound by (simp_all add: in_shape_def k_def q_def outer_def P_def)
    have "flat_index (shape a) (idx[axis := lo + idx ! axis]) = (k * L + (lo + idx ! axis)) * P + q"
      using sliced_index [OF axis, of "idx[axis := lo + idx ! axis]" L] idx(1) axis
      by (simp add: k_def q_def P_def L_def)
    moreover have "flat_index (shape b) idx = (k * n + idx ! axis) * P + q"
      using sliced_index [OF axis idx(1), of n] by (simp add: b_def k_def q_def P_def)
    ultimately show ?thesis
      using sliced_element [OF len n k(1) idx(2) k(2)]
      by (simp add: element_bytes_def b_def sz_def [symmetric] block_def)
  qed
  ultimately show ?thesis using slice by (intro that [of b]) (simp_all add: b_def n_def)
qed

lemma slice_axis_error:
  "\<not> (lo \<le> hi \<and> hi \<le> (if axis < length (shape a) then shape a ! axis else 0)) \<Longrightarrow>
   slice_axis a axis (lo, hi) = Inl (Raised (InvalidParameter ''slice out of bounds''))"
  by (auto simp: slice_axis_def Let_def)

section \<open>Steps\<close>

lemma ta_step_ok:
  assumes wf: "wf_array a" and i: "i < ta_length a"
  defines "w \<equiv> prod_list (element_shape a) * dtype_size (arr_dtype a)"
  shows "length (bytes a) = ta_length a * w"
    and "ta_step a i =
      Inr \<lparr>arr_dtype = arr_dtype a, shape = element_shape a, bytes = segment (i * w) w (bytes a)\<rparr>"
    and "wf_array \<lparr>arr_dtype = arr_dtype a, shape = element_shape a, bytes = segment (i * w) w (bytes a)\<rparr>"
proof -
  obtain n s where s: "shape a = n # s" using i by (cases "shape a") (simp_all add: ta_length_def)
  have n: "ta_length a = n" "element_shape a = s" by (simp_all add: ta_length_def element_shape_def s)
  show len: "length (bytes a) = ta_length a * w"
    using wf_array_length [OF wf] by (simp add: n s w_def)
  obtain m where m: "element_count_from n s = Some m" "m * dtype_size (arr_dtype a) \<le> usize_max"
    using wf by (auto simp: s wf_array_def check_bytes_def expected_bytes_def element_count_def
        result_elims checked_usize_def split: if_splits)
  obtain k where k: "k \<le> m" "element_count_from 1 s = Some k"
    using element_count_from_mono [OF list_all2_refl [where P = "(\<le>)"], of 1 n s m] m i n by auto
  have kw: "k * dtype_size (arr_dtype a) = w" using element_count_from_Some [OF k(2)] by (simp add: w_def n)
  have "w \<le> usize_max" using mult_le_mono1 [OF k(1)] m(2) unfolding kw [symmetric] by (rule order_trans)
  then have eb: "expected_bytes (arr_dtype a) s = Inr w"
    using k(2) kw by (simp add: expected_bytes_def element_count_def checked_usize_def)
  have le: "i * w + w \<le> length (bytes a)" using mult_le_mono1 [of "Suc i" n w] i by (simp add: len n)
  show wf': "wf_array \<lparr>arr_dtype = arr_dtype a, shape = element_shape a, bytes = segment (i * w) w (bytes a)\<rparr>"
    using eb le by (simp add: wf_array_def check_bytes_def n length_segment)
  then show "ta_step a i =
      Inr \<lparr>arr_dtype = arr_dtype a, shape = element_shape a, bytes = segment (i * w) w (bytes a)\<rparr>"
    using i le eb wf' by (simp add: ta_step_def n Let_def not_less raise_Inr_iff ta_new_Inr)
qed

lemma concat_segments: "length xs = n * w \<Longrightarrow> concat (map (\<lambda>i. segment (i * w) w xs) [0..<n]) = xs"
proof (induction n arbitrary: xs)
  case (Suc n)
  have "map (\<lambda>i. segment (i * w) w xs) [0..<Suc n] =
      segment 0 w xs # map (\<lambda>i. segment (i * w) w (drop w xs)) [0..<n]"
    by (simp add: segment_def comp_def add.commute upt_rec [of 0] map_Suc_upt [symmetric] del: upt_Suc)
  moreover have "concat (map (\<lambda>i. segment (i * w) w (drop w xs)) [0..<n]) = drop w xs"
    using Suc by simp
  ultimately show ?case by (simp add: segment_def del: upt_Suc)
qed simp

section \<open>Properties\<close>

text \<open>What \<open>to_vec\<close> decodes is what \<open>from_slice\<close> encoded, for every lawful element type (each of
  the eleven implementations of \<open>Element\<close> is one); and decoding one element by its flat index
  agrees with decoding them all, for every index, those included whose byte offset overflows.\<close>

lemma typed_array_roundtrip:
  assumes "element_codec E" "from_slice E s vs = Inr a" "wf_array a"
  shows "to_vec E a = Inr vs \<and>
    element_at E a i = (if i < length vs then Inr (vs ! i) else Inl ''element index is past the array'')"
  using element_codec.to_vec_from_slice [OF assms(1,2)] element_at_to_vec [OF assms(3)] by blast

text \<open>C8: slicing a well-formed array along any axis copies exactly the elements of the range: the
  result is well formed, has the range's extent on that axis, and each of its elements is the
  element of the source at the shifted index. A range outside the axis is refused, and nothing
  panics.\<close>

theorem slice_axis_correct:
  assumes "wf_array a" "axis < length (shape a)"
  shows "if lo \<le> hi \<and> hi \<le> shape a ! axis
    then \<exists>b. slice_axis a axis (lo, hi) = Inr b \<and> wf_array b \<and> shape b = (shape a)[axis := hi - lo] \<and>
      (\<forall>idx. in_shape (shape b) idx \<longrightarrow> element_bytes b idx = element_bytes a (idx[axis := lo + idx ! axis]))
    else slice_axis a axis (lo, hi) = Inl (Raised (InvalidParameter ''slice out of bounds''))"
proof (cases "lo \<le> hi \<and> hi \<le> shape a ! axis")
  case True
  then obtain b where "slice_axis a axis (lo, hi) = Inr b" "shape b = (shape a)[axis := hi - lo]" "wf_array b"
    "\<And>idx. in_shape (shape b) idx \<Longrightarrow> element_bytes b idx = element_bytes a (idx[axis := lo + idx ! axis])"
    using slice_axis_ok [OF assms, of lo hi] by metis
  with True show ?thesis by auto
next
  case False
  with assms(2) show ?thesis using slice_axis_error [of lo hi axis a] by simp
qed

definition demo_array :: typed_array where
  "demo_array = \<lparr>arr_dtype = U8, shape = [2, 3], bytes = [0, 1, 2, 3, 4, 5]\<rparr>"

lemma wf_demo: "wf_array demo_array"
  by (simp add: demo_array_def wf_array_def check_bytes_def expected_bytes_def element_count_def
      checked_usize_def usize_max_def)

theorem slice_axis_correct_witness:
  "\<exists>b. slice_axis demo_array 1 (1, 3) = Inr b \<and> shape b = [2, 2] \<and> element_bytes b [1, 0] = [4]"
proof -
  have "\<exists>b. slice_axis demo_array 1 (1, 3) = Inr b \<and> shape b = [2, 2] \<and>
      (\<forall>idx. in_shape (shape b) idx \<longrightarrow> element_bytes b idx = element_bytes demo_array (idx[1 := 1 + idx ! 1]))"
    using slice_axis_correct [OF wf_demo, of 1 1 3] by (auto simp: demo_array_def)
  then obtain b where b: "slice_axis demo_array 1 (1, 3) = Inr b" "shape b = [2, 2]"
    "\<And>idx. in_shape (shape b) idx \<Longrightarrow> element_bytes b idx = element_bytes demo_array (idx[1 := 1 + idx ! 1])"
    by blast
  then have "element_bytes b [1, 0] = [4]"
    using b(3) [of "[1, 0]"] by (simp add: in_shape_def element_bytes_def demo_array_def segment_def)
  with b show ?thesis by blast
qed

text \<open>The steps of a well-formed array partition it: every step below \<open>length\<close> exists, is well
  formed with the element shape, and the steps' bytes in order are the array's bytes. A step past
  the end is an error.\<close>

lemma step_partition:
  assumes "wf_array a"
  shows "(\<forall>i. ta_length a \<le> i \<longrightarrow> ta_step a i = Inl (Raised ''step index is past the array'')) \<and>
    (\<forall>i < ta_length a. \<exists>b. ta_step a i = Inr b \<and> wf_array b \<and> shape b = element_shape a) \<and>
    (0 < ta_length a \<longrightarrow>
      concat (map (\<lambda>i. case ta_step a i of Inr b \<Rightarrow> bytes b | Inl _ \<Rightarrow> []) [0..<ta_length a]) = bytes a)"
proof (intro conjI allI impI)
  define w where "w = prod_list (element_shape a) * dtype_size (arr_dtype a)"
  show "ta_step a i = Inl (Raised ''step index is past the array'')" if "ta_length a \<le> i" for i
    using that by (simp add: ta_step_def)
  show "\<exists>b. ta_step a i = Inr b \<and> wf_array b \<and> shape b = element_shape a" if "i < ta_length a" for i
    using ta_step_ok [OF assms that] by simp
  assume "0 < ta_length a"
  then have "length (bytes a) = ta_length a * w" using ta_step_ok(1) [OF assms] by (simp add: w_def)
  moreover have "map (\<lambda>i. case ta_step a i of Inr b \<Rightarrow> bytes b | Inl _ \<Rightarrow> []) [0..<ta_length a] =
      map (\<lambda>i. segment (i * w) w (bytes a)) [0..<ta_length a]"
    using ta_step_ok(2) [OF assms] by (intro map_cong) (simp_all add: w_def)
  ultimately show "concat (map (\<lambda>i. case ta_step a i of Inr b \<Rightarrow> bytes b | Inl _ \<Rightarrow> []) [0..<ta_length a]) = bytes a"
    by (simp only: concat_segments)
qed

end
