(* ===== verification/ElementType.thy ===== *)
theory ElementType
  imports TypedArray
begin

text \<open>
  \<open>crates/infrastore-core/src/types/element_type.rs\<close>: what the elements of an array mean, the spelling
  of an element type, and the validation of an array against it. A float is its 64 bits; the tests the
  code makes on a leading count (\<open>is_finite\<close>, \<open>>= 0.0\<close>, \<open>fract() == 0.0\<close>, \<open>as usize\<close>) are written out on
  sign, exponent and mantissa.
\<close>

section \<open>Floats by their bits\<close>

definition f64_sign :: "64 word \<Rightarrow> nat" where "f64_sign w = unat w div 2 ^ 63"
definition f64_exp :: "64 word \<Rightarrow> nat" where "f64_exp w = unat w div 2 ^ 52 mod 2 ^ 11"
definition f64_mant :: "64 word \<Rightarrow> nat" where "f64_mant w = unat w mod 2 ^ 52"

definition f64_is_finite :: "64 word \<Rightarrow> bool" where "f64_is_finite w \<longleftrightarrow> f64_exp w \<noteq> 2047"

text \<open>\<open>w >= 0.0\<close> for a finite \<open>w\<close>: both zeros compare equal.\<close>

definition f64_nonneg :: "64 word \<Rightarrow> bool" where
  "f64_nonneg w \<longleftrightarrow> f64_sign w = 0 \<or> f64_exp w = 0 \<and> f64_mant w = 0"

definition f64_fract_zero :: "64 word \<Rightarrow> bool" where
  "f64_fract_zero w \<longleftrightarrow>
     (if f64_exp w = 0 then f64_mant w = 0
      else 1075 \<le> f64_exp w \<or> 2 ^ (1075 - f64_exp w) dvd 2 ^ 52 + f64_mant w)"

text \<open>\<open>w as usize\<close>: towards zero, saturating, a NaN as 0.\<close>

definition f64_as_usize :: "64 word \<Rightarrow> nat" where
  "f64_as_usize w =
     (if f64_exp w = 2047 then (if f64_mant w = 0 \<and> f64_sign w = 0 then usize_max else 0)
      else if f64_sign w \<noteq> 0 \<or> f64_exp w = 0 then 0
      else if 1075 \<le> f64_exp w then min ((2 ^ 52 + f64_mant w) * 2 ^ (f64_exp w - 1075)) usize_max
      else (2 ^ 52 + f64_mant w) div 2 ^ (1075 - f64_exp w))"

section \<open>Element types\<close>

datatype element_type =
    ScalarOf dtype
  | TupleOf nat dtype
  | LinearFunctionType
  | QuadraticFunctionType
  | PiecewiseLinearType
  | PiecewiseStepType

definition default_element_type :: element_type where
  "default_element_type = ScalarOf F64"

fun physical_dtype :: "element_type \<Rightarrow> dtype" where
  "physical_dtype (ScalarOf d) = d"
| "physical_dtype (TupleOf _ d) = d"
| "physical_dtype _ = F64"

fun is_ragged :: "element_type \<Rightarrow> bool" where
  "is_ragged PiecewiseLinearType = True"
| "is_ragged PiecewiseStepType = True"
| "is_ragged _ = False"

fun fixed_element_dims :: "element_type \<Rightarrow> nat list option" where
  "fixed_element_dims (ScalarOf _) = None"
| "fixed_element_dims (TupleOf arity _) = Some [arity]"
| "fixed_element_dims LinearFunctionType = Some [2]"
| "fixed_element_dims QuadraticFunctionType = Some [3]"
| "fixed_element_dims PiecewiseLinearType = None"
| "fixed_element_dims PiecewiseStepType = None"

fun show_element_type :: "element_type \<Rightarrow> string" where
  "show_element_type (ScalarOf d) = dtype_str d"
| "show_element_type (TupleOf arity d) = ''tuple('' @ show_nat arity @ '','' @ dtype_str d @ '')''"
| "show_element_type LinearFunctionType = ''linear_function''"
| "show_element_type QuadraticFunctionType = ''quadratic_function''"
| "show_element_type PiecewiseLinearType = ''piecewise_linear''"
| "show_element_type PiecewiseStepType = ''piecewise_step''"

definition parse_tuple :: "string \<Rightarrow> element_type option" where
  "parse_tuple s =
     Option.bind (strip_prefix ''tuple('' s) (\<lambda>rest.
     Option.bind (strip_suffix '')'' rest) (\<lambda>inner.
     Option.bind (split_once (CHR '','') inner) (\<lambda>(arity, dtype).
     Option.bind (parse_usize (trim arity)) (\<lambda>n.
       if n = 0 then None
       else map_option (TupleOf n) (dtype_parse (trim dtype))))))"

definition parse_element_type :: "string \<Rightarrow> element_type option" where
  "parse_element_type s =
     (case dtype_parse s of
        Some d \<Rightarrow> Some (ScalarOf d)
      | None \<Rightarrow>
          if s = ''linear_function'' then Some LinearFunctionType
          else if s = ''quadratic_function'' then Some QuadraticFunctionType
          else if s = ''piecewise_linear'' then Some PiecewiseLinearType
          else if s = ''piecewise_step'' then Some PiecewiseStepType
          else parse_tuple s)"

definition element_type_from_str :: "string \<Rightarrow> element_type result" where
  "element_type_from_str s = ok_or (parse_element_type s) (InvalidParameter ''unknown element_type'')"

section \<open>Validation\<close>

definition validate_element_dims :: "element_type \<Rightarrow> nat list \<Rightarrow> unit result" where
  "validate_element_dims t dims =
     (case fixed_element_dims t of
        Some expected \<Rightarrow> if dims \<noteq> expected then Inl (InvalidParameter ''per-step element dims'') else Inr ()
      | None \<Rightarrow>
          if \<not> is_ragged t then Inr ()
          else (case dims of
              [width] \<Rightarrow>
                if width < 1 then Inl (InvalidParameter ''row width of at least 1'')
                else let ok = (case t of
                    PiecewiseLinearType \<Rightarrow> width mod 2 = 1
                  | PiecewiseStepType \<Rightarrow> width = 1 \<or> width mod 2 = 0
                  | _ \<Rightarrow> True)
                in if \<not> ok then Inl (InvalidParameter ''row width'') else Inr ()
            | _ \<Rightarrow> Inl (InvalidParameter ''exactly one per-step element dim'')))"

text \<open>The slots a row with \<open>n\<close> points needs; \<open>None\<close> when \<open>usize\<close> cannot hold the number.\<close>

definition slots_needed :: "element_type \<Rightarrow> nat \<Rightarrow> nat option" where
  "slots_needed t n =
     (case t of
        PiecewiseLinearType \<Rightarrow> Option.bind (checked_usize (n * 2)) (\<lambda>k. checked_usize (k + 1))
      | _ \<Rightarrow> if n = 0 then Some 1 else checked_usize (n * 2))"

fun validate_rows :: "element_type \<Rightarrow> nat \<Rightarrow> byte list list \<Rightarrow> ts_error failure + unit" where
  "validate_rows t width [] = Inr ()"
| "validate_rows t width (chunk # chunks) =
     (if length chunk < 8 then Inl Panicked
      else let raw = from_le_bytes f64_element (take 8 chunk)
        in if \<not> (f64_is_finite raw \<and> f64_nonneg raw \<and> f64_fract_zero raw)
           then Inl (Raised (InvalidParameter ''leading count is not a non-negative whole number''))
           else (case slots_needed t (f64_as_usize raw) of
               None \<Rightarrow> Inl (Raised (InvalidParameter ''row declares too many points''))
             | Some needed \<Rightarrow>
                 if width < needed then Inl (Raised (InvalidParameter ''row declares too many points''))
                 else validate_rows t width chunks))"

definition validate_ragged_rows :: "element_type \<Rightarrow> typed_array \<Rightarrow> nat \<Rightarrow> ts_error failure + unit" where
  "validate_ragged_rows t a width =
     (let stride = wrapping (width * dtype_size F64)
      in if stride = 0 then Inl Panicked else validate_rows t width (chunks_exact stride (bytes a)))"

definition validate_array :: "element_type \<Rightarrow> typed_array \<Rightarrow> nat \<Rightarrow> ts_error failure + unit" where
  "validate_array t a leading_dims =
     (if arr_dtype a \<noteq> physical_dtype t then Inl (Raised (InvalidParameter ''dtype''))
      else if length (shape a) < leading_dims then Inl (Raised (InvalidParameter ''fewer leading dims''))
      else let dims = drop leading_dims (shape a)
        in rbind (raise (validate_element_dims t dims))
             (\<lambda>_. if is_ragged t then validate_ragged_rows t a (dims ! 0) else Inr ()))"

section \<open>Spelling\<close>

definition valid_element_type :: "element_type \<Rightarrow> bool" where
  "valid_element_type t = (case t of TupleOf arity _ \<Rightarrow> 0 < arity \<and> arity \<le> usize_max | _ \<Rightarrow> True)"

lemma dtype_parse_Some: "dtype_parse s = Some d \<Longrightarrow> s = dtype_str d"
  by (auto simp: dtype_parse_def find_Some_iff)

lemma dtype_parse_long: "8 \<le> length s \<Longrightarrow> dtype_parse s = None"
proof (rule ccontr)
  assume "8 \<le> length s" "dtype_parse s \<noteq> None"
  then obtain d where "s = dtype_str d" using dtype_parse_Some by blast
  with \<open>8 \<le> length s\<close> show False by (cases d) simp_all
qed

lemma trim_show_nat: "trim (show_nat n) = show_nat n"
proof (rule trim_id)
  have "\<not> is_whitespace c" if "c \<in> set (show_nat n)" for c
    using show_nat_digits [OF that] by (auto simp: is_whitespace_def is_ascii_digit_def code_of_def)
  then show "show_nat n = [] \<or> \<not> is_whitespace (hd (show_nat n)) \<and> \<not> is_whitespace (last (show_nat n))" by simp
qed

lemma trim_dtype_str: "trim (dtype_str d) = dtype_str d"
  by (cases d) (simp_all add: trim_def is_whitespace_def code_of_def)

lemma parse_tuple_show:
  assumes "0 < n" "n \<le> usize_max"
  shows "parse_tuple (show_element_type (TupleOf n d)) = Some (TupleOf n d)"
proof -
  have comma: "CHR '','' \<notin> set (show_nat n)"
    using show_nat_digits [of "CHR '',''" n] by (auto simp: is_ascii_digit_def code_of_def)
  have "strip_prefix ''tuple('' (show_element_type (TupleOf n d)) = Some ((show_nat n @ '','' @ dtype_str d) @ '')'')"
    using strip_prefix_append [of "''tuple(''"] by simp
  moreover have "strip_suffix '')'' ((show_nat n @ '','' @ dtype_str d) @ '')'') = Some (show_nat n @ '','' @ dtype_str d)"
    by (rule strip_suffix_append)
  moreover have "split_once (CHR '','') (show_nat n @ '','' @ dtype_str d) = Some (show_nat n, dtype_str d)"
    using split_once_append [OF comma] by simp
  ultimately show ?thesis
    using assms by (simp only: parse_tuple_def bind.bind_lunit prod.case trim_show_nat trim_dtype_str
        parse_usize_show_nat dtype_parse_str) simp
qed

lemma parse_show_element_type: "valid_element_type t \<Longrightarrow> parse_element_type (show_element_type t) = Some t"
proof (cases t)
  case (TupleOf n d)
  assume v: "valid_element_type t"
  have "dtype_parse (show_element_type t) = None" by (rule dtype_parse_long) (simp add: TupleOf)
  moreover have "parse_tuple (show_element_type t) = Some t"
    using v parse_tuple_show by (simp only: TupleOf valid_element_type_def element_type.case)
  ultimately show ?thesis by (simp add: parse_element_type_def TupleOf)
qed (simp_all add: parse_element_type_def dtype_parse_str dtype_parse_long)

lemma parse_element_type_valid: "parse_element_type s = Some t \<Longrightarrow> valid_element_type t"
  by (auto simp: parse_element_type_def parse_tuple_def valid_element_type_def parse_usize_def parse_unsigned_def
      split: option.splits if_splits Option.bind_splits)

end
