(* ===== verification/Codec.thy ===== *)
theory Codec
  imports ElementType
begin

text \<open>
  \<open>crates/infrastore-core/src/codec.rs\<close>: decoding an array into the per-timestep values its element
  type describes, and encoding such values into an array. Rows are lists of float bit patterns.
\<close>

section \<open>Decoded values\<close>

record xy_point =
  px :: "64 word"
  py :: "64 word"

record linear_function =
  lin_proportional :: "64 word"
  lin_constant :: "64 word"

record quadratic_function =
  quad_quadratic :: "64 word"
  quad_proportional :: "64 word"
  quad_constant :: "64 word"

record step_function =
  step_x :: "64 word list"
  step_y :: "64 word list"

datatype decoded_values =
    RawValues
  | TupleValues "64 word list list"
  | LinearValues "linear_function list"
  | QuadraticValues "quadratic_function list"
  | PiecewiseLinearValues "xy_point list list"
  | PiecewiseStepValues "step_function list"

fun decoded_len :: "decoded_values \<Rightarrow> nat" where
  "decoded_len RawValues = 0"
| "decoded_len (TupleValues rows) = length rows"
| "decoded_len (LinearValues rows) = length rows"
| "decoded_len (QuadraticValues rows) = length rows"
| "decoded_len (PiecewiseLinearValues rows) = length rows"
| "decoded_len (PiecewiseStepValues rows) = length rows"

definition decoded_is_empty :: "decoded_values \<Rightarrow> bool" where
  "decoded_is_empty v \<longleftrightarrow> decoded_len v = 0"

section \<open>Decoding\<close>

text \<open>A row whose count does not fit it would be indexed out of bounds.\<close>

definition decode_linear_row :: "64 word list \<Rightarrow> ts_error failure + xy_point list" where
  "decode_linear_row r =
     (let n = f64_as_usize (r ! 0)
      in if length r < 1 \<or> n \<noteq> 0 \<and> length r < 2 * n + 1 then Inl Panicked
         else Inr (map (\<lambda>k. \<lparr>px = r ! (1 + 2 * k), py = r ! (2 + 2 * k)\<rparr>) [0..<n]))"

definition decode_step_row :: "64 word list \<Rightarrow> ts_error failure + step_function" where
  "decode_step_row r =
     (let n = f64_as_usize (r ! 0); used = (if n = 0 then 1 else 2 * n)
      in if length r < 1 \<or> length r < 1 + n \<or> length r < used then Inl Panicked
         else Inr \<lparr>step_x = segment 1 n r, step_y = segment (1 + n) (used - (1 + n)) r\<rparr>)"

definition decode :: "typed_array \<Rightarrow> element_type \<Rightarrow> nat \<Rightarrow> ts_error failure + decoded_values" where
  "decode a t leading_dims =
     rbind (validate_array t a leading_dims) (\<lambda>_.
       if arr_dtype a \<noteq> F64 then Inr RawValues
       else rbind (raise (map_err IntegrityError (to_vec f64_element a))) (\<lambda>values.
         let rows = (\<lambda>width f. if width = 0
               then Inl (Raised (InvalidParameter ''no values per timestep'')) else f (chunks_exact width values))
         in case t of
              ScalarOf _ \<Rightarrow> Inr RawValues
            | TupleOf arity _ \<Rightarrow> rows arity (\<lambda>rs. Inr (TupleValues rs))
            | LinearFunctionType \<Rightarrow>
                rows 2 (\<lambda>rs. Inr (LinearValues (map (\<lambda>r. \<lparr>lin_proportional = r ! 0, lin_constant = r ! 1\<rparr>) rs)))
            | QuadraticFunctionType \<Rightarrow>
                rows 3 (\<lambda>rs. Inr (QuadraticValues
                  (map (\<lambda>r. \<lparr>quad_quadratic = r ! 0, quad_proportional = r ! 1, quad_constant = r ! 2\<rparr>) rs)))
            | PiecewiseLinearType \<Rightarrow>
                rows (shape a ! leading_dims)
                  (\<lambda>rs. rbind (rmap_all decode_linear_row rs) (\<lambda>vs. Inr (PiecewiseLinearValues vs)))
            | PiecewiseStepType \<Rightarrow>
                rows (shape a ! leading_dims)
                  (\<lambda>rs. rbind (rmap_all decode_step_row rs) (\<lambda>vs. Inr (PiecewiseStepValues vs)))))"

section \<open>Encoding\<close>

fun floor_log2 :: "nat \<Rightarrow> nat" where
  "floor_log2 n = (if n < 2 then 0 else Suc (floor_log2 (n div 2)))"

declare floor_log2.simps [simp del]

text \<open>\<open>n as f64\<close>: exact up to 53 bits, otherwise rounded to nearest with ties to even.\<close>

definition f64_of_nat :: "nat \<Rightarrow> 64 word" where
  "f64_of_nat n =
     (if n = 0 then 0
      else let e = floor_log2 n
        in if e \<le> 52 then word_of_nat ((e + 1023) * 2 ^ 52 + (n * 2 ^ (52 - e) - 2 ^ 52))
           else let q = n div 2 ^ (e - 52); r = n mod 2 ^ (e - 52); half = 2 ^ (e - 53);
               m = (if half < r \<or> r = half \<and> odd q then q + 1 else q)
             in word_of_nat ((e + 1023) * 2 ^ 52 + (m - 2 ^ 52)))"

definition linear_points :: "xy_point list \<Rightarrow> 64 word list" where
  "linear_points pts = concat (map (\<lambda>p. [px p, py p]) pts)"

text \<open>A row of a ragged kind: the count, the used slots, zeros up to the width.\<close>

definition padded_row :: "nat \<Rightarrow> nat \<Rightarrow> 64 word list \<Rightarrow> 64 word list" where
  "padded_row width n used = f64_of_nat n # used @ replicate (width - 1 - length used) 0"

definition max_len :: "('a \<Rightarrow> nat) \<Rightarrow> 'a list \<Rightarrow> nat" where
  "max_len f xs = foldr (\<lambda>x m. max (f x) m) xs 0"

fun encode_flat :: "decoded_values \<Rightarrow> (nat \<times> 64 word list) result" where
  "encode_flat RawValues = Inl (InvalidParameter ''Raw carries no values'')"
| "encode_flat (TupleValues rows) =
     (let width = (case rows of [] \<Rightarrow> 0 | r # _ \<Rightarrow> length r)
      in if width = 0 then Inl (InvalidParameter ''an empty tuple carries no arity'')
         else if \<not> list_all (\<lambda>r. length r = width) rows
         then Inl (InvalidParameter ''tuple rows must all have the same arity'')
         else Inr (width, concat rows))"
| "encode_flat (LinearValues rows) =
     Inr (2, concat (map (\<lambda>f. [lin_proportional f, lin_constant f]) rows))"
| "encode_flat (QuadraticValues rows) =
     Inr (3, concat (map (\<lambda>f. [quad_quadratic f, quad_proportional f, quad_constant f]) rows))"
| "encode_flat (PiecewiseLinearValues rows) =
     (let width = 1 + 2 * max_len length rows
      in Inr (width, concat (map (\<lambda>pts. padded_row width (length pts) (linear_points pts)) rows)))"
| "encode_flat (PiecewiseStepValues rows) =
     (if \<not> list_all (\<lambda>s. length (step_y s) = length (step_x s) - 1) rows
      then Inl (InvalidParameter ''piecewise_step row needs one y-value fewer'')
      else let width = max (2 * max_len (\<lambda>s. length (step_x s)) rows) 1
        in Inr (width, concat (map (\<lambda>s. padded_row width (length (step_x s)) (step_x s @ step_y s)) rows)))"

definition encode :: "decoded_values \<Rightarrow> nat list \<Rightarrow> typed_array result" where
  "encode v leading_dims =
     rbind (encode_flat v) (\<lambda>(width, flat).
       let rows = (if width = 0 then 0 else length flat div width)
       in if rows \<noteq> wrapping (prod_list leading_dims)
          then Inl (InvalidParameter ''decoded timesteps do not fill leading dims'')
          else map_err InvalidParameter (from_slice f64_element (leading_dims @ [width]) flat))"

definition encode_as :: "decoded_values \<Rightarrow> nat list \<Rightarrow> element_type \<Rightarrow> ts_error failure + typed_array" where
  "encode_as v leading_dims t =
     rbind (raise
       (case (v, t) of
          (TupleValues [], TupleOf arity _) \<Rightarrow>
            if wrapping (prod_list leading_dims) \<noteq> 0
            then Inl (InvalidParameter ''decoded timesteps do not fill leading dims'')
            else map_err InvalidParameter (ta_new F64 (leading_dims @ [arity]) [])
        | _ \<Rightarrow> encode v leading_dims))
       (\<lambda>a. rbind (validate_array t a (length leading_dims)) (\<lambda>_. Inr a))"

fun element_type_of :: "decoded_values \<Rightarrow> element_type option" where
  "element_type_of RawValues = None"
| "element_type_of (TupleValues rows) = Some (TupleOf (case rows of [] \<Rightarrow> 0 | r # _ \<Rightarrow> length r) F64)"
| "element_type_of (LinearValues _) = Some LinearFunctionType"
| "element_type_of (QuadraticValues _) = Some QuadraticFunctionType"
| "element_type_of (PiecewiseLinearValues _) = Some PiecewiseLinearType"
| "element_type_of (PiecewiseStepValues _) = Some PiecewiseStepType"

section \<open>Counts as floats\<close>

lemma floor_log2_bounds: "0 < n \<Longrightarrow> 2 ^ floor_log2 n \<le> n \<and> n < 2 ^ Suc (floor_log2 n)"
proof (induction n rule: floor_log2.induct)
  case (1 n)
  show ?case
  proof (cases "n < 2")
    case True
    then show ?thesis using 1 by (simp add: floor_log2.simps [of n])
  next
    case False
    then have "2 ^ floor_log2 (n div 2) \<le> n div 2 \<and> n div 2 < 2 ^ Suc (floor_log2 (n div 2))"
      using 1 by simp
    then show ?thesis using False by (simp add: floor_log2.simps [of n]) linarith
  qed
qed

lemma f64_of_nat_fields:
  assumes "0 < n" "n < 2 ^ 53"
  defines "e \<equiv> floor_log2 n"
  shows "e \<le> 52" and "f64_sign (f64_of_nat n) = 0" and "f64_exp (f64_of_nat n) = e + 1023"
    and "f64_mant (f64_of_nat n) = n * 2 ^ (52 - e) - 2 ^ 52" and "2 ^ 52 \<le> n * 2 ^ (52 - e)"
proof -
  note b = floor_log2_bounds [OF assms(1)]
  show e: "e \<le> 52"
  proof (rule ccontr)
    assume "\<not> e \<le> 52"
    then have "(2::nat) ^ 53 \<le> 2 ^ e" by (intro power_increasing) simp_all
    then show False using b assms(2) by (simp add: e_def)
  qed
  define p where "p = (2::nat) ^ (52 - e)"
  have p: "2 ^ e * p = 2 ^ 52" using e by (simp add: p_def flip: power_add)
  have lo: "2 ^ 52 \<le> n * p" using b p by (metis e_def mult_le_mono1)
  have "n * p < 2 ^ Suc e * p" using b by (simp add: e_def p_def)
  then have hi: "n * p < 2 ^ 53" by (simp only: power_Suc mult.assoc p) simp
  then show "2 ^ 52 \<le> n * 2 ^ (52 - e)" using lo by (simp add: p_def)
  define m where "m = n * p - 2 ^ 52"
  have m: "m < 2 ^ 52" using hi lo by (simp add: m_def)
  have w: "f64_of_nat n = word_of_nat ((e + 1023) * 2 ^ 52 + m)"
    using assms(1) e by (simp add: f64_of_nat_def e_def [symmetric] Let_def m_def p_def)
  have "(e + 1023) * 2 ^ 52 + m < 2 ^ 63" using e m by simp
  then have u: "unat (f64_of_nat n) = (e + 1023) * 2 ^ 52 + m"
    unfolding w unat_of_nat by (intro mod_less) simp
  show "f64_sign (f64_of_nat n) = 0" using e m by (simp add: f64_sign_def u)
  show "f64_exp (f64_of_nat n) = e + 1023" using e m by (simp add: f64_exp_def u)
  show "f64_mant (f64_of_nat n) = n * 2 ^ (52 - e) - 2 ^ 52" unfolding f64_mant_def u mod_mult_self3 mod_less [OF m]
    by (simp add: m_def p_def)
qed

lemma f64_of_nat_count:
  assumes "n < 2 ^ 53"
  shows "f64_is_finite (f64_of_nat n)" "f64_nonneg (f64_of_nat n)" "f64_fract_zero (f64_of_nat n)"
    "f64_as_usize (f64_of_nat n) = n"
proof -
  have "f64_is_finite (f64_of_nat n) \<and> f64_nonneg (f64_of_nat n) \<and> f64_fract_zero (f64_of_nat n) \<and>
      f64_as_usize (f64_of_nat n) = n"
  proof (cases "n = 0")
    case True
    then show ?thesis
      by (simp add: f64_of_nat_def f64_is_finite_def f64_nonneg_def f64_fract_zero_def f64_as_usize_def
          f64_exp_def f64_mant_def f64_sign_def)
  next
    case False
    note f = f64_of_nat_fields [OF _ assms]
    define e where "e = floor_log2 n"
    have mant: "2 ^ 52 + f64_mant (f64_of_nat n) = n * 2 ^ (52 - e)" using f False by (simp add: e_def)
    have fields: "f64_sign (f64_of_nat n) = 0" "f64_exp (f64_of_nat n) = e + 1023" "e \<le> 52"
      using f False by (simp_all add: e_def)
    show ?thesis
    proof (cases "e = 52")
      case True
      then show ?thesis using fields mant assms
        by (simp add: f64_is_finite_def f64_nonneg_def f64_fract_zero_def f64_as_usize_def usize_max_def)
    next
      case e: False
      then have "1075 - (e + 1023) = 52 - e" "\<not> 1075 \<le> e + 1023" using fields(3) by simp_all
      then show ?thesis using fields mant
        by (simp add: f64_is_finite_def f64_nonneg_def f64_fract_zero_def f64_as_usize_def)
    qed
  qed
  then show "f64_is_finite (f64_of_nat n)" "f64_nonneg (f64_of_nat n)" "f64_fract_zero (f64_of_nat n)"
    "f64_as_usize (f64_of_nat n) = n" by simp_all
qed

section \<open>Rows of a stored array\<close>

lemma chunks_nested:
  assumes "0 < m" "0 < k"
  shows "chunks_exact (m * k) xs = map (\<lambda>i. segment (i * (m * k)) (m * k) xs) [0..<length xs div (m * k)]"
  by (simp add: chunks_exact_def)

text \<open>The first element of the \<open>i\<close>-th row, read from the bytes and from the decoded values.\<close>

lemma row_of_bytes:
  assumes w: "0 < w" and i: "i < length (bytes a) div (w * 8)" and vals: "to_vec f64_element a = Inr values"
  shows "chunks_exact w values ! i = map (from_le_bytes f64_element) (chunks_exact 8 (chunks_exact (w * 8) (bytes a) ! i))"
    and "i < length values div w"
    and "from_le_bytes f64_element (take 8 (chunks_exact (w * 8) (bytes a) ! i)) = chunks_exact w values ! i ! 0"
    and "length (chunks_exact w values ! i) = w"
proof -
  have vs: "values = map (from_le_bytes f64_element) (chunks_exact 8 (bytes a))"
    using vals by (auto simp: to_vec_def f64_element_def numeric_element_def split: if_splits)
  have len: "length values = length (bytes a) div 8" by (simp add: vs)
  have "length (bytes a) div (w * 8) = length values div w" by (simp add: len div_mult2_eq mult.commute [of w])
  then show iv: "i < length values div w" using i by simp
  then have "Suc i * w \<le> length values"
    by (metis Suc_leI div_times_less_eq_dividend mult_le_mono1 order_trans)
  then have le: "i * w + w \<le> length values" by simp
  show row: "chunks_exact w values ! i = map (from_le_bytes f64_element) (chunks_exact 8 (chunks_exact (w * 8) (bytes a) ! i))"
  proof -
    have "chunks_exact w values ! i = segment (i * w) w values" by (rule chunks_exact_nth [OF iv])
    also have "\<dots> = map (from_le_bytes f64_element) (segment (i * w) w (chunks_exact 8 (bytes a)))"
      by (simp add: vs segment_def drop_map take_map)
    also have "segment (i * w) w (chunks_exact 8 (bytes a)) = chunks_exact 8 (segment (i * w * 8) (w * 8) (bytes a))"
      using le len by (intro chunks_exact_segment [symmetric]) simp_all
    also have "segment (i * w * 8) (w * 8) (bytes a) = chunks_exact (w * 8) (bytes a) ! i"
      using chunks_exact_nth [OF i] by (simp add: mult.assoc)
    finally show ?thesis .
  qed
  show lw: "length (chunks_exact w values ! i) = w"
    using chunks_exact_nth [OF iv] length_segment [OF le] by simp
  have "0 < length (chunks_exact 8 (chunks_exact (w * 8) (bytes a) ! i))" using lw w unfolding row by simp
  then have "chunks_exact 8 (chunks_exact (w * 8) (bytes a) ! i) ! 0 = take 8 (chunks_exact (w * 8) (bytes a) ! i)"
    by (subst chunks_exact_nth) (simp_all add: segment_def)
  then show "from_le_bytes f64_element (take 8 (chunks_exact (w * 8) (bytes a) ! i)) = chunks_exact w values ! i ! 0"
    unfolding row using \<open>0 < length (chunks_exact 8 (chunks_exact (w * 8) (bytes a) ! i))\<close> by simp
qed

text \<open>A count the validation accepts.\<close>

definition count_fits :: "element_type \<Rightarrow> nat \<Rightarrow> 64 word \<Rightarrow> bool" where
  "count_fits t width raw \<longleftrightarrow> f64_is_finite raw \<and> f64_nonneg raw \<and> f64_fract_zero raw \<and>
     (\<exists>needed \<le> width. slots_needed t (f64_as_usize raw) = Some needed)"

lemma validate_rows_Inr:
  "list_all (\<lambda>c. 8 \<le> length c) chunks \<Longrightarrow> validate_rows t width chunks = Inr () \<longleftrightarrow>
    list_all (\<lambda>c. count_fits t width (from_le_bytes f64_element (take 8 c))) chunks"
  by (induction chunks) (auto simp: count_fits_def Let_def split: option.splits)

lemma validate_rows_no_panic:
  "list_all (\<lambda>c. 8 \<le> length c) chunks \<Longrightarrow> validate_rows t width chunks \<noteq> Inl Panicked"
  by (induction chunks) (auto simp: Let_def not_less split: option.splits)

text \<open>What the validation of a ragged array establishes, and the one way it can panic.\<close>

definition stride_vanishes :: "nat \<Rightarrow> bool" where
  "stride_vanishes width \<longleftrightarrow> wrapping (width * 8) = 0"

lemma stride_exact:
  assumes "wf_array a" "arr_dtype a = F64" "shape a = lead @ [w]" "0 < w" "\<not> stride_vanishes w"
  shows "chunks_exact (wrapping (w * 8)) (bytes a) = chunks_exact (w * 8) (bytes a)"
proof (cases "bytes a = []")
  case True
  then show ?thesis by (simp add: chunks_exact_def)
next
  case False
  have "length (bytes a) = prod_list lead * (w * 8)" using wf_array_length [OF assms(1)] assms(2,3) by simp
  moreover from this have "0 < prod_list lead" using False by (cases "prod_list lead") auto
  ultimately have "w * 8 \<le> usize_max"
    using wf_array_bounded [OF assms(1)] by (metis le_add1 mult_Suc mult_eq_if not_less_zero order_trans)
  then show ?thesis by (simp add: wrapping_def)
qed

lemma chunks_exact_lengths: "0 < k \<Longrightarrow> list_all (\<lambda>c. length c = k) (chunks_exact k xs)"
proof (simp only: list_all_length length_chunks_exact, intro allI impI)
  fix i assume k: "0 < k" and i: "i < length xs div k"
  then have "Suc i * k \<le> length xs" by (metis Suc_leI div_times_less_eq_dividend mult_le_mono1 order_trans)
  then show "length (chunks_exact k xs ! i) = k" using chunks_exact_nth [OF i] by (simp add: length_segment)
qed

lemma validate_ragged_rows_iff:
  assumes wf: "wf_array a" "arr_dtype a = F64" "shape a = lead @ [w]" "0 < w"
    and vals: "to_vec f64_element a = Inr values"
  shows "validate_ragged_rows t a w = Inr () \<longleftrightarrow>
      \<not> stride_vanishes w \<and> list_all (\<lambda>r. count_fits t w (r ! 0)) (chunks_exact w values)"
    and "validate_ragged_rows t a w = Inl Panicked \<longleftrightarrow> stride_vanishes w"
proof -
  have ge: "list_all (\<lambda>c. 8 \<le> length c) (chunks_exact (w * 8) (bytes a))"
    using chunks_exact_lengths [of "w * 8" "bytes a"] wf(4) by (auto simp: list_all_iff)
  have same: "list_all (\<lambda>c. count_fits t w (from_le_bytes f64_element (take 8 c))) (chunks_exact (w * 8) (bytes a)) \<longleftrightarrow>
      list_all (\<lambda>r. count_fits t w (r ! 0)) (chunks_exact w values)"
  proof -
    have "length (chunks_exact (w * 8) (bytes a)) = length (chunks_exact w values)"
      using vals by (auto simp: to_vec_def f64_element_def numeric_element_def div_mult2_eq mult.commute [of w] split: if_splits)
    moreover have "from_le_bytes f64_element (take 8 (chunks_exact (w * 8) (bytes a) ! i)) = chunks_exact w values ! i ! 0"
      if "i < length (chunks_exact (w * 8) (bytes a))" for i
      using row_of_bytes(3) [OF wf(4) _ vals] that by simp
    ultimately show ?thesis unfolding list_all_length by auto
  qed
  show "validate_ragged_rows t a w = Inr () \<longleftrightarrow>
      \<not> stride_vanishes w \<and> list_all (\<lambda>r. count_fits t w (r ! 0)) (chunks_exact w values)"
  proof (cases "stride_vanishes w")
    case False
    then show ?thesis
      using validate_rows_Inr [OF ge] same stride_exact [OF wf(1-4) False]
      by (simp add: validate_ragged_rows_def Let_def stride_vanishes_def)
  qed (simp add: validate_ragged_rows_def Let_def stride_vanishes_def)
  show "validate_ragged_rows t a w = Inl Panicked \<longleftrightarrow> stride_vanishes w"
  proof (cases "stride_vanishes w")
    case False
    then show ?thesis
      using validate_rows_no_panic [OF ge] stride_exact [OF wf(1-4) False]
      by (simp add: validate_ragged_rows_def Let_def stride_vanishes_def)
  qed (simp add: validate_ragged_rows_def Let_def stride_vanishes_def)
qed

lemma to_vec_f64: "arr_dtype a = F64 \<Longrightarrow> \<exists>vs. to_vec f64_element a = Inr vs"
  by (simp add: to_vec_def f64_element_def numeric_element_def)

text \<open>A row whose count fits decodes.\<close>

lemma decode_linear_row_ok:
  "count_fits PiecewiseLinearType (length r) (r ! 0) \<Longrightarrow> 0 < length r \<Longrightarrow> \<exists>v. decode_linear_row r = Inr v"
  by (auto simp: count_fits_def slots_needed_def decode_linear_row_def Let_def bind_eq_Some_conv)

lemma decode_step_row_ok:
  "count_fits PiecewiseStepType (length r) (r ! 0) \<Longrightarrow> 0 < length r \<Longrightarrow> \<exists>v. decode_step_row r = Inr v"
  by (auto simp: count_fits_def slots_needed_def decode_step_row_def Let_def split: if_splits)

section \<open>Rows read back\<close>

lemma length_linear_points [simp]: "length (linear_points pts) = 2 * length pts"
  by (induction pts) (simp_all add: linear_points_def)

lemma linear_points_nth:
  "k < length pts \<Longrightarrow> linear_points pts ! (2 * k) = px (pts ! k) \<and> linear_points pts ! Suc (2 * k) = py (pts ! k)"
proof (induction pts arbitrary: k)
  case (Cons p pts)
  then show ?case by (cases k) (simp_all add: linear_points_def)
qed simp

lemma padded_row_props:
  assumes "1 + length used \<le> width"
  shows "length (padded_row width n used) = width" "padded_row width n used ! 0 = f64_of_nat n"
    and "i < length used \<Longrightarrow> padded_row width n used ! Suc i = used ! i"
    and "segment (Suc i) k (padded_row width n used) = segment i k (used @ replicate (width - 1 - length used) 0)"
  using assms by (auto simp: padded_row_def nth_append segment_def)

lemma decode_linear_padded:
  assumes "length pts < 2 ^ 53" "1 + 2 * length pts \<le> width"
  shows "decode_linear_row (padded_row width (length pts) (linear_points pts)) = Inr pts"
proof -
  note row = padded_row_props [of "linear_points pts" width]
  have "map (\<lambda>k. \<lparr>px = padded_row width (length pts) (linear_points pts) ! (1 + 2 * k),
        py = padded_row width (length pts) (linear_points pts) ! (2 + 2 * k)\<rparr>) [0..<length pts] = pts"
    using assms(2) row(3) [of "2 * k" for k] row(3) [of "Suc (2 * k)" for k] linear_points_nth
    by (intro nth_equalityI) auto
  then show ?thesis
    using assms row(1,2) by (simp add: decode_linear_row_def f64_of_nat_count(4))
qed

lemma decode_step_padded:
  assumes "length (step_x s) < 2 ^ 53" "2 * length (step_x s) \<le> width" "0 < width"
    and y: "length (step_y s) = length (step_x s) - 1"
  shows "decode_step_row (padded_row width (length (step_x s)) (step_x s @ step_y s)) = Inr s"
proof -
  define n where "n = length (step_x s)"
  define used where "used = step_x s @ step_y s"
  have len: "1 + length used \<le> width" using assms y by (cases n) (auto simp: used_def n_def)
  note row = padded_row_props [OF len, where n = n]
  have "segment 1 n (padded_row width n used) = step_x s"
    using row(4) [where i = 0 and k = n] by (simp add: segment_def used_def n_def)
  moreover have "segment (1 + n) ((if n = 0 then 1 else 2 * n) - (1 + n)) (padded_row width n used) = step_y s"
    using row(4) [where i = n and k = "(if n = 0 then 1 else 2 * n) - (1 + n)"] y by (simp add: segment_def used_def n_def) 
  moreover have "decode_step_row (padded_row width n used) = Inr \<lparr>step_x = segment 1 n (padded_row width n used),
      step_y = segment (1 + n) ((if n = 0 then 1 else 2 * n) - (1 + n)) (padded_row width n used)\<rparr>"
    using row(1,2) assms len by (simp add: decode_step_row_def f64_of_nat_count(4) n_def Let_def)
  ultimately show ?thesis by (simp add: n_def used_def)
qed

lemma count_fits_padded:
  assumes "n < 2 ^ 53" "slots_needed t n = Some k" "k \<le> width"
  shows "count_fits t width (f64_of_nat n)"
  using assms by (simp add: count_fits_def f64_of_nat_count)

lemma max_len_ge: "x \<in> set xs \<Longrightarrow> f x \<le> max_len f xs"
  by (induction xs) (auto simp: max_len_def)

text \<open>An array an encode produces, seen as rows.\<close>

lemma decode_rows_of:
  assumes vec: "to_vec f64_element a = Inr (concat (map f rows))" and row: "\<And>x. x \<in> set rows \<Longrightarrow> length (f x) = width"
    and wf: "wf_array a" "arr_dtype a = F64" "shape a = lead @ [width]" "0 < width"
    and empty: "rows = [] \<Longrightarrow> width = 1"
  shows "chunks_exact width (concat (map f rows)) = map f rows" and "\<not> stride_vanishes width"
proof -
  show rows: "chunks_exact width (concat (map f rows)) = map f rows"
    by (rule chunks_exact_concat [OF row wf(4)])
  show "\<not> stride_vanishes width"
  proof (cases "rows = []")
    case True
    then show ?thesis using empty by (simp add: stride_vanishes_def wrapping_def usize_max_def)
  next
    case False
    have "length (concat (map f rows)) = length (bytes a) div 8"
      using vec by (auto simp: to_vec_def f64_element_def numeric_element_def split: if_splits dest: arg_cong [where f = length])
    moreover have "length (concat (map f rows)) = length rows * width" by (rule length_concat_uniform [OF row])
    moreover have "width \<le> length rows * width" using False by (cases rows) simp_all
    ultimately have "width * 8 \<le> length (bytes a)" by linarith
    then show ?thesis using wf_array_bounded [OF wf(1)] wf(4) by (simp add: stride_vanishes_def wrapping_def)
  qed
qed

definition counts_exact :: "decoded_values \<Rightarrow> bool" where
  "counts_exact v = (case v of
       PiecewiseLinearValues rows \<Rightarrow> list_all (\<lambda>pts. length pts < 2 ^ 53) rows
     | PiecewiseStepValues rows \<Rightarrow> list_all (\<lambda>s. length (step_x s) < 2 ^ 53) rows
     | _ \<Rightarrow> True)"

lemma encode_array:
  assumes "encode v lead = Inr a"
  obtains width flat where "encode_flat v = Inr (width, flat)" "arr_dtype a = F64" "shape a = lead @ [width]"
    "to_vec f64_element a = Inr flat"
proof -
  obtain width flat where e: "encode_flat v = Inr (width, flat)" "from_slice f64_element (lead @ [width]) flat = Inr a"
    using assms by (auto simp: encode_def Let_def result_elims split: if_splits)
  moreover have "to_vec f64_element a = Inr flat" by (rule f64.to_vec_from_slice [OF e(2)])
  moreover have "arr_dtype a = F64" "shape a = lead @ [width]"
    using e(2) by (auto simp: from_slice_def result_elims f64_element_def numeric_element_def split: if_splits)
  ultimately show ?thesis using that by blast
qed

lemma rmap_all_map_ok: "(\<And>x. x \<in> set xs \<Longrightarrow> g (f x) = Inr x) \<Longrightarrow> rmap_all g (map f xs) = Inr xs"
  by (induction xs) simp_all

lemma validate_encoded_fixed:
  assumes "arr_dtype a = F64" "shape a = lead @ [w]" "physical_dtype t = F64" "fixed_element_dims t = Some [w]"
  shows "validate_array t a (length lead) = Inr ()"
  using assms by (cases t) (simp_all add: validate_array_def validate_element_dims_def Let_def)

lemma validate_encoded_ragged:
  assumes vec: "to_vec f64_element a = Inr (concat (map f rows))" and row: "\<And>x. x \<in> set rows \<Longrightarrow> length (f x) = w"
    and wf: "wf_array a" "arr_dtype a = F64" "shape a = lead @ [w]" "0 < w"
    and empty: "rows = [] \<Longrightarrow> w = 1" and t: "t = PiecewiseLinearType \<and> odd w \<or> t = PiecewiseStepType \<and> (w = 1 \<or> even w)"
    and fits: "\<And>x. x \<in> set rows \<Longrightarrow> count_fits t w (f x ! 0)"
  shows "validate_array t a (length lead) = Inr ()"
proof -
  note rows = decode_rows_of [OF vec row wf empty]
  have "validate_element_dims t [w] = Inr ()"
    using t wf(4) by (auto simp: validate_element_dims_def odd_iff_mod_2_eq_one)
  moreover have "validate_ragged_rows t a w = Inr ()"
    unfolding validate_ragged_rows_iff(1) [OF wf vec] using rows fits by (simp add: list_all_iff)
  moreover have "physical_dtype t = F64" "is_ragged t" using t by auto
  ultimately show ?thesis using wf(2,3) by (simp add: validate_array_def Let_def)
qed

lemma length_concat_lists: "list_all (\<lambda>r. length r = w) rows \<Longrightarrow> 0 < w \<Longrightarrow> chunks_exact w (concat rows) = rows"
  using chunks_exact_concat [of rows "\<lambda>r. r" w] by (simp add: list_all_iff)

lemma decode_encoded_linear:
  assumes enc: "encode v lead = Inr a" "element_type_of v = Some t" "wf_array a" "counts_exact v" and v: "v = PiecewiseLinearValues rows"
  shows "decode a t (length lead) = Inr v"
proof -
  obtain w flat where e: "encode_flat v = Inr (w, flat)" and a: "arr_dtype a = F64" "shape a = lead @ [w]"
    and vec: "to_vec f64_element a = Inr flat" by (rule encode_array [OF enc(1)])
  note wf = enc(3) a
  define f where "f = (\<lambda>pts :: xy_point list. padded_row w (length pts) (linear_points pts))"
  have w: "w = 1 + 2 * max_len length rows" "flat = concat (map f rows)" and t: "t = PiecewiseLinearType"
    using e enc(2) by (auto simp: v Let_def f_def)
  have small: "length pts < 2 ^ 53" "1 + 2 * length pts \<le> w" if "pts \<in> set rows" for pts
    using that enc(4) max_len_ge [of pts rows length] by (simp_all add: counts_exact_def v list_all_iff w)
  have row: "length (f pts) = w" "f pts ! 0 = f64_of_nat (length pts)" if "pts \<in> set rows" for pts
    using padded_row_props(1,2) [of "linear_points pts" w] small [OF that] by (simp_all add: f_def)
  have empty: "w = 1" if "rows = []" using that by (simp add: w max_len_def)
  have fits: "count_fits t w (f pts ! 0)" if "pts \<in> set rows" for pts
  proof -
    have "(2::nat) ^ 53 * 2 + 1 \<le> usize_max" by (simp add: usize_max_def)
    then show ?thesis
      using small [OF that] row(2) [OF that]
      by (simp add: t count_fits_padded [where k = "length pts * 2 + 1"] slots_needed_def checked_usize_def)
  qed
  have "validate_array t a (length lead) = Inr ()"
    by (rule validate_encoded_ragged [OF vec [unfolded w(2)] row(1) wf _ empty _ fits]) (auto simp: t w)
  moreover have "chunks_exact w flat = map f rows"
    unfolding w(2) by (rule decode_rows_of(1) [OF vec [unfolded w(2)] row(1) wf _ empty]) (auto simp: w)
  moreover have "rmap_all decode_linear_row (map f rows) = Inr rows"
    using decode_linear_padded small by (intro rmap_all_map_ok) (simp add: f_def)
  ultimately show ?thesis using vec a w(1) by (simp add: decode_def t v)
qed

lemma decode_encoded_step:
  assumes enc: "encode v lead = Inr a" "element_type_of v = Some t" "wf_array a" "counts_exact v" and v: "v = PiecewiseStepValues rows"
  shows "decode a t (length lead) = Inr v"
proof -
  obtain w flat where e: "encode_flat v = Inr (w, flat)" and a: "arr_dtype a = F64" "shape a = lead @ [w]"
    and vec: "to_vec f64_element a = Inr flat" by (rule encode_array [OF enc(1)])
  note wf = enc(3) a
  define f where "f = (\<lambda>s :: step_function. padded_row w (length (step_x s)) (step_x s @ step_y s))"
  have w: "w = max (2 * max_len (\<lambda>s. length (step_x s)) rows) 1" "flat = concat (map f rows)" and t: "t = PiecewiseStepType"
    and y: "\<And>s. s \<in> set rows \<Longrightarrow> length (step_y s) = length (step_x s) - 1"
    using e enc(2) by (auto simp: v Let_def f_def list_all_iff split: if_splits)
  have small: "length (step_x s) < 2 ^ 53" "2 * length (step_x s) \<le> w" if "s \<in> set rows" for s
    using that enc(4) max_len_ge [of s rows "\<lambda>s. length (step_x s)"]
    by (simp_all add: counts_exact_def v list_all_iff w)
  have w0: "0 < w" by (simp add: w)
  have used: "1 + length (step_x s @ step_y s) \<le> w" if "s \<in> set rows" for s
    using y [OF that] small [OF that] w0 by (cases "length (step_x s)") auto
  have row: "length (f s) = w" "f s ! 0 = f64_of_nat (length (step_x s))" if "s \<in> set rows" for s
    using padded_row_props(1,2) [OF used [OF that]] by (simp_all add: f_def)
  have empty: "w = 1" if "rows = []" using that by (simp add: w max_len_def)
  have fits: "count_fits t w (f s ! 0)" if "s \<in> set rows" for s
  proof -
    have "(2::nat) ^ 53 * 2 \<le> usize_max" by (simp add: usize_max_def)
    then show ?thesis
      using small [OF that] row(2) [OF that] w0
      by (cases "step_x s = []") (simp_all add: t slots_needed_def checked_usize_def
          count_fits_padded [where k = 1] count_fits_padded [where k = "length (step_x s) * 2"])
  qed
  have "validate_array t a (length lead) = Inr ()"
    by (rule validate_encoded_ragged [OF vec [unfolded w(2)] row(1) wf w0 empty _ fits]) (auto simp: t w max_def)
  moreover have "chunks_exact w flat = map f rows"
    unfolding w(2) by (rule decode_rows_of(1) [OF vec [unfolded w(2)] row(1) wf w0 empty])
  moreover have "rmap_all decode_step_row (map f rows) = Inr rows"
    using decode_step_padded small y w0 by (intro rmap_all_map_ok) (simp add: f_def)
  ultimately show ?thesis using vec a w(1) by (simp add: decode_def t v)
qed

section \<open>Properties\<close>

text \<open>The spelling of an element type reads back as the element type, for every one the grammar
  admits (a tuple has at least one value), and whatever the parser accepts is such a type.\<close>

lemma element_type_roundtrip:
  "(valid_element_type t \<longrightarrow> parse_element_type (show_element_type t) = Some t) \<and>
   (parse_element_type s = Some u \<longrightarrow> valid_element_type u)"
  using parse_show_element_type parse_element_type_valid by blast

lemma decode_encode:
  assumes "encode v lead = Inr a" "element_type_of v = Some t" "wf_array a" "counts_exact v"
  shows "decode a t (length lead) = Inr v"
proof -
  obtain w flat where e: "encode_flat v = Inr (w, flat)" and a: "arr_dtype a = F64" "shape a = lead @ [w]"
    and vec: "to_vec f64_element a = Inr flat" by (rule encode_array [OF assms(1)])
  note wf = assms(3) a
  show ?thesis
  proof (cases v)
    case RawValues
    then show ?thesis using assms(2) by simp
  next
    case (TupleValues rows)
    have w: "0 < w" "list_all (\<lambda>r. length r = w) rows" "flat = concat rows" "w = (case rows of [] \<Rightarrow> 0 | r # _ \<Rightarrow> length r)"
      using e by (auto simp: TupleValues Let_def split: if_splits)
    then have t: "t = TupleOf w F64" using assms(2) by (simp add: TupleValues)
    have "validate_array t a (length lead) = Inr ()" by (rule validate_encoded_fixed [OF a]) (simp_all add: t)
    then show ?thesis using vec a w length_concat_lists [OF w(2,1)] by (simp add: decode_def t TupleValues)
  next
    case (LinearValues rows)
    have w: "w = 2" "flat = concat (map (\<lambda>f. [lin_proportional f, lin_constant f]) rows)" and t: "t = LinearFunctionType"
      using e assms(2) by (simp_all add: LinearValues)
    have "validate_array t a (length lead) = Inr ()" by (rule validate_encoded_fixed [OF a]) (simp_all add: t w)
    moreover have "chunks_exact 2 flat = map (\<lambda>f. [lin_proportional f, lin_constant f]) rows"
      unfolding w by (rule chunks_exact_concat) simp_all
    ultimately show ?thesis using vec a by (simp add: decode_def t LinearValues comp_def map_idI)
  next
    case (QuadraticValues rows)
    have w: "w = 3" "flat = concat (map (\<lambda>f. [quad_quadratic f, quad_proportional f, quad_constant f]) rows)"
      and t: "t = QuadraticFunctionType" using e assms(2) by (simp_all add: QuadraticValues)
    have "validate_array t a (length lead) = Inr ()" by (rule validate_encoded_fixed [OF a]) (simp_all add: t w)
    moreover have "chunks_exact 3 flat = map (\<lambda>f. [quad_quadratic f, quad_proportional f, quad_constant f]) rows"
      unfolding w by (rule chunks_exact_concat) simp_all
    ultimately show ?thesis using vec a by (simp add: decode_def t QuadraticValues comp_def map_idI)
  next
    case (PiecewiseLinearValues rows)
    then show ?thesis by (rule decode_encoded_linear [OF assms])
  next
    case (PiecewiseStepValues rows)
    then show ?thesis by (rule decode_encoded_step [OF assms])
  qed
qed

text \<open>C18: decoding gives back what was encoded, bit for bit, for every kind of value: whatever array
  \<open>encode\<close> produces decodes under the element type of the values to the values themselves. The
  bounds are those of the machine: the array is addressable, and a leading count is exact as a
  float.\<close>

theorem codec_roundtrip:
  assumes "encode v lead = Inr a" "element_type_of v = Some t" "wf_array a" "counts_exact v"
  shows "decode a t (length lead) = Inr v"
  by (rule decode_encode [OF assms])


definition demo_curves :: decoded_values where
  "demo_curves = PiecewiseLinearValues [[\<lparr>px = 1, py = 2\<rparr>], []]"

theorem codec_roundtrip_witness:
  "\<exists>a. encode demo_curves [2] = Inr a \<and> shape a = [2, 3] \<and> decode a PiecewiseLinearType 1 = Inr demo_curves"
proof -
  obtain a where a: "encode demo_curves [2] = Inr a" "shape a = [2, 3]" "wf_array a"
    by (simp add: encode_def demo_curves_def max_len_def padded_row_def linear_points_def wrapping_def usize_max_def
        from_slice_def element_count_def checked_usize_def f64_element_def numeric_element_def wf_array_def
        check_bytes_def expected_bytes_def Let_def)
  moreover have "decode a PiecewiseLinearType (length [2::nat]) = Inr demo_curves"
    by (rule codec_roundtrip [OF a(1) _ a(3)]) (simp_all add: demo_curves_def counts_exact_def)
  ultimately show ?thesis by (intro exI [of _ a]) simp
qed

lemma stride_vanishes_iff: "stride_vanishes w \<longleftrightarrow> 2 ^ 61 dvd w"
proof -
  have "wrapping (w * 8) = w * 8 mod (2 ^ 61 * 8)" by (simp add: wrapping_def usize_max_def)
  also have "\<dots> = w mod 2 ^ 61 * 8" by (simp only: mult_mod_left)
  finally show ?thesis by (simp add: stride_vanishes_def dvd_eq_mod_eq_0)
qed

lemma rmap_all_ok: "(\<And>x. x \<in> set xs \<Longrightarrow> \<exists>y. f x = Inr y) \<Longrightarrow> \<exists>ys. rmap_all f xs = Inr ys"
  by (induction xs) (auto, fastforce)

lemma decode_ragged_rows:
  assumes wf: "wf_array a" "arr_dtype a = F64" "shape a = lead @ [w]" "0 < w" and t: "is_ragged t"
    and ok: "validate_ragged_rows t a w = Inr ()" and vec: "to_vec f64_element a = Inr values"
  shows "\<exists>vs. (if t = PiecewiseLinearType
    then rbind (rmap_all decode_linear_row (chunks_exact w values)) (\<lambda>vs. Inr (PiecewiseLinearValues vs))
    else rbind (rmap_all decode_step_row (chunks_exact w values)) (\<lambda>vs. Inr (PiecewiseStepValues vs))) = Inr vs"
proof -
  have fits: "count_fits t w (r ! 0)" "length r = w" if "r \<in> set (chunks_exact w values)" for r
    using that ok validate_ragged_rows_iff(1) [OF wf vec] chunks_exact_lengths [OF wf(4), of "values"]
    by (auto simp: list_all_iff)
  show ?thesis
  proof (cases "t = PiecewiseLinearType")
    case True
    then have "\<exists>vs. rmap_all decode_linear_row (chunks_exact w values) = Inr vs"
      using fits wf(4) decode_linear_row_ok by (intro rmap_all_ok) metis
    then show ?thesis using True by auto
  next
    case False
    then have "t = PiecewiseStepType" using t by (cases t) simp_all
    then have "\<exists>vs. rmap_all decode_step_row (chunks_exact w values) = Inr vs"
      using fits wf(4) decode_step_row_ok by (intro rmap_all_ok) metis
    then show ?thesis using False by auto
  qed
qed

text \<open>The arrays on which the stride of a ragged row wraps to zero.\<close>

definition unstridable :: "typed_array \<Rightarrow> element_type \<Rightarrow> nat \<Rightarrow> bool" where
  "unstridable a t lead \<longleftrightarrow> arr_dtype a = F64 \<and> t = PiecewiseStepType \<and>
     length (shape a) = lead + 1 \<and> 0 < shape a ! lead \<and> 2 ^ 61 dvd shape a ! lead"

lemma validate_array_panics:
  assumes "wf_array a"
  shows "validate_array t a lead = Inl Panicked \<longleftrightarrow> unstridable a t lead"
proof (cases "arr_dtype a = physical_dtype t \<and> lead \<le> length (shape a) \<and> is_ragged t \<and>
    validate_element_dims t (drop lead (shape a)) = Inr ()")
  case True
  then have d: "arr_dtype a = F64" "is_ragged t" "lead \<le> length (shape a)" by (cases t; simp)+
  from True obtain w where w: "drop lead (shape a) = [w]" "0 < w" "t = PiecewiseLinearType \<longrightarrow> odd w"
    by (cases t; auto simp: validate_element_dims_def Let_def odd_iff_mod_2_eq_one split: list.splits if_splits)
  have shape: "shape a = take lead (shape a) @ [w]" by (metis append_take_drop_id w(1))
  obtain vs where vec: "to_vec f64_element a = Inr vs" using to_vec_f64 [OF d(1)] by blast
  have "validate_array t a lead = validate_ragged_rows t a w"
    using True w(1) by (simp add: validate_array_def Let_def)
  moreover have "validate_ragged_rows t a w = Inl Panicked \<longleftrightarrow> 2 ^ 61 dvd w"
    using validate_ragged_rows_iff(2) [OF assms d(1) shape w(2) vec] by (simp add: stride_vanishes_iff)
  moreover have "length (shape a) = lead + 1"
    using arg_cong [OF w(1), of length] d(3) unfolding length_drop by simp
  moreover have "shape a ! lead = w" using w(1) by (metis append_take_drop_id nth_append_length nth_via_drop)
  moreover have "\<not> 2 ^ 61 dvd w" if "odd w" using that by (metis dvd_power dvd_trans zero_less_numeral)
  moreover have "t = PiecewiseLinearType \<or> t = PiecewiseStepType" using d(2) by (cases t) simp_all
  ultimately show ?thesis using d(1) w(2,3) by (auto simp: unstridable_def)
next
  case False
  have "validate_array t a lead \<noteq> Inl Panicked"
    using False by (auto simp: validate_array_def Let_def raise_def map_err_def split: sum.splits)
  moreover have "\<not> unstridable a t lead"
  proof
    assume u: "unstridable a t lead"
    then have "drop lead (shape a) = [shape a ! lead]" by (simp add: unstridable_def Cons_nth_drop_Suc [symmetric])
    then show False using False u by (auto simp: unstridable_def validate_element_dims_def Let_def)
  qed
  ultimately show ?thesis by simp
qed

text \<open>C19: decoding a well-formed array never panics, with one exception, stated exactly: the element
  type is \<open>piecewise_step\<close> and the row width is a positive multiple of \<open>2^61\<close> (which only an array
  without rows can have). The stride of such a row is zero after wrapping, and \<open>chunks_exact\<close>
  panics on it. Every count that passes the validation addresses only slots of its row.\<close>

theorem decode_panics_iff:
  assumes "wf_array a"
  shows "decode a t lead = Inl Panicked \<longleftrightarrow> unstridable a t lead"
proof (cases "validate_array t a lead")
  case (Inl e)
  then show ?thesis using validate_array_panics [OF assms, of t lead] by (simp add: decode_def)
next
  case (Inr u)
  have "decode a t lead \<noteq> Inl Panicked"
  proof (cases "arr_dtype a = F64")
    case True
    obtain vs where vec: "to_vec f64_element a = Inr vs" using to_vec_f64 [OF True] by blast
    show ?thesis
    proof (cases "is_ragged t")
      case False
      then show ?thesis using Inr True vec by (cases t) (simp_all add: decode_def)
    next
      case ragged: True
      have v: "validate_element_dims t (drop lead (shape a)) = Inr ()"
        "validate_ragged_rows t a (drop lead (shape a) ! 0) = Inr ()" "lead \<le> length (shape a)"
        using Inr ragged by (auto simp: validate_array_def Let_def result_elims split: if_splits)
      then obtain w where w: "drop lead (shape a) = [w]" "0 < w"
        using ragged by (cases t; auto simp: validate_element_dims_def Let_def split: list.splits if_splits)
      have shape: "shape a = take lead (shape a) @ [w]" by (metis append_take_drop_id w(1))
      have at: "shape a ! lead = w" using w(1) v(3) by (metis append_take_drop_id length_take min.absorb2 nth_append_length)
      have "validate_ragged_rows t a w = Inr ()" using v(2) w(1) by simp
      from decode_ragged_rows [OF assms True shape w(2) ragged this vec]
      show ?thesis using Inr True vec w(2) ragged by (cases t) (auto simp: decode_def at)
    qed
  qed (use Inr in \<open>simp add: decode_def\<close>)
  then show ?thesis using Inr validate_array_panics [OF assms, of t lead] by simp
qed

theorem decode_panics_iff_witness:
  "decode \<lparr>arr_dtype = F64, shape = [0, 2305843009213693952], bytes = []\<rparr> PiecewiseStepType 1 = Inl Panicked"
proof -
  have "wf_array \<lparr>arr_dtype = F64, shape = [0, 2305843009213693952], bytes = []\<rparr>"
    by (simp add: wf_array_def check_bytes_def expected_bytes_def element_count_def checked_usize_def)
  from decode_panics_iff [OF this, of PiecewiseStepType 1] show ?thesis by (simp add: unstridable_def)
qed

end
