(* ===== verification/Features.thy ===== *)
theory Features
  imports Bytes RustStr
begin

unbundle bit_operations_syntax

text \<open>
  The identity vocabulary of \<open>crates/infrastore-core/src/types/metadata.rs\<close>: owner categories, unit
  systems, feature values with their equality and order, and the reserved feature names. A string
  inside a feature is its UTF-8 bytes, which is also how Rust orders strings.
\<close>

section \<open>Codes and names\<close>

datatype owner_category = Component | SupplementalAttribute

fun owner_category_str :: "owner_category \<Rightarrow> string" where
  "owner_category_str Component = ''Component''"
| "owner_category_str SupplementalAttribute = ''SupplementalAttribute''"

definition owner_category_parse :: "string \<Rightarrow> owner_category option" where
  "owner_category_parse s =
     (if s = ''Component'' then Some Component
      else if s = ''SupplementalAttribute'' then Some SupplementalAttribute else None)"

fun owner_category_code :: "owner_category \<Rightarrow> int" where
  "owner_category_code Component = 0"
| "owner_category_code SupplementalAttribute = 1"

definition owner_category_from_code :: "int \<Rightarrow> owner_category option" where
  "owner_category_from_code code =
     (if code = 0 then Some Component else if code = 1 then Some SupplementalAttribute else None)"

datatype unit_system = NaturalUnits | ComponentBase

fun unit_system_str :: "unit_system \<Rightarrow> string" where
  "unit_system_str NaturalUnits = ''natural_units''"
| "unit_system_str ComponentBase = ''component_base''"

definition unit_system_parse :: "string \<Rightarrow> unit_system option" where
  "unit_system_parse s =
     (if s = ''natural_units'' then Some NaturalUnits
      else if s = ''component_base'' then Some ComponentBase else None)"

section \<open>Floats by their bits\<close>

definition is_nan64 :: "64 word \<Rightarrow> bool" where
  "is_nan64 w \<longleftrightarrow> w AND 0x7FF0000000000000 = 0x7FF0000000000000 \<and> w AND 0x000FFFFFFFFFFFFF \<noteq> 0"

definition nan64 :: "64 word" where "nan64 = 0x7FF8000000000000"

definition canonical_bits :: "64 word \<Rightarrow> 64 word" where
  "canonical_bits w = (if is_nan64 w then nan64 else w)"

text \<open>\<open>f64::total_cmp\<close> compares these keys: the bits as a signed integer, with all but the sign bit
  flipped when it is set.\<close>

definition total_key :: "64 word \<Rightarrow> int" where
  "total_key w = sint (if bit w 63 then w XOR 0x7FFFFFFFFFFFFFFF else w)"

lemma is_nan64_nan64 [simp]: "is_nan64 nan64"
  by (simp add: is_nan64_def nan64_def)

lemma canonical_bits_idem [simp]: "canonical_bits (canonical_bits w) = canonical_bits w"
  by (simp add: canonical_bits_def)

lemma total_key_inject: "total_key v = total_key w \<longleftrightarrow> v = w"
proof
  assume eq: "total_key v = total_key w"
  have flip: "bit (w XOR 0x7FFFFFFFFFFFFFFF) 63 \<longleftrightarrow> bit w 63" for w :: "64 word"
    by (simp add: bit_xor_iff bit_numeral_word_iff)
  have sign: "total_key w < 0 \<longleftrightarrow> bit w 63" for w
    using bit_last_iff [of "if bit w 63 then w XOR 0x7FFFFFFFFFFFFFFF else w"] flip [of w]
    by (auto simp: total_key_def)
  then have same: "bit v 63 \<longleftrightarrow> bit w 63" using eq by metis
  have "(v XOR m) = (w XOR m) \<longleftrightarrow> v = w" for m :: "64 word"
    by (auto simp: bit_eq_iff bit_xor_iff)
  with eq same show "v = w" by (auto simp: total_key_def simp flip: word_eq_iff_signed split: if_splits)
qed simp

section \<open>Comparisons\<close>

datatype ordering = LessThan | EqualTo | GreaterThan

fun reverse :: "ordering \<Rightarrow> ordering" where
  "reverse LessThan = GreaterThan" | "reverse EqualTo = EqualTo" | "reverse GreaterThan = LessThan"

fun then_with :: "ordering \<Rightarrow> ordering \<Rightarrow> ordering" where
  "then_with EqualTo c = c" | "then_with c _ = c"

definition cmp_of :: "'a::linorder \<Rightarrow> 'a \<Rightarrow> ordering" where
  "cmp_of a b = (if a < b then LessThan else if a = b then EqualTo else GreaterThan)"

fun cmp_bytes :: "byte list \<Rightarrow> byte list \<Rightarrow> ordering" where
  "cmp_bytes [] [] = EqualTo"
| "cmp_bytes [] (_ # _) = LessThan"
| "cmp_bytes (_ # _) [] = GreaterThan"
| "cmp_bytes (a # as) (b # bs) = then_with (cmp_of a b) (cmp_bytes as bs)"

text \<open>The contract of \<open>Ord\<close>: a total order whose \<open>Equal\<close> is the given equality.\<close>

locale ord_contract =
  fixes cmp :: "'a \<Rightarrow> 'a \<Rightarrow> ordering" and eqv :: "'a \<Rightarrow> 'a \<Rightarrow> bool"
  assumes cmp_eqv: "cmp x y = EqualTo \<longleftrightarrow> eqv x y"
    and cmp_reverse: "cmp y x = reverse (cmp x y)"
    and cmp_trans: "cmp x y = LessThan \<Longrightarrow> cmp y z = LessThan \<Longrightarrow> cmp x z = LessThan"
    and cmp_subst: "eqv x y \<Longrightarrow> cmp x z = cmp y z"
begin

lemma cmp_refl: "cmp x x = EqualTo"
  using cmp_reverse [of x x] by (cases "cmp x x") simp_all

lemma cmp_greater: "cmp x y = GreaterThan \<longleftrightarrow> cmp y x = LessThan"
  using cmp_reverse [of x y] by (cases "cmp x y"; cases "cmp y x") simp_all

lemma eqv_equiv: "eqv x x" "eqv x y \<Longrightarrow> eqv y x" "eqv x y \<Longrightarrow> eqv y z \<Longrightarrow> eqv x z"
  using cmp_refl cmp_reverse cmp_subst by (metis cmp_eqv reverse.simps(2))+

lemma cmp_trans_le:
  "cmp x y \<noteq> GreaterThan \<Longrightarrow> cmp y z \<noteq> GreaterThan \<Longrightarrow> cmp x z \<noteq> GreaterThan"
  by (metis cmp_eqv cmp_greater cmp_subst cmp_trans ordering.exhaust ordering.distinct(3))

end

interpretation linorder_cmp: ord_contract "cmp_of :: 'a::linorder \<Rightarrow> 'a \<Rightarrow> ordering" "(=)"
  by unfold_locales (auto simp: cmp_of_def split: if_splits)

lemma then_with_simps:
  "then_with c d = EqualTo \<longleftrightarrow> c = EqualTo \<and> d = EqualTo"
  "then_with c d = LessThan \<longleftrightarrow> c = LessThan \<or> c = EqualTo \<and> d = LessThan"
  "reverse (then_with c d) = then_with (reverse c) (reverse d)"
  by (cases c; simp)+

lemma reverse_cmp_of [simp]: "reverse (cmp_of a b) = cmp_of b a"
  by (auto simp: cmp_of_def)

lemma reverse_cmp_bytes: "reverse (cmp_bytes x y) = cmp_bytes y x"
  by (induction x y rule: cmp_bytes.induct) (simp_all add: then_with_simps(3))

lemma cmp_bytes_equal: "cmp_bytes x y = EqualTo \<longleftrightarrow> x = y"
  by (induction x y rule: cmp_bytes.induct) (simp_all add: then_with_simps(1) linorder_cmp.cmp_eqv)

lemma cmp_bytes_trans: "cmp_bytes x y = LessThan \<Longrightarrow> cmp_bytes y z = LessThan \<Longrightarrow> cmp_bytes x z = LessThan"
proof (induction x y arbitrary: z rule: cmp_bytes.induct)
  case (2 b bs)
  then show ?case by (cases z) simp_all
next
  case (4 a as b bs)
  then obtain c cs where z: "z = c # cs" by (cases z) auto
  have "cmp_of a b = LessThan \<or> a = b \<and> cmp_bytes as bs = LessThan"
    "cmp_of b c = LessThan \<or> b = c \<and> cmp_bytes bs cs = LessThan"
    using 4(2,3) unfolding z by (simp_all add: then_with_simps(2) linorder_cmp.cmp_eqv)
  then have "cmp_of a c = LessThan \<or> a = c \<and> cmp_bytes as cs = LessThan"
    using linorder_cmp.cmp_trans [of a b c] 4(1) [of cs] by blast
  then show ?case unfolding z by (auto simp: then_with_simps(2) linorder_cmp.cmp_eqv)
qed simp_all

interpretation bytes_cmp: ord_contract cmp_bytes "(=)"
  by unfold_locales (simp_all add: cmp_bytes_equal reverse_cmp_bytes, rule cmp_bytes_trans)

section \<open>Feature values\<close>

datatype feature_value = FInt int | FFloat "64 word" | FBool bool | FStr "byte list"

fun variant_tag :: "feature_value \<Rightarrow> nat" where
  "variant_tag (FInt _) = 0" | "variant_tag (FFloat _) = 1"
| "variant_tag (FBool _) = 2" | "variant_tag (FStr _) = 3"

fun feature_eq :: "feature_value \<Rightarrow> feature_value \<Rightarrow> bool" where
  "feature_eq (FInt a) (FInt b) = (a = b)"
| "feature_eq (FFloat a) (FFloat b) = (canonical_bits a = canonical_bits b)"
| "feature_eq (FBool a) (FBool b) = (a = b)"
| "feature_eq (FStr a) (FStr b) = (a = b)"
| "feature_eq _ _ = False"

fun feature_cmp_same :: "feature_value \<Rightarrow> feature_value \<Rightarrow> ordering" where
  "feature_cmp_same (FInt a) (FInt b) = cmp_of a b"
| "feature_cmp_same (FFloat a) (FFloat b) =
     cmp_of (total_key (if is_nan64 a then nan64 else a)) (total_key (if is_nan64 b then nan64 else b))"
| "feature_cmp_same (FBool a) (FBool b) = cmp_of a b"
| "feature_cmp_same (FStr a) (FStr b) = cmp_bytes a b"
| "feature_cmp_same _ _ = EqualTo"

definition feature_cmp :: "feature_value \<Rightarrow> feature_value \<Rightarrow> ordering" where
  "feature_cmp a b = then_with (cmp_of (variant_tag a) (variant_tag b)) (feature_cmp_same a b)"

text \<open>What the derived \<open>Hash\<close> implementation feeds its hasher.\<close>

datatype hash_part = HTag nat | HInt int | HBits "64 word" | HBool bool | HStr "byte list"

fun feature_hash_parts :: "feature_value \<Rightarrow> hash_part list" where
  "feature_hash_parts (FInt v) = [HTag 0, HInt v]"
| "feature_hash_parts (FFloat v) = [HTag 1, HBits (canonical_bits v)]"
| "feature_hash_parts (FBool v) = [HTag 2, HBool v]"
| "feature_hash_parts (FStr v) = [HTag 3, HStr v]"

lemma cmp_of_numerals: "cmp_of (m::nat) m = EqualTo"
  by (simp add: cmp_of_def)

text \<open>A float compares like the key of its canonical bits.\<close>

lemma feature_cmp_simps [simp]:
  "feature_cmp (FInt a) (FInt b) = cmp_of a b"
  "feature_cmp (FFloat v) (FFloat w) = cmp_of (total_key (canonical_bits v)) (total_key (canonical_bits w))"
  "feature_cmp (FBool p) (FBool q) = cmp_of p q"
  "feature_cmp (FStr s) (FStr t) = cmp_bytes s t"
  by (simp_all add: feature_cmp_def cmp_of_numerals canonical_bits_def)

lemma feature_cmp_tags:
  "variant_tag x < variant_tag y \<Longrightarrow> feature_cmp x y = LessThan"
  "variant_tag y < variant_tag x \<Longrightarrow> feature_cmp x y = GreaterThan"
  by (simp_all add: feature_cmp_def cmp_of_def)

lemma feature_cmp_less_tags: "feature_cmp x y = LessThan \<Longrightarrow> variant_tag x \<le> variant_tag y"
  using feature_cmp_tags(2) [where x = x and y = y] by (cases "variant_tag y < variant_tag x") simp_all

lemma feature_eq_tags: "feature_eq x y \<Longrightarrow> variant_tag x = variant_tag y"
  by (cases x; cases y; simp)

lemma feature_cmp_equal: "feature_cmp x y = EqualTo \<longleftrightarrow> feature_eq x y"
proof (cases "variant_tag x = variant_tag y")
  case True
  then show ?thesis
    by (cases x; cases y) (simp_all add: linorder_cmp.cmp_eqv cmp_bytes_equal total_key_inject)
next
  case False
  then show ?thesis using feature_cmp_tags [where x = x and y = y] feature_eq_tags [of x y]
    by (cases "variant_tag x" "variant_tag y" rule: linorder_cases) auto
qed

lemma feature_cmp_reverse: "feature_cmp y x = reverse (feature_cmp x y)"
proof (cases "variant_tag x = variant_tag y")
  case True
  then show ?thesis by (cases x; cases y) (simp_all add: reverse_cmp_bytes)
next
  case False
  then show ?thesis using feature_cmp_tags [where x = x and y = y] feature_cmp_tags [where x = y and y = x]
    by (cases "variant_tag x" "variant_tag y" rule: linorder_cases) auto
qed

lemma feature_cmp_trans:
  assumes xy: "feature_cmp x y = LessThan" and yz: "feature_cmp y z = LessThan"
  shows "feature_cmp x z = LessThan"
proof (cases "variant_tag x = variant_tag z")
  case True
  then have "variant_tag y = variant_tag x"
    using feature_cmp_less_tags [OF xy] feature_cmp_less_tags [OF yz] by simp
  with True assms show ?thesis
    by (cases x; cases y; cases z) (auto intro: linorder_cmp.cmp_trans cmp_bytes_trans)
next
  case False
  then show ?thesis
    using feature_cmp_less_tags [OF xy] feature_cmp_less_tags [OF yz] by (intro feature_cmp_tags(1)) simp
qed

lemma feature_cmp_subst:
  assumes "feature_eq x y" shows "feature_cmp x z = feature_cmp y z"
proof (cases "variant_tag x = variant_tag z")
  case True
  with assms show ?thesis by (cases x; cases y; cases z) simp_all
next
  case False
  then show ?thesis
    using feature_eq_tags [OF assms] feature_cmp_tags [where x = x and y = z] feature_cmp_tags [where x = y and y = z]
    by (cases "variant_tag x" "variant_tag z" rule: linorder_cases) auto
qed

interpretation feature: ord_contract feature_cmp feature_eq
  by unfold_locales (fact feature_cmp_equal feature_cmp_reverse feature_cmp_trans feature_cmp_subst)+

section \<open>Reserved names\<close>

definition RESERVED_FEATURE_NAMES :: "string list" where
  "RESERVED_FEATURE_NAMES =
     [''application_data'', ''array_shape'', ''association_id'', ''component_field'', ''count'', ''data'',
      ''data_hash'', ''dtype'', ''element_shape'', ''element_type'', ''ext'', ''features'', ''horizon'',
      ''id'', ''initial_timestamp'', ''interval'', ''interval_alignment'', ''length'', ''name'',
      ''owner_category'', ''owner_id'', ''owner_type'', ''percentiles'', ''quantity_kind'', ''resolution'',
      ''scenario_count'', ''time_reference'', ''time_series_type'', ''timestamps'', ''timestamps_uri'',
      ''unit_system'', ''units'', ''uri'']"

text \<open>The UTF-8 bytes of a string of code points below 256.\<close>

definition utf8_char :: "char \<Rightarrow> byte list" where
  "utf8_char c =
     (let n = code_of c in if n < 128 then [word_of_nat n] else [word_of_nat (192 + n div 64), word_of_nat (128 + n mod 64)])"

definition utf8 :: "string \<Rightarrow> byte list" where "utf8 s = concat (map utf8_char s)"

text \<open>\<open>slice::binary_search_by\<close>, by bisection.\<close>

function bisect :: "('a \<Rightarrow> ordering) \<Rightarrow> 'a list \<Rightarrow> nat \<Rightarrow> nat \<Rightarrow> nat option" where
  "bisect f xs lo hi =
     (if lo < hi
      then let mid = (lo + hi) div 2
        in case f (xs ! mid) of
             EqualTo \<Rightarrow> Some mid
           | LessThan \<Rightarrow> bisect f xs (mid + 1) hi
           | GreaterThan \<Rightarrow> bisect f xs lo mid
      else None)"
  by pat_completeness auto
termination by (relation "measure (\<lambda>(f, xs, lo, hi). hi - lo)") auto

declare bisect.simps [simp del]

definition is_reserved_feature_name :: "string \<Rightarrow> bool" where
  "is_reserved_feature_name name \<longleftrightarrow>
     bisect (\<lambda>s. cmp_bytes (utf8 s) (utf8 name)) RESERVED_FEATURE_NAMES 0 (length RESERVED_FEATURE_NAMES) \<noteq> None"

lemma bisect_sound: "bisect f xs lo hi = Some i \<Longrightarrow> lo \<le> i \<and> i < hi \<and> f (xs ! i) = EqualTo"
proof (induction f xs lo hi rule: bisect.induct)
  case (1 f xs lo hi)
  from 1(3) have "lo < hi" by (subst (asm) bisect.simps) (auto split: if_splits)
  with 1 show ?case
    by (subst (asm) (3) bisect.simps) (force simp: Let_def split: ordering.splits if_splits)
qed

lemma bisect_complete:
  assumes "sorted_wrt (\<lambda>a b. cmp_bytes (key a) (key b) = LessThan) xs" "hi \<le> length xs"
    and "lo \<le> i" "i < hi" "key (xs ! i) = k"
  shows "bisect (\<lambda>x. cmp_bytes (key x) k) xs lo hi \<noteq> None"
  using assms
proof (induction "hi - lo" arbitrary: lo hi rule: less_induct)
  case less
  define mid where "mid = (lo + hi) div 2"
  have mid: "lo \<le> mid" "mid < hi" using less.prems by (auto simp: mid_def)
  have cmp: "cmp_bytes (key (xs ! a)) (key (xs ! b)) = LessThan" if "a < b" "b < length xs" for a b
    using sorted_wrt_nth_less [OF less.prems(1)] that by blast
  consider "mid < i" | "mid = i" | "i < mid" by linarith
  then show ?case
  proof cases
    case 1
    then have "cmp_bytes (key (xs ! mid)) k = LessThan" using cmp [of mid i] less.prems by simp
    moreover have "bisect (\<lambda>x. cmp_bytes (key x) k) xs (mid + 1) hi \<noteq> None"
      using 1 mid less.prems by (intro less.hyps) simp_all
    ultimately show ?thesis using mid by (subst bisect.simps) (simp add: mid_def [symmetric] Let_def)
  next
    case 2
    then have "cmp_bytes (key (xs ! mid)) k = EqualTo" using less.prems by (simp add: cmp_bytes_equal)
    then show ?thesis using mid by (subst bisect.simps) (simp add: mid_def [symmetric] Let_def)
  next
    case 3
    then have "cmp_bytes k (key (xs ! mid)) = LessThan" using cmp [of i mid] mid less.prems by simp
    then have "cmp_bytes (key (xs ! mid)) k = GreaterThan" using reverse_cmp_bytes [of k "key (xs ! mid)"] by simp
    moreover have "bisect (\<lambda>x. cmp_bytes (key x) k) xs lo mid \<noteq> None"
      using 3 mid less.prems by (intro less.hyps) simp_all
    ultimately show ?thesis using mid by (subst bisect.simps) (simp add: mid_def [symmetric] Let_def)
  qed
qed

lemma reserved_sorted:
  "sorted_wrt (\<lambda>a b. cmp_bytes (utf8 a) (utf8 b) = LessThan) RESERVED_FEATURE_NAMES"
proof -
  have "successively (\<lambda>a b. cmp_bytes (utf8 a) (utf8 b) = LessThan) RESERVED_FEATURE_NAMES"
    by code_simp
  then show ?thesis
    by (subst (asm) successively_iff_sorted_wrt_strong) (auto intro: cmp_bytes_trans)
qed

lemma byte_inject: "m < 256 \<Longrightarrow> n < 256 \<Longrightarrow> (word_of_nat m :: byte) = word_of_nat n \<longleftrightarrow> m = n"
  by (metis unat_byte)

lemma code_of_bound: "code_of c < 256"
  by (simp add: code_of_def)

lemma code_of_inject: "code_of c = code_of d \<longleftrightarrow> c = d"
  by (simp add: code_of_def)

lemma utf8_char_inject:
  assumes "utf8_char c @ x = utf8_char d @ y" shows "c = d \<and> x = y"
proof -
  define m n where "m = code_of c" and "n = code_of d"
  have b: "m < 256" "n < 256" by (simp_all add: m_def n_def code_of_bound)
  have hi: "192 + m div 64 < 256" "192 + n div 64 < 256" "128 + m mod 64 < 256" "128 + n mod 64 < 256"
    using b by (simp_all add: less_mult_imp_div_less)
  consider "m < 128" "n < 128" | "m < 128" "128 \<le> n" | "128 \<le> m" "n < 128" | "128 \<le> m" "128 \<le> n"
    by linarith
  then have "m = n \<and> x = y"
  proof cases
    case 1
    then show ?thesis using assms b by (simp add: utf8_char_def m_def [symmetric] n_def [symmetric] byte_inject)
  next
    case 2
    then have "word_of_nat m = (word_of_nat (192 + n div 64) :: byte)"
      using assms by (simp add: utf8_char_def m_def [symmetric] n_def [symmetric])
    then have "m = 192 + n div 64" using byte_inject [OF b(1) hi(2)] by blast
    with 2 show ?thesis by simp
  next
    case 3
    then have "word_of_nat n = (word_of_nat (192 + m div 64) :: byte)"
      using assms by (simp add: utf8_char_def m_def [symmetric] n_def [symmetric])
    then have "n = 192 + m div 64" using byte_inject [OF b(2) hi(1)] by blast
    with 3 show ?thesis by simp
  next
    case 4
    then have "word_of_nat (192 + m div 64) = (word_of_nat (192 + n div 64) :: byte)"
      "word_of_nat (128 + m mod 64) = (word_of_nat (128 + n mod 64) :: byte)" "x = y"
      using assms by (simp_all add: utf8_char_def m_def [symmetric] n_def [symmetric] Let_def)
    then have "m div 64 = n div 64" "m mod 64 = n mod 64" "x = y"
      using byte_inject [OF hi(1,2)] byte_inject [OF hi(3,4)] by simp_all
    then show ?thesis by (metis div_mult_mod_eq)
  qed
  then show ?thesis by (simp add: m_def n_def code_of_inject)
qed

lemma utf8_inject: "utf8 s = utf8 t \<longleftrightarrow> s = t"
proof (induction s arbitrary: t)
  case Nil
  have "utf8_char c \<noteq> []" for c by (simp add: utf8_char_def Let_def)
  then show ?case by (cases t) (auto simp: utf8_def)
next
  case (Cons c s)
  have "utf8_char c \<noteq> []" by (simp add: utf8_char_def Let_def)
  with Cons show ?case
    by (cases t) (auto simp: utf8_def dest: utf8_char_inject)
qed

section \<open>Properties\<close>

text \<open>A feature name is refused exactly when it is one of the reserved names; the bisection finds
  every entry because the list is in byte order.\<close>

lemma is_reserved_feature_name_correct:
  "is_reserved_feature_name name \<longleftrightarrow> name \<in> set RESERVED_FEATURE_NAMES"
proof
  assume "is_reserved_feature_name name"
  then obtain i where "bisect (\<lambda>s. cmp_bytes (utf8 s) (utf8 name)) RESERVED_FEATURE_NAMES 0
      (length RESERVED_FEATURE_NAMES) = Some i" by (auto simp: is_reserved_feature_name_def)
  from bisect_sound [OF this] show "name \<in> set RESERVED_FEATURE_NAMES"
    by (auto simp: cmp_bytes_equal utf8_inject)
next
  assume "name \<in> set RESERVED_FEATURE_NAMES"
  then obtain i where "i < length RESERVED_FEATURE_NAMES" "RESERVED_FEATURE_NAMES ! i = name"
    by (auto simp: in_set_conv_nth)
  then have "i < length RESERVED_FEATURE_NAMES" "utf8 (RESERVED_FEATURE_NAMES ! i) = utf8 name" by simp_all
  then show "is_reserved_feature_name name"
    unfolding is_reserved_feature_name_def
    by (rule bisect_complete [OF reserved_sorted order_refl le0])
qed

text \<open>Equality, order and hashing of feature values agree. The order is total and transitive, its
  \<open>Equal\<close> is \<open>==\<close>, and two values are equal exactly when they feed the hasher the same data: NaNs
  are one value, and \<open>0.0\<close> and \<open>-0.0\<close> are two.\<close>

lemma feature_value_order:
  "(feature_cmp x y = EqualTo \<longleftrightarrow> feature_eq x y) \<and>
   (feature_eq x y \<longleftrightarrow> feature_hash_parts x = feature_hash_parts y) \<and>
   feature_cmp y x = reverse (feature_cmp x y) \<and>
   (feature_cmp x y \<noteq> GreaterThan \<longrightarrow> feature_cmp y z \<noteq> GreaterThan \<longrightarrow> feature_cmp x z \<noteq> GreaterThan) \<and>
   \<not> feature_eq (FFloat 0) (FFloat 0x8000000000000000)"
proof -
  have "feature_eq x y \<longleftrightarrow> feature_hash_parts x = feature_hash_parts y"
    by (cases x; cases y) auto
  moreover have "\<not> feature_eq (FFloat 0) (FFloat 0x8000000000000000)"
    by (simp add: canonical_bits_def is_nan64_def nan64_def)
  ultimately show ?thesis
    using feature_cmp_equal feature_cmp_reverse feature.cmp_trans_le by blast
qed

end
