(* ===== verification/Chrono.thy ===== *)
theory Chrono
  imports Prelude
begin

text \<open>
  The date-time library the core crate calls (the \<open>chrono\<close> package) is not part of the repository,
  so its operations are fields of the record \<open>chrono\<close> that every definition using them takes as an
  argument. What the code relies on is the locale \<open>chrono_laws\<close>: documented behaviour of the
  package, restricted to instants that are no leap seconds where leap seconds matter. The end of the
  theory builds \<open>gregorian\<close>, a proleptic Gregorian calendar over the full range of the package, and
  interprets the locale on it, so the laws are satisfiable together and witnesses can evaluate.

  A \<open>DateTime<Utc>\<close> is its two public readings: \<open>timestamp()\<close>, whole seconds since 1970, and
  \<open>timestamp_subsec_nanos()\<close>, which is at least one second exactly for a leap second. A
  \<open>Duration\<close> is its exact span in nanoseconds.
\<close>

section \<open>Instants\<close>

datatype datetime = DateTime (timestamp: int) (subsec_nanos: nat)

instantiation datetime :: linorder
begin

definition less_eq_datetime :: "datetime \<Rightarrow> datetime \<Rightarrow> bool" where
  "less_eq_datetime a b \<longleftrightarrow>
     timestamp a < timestamp b \<or> timestamp a = timestamp b \<and> subsec_nanos a \<le> subsec_nanos b"

definition less_datetime :: "datetime \<Rightarrow> datetime \<Rightarrow> bool" where
  "less_datetime a b \<longleftrightarrow>
     timestamp a < timestamp b \<or> timestamp a = timestamp b \<and> subsec_nanos a < subsec_nanos b"

instance
  by standard (auto simp: less_eq_datetime_def less_datetime_def datetime.expand)

end

type_synonym duration = int

definition no_leap :: "datetime \<Rightarrow> bool" where
  "no_leap t \<longleftrightarrow> subsec_nanos t < 1000000000"

definition to_ns :: "datetime \<Rightarrow> int" where
  "to_ns t = timestamp t * 1000000000 + int (subsec_nanos t)"

definition of_ns :: "int \<Rightarrow> datetime" where
  "of_ns n = DateTime (n div 1000000000) (nat (n mod 1000000000))"

lemma no_leap_of_ns [simp]: "no_leap (of_ns n)"
  by (simp add: no_leap_def of_ns_def nat_less_iff)

lemma to_ns_of_ns [simp]: "to_ns (of_ns n) = n"
  by (simp add: to_ns_def of_ns_def)

lemma of_ns_to_ns: "no_leap t \<Longrightarrow> of_ns (to_ns t) = t"
  by (cases t) (simp add: to_ns_def of_ns_def no_leap_def)

lemma of_ns_inject [simp]: "of_ns a = of_ns b \<longleftrightarrow> a = b"
  by (metis to_ns_of_ns)

lemma to_ns_inject: "no_leap a \<Longrightarrow> no_leap b \<Longrightarrow> to_ns a = to_ns b \<longleftrightarrow> a = b"
  by (metis of_ns_to_ns)

lemma less_eq_to_ns: "no_leap a \<Longrightarrow> no_leap b \<Longrightarrow> a \<le> b \<longleftrightarrow> to_ns a \<le> to_ns b"
  by (cases a; cases b) (auto simp: less_eq_datetime_def to_ns_def no_leap_def)

lemma less_to_ns: "no_leap a \<Longrightarrow> no_leap b \<Longrightarrow> a < b \<longleftrightarrow> to_ns a < to_ns b"
  using less_eq_to_ns [of b a] by (simp add: not_le [symmetric])

lemma of_ns_le_iff [simp]: "of_ns a \<le> of_ns b \<longleftrightarrow> a \<le> b"
  by (simp add: less_eq_to_ns)

lemma of_ns_less_iff [simp]: "of_ns a < of_ns b \<longleftrightarrow> a < b"
  by (simp add: less_to_ns)

section \<open>The operations the code calls\<close>

record chrono =
  num_milliseconds :: "duration \<Rightarrow> int"
  dur_subsec_nanos :: "duration \<Rightarrow> int"
  try_milliseconds :: "int \<Rightarrow> duration option"
  signed_duration_since :: "datetime \<Rightarrow> datetime \<Rightarrow> duration"
  checked_add_signed :: "datetime \<Rightarrow> duration \<Rightarrow> datetime option"
  checked_add_months :: "datetime \<Rightarrow> nat \<Rightarrow> datetime option"
  checked_sub_months :: "datetime \<Rightarrow> nat \<Rightarrow> datetime option"
  dt_year :: "datetime \<Rightarrow> int"
  dt_month :: "datetime \<Rightarrow> int"
  dt_day :: "datetime \<Rightarrow> int"
  timestamp_millis :: "datetime \<Rightarrow> int"
  from_timestamp_millis :: "int \<Rightarrow> datetime option"
  min_utc :: datetime
  max_utc :: datetime

text \<open>An instant of the representable range that is no leap second.\<close>

definition regular :: "chrono \<Rightarrow> datetime \<Rightarrow> bool" where
  "regular C t \<longleftrightarrow> no_leap t \<and> min_utc C \<le> t \<and> t \<le> max_utc C"

definition month_index :: "chrono \<Rightarrow> datetime \<Rightarrow> int" where
  "month_index C t = dt_year C t * 12 + dt_month C t - 1"

locale chrono_laws =
  fixes C :: chrono
    and days_in_month :: "int \<Rightarrow> int"
    and time_of_day :: "datetime \<Rightarrow> int \<times> nat"
  assumes num_milliseconds: "num_milliseconds C d = quot d 1000000"
    and dur_subsec_nanos: "dur_subsec_nanos C d = remt d 1000000000"
    and try_milliseconds: "try_milliseconds C ms =
          (if - i64_max \<le> ms \<and> ms \<le> i64_max then Some (ms * 1000000) else None)"
    and range_no_leap: "no_leap (min_utc C)" "no_leap (max_utc C)" "min_utc C \<le> max_utc C"
    and range_ms: "to_ns (max_utc C) - to_ns (min_utc C) < i64_max * 1000000"
          "- i64_max * 1000000 \<le> to_ns (min_utc C)" "to_ns (max_utc C) \<le> i64_max * 1000000"
    and range_months: "month_index C (max_utc C) - month_index C (min_utc C) \<le> int u32_max"
    and signed_duration_since: "no_leap a \<Longrightarrow> no_leap b \<Longrightarrow>
          signed_duration_since C a b = to_ns a - to_ns b"
    and checked_add_signed: "regular C t \<Longrightarrow> checked_add_signed C t d =
          (if regular C (of_ns (to_ns t + d)) then Some (of_ns (to_ns t + d)) else None)"
    and timestamp_millis: "no_leap t \<Longrightarrow> timestamp_millis C t = to_ns t div 1000000"
    and from_timestamp_millis: "from_timestamp_millis C ms =
          (if regular C (of_ns (ms * 1000000)) then Some (of_ns (ms * 1000000)) else None)"
    and month_index_mono: "t \<le> u \<Longrightarrow> month_index C t \<le> month_index C u"
    and day_mono: "month_index C t = month_index C u \<Longrightarrow> t \<le> u \<Longrightarrow> dt_day C t \<le> dt_day C u"
    and day_bounds: "1 \<le> dt_day C t" "dt_day C t \<le> days_in_month (month_index C t)"
    and civil_inject: "month_index C t = month_index C u \<Longrightarrow> dt_day C t = dt_day C u \<Longrightarrow>
          time_of_day t = time_of_day u \<Longrightarrow> t = u"
    and add_months_defined: "regular C t \<Longrightarrow>
          (checked_add_months C t n = None) \<longleftrightarrow>
            month_index C (max_utc C) < month_index C t + int n"
    and add_months_civil: "regular C t \<Longrightarrow> checked_add_months C t n = Some u \<Longrightarrow>
          regular C u \<and> month_index C u = month_index C t + int n \<and>
          dt_day C u = min (dt_day C t) (days_in_month (month_index C u)) \<and>
          time_of_day u = time_of_day t"
    and sub_months_defined: "regular C t \<Longrightarrow>
          (checked_sub_months C t n = None) \<longleftrightarrow>
            month_index C t - int n < month_index C (min_utc C)"
    and sub_months_civil: "regular C t \<Longrightarrow> checked_sub_months C t n = Some u \<Longrightarrow>
          regular C u \<and> month_index C u = month_index C t - int n \<and>
          dt_day C u = min (dt_day C t) (days_in_month (month_index C u)) \<and>
          time_of_day u = time_of_day t"
begin

lemma month_index_less: "month_index C t < month_index C u \<Longrightarrow> t < u"
  using month_index_mono [of u t] by (meson not_le)

lemma add_months_zero: "regular C t \<Longrightarrow> checked_add_months C t 0 = Some t"
proof -
  assume r: "regular C t"
  then have "month_index C t \<le> month_index C (max_utc C)"
    by (simp add: regular_def month_index_mono)
  then obtain u where u: "checked_add_months C t 0 = Some u"
    using add_months_defined [OF r, of 0] by (cases "checked_add_months C t 0") auto
  from add_months_civil [OF r u] day_bounds(2) [of t] have "u = t"
    by (intro civil_inject) auto
  with u show ?thesis by simp
qed

lemma add_months_strict_mono:
  assumes "regular C t" "checked_add_months C t a = Some u" "checked_add_months C t b = Some v"
    and "a < b"
  shows "u < v"
  using add_months_civil [OF assms(1,2)] add_months_civil [OF assms(1,3)] assms(4)
  by (intro month_index_less) simp

lemma add_months_closed:
  assumes "regular C t" "checked_add_months C t b = Some v" "a \<le> b"
  obtains u where "checked_add_months C t a = Some u"
  using add_months_defined [OF assms(1), of a] add_months_defined [OF assms(1), of b] assms(2,3)
  by (cases "checked_add_months C t a") auto

text \<open>Adding months in two steps agrees with one step whenever the first kept the day of month.\<close>

lemma add_months_assoc:
  assumes t: "regular C t" and u: "checked_add_months C t a = Some u"
    and day: "dt_day C u = dt_day C t"
  shows "checked_add_months C u b = checked_add_months C t (a + b)"
proof -
  note cu = add_months_civil [OF t u]
  show ?thesis
  proof (cases "checked_add_months C u b")
    case None
    then have "checked_add_months C t (a + b) = None"
      using add_months_defined [of u b] add_months_defined [OF t, of "a + b"] cu by simp
    with None show ?thesis by simp
  next
    case (Some v)
    moreover obtain w where w: "checked_add_months C t (a + b) = Some w"
      using Some add_months_defined [of u b] add_months_defined [OF t, of "a + b"] cu
      by (cases "checked_add_months C t (a + b)") auto
    moreover have "v = w"
      using add_months_civil [of u b v] Some add_months_civil [OF t w] cu day
      by (intro civil_inject) (auto simp: add.assoc)
    ultimately show ?thesis by simp
  qed
qed

lemma add_signed_ms:
  assumes "regular C t" "checked_add_signed C t d = Some u"
  shows "u = of_ns (to_ns t + d)" "regular C u"
  using assms checked_add_signed [OF assms(1)] by (auto split: if_splits)

end

end
