(* ===== verification/TimeReference.thy ===== *)
theory TimeReference
  imports Features Chrono
begin

text \<open>
  \<open>crates/infrastore-core/src/types/time_reference.rs\<close>: how a series' timestamps were spelled, the one
  text column that holds all four spellings, and the check of a query range against a reference. The
  time-zone database is never consulted, in the code and in the model.
\<close>

section \<open>References\<close>

definition MAX_ZONE_NAME_LEN :: nat where "MAX_ZONE_NAME_LEN = 64"
definition UTC_LITERAL :: string where "UTC_LITERAL = ''utc''"
definition ZONELESS_LITERAL :: string where "ZONELESS_LITERAL = ''zoneless''"

datatype time_reference = Utc | FixedOffset int | Zone string | Zoneless

definition is_zoneless :: "time_reference \<Rightarrow> bool" where
  "is_zoneless r \<longleftrightarrow> r = Zoneless"

definition accepts_zoned_bound :: "time_reference option \<Rightarrow> bool" where
  "accepts_zoned_bound reference \<longleftrightarrow> reference \<noteq> Some Zoneless"

text \<open>\<open>{:02}\<close>: at least two digits.\<close>

definition pad2 :: "nat \<Rightarrow> string" where
  "pad2 n = (if n < 10 then CHR ''0'' # show_nat n else show_nat n)"

definition format_offset :: "int \<Rightarrow> string" where
  "format_offset minutes =
     (let sign = (if minutes < 0 then CHR ''-'' else CHR ''+''); abs = nat \<bar>minutes\<bar>
      in sign # pad2 (abs div 60) @ '':'' @ pad2 (abs mod 60))"

text \<open>
  Only digits and the separator reach the split, so byte positions are character positions. A part
  with a separator in it does not parse.
\<close>

definition parse_offset :: "string \<Rightarrow> int option" where
  "parse_offset s =
     (case s of
        [] \<Rightarrow> None
      | c # rest \<Rightarrow>
          if c \<noteq> CHR ''+'' \<and> c \<noteq> CHR ''-'' then None
          else if \<not> list_all (\<lambda>b. is_ascii_digit b \<or> b = CHR '':'') rest then None
          else
            let sign = (if c = CHR ''+'' then 1 else - 1);
                parts = (if length rest = 5 \<and> rest ! 2 = CHR '':'' then Some (take 2 rest, drop 3 rest)
                  else if length rest = 4 then Some (take 2 rest, drop 2 rest)
                  else if length rest = 2 then Some (rest, ''0'')
                  else None)
            in Option.bind parts (\<lambda>(h, m).
               Option.bind (parse_digits h) (\<lambda>hours.
               Option.bind (parse_digits m) (\<lambda>minutes.
                 if 23 < hours \<or> 59 < minutes then None
                 else Some (sign * (int hours * 60 + int minutes))))))"

definition is_zone_char :: "char \<Rightarrow> bool" where
  "is_zone_char c \<longleftrightarrow>
     is_ascii_alphabetic c \<or> is_ascii_digit c \<or> c = CHR ''_'' \<or> c = CHR ''+'' \<or> c = CHR ''-''"

definition is_iana_component :: "string \<Rightarrow> bool" where
  "is_iana_component s \<longleftrightarrow> (case s of [] \<Rightarrow> False | c # cs \<Rightarrow> is_ascii_alphabetic c \<and> list_all is_zone_char cs)"

definition is_iana_shaped :: "string \<Rightarrow> bool" where
  "is_iana_shaped name \<longleftrightarrow>
     (let components = split_all (CHR ''/'') name
      in length components \<le> 3 \<and> list_all is_iana_component components)"

fun validate_reference :: "time_reference \<Rightarrow> unit result" where
  "validate_reference Utc = Inr ()"
| "validate_reference Zoneless = Inr ()"
| "validate_reference (FixedOffset minutes) =
     (if 24 * 60 \<le> \<bar>minutes\<bar> then Inl (InvalidParameter ''not a real UTC offset'') else Inr ())"
| "validate_reference (Zone name) =
     (if name = [] then Inl (InvalidParameter ''zone name is empty'')
      else if MAX_ZONE_NAME_LEN < length (utf8 name) then Inl (InvalidParameter ''zone name is too long'')
      else if name = UTC_LITERAL \<or> name = ZONELESS_LITERAL then Inl (InvalidParameter ''storage spelling'')
      else if parse_offset name \<noteq> None then Inl (InvalidParameter ''reads as a fixed UTC offset'')
      else if \<not> is_iana_shaped name then Inl (InvalidParameter ''not shaped like an IANA name'')
      else Inr ())"

fun as_storage_string :: "time_reference \<Rightarrow> string" where
  "as_storage_string Utc = UTC_LITERAL"
| "as_storage_string Zoneless = ZONELESS_LITERAL"
| "as_storage_string (FixedOffset minutes) = format_offset minutes"
| "as_storage_string (Zone name) = name"

definition parse_reference :: "string \<Rightarrow> time_reference result" where
  "parse_reference s =
     (if s = UTC_LITERAL then Inr Utc
      else if s = ZONELESS_LITERAL then Inr Zoneless
      else case parse_offset s of
        Some minutes \<Rightarrow> Inr (FixedOffset minutes)
      | None \<Rightarrow> rbind (validate_reference (Zone s)) (\<lambda>_. Inr (Zone s)))"

section \<open>Query ranges\<close>

record time_range =
  range_start :: datetime
  range_end :: datetime
  range_zoneless :: bool

definition range_new :: "datetime \<Rightarrow> datetime \<Rightarrow> time_range" where
  "range_new s e = \<lparr>range_start = s, range_end = e, range_zoneless = False\<rparr>"

definition range_of_zoneless :: "datetime \<Rightarrow> datetime \<Rightarrow> time_range" where
  "range_of_zoneless s e = \<lparr>range_start = s, range_end = e, range_zoneless = True\<rparr>"

definition range_spelled :: "datetime \<Rightarrow> datetime \<Rightarrow> bool \<Rightarrow> time_range" where
  "range_spelled s e z = \<lparr>range_start = s, range_end = e, range_zoneless = z\<rparr>"

definition range_bounds :: "time_range \<Rightarrow> datetime \<times> datetime" where
  "range_bounds r = (range_start r, range_end r)"

definition check_against :: "time_range \<Rightarrow> time_reference option \<Rightarrow> unit result" where
  "check_against r reference =
     (case (range_zoneless r, accepts_zoned_bound reference) of
        (False, True) \<Rightarrow> Inr ()
      | (True, False) \<Rightarrow> Inr ()
      | (True, True) \<Rightarrow> Inl (InvalidParameter ''the query bounds carry no zone'')
      | (False, False) \<Rightarrow> Inl (InvalidParameter ''the query bounds name an instant''))"

section \<open>Offsets\<close>

lemma show_nat_two: "n < 100 \<Longrightarrow> pad2 n = [digit_char (n div 10), digit_char (n mod 10)]"
  by (auto simp: pad2_def show_nat.simps [of n] show_nat.simps [of "n div 10"] digit_char_0 [symmetric])

lemma parse_digits_pad2: "n < 100 \<Longrightarrow> parse_digits (pad2 n) = Some n"
  by (simp add: show_nat_two parse_digits_def digits_value_def)

lemma digit_not_colon: "n < 10 \<Longrightarrow> digit_char n \<noteq> CHR '':''"
  using code_digit_char [of n] by (auto simp: code_of_def)

lemma parse_format_offset:
  assumes "\<bar>minutes\<bar> < 24 * 60" shows "parse_offset (format_offset minutes) = Some minutes"
proof -
  define h m where "h = nat \<bar>minutes\<bar> div 60" and "m = nat \<bar>minutes\<bar> mod 60"
  have sum: "h * 60 + m = nat \<bar>minutes\<bar>" by (simp add: h_def m_def)
  have h: "h < 24" and m: "m < 60" using assms by (auto simp: h_def m_def)
  have total: "int h * 60 + int m = \<bar>minutes\<bar>" using arg_cong [OF sum, of int] by simp
  define c where "c = (if minutes < 0 then CHR ''-'' else CHR ''+'')"
  define rest where "rest = pad2 h @ '':'' @ pad2 m"
  have len: "length (pad2 h) = 2" "length (pad2 m) = 2" using h m by (simp_all add: show_nat_two)
  have split: "length rest = 5" "rest ! 2 = CHR '':''" "take 2 rest = pad2 h" "drop 3 rest = pad2 m"
    using len by (simp_all add: rest_def nth_append)
  have digits: "list_all (\<lambda>b. is_ascii_digit b \<or> b = CHR '':'') rest"
    using h m by (simp add: rest_def show_nat_two)
  have "format_offset minutes = c # rest" by (simp add: format_offset_def Let_def c_def rest_def h_def m_def)
  moreover have "c = CHR ''+'' \<or> c = CHR ''-''" by (simp add: c_def)
  moreover have "(if c = CHR ''+'' then 1 else - 1) * \<bar>minutes\<bar> = minutes" by (simp add: c_def)
  ultimately show ?thesis
    using split digits h m total by (simp add: parse_offset_def Let_def parse_digits_pad2)
qed

lemma parse_offset_bounds: "parse_offset s = Some minutes \<Longrightarrow> \<bar>minutes\<bar> < 24 * 60"
  by (auto simp: parse_offset_def Let_def bind_eq_Some_conv split: list.splits if_splits prod.splits)

lemma format_offset_literal: "format_offset m \<noteq> UTC_LITERAL" "format_offset m \<noteq> ZONELESS_LITERAL"
  by (simp_all add: format_offset_def Let_def UTC_LITERAL_def ZONELESS_LITERAL_def)

text \<open>C20: one text column holds the four spellings. The stored form of a valid reference parses back to
  the same reference, whatever the parser accepts is valid, and two valid references never share a
  stored form.\<close>

theorem time_reference_roundtrip:
  "(validate_reference r = Inr () \<longrightarrow> parse_reference (as_storage_string r) = Inr r) \<and>
   (parse_reference s = Inr q \<longrightarrow> validate_reference q = Inr ()) \<and>
   (validate_reference r = Inr () \<longrightarrow> validate_reference q = Inr () \<longrightarrow>
      as_storage_string r = as_storage_string q \<longrightarrow> r = q)"
proof -
  have round: "parse_reference (as_storage_string r) = Inr r" if "validate_reference r = Inr ()" for r
  proof (cases r)
    case (FixedOffset m)
    then have "\<bar>m\<bar> < 24 * 60" using that by (simp split: if_splits)
    then show ?thesis
      using format_offset_literal [of m] by (simp add: FixedOffset parse_reference_def parse_format_offset)
  next
    case (Zone name)
    then show ?thesis using that by (auto simp: parse_reference_def split: if_splits option.splits)
  qed (simp_all add: parse_reference_def UTC_LITERAL_def ZONELESS_LITERAL_def)
  moreover have "validate_reference q = Inr ()" if "parse_reference s = Inr q"
    using that parse_offset_bounds [of s] by (auto simp: parse_reference_def result_elims split: if_splits option.splits)
  ultimately show ?thesis by (metis sum.inject(2))
qed

theorem time_reference_roundtrip_witness:
  "parse_reference (as_storage_string (FixedOffset (- 420))) = Inr (FixedOffset (- 420))"
  using time_reference_roundtrip [of "FixedOffset (- 420)" "[]" Utc] by simp

end
