(* ===== verification/Gregorian.thy ===== *)
theory Gregorian
  imports Chrono
begin

text \<open>
  A proleptic Gregorian calendar that satisfies \<open>chrono_laws\<close>. It is the concrete instance the
  witnesses evaluate; no definition of the model depends on it. Days are counted from 1 January of
  year 0, months from January of year 0, and the range is that of the package: years -262143 to
  262142.
\<close>

section \<open>Years and months\<close>

definition days_before_year :: "int \<Rightarrow> int" where
  "days_before_year y = 365 * y + (y - 1) div 4 - (y - 1) div 100 + (y - 1) div 400 + 1"

definition leap_year :: "int \<Rightarrow> bool" where
  "leap_year y \<longleftrightarrow> 4 dvd y \<and> (\<not> 100 dvd y \<or> 400 dvd y)"

definition days_before_month :: "int \<Rightarrow> int list" where
  "days_before_month y =
     (if leap_year y then [0, 31, 60, 91, 121, 152, 182, 213, 244, 274, 305, 335, 366]
      else [0, 31, 59, 90, 120, 151, 181, 212, 243, 273, 304, 334, 365])"

definition month_start :: "int \<Rightarrow> int" where
  "month_start m = days_before_year (m div 12) + days_before_month (m div 12) ! nat (m mod 12)"

definition greg_days_in_month :: "int \<Rightarrow> int" where
  "greg_days_in_month m = month_start (m + 1) - month_start m"

lemma div_pred_step:
  fixes y k :: int assumes "0 < k"
  shows "y div k = (y - 1) div k + (if k dvd y then 1 else 0)"
proof -
  have y: "y = k * (y div k) + y mod k" and r: "0 \<le> y mod k" "y mod k < k" using assms by auto
  show ?thesis
  proof (cases "y mod k = 0")
    case True
    then have "(y - 1) div k = y div k - 1"
      using y assms by (intro int_div_pos_eq [of _ _ _ "k - 1"]) (auto simp: algebra_simps)
    with True show ?thesis by (simp add: dvd_eq_mod_eq_0)
  next
    case False
    with r have "0 \<le> y mod k - 1" "y mod k - 1 < k" by linarith+
    then have "(y - 1) div k = y div k"
      using y by (intro int_div_pos_eq [of _ _ _ "y mod k - 1"]) (auto simp: algebra_simps)
    with False show ?thesis by (simp add: dvd_eq_mod_eq_0)
  qed
qed

lemma leap_count:
  "(r \<Longrightarrow> q) \<Longrightarrow> (q \<Longrightarrow> p) \<Longrightarrow>
   (if p then 1 else 0) - (if q then 1 else 0) + (if r then 1 else 0) =
   (if p \<and> (\<not> q \<or> r) then 1 else (0::int))"
  by auto

lemma days_before_year_Suc:
  "days_before_year (y + 1) = days_before_year y + (if leap_year y then 366 else 365)"
proof -
  have "400 dvd y \<Longrightarrow> 100 dvd y" "100 dvd y \<Longrightarrow> 4 dvd y"
    using dvd_trans [of "100::int" 400 y] dvd_trans [of "4::int" 100 y] by simp_all
  then have 1: "(if 4 dvd y then 1 else 0) - (if 100 dvd y then 1 else 0) +
      (if 400 dvd y then 1 else 0) = (if leap_year y then 1 else (0::int))"
    unfolding leap_year_def by (rule leap_count)
  have 2: "y div k = (y - 1) div k + (if k dvd y then 1 else 0)" if "0 < k" for k
    using that by (rule div_pred_step)
  define a b c p q r l where "a = (y - 1) div 4" and "b = (y - 1) div 100" and "c = (y - 1) div 400"
    and "p = (if 4 dvd y then 1 else (0::int))" and "q = (if 100 dvd y then 1 else (0::int))"
    and "r = (if 400 dvd y then 1 else (0::int))" and "l = (if leap_year y then 1 else (0::int))"
  have "days_before_year (y + 1) = 365 * (y + 1) + (a + p) - (b + q) + (c + r) + 1"
    unfolding days_before_year_def add_diff_cancel_right' a_def b_def c_def p_def q_def r_def
    by (simp only: 2 [of 4] 2 [of 100] 2 [of 400] zero_less_numeral)
  moreover have "days_before_year y = 365 * y + a - b + c + 1"
    unfolding days_before_year_def a_def b_def c_def ..
  moreover have "p - q + r = l" using 1 by (simp only: p_def q_def r_def l_def)
  moreover have "(if leap_year y then 366 else 365) = 365 + l" by (simp add: l_def)
  ultimately show ?thesis by simp
qed

lemma days_before_month_step:
  assumes "k < 12" shows "28 \<le> days_before_month y ! Suc k - days_before_month y ! k"
proof -
  have "k = 0 \<or> k = 1 \<or> k = 2 \<or> k = 3 \<or> k = 4 \<or> k = 5 \<or> k = 6 \<or> k = 7 \<or> k = 8 \<or> k = 9 \<or>
      k = 10 \<or> k = 11"
    using assms by presburger
  then show ?thesis by (elim disjE) (simp_all add: days_before_month_def)
qed

lemma month_start_parts:
  assumes "k \<le> 12"
  shows "month_start (12 * y + int k) = days_before_year y + days_before_month y ! k"
proof (cases "k = 12")
  case True
  have "(12 * y + 12) div 12 = y + 1" "(12 * y + 12) mod 12 = 0" by simp_all
  with True show ?thesis
    by (simp add: month_start_def days_before_year_Suc days_before_month_def)
next
  case False
  with assms have "(12 * y + int k) div 12 = y" "(12 * y + int k) mod 12 = int k" by simp_all
  then show ?thesis by (simp add: month_start_def)
qed

lemma month_parts:
  obtains y k where "m = 12 * y + int k" "k < 12"
proof
  show "m = 12 * (m div 12) + int (nat (m mod 12))" "nat (m mod 12) < 12" by (simp_all add: nat_less_iff)
qed

lemma month_start_step: "28 \<le> greg_days_in_month m"
proof -
  obtain y k where m: "m = 12 * y + int k" "k < 12" by (rule month_parts)
  then have "month_start (m + 1) = days_before_year y + days_before_month y ! Suc k"
    using month_start_parts [of "Suc k" y] by (simp add: ac_simps)
  with m show ?thesis
    using month_start_parts [of k y] days_before_month_step [of k y]
    by (simp add: greg_days_in_month_def)
qed

lemma month_start_less: "m < n \<Longrightarrow> month_start m < month_start n"
proof (induction n rule: int_gr_induct)
  case base
  show ?case using month_start_step [of m] by (simp add: greg_days_in_month_def)
next
  case (step i)
  then show ?case using month_start_step [of i] by (simp add: greg_days_in_month_def)
qed

lemma month_start_less_iff: "month_start m < month_start n \<longleftrightarrow> m < n"
  by (metis month_start_less linorder_less_linear order_less_asym')

section \<open>From days to civil dates\<close>

definition year_of_day :: "int \<Rightarrow> int" where
  "year_of_day d =
     (let era = d div 146097; doe = d mod 146097; y = doe div 366
      in 400 * era + (if days_before_year (y + 1) \<le> doe then y + 1 else y))"

definition month_of_day :: "int \<Rightarrow> int" where
  "month_of_day d =
     (let y = year_of_day d
      in 12 * y + int (length (filter (\<lambda>c. c \<le> d - days_before_year y) (days_before_month y))) - 1)"

lemma days_before_year_era: "days_before_year (400 * e + y) = 146097 * e + days_before_year y"
  using div_mult_self4 [of 4 "100 * e" "y - 1"] div_mult_self4 [of 100 "4 * e" "y - 1"]
    div_mult_self4 [of 400 e "y - 1"]
  by (simp add: days_before_year_def add_diff_eq)

lemma year_in_era:
  fixes r y :: int
  assumes y: "366 * y \<le> r" "r < 366 * y + 366" "0 \<le> y" "y < 400"
  shows "days_before_year y \<le> r" "r < days_before_year (y + 2)"
proof -
  define a b c where "a = (y - 1) div 4" and "b = (y - 1) div 100" and "c = (y - 1) div 400"
  have a: "4 * a \<le> y - 1" and b: "y - 1 < 100 * b + 100" and c: "400 * c \<le> y - 1"
    by (simp_all add: a_def b_def c_def)
  have "c \<le> 0" using c y by linarith
  have "c \<le> b"
  proof (cases "c = 0")
    case True
    then show ?thesis using b c y by linarith
  next
    case False
    with \<open>c \<le> 0\<close> have "c \<le> - 1" by linarith
    moreover have "- 1 \<le> b" using b y by linarith
    ultimately show ?thesis by linarith
  qed
  moreover have "4 * a \<le> y - 1" by (fact a)
  ultimately have "a - b + c + 1 \<le> y" using y(3) by (cases "y = 0") linarith+
  then show "days_before_year y \<le> r"
    using y(1) by (simp add: days_before_year_def a_def b_def c_def)
next
  define a b c where "a = (y + 1) div 4" and "b = (y + 1) div 100" and "c = (y + 1) div 400"
  have "y + 1 < 4 * a + 4" "100 * b \<le> y + 1" by (simp_all add: a_def b_def)
  moreover have "0 \<le> c" using y(3) by (simp add: c_def)
  ultimately have "24 * y < 100 * a - 100 * b + 76" "0 \<le> c" by linarith+
  then have "y < 366 + a - b + c" using y by linarith
  then have "r < 365 * (y + 2) + a - b + c + 1" using y by auto
  then show "r < days_before_year (y + 2)" by (simp add: days_before_year_def a_def b_def c_def add.commute)
qed

lemma year_of_day_bounds:
  "days_before_year (year_of_day d) \<le> d \<and> d < days_before_year (year_of_day d + 1)"
proof -
  define e r y where "e = d div 146097" and "r = d mod 146097" and "y = r div 366"
  have d: "d = 146097 * e + r" and r: "0 \<le> r" "r < 146097" by (auto simp: e_def r_def)
  have "366 * y \<le> r" "r < 366 * y + 366" "0 \<le> y" "y < 400"
    using r by (simp_all add: y_def)
  note yy = year_in_era [OF this]
  have "year_of_day d = 400 * e + (if days_before_year (y + 1) \<le> r then y + 1 else y)"
    by (simp add: year_of_day_def e_def r_def y_def Let_def)
  with yy show ?thesis
    using days_before_year_era [of e y] days_before_year_era [of e "y + 1"]
      days_before_year_era [of e "y + 2"]
    by (auto simp: d add.assoc)
qed

lemma month_count:
  assumes "0 \<le> r" "r < (if leap_year y then 366 else 365)"
  defines "k \<equiv> length (filter (\<lambda>c. c \<le> r) (days_before_month y)) - 1"
  shows "k < 12" "days_before_month y ! k \<le> r" "r < days_before_month y ! Suc k"
    "length (filter (\<lambda>c. c \<le> r) (days_before_month y)) = Suc k"
  using assms by (cases "leap_year y"; simp add: k_def days_before_month_def)+

lemma month_of_day_bounds: "month_start (month_of_day d) \<le> d \<and> d < month_start (month_of_day d + 1)"
proof -
  define y r where "y = year_of_day d" and "r = d - days_before_year y"
  have r: "0 \<le> r" "r < (if leap_year y then 366 else 365)"
    using year_of_day_bounds [of d] by (auto simp: r_def y_def days_before_year_Suc split: if_splits)
  define k where "k = length (filter (\<lambda>c. c \<le> r) (days_before_month y)) - 1"
  note k = month_count [OF r, folded k_def]
  have m: "month_of_day d = 12 * y + int k"
    using k(4) by (simp add: month_of_day_def y_def [symmetric] r_def [symmetric] Let_def)
  have "12 * y + int k + 1 = 12 * y + int (Suc k)" by simp
  then show ?thesis
    using k month_start_parts [of k y] month_start_parts [of "Suc k" y]
    by (simp only: m) (simp add: r_def)
qed

lemma month_of_day_unique: "month_start m \<le> d \<Longrightarrow> d < month_start (m + 1) \<Longrightarrow> month_of_day d = m"
  using month_of_day_bounds [of d] month_start_less_iff [of m "month_of_day d + 1"]
    month_start_less_iff [of "month_of_day d" "m + 1"] by linarith

lemma month_of_day_mono: "d \<le> d' \<Longrightarrow> month_of_day d \<le> month_of_day d'"
  using month_of_day_bounds [of d] month_of_day_bounds [of d']
    month_start_less_iff [of "month_of_day d" "month_of_day d' + 1"] by linarith

section \<open>The calendar as an instance of the interface\<close>

definition epoch_day :: int where "epoch_day = 719528"

definition day_number :: "datetime \<Rightarrow> int" where
  "day_number t = timestamp t div 86400 + epoch_day"

definition greg_month_index :: "datetime \<Rightarrow> int" where
  "greg_month_index t = month_of_day (day_number t)"

definition greg_day :: "datetime \<Rightarrow> int" where
  "greg_day t = day_number t - month_start (greg_month_index t) + 1"

definition greg_time_of_day :: "datetime \<Rightarrow> int \<times> nat" where
  "greg_time_of_day t = (timestamp t mod 86400, subsec_nanos t)"

definition civil :: "int \<Rightarrow> int \<Rightarrow> int \<times> nat \<Rightarrow> datetime" where
  "civil m d tod = DateTime ((month_start m + d - 1 - epoch_day) * 86400 + fst tod) (snd tod)"

definition at_month :: "datetime \<Rightarrow> int \<Rightarrow> datetime" where
  "at_month t m = civil m (min (greg_day t) (greg_days_in_month m)) (greg_time_of_day t)"

definition greg_min :: datetime where "greg_min = civil (- 262143 * 12) 1 (0, 0)"
definition greg_max :: datetime where "greg_max = civil (262143 * 12 - 1) 31 (86399, 999999999)"

definition greg_range :: "datetime \<Rightarrow> bool" where
  "greg_range t \<longleftrightarrow> greg_min \<le> t \<and> t \<le> greg_max"

definition gregorian :: chrono where
  "gregorian =
     \<lparr> num_milliseconds = (\<lambda>d. quot d 1000000),
       dur_subsec_nanos = (\<lambda>d. remt d 1000000000),
       try_milliseconds =
         (\<lambda>ms. if - i64_max \<le> ms \<and> ms \<le> i64_max then Some (ms * 1000000) else None),
       signed_duration_since = (\<lambda>a b. to_ns a - to_ns b),
       checked_add_signed =
         (\<lambda>t d. if greg_range (of_ns (to_ns t + d)) then Some (of_ns (to_ns t + d)) else None),
       checked_add_months =
         (\<lambda>t n. let m = greg_month_index t + int n
           in if 262143 * 12 \<le> m then None else Some (at_month t m)),
       checked_sub_months =
         (\<lambda>t n. let m = greg_month_index t - int n
           in if m < - 262143 * 12 then None else Some (at_month t m)),
       dt_year = (\<lambda>t. greg_month_index t div 12),
       dt_month = (\<lambda>t. greg_month_index t mod 12 + 1),
       dt_day = greg_day,
       timestamp_millis = (\<lambda>t. to_ns t div 1000000),
       from_timestamp_millis =
         (\<lambda>ms. if greg_range (of_ns (ms * 1000000)) then Some (of_ns (ms * 1000000)) else None),
       min_utc = greg_min,
       max_utc = greg_max \<rparr>"

lemma gregorian_simps:
  "num_milliseconds gregorian d = quot d 1000000"
  "dur_subsec_nanos gregorian d = remt d 1000000000"
  "try_milliseconds gregorian ms =
     (if - i64_max \<le> ms \<and> ms \<le> i64_max then Some (ms * 1000000) else None)"
  "signed_duration_since gregorian a b = to_ns a - to_ns b"
  "checked_add_signed gregorian t d =
     (if greg_range (of_ns (to_ns t + d)) then Some (of_ns (to_ns t + d)) else None)"
  "checked_add_months gregorian t n =
     (let m = greg_month_index t + int n in if 262143 * 12 \<le> m then None else Some (at_month t m))"
  "checked_sub_months gregorian t n =
     (let m = greg_month_index t - int n in if m < - 262143 * 12 then None else Some (at_month t m))"
  "dt_year gregorian t = greg_month_index t div 12"
  "dt_month gregorian t = greg_month_index t mod 12 + 1"
  "dt_day gregorian t = greg_day t"
  "timestamp_millis gregorian t = to_ns t div 1000000"
  "from_timestamp_millis gregorian ms =
     (if greg_range (of_ns (ms * 1000000)) then Some (of_ns (ms * 1000000)) else None)"
  "min_utc gregorian = greg_min"
  "max_utc gregorian = greg_max"
  by (simp_all add: gregorian_def)

lemma day_number_civil: "0 \<le> s \<Longrightarrow> s < 86400 \<Longrightarrow> day_number (civil m d (s, n)) = month_start m + d - 1"
  by (simp add: civil_def day_number_def)

lemma greg_month_index_civil:
  assumes "0 \<le> s" "s < 86400" "1 \<le> d" "d \<le> greg_days_in_month m"
  shows "greg_month_index (civil m d (s, n)) = m"
  using assms
  by (simp add: greg_month_index_def day_number_civil month_of_day_unique greg_days_in_month_def)

lemma greg_day_civil:
  assumes "0 \<le> s" "s < 86400" "1 \<le> d" "d \<le> greg_days_in_month m"
  shows "greg_day (civil m d (s, n)) = d"
  using assms by (simp add: greg_day_def greg_month_index_civil day_number_civil)

lemma greg_time_of_day_civil: "0 \<le> s \<Longrightarrow> s < 86400 \<Longrightarrow> greg_time_of_day (civil m d (s, n)) = (s, n)"
  by (simp only: civil_def greg_time_of_day_def datetime.sel fst_conv snd_conv mod_mult_self3
      mod_pos_pos_trivial)

lemma greg_day_bounds: "1 \<le> greg_day t" "greg_day t \<le> greg_days_in_month (greg_month_index t)"
  using month_of_day_bounds [of "day_number t"]
  by (simp_all add: greg_day_def greg_month_index_def greg_days_in_month_def)

lemma greg_month_index_mono: "t \<le> u \<Longrightarrow> greg_month_index t \<le> greg_month_index u"
proof -
  assume "t \<le> u"
  then have "timestamp t div 86400 \<le> timestamp u div 86400"
    by (auto simp: less_eq_datetime_def intro: zdiv_mono1)
  then show ?thesis by (simp add: greg_month_index_def day_number_def month_of_day_mono)
qed

lemma greg_day_mono: "greg_month_index t = greg_month_index u \<Longrightarrow> t \<le> u \<Longrightarrow> greg_day t \<le> greg_day u"
proof -
  assume m: "greg_month_index t = greg_month_index u" and "t \<le> u"
  then have "timestamp t \<le> timestamp u" by (auto simp: less_eq_datetime_def)
  then have "day_number t \<le> day_number u" by (simp add: day_number_def zdiv_mono1)
  with m show ?thesis by (simp add: greg_day_def)
qed

lemma greg_civil_inject:
  assumes "greg_month_index t = greg_month_index u" "greg_day t = greg_day u"
    and "greg_time_of_day t = greg_time_of_day u"
  shows "t = u"
proof -
  have "timestamp t div 86400 = timestamp u div 86400"
    using assms(1,2) by (simp add: greg_day_def day_number_def)
  with assms(3) have "timestamp t = timestamp u"
    by (metis greg_time_of_day_def prod.inject mult_div_mod_eq)
  with assms(3) show ?thesis by (simp add: greg_time_of_day_def datetime.expand)
qed

lemma at_month_facts:
  shows "greg_month_index (at_month t m) = m"
    and "greg_day (at_month t m) = min (greg_day t) (greg_days_in_month m)"
    and "greg_time_of_day (at_month t m) = greg_time_of_day t"
  using greg_day_bounds(1) [of t] month_start_step [of m]
  by (auto simp: at_month_def greg_time_of_day_def greg_month_index_civil greg_day_civil
      greg_time_of_day_civil [unfolded greg_time_of_day_def])

lemma no_leap_at_month: "no_leap (at_month t m) \<longleftrightarrow> no_leap t"
  by (simp add: at_month_def civil_def no_leap_def greg_time_of_day_def)

lemma december: "greg_days_in_month (262143 * 12 - 1) = 31"
  by code_simp

lemma month_start_limits:
  "month_start (- 262143 * 12) = -95745764" "month_start (262143 * 12) = 95745765"
  by code_simp+

lemma greg_limits:
  "greg_min = DateTime ((-95745764 - epoch_day) * 86400) 0"
  "greg_max = DateTime ((95745765 - epoch_day) * 86400 - 1) 999999999"
  using december month_start_limits
  by (simp_all add: greg_min_def greg_max_def civil_def greg_days_in_month_def)

lemma greg_max_index: "greg_month_index greg_max = 262143 * 12 - 1"
  unfolding greg_max_def by (rule greg_month_index_civil) (use december in simp_all)

lemma greg_min_index: "greg_month_index greg_min = - 262143 * 12"
  unfolding greg_min_def using month_start_step [of "- 262143 * 12"]
  by (intro greg_month_index_civil) simp_all

lemma month_index_gregorian [simp]: "month_index gregorian t = greg_month_index t"
  by (simp add: month_index_def gregorian_simps)

lemma greg_range_iff:
  assumes "no_leap t"
  shows "greg_range t \<longleftrightarrow> - 262143 * 12 \<le> greg_month_index t \<and> greg_month_index t < 262143 * 12"
proof
  assume "greg_range t"
  then show "- 262143 * 12 \<le> greg_month_index t \<and> greg_month_index t < 262143 * 12"
    using greg_month_index_mono [of greg_min t] greg_month_index_mono [of t greg_max]
    by (simp add: greg_range_def greg_max_index greg_min_index)
next
  assume m: "- 262143 * 12 \<le> greg_month_index t \<and> greg_month_index t < 262143 * 12"
  note b = month_of_day_bounds [of "day_number t", folded greg_month_index_def]
  define q where "q = timestamp t div 86400"
  have t: "86400 * q \<le> timestamp t" "timestamp t < 86400 * q + 86400"
    by (simp_all add: q_def)
  have "month_start (- 262143 * 12) \<le> q + epoch_day"
    using b m month_start_less_iff [of "greg_month_index t" "- 262143 * 12"]
    by (simp add: day_number_def q_def)
  moreover have "q + epoch_day < month_start (262143 * 12)"
    using b m month_start_less_iff [of "262143 * 12" "greg_month_index t + 1"]
    by (simp add: day_number_def q_def)
  ultimately have "(-95745764 - epoch_day) * 86400 \<le> timestamp t"
      "timestamp t \<le> (95745765 - epoch_day) * 86400 - 1"
    using t unfolding month_start_limits by auto
  then show "greg_range t"
    using assms by (auto simp: greg_range_def greg_limits less_eq_datetime_def no_leap_def)
qed

lemma regular_gregorian:
  "regular gregorian t \<longleftrightarrow>
     no_leap t \<and> - 262143 * 12 \<le> greg_month_index t \<and> greg_month_index t < 262143 * 12"
  using greg_range_iff [of t] by (auto simp: regular_def gregorian_simps greg_range_def)

lemma regular_greg_range: "regular gregorian (of_ns n) \<longleftrightarrow> greg_range (of_ns n)"
  by (simp add: regular_gregorian greg_range_iff)

interpretation greg: chrono_laws gregorian greg_days_in_month greg_time_of_day
proof unfold_locales
  show "no_leap (min_utc gregorian)" "no_leap (max_utc gregorian)"
    by (simp_all add: gregorian_simps greg_limits no_leap_def)
  show "min_utc gregorian \<le> max_utc gregorian"
    "to_ns (max_utc gregorian) - to_ns (min_utc gregorian) < i64_max * 1000000"
    "- i64_max * 1000000 \<le> to_ns (min_utc gregorian)" "to_ns (max_utc gregorian) \<le> i64_max * 1000000"
    by (simp_all add: gregorian_simps greg_limits less_eq_datetime_def to_ns_def epoch_day_def i64_max_def)
  show "month_index gregorian (max_utc gregorian) - month_index gregorian (min_utc gregorian) \<le> int u32_max"
    by (simp add: greg_max_index greg_min_index gregorian_simps u32_max_def)
  fix t u n d
  show "checked_add_months gregorian t n = None \<longleftrightarrow>
      month_index gregorian (max_utc gregorian) < month_index gregorian t + int n"
    by (auto simp: gregorian_simps greg_max_index Let_def)
  show "checked_sub_months gregorian t n = None \<longleftrightarrow>
      month_index gregorian t - int n < month_index gregorian (min_utc gregorian)"
    by (auto simp: gregorian_simps greg_min_index Let_def)
  show "regular gregorian t \<Longrightarrow> checked_add_months gregorian t n = Some u \<Longrightarrow>
      regular gregorian u \<and> month_index gregorian u = month_index gregorian t + int n \<and>
      dt_day gregorian u =
        min (dt_day gregorian t) (greg_days_in_month (month_index gregorian u)) \<and>
      greg_time_of_day u = greg_time_of_day t"
    by (auto simp: regular_gregorian gregorian_simps Let_def at_month_facts no_leap_at_month
        split: if_splits)
  show "regular gregorian t \<Longrightarrow> checked_sub_months gregorian t n = Some u \<Longrightarrow>
      regular gregorian u \<and> month_index gregorian u = month_index gregorian t - int n \<and>
      dt_day gregorian u =
        min (dt_day gregorian t) (greg_days_in_month (month_index gregorian u)) \<and>
      greg_time_of_day u = greg_time_of_day t"
    by (auto simp: regular_gregorian gregorian_simps Let_def at_month_facts no_leap_at_month
        split: if_splits)
qed (auto simp: regular_greg_range gregorian_simps greg_month_index_mono greg_day_mono greg_civil_inject
      greg_day_bounds)

lemma gregorian_laws: "chrono_laws gregorian greg_days_in_month greg_time_of_day"
  by (rule greg.chrono_laws_axioms)

end
