(* ===== verification/Period.thy ===== *)
theory Period
  imports Chrono RustStr
begin

text \<open>
  \<open>crates/infrastore-core/src/types/period.rs\<close>: the calendar-aware period, stepping a grid with it,
  finding the step of an instant, inferring a period from a vector of instants, and the ISO-8601
  text form. Every definition that calls the date-time library takes the record \<open>C\<close> of its
  operations.
\<close>

section \<open>Data\<close>

definition MS_PER_SEC :: int where "MS_PER_SEC = 1000"
definition MS_PER_MIN :: int where "MS_PER_MIN = 60000"
definition MS_PER_HOUR :: int where "MS_PER_HOUR = 3600000"
definition MS_PER_DAY :: int where "MS_PER_DAY = 86400000"
definition MS_PER_WEEK :: int where "MS_PER_WEEK = 604800000"

lemmas ms_units = MS_PER_SEC_def MS_PER_MIN_def MS_PER_HOUR_def MS_PER_DAY_def MS_PER_WEEK_def

datatype period = Fixed duration | Months int

fun is_irregular :: "period \<Rightarrow> bool" where
  "is_irregular (Fixed d) = False"
| "is_irregular (Months m) = True"

fun same_kind :: "period \<Rightarrow> period \<Rightarrow> bool" where
  "same_kind (Fixed _) (Fixed _) = True"
| "same_kind (Months _) (Months _) = True"
| "same_kind _ _ = False"

fun is_positive :: "chrono \<Rightarrow> period \<Rightarrow> bool" where
  "is_positive C (Fixed d) = (0 < num_milliseconds C d \<and> dur_subsec_nanos C d mod 1000000 = 0)"
| "is_positive C (Months m) = (0 < m)"

fun is_zero :: "period \<Rightarrow> bool" where
  "is_zero (Fixed d) = (d = 0)"
| "is_zero (Months m) = (m = 0)"

definition zero_period :: period where "zero_period = Fixed 0"

section \<open>Stepping a grid\<close>

fun add_to :: "chrono \<Rightarrow> period \<Rightarrow> datetime \<Rightarrow> int \<Rightarrow> datetime option" where
  "add_to C (Fixed d) dt k =
     (case checked_i64 (num_milliseconds C d * k) of
        None \<Rightarrow> None
      | Some total_ms \<Rightarrow>
          (case try_milliseconds C total_ms of
             None \<Rightarrow> None
           | Some step \<Rightarrow> checked_add_signed C dt step))"
| "add_to C (Months m) dt k =
     (case checked_i64 (m * k) of
        None \<Rightarrow> None
      | Some months \<Rightarrow>
          if 0 \<le> months
          then (case checked_u32 months of None \<Rightarrow> None | Some n \<Rightarrow> checked_add_months C dt n)
          else (case checked_u32 (- months) of None \<Rightarrow> None | Some n \<Rightarrow> checked_sub_months C dt n))"

text \<open>Calendar months from \<open>start\<close> to \<open>at\<close>; day and time are ignored.\<close>

definition months_between :: "chrono \<Rightarrow> datetime \<Rightarrow> datetime \<Rightarrow> int" where
  "months_between C start at =
     (let year = dt_year C at - dt_year C start; month = dt_month C at - dt_month C start
      in year * 12 + month)"

fun steps_between :: "chrono \<Rightarrow> period \<Rightarrow> datetime \<Rightarrow> datetime \<Rightarrow> nat result" where
  "steps_between C (Fixed d) start at =
     (if at < start then Inl (InvalidParameter ''before the grid'')
      else let step_ms = num_milliseconds C d
        in if step_ms \<le> 0 then Inl (InvalidParameter ''period must be strictly positive'')
        else let delta_ms = num_milliseconds C (signed_duration_since C at start)
          in if remt delta_ms step_ms \<noteq> 0 then Inl (InvalidParameter ''not aligned to the grid'')
          else let k = quot delta_ms step_ms
            in if add_to C (Fixed d) start k \<noteq> Some at
               then Inl (InvalidParameter ''not aligned to the grid'')
               else Inr (nat k))"
| "steps_between C (Months m) start at =
     (if at < start then Inl (InvalidParameter ''before the grid'')
      else if m \<le> 0 then Inl (InvalidParameter ''period must be strictly positive'')
      else let months = months_between C start at
        in if months < 0 \<or> remt months m \<noteq> 0
           then Inl (InvalidParameter ''not aligned to the grid'')
           else let k = quot months m
             in if add_to C (Months m) start k \<noteq> Some at
                then Inl (InvalidParameter ''not aligned to the grid'')
                else Inr (nat k))"

text \<open>
  The two adjusting loops of \<open>floor_steps\<close>. The first decreases \<open>k\<close>; the second increases it, and
  stops because \<open>add_to\<close> refuses a month count above the largest \<open>u32\<close>. Both run with \<open>0 < m\<close>,
  which the second states as part of its guard.
\<close>

fun floor_back :: "chrono \<Rightarrow> int \<Rightarrow> datetime \<Rightarrow> datetime \<Rightarrow> nat \<Rightarrow> nat" where
  "floor_back C m start at 0 = 0"
| "floor_back C m start at (Suc k) =
     (if (case add_to C (Months m) start (int (Suc k)) of None \<Rightarrow> True | Some t \<Rightarrow> at < t)
      then floor_back C m start at k else Suc k)"

lemma add_to_Months_bound:
  assumes "0 < m" "add_to C (Months m) start (int k) = Some t"
  shows "k \<le> u32_max"
proof -
  have "m * int k \<le> int u32_max"
    using assms by (auto simp: checked_u32_def split: option.splits if_splits)
  moreover have "int k \<le> m * int k" using assms(1) by (simp add: mult_le_cancel_right1)
  ultimately show ?thesis by linarith
qed

function floor_fwd :: "chrono \<Rightarrow> int \<Rightarrow> datetime \<Rightarrow> datetime \<Rightarrow> nat \<Rightarrow> nat" where
  "floor_fwd C m start at k =
     (if 0 < m \<and>
        (case add_to C (Months m) start (int (k + 1)) of None \<Rightarrow> False | Some t \<Rightarrow> t \<le> at)
      then floor_fwd C m start at (k + 1) else k)"
  by pat_completeness auto
termination
proof (relation "measure (\<lambda>(C, m, start, at, k). u32_max - k)", goal_cases)
  case (2 C m start at k)
  then obtain t where "add_to C (Months m) start (int (k + 1)) = Some t" "0 < m"
    by (auto simp del: add_to.simps split: option.splits)
  from add_to_Months_bound [OF this(2,1)] show ?case by simp
qed simp

declare floor_fwd.simps [simp del]

fun floor_steps :: "chrono \<Rightarrow> period \<Rightarrow> datetime \<Rightarrow> datetime \<Rightarrow> nat" where
  "floor_steps C (Fixed d) start at =
     (if at \<le> start then 0
      else let step = num_milliseconds C d
        in if step \<le> 0 then 0
           else nat (quot (num_milliseconds C (signed_duration_since C at start)) step))"
| "floor_steps C (Months m) start at =
     (if at \<le> start then 0
      else if m \<le> 0 then 0
      else let k = nat (max (quot (months_between C start at) m) 0)
        in floor_fwd C m start at (floor_back C m start at k))"

definition ceil_steps :: "chrono \<Rightarrow> period \<Rightarrow> datetime \<Rightarrow> datetime \<Rightarrow> nat" where
  "ceil_steps C p start at =
     (let f = floor_steps C p start at
      in case add_to C p start (int f) of
           Some t \<Rightarrow> if at \<le> t then f else f + 1
         | None \<Rightarrow> f + 1)"

fun sub_grid_is_anchorable :: "chrono \<Rightarrow> period \<Rightarrow> datetime \<Rightarrow> nat \<Rightarrow> nat \<Rightarrow> bool" where
  "sub_grid_is_anchorable C (Fixed d) initial offset len = True"
| "sub_grid_is_anchorable C (Months m) initial offset len =
     (if offset = 0 \<or> len < 2 then True
      else case add_to C (Months m) initial (int offset) of
             None \<Rightarrow> True
           | Some anchor \<Rightarrow>
               if dt_day C anchor = dt_day C initial then True
               else list_all (\<lambda>j. add_to C (Months m) anchor (int j) =
                                 add_to C (Months m) initial (int (offset + j))) [1..<len])"

section \<open>Inferring a period from instants\<close>

definition first_divergence :: "chrono \<Rightarrow> period \<Rightarrow> datetime list \<Rightarrow> nat option" where
  "first_divergence C p ts =
     (case ts of
        [] \<Rightarrow> None
      | start # rest \<Rightarrow>
          map_option fst (find (\<lambda>(k, t). add_to C p start (int k) \<noteq> Some t) (enumerate 1 rest)))"

definition confirmed_months_between :: "chrono \<Rightarrow> datetime \<Rightarrow> datetime \<Rightarrow> int option" where
  "confirmed_months_between C a b =
     (if b \<le> a then None
      else case checked_i32 (months_between C a b) of
             None \<Rightarrow> None
           | Some months \<Rightarrow>
               find (\<lambda>m. 0 < m \<and> add_to C (Months m) a 1 = Some b) [months, months - 1])"

definition infer :: "chrono \<Rightarrow> datetime list \<Rightarrow> string + period" where
  "infer C ts =
     (if length ts < 2 then Inl ''a grid needs at least two timestamps''
      else let span = signed_duration_since C (ts ! 1) (ts ! 0)
        in if span \<le> 0 then Inl ''timestamps must be strictly increasing''
        else case first_divergence C (Fixed span) ts of
               None \<Rightarrow> Inr (Fixed span)
             | Some bad \<Rightarrow>
                 (case confirmed_months_between C (ts ! 0) (ts ! 1) of
                    None \<Rightarrow> Inl ''timestamps are not on a regular grid''
                  | Some months \<Rightarrow>
                      (case first_divergence C (Months months) ts of
                         None \<Rightarrow> Inr (Months months)
                       | Some calendar_bad \<Rightarrow> Inl ''timestamps are not on a regular grid'')))"

section \<open>Dividing one period into another\<close>

definition ratio :: "int \<Rightarrow> int \<Rightarrow> nat result" where
  "ratio num den =
     (if den \<le> 0 then Inl (InvalidParameter ''period must be strictly positive'')
      else if num \<le> 0 \<or> remt num den \<noteq> 0
      then Inl (InvalidParameter ''not a positive integer multiple'')
      else Inr (nat (quot num den)))"

fun divide_into :: "chrono \<Rightarrow> period \<Rightarrow> period \<Rightarrow> nat result" where
  "divide_into C (Fixed den) (Fixed num) = ratio (num_milliseconds C num) (num_milliseconds C den)"
| "divide_into C (Months den) (Months num) = ratio num den"
| "divide_into C _ _ = Inl (InvalidParameter ''cannot combine periods of different kinds'')"

end
