(* ===== verification/PeriodGrid.thy ===== *)
theory PeriodGrid
  imports Period Gregorian
begin

text \<open>
  Correctness of the grid arithmetic of \<open>Period\<close>: stepping, finding the step of an instant,
  re-anchoring, inference and division. The contract of a grid of instants is the locale \<open>grid\<close>;
  a positive period over a regular start satisfies it.
\<close>

section \<open>The contract of a grid\<close>

text \<open>
  A grid starts at its origin, increases strictly, and runs out of representable instants once and
  for all.
\<close>

locale grid =
  fixes point :: "nat \<Rightarrow> 'a::linorder option" and origin :: 'a
  assumes point_0: "point 0 = Some origin"
    and point_mono: "point i = Some t \<Longrightarrow> point j = Some u \<Longrightarrow> i < j \<Longrightarrow> t < u"
    and point_closed: "point j \<noteq> None \<Longrightarrow> i \<le> j \<Longrightarrow> point i \<noteq> None"
begin

lemma point_mono_le: "point i = Some t \<Longrightarrow> point j = Some u \<Longrightarrow> i \<le> j \<Longrightarrow> t \<le> u"
  using point_mono [of i t j u] by (cases "i = j") auto

lemma point_inject: "point i = Some t \<Longrightarrow> point j = Some t \<Longrightarrow> i = j"
  using point_mono [of i t j t] point_mono [of j t i t] by (cases i j rule: linorder_cases) auto

text \<open>\<open>k\<close> is the last step whose point is not after \<open>at\<close>.\<close>

definition last_at :: "'a \<Rightarrow> nat \<Rightarrow> bool" where
  "last_at at k \<longleftrightarrow> (\<exists>t. point k = Some t \<and> t \<le> at) \<and>
     (\<forall>j t. k < j \<longrightarrow> point j = Some t \<longrightarrow> at < t)"

lemma last_at_Suc:
  assumes "point k = Some t" "t \<le> at" "\<And>u. point (Suc k) = Some u \<Longrightarrow> at < u"
  shows "last_at at k"
proof -
  have "at < u" if "k < j" "point j = Some u" for j u
  proof -
    have "point (Suc k) \<noteq> None" using point_closed [of j "Suc k"] that by simp
    then obtain v where v: "point (Suc k) = Some v" by blast
    then have "v \<le> u" using point_mono_le that by (meson Suc_leI)
    with assms(3) [OF v] show ?thesis by simp
  qed
  with assms(1,2) show ?thesis by (auto simp: last_at_def)
qed

lemma last_at_below: "last_at at k \<Longrightarrow> j \<le> k \<Longrightarrow> \<exists>t. point j = Some t \<and> t \<le> at"
proof -
  assume "last_at at k" "j \<le> k"
  then obtain t where t: "point k = Some t" "t \<le> at" by (auto simp: last_at_def)
  then have "point j \<noteq> None" using point_closed [of k j] \<open>j \<le> k\<close> by simp
  then obtain u where "point j = Some u" by blast
  with t point_mono_le [OF this t(1) \<open>j \<le> k\<close>] show ?thesis by auto
qed

lemma last_at_iff: "last_at at k \<Longrightarrow> point j = Some t \<Longrightarrow> t \<le> at \<longleftrightarrow> j \<le> k"
  using last_at_below [of at k j] by (auto simp: last_at_def not_le [symmetric])

lemma last_at_eq: "last_at at k \<Longrightarrow> last_at at k' \<Longrightarrow> k = k'"
  using last_at_iff [of at k k'] last_at_iff [of at k' k] unfolding last_at_def
  by (meson antisym)

end

section \<open>Stepping\<close>

text \<open>The instants are exactly the first points of the period's grid.\<close>

definition on_grid :: "chrono \<Rightarrow> period \<Rightarrow> datetime list \<Rightarrow> bool" where
  "on_grid C p ts \<longleftrightarrow> (\<forall>k < length ts. add_to C p (ts ! 0) (int k) = Some (ts ! k))"

lemma checked_u32_int: "checked_u32 (int n) = (if n \<le> u32_max then Some n else None)"
  by (simp add: checked_u32_def)

lemma in_i64_small: "n \<le> u32_max \<Longrightarrow> in_i64 (int n)"
  by (simp add: in_i64_def int_limits)

context chrono_laws
begin

lemma add_to_Months:
  "add_to C (Months (int m)) t (int k) =
     (if m * k \<le> u32_max then checked_add_months C t (m * k) else None)"
  using in_i64_small [of "m * k"] checked_u32_int [of "m * k"]
  by (auto simp: checked_i64_def split: option.splits)

lemma whole_ms:
  assumes "0 < num_milliseconds C d" "dur_subsec_nanos C d mod 1000000 = 0"
  obtains ms where "0 < ms" "d = ms * 1000000" "num_milliseconds C d = ms"
proof -
  have d: "0 < d"
  proof (rule ccontr)
    assume "\<not> 0 < d"
    then have "quot d 1000000 \<le> 0"
      by (cases "d = 0") (simp_all add: quot_neg quot_nonneg pos_imp_zdiv_nonneg_iff)
    with assms(1) show False by (simp add: num_milliseconds)
  qed
  then have "d mod 1000000000 mod 1000000 = 0"
    using assms(2) by (simp add: dur_subsec_nanos remt_nonneg)
  then have "d mod 1000000 = 0" by (simp add: mod_mod_cancel)
  then have "d = d div 1000000 * 1000000" by auto
  then show ?thesis
    using that [of "d div 1000000"] d assms(1) by (simp add: num_milliseconds quot_nonneg)
qed

lemma regular_span:
  assumes "regular C t" "regular C u" shows "to_ns u - to_ns t < i64_max * 1000000"
proof -
  have "to_ns u \<le> to_ns (max_utc C)" "to_ns (min_utc C) \<le> to_ns t"
    using assms range_no_leap less_eq_to_ns unfolding regular_def by blast+
  with range_ms(1) show ?thesis by linarith
qed

lemma add_to_Fixed:
  assumes t: "regular C t" and d: "d = ms * 1000000" and ms: "0 < ms"
  shows "add_to C (Fixed d) t (int k) =
    (if regular C (of_ns (to_ns t + d * int k)) then Some (of_ns (to_ns t + d * int k)) else None)"
proof -
  have num: "num_milliseconds C d = ms" by (simp add: num_milliseconds d quot_mult_self)
  show ?thesis
  proof (cases "regular C (of_ns (to_ns t + d * int k))")
    case True
    from regular_span [OF t this] have "ms * int k < i64_max" by (simp add: d)
    moreover have "0 \<le> ms * int k" using ms by simp
    ultimately have "in_i64 (ms * int k)"
      "try_milliseconds C (ms * int k) = Some (d * int k)"
      by (simp_all add: try_milliseconds in_i64_def int_limits d)
    then show ?thesis using True by (simp add: num checked_i64_def checked_add_signed [OF t])
  next
    case False
    then have "checked_add_signed C t (ms * int k * 1000000) = None"
      by (simp add: checked_add_signed [OF t] d ac_simps)
    with False show ?thesis by (auto simp: num checked_i64_def try_milliseconds)
  qed
qed

lemma regular_between:
  "regular C (of_ns a) \<Longrightarrow> regular C (of_ns c) \<Longrightarrow> a \<le> b \<Longrightarrow> b \<le> c \<Longrightarrow> regular C (of_ns b)"
  unfolding regular_def by (metis no_leap_of_ns of_ns_le_iff order_trans)

lemma positive_cases:
  assumes "is_positive C p"
  obtains (fixed) ms where "p = Fixed (ms * 1000000)" "0 < ms"
    | (months) m where "p = Months (int m)" "0 < m"
proof (cases p)
  case (Fixed d)
  with assms have "0 < num_milliseconds C d" "dur_subsec_nanos C d mod 1000000 = 0" by simp_all
  from whole_ms [OF this] obtain ms where "0 < ms" "d = ms * 1000000" by blast
  with Fixed show ?thesis by (intro fixed) simp_all
next
  case (Months m)
  then show ?thesis using assms by (intro months [of "nat m"]) simp_all
qed

lemma fixed_grid:
  assumes t: "regular C t" and ms: "0 < ms"
  shows "grid (\<lambda>k. add_to C (Fixed (ms * 1000000)) t (int k)) t"
proof unfold_locales
  note step = add_to_Fixed [OF t refl ms]
  have t0: "of_ns (to_ns t) = t" using t by (simp add: regular_def of_ns_to_ns)
  show "add_to C (Fixed (ms * 1000000)) t (int 0) = Some t" unfolding step using t t0 by simp
  show "u < v" if "add_to C (Fixed (ms * 1000000)) t (int i) = Some u"
    "add_to C (Fixed (ms * 1000000)) t (int j) = Some v" "i < j" for i j u v
    using that ms unfolding step by (auto split: if_splits)
  show "add_to C (Fixed (ms * 1000000)) t (int i) \<noteq> None"
    if "add_to C (Fixed (ms * 1000000)) t (int j) \<noteq> None" "i \<le> j" for i j
    using that ms t t0 regular_between [of "to_ns t" "to_ns t + ms * 1000000 * int j" "to_ns t + ms * 1000000 * int i"]
    unfolding step by (auto split: if_splits)
qed

lemma months_grid:
  assumes t: "regular C t" and m: "0 < m"
  shows "grid (\<lambda>k. add_to C (Months (int m)) t (int k)) t"
proof unfold_locales
  show "add_to C (Months (int m)) t (int 0) = Some t"
    unfolding add_to_Months by (simp add: add_months_zero t)
  show "u < v" if "add_to C (Months (int m)) t (int i) = Some u"
    "add_to C (Months (int m)) t (int j) = Some v" "i < j" for i j u v
    using that m add_months_strict_mono [OF t] unfolding add_to_Months by (auto split: if_splits)
  show "add_to C (Months (int m)) t (int i) \<noteq> None"
    if j: "add_to C (Months (int m)) t (int j) \<noteq> None" "i \<le> j" for i j
  proof -
    from j obtain u where small: "m * j \<le> u32_max" and u: "checked_add_months C t (m * j) = Some u"
      unfolding add_to_Months by (auto split: if_splits)
    have le: "m * i \<le> m * j" using j(2) by simp
    obtain v where "checked_add_months C t (m * i) = Some v" by (rule add_months_closed [OF t u le])
    moreover have "m * i \<le> u32_max" using le small by (rule order_trans)
    ultimately show ?thesis unfolding add_to_Months by simp
  qed
qed

lemma period_grid: "regular C t \<Longrightarrow> is_positive C p \<Longrightarrow> grid (\<lambda>k. add_to C p t (int k)) t"
  by (erule positive_cases) (simp_all only: fixed_grid months_grid)

subsection \<open>The last step not after an instant\<close>

lemma delta_ms:
  "no_leap t \<Longrightarrow> no_leap u \<Longrightarrow> t \<le> u \<Longrightarrow>
   num_milliseconds C (signed_duration_since C u t) = (to_ns u - to_ns t) div 1000000"
  by (simp add: num_milliseconds signed_duration_since quot_nonneg less_eq_to_ns)

lemma floor_steps_Fixed:
  assumes t: "regular C t" and u: "regular C u" and less: "t < u" and ms: "0 < ms"
  shows "grid.last_at (\<lambda>k. add_to C (Fixed (ms * 1000000)) t (int k)) u
           (floor_steps C (Fixed (ms * 1000000)) t u)"
proof -
  define D S k where "D = to_ns u - to_ns t" and "S = ms * 1000000" and "k = nat (D div S)"
  have leaps: "no_leap t" "no_leap u" using t u by (simp_all add: regular_def)
  have D: "0 < D" using less leaps by (simp add: D_def less_to_ns)
  have S: "0 < S" using ms by (simp add: S_def)
  have "D div 1000000 div ms = D div S"
    using ms by (simp add: S_def mult.commute [of ms] zdiv_zmult2_eq)
  then have floor: "floor_steps C (Fixed (ms * 1000000)) t u = k"
    using less ms D delta_ms [OF leaps]
    by (simp add: num_milliseconds quot_mult_self D_def [symmetric] quot_nonneg k_def
        pos_imp_zdiv_nonneg_iff)
  have k: "int k = D div S" using D S by (simp add: k_def pos_imp_zdiv_nonneg_iff)
  define r where "r = D mod S"
  have "D = S * int k + r" "0 \<le> r" "r < S" using S by (simp_all add: r_def k)
  then have bounds: "S * int k \<le> D" "D < S * int (Suc k)" "0 \<le> S * int k"
    using S by (simp_all add: distrib_left)
  have "regular C (of_ns (to_ns t + S * int k))"
    using t u bounds leaps regular_between [of "to_ns t" "to_ns u" "to_ns t + S * int k"]
    by (simp add: of_ns_to_ns D_def)
  then have "add_to C (Fixed S) t (int k) = Some (of_ns (to_ns t + S * int k))"
    using add_to_Fixed [OF t S_def ms] by simp
  moreover have "of_ns (to_ns t + S * int k) \<le> u"
    using bounds leaps by (simp add: less_eq_to_ns D_def)
  moreover have "u < v" if "add_to C (Fixed S) t (int (Suc k)) = Some v" for v
    using that bounds leaps add_to_Fixed [OF t S_def ms, of "Suc k"]
    by (auto simp: less_to_ns D_def split: if_splits)
  ultimately show ?thesis
    unfolding floor S_def by (intro grid.last_at_Suc [OF fixed_grid [OF t ms]])
qed

lemma floor_back_le:
  "add_to C (Months m) t (int 0) = Some v \<Longrightarrow> v \<le> u \<Longrightarrow>
   \<exists>w. add_to C (Months m) t (int (floor_back C m t u k)) = Some w \<and> w \<le> u"
  by (induction k) (auto simp del: add_to.simps of_nat_Suc split: option.splits)

lemma floor_fwd_last:
  "0 < m \<Longrightarrow> \<exists>w. add_to C (Months m) t (int k) = Some w \<and> w \<le> u \<Longrightarrow>
   (\<exists>w. add_to C (Months m) t (int (floor_fwd C m t u k)) = Some w \<and> w \<le> u) \<and>
   (\<forall>w. add_to C (Months m) t (int (floor_fwd C m t u k + 1)) = Some w \<longrightarrow> u < w)"
proof (induction C m t u k rule: floor_fwd.induct)
  case (1 C m t u k)
  show ?case
  proof (cases "case add_to C (Months m) t (int (k + 1)) of None \<Rightarrow> False | Some w \<Rightarrow> w \<le> u")
    case True
    then show ?thesis
      using 1 by (subst (1 2) floor_fwd.simps) (auto simp del: add_to.simps split: option.splits)
  next
    case False
    then have "floor_fwd C m t u k = k" by (subst floor_fwd.simps) (simp del: add_to.simps)
    with False 1(3) show ?thesis by (auto simp del: add_to.simps split: option.splits)
  qed
qed

lemma floor_steps_Months:
  assumes t: "regular C t" and less: "t < u" and m: "0 < m"
  shows "grid.last_at (\<lambda>k. add_to C (Months (int m)) t (int k)) u (floor_steps C (Months (int m)) t u)"
proof -
  note g = months_grid [OF t m]
  define k where "k = floor_back C (int m) t u (nat (max (quot (months_between C t u) (int m)) 0))"
  have "\<exists>w. add_to C (Months (int m)) t (int k) = Some w \<and> w \<le> u"
    unfolding k_def using grid.point_0 [OF g] less
    by (intro floor_back_le [of _ _ t]) (simp_all del: add_to.simps)
  then have "\<exists>w. add_to C (Months (int m)) t (int (floor_fwd C (int m) t u k)) = Some w \<and> w \<le> u"
    "\<forall>w. add_to C (Months (int m)) t (int (floor_fwd C (int m) t u k + 1)) = Some w \<longrightarrow> u < w"
    using floor_fwd_last [of "int m" t k u] m by simp_all
  moreover have "floor_steps C (Months (int m)) t u = floor_fwd C (int m) t u k"
    using less less_le_not_le [of t u] m by (simp add: k_def Let_def)
  ultimately show ?thesis
    using grid.last_at_Suc [OF g] by (auto simp del: add_to.simps)
qed

lemma floor_steps_last:
  assumes "regular C t" "regular C u" "t \<le> u" "is_positive C p"
  shows "grid.last_at (\<lambda>k. add_to C p t (int k)) u (floor_steps C p t u)"
proof (cases "t = u")
  case True
  note g = period_grid [OF assms(1,4)]
  have "floor_steps C p t u = 0" using True by (cases p) simp_all
  then show ?thesis
    using True grid.last_at_Suc [OF g, of 0 t t] grid.point_0 [OF g] grid.point_mono [OF g, of 0 t 1]
    by simp
next
  case False
  with assms(3) have "t < u" by simp
  with assms show ?thesis
    by (elim positive_cases) (simp_all only: floor_steps_Fixed floor_steps_Months)
qed

lemma ceil_steps_first:
  assumes "regular C t" "regular C u" "t \<le> u" "is_positive C p"
  shows "(\<forall>v. add_to C p t (int (ceil_steps C p t u)) = Some v \<longrightarrow> u \<le> v) \<and>
    (\<forall>j < ceil_steps C p t u. \<exists>v. add_to C p t (int j) = Some v \<and> v < u)"
proof -
  note g = period_grid [OF assms(1,4)]
  define f where "f = floor_steps C p t u"
  have l: "grid.last_at (\<lambda>k. add_to C p t (int k)) u f"
    unfolding f_def by (rule floor_steps_last [OF assms])
  then obtain w where w: "add_to C p t (int f) = Some w" "w \<le> u"
    by (auto simp: grid.last_at_def [OF g])
  show ?thesis
  proof (cases "u \<le> w")
    case True
    then have "w = u" using w by simp
    moreover have "ceil_steps C p t u = f"
      unfolding ceil_steps_def Let_def f_def [symmetric] using True w by simp
    moreover have "\<exists>v. add_to C p t (int j) = Some v \<and> v < u" if "j < f" for j
      using that grid.last_at_below [OF g l, of j] grid.point_mono [OF g _ w(1), of j] \<open>w = u\<close> by auto
    ultimately show ?thesis using w by auto
  next
    case False
    moreover have "ceil_steps C p t u = f + 1"
      unfolding ceil_steps_def Let_def f_def [symmetric] using False w by simp
    moreover have "\<exists>v. add_to C p t (int j) = Some v \<and> v < u" if "j < f + 1" for j
      using that grid.last_at_below [OF g l, of j] grid.point_mono [OF g _ w(1), of j] False w
      by (cases "j = f") auto
    ultimately show ?thesis using l by (auto simp: grid.last_at_def [OF g] less_imp_le)
  qed
qed

subsection \<open>The step of an instant on the grid\<close>

lemma steps_between_on_grid:
  assumes t: "regular C t" and p: "is_positive C p" and v: "add_to C p t (int k) = Some v"
  shows "steps_between C p t v = Inr k"
proof -
  note g = period_grid [OF t p]
  have le: "t \<le> v" using grid.point_mono_le [OF g grid.point_0 [OF g] v] by simp
  from p show ?thesis
  proof (cases rule: positive_cases)
    case (fixed ms)
    have ns: "v = of_ns (to_ns t + ms * 1000000 * int k)"
      using v add_to_Fixed [OF t refl fixed(2), of k] by (simp add: fixed(1) split: if_splits)
    then have "signed_duration_since C v t = ms * int k * 1000000"
      using t by (simp add: signed_duration_since regular_def)
    then have d: "num_milliseconds C (signed_duration_since C v t) = ms * int k"
      by (simp add: num_milliseconds quot_mult_self)
    have m: "num_milliseconds C (ms * 1000000) = ms" by (simp add: num_milliseconds quot_mult_self)
    have "quot (ms * int k) ms = int k" "remt (ms * int k) ms = 0"
      using fixed(2) quot_mult_self [of ms "int k"] by (simp_all add: mult.commute remt_def)
    then show ?thesis
      using v le fixed(2) unfolding fixed(1) by (simp add: d m Let_def not_less del: add_to.simps)
  next
    case (months m)
    have u: "checked_add_months C t (m * k) = Some v"
      using v by (simp add: months(1) add_to_Months del: add_to.simps split: if_splits)
    have d: "months_between C t v = int m * int k"
      using add_months_civil [OF t u] by (simp add: months_between_def month_index_def algebra_simps)
    have "quot (int m * int k) (int m) = int k" "remt (int m * int k) (int m) = 0"
      using months(2) quot_mult_self [of "int m" "int k"] by (simp_all add: mult.commute remt_def)
    then show ?thesis
      using v le months(2) unfolding months(1) by (simp add: d Let_def not_less del: add_to.simps)
  qed
qed

lemma quot_nonneg_nonneg: "0 \<le> a \<Longrightarrow> 0 < b \<Longrightarrow> 0 \<le> quot a b"
  by (simp add: quot_nonneg pos_imp_zdiv_nonneg_iff)

lemma steps_between_sound:
  assumes t: "no_leap t" "no_leap v" and k: "steps_between C p t v = Inr k"
  shows "add_to C p t (int k) = Some v"
proof (cases p)
  case (Fixed d)
  then have "t \<le> v" using k by (auto split: if_splits)
  then have "0 \<le> num_milliseconds C (signed_duration_since C v t)"
    using t by (simp add: delta_ms less_eq_to_ns)
  with k Fixed show ?thesis
    by (auto simp: Let_def quot_nonneg_nonneg simp del: add_to.simps split: if_splits)
next
  case (Months m)
  with k show ?thesis
    by (auto simp: Let_def quot_nonneg_nonneg simp del: add_to.simps split: if_splits)
qed

subsection \<open>Re-anchoring a run of grid points\<close>

lemma add_to_regular:
  assumes "regular C t" "is_positive C p" "add_to C p t (int k) = Some u"
  shows "regular C u"
  using assms(2)
proof (cases rule: positive_cases)
  case (fixed ms)
  then show ?thesis using assms(3) add_to_Fixed [OF assms(1) refl fixed(2), of k] by (auto split: if_splits)
next
  case (months m)
  then show ?thesis
    using assms(3) add_months_civil [OF assms(1)] by (auto simp: add_to_Months simp del: add_to.simps split: if_splits)
qed

lemma add_to_Fixed_assoc:
  assumes "regular C t" "0 < ms" "add_to C (Fixed (ms * 1000000)) t (int a) = Some u"
  shows "add_to C (Fixed (ms * 1000000)) u (int b) = add_to C (Fixed (ms * 1000000)) t (int (a + b))"
proof -
  have u: "regular C u" "u = of_ns (to_ns t + ms * 1000000 * int a)"
    using assms(3) unfolding add_to_Fixed [OF assms(1) refl assms(2)] by (auto split: if_splits)
  then have "to_ns u + ms * 1000000 * int b = to_ns t + ms * 1000000 * int (a + b)"
    by (simp add: distrib_left)
  then show ?thesis unfolding add_to_Fixed [OF u(1) refl assms(2)] add_to_Fixed [OF assms(1) refl assms(2)] by simp
qed

lemma add_to_Months_assoc:
  assumes t: "regular C t" and u: "add_to C (Months (int m)) t (int a) = Some u" and day: "dt_day C u = dt_day C t"
  shows "add_to C (Months (int m)) u (int b) = add_to C (Months (int m)) t (int (a + b))"
proof -
  have ma: "checked_add_months C t (m * a) = Some u"
    using u by (auto simp: add_to_Months simp del: add_to.simps split: if_splits)
  note assoc = add_months_assoc [OF t ma day, of "m * b"]
  have "checked_add_months C u (m * b) = None" if "u32_max < m * (a + b)"
  proof -
    have "month_index C (min_utc C) \<le> month_index C t"
      using t by (simp add: regular_def month_index_mono)
    moreover have "int u32_max < int (m * a) + int (m * b)"
      using that by (simp add: distrib_left flip: of_nat_add of_nat_mult)
    ultimately show ?thesis
      using add_months_civil [OF t ma] add_months_defined [of u "m * b"] range_months by simp
  qed
  then show ?thesis unfolding add_to_Months using assoc by (auto simp: distrib_left)
qed

lemma anchorable_iff:
  assumes t: "regular C t" and p: "is_positive C p" and u: "add_to C p t (int a) = Some u"
  shows "sub_grid_is_anchorable C p t a n \<longleftrightarrow>
    (\<forall>j < n. add_to C p u (int j) = add_to C p t (int (a + j)))"
  using p
proof (cases rule: positive_cases)
  case (fixed ms)
  then show ?thesis using add_to_Fixed_assoc [OF t fixed(2)] u by (simp del: add_to.simps)
next
  case (months m)
  have zero: "add_to C p u 0 = add_to C p t (int a)"
    using grid.point_0 [OF period_grid [OF add_to_regular [OF t p u] p]] u by simp
  have start: "u = t" if "a = 0"
    using u grid.point_0 [OF period_grid [OF t p]] that by simp
  have split: "(\<forall>j < n. add_to C p u (int j) = add_to C p t (int (a + j))) \<longleftrightarrow>
    (\<forall>j \<in> {1..<n}. add_to C p u (int j) = add_to C p t (int (a + j)))"
  proof (intro iffI allI impI ballI)
    fix j assume "\<forall>j \<in> {1..<n}. add_to C p u (int j) = add_to C p t (int (a + j))" "j < n"
    then show "add_to C p u (int j) = add_to C p t (int (a + j))"
      using zero by (cases "j = 0") (simp_all del: add_to.simps)
  qed simp
  consider "a = 0 \<or> n < 2" | "\<not> (a = 0 \<or> n < 2)" "dt_day C u = dt_day C t" | 
    "\<not> (a = 0 \<or> n < 2)" "dt_day C u \<noteq> dt_day C t" by blast
  then show ?thesis
  proof cases
    case 1
    then show ?thesis unfolding split using start months by (auto simp del: add_to.simps)
  next
    case 2
    have "\<forall>j. add_to C p u (int j) = add_to C p t (int (a + j))"
      using add_to_Months_assoc [OF t u [unfolded months(1)] 2(2)] months(1) by simp
    then show ?thesis using 2 u months by (simp del: add_to.simps)
  next
    case 3
    then show ?thesis unfolding split using u months by (simp add: list_all_iff del: add_to.simps)
  qed
qed

subsection \<open>Inference\<close>

lemma find_enumerate_None:
  "find (\<lambda>(k, t). P k t) (enumerate n xs) = None \<longleftrightarrow> (\<forall>i < length xs. \<not> P (n + i) (xs ! i))"
  by (auto simp: find_None_iff in_set_conv_nth enumerate_eq_zip)

lemma first_divergence_None:
  "first_divergence C p (t # ts) = None \<longleftrightarrow>
     (\<forall>k. 0 < k \<and> k < length (t # ts) \<longrightarrow> add_to C p t (int k) = Some ((t # ts) ! k))"
proof -
  have "first_divergence C p (t # ts) = None \<longleftrightarrow>
      (\<forall>i < length ts. add_to C p t (int (Suc i)) = Some (ts ! i))"
    using find_enumerate_None [of "\<lambda>k u. add_to C p t (int k) \<noteq> Some u" 1 ts]
    by (simp add: first_divergence_def del: add_to.simps)
  also have "\<dots> \<longleftrightarrow> (\<forall>k. 0 < k \<and> k < length (t # ts) \<longrightarrow> add_to C p t (int k) = Some ((t # ts) ! k))"
    by (metis Suc_less_eq gr0_conv_Suc length_Cons nth_Cons_Suc)
  finally show ?thesis .
qed

lemma on_grid_iff:
  assumes "regular C t" "is_positive C p"
  shows "on_grid C p (t # ts) \<longleftrightarrow> first_divergence C p (t # ts) = None"
proof -
  have "add_to C p t (int 0) = Some ((t # ts) ! 0)"
    using grid.point_0 [OF period_grid [OF assms]] by simp
  then have "add_to C p t (int k) = Some ((t # ts) ! k)"
    if "\<And>k. 0 < k \<Longrightarrow> k < length (t # ts) \<Longrightarrow> add_to C p t (int k) = Some ((t # ts) ! k)"
      "k < length (t # ts)" for k
    using that by (cases "k = 0") (simp_all del: add_to.simps)
  then show ?thesis unfolding first_divergence_None on_grid_def nth_Cons_0 by blast
qed

lemma confirmed_months:
  "confirmed_months_between C a b = Some m \<Longrightarrow> 0 < m \<and> add_to C (Months m) a 1 = Some b"
  by (auto simp: confirmed_months_between_def simp del: add_to.simps split: if_splits option.splits)

lemma confirmed_months_complete:
  assumes "regular C a" "0 < m" "in_i32 (int m)" "add_to C (Months (int m)) a (int 1) = Some b"
  shows "confirmed_months_between C a b = Some (int m)"
proof -
  have g: "grid (\<lambda>k. add_to C (Months (int m)) a (int k)) a" using assms(1,2) by (rule months_grid)
  have "a < b" using grid.point_mono [OF g grid.point_0 [OF g] assms(4)] by simp
  moreover have "months_between C a b = int m"
  proof -
    have "checked_add_months C a (m * 1) = Some b"
      using assms(4) unfolding add_to_Months by (simp split: if_splits)
    from add_months_civil [OF assms(1) this] show ?thesis
      by (simp add: months_between_def month_index_def)
  qed
  ultimately show ?thesis
    using assms(2-4) by (simp add: confirmed_months_between_def checked_i32_def del: add_to.simps)
qed

lemma fixed_span:
  assumes "regular C a" "regular C b" "signed_duration_since C b a = d" "0 < d"
    and "add_to C (Fixed d) a (int 1) = Some b"
  shows "is_positive C (Fixed d)"
proof -
  have d: "d = to_ns b - to_ns a" using assms(1-3) by (simp add: signed_duration_since regular_def)
  define ms where "ms = num_milliseconds C d"
  from assms(5) have "checked_add_signed C a (ms * 1000000) = Some b"
    by (simp add: ms_def try_milliseconds split: option.splits if_splits)
  then have "b = of_ns (to_ns a + ms * 1000000)" using add_signed_ms [OF assms(1)] by simp
  then have "d = ms * 1000000" by (simp add: d)
  moreover from this have "0 < ms" using assms(4) by simp
  moreover have "remt (ms * 1000000) 1000000000 mod 1000000 = 0"
  proof -
    have "ms * 1000000 mod 1000000000 mod 1000000 = ms * 1000000 mod 1000000" by (rule mod_mod_cancel) simp
    with \<open>0 < ms\<close> show ?thesis by (simp add: remt_nonneg)
  qed
  ultimately show ?thesis
    by (simp add: num_milliseconds dur_subsec_nanos quot_mult_self)
qed

lemma infer_sound:
  assumes reg: "\<forall>t \<in> set ts. regular C t" and ok: "infer C ts = Inr p"
  shows "2 \<le> length ts \<and> is_positive C p \<and> on_grid C p ts"
proof -
  from ok obtain a b rest where ts: "ts = a # b # rest"
    by (cases ts rule: list.exhaust, simp add: infer_def, rename_tac x xs, case_tac xs)
      (simp_all add: infer_def)
  define d where "d = signed_duration_since C b a"
  have r: "regular C a" "regular C b" using reg by (simp_all add: ts)
  have d: "0 < d" using ok by (simp add: infer_def ts d_def [symmetric] split: if_splits)
  show ?thesis
  proof (cases "first_divergence C (Fixed d) ts")
    case None
    then have p: "p = Fixed d" using ok d by (simp add: infer_def ts d_def [symmetric])
    have "add_to C (Fixed d) a (int 1) = Some b"
      using None [unfolded ts first_divergence_None, rule_format, of 1] by simp
    with r d have "is_positive C p" unfolding p by (intro fixed_span [of a b]) (simp_all only: d_def)
    with None p r show ?thesis using on_grid_iff [of a p "b # rest"] by (simp add: ts)
  next
    case (Some bad)
    then obtain m where m: "confirmed_months_between C a b = Some m"
        "first_divergence C (Months m) ts = None" "p = Months m"
      using ok d by (auto simp: infer_def ts d_def [symmetric] split: option.splits)
    then have "is_positive C p" using confirmed_months [OF m(1)] by simp
    with m r show ?thesis using on_grid_iff [of a p "b # rest"] by (simp add: ts)
  qed
qed

lemma infer_complete:
  assumes reg: "\<forall>t \<in> set ts. regular C t" and len: "2 \<le> length ts" and p: "is_positive C p"
    and i32: "case p of Months m \<Rightarrow> in_i32 m | Fixed _ \<Rightarrow> True" and grid: "on_grid C p ts"
  shows "\<exists>q. infer C ts = Inr q"
proof -
  from len obtain a b rest where ts: "ts = a # b # rest"
    by (cases ts rule: list.exhaust, simp, rename_tac x xs, case_tac xs) simp_all
  define d where "d = signed_duration_since C b a"
  have r: "regular C a" "regular C b" using reg by (simp_all add: ts)
  have ab: "add_to C p a (int 1) = Some b" using grid unfolding on_grid_def ts by fastforce
  note g = period_grid [OF r(1) p]
  have "a < b" using grid.point_mono [OF g grid.point_0 [OF g] ab] by simp
  then have d: "0 < d" "d = to_ns b - to_ns a"
    using r by (simp_all add: d_def signed_duration_since regular_def less_to_ns)
  have none: "first_divergence C p ts = None" using grid on_grid_iff [OF r(1) p] by (simp add: ts)
  show ?thesis
  proof (cases "first_divergence C (Fixed d) ts")
    case None
    then show ?thesis using d by (simp add: infer_def ts d_def [symmetric])
  next
    case (Some bad)
    from p show ?thesis
    proof (cases rule: positive_cases)
      case (fixed ms)
      have "b = of_ns (to_ns a + ms * 1000000)"
        using ab add_to_Fixed [OF r(1) refl fixed(2), of 1] unfolding fixed(1)
        by (simp del: add_to.simps split: if_splits)
      then have "p = Fixed d" by (simp add: d fixed(1))
      with none Some show ?thesis by simp
    next
      case (months m)
      then have "confirmed_months_between C a b = Some (int m)"
        using confirmed_months_complete [OF r(1) months(2)] i32 ab by simp
      with none Some months d show ?thesis by (simp add: infer_def ts d_def [symmetric])
    qed
  qed
qed

subsection \<open>Whole multiples of a period\<close>

lemma add_to_multiple_Fixed:
  assumes "regular C t" "0 < ms" "0 < q"
  shows "add_to C (Fixed (ms * int q * 1000000)) t (int k) = add_to C (Fixed (ms * 1000000)) t (int (q * k))"
  using add_to_Fixed [OF assms(1) refl assms(2), of "q * k"]
    add_to_Fixed [OF assms(1) refl, of "ms * int q" k] assms(2,3)
  by (simp del: add_to.simps) (simp add: ac_simps)

lemma add_to_multiple_Months:
  "add_to C (Months (int (m * q))) t (int k) = add_to C (Months (int m)) t (int (q * k))"
  unfolding add_to_Months by (simp add: ac_simps)

lemma ratio_Inr:
  assumes "0 < den" shows "ratio num den = Inr q \<longleftrightarrow> 0 < q \<and> num = den * int q"
proof (cases "0 < num")
  case True
  then have "ratio num den = (if num mod den = 0 then Inr (nat (num div den))
      else Inl (InvalidParameter ''not a positive integer multiple''))"
    using assms by (simp add: ratio_def quot_nonneg remt_nonneg)
  moreover have "num mod den = 0 \<and> q = nat (num div den) \<longleftrightarrow> 0 < q \<and> num = den * int q"
  proof
    assume a: "num mod den = 0 \<and> q = nat (num div den)"
    then have "num = den * (num div den)" by auto
    moreover from this have "0 < num div den"
      using True assms by (metis zero_less_mult_pos)
    ultimately show "0 < q \<and> num = den * int q" using a by simp
  next
    assume "0 < q \<and> num = den * int q"
    then show "num mod den = 0 \<and> q = nat (num div den)" using assms by simp
  qed
  ultimately show ?thesis by auto
next
  case False
  then have "\<nexists>q. ratio num den = Inr q" using assms by (simp add: ratio_def)
  moreover have "\<not> (0 < q \<and> num = den * int q)"
    using False assms by (auto simp: not_less mult_le_0_iff)
  ultimately show ?thesis by blast
qed

lemma divide_into_multiple:
  assumes t: "regular C t" and p: "is_positive C p" and q: "is_positive C q"
    and n: "divide_into C p q = Inr n"
  shows "0 < n \<and> add_to C q t (int k) = add_to C p t (int (n * k))"
  using p
proof (cases rule: positive_cases)
  case (fixed a)
  note pa = fixed
  from q show ?thesis
  proof (cases rule: positive_cases)
    case (fixed b)
    then have "0 < n" "b = a * int n"
      using n pa by (simp_all add: num_milliseconds quot_mult_self ratio_Inr)
    then show ?thesis using add_to_multiple_Fixed [OF t pa(2), of n k] unfolding fixed(1) pa(1) by blast
  next
    case (months b)
    then show ?thesis using n pa by simp
  qed
next
  case (months a)
  note pa = months
  from q show ?thesis
  proof (cases rule: positive_cases)
    case (fixed b)
    then show ?thesis using n pa by simp
  next
    case (months b)
    then have nb: "0 < n" "int b = int (a * n)" using n pa by (simp_all add: ratio_Inr)
    then show ?thesis using add_to_multiple_Months [of a n t k] unfolding months(1) pa(1) nb(2) by blast
  qed
qed

lemma divide_into_complete:
  assumes p: "is_positive C p" and q: "is_positive C q" and n: "0 < n" "same_kind p q"
    and t: "regular C t" "add_to C q t (int 1) = Some u" "add_to C p t (int n) = Some u"
  shows "divide_into C p q = Inr n"
  using p
proof (cases rule: positive_cases)
  case (fixed a)
  note pa = fixed
  from q show ?thesis
  proof (cases rule: positive_cases)
    case (fixed b)
    have "of_ns (to_ns t + b * 1000000) = of_ns (to_ns t + a * 1000000 * int n)"
      using t(2,3) add_to_Fixed [OF t(1) refl fixed(2), of 1] add_to_Fixed [OF t(1) refl pa(2), of n]
      unfolding fixed(1) pa(1) by (simp del: add_to.simps split: if_splits)
    then have "b = a * int n" by simp
    then show ?thesis using n fixed pa by (simp add: num_milliseconds quot_mult_self ratio_Inr)
  next
    case (months b)
    then show ?thesis using n pa by simp
  qed
next
  case (months a)
  note pa = months
  from q show ?thesis
  proof (cases rule: positive_cases)
    case (fixed b)
    then show ?thesis using n pa by simp
  next
    case (months b)
    have "checked_add_months C t (b * 1) = Some u" "checked_add_months C t (a * n) = Some u"
      using t(2,3) unfolding months(1) pa(1) add_to_Months by (simp_all split: if_splits)
    from add_months_civil [OF t(1) this(1)] add_months_civil [OF t(1) this(2)]
    have "int b = int a * int n" by simp
    then show ?thesis using n months pa by (simp add: ratio_Inr)
  qed
qed

end

section \<open>Properties\<close>

text \<open>C4: for a positive period, the step \<open>floor_steps\<close> finds is the last one whose instant is not
  after \<open>at\<close>: its own instant exists and is at or before \<open>at\<close>, and every later instant of the grid
  is strictly after it. Both period kinds, day-of-month clamping included.\<close>

theorem floor_steps_correct:
  assumes "chrono_laws C dim tod" "regular C start" "regular C at" "start \<le> at" "is_positive C p"
  shows "(\<exists>t. add_to C p start (int (floor_steps C p start at)) = Some t \<and> t \<le> at) \<and>
    (\<forall>j t. floor_steps C p start at < j \<longrightarrow> add_to C p start (int j) = Some t \<longrightarrow> at < t)"
  using chrono_laws.floor_steps_last [OF assms] grid.last_at_def [OF chrono_laws.period_grid [OF assms(1,2,5)]]
  by simp

lemma regular_civil:
  assumes "0 \<le> sec" "sec < 86400" "ns < 1000000000" "1 \<le> d" "d \<le> greg_days_in_month m"
    and "- 3145716 \<le> m" "m < 3145716"
  shows "regular gregorian (civil m d (sec, ns))"
  using assms greg_month_index_civil [of sec d m ns] by (simp add: regular_gregorian civil_def no_leap_def)

text \<open>The instants of 2024 the witnesses use.\<close>

definition day_2024 :: "int \<Rightarrow> int \<Rightarrow> datetime" where
  "day_2024 month day = civil (24287 + month) day (0, 0)"

lemma months_2024:
  "greg_days_in_month (24288 - 1 + 1) = 31" "greg_days_in_month 24288 = 31" "greg_days_in_month 24289 = 29"
  "greg_days_in_month 24290 = 31" "greg_days_in_month 24291 = 30" "greg_days_in_month 24292 = 31"
  by code_simp+

lemma regular_2024 [simp]:
  "regular gregorian (day_2024 1 31)" "regular gregorian (day_2024 2 29)"
  "regular gregorian (day_2024 3 30)" "regular gregorian (day_2024 3 31)"
  "regular gregorian (day_2024 4 30)"
  unfolding day_2024_def by (auto intro!: regular_civil simp: months_2024)

interpretation month_ends: grid "\<lambda>k. add_to gregorian (Months 1) (day_2024 1 31) (int k)" "day_2024 1 31"
  by (rule chrono_laws.period_grid [OF gregorian_laws]) simp_all

lemma le_2024 [simp]:
  "day_2024 1 31 \<le> day_2024 3 30" "day_2024 1 31 \<le> day_2024 4 30"
  by code_simp+

lemma no_leap_2024: "no_leap (day_2024 month day)"
  by (simp add: day_2024_def civil_def no_leap_def)

lemma step_civil:
  assumes "0 \<le> sec" "sec < 86400" "1 \<le> d" "d \<le> greg_days_in_month x"
    and "x + int (m * k) < 3145716" "m * k \<le> u32_max"
  shows "add_to gregorian (Months (int m)) (civil x d (sec, ns)) (int k) =
    Some (civil (x + int (m * k)) (min d (greg_days_in_month (x + int (m * k)))) (sec, ns))"
  using assms
  by (simp only: greg.add_to_Months if_True gregorian_simps Let_def at_month_def greg_month_index_civil
      greg_day_civil greg_time_of_day_civil) simp

lemma steps_2024:
  "add_to gregorian (Months 1) (day_2024 1 31) (int 0) = Some (day_2024 1 31)"
  "add_to gregorian (Months 1) (day_2024 1 31) (int 1) = Some (day_2024 2 29)"
  "add_to gregorian (Months 1) (day_2024 1 31) (int 2) = Some (day_2024 3 31)"
  "add_to gregorian (Months 1) (day_2024 2 29) (int 1) = Some (day_2024 3 29)"
  using step_civil [of 0 31 24288 1 0 0] step_civil [of 0 31 24288 1 1 0] step_civil [of 0 31 24288 1 2 0]
    step_civil [of 0 29 24289 1 1 0]
  by (simp_all add: day_2024_def months_2024 u32_max_def del: add_to.simps)

theorem floor_steps_correct_witness:
  "(\<exists>t. add_to gregorian (Months 1) (day_2024 1 31)
        (int (floor_steps gregorian (Months 1) (day_2024 1 31) (day_2024 3 30))) = Some t \<and>
      t \<le> day_2024 3 30) \<and>
   1 \<le> floor_steps gregorian (Months 1) (day_2024 1 31) (day_2024 3 30)"
proof -
  have "is_positive gregorian (Months 1)" by simp
  note f = floor_steps_correct [OF gregorian_laws regular_2024(1) regular_2024(3) le_2024(1) this]
  have "\<not> day_2024 3 30 < day_2024 2 29" by code_simp
  with f steps_2024(2) show ?thesis by (meson not_le less_one linorder_le_less_linear)
qed

text \<open>For a positive period, the step \<open>ceil_steps\<close> finds is the first one whose instant is not
  before \<open>at\<close>: every earlier instant of the grid is before \<open>at\<close>, and the instant of the step
  itself, where it is representable, is not.\<close>

lemma ceil_steps_correct:
  assumes "chrono_laws C dim tod" "regular C start" "regular C at" "start \<le> at" "is_positive C p"
  shows "(\<forall>t. add_to C p start (int (ceil_steps C p start at)) = Some t \<longrightarrow> at \<le> t) \<and>
    (\<forall>j < ceil_steps C p start at. \<exists>t. add_to C p start (int j) = Some t \<and> t < at)"
  by (rule chrono_laws.ceil_steps_first [OF assms])

text \<open>C5: for a positive period, \<open>steps_between\<close> answers \<open>k\<close> exactly when stepping \<open>k\<close> periods from
  \<open>start\<close> lands on \<open>at\<close>: it rejects every instant off the grid, sub-millisecond offsets and clamped
  days of month included, and accepts every instant on it.\<close>

theorem steps_between_correct:
  assumes "chrono_laws C dim tod" "regular C start" "no_leap at" "is_positive C p"
  shows "steps_between C p start at = Inr k \<longleftrightarrow> add_to C p start (int k) = Some at"
proof
  have "no_leap start" using assms(2) by (simp add: regular_def)
  then show "steps_between C p start at = Inr k \<Longrightarrow> add_to C p start (int k) = Some at"
    by (rule chrono_laws.steps_between_sound [OF assms(1) _ assms(3)])
qed (rule chrono_laws.steps_between_on_grid [OF assms(1,2,4)])

theorem steps_between_correct_witness:
  "steps_between gregorian (Months 1) (day_2024 1 31) (day_2024 3 31) = Inr 2 \<and>
   steps_between gregorian (Months 1) (day_2024 1 31) (day_2024 3 30) \<noteq> Inr 2"
proof -
  have p: "is_positive gregorian (Months 1)" by simp
  have "day_2024 3 30 \<noteq> day_2024 3 31" by code_simp
  then show ?thesis
    using steps_between_correct [OF gregorian_laws regular_2024(1) no_leap_2024 p] steps_2024(3) by simp
qed

text \<open>C6: \<open>sub_grid_is_anchorable\<close> is exact: it holds precisely when the run of \<open>len\<close> grid points from
  step \<open>offset\<close> is the grid of the same period started at its own first point. In particular the
  shortcut taken when the anchor kept the day of month never accepts a run that clamping bent.\<close>

theorem sub_grid_is_anchorable_correct:
  assumes "chrono_laws C dim tod" "regular C initial" "is_positive C p"
    and "add_to C p initial (int offset) = Some anchor"
  shows "sub_grid_is_anchorable C p initial offset len \<longleftrightarrow>
    (\<forall>j < len. add_to C p anchor (int j) = add_to C p initial (int (offset + j)))"
  by (rule chrono_laws.anchorable_iff [OF assms])

theorem sub_grid_is_anchorable_correct_witness:
  "\<not> sub_grid_is_anchorable gregorian (Months 1) (day_2024 1 31) 1 2"
proof -
  have p: "is_positive gregorian (Months 1)" by simp
  have "day_2024 3 29 \<noteq> day_2024 3 31" by code_simp
  then have "add_to gregorian (Months 1) (day_2024 2 29) (int 1) \<noteq>
      add_to gregorian (Months 1) (day_2024 1 31) (int (1 + 1))"
    using steps_2024(3,4) by (simp del: add_to.simps)
  then show ?thesis
    using sub_grid_is_anchorable_correct [OF gregorian_laws regular_2024(1) p steps_2024(2), of 2]
    by (metis one_less_numeral_iff semiring_norm(76))
qed

text \<open>C7: \<open>infer\<close> is sound and complete. A period it returns is positive and reproduces the whole
  vector; and it returns one exactly when some positive period (with a month count that fits
  \<open>i32\<close>) reproduces a vector of at least two instants.\<close>

theorem infer_correct:
  assumes "chrono_laws C dim tod" "\<forall>t \<in> set ts. regular C t"
  shows "(\<forall>p. infer C ts = Inr p \<longrightarrow> is_positive C p \<and> on_grid C p ts) \<and>
    (2 \<le> length ts \<longrightarrow> is_positive C p \<longrightarrow> (case p of Months m \<Rightarrow> in_i32 m | Fixed _ \<Rightarrow> True) \<longrightarrow>
       on_grid C p ts \<longrightarrow> (\<exists>q. infer C ts = Inr q))"
  using chrono_laws.infer_sound [OF assms] chrono_laws.infer_complete [OF assms] by blast

theorem infer_correct_witness:
  "\<exists>q. infer gregorian [day_2024 1 31, day_2024 2 29, day_2024 3 31] = Inr q"
proof -
  have "on_grid gregorian (Months 1) [day_2024 1 31, day_2024 2 29, day_2024 3 31]"
    using steps_2024(1-3)
    by (auto simp: on_grid_def less_Suc_eq numeral_2_eq_2 numeral_3_eq_3 simp del: add_to.simps)
  moreover have "\<forall>t \<in> set [day_2024 1 31, day_2024 2 29, day_2024 3 31]. regular gregorian t" by simp
  moreover have "is_positive gregorian (Months 1)" "in_i32 1" by (simp_all add: in_i32_def int_limits)
  ultimately show ?thesis
    using infer_correct [OF gregorian_laws, of "[day_2024 1 31, day_2024 2 29, day_2024 3 31]" "Months 1"]
    by simp
qed

text \<open>\<open>divide_into\<close> computes the step ratio of two positive periods. When it answers \<open>n\<close>, the
  \<open>k\<close>-th step of the longer period is the \<open>n * k\<close>-th step of the shorter one from every regular
  start; and whenever some \<open>n\<close> steps of the shorter period land where one step of a longer
  period of the same kind does, it answers that \<open>n\<close>.\<close>

lemma divide_into_correct:
  assumes "chrono_laws C dim tod" "regular C t" "is_positive C p" "is_positive C q"
  shows "(divide_into C p q = Inr n \<longrightarrow>
      0 < n \<and> (\<forall>k. add_to C q t (int k) = add_to C p t (int (n * k)))) \<and>
    (0 < n \<and> same_kind p q \<and> add_to C q t 1 = Some u \<and> add_to C p t (int n) = Some u \<longrightarrow>
      divide_into C p q = Inr n)"
  using chrono_laws.divide_into_multiple [OF assms, of n]
    chrono_laws.divide_into_complete [OF assms(1,3,4) _ _ assms(2), of n u] by (metis of_nat_1)

end
