(* ===== verification/Timestamps.thy ===== *)
theory Timestamps
  imports Chrono Gregorian PeriodGrid
begin

text \<open>
  \<open>crates/infrastore-core/src/timestamps.rs\<close>: the precision contract of stored instants, the stored
  form of a timestamp vector, and the look-up of the breakpoint in force.
\<close>

definition require_millisecond_precision :: "datetime \<Rightarrow> string + unit" where
  "require_millisecond_precision t =
     (if 1000000000 \<le> subsec_nanos t then Inl ''leap second''
      else if subsec_nanos t mod 1000000 \<noteq> 0 then Inl ''finer than a millisecond''
      else Inr ())"

definition to_millis :: "chrono \<Rightarrow> datetime list \<Rightarrow> int list" where
  "to_millis C ts = map (timestamp_millis C) ts"

definition from_millis :: "chrono \<Rightarrow> int list \<Rightarrow> datetime list result" where
  "from_millis C millis =
     rmap_all (\<lambda>ms. ok_or (from_timestamp_millis C ms) (IntegrityError ''outside the representable range'')) millis"

text \<open>\<open>slice::partition_point\<close> on a slice that is partitioned by the predicate.\<close>

definition partition_point :: "('a \<Rightarrow> bool) \<Rightarrow> 'a list \<Rightarrow> nat" where
  "partition_point p xs = length (takeWhile p xs)"

definition index_at :: "datetime list \<Rightarrow> datetime \<Rightarrow> nat option" where
  "index_at breakpoints at =
     (let n = partition_point (\<lambda>b. b \<le> at) breakpoints in if n = 0 then None else Some (n - 1))"

section \<open>The stored form\<close>

definition storable :: "chrono \<Rightarrow> datetime \<Rightarrow> bool" where
  "storable C t \<longleftrightarrow> min_utc C \<le> t \<and> t \<le> max_utc C \<and> require_millisecond_precision t = Inr ()"

lemma storable_regular: "storable C t \<Longrightarrow> regular C t"
  by (auto simp: storable_def regular_def no_leap_def require_millisecond_precision_def split: if_splits)

lemma to_ns_div_ms:
  assumes "subsec_nanos t mod 1000000 = 0"
  shows "to_ns t div 1000000 * 1000000 = to_ns t"
proof -
  obtain k where "subsec_nanos t = 1000000 * k" using assms by (auto simp: mod_eq_0_iff_dvd)
  then have "to_ns t = 1000000 * (timestamp t * 1000 + int k)" by (simp add: to_ns_def)
  then show ?thesis by simp
qed

context chrono_laws
begin

lemma from_to_millis:
  assumes "\<forall>t \<in> set ts. storable C t" shows "from_millis C (to_millis C ts) = Inr ts"
proof -
  have "from_timestamp_millis C (timestamp_millis C t) = Some t" if "t \<in> set ts" for t
  proof -
    from assms that have t: "storable C t" by blast
    then have r: "regular C t" "subsec_nanos t mod 1000000 = 0" "no_leap t"
      by (auto simp: storable_regular storable_def require_millisecond_precision_def no_leap_def split: if_splits)
    then show ?thesis
      by (simp add: timestamp_millis from_timestamp_millis to_ns_div_ms of_ns_to_ns)
  qed
  then have "rmap_all (\<lambda>t. ok_or (from_timestamp_millis C (timestamp_millis C t))
      (IntegrityError ''outside the representable range'')) ts = Inr (map id ts)"
    by (intro rmap_all_pure) simp
  moreover have "rmap_all g (map f ts) = rmap_all (\<lambda>t. g (f t)) ts"
    for g :: "int \<Rightarrow> datetime result" and f by (induction ts) simp_all
  ultimately show ?thesis by (simp add: from_millis_def to_millis_def)
qed

end

section \<open>The breakpoint in force\<close>

lemma partition_point_le: "partition_point p xs \<le> length xs"
  by (simp add: partition_point_def length_takeWhile_le)

lemma partition_point_below: "i < partition_point p xs \<Longrightarrow> p (xs ! i)"
  by (metis nth_mem partition_point_def set_takeWhileD takeWhile_nth)

lemma partition_point_above:
  assumes "sorted_wrt (\<le>) xs" "partition_point (\<lambda>b. b \<le> (x :: 'a :: linorder)) xs \<le> i" "i < length xs"
  shows "x < xs ! i"
proof -
  define k where "k = partition_point (\<lambda>b. b \<le> x) xs"
  have "k < length xs" using assms(2,3) by (simp add: k_def)
  then have "x < xs ! k" using nth_length_takeWhile [of "\<lambda>b. b \<le> x" xs] by (simp add: k_def partition_point_def)
  also have "xs ! k \<le> xs ! i"
    using assms k_def by (cases "k = i") (auto intro: sorted_wrt_nth_less)
  finally show ?thesis .
qed

section \<open>Properties\<close>

text \<open>The stored milliseconds of a timestamp vector read back as the same vector, for every
  vector whose instants pass the precision contract (whole milliseconds, no leap second) within
  the representable range.\<close>

lemma timestamps_roundtrip:
  assumes "chrono_laws C dim tod" "\<forall>t \<in> set ts. storable C t"
  shows "from_millis C (to_millis C ts) = Inr ts"
  using assms by (rule chrono_laws.from_to_millis)

lemma index_at_exact:
  assumes "sorted_wrt (<) breakpoints"
  shows "(index_at breakpoints at = Some i \<longleftrightarrow>
      i < length breakpoints \<and> breakpoints ! i \<le> at \<and>
      (\<forall>j. i < j \<and> j < length breakpoints \<longrightarrow> at < breakpoints ! j)) \<and>
    (index_at breakpoints at = None \<longleftrightarrow> (\<forall>b \<in> set breakpoints. at < b))"
proof -
  define n where "n = partition_point (\<lambda>b. b \<le> at) breakpoints"
  have sorted: "sorted_wrt (\<le>) breakpoints" using assms by (rule sorted_wrt_mono_rel [rotated]) simp
  have below: "breakpoints ! j \<le> at" if "j < n" for j using partition_point_below that unfolding n_def by fast
  have above: "at < breakpoints ! j" if "n \<le> j" "j < length breakpoints" for j
    using partition_point_above [OF sorted] that unfolding n_def by blast
  have n: "n \<le> length breakpoints" by (simp add: n_def partition_point_le)
  have "(index_at breakpoints at = Some i) \<longleftrightarrow> n = Suc i" by (auto simp: index_at_def n_def [symmetric] Let_def)
  moreover have "n = Suc i" if "i < length breakpoints" "breakpoints ! i \<le> at"
    "\<forall>j. i < j \<and> j < length breakpoints \<longrightarrow> at < breakpoints ! j"
    using that below [of "Suc i"] above [of i] n by (metis Suc_leI le_neq_implies_less lessI not_le order.strict_trans2)
  moreover have "(index_at breakpoints at = None) \<longleftrightarrow> n = 0" by (simp add: index_at_def n_def [symmetric] Let_def)
  moreover have "n = 0 \<longleftrightarrow> (\<forall>b \<in> set breakpoints. at < b)"
    using above below [of 0] n by (auto simp: in_set_conv_nth) (metis gr0I leD nth_mem order.strict_trans2)
  ultimately show ?thesis using below [of i] above n by auto
qed

text \<open>Over a strictly increasing vector, \<open>index_at\<close> finds exactly the greatest breakpoint not
  after the instant (an instant at a breakpoint gets that breakpoint), and nothing exactly when the
  instant is before every breakpoint.\<close>

lemma index_at_correct:
  assumes "sorted_wrt (<) breakpoints"
  shows "(index_at breakpoints at = Some i \<longleftrightarrow>
      i < length breakpoints \<and> breakpoints ! i \<le> at \<and>
      (\<forall>j. i < j \<and> j < length breakpoints \<longrightarrow> at < breakpoints ! j)) \<and>
    (index_at breakpoints at = None \<longleftrightarrow> (\<forall>b \<in> set breakpoints. at < b))"
  by (rule index_at_exact [OF assms])

end
