(* ===== verification/TimeSeries.thy ===== *)
theory TimeSeries
  imports Codec TimeReference Features Timestamps PeriodGrid
begin

text \<open>
  \<open>crates/infrastore-core/src/types/time_series.rs\<close>: the series types, their type codes, constructors,
  validation and look-ups, with the two grid helpers of \<open>reader.rs\<close> they call.

  The seven descriptive fields every series struct repeats are the record \<open>descriptors\<close> (the struct
  \<open>Descriptors\<close>), which \<open>series\<close> extends by the array and the name; each series struct extends
  \<open>series\<close> by its own timeline. The builders the macro \<open>descriptor_builders!\<close> generates for every
  struct are then one function each over all extensions.
\<close>

section \<open>Type discriminators\<close>

datatype time_series_type =
    SingleTimeSeries
  | NonSequentialTimeSeries
  | Deterministic
  | DeterministicSingleTimeSeries
  | Probabilistic
  | Scenarios
  | PersistentTimeSeries

fun type_str :: "time_series_type \<Rightarrow> string" where
  "type_str SingleTimeSeries = ''SingleTimeSeries''"
| "type_str NonSequentialTimeSeries = ''NonSequentialTimeSeries''"
| "type_str Deterministic = ''Deterministic''"
| "type_str DeterministicSingleTimeSeries = ''DeterministicSingleTimeSeries''"
| "type_str Probabilistic = ''Probabilistic''"
| "type_str Scenarios = ''Scenarios''"
| "type_str PersistentTimeSeries = ''PersistentTimeSeries''"

definition type_parse :: "string \<Rightarrow> time_series_type option" where
  "type_parse s =
     (if s = ''SingleTimeSeries'' then Some SingleTimeSeries
      else if s = ''NonSequentialTimeSeries'' then Some NonSequentialTimeSeries
      else if s = ''Deterministic'' then Some Deterministic
      else if s = ''DeterministicSingleTimeSeries'' then Some DeterministicSingleTimeSeries
      else if s = ''Probabilistic'' then Some Probabilistic
      else if s = ''Scenarios'' then Some Scenarios
      else if s = ''PersistentTimeSeries'' then Some PersistentTimeSeries
      else None)"

fun type_code :: "time_series_type \<Rightarrow> int" where
  "type_code SingleTimeSeries = 0"
| "type_code NonSequentialTimeSeries = 1"
| "type_code Deterministic = 2"
| "type_code DeterministicSingleTimeSeries = 3"
| "type_code Probabilistic = 4"
| "type_code Scenarios = 5"
| "type_code PersistentTimeSeries = 6"

definition type_from_code :: "int \<Rightarrow> time_series_type option" where
  "type_from_code code =
     (if code = 0 then Some SingleTimeSeries
      else if code = 1 then Some NonSequentialTimeSeries
      else if code = 2 then Some Deterministic
      else if code = 3 then Some DeterministicSingleTimeSeries
      else if code = 4 then Some Probabilistic
      else if code = 5 then Some Scenarios
      else if code = 6 then Some PersistentTimeSeries
      else None)"

fun leading_dims :: "time_series_type \<Rightarrow> nat" where
  "leading_dims SingleTimeSeries = 1"
| "leading_dims NonSequentialTimeSeries = 1"
| "leading_dims PersistentTimeSeries = 1"
| "leading_dims Deterministic = 2"
| "leading_dims DeterministicSingleTimeSeries = 2"
| "leading_dims Probabilistic = 3"
| "leading_dims Scenarios = 3"

definition code_span :: "time_series_type \<Rightarrow> int \<times> int" where
  "code_span t =
     (if t = Deterministic then (type_code Deterministic, type_code DeterministicSingleTimeSeries)
      else (type_code t, type_code t))"

definition type_accepts :: "time_series_type \<Rightarrow> time_series_type \<Rightarrow> bool" where
  "type_accepts t stored \<longleftrightarrow> (case code_span t of (lo, hi) \<Rightarrow> lo \<le> type_code stored \<and> type_code stored \<le> hi)"

fun is_forecast :: "time_series_type \<Rightarrow> bool" where
  "is_forecast SingleTimeSeries \<longleftrightarrow> False"
| "is_forecast NonSequentialTimeSeries \<longleftrightarrow> False"
| "is_forecast PersistentTimeSeries \<longleftrightarrow> False"
| "is_forecast Deterministic \<longleftrightarrow> True"
| "is_forecast DeterministicSingleTimeSeries \<longleftrightarrow> True"
| "is_forecast Probabilistic \<longleftrightarrow> True"
| "is_forecast Scenarios \<longleftrightarrow> True"

definition static_codes :: "int list" where "static_codes = [0, 1, 6]"
definition forecast_codes :: "int list" where "forecast_codes = [2, 3, 4, 5]"

section \<open>Grids\<close>

text \<open>\<open>index as i64\<close> reinterprets the bits.\<close>

definition as_i64 :: "nat \<Rightarrow> int" where
  "as_i64 n = (if n < 2 ^ 63 then int n else int n - 2 ^ 64)"

definition timestamp_on_grid :: "chrono \<Rightarrow> datetime \<Rightarrow> period \<Rightarrow> nat \<Rightarrow> nat \<Rightarrow> datetime result" where
  "timestamp_on_grid C initial step len index =
     (if len \<le> index then Inl (InvalidParameter ''index is past the grid extent'')
      else ok_or (add_to C step initial (as_i64 index)) (InvalidParameter ''timestamp out of range''))"

definition index_on_grid :: "chrono \<Rightarrow> datetime \<Rightarrow> period \<Rightarrow> nat \<Rightarrow> datetime \<Rightarrow> nat result" where
  "index_on_grid C initial step len at =
     (if is_zero step \<and> len = 1
      then (if at = initial then Inr 0 else Inl (InvalidParameter ''off the single-point grid''))
      else rbind (steps_between C step initial at)
        (\<lambda>idx. if len \<le> idx then Inl (InvalidParameter ''past the grid extent'') else Inr idx))"

section \<open>Descriptors and series\<close>

record descriptors =
  s_element_type :: element_type
  s_units :: "string option"
  s_quantity_kind :: "string option"
  s_unit_system :: "unit_system option"
  s_time_reference :: "time_reference option"
  s_component_field :: "string option"
  s_application_data :: "string option"

record series = descriptors +
  s_data :: typed_array
  s_name :: string

record single_time_series = series +
  initial_timestamp :: datetime
  resolution :: period
  series_length :: nat

record non_sequential_time_series = series +
  timestamps :: "datetime list"
  timestamps_length :: nat

record persistent_time_series = series +
  breakpoints :: "datetime list"
  breakpoints_length :: nat

record deterministic = series +
  f_initial_timestamp :: datetime
  f_resolution :: period
  horizon :: period
  interval :: period
  window_count :: nat

record probabilistic = deterministic +
  percentiles :: "64 word list"

record scenarios = deterministic +
  scenario_count :: nat

subsection \<open>Builders\<close>

definition with_element_type :: "element_type \<Rightarrow> 'a descriptors_scheme \<Rightarrow> 'a descriptors_scheme" where
  "with_element_type t s = s\<lparr>s_element_type := t\<rparr>"
definition with_units :: "string \<Rightarrow> 'a descriptors_scheme \<Rightarrow> 'a descriptors_scheme" where
  "with_units u s = s\<lparr>s_units := Some u\<rparr>"
definition with_quantity_kind :: "string \<Rightarrow> 'a descriptors_scheme \<Rightarrow> 'a descriptors_scheme" where
  "with_quantity_kind q s = s\<lparr>s_quantity_kind := Some q\<rparr>"
definition with_unit_system :: "unit_system \<Rightarrow> 'a descriptors_scheme \<Rightarrow> 'a descriptors_scheme" where
  "with_unit_system u s = s\<lparr>s_unit_system := Some u\<rparr>"
definition with_time_reference :: "time_reference \<Rightarrow> 'a descriptors_scheme \<Rightarrow> 'a descriptors_scheme" where
  "with_time_reference r s = s\<lparr>s_time_reference := Some r\<rparr>"
definition with_component_field :: "string \<Rightarrow> 'a descriptors_scheme \<Rightarrow> 'a descriptors_scheme" where
  "with_component_field f s = s\<lparr>s_component_field := Some f\<rparr>"
definition with_application_data :: "string \<Rightarrow> 'a descriptors_scheme \<Rightarrow> 'a descriptors_scheme" where
  "with_application_data d s = s\<lparr>s_application_data := Some d\<rparr>"

text \<open>The fields every constructor fills in the same way.\<close>

definition plain_series :: "typed_array \<Rightarrow> string \<Rightarrow> series" where
  "plain_series a name =
     \<lparr>s_element_type = ScalarOf (arr_dtype a), s_units = None, s_quantity_kind = None, s_unit_system = None,
      s_time_reference = None, s_component_field = None, s_application_data = None, s_data = a, s_name = name\<rparr>"

subsection \<open>Encoding values\<close>

text \<open>\<open>to_string()\<close> of an error, abbreviated like every message.\<close>

definition error_text :: "ts_error \<Rightarrow> string" where
  "error_text e = (case e of InvalidParameter s \<Rightarrow> ''invalid parameter: '' @ s | _ \<Rightarrow> ''error'')"

definition compute_h :: "chrono \<Rightarrow> period \<Rightarrow> period \<Rightarrow> string + nat" where
  "compute_h C hor res = map_err error_text (divide_into C res hor)"

definition encode_with_type :: "decoded_values \<Rightarrow> nat list \<Rightarrow> string + (typed_array \<times> element_type)" where
  "encode_with_type v lead =
     rbind (map_err error_text (encode v lead))
       (\<lambda>a. rbind (ok_or (element_type_of v) ''these values have no element type of their own'')
         (\<lambda>t. Inr (a, t)))"

section \<open>Single time series\<close>

definition sts_new :: "datetime \<Rightarrow> period \<Rightarrow> typed_array \<Rightarrow> string \<Rightarrow> single_time_series" where
  "sts_new initial res a name =
     series.extend (plain_series a name) (single_time_series.fields initial res (ta_length a))"

definition sts_from_values :: "datetime \<Rightarrow> period \<Rightarrow> decoded_values \<Rightarrow> string \<Rightarrow> string + single_time_series" where
  "sts_from_values initial res v name =
     rbind (encode_with_type v [decoded_len v])
       (\<lambda>(a, t). Inr (with_element_type t (sts_new initial res a name)))"

definition sts_from_timestamps :: "chrono \<Rightarrow> datetime list \<Rightarrow> typed_array \<Rightarrow> string \<Rightarrow> string + single_time_series" where
  "sts_from_timestamps C ts a name =
     (if length ts \<noteq> ta_length a then Inl ''the vector must have one entry per time step''
      else rbind (infer C ts) (\<lambda>res. Inr (sts_new (ts ! 0) res a name)))"

definition sts_timestamp_at :: "chrono \<Rightarrow> 'a single_time_series_scheme \<Rightarrow> nat \<Rightarrow> datetime result" where
  "sts_timestamp_at C s index = timestamp_on_grid C (initial_timestamp s) (resolution s) (series_length s) index"

definition sts_timestamps :: "chrono \<Rightarrow> 'a single_time_series_scheme \<Rightarrow> ts_error failure + datetime list" where
  "sts_timestamps C s =
     rmap_all (\<lambda>k. map_err (\<lambda>_. Panicked) (sts_timestamp_at C s k)) [0..<series_length s]"

section \<open>Explicit timelines\<close>

text \<open>\<open>timestamps.windows(2).any(|pair| pair[0] >= pair[1])\<close>\<close>

fun any_pair :: "('a \<Rightarrow> 'a \<Rightarrow> bool) \<Rightarrow> 'a list \<Rightarrow> bool" where
  "any_pair p (x # y # zs) \<longleftrightarrow> p x y \<or> any_pair p (y # zs)"
| "any_pair p _ \<longleftrightarrow> False"

definition nsts_new :: "datetime list \<Rightarrow> typed_array \<Rightarrow> string \<Rightarrow> string + non_sequential_time_series" where
  "nsts_new ts a name =
     (if length ts \<noteq> ta_length a then Inl ''timestamp count does not match data length''
      else if any_pair (\<lambda>t u. u \<le> t) ts then Inl ''timestamps must be strictly increasing''
      else Inr (series.extend (plain_series a name) (non_sequential_time_series.fields ts (ta_length a))))"

definition nsts_from_values :: "datetime list \<Rightarrow> decoded_values \<Rightarrow> string \<Rightarrow> string + non_sequential_time_series" where
  "nsts_from_values ts v name =
     rbind (encode_with_type v [decoded_len v])
       (\<lambda>(a, t). rbind (nsts_new ts a name) (\<lambda>s. Inr (with_element_type t s)))"

definition persistent_new :: "datetime list \<Rightarrow> typed_array \<Rightarrow> string \<Rightarrow> string + persistent_time_series" where
  "persistent_new ts a name =
     (if length ts \<noteq> ta_length a then Inl ''timestamp count does not match data length''
      else if any_pair (\<lambda>t u. u \<le> t) ts then Inl ''timestamps must be strictly increasing''
      else Inr (series.extend (plain_series a name) (persistent_time_series.fields ts (ta_length a))))"

definition persistent_from_values :: "datetime list \<Rightarrow> decoded_values \<Rightarrow> string \<Rightarrow> string + persistent_time_series" where
  "persistent_from_values ts v name =
     rbind (encode_with_type v [decoded_len v])
       (\<lambda>(a, t). rbind (persistent_new ts a name) (\<lambda>s. Inr (with_element_type t s)))"

definition persistent_index_at :: "'a persistent_time_series_scheme \<Rightarrow> datetime \<Rightarrow> string + nat" where
  "persistent_index_at s at =
     ok_or (index_at (breakpoints s) at)
       (if breakpoints s = [] then ''no breakpoints'' else ''before the first breakpoint'')"

text \<open>The fields are public, so the index may lie outside the vector or the array.\<close>

definition breakpoint_at :: "'a persistent_time_series_scheme \<Rightarrow> datetime \<Rightarrow> string failure + datetime" where
  "breakpoint_at s at =
     rbind (raise (persistent_index_at s at)) (\<lambda>i. ok_or (get_at (breakpoints s) i) Panicked)"

definition value_at :: "'e element \<Rightarrow> 'a persistent_time_series_scheme \<Rightarrow> datetime \<Rightarrow> string + 'e" where
  "value_at E s at =
     (if element_shape (s_data s) \<noteq> [] then Inl ''not a scalar''
      else rbind (persistent_index_at s at) (element_at E (s_data s)))"

definition row_at :: "'a persistent_time_series_scheme \<Rightarrow> datetime \<Rightarrow> string failure + typed_array" where
  "row_at s at = rbind (raise (persistent_index_at s at)) (ta_step (s_data s))"

section \<open>Forecasts\<close>

definition validate_forecast_periods :: "chrono \<Rightarrow> period \<Rightarrow> period \<Rightarrow> period \<Rightarrow> nat \<Rightarrow> string + unit" where
  "validate_forecast_periods C res hor itv count =
     (let check = (\<lambda>p what. if \<not> is_positive C p then Inl (what @ '' must be strictly positive'') else Inr ())
      in rbind (check res ''resolution'') (\<lambda>_.
         rbind (check hor ''horizon'') (\<lambda>_.
         if \<not> (is_positive C itv \<or> count \<le> 1 \<and> is_zero itv)
         then Inl ''interval must be strictly positive'' else Inr ())))"

definition deterministic_validate :: "chrono \<Rightarrow> 'a deterministic_scheme \<Rightarrow> string + unit" where
  "deterministic_validate C d =
     rbind (validate_forecast_periods C (f_resolution d) (horizon d) (interval d) (window_count d)) (\<lambda>_.
     rbind (compute_h C (horizon d) (f_resolution d)) (\<lambda>h.
       if length (shape (s_data d)) < 2 then Inl ''shape must have at least 2 dims''
       else if shape (s_data d) \<noteq> [h, window_count d] @ drop 2 (shape (s_data d))
       then Inl ''unexpected shape'' else Inr ()))"

definition deterministic_new ::
    "chrono \<Rightarrow> datetime \<Rightarrow> period \<Rightarrow> period \<Rightarrow> period \<Rightarrow> nat \<Rightarrow> typed_array \<Rightarrow> string \<Rightarrow> string + deterministic" where
  "deterministic_new C initial res hor itv count a name =
     (let out = series.extend (plain_series a name) (deterministic.fields initial res hor itv count)
      in rbind (deterministic_validate C out) (\<lambda>_. Inr out))"

definition deterministic_from_values ::
    "chrono \<Rightarrow> datetime \<Rightarrow> period \<Rightarrow> period \<Rightarrow> period \<Rightarrow> nat \<Rightarrow> decoded_values \<Rightarrow> string \<Rightarrow> string + deterministic" where
  "deterministic_from_values C initial res hor itv count v name =
     rbind (compute_h C hor res) (\<lambda>h.
     rbind (encode_with_type v [h, count]) (\<lambda>(a, t).
     rbind (deterministic_new C initial res hor itv count a name) (\<lambda>d. Inr (with_element_type t d))))"

definition horizon_count :: "'a deterministic_scheme \<Rightarrow> nat" where
  "horizon_count d = (case shape (s_data d) of [] \<Rightarrow> 0 | n # _ \<Rightarrow> n)"

definition window_start :: "chrono \<Rightarrow> 'a deterministic_scheme \<Rightarrow> nat \<Rightarrow> datetime result" where
  "window_start C d index = timestamp_on_grid C (f_initial_timestamp d) (interval d) (window_count d) index"

definition window_timestamps :: "chrono \<Rightarrow> 'a deterministic_scheme \<Rightarrow> nat \<Rightarrow> datetime list result" where
  "window_timestamps C d index =
     rbind (window_start C d index) (\<lambda>start.
       rmap_all (\<lambda>h. timestamp_on_grid C start (f_resolution d) (horizon_count d) h) [0..<horizon_count d])"

text \<open>
  Finite floats compare as their sign and magnitude do, which orders the bit patterns of equal sign
  by value and makes the two zeros equal.
\<close>

definition f64_ordinal :: "64 word \<Rightarrow> int" where
  "f64_ordinal w = (let m = int (unat w mod 2 ^ 63) in if f64_sign w = 0 then m else - m)"

definition probabilistic_validate :: "chrono \<Rightarrow> 'a probabilistic_scheme \<Rightarrow> string + unit" where
  "probabilistic_validate C d =
     rbind (validate_forecast_periods C (f_resolution d) (horizon d) (interval d) (window_count d)) (\<lambda>_.
       if percentiles d = [] then Inl ''percentiles must be non-empty''
       else if \<not> list_all f64_is_finite (percentiles d) then Inl ''percentiles must be finite''
       else if any_pair (\<lambda>p q. f64_ordinal q \<le> f64_ordinal p) (percentiles d)
       then Inl ''percentiles must be strictly increasing''
       else rbind (compute_h C (horizon d) (f_resolution d)) (\<lambda>h.
         if length (shape (s_data d)) < 3 then Inl ''shape must have at least 3 dims''
         else if shape (s_data d) \<noteq> [length (percentiles d), h, window_count d] @ drop 3 (shape (s_data d))
         then Inl ''unexpected shape'' else Inr ()))"

definition probabilistic_new ::
    "chrono \<Rightarrow> datetime \<Rightarrow> period \<Rightarrow> period \<Rightarrow> period \<Rightarrow> nat \<Rightarrow> 64 word list \<Rightarrow> typed_array \<Rightarrow> string \<Rightarrow>
     string + probabilistic" where
  "probabilistic_new C initial res hor itv count ps a name =
     (let out = deterministic.extend
        (series.extend (plain_series a name) (deterministic.fields initial res hor itv count)) (probabilistic.fields ps)
      in rbind (probabilistic_validate C out) (\<lambda>_. Inr out))"

definition probabilistic_from_values ::
    "chrono \<Rightarrow> datetime \<Rightarrow> period \<Rightarrow> period \<Rightarrow> period \<Rightarrow> nat \<Rightarrow> 64 word list \<Rightarrow> decoded_values \<Rightarrow> string \<Rightarrow>
     string + probabilistic" where
  "probabilistic_from_values C initial res hor itv count ps v name =
     rbind (compute_h C hor res) (\<lambda>h.
     rbind (encode_with_type v [length ps, h, count]) (\<lambda>(a, t).
     rbind (probabilistic_new C initial res hor itv count ps a name) (\<lambda>d. Inr (with_element_type t d))))"

definition scenarios_validate :: "chrono \<Rightarrow> 'a scenarios_scheme \<Rightarrow> string + unit" where
  "scenarios_validate C d =
     rbind (validate_forecast_periods C (f_resolution d) (horizon d) (interval d) (window_count d)) (\<lambda>_.
     rbind (compute_h C (horizon d) (f_resolution d)) (\<lambda>h.
       let elem_dims = (if 3 < length (shape (s_data d)) then drop 3 (shape (s_data d)) else [])
       in if shape (s_data d) \<noteq> [scenario_count d, h, window_count d] @ elem_dims
          then Inl ''unexpected shape'' else Inr ()))"

definition scenarios_new ::
    "chrono \<Rightarrow> datetime \<Rightarrow> period \<Rightarrow> period \<Rightarrow> period \<Rightarrow> nat \<Rightarrow> nat \<Rightarrow> typed_array \<Rightarrow> string \<Rightarrow> string + scenarios" where
  "scenarios_new C initial res hor itv count sc a name =
     (let out = deterministic.extend
        (series.extend (plain_series a name) (deterministic.fields initial res hor itv count)) (scenarios.fields sc)
      in rbind (scenarios_validate C out) (\<lambda>_. Inr out))"

definition scenarios_from_values ::
    "chrono \<Rightarrow> datetime \<Rightarrow> period \<Rightarrow> period \<Rightarrow> period \<Rightarrow> nat \<Rightarrow> nat \<Rightarrow> decoded_values \<Rightarrow> string \<Rightarrow>
     string + scenarios" where
  "scenarios_from_values C initial res hor itv count sc v name =
     rbind (compute_h C hor res) (\<lambda>h.
     rbind (encode_with_type v [sc, h, count]) (\<lambda>(a, t).
     rbind (scenarios_new C initial res hor itv count sc a name) (\<lambda>d. Inr (with_element_type t d))))"

section \<open>The variant container\<close>

datatype time_series_data =
    SingleData single_time_series
  | NonSequentialData non_sequential_time_series
  | DeterministicData deterministic
  | ProbabilisticData probabilistic
  | ScenariosData scenarios
  | PersistentData persistent_time_series

fun data_type :: "time_series_data \<Rightarrow> time_series_type" where
  "data_type (SingleData _) = SingleTimeSeries"
| "data_type (NonSequentialData _) = NonSequentialTimeSeries"
| "data_type (DeterministicData _) = Deterministic"
| "data_type (ProbabilisticData _) = Probabilistic"
| "data_type (ScenariosData _) = Scenarios"
| "data_type (PersistentData _) = PersistentTimeSeries"

text \<open>
  The macro \<open>each_variant!\<close> runs one body on whichever series is inside: \<open>series_of\<close> reads the fields
  the bodies read, \<open>update_each\<close> writes the descriptors they write.
\<close>

fun series_of :: "time_series_data \<Rightarrow> series" where
  "series_of (SingleData s) = series.truncate s"
| "series_of (NonSequentialData s) = series.truncate s"
| "series_of (DeterministicData s) = series.truncate s"
| "series_of (ProbabilisticData s) = series.truncate s"
| "series_of (ScenariosData s) = series.truncate s"
| "series_of (PersistentData s) = series.truncate s"

definition with_descriptors :: "(descriptors \<Rightarrow> descriptors) \<Rightarrow> 'a descriptors_scheme \<Rightarrow> 'a descriptors_scheme" where
  "with_descriptors f s = descriptors.extend (f (descriptors.truncate s)) (descriptors.more s)"

fun update_each :: "(descriptors \<Rightarrow> descriptors) \<Rightarrow> time_series_data \<Rightarrow> time_series_data" where
  "update_each f (SingleData s) = SingleData (with_descriptors f s)"
| "update_each f (NonSequentialData s) = NonSequentialData (with_descriptors f s)"
| "update_each f (DeterministicData s) = DeterministicData (with_descriptors f s)"
| "update_each f (ProbabilisticData s) = ProbabilisticData (with_descriptors f s)"
| "update_each f (ScenariosData s) = ScenariosData (with_descriptors f s)"
| "update_each f (PersistentData s) = PersistentData (with_descriptors f s)"

definition data_name :: "time_series_data \<Rightarrow> string" where "data_name d = s_name (series_of d)"
definition data_array :: "time_series_data \<Rightarrow> typed_array" where "data_array d = s_data (series_of d)"
definition data_element_type :: "time_series_data \<Rightarrow> element_type" where
  "data_element_type d = s_element_type (series_of d)"

definition data_decoded_values :: "time_series_data \<Rightarrow> ts_error failure + decoded_values" where
  "data_decoded_values d = decode (data_array d) (data_element_type d) (leading_dims (data_type d))"

definition set_descriptors :: "descriptors \<Rightarrow> time_series_data \<Rightarrow> time_series_data" where
  "set_descriptors ds d = update_each (\<lambda>_. ds) d"

end
