(* ===== verification/Hash.thy ===== *)
theory Hash
  imports TypedArray Features Timestamps
begin

text \<open>
  \<open>crates/infrastore-core/src/hash.rs\<close>: the canonical byte streams that address arrays, feature maps
  and timestamp vectors, and the hexadecimal form of a hash. SHA-256 is a package of its own, so each
  hash takes it as the parameter \<open>sha256\<close>; what is proved is about the stream it is fed.
\<close>

type_synonym hash = "byte list"

section \<open>The byte streams\<close>

definition ascii :: "string \<Rightarrow> byte list" where
  "ascii s = map (\<lambda>c. word_of_nat (code_of c)) s"

definition u64_le :: "nat \<Rightarrow> byte list" where "u64_le n = le_bytes 8 n"

definition i64_le :: "int \<Rightarrow> byte list" where "i64_le v = le_bytes 8 (nat (v mod 18446744073709551616))"

definition is_nan32 :: "32 word \<Rightarrow> bool" where
  "is_nan32 w \<longleftrightarrow> w AND 0x7F800000 = 0x7F800000 \<and> w AND 0x007FFFFF \<noteq> 0"

definition nan32 :: "32 word" where "nan32 = 0x7FC00000"

text \<open>
  The run-based loop of \<open>update_canonical_nans\<close>: \<open>run_start\<close> is where the bytes not yet fed begin.
  The result is everything the hasher is fed.
\<close>

definition update_canonical_nans :: "nat \<Rightarrow> byte list \<Rightarrow> byte list \<Rightarrow> (byte list \<Rightarrow> bool) \<Rightarrow> byte list" where
  "update_canonical_nans N bs canonical_nan is_nan =
     (let bytes = take (length bs - length bs mod N) bs;
          (fed, run_start) = foldl (\<lambda>(fed, run_start) index.
             let chunk = segment (index * N) N bytes; offset = index * N
             in if is_nan chunk
                then (fed @ segment run_start (offset - run_start) bytes @ canonical_nan, offset + N)
                else (fed, run_start)) ([], 0) [0..<length bytes div N]
      in fed @ drop run_start bytes)"

definition array_payload :: "typed_array \<Rightarrow> byte list" where
  "array_payload a =
     (case arr_dtype a of
        F64 \<Rightarrow> update_canonical_nans 8 (bytes a) (le_bytes 8 (unat nan64)) (\<lambda>c. is_nan64 (from_le_bytes f64_element c))
      | F32 \<Rightarrow> update_canonical_nans 4 (bytes a) (le_bytes 4 (unat nan32)) (\<lambda>c. is_nan32 (from_le_bytes f32_element c))
      | _ \<Rightarrow> bytes a)"

definition array_stream :: "typed_array \<Rightarrow> byte list" where
  "array_stream a =
     ascii (dtype_str (arr_dtype a)) @ [0] @ u64_le (length (shape a)) @ concat (map u64_le (shape a)) @ array_payload a"

definition array_hash :: "(byte list \<Rightarrow> hash) \<Rightarrow> typed_array \<Rightarrow> hash" where
  "array_hash sha256 a = sha256 (array_stream a)"

type_synonym features = "(byte list \<times> feature_value) list"

fun feature_value_stream :: "feature_value \<Rightarrow> byte list" where
  "feature_value_stream (FInt v) = ascii ''i'' @ i64_le v"
| "feature_value_stream (FFloat v) = ascii ''f'' @ u64_le (unat (if is_nan64 v then nan64 else v))"
| "feature_value_stream (FBool v) = ascii ''b'' @ [if v then 1 else 0]"
| "feature_value_stream (FStr v) = ascii ''s'' @ u64_le (length v) @ v"

definition feature_entry_stream :: "byte list \<times> feature_value \<Rightarrow> byte list" where
  "feature_entry_stream kv = (case kv of (key, value) \<Rightarrow> u64_le (length key) @ key @ feature_value_stream value)"

definition features_stream :: "features \<Rightarrow> byte list" where
  "features_stream fs = ascii ''features'' @ [0] @ u64_le (length fs) @ concat (map feature_entry_stream fs)"

definition features_hash :: "(byte list \<Rightarrow> hash) \<Rightarrow> features \<Rightarrow> hash" where
  "features_hash sha256 fs = sha256 (features_stream fs)"

definition timestamps_stream :: "chrono \<Rightarrow> datetime list \<Rightarrow> byte list" where
  "timestamps_stream C ts =
     ascii ''timestamps'' @ [0] @ u64_le (length ts) @ concat (map i64_le (to_millis C ts))"

definition timestamps_hash :: "(byte list \<Rightarrow> hash) \<Rightarrow> chrono \<Rightarrow> datetime list \<Rightarrow> hash" where
  "timestamps_hash sha256 C ts = sha256 (timestamps_stream C ts)"

section \<open>Hexadecimal\<close>

definition HEX :: string where "HEX = ''0123456789abcdef''"

definition hash_hex :: "hash \<Rightarrow> string" where
  "hash_hex h = concat (map (\<lambda>b. [HEX ! unat (drop_bit 4 b), HEX ! unat (b AND 0x0F)]) h)"

text \<open>\<open>(byte as char).to_digit(16)\<close>\<close>

definition to_digit16 :: "byte \<Rightarrow> nat option" where
  "to_digit16 b =
     (let n = unat b
      in if 48 \<le> n \<and> n \<le> 57 then Some (n - 48)
         else if 97 \<le> n \<and> n \<le> 102 then Some (n - 87)
         else if 65 \<le> n \<and> n \<le> 70 then Some (n - 55)
         else None)"

fun hex_pairs :: "byte list \<Rightarrow> byte list option" where
  "hex_pairs (hi # lo # rest) =
     Option.bind (to_digit16 hi) (\<lambda>h. Option.bind (to_digit16 lo)
       (\<lambda>l. map_option (\<lambda>out. word_of_nat (h * 16 + l) # out) (hex_pairs rest)))"
| "hex_pairs _ = Some []"

definition hash_from_hex :: "string \<Rightarrow> hash option" where
  "hash_from_hex s = (let bytes = utf8 s in if length bytes \<noteq> 64 then None else hex_pairs bytes)"

section \<open>Streams that determine their parts\<close>

lemma u64_le_append:
  "m \<le> usize_max \<Longrightarrow> n \<le> usize_max \<Longrightarrow> u64_le m @ x = u64_le n @ y \<longleftrightarrow> m = n \<and> x = y"
  using le_bytes_inject [of m 8 n] by (auto simp: u64_le_def usize_max_def)

lemma u64_le_eq: "m \<le> usize_max \<Longrightarrow> n \<le> usize_max \<Longrightarrow> u64_le m = u64_le n \<longleftrightarrow> m = n"
  using u64_le_append [of m n "[]" "[]"] by simp

lemma length_u64_le [simp]: "length (u64_le n) = 8" "length (i64_le v) = 8"
  by (simp_all add: u64_le_def i64_le_def)

lemma i64_le_inject:
  assumes "in_i64 v" "in_i64 w" shows "i64_le v = i64_le w \<longleftrightarrow> v = w"
proof
  assume "i64_le v = i64_le w"
  then have "nat (v mod 18446744073709551616) = nat (w mod 18446744073709551616)"
    using le_bytes_inject [of "nat (v mod 18446744073709551616)" 8 "nat (w mod 18446744073709551616)"]
    by (simp add: i64_le_def nat_less_iff)
  then have eq: "v mod 18446744073709551616 = w mod 18446744073709551616" by simp
  have "(18446744073709551616::int) dvd v - w" using eq by (rule mod_eq_dvd_iff [THEN iffD1])
  moreover have "\<bar>v - w\<bar> < 18446744073709551616" using assms by (auto simp: in_i64_def int_limits)
  ultimately show "v = w" using dvd_imp_le_int [of "v - w" 18446744073709551616] by fastforce
qed simp

lemma concat_inject_uniform:
  assumes "length xs = length ys" "\<And>x. length (f x) = w"
    and "concat (map f xs) @ a = concat (map f ys) @ b"
  shows "map f xs = map f ys \<and> a = b"
  using assms(1,3)
proof (induction xs ys rule: list_induct2)
  case (Cons x xs y ys)
  then have "f x = f y \<and> concat (map f xs) @ a = concat (map f ys) @ b" by (simp add: assms(2))
  with Cons show ?case by simp
qed simp

lemma dtype_stream_append:
  "ascii (dtype_str d) @ [0] @ x = ascii (dtype_str e) @ [0] @ y \<longleftrightarrow> d = e \<and> x = y"
  by (cases d; cases e; simp add: ascii_def code_of_def)

lemma u64_les_append:
  assumes "length s = length t" "\<forall>n \<in> set s \<union> set t. n \<le> usize_max"
    and "concat (map u64_le s) @ x = concat (map u64_le t) @ y"
  shows "s = t \<and> x = y"
  using assms
proof (induction s t rule: list_induct2)
  case (Cons m s n t)
  then show ?case using u64_le_append [of m n "concat (map u64_le s) @ x" "concat (map u64_le t) @ y"] by simp
qed simp

section \<open>The NaN loop\<close>

lemma segment_add: "segment a (m + n) xs = segment a m xs @ segment (a + m) n xs"
  by (simp add: segment_def take_add add.commute)

lemma nan_loop:
  assumes "foldl (\<lambda>(fed, run_start) index.
      if p (segment (index * N) N bs)
      then (fed @ segment run_start (index * N - run_start) bs @ nan, index * N + N)
      else (fed, run_start)) ([], 0) [0..<k] = (fed, rs)"
  shows "rs \<le> k * N \<and> fed @ segment rs (k * N - rs) bs =
    concat (map (\<lambda>i. let c = segment (i * N) N bs in if p c then nan else c) [0..<k])"
  using assms
proof (induction k arbitrary: fed rs)
  case 0
  then show ?case by (simp add: segment_def)
next
  case (Suc k)
  let ?f = "\<lambda>(fed, run_start) index.
      if p (segment (index * N) N bs)
      then (fed @ segment run_start (index * N - run_start) bs @ nan, index * N + N)
      else (fed, run_start)"
  obtain fed' rs' where IH: "foldl ?f ([], 0) [0..<k] = (fed', rs')" by fastforce
  note inv = Suc.IH [OF IH]
  show ?case
  proof (cases "p (segment (k * N) N bs)")
    case True
    then have "fed = fed' @ segment rs' (k * N - rs') bs @ nan" "rs = Suc k * N"
      using Suc.prems IH by simp_all
    with inv True show ?thesis by (simp add: segment_def)
  next
    case False
    then have st: "fed = fed'" "rs = rs'" using Suc.prems IH by simp_all
    have "Suc k * N - rs' = (k * N - rs') + N" using inv by simp
    then have "segment rs' (Suc k * N - rs') bs = segment rs' (k * N - rs') bs @ segment (k * N) N bs"
      using inv by (simp only: segment_add) simp
    with inv False st show ?thesis by (simp add: trans_le_add2)
  qed
qed

lemma update_canonical_nans_chunks:
  assumes N: "0 < N"
  shows "update_canonical_nans N bs nan p =
    concat (map (\<lambda>c. if p c then nan else c) (chunks_exact N bs))"
proof -
  define bytes where "bytes = take (length bs - length bs mod N) bs"
  define n where "n = length bs div N"
  have nN: "n * N = length bs - length bs mod N" by (simp add: n_def minus_mod_eq_div_mult)
  then have len: "length bytes = n * N" by (simp add: bytes_def)
  have chunk: "segment (i * N) N bytes = segment (i * N) N bs" if "i < n" for i
  proof -
    have "i * N + N \<le> n * N" using mult_le_mono1 [of "Suc i" n N] that by simp
    then show ?thesis
      using segment_segment [of "i * N" N "n * N" 0 bs] by (simp add: bytes_def nN segment_def)
  qed
  obtain fed rs where loop: "foldl (\<lambda>(fed, run_start) index.
      if p (segment (index * N) N bytes)
      then (fed @ segment run_start (index * N - run_start) bytes @ nan, index * N + N)
      else (fed, run_start)) ([], 0) [0..<n] = (fed, rs)" by fastforce
  note inv = nan_loop [OF loop]
  have "update_canonical_nans N bs nan p = fed @ drop rs bytes"
    using loop N len by (simp add: update_canonical_nans_def Let_def bytes_def [symmetric])
  also have "drop rs bytes = segment rs (n * N - rs) bytes"
    using inv len by (simp add: segment_def)
  also have "fed @ segment rs (n * N - rs) bytes =
      concat (map (\<lambda>i. let c = segment (i * N) N bytes in if p c then nan else c) [0..<n])"
    using inv by blast
  also have "\<dots> = concat (map (\<lambda>c. if p c then nan else c) (chunks_exact N bs))"
    unfolding chunks_exact_def n_def [symmetric] map_map
    by (intro arg_cong [of _ _ concat] map_cong) (simp_all add: chunk Let_def)
  finally show ?thesis .
qed

section \<open>What a stream says of an array\<close>

lemma push_from_numeric:
  assumes "LENGTH('a) = 8 * dtype_size d" "length c = dtype_size d"
  shows "push_le_bytes (numeric_element d :: 'a::len word element) (from_le_bytes (numeric_element d) c) = c"
proof -
  have "le_value c < 2 ^ LENGTH('a)" using le_value_bound [of c] by (simp add: assms power_mult)
  then have "unat (word_of_nat (le_value c) :: 'a word) = le_value c"
    by (simp add: unat_of_nat take_bit_nat_eq_self)
  then show ?thesis using le_bytes_le_value [of c] by (simp add: numeric_element_def assms(2))
qed

definition decoded :: "'a element \<Rightarrow> typed_array \<Rightarrow> 'a list" where
  "decoded E a = map (from_le_bytes E) (chunks_exact (dtype_size (elem_dtype E)) (bytes a))"

lemma chunk_length: "c \<in> set (chunks_exact N bs) \<Longrightarrow> length c = N"
proof -
  assume "c \<in> set (chunks_exact N bs)"
  then obtain i where i: "i < length bs div N" "c = segment (i * N) N bs" by (auto simp: chunks_exact_def)
  have "i * N + N \<le> length bs div N * N" using mult_le_mono1 [of "Suc i" "length bs div N" N] i(1) by simp
  also have "\<dots> \<le> length bs" by (rule div_times_less_eq_dividend)
  finally show ?thesis using i(2) by (simp add: length_segment)
qed

context element_codec
begin

lemma canonical_payload:
  assumes "\<And>c. length c = dtype_size (elem_dtype E) \<Longrightarrow> push_le_bytes E (from_le_bytes E c) = c"
  shows "update_canonical_nans (dtype_size (elem_dtype E)) (bytes a) (push_le_bytes E nan) (\<lambda>c. p (from_le_bytes E c)) =
    concat (map (push_le_bytes E) (map (\<lambda>v. if p v then nan else v) (decoded E a)))"
  using chunk_length [of _ "dtype_size (elem_dtype E)" "bytes a"] assms
  by (simp add: update_canonical_nans_chunks decoded_def comp_def cong: map_cong)
    (intro arg_cong [of _ _ concat] map_cong, auto)

lemma concat_push_inject:
  "concat (map (push_le_bytes E) xs) = concat (map (push_le_bytes E) ys) \<longleftrightarrow> xs = ys"
proof
  assume eq: "concat (map (push_le_bytes E) xs) = concat (map (push_le_bytes E) ys)"
  then have "length xs * dtype_size (elem_dtype E) = length ys * dtype_size (elem_dtype E)"
    using length_concat_push by metis
  then have "length xs = length ys" by simp
  then have "map (push_le_bytes E) xs = map (push_le_bytes E) ys"
    using concat_inject_uniform [of xs ys "push_le_bytes E" _ "[]" "[]"] push_length eq by simp
  then show "xs = ys" by (metis push_inject inj_def inj_map_eq_map)
qed simp

end

text \<open>Equal up to the payload and sign of NaNs.\<close>

definition same_elements :: "typed_array \<Rightarrow> typed_array \<Rightarrow> bool" where
  "same_elements a b =
     (case arr_dtype a of
        F64 \<Rightarrow> list_all2 (\<lambda>x y. x = y \<or> is_nan64 x \<and> is_nan64 y) (decoded f64_element a) (decoded f64_element b)
      | F32 \<Rightarrow> list_all2 (\<lambda>x y. x = y \<or> is_nan32 x \<and> is_nan32 y) (decoded f32_element a) (decoded f32_element b)
      | _ \<Rightarrow> bytes a = bytes b)"

lemma canonical_map_eq:
  "p nan \<Longrightarrow> map (\<lambda>v. if p v then nan else v) xs = map (\<lambda>v. if p v then nan else v) ys \<longleftrightarrow>
   list_all2 (\<lambda>x y. x = y \<or> p x \<and> p y) xs ys"
  by (auto simp: list_eq_iff_nth_eq list_all2_conv_all_nth split: if_splits)

lemma payload_eq:
  assumes "arr_dtype a = arr_dtype b"
  shows "array_payload a = array_payload b \<longleftrightarrow> same_elements a b"
proof (cases "arr_dtype a")
  case F64
  have pf: "push_le_bytes f64_element (from_le_bytes f64_element c) = c"
    if "length c = dtype_size (elem_dtype f64_element)" for c
    using that push_from_numeric [where 'a = 64, of F64 c] by (simp add: f64_element_def numeric_element_def)
  note cp = f64.canonical_payload [OF pf, where nan = nan64 and p = is_nan64]
  have e: "dtype_size (elem_dtype f64_element) = 8" "push_le_bytes f64_element nan64 = le_bytes 8 (unat nan64)"
    by (simp_all add: f64_element_def numeric_element_def)
  show ?thesis
    using F64 assms cp [of a] cp [of b]
    by (simp add: array_payload_def same_elements_def e f64.concat_push_inject canonical_map_eq del: map_map)
next
  case F32
  have pf: "push_le_bytes f32_element (from_le_bytes f32_element c) = c"
    if "length c = dtype_size (elem_dtype f32_element)" for c
    using that push_from_numeric [where 'a = 32, of F32 c] by (simp add: f32_element_def numeric_element_def)
  note cp = f32.canonical_payload [OF pf, where nan = nan32 and p = is_nan32]
  have e: "dtype_size (elem_dtype f32_element) = 4" "push_le_bytes f32_element nan32 = le_bytes 4 (unat nan32)"
    by (simp_all add: f32_element_def numeric_element_def)
  have n: "is_nan32 nan32" by (simp add: is_nan32_def nan32_def)
  show ?thesis
    using F32 assms cp [of a] cp [of b]
    by (simp add: array_payload_def same_elements_def e f32.concat_push_inject canonical_map_eq n del: map_map)
qed (simp_all add: array_payload_def same_elements_def flip: assms)

section \<open>What a stream says of features and timestamps\<close>

fun sized_value :: "feature_value \<Rightarrow> bool" where
  "sized_value (FInt v) = in_i64 v"
| "sized_value (FStr v) = (length v \<le> usize_max)"
| "sized_value _ = True"

lemma ascii_tags: "ascii ''i'' = [105]" "ascii ''f'' = [102]" "ascii ''b'' = [98]" "ascii ''s'' = [115]"
  by (simp_all add: ascii_def code_of_def)

lemma float_stream:
  "u64_le (unat (if is_nan64 v then nan64 else v)) = u64_le (unat (if is_nan64 w then nan64 else w)) \<longleftrightarrow>
   canonical_bits v = canonical_bits w"
proof -
  have "unat (z :: 64 word) \<le> usize_max" for z
    using unsigned_less [of z, where 'a = nat] by (simp add: usize_max_def)
  then show ?thesis unfolding canonical_bits_def by (simp only: u64_le_eq word_unat_eq_iff)
qed

lemma feature_value_stream_append:
  assumes "sized_value v" "sized_value w"
  shows "feature_value_stream v @ x = feature_value_stream w @ y \<longleftrightarrow> feature_eq v w \<and> x = y"
  using assms
  by (cases v; cases w) (auto simp: ascii_tags i64_le_inject u64_le_eq float_stream simp del: split_paired_All)

definition sized_features :: "features \<Rightarrow> bool" where
  "sized_features fs \<longleftrightarrow> length fs \<le> usize_max \<and>
     (\<forall>(k, v) \<in> set fs. length k \<le> usize_max \<and> sized_value v)"

lemma feature_entry_append:
  assumes "length (fst e) \<le> usize_max" "sized_value (snd e)" "length (fst e') \<le> usize_max" "sized_value (snd e')"
  shows "feature_entry_stream e @ x = feature_entry_stream e' @ y \<longleftrightarrow>
    fst e = fst e' \<and> feature_eq (snd e) (snd e') \<and> x = y"
proof -
  obtain k v k' w where e: "e = (k, v)" "e' = (k', w)" by (cases e; cases e')
  have "feature_entry_stream e @ x = feature_entry_stream e' @ y \<longleftrightarrow>
      length k = length k' \<and> k @ feature_value_stream v @ x = k' @ feature_value_stream w @ y"
    using assms u64_le_append [of "length k" "length k'"] by (simp add: e feature_entry_stream_def)
  also have "\<dots> \<longleftrightarrow> k = k' \<and> feature_eq v w \<and> x = y"
    using feature_value_stream_append [of v w x y] assms by (auto simp: e)
  finally show ?thesis by (simp add: e)
qed

lemma feature_entries:
  assumes "length fs = length gs" "\<forall>(k, v) \<in> set fs \<union> set gs. length k \<le> usize_max \<and> sized_value v"
  shows "concat (map feature_entry_stream fs) = concat (map feature_entry_stream gs) \<longleftrightarrow>
    list_all2 (\<lambda>f g. fst f = fst g \<and> feature_eq (snd f) (snd g)) fs gs"
  using assms
proof (induction fs gs rule: list_induct2)
  case (Cons f fs g gs)
  then show ?case
    using feature_entry_append [of f g] by (auto simp: split_beta)
qed simp

lemma features_stream_eq:
  assumes "sized_features fs" "sized_features gs"
  shows "features_stream fs = features_stream gs \<longleftrightarrow>
    list_all2 (\<lambda>f g. fst f = fst g \<and> feature_eq (snd f) (snd g)) fs gs"
proof (cases "length fs = length gs")
  case True
  have "\<forall>(k, v) \<in> set fs \<union> set gs. length k \<le> usize_max \<and> sized_value v"
    using assms by (auto simp: sized_features_def)
  from feature_entries [OF True this] show ?thesis by (simp add: features_stream_def True)
next
  case False
  then show ?thesis
    using assms u64_le_append [of "length fs" "length gs"]
    by (auto simp: features_stream_def sized_features_def dest: list_all2_lengthD)
qed

context chrono_laws
begin

lemma timestamp_millis_bounds:
  assumes "regular C t" shows "in_i64 (timestamp_millis C t)"
proof -
  have "to_ns (min_utc C) \<le> to_ns t" "to_ns t \<le> to_ns (max_utc C)" "no_leap t"
    using assms range_no_leap less_eq_to_ns unfolding regular_def by blast+
  then have "- i64_max * 1000000 \<le> to_ns t" "to_ns t \<le> i64_max * 1000000" "no_leap t"
    using range_ms by simp_all
  then have bounds: "- i64_max * 1000000 \<le> to_ns t" "to_ns t \<le> i64_max * 1000000"
    and q: "timestamp_millis C t = to_ns t div 1000000" by (simp_all add: timestamp_millis)
  have "- i64_max \<le> to_ns t div 1000000" using zdiv_mono1 [OF bounds(1), of 1000000] by simp
  moreover have "to_ns t div 1000000 \<le> i64_max" using zdiv_mono1 [OF bounds(2), of 1000000] by simp
  ultimately have "- i64_max \<le> timestamp_millis C t" "timestamp_millis C t \<le> i64_max" by (simp_all add: q)
  then show ?thesis by (simp add: in_i64_def int_limits)
qed

end

lemma timestamps_stream_eq:
  assumes C: "chrono_laws C dim tod" and ts: "\<forall>t \<in> set ts \<union> set us. storable C t"
    and len: "length ts \<le> usize_max" "length us \<le> usize_max"
  shows "timestamps_stream C ts = timestamps_stream C us \<longleftrightarrow> ts = us"
proof
  assume eq: "timestamps_stream C ts = timestamps_stream C us"
  then have l: "length ts = length us"
    and "concat (map i64_le (to_millis C ts)) @ [] = concat (map i64_le (to_millis C us)) @ []"
    using u64_le_append [OF len] by (simp_all add: timestamps_stream_def)
  then have m: "map i64_le (to_millis C ts) = map i64_le (to_millis C us)"
    using concat_inject_uniform [of "to_millis C ts" "to_millis C us" i64_le 8 "[]" "[]"]
    by (simp add: to_millis_def)
  have b: "in_i64 v" if "v \<in> set (to_millis C ts) \<union> set (to_millis C us)" for v
    using that ts chrono_laws.timestamp_millis_bounds [OF C storable_regular] by (auto simp: to_millis_def)
  have "to_millis C ts = to_millis C us"
    by (rule map_inj_on [OF m]) (use b i64_le_inject in \<open>auto simp: inj_on_def\<close>)
  then have "from_millis C (to_millis C ts) = from_millis C (to_millis C us)" by simp
  then show "ts = us" using chrono_laws.from_to_millis [OF C] ts by simp
qed simp

section \<open>Hexadecimal round trip\<close>

lemma HEX_digit:
  assumes "n < 16"
  shows "to_digit16 (word_of_nat (code_of (HEX ! n))) = Some n \<and> code_of (HEX ! n) < 128"
proof -
  have "list_all (\<lambda>n. to_digit16 (word_of_nat (code_of (HEX ! n))) = Some n \<and> code_of (HEX ! n) < 128) [0..<16]"
    by code_simp
  with assms show ?thesis by (simp add: list_all_iff)
qed

lemma length_hash_hex: "length (hash_hex h) = 2 * length h"
  by (induction h) (simp_all add: hash_hex_def)

lemma utf8_ascii: "\<forall>c \<in> set s. code_of c < 128 \<Longrightarrow> utf8 s = map (\<lambda>c. word_of_nat (code_of c)) s"
  by (induction s) (simp_all add: utf8_def utf8_char_def)

lemma nibbles:
  "unat (drop_bit 4 b) < 16" "unat (b AND 0x0F) < 16" "word_of_nat (unat (drop_bit 4 b) * 16 + unat (b AND 0x0F)) = b"
  for b :: byte
proof -
  have hi: "unat (drop_bit 4 b) = unat b div 16" by (simp add: drop_bit_eq_div unat_div_distrib)
  have "b AND 0x0F = take_bit 4 b" by (simp add: take_bit_eq_mask mask_numeral)
  then have lo: "unat (b AND 0x0F) = unat b mod 16" by (simp add: take_bit_eq_mod unat_mod_distrib)
  show "unat (drop_bit 4 b) < 16" "unat (b AND 0x0F) < 16"
    unfolding hi lo using unat_byte_less [of b] by (simp_all add: less_mult_imp_div_less)
  have "unat b div 16 * 16 + unat b mod 16 = unat b" by simp
  then show "word_of_nat (unat (drop_bit 4 b) * 16 + unat (b AND 0x0F)) = b" unfolding hi lo by simp
qed

lemma hash_hex_ascii: "c \<in> set (hash_hex h) \<Longrightarrow> code_of c < 128"
  using HEX_digit nibbles by (auto simp: hash_hex_def)

lemma hex_pairs_hash_hex: "hex_pairs (map (\<lambda>c. word_of_nat (code_of c)) (hash_hex h)) = Some h"
proof (induction h)
  case Nil
  then show ?case by (simp add: hash_hex_def)
next
  case (Cons b h)
  have "hash_hex (b # h) = HEX ! unat (drop_bit 4 b) # HEX ! unat (b AND 0x0F) # hash_hex h"
    by (simp add: hash_hex_def)
  then show ?case
    using Cons HEX_digit [OF nibbles(1), of b] HEX_digit [OF nibbles(2), of b] nibbles(3) [of b] by simp
qed

lemma hash_from_hex_hash_hex:
  assumes "length h = 32" shows "hash_from_hex (hash_hex h) = Some h"
proof -
  have "utf8 (hash_hex h) = map (\<lambda>c. word_of_nat (code_of c)) (hash_hex h)"
    by (rule utf8_ascii) (use hash_hex_ascii in blast)
  then show ?thesis using assms hex_pairs_hash_hex by (simp add: hash_from_hex_def length_hash_hex)
qed

lemma hash_hex_inject: "length h = 32 \<Longrightarrow> length k = 32 \<Longrightarrow> hash_hex h = hash_hex k \<longleftrightarrow> h = k"
  by (metis hash_from_hex_hash_hex option.inject)

lemma hex_pairs_length: "hex_pairs bs = Some h \<Longrightarrow> even (length bs) \<Longrightarrow> length h = length bs div 2"
  by (induction bs arbitrary: h rule: hex_pairs.induct) (auto simp: bind_eq_Some_conv)

lemma hash_from_hex_length: "hash_from_hex s = Some h \<Longrightarrow> length h = 32"
  using hex_pairs_length [of "utf8 s" h] by (auto simp: hash_from_hex_def Let_def split: if_splits)

section \<open>Properties\<close>

text \<open>C10: the run-based hashing loop feeds the hasher exactly the elements in order with every NaN
  replaced by the canonical one and a trailing partial element left out, for every element width.\<close>

theorem update_canonical_nans_correct:
  assumes "0 < N"
  shows "update_canonical_nans N bs canonical_nan is_nan =
    concat (map (\<lambda>c. if is_nan c then canonical_nan else c) (chunks_exact N bs))"
  using assms by (rule update_canonical_nans_chunks)

theorem update_canonical_nans_correct_witness:
  "update_canonical_nans 2 [1, 2, 9, 9, 3, 4, 9, 9, 7] [0, 0] (\<lambda>c. hd c = 9) = [1, 2, 0, 0, 3, 4, 0, 0]"
  by (subst update_canonical_nans_correct) (simp_all add: chunks_exact_def segment_def upt_rec)

text \<open>C9: the stream an array is hashed from determines the array: for two arrays whose shapes are
  machine integers it is the same exactly when element type, shape and elements are the same, floats
  compared by bits with all NaNs as one. Two arrays share a content hash without a SHA-256
  collision exactly then.\<close>

theorem array_stream_identity:
  assumes "length (shape a) \<le> usize_max" "length (shape b) \<le> usize_max"
    and "\<forall>n \<in> set (shape a) \<union> set (shape b). n \<le> usize_max"
  shows "array_stream a = array_stream b \<longleftrightarrow>
    arr_dtype a = arr_dtype b \<and> shape a = shape b \<and> same_elements a b"
proof -
  have "array_stream a = array_stream b \<longleftrightarrow> arr_dtype a = arr_dtype b \<and> length (shape a) = length (shape b) \<and>
      concat (map u64_le (shape a)) @ array_payload a = concat (map u64_le (shape b)) @ array_payload b"
    by (simp add: array_stream_def dtype_stream_append [simplified] u64_le_eq assms(1,2))
  also have "\<dots> \<longleftrightarrow> arr_dtype a = arr_dtype b \<and> shape a = shape b \<and> array_payload a = array_payload b"
    using u64_les_append [of "shape a" "shape b" "array_payload a" "array_payload b"] assms(3) by auto
  also have "\<dots> \<longleftrightarrow> arr_dtype a = arr_dtype b \<and> shape a = shape b \<and> same_elements a b"
    using payload_eq by blast
  finally show ?thesis .
qed

theorem array_stream_identity_witness:
  "array_stream \<lparr>arr_dtype = U8, shape = [2], bytes = [1, 2]\<rparr> \<noteq>
   array_stream \<lparr>arr_dtype = U8, shape = [2, 1], bytes = [1, 2]\<rparr>"
  by (subst array_stream_identity) (simp_all add: usize_max_def)

text \<open>The streams of feature maps and of timestamp vectors determine what they encode: two feature
  maps give the same stream exactly when they have the same keys with equal values (the equality of
  feature values, not IEEE equality), and two storable timestamp vectors exactly when they are the
  same vector.\<close>

lemma metadata_streams_identity:
  assumes "sized_features fs" "sized_features gs"
    and "chrono_laws C dim tod" "\<forall>t \<in> set ts \<union> set us. storable C t" "length ts \<le> usize_max" "length us \<le> usize_max"
  shows "(features_stream fs = features_stream gs \<longleftrightarrow>
      list_all2 (\<lambda>f g. fst f = fst g \<and> feature_eq (snd f) (snd g)) fs gs) \<and>
    (timestamps_stream C ts = timestamps_stream C us \<longleftrightarrow> ts = us)"
  using features_stream_eq [OF assms(1,2)] timestamps_stream_eq [OF assms(3-6)] by blast

text \<open>The hexadecimal form of a 32-byte hash reads back as the hash, and whatever
  \<open>hash_from_hex\<close> accepts is a 32-byte hash.\<close>

lemma hash_hex_roundtrip:
  "(length h = 32 \<longrightarrow> hash_from_hex (hash_hex h) = Some h) \<and> (hash_from_hex s = Some k \<longrightarrow> length k = 32)"
  using hash_from_hex_hash_hex hash_from_hex_length by blast

lemma hash_hex_roundtrip_witness:
  "hash_from_hex (hash_hex (replicate 32 0xA7)) = Some (replicate 32 0xA7)"
  using hash_hex_roundtrip [of "replicate 32 0xA7"] by simp

end
