(* ===== verification/Metadata.thy ===== *)
theory Metadata
  imports TimeSeries Hash "HOL-Library.Multiset"
begin

text \<open>
  The catalog row \<open>TimeSeriesMetadata\<close> of \<open>crates/infrastore-core/src/types/metadata.rs\<close> with the
  rules its features are held to, the identity tuple of \<open>types/key.rs\<close>, and the derived orders of
  the types rows are sorted by. A name or any other string is ordered by its UTF-8 bytes.
\<close>

section \<open>Derived orders\<close>

text \<open>\<open>#[derive(Ord)]\<close> compares variants in declaration order, then their fields.\<close>

instantiation dtype :: linorder
begin

definition less_eq_dtype :: "dtype \<Rightarrow> dtype \<Rightarrow> bool" where "less_eq_dtype a b \<longleftrightarrow> dtype_code a \<le> dtype_code b"
definition less_dtype :: "dtype \<Rightarrow> dtype \<Rightarrow> bool" where "less_dtype a b \<longleftrightarrow> dtype_code a < dtype_code b"

instance
proof
  have inj: "dtype_code a = dtype_code b \<Longrightarrow> a = b" for a b by (cases a; cases b; simp)
  show "a \<le> b \<Longrightarrow> b \<le> a \<Longrightarrow> a = b" for a b :: dtype by (intro inj) (simp add: less_eq_dtype_def)
qed (auto simp: less_eq_dtype_def less_dtype_def)

end

fun element_type_rank :: "element_type \<Rightarrow> nat \<times> nat \<times> int" where
  "element_type_rank (ScalarOf d) = (0, 0, dtype_code d)"
| "element_type_rank (TupleOf arity d) = (1, arity, dtype_code d)"
| "element_type_rank LinearFunctionType = (2, 0, 0)"
| "element_type_rank QuadraticFunctionType = (3, 0, 0)"
| "element_type_rank PiecewiseLinearType = (4, 0, 0)"
| "element_type_rank PiecewiseStepType = (5, 0, 0)"

fun rank_less :: "nat \<times> nat \<times> int \<Rightarrow> nat \<times> nat \<times> int \<Rightarrow> bool" where
  "rank_less (a, b, c) (a', b', c') \<longleftrightarrow> a < a' \<or> a = a' \<and> (b < b' \<or> b = b' \<and> c < c')"

lemma element_type_rank_inject: "element_type_rank t = element_type_rank u \<Longrightarrow> t = u"
proof -
  have "dtype_code a = dtype_code b \<Longrightarrow> a = b" for a b by (cases a; cases b; simp)
  then show "element_type_rank t = element_type_rank u \<Longrightarrow> t = u" by (cases t; cases u; simp)
qed

instantiation element_type :: linorder
begin

definition less_element_type :: "element_type \<Rightarrow> element_type \<Rightarrow> bool" where
  "less_element_type t u \<longleftrightarrow> rank_less (element_type_rank t) (element_type_rank u)"
definition less_eq_element_type :: "element_type \<Rightarrow> element_type \<Rightarrow> bool" where
  "less_eq_element_type t u \<longleftrightarrow> t = u \<or> t < u"

instance
proof
  have tri: "rank_less r s \<or> r = s \<or> rank_less s r" for r s by (cases r; cases s) auto
  have irr: "rank_less r s \<Longrightarrow> \<not> rank_less s r" for r s by (cases r; cases s) auto
  have tr: "rank_less r s \<Longrightarrow> rank_less s q \<Longrightarrow> rank_less r q" for r s q by (cases r; cases s; cases q) auto
  fix x y z :: element_type
  show "(x < y) = (x \<le> y \<and> \<not> y \<le> x)"
    using irr [of "element_type_rank x" "element_type_rank y"] irr [of "element_type_rank x" "element_type_rank x"]
    by (auto simp: less_eq_element_type_def less_element_type_def)
  show "x \<le> y \<Longrightarrow> y \<le> z \<Longrightarrow> x \<le> z"
    using tr [of "element_type_rank x" "element_type_rank y" "element_type_rank z"] by (auto simp: less_eq_element_type_def less_element_type_def)
  show "x \<le> y \<Longrightarrow> y \<le> x \<Longrightarrow> x = y"
    using irr [of "element_type_rank x" "element_type_rank y"] by (auto simp: less_eq_element_type_def less_element_type_def)
  show "x \<le> y \<or> y \<le> x"
    using tri [of "element_type_rank x" "element_type_rank y"] element_type_rank_inject [of x y]
    by (auto simp: less_eq_element_type_def less_element_type_def)
qed (simp add: less_eq_element_type_def)

end

fun cmp_list :: "('a \<Rightarrow> 'a \<Rightarrow> ordering) \<Rightarrow> 'a list \<Rightarrow> 'a list \<Rightarrow> ordering" where
  "cmp_list c [] [] = EqualTo"
| "cmp_list c [] (_ # _) = LessThan"
| "cmp_list c (_ # _) [] = GreaterThan"
| "cmp_list c (x # xs) (y # ys) = then_with (c x y) (cmp_list c xs ys)"

definition cmp_pair :: "('a \<Rightarrow> 'a \<Rightarrow> ordering) \<Rightarrow> ('b \<Rightarrow> 'b \<Rightarrow> ordering) \<Rightarrow> 'a \<times> 'b \<Rightarrow> 'a \<times> 'b \<Rightarrow> ordering" where
  "cmp_pair c d p q = then_with (c (fst p) (fst q)) (d (snd p) (snd q))"

text \<open>\<open>BTreeMap\<close> orders by its entries in key order.\<close>

definition cmp_features :: "features \<Rightarrow> features \<Rightarrow> ordering" where
  "cmp_features = cmp_list (cmp_pair cmp_bytes feature_cmp)"

definition cmp_on :: "('a \<Rightarrow> 'b) \<Rightarrow> ('b \<Rightarrow> 'b \<Rightarrow> ordering) \<Rightarrow> 'a \<Rightarrow> 'a \<Rightarrow> ordering" where
  "cmp_on f c x y = c (f x) (f y)"

section \<open>Catalog rows\<close>

record ts_metadata =
  m_owner_id :: int
  m_owner_type :: string
  m_owner_category :: owner_category
  m_type :: time_series_type
  m_name :: string
  m_data_hash :: hash
  m_initial_timestamp :: "datetime option"
  m_resolution :: "period option"
  m_length :: "nat option"
  m_horizon :: "period option"
  m_interval :: "period option"
  m_count :: "nat option"
  m_timestamps :: "datetime list option"
  m_features :: features
  m_units :: "string option"
  m_quantity_kind :: "string option"
  m_unit_system :: "unit_system option"
  m_time_reference :: "time_reference option"
  m_component_field :: "string option"
  m_percentiles :: "64 word list option"
  m_element_type :: element_type
  m_element_shape :: "nat list"
  m_application_data :: "string option"
  m_id :: "int option"

record key_identity =
  k_owner_id :: int
  k_owner_category :: owner_category
  k_type :: time_series_type
  k_name :: string
  k_resolution :: "period option"
  k_interval :: "period option"
  k_features :: features

subsection \<open>Features\<close>

text \<open>A float feature is refused when it is NaN or negative zero. Keys are UTF-8 bytes.\<close>

definition reserved_key :: "byte list \<Rightarrow> bool" where
  "reserved_key k \<longleftrightarrow>
     bisect (\<lambda>s. cmp_bytes (utf8 s) k) RESERVED_FEATURE_NAMES 0 (length RESERVED_FEATURE_NAMES) \<noteq> None"

fun unstorable :: "feature_value \<Rightarrow> bool" where
  "unstorable (FFloat f) \<longleftrightarrow> is_nan64 f \<or> (f = 0x8000000000000000)"
| "unstorable _ \<longleftrightarrow> False"

fun validate_features :: "features \<Rightarrow> unit result" where
  "validate_features [] = Inr ()"
| "validate_features ((key, val) # rest) =
     (if reserved_key key then Inl (InvalidParameter ''feature name is reserved'')
      else if unstorable val then Inl (InvalidParameter ''feature cannot be stored faithfully'')
      else validate_features rest)"

section \<open>Orders are lawful\<close>

context ord_contract
begin

lemma cmp_subst_right: "eqv y z \<Longrightarrow> cmp x y = cmp x z"
  using cmp_subst [of y z x] cmp_reverse [of x y] cmp_reverse [of x z] by (cases "cmp x y"; cases "cmp x z"; simp)

lemma cmp_list_equal: "cmp_list cmp xs ys = EqualTo \<longleftrightarrow> list_all2 eqv xs ys"
proof (induction xs arbitrary: ys)
  case (Cons x xs)
  then show ?case by (cases ys) (simp_all add: then_with_simps cmp_eqv)
qed (case_tac ys; simp)

lemma cmp_list_reverse: "cmp_list cmp ys xs = reverse (cmp_list cmp xs ys)"
proof (induction xs arbitrary: ys)
  case (Cons x xs)
  then show ?case by (cases ys) (simp_all add: then_with_simps(3) cmp_reverse [of _ x])
qed (case_tac ys; simp)

lemma cmp_list_subst: "list_all2 eqv xs ys \<Longrightarrow> cmp_list cmp xs zs = cmp_list cmp ys zs"
proof (induction xs ys arbitrary: zs rule: list_all2_induct)
  case (Cons x xs y ys)
  then show ?case by (cases zs) (simp_all add: cmp_subst [of x y])
qed simp

lemma then_trans:
  assumes "then_with (cmp x y) c = LessThan" "then_with (cmp y z) d = LessThan"
    and "c = LessThan \<Longrightarrow> d = LessThan \<Longrightarrow> f = LessThan"
  shows "then_with (cmp x z) f = LessThan"
proof -
  consider "cmp x y = LessThan" "cmp y z = LessThan" | "cmp x y = LessThan" "eqv y z"
    | "eqv x y" "cmp y z = LessThan" | "eqv x y" "eqv y z" "f = LessThan"
    using assms by (auto simp: then_with_simps cmp_eqv)
  then show ?thesis
  proof cases
    case 1
    then show ?thesis by (simp add: cmp_trans)
  next
    case 2
    then show ?thesis using cmp_subst_right [of y z x] by simp
  next
    case 3
    then show ?thesis using cmp_subst [of x y z] by simp
  next
    case 4
    then show ?thesis using cmp_subst [of x y z] by (simp add: cmp_eqv [symmetric])
  qed
qed

lemma cmp_list_trans:
  "cmp_list cmp xs ys = LessThan \<Longrightarrow> cmp_list cmp ys zs = LessThan \<Longrightarrow> cmp_list cmp xs zs = LessThan"
proof (induction xs arbitrary: ys zs)
  case Nil
  then show ?case by (cases ys; cases zs) simp_all
next
  case (Cons x xs)
  then obtain y ys' z zs' where yz: "ys = y # ys'" "zs = z # zs'" by (cases ys; cases zs) auto
  show ?case
    using then_trans [of x y "cmp_list cmp xs ys'" z "cmp_list cmp ys' zs'" "cmp_list cmp xs zs'"] Cons.prems Cons.IH
    by (simp add: yz)
qed

lemma list_contract: "ord_contract (cmp_list cmp) (list_all2 eqv)"
  using cmp_list_equal cmp_list_reverse cmp_list_subst cmp_list_trans by (intro ord_contract.intro)

lemma on_contract: "ord_contract (cmp_on f cmp) (\<lambda>x y. eqv (f x) (f y))"
  unfolding cmp_on_def using cmp_eqv cmp_reverse cmp_trans cmp_subst by (intro ord_contract.intro)

end

lemma then_contract:
  assumes "ord_contract c e" "ord_contract d e'"
  shows "ord_contract (\<lambda>x y. then_with (c x y) (d x y)) (\<lambda>x y. e x y \<and> e' x y)"
proof (rule ord_contract.intro)
  show "then_with (c x y) (d x y) = EqualTo \<longleftrightarrow> e x y \<and> e' x y" for x y
    by (simp add: then_with_simps ord_contract.cmp_eqv [OF assms(1)] ord_contract.cmp_eqv [OF assms(2)])
  show "then_with (c y x) (d y x) = reverse (then_with (c x y) (d x y))" for x y
    unfolding then_with_simps(3)
    using ord_contract.cmp_reverse [OF assms(1), of y x] ord_contract.cmp_reverse [OF assms(2), of y x] by simp
  show "then_with (c x z) (d x z) = LessThan"
    if "then_with (c x y) (d x y) = LessThan" "then_with (c y z) (d y z) = LessThan" for x y z
    using that by (rule ord_contract.then_trans [OF assms(1)]) (rule ord_contract.cmp_trans [OF assms(2)])
  show "then_with (c x z) (d x z) = then_with (c y z) (d y z)" if "e x y \<and> e' x y" for x y z
    using that ord_contract.cmp_subst [OF assms(1), of x y z] ord_contract.cmp_subst [OF assms(2), of x y z] by simp
qed

lemma pair_contract:
  assumes "ord_contract c e" "ord_contract d e'"
  shows "ord_contract (cmp_pair c d) (\<lambda>p q. e (fst p) (fst q) \<and> e' (snd p) (snd q))"
proof -
  have eq: "cmp_pair c d = (\<lambda>x y. then_with (cmp_on fst c x y) (cmp_on snd d x y))"
    by (simp add: fun_eq_iff cmp_pair_def cmp_on_def)
  show ?thesis unfolding eq
    by (rule then_contract [OF ord_contract.on_contract [OF assms(1), of fst] ord_contract.on_contract [OF assms(2), of snd]])
qed

definition features_eqv :: "features \<Rightarrow> features \<Rightarrow> bool" where
  "features_eqv = list_all2 (\<lambda>p q. fst p = fst q \<and> feature_eq (snd p) (snd q))"

interpretation features_order: ord_contract cmp_features features_eqv
  unfolding cmp_features_def features_eqv_def
  by (intro ord_contract.list_contract pair_contract bytes_cmp.ord_contract_axioms feature.ord_contract_axioms)


section \<open>Stable sorting\<close>

text \<open>\<open>slice::sort_by\<close>: stable, by a comparison function.\<close>

fun insert_by :: "('a \<Rightarrow> 'a \<Rightarrow> ordering) \<Rightarrow> 'a \<Rightarrow> 'a list \<Rightarrow> 'a list" where
  "insert_by c x [] = [x]"
| "insert_by c x (y # ys) = (if c x y = GreaterThan then y # insert_by c x ys else x # y # ys)"

definition sort_by :: "('a \<Rightarrow> 'a \<Rightarrow> ordering) \<Rightarrow> 'a list \<Rightarrow> 'a list" where
  "sort_by c xs = foldr (insert_by c) xs []"

lemma mset_insert_by [simp]: "mset (insert_by c x ys) = add_mset x (mset ys)"
  by (induction ys) simp_all

lemma mset_sort_by [simp]: "mset (sort_by c xs) = mset xs"
  by (induction xs) (simp_all add: sort_by_def)

lemma set_sort_by [simp]: "set (sort_by c xs) = set xs"
  by (metis mset_sort_by set_mset_mset)

lemma length_sort_by [simp]: "length (sort_by c xs) = length xs"
  by (metis mset_sort_by size_mset)

context ord_contract
begin

lemma sorted_insert_by:
  "sorted_wrt (\<lambda>a b. cmp a b \<noteq> GreaterThan) ys \<Longrightarrow> sorted_wrt (\<lambda>a b. cmp a b \<noteq> GreaterThan) (insert_by cmp x ys)"
proof (induction ys)
  case (Cons y ys)
  have set: "set (insert_by cmp x ys) = insert x (set ys)" by (metis mset_insert_by set_mset_mset set_mset_add_mset_insert)
  show ?case
  proof (cases "cmp x y = GreaterThan")
    case True
    then have "cmp y x \<noteq> GreaterThan" using cmp_reverse [of x y] by (cases "cmp y x") simp_all
    with True Cons set show ?thesis by auto
  next
    case False
    then have "cmp x z \<noteq> GreaterThan" if "z \<in> set ys" for z
      using Cons.prems that cmp_trans_le [of x y z] by simp
    with False Cons.prems show ?thesis by simp
  qed
qed simp

lemma sorted_sort_by: "sorted_wrt (\<lambda>a b. cmp a b \<noteq> GreaterThan) (sort_by cmp xs)"
  by (induction xs) (simp_all add: sort_by_def sorted_insert_by)

lemma sorted_unique:
  assumes "sorted_wrt (\<lambda>a b. cmp a b \<noteq> GreaterThan) xs" "sorted_wrt (\<lambda>a b. cmp a b \<noteq> GreaterThan) ys"
    and "mset xs = mset ys" "\<And>a b. a \<in> set xs \<Longrightarrow> b \<in> set xs \<Longrightarrow> cmp a b = EqualTo \<Longrightarrow> a = b"
  shows "xs = ys"
  using assms
proof (induction xs arbitrary: ys)
  case (Cons x xs)
  then obtain y ys' where ys: "ys = y # ys'" by (cases ys) simp_all
  have sets: "set (x # xs) = set (y # ys')" using Cons.prems(3) ys by (metis set_mset_mset)
  have "x = y"
  proof (rule ccontr)
    assume "x \<noteq> y"
    then have "x \<in> set ys'" "y \<in> set xs" using sets by auto
    then have "cmp y x \<noteq> GreaterThan" "cmp x y \<noteq> GreaterThan" using Cons.prems(1,2) ys by auto
    then have "cmp x y = EqualTo" using cmp_reverse [of x y] by (cases "cmp x y"; cases "cmp y x"; simp)
    then show False using Cons.prems(4) [of x y] \<open>y \<in> set xs\<close> \<open>x \<noteq> y\<close> by simp
  qed
  then show ?case using Cons ys by simp
qed simp

lemma sort_by_unique:
  assumes "mset xs = mset ys" "\<And>a b. a \<in> set xs \<Longrightarrow> b \<in> set xs \<Longrightarrow> cmp a b = EqualTo \<Longrightarrow> a = b"
  shows "sort_by cmp xs = sort_by cmp ys"
  using assms by (intro sorted_unique sorted_sort_by) simp_all

end

end
