(* ===== verification/ReadWindow.thy ===== *)
theory ReadWindow
  imports Metadata
begin

text \<open>
  \<open>ReadWindow\<close> of \<open>crates/infrastore-core/src/store.rs\<close>: the slice of one series a read asks for, in
  steps or forecast windows, and its resolution to a time range on the row's own grid. A window is
  checked where a range is clamped. \<open>contextualize_read_window_error\<close> only rewords a message, which
  is not modelled.
\<close>

record read_window_request =
  rw_start :: "datetime option"
  rw_zoneless :: bool
  rw_len :: "nat option"
  rw_count :: "nat option"

definition rw_full :: read_window_request where
  "rw_full = \<lparr>rw_start = None, rw_zoneless = False, rw_len = None, rw_count = None\<rparr>"

definition rw_from :: "datetime \<Rightarrow> read_window_request" where
  "rw_from start = rw_full\<lparr>rw_start := Some start\<rparr>"

definition rw_with_len :: "nat \<Rightarrow> read_window_request \<Rightarrow> read_window_request" where
  "rw_with_len n w = w\<lparr>rw_len := Some n\<rparr>"

definition rw_with_count :: "nat \<Rightarrow> read_window_request \<Rightarrow> read_window_request" where
  "rw_with_count n w = w\<lparr>rw_count := Some n\<rparr>"

definition rw_is_full :: "read_window_request \<Rightarrow> bool" where
  "rw_is_full w \<longleftrightarrow> rw_start w = None \<and> rw_len w = None \<and> rw_count w = None"

definition required_field :: "'a option \<Rightarrow> string \<Rightarrow> 'a result" where
  "required_field x field = ok_or x (IntegrityError (''missing '' @ field))"

definition reject_count :: "read_window_request \<Rightarrow> unit result" where
  "reject_count w =
     (case rw_count w of
        None \<Rightarrow> Inr ()
      | Some _ \<Rightarrow> Inl (InvalidParameter ''count selects forecast windows''))"

definition reject_len :: "read_window_request \<Rightarrow> unit result" where
  "reject_len w =
     (case rw_len w of
        None \<Rightarrow> Inr ()
      | Some _ \<Rightarrow> Inl (InvalidParameter ''len selects timesteps''))"

text \<open>Every caller has resolved \<open>start_idx\<close> below \<open>stored_len\<close>, so the difference is exact.\<close>

definition window_extent :: "nat option \<Rightarrow> nat \<Rightarrow> nat \<Rightarrow> nat result" where
  "window_extent requested start_idx stored_len =
     (let remaining = stored_len - start_idx; n = (case requested of None \<Rightarrow> remaining | Some n \<Rightarrow> n)
      in if n = 0 then Inl (InvalidParameter ''a read selects at least one'')
         else if remaining < n then Inl (InvalidParameter ''past the end of the stored'')
         else Inr n)"

definition rw_range :: "read_window_request \<Rightarrow> ts_metadata \<Rightarrow> datetime \<Rightarrow> datetime \<Rightarrow> time_range" where
  "rw_range w m start until =
     range_spelled start until
       (case rw_start w of
          Some _ \<Rightarrow> rw_zoneless w
        | None \<Rightarrow> \<not> accepts_zoned_bound (m_time_reference m))"

text \<open>\<open>checked_add_signed(Duration::milliseconds(1))\<close>\<close>

definition next_milli :: "chrono \<Rightarrow> datetime \<Rightarrow> datetime option" where
  "next_milli C t = Option.bind (try_milliseconds C 1) (checked_add_signed C t)"

definition resolve_single :: "chrono \<Rightarrow> read_window_request \<Rightarrow> ts_metadata \<Rightarrow> time_range result" where
  "resolve_single C w m =
     rbind (reject_count w) (\<lambda>_.
     rbind (required_field (m_initial_timestamp m) ''initial_timestamp'') (\<lambda>initial.
     rbind (required_field (m_resolution m) ''resolution'') (\<lambda>res.
     rbind (required_field (m_length m) ''length'') (\<lambda>len.
       let start = (case rw_start w of None \<Rightarrow> initial | Some t \<Rightarrow> t)
       in rbind (steps_between C res initial start) (\<lambda>start_idx.
          if len \<le> start_idx then Inl (InvalidParameter ''start_time is past the last timestep'')
          else rbind (window_extent (rw_len w) start_idx len) (\<lambda>n.
               rbind (ok_or (add_to C res start (as_i64 n)) (IntegrityError ''window end timestamp overflow'')) (\<lambda>until.
                 Inr (rw_range w m start until))))))))"

definition resolve_non_sequential :: "chrono \<Rightarrow> read_window_request \<Rightarrow> ts_metadata \<Rightarrow> time_range result" where
  "resolve_non_sequential C w m =
     rbind (reject_count w) (\<lambda>_.
     rbind (required_field (m_timestamps m) ''timestamps'') (\<lambda>ts.
       let stored_len = length ts
       in if stored_len = 0 then Inl (InvalidParameter ''cannot select a window of an empty series'')
          else
            let start = (case rw_start w of None \<Rightarrow> ts ! 0 | Some t \<Rightarrow> t);
                start_idx = partition_point (\<lambda>t. t < start) ts
            in if stored_len \<le> start_idx \<or> ts ! start_idx \<noteq> start
               then Inl (InvalidParameter ''start_time is not one of the timestamps'')
               else rbind (window_extent (rw_len w) start_idx stored_len) (\<lambda>n.
                    rbind (if start_idx + n < stored_len then Inr (ts ! (start_idx + n))
                           else ok_or (next_milli C (ts ! (stored_len - 1)))
                                  (IntegrityError ''window end timestamp overflow'')) (\<lambda>until.
                      Inr (rw_range w m start until)))))"

definition resolve_forecast :: "chrono \<Rightarrow> read_window_request \<Rightarrow> ts_metadata \<Rightarrow> time_range result" where
  "resolve_forecast C w m =
     rbind (reject_len w) (\<lambda>_.
     rbind (required_field (m_initial_timestamp m) ''initial_timestamp'') (\<lambda>initial.
     rbind (required_field (m_interval m) ''interval'') (\<lambda>itv.
     rbind (required_field (m_count m) ''count'') (\<lambda>stored.
       let start = (case rw_start w of None \<Rightarrow> initial | Some t \<Rightarrow> t)
       in rbind (if is_zero itv
                 then if start \<noteq> initial
                      then Inl (InvalidParameter ''forecast start_time must align to a window boundary'')
                      else Inr 0
                 else steps_between C itv initial start) (\<lambda>start_idx.
          if stored \<le> start_idx then Inl (InvalidParameter ''start_time is past the last window'')
          else rbind (window_extent (rw_count w) start_idx stored) (\<lambda>n.
               rbind (ok_or (if is_zero itv then next_milli C start else add_to C itv start (as_i64 n))
                        (IntegrityError ''window end timestamp overflow'')) (\<lambda>until.
                 Inr (rw_range w m start until))))))))"

definition rw_resolve :: "chrono \<Rightarrow> read_window_request \<Rightarrow> ts_metadata \<Rightarrow> time_range option result" where
  "rw_resolve C w m =
     (if rw_is_full w then Inr None
      else rbind
        (case m_type m of
           SingleTimeSeries \<Rightarrow> resolve_single C w m
         | NonSequentialTimeSeries \<Rightarrow> resolve_non_sequential C w m
         | PersistentTimeSeries \<Rightarrow> resolve_non_sequential C w m
         | Deterministic \<Rightarrow> resolve_forecast C w m
         | DeterministicSingleTimeSeries \<Rightarrow> resolve_forecast C w m
         | Probabilistic \<Rightarrow> resolve_forecast C w m
         | Scenarios \<Rightarrow> resolve_forecast C w m)
        (\<lambda>rng. Inr (Some rng)))"

end
