(* ===== verification/PeriodText.thy ===== *)
theory PeriodText
  imports Period Gregorian
begin

text \<open>
  The ISO-8601 encoding of \<open>crates/infrastore-core/src/types/period.rs\<close>: \<open>to_iso8601\<close>,
  \<open>from_iso8601\<close> and their helpers, with the proof that the second inverts the first.
\<close>

section \<open>Rendering\<close>

definition show_unit :: "int \<Rightarrow> string \<Rightarrow> string" where
  "show_unit n u = (if 0 < n then show_nat (nat n) @ u else [])"

definition pad3 :: "nat \<Rightarrow> string" where
  "pad3 n = [digit_char (n div 100 mod 10), digit_char (n div 10 mod 10), digit_char (n mod 10)]"

definition show_seconds :: "int \<Rightarrow> int \<Rightarrow> string" where
  "show_seconds secs millis =
     (if 0 < secs \<or> 0 < millis
      then if 0 < millis
        then show_nat (nat secs) @ ''.'' @ trim_end_zeros (pad3 (nat millis)) @ ''S''
        else show_nat (nat secs) @ ''S''
      else [])"

definition months_to_iso :: "int \<Rightarrow> string" where
  "months_to_iso m =
     (let sign = (if m < 0 then ''-'' else []); a = nat \<bar>m\<bar>
      in if a \<noteq> 0 \<and> a mod 12 = 0
         then sign @ ''P'' @ show_nat (a div 12) @ ''Y''
         else sign @ ''P'' @ show_nat a @ ''M'')"

definition render_fixed :: "string \<Rightarrow> int \<Rightarrow> int \<Rightarrow> int \<Rightarrow> int \<Rightarrow> int \<Rightarrow> string" where
  "render_fixed sign days hours mins secs millis =
     (let date = show_unit days ''D'';
          time = show_unit hours ''H'' @ show_unit mins ''M'' @ show_seconds secs millis;
          out = sign @ ''P'' @ date
      in if time \<noteq> [] then out @ ''T'' @ time
         else if date = [] then out @ ''T0S'' else out)"

definition fixed_to_iso :: "int \<Rightarrow> string" where
  "fixed_to_iso ms0 =
     (let sign = (if ms0 < 0 then ''-'' else []);
          ms1 = \<bar>ms0\<bar>;
          days = ms1 div MS_PER_DAY; ms2 = ms1 mod MS_PER_DAY;
          hours = ms2 div MS_PER_HOUR; ms3 = ms2 mod MS_PER_HOUR;
          mins = ms3 div MS_PER_MIN; ms4 = ms3 mod MS_PER_MIN;
          secs = ms4 div MS_PER_SEC; millis = ms4 mod MS_PER_SEC
      in render_fixed sign days hours mins secs millis)"

definition to_iso8601 :: "chrono \<Rightarrow> period \<Rightarrow> string" where
  "to_iso8601 C p =
     (case p of Months m \<Rightarrow> months_to_iso m | Fixed d \<Rightarrow> fixed_to_iso (num_milliseconds C d))"

section \<open>Parsing\<close>

text \<open>The loop of \<open>parse_components\<close>; \<open>num\<close> is its accumulator.\<close>

fun parse_components_from :: "string \<Rightarrow> string \<Rightarrow> (string \<times> char) list option" where
  "parse_components_from num [] = (if num = [] then Some [] else None)"
| "parse_components_from num (ch # s) =
     (if is_ascii_digit ch \<or> ch = CHR ''.'' then parse_components_from (num @ [ch]) s
      else if is_ascii_alphabetic ch
      then if num = [] then None
        else map_option (\<lambda>out. (num, to_ascii_uppercase ch) # out) (parse_components_from [] s)
      else None)"

definition parse_components :: "string \<Rightarrow> (string \<times> char) list option" where
  "parse_components part = parse_components_from [] part"

definition bad_period :: ts_error where "bad_period = InvalidParameter ''invalid ISO-8601 period''"

definition checked_mul_i64 :: "int \<Rightarrow> int \<Rightarrow> int option" where
  "checked_mul_i64 a b = checked_i64 (a * b)"

definition add_component :: "int \<Rightarrow> int option \<Rightarrow> int result" where
  "add_component tot component =
     ok_or (Option.bind component (\<lambda>c. checked_i64 (tot + c))) bad_period"

definition pad_right3 :: "string \<Rightarrow> string" where
  "pad_right3 s = s @ replicate (3 - length s) (CHR ''0'')"

definition seconds_str_to_ms :: "string \<Rightarrow> int option" where
  "seconds_str_to_ms s =
     (case split_once (CHR ''.'') s of
        None \<Rightarrow> Option.bind (parse_i64 s) (\<lambda>v. checked_mul_i64 v MS_PER_SEC)
      | Some (whole, frac) \<Rightarrow>
          if 3 < length frac \<or> frac = [] then None
          else Option.bind (Option.bind (parse_i64 whole) (\<lambda>v. checked_mul_i64 v MS_PER_SEC))
            (\<lambda>whole_ms. Option.bind (parse_i64 (pad_right3 frac))
              (\<lambda>frac_ms. checked_i64 (whole_ms + frac_ms))))"

record iso_acc =
  acc_months :: int
  acc_ms :: int
  has_calendar :: bool
  has_fixed :: bool

definition iso_acc0 :: iso_acc where
  "iso_acc0 = \<lparr>acc_months = 0, acc_ms = 0, has_calendar = False, has_fixed = False\<rparr>"

definition add_calendar :: "iso_acc \<Rightarrow> int option \<Rightarrow> iso_acc result" where
  "add_calendar a v =
     rbind (add_component (acc_months a) v)
       (\<lambda>t. Inr (a\<lparr>acc_months := t, has_calendar := True\<rparr>))"

definition add_fixed :: "iso_acc \<Rightarrow> int option \<Rightarrow> iso_acc result" where
  "add_fixed a v =
     rbind (add_component (acc_ms a) v) (\<lambda>t. Inr (a\<lparr>acc_ms := t, has_fixed := True\<rparr>))"

definition date_component :: "iso_acc \<Rightarrow> string \<times> char \<Rightarrow> iso_acc result" where
  "date_component a nu =
     (case nu of (num, unit) \<Rightarrow>
        rbind (ok_or (parse_i64 num) bad_period)
          (\<lambda>v. if unit = CHR ''Y'' then add_calendar a (checked_mul_i64 v 12)
            else if unit = CHR ''M'' then add_calendar a (Some v)
            else if unit = CHR ''W'' then add_fixed a (checked_mul_i64 v MS_PER_WEEK)
            else if unit = CHR ''D'' then add_fixed a (checked_mul_i64 v MS_PER_DAY)
            else Inl bad_period))"

definition time_component :: "iso_acc \<Rightarrow> string \<times> char \<Rightarrow> iso_acc result" where
  "time_component a nu =
     (case nu of (num, unit) \<Rightarrow>
        if unit = CHR ''H''
        then rbind (ok_or (parse_i64 num) bad_period)
          (\<lambda>v. add_fixed a (checked_mul_i64 v MS_PER_HOUR))
        else if unit = CHR ''M''
        then rbind (ok_or (parse_i64 num) bad_period)
          (\<lambda>v. add_fixed a (checked_mul_i64 v MS_PER_MIN))
        else if unit = CHR ''S'' then add_fixed a (seconds_str_to_ms num)
        else Inl bad_period)"

text \<open>
  \<open>Duration::milliseconds\<close> panics where \<open>try_milliseconds\<close> gives nothing; the model makes the panic
  an outcome of its own.
\<close>

datatype parse_outcome = Parsed period | ParseErr ts_error | ParsePanic

definition parse_body :: "string \<Rightarrow> iso_acc result" where
  "parse_body body =
     (let (date_part, time_part) =
        (case split_once (CHR ''T'') body of Some (d, t) \<Rightarrow> (d, Some t) | None \<Rightarrow> (body, None))
      in rbind (ok_or (parse_components date_part) bad_period)
        (\<lambda>dc. rbind (rfold date_component iso_acc0 dc)
          (\<lambda>a. case time_part of
             None \<Rightarrow> Inr a
           | Some tp \<Rightarrow> rbind (ok_or (parse_components tp) bad_period) (rfold time_component a))))"

definition from_iso8601 :: "chrono \<Rightarrow> string \<Rightarrow> parse_outcome" where
  "from_iso8601 C s =
     (let trimmed = trim s;
          (negative, unsigned) =
            (case strip_prefix ''-'' trimmed of Some rest \<Rightarrow> (True, rest) | None \<Rightarrow> (False, trimmed))
      in case rbind (ok_or (strip_prefix ''P'' unsigned) bad_period) parse_body of
           Inl e \<Rightarrow> ParseErr e
         | Inr a \<Rightarrow>
             if has_calendar a \<and> has_fixed a then ParseErr (InvalidParameter ''mixes units'')
             else if has_calendar a
             then (case checked_i32 (if negative then - acc_months a else acc_months a) of
                     None \<Rightarrow> ParseErr bad_period | Some m \<Rightarrow> Parsed (Months m))
             else if has_fixed a
             then (case try_milliseconds C (if negative then - acc_ms a else acc_ms a) of
                     None \<Rightarrow> ParsePanic | Some d \<Rightarrow> Parsed (Fixed d))
             else ParseErr bad_period)"

section \<open>Parsing what was rendered\<close>

lemma parse_components_number:
  "list_all (\<lambda>c. is_ascii_digit c \<or> c = CHR ''.'') num \<Longrightarrow>
   parse_components_from acc (num @ s) = parse_components_from (acc @ num) s"
  by (induction num arbitrary: acc) auto

lemma parse_components_item:
  assumes "list_all (\<lambda>c. is_ascii_digit c \<or> c = CHR ''.'') num" "num \<noteq> []" "is_ascii_upper u"
  shows "parse_components (num @ u # s) = map_option (\<lambda>out. (num, u) # out) (parse_components s)"
proof -
  have "\<not> is_ascii_digit u" "u \<noteq> CHR ''.''" "\<not> is_ascii_lower u"
    using assms(3) by (auto simp: is_ascii_upper_def is_ascii_digit_def is_ascii_lower_def code_of_def)
  with assms show ?thesis
    by (simp add: parse_components_def parse_components_number is_ascii_alphabetic_def
        to_ascii_uppercase_def)
qed

lemma list_all_digit_or_dot [simp]:
  "list_all (\<lambda>c. is_ascii_digit c \<or> c = CHR ''.'') (show_nat n)"
  by (simp add: list_all_iff show_nat_digits)

lemma upper_letters [simp]:
  "is_ascii_upper (CHR ''D'')" "is_ascii_upper (CHR ''H'')" "is_ascii_upper (CHR ''M'')"
  "is_ascii_upper (CHR ''S'')" "is_ascii_upper (CHR ''Y'')"
  by (simp_all add: is_ascii_upper_def code_of_def)

lemma parse_components_Nil [simp]: "parse_components [] = Some []"
  by (simp add: parse_components_def)

lemma parse_show_unit:
  "is_ascii_upper u \<Longrightarrow>
   parse_components (show_unit n [u] @ s) =
     (if 0 < n then map_option (\<lambda>out. (show_nat (nat n), u) # out) (parse_components s)
      else parse_components s)"
  by (simp add: show_unit_def parse_components_item)

lemma takeWhile_eq_replicate:
  "takeWhile (\<lambda>c. c = z) s = replicate (length (takeWhile (\<lambda>c. c = z) s)) z"
  by (induction s) auto

lemma pad_right3_trim:
  assumes "length s = 3" shows "pad_right3 (trim_end_zeros s) = s"
proof -
  define z where "z = length (takeWhile (\<lambda>c. c = CHR ''0'') (rev s))"
  have s: "rev s = replicate z (CHR ''0'') @ dropWhile (\<lambda>c. c = CHR ''0'') (rev s)"
    unfolding z_def by (subst takeWhile_eq_replicate [symmetric]) simp
  then have "length s = z + length (dropWhile (\<lambda>c. c = CHR ''0'') (rev s))"
    by (metis length_append length_replicate length_rev)
  with assms have "z = 3 - length (trim_end_zeros s)" by (simp add: trim_end_zeros_def)
  moreover have "s = trim_end_zeros s @ replicate z (CHR ''0'')"
    using arg_cong [OF s, of rev] by (simp add: trim_end_zeros_def)
  ultimately show ?thesis by (simp add: pad_right3_def)
qed

lemma trim_end_zeros_subset: "set (trim_end_zeros s) \<subseteq> set s"
  by (auto simp: trim_end_zeros_def dest: set_dropWhileD)

lemma length_trim_end_zeros: "length (trim_end_zeros s) \<le> length s"
  using length_dropWhile_le [of _ "rev s"] by (simp add: trim_end_zeros_def)

lemma pad3_digits: "set (pad3 n) \<subseteq> {c. is_ascii_digit c}"
  by (simp add: pad3_def)

lemma length_pad3 [simp]: "length (pad3 n) = 3" "pad3 n \<noteq> []"
  by (simp_all add: pad3_def)

lemma digits_value_pad3:
  assumes "n < 1000" shows "digits_value (pad3 n) = n"
proof -
  define m where "m = n div 10"
  have "n div 100 = m div 10" by (simp add: m_def div_mult2_eq [symmetric])
  moreover have "m div 10 < 10" using assms by (simp add: m_def div_mult2_eq [symmetric])
  ultimately have "digits_value (pad3 n) = 10 * (10 * (m div 10) + m mod 10) + n mod 10"
    by (simp add: digits_value_def pad3_def m_def)
  then show ?thesis by (simp add: m_def)
qed

lemma parse_i64_digits:
  "s \<noteq> [] \<Longrightarrow> set s \<subseteq> {c. is_ascii_digit c} \<Longrightarrow> int (digits_value s) \<le> i64_max \<Longrightarrow>
   parse_i64 s = Some (int (digits_value s))"
  using digit_not_sign [of "hd s"]
  by (cases s) (auto simp: parse_i64_def strip_plus_def parse_digits_def list_all_iff in_i64_def i64_min_def)

lemma parse_i64_pad3: "n < 1000 \<Longrightarrow> parse_i64 (pad3 n) = Some (int n)"
  using parse_i64_digits [OF _ pad3_digits, of n]
  by (simp add: digits_value_pad3 i64_max_def)

lemma trim_pad3_nonempty:
  assumes "0 < n" "n < 1000" shows "trim_end_zeros (pad3 n) \<noteq> []"
proof
  assume "trim_end_zeros (pad3 n) = []"
  then have "pad3 n = ''000''"
    using pad_right3_trim [of "pad3 n"] by (simp add: pad_right3_def numeral_3_eq_3)
  then have "digits_value (pad3 n) = 0" by (simp add: digits_value_def code_of_def)
  with assms show False by (simp add: digits_value_pad3)
qed

definition seconds_text :: "nat \<Rightarrow> nat \<Rightarrow> string" where
  "seconds_text secs millis =
     (if 0 < millis then show_nat secs @ ''.'' @ trim_end_zeros (pad3 millis) else show_nat secs)"

lemma digit_not_dot: "is_ascii_digit c \<Longrightarrow> c \<noteq> CHR ''.''"
  by (auto simp: is_ascii_digit_def code_of_def)

lemma dot_notin_show_nat: "CHR ''.'' \<notin> set (show_nat n)"
  using show_nat_digits digit_not_dot by blast

lemma seconds_text_chars:
  "list_all (\<lambda>c. is_ascii_digit c \<or> c = CHR ''.'') (seconds_text secs millis)"
  using trim_end_zeros_subset [of "pad3 millis"] pad3_digits [of millis] show_nat_digits [of _ secs]
  by (auto simp: seconds_text_def list_all_iff)

lemma seconds_text_value:
  assumes "millis < 1000" "secs < 60"
  shows "seconds_str_to_ms (seconds_text secs millis) = Some (int secs * 1000 + int millis)"
proof -
  have secs: "parse_i64 (show_nat secs) = Some (int secs)"
    using assms by (simp add: parse_i64_show_nat i64_max_def)
  have whole: "checked_mul_i64 (int secs) MS_PER_SEC = Some (int secs * 1000)"
    using assms by (simp add: checked_mul_i64_def ms_units in_i64_def int_limits)
  show ?thesis
  proof (cases "0 < millis")
    case False
    have "split_once (CHR ''.'') (show_nat secs) = None"
      by (simp add: split_once_None dot_notin_show_nat)
    with False show ?thesis by (simp add: seconds_str_to_ms_def seconds_text_def secs whole)
  next
    case True
    have "split_once (CHR ''.'') (show_nat secs @ ''.'' @ trim_end_zeros (pad3 millis)) =
        Some (show_nat secs, trim_end_zeros (pad3 millis))"
      using split_once_append [OF dot_notin_show_nat] by simp
    moreover have "length (trim_end_zeros (pad3 millis)) \<le> 3"
      using length_trim_end_zeros [of "pad3 millis"] by simp
    moreover have "parse_i64 (pad_right3 (trim_end_zeros (pad3 millis))) = Some (int millis)"
      using assms by (simp add: pad_right3_trim parse_i64_pad3)
    ultimately show ?thesis
      using True assms trim_pad3_nonempty [OF True assms(1)]
      by (simp add: seconds_str_to_ms_def seconds_text_def secs whole in_i64_def int_limits)
  qed
qed

lemma parse_show_seconds:
  "parse_components (show_seconds secs millis) =
     Some (if 0 < secs \<or> 0 < millis then [(seconds_text (nat secs) (nat millis), CHR ''S'')] else [])"
proof -
  have "seconds_text (nat secs) (nat millis) \<noteq> []" by (simp add: seconds_text_def)
  from parse_components_item [OF seconds_text_chars this, of "CHR ''S''" "[]"] show ?thesis
    by (auto simp: show_seconds_def seconds_text_def)
qed

subsection \<open>The fixed form\<close>

lemma add_fixed_ok:
  "in_i64 (acc_ms a + v) \<Longrightarrow> add_fixed a (Some v) = Inr (a\<lparr>acc_ms := acc_ms a + v, has_fixed := True\<rparr>)"
  by (simp add: add_fixed_def add_component_def checked_i64_def)

lemma parse_i64_show_int: "0 \<le> v \<Longrightarrow> v \<le> i64_max \<Longrightarrow> parse_i64 (show_nat (nat v)) = Some v"
  using parse_i64_show_nat [of "nat v"] by simp

lemma checked_mul_i64_ok: "0 \<le> v \<Longrightarrow> 0 \<le> u \<Longrightarrow> v * u \<le> i64_max \<Longrightarrow> checked_mul_i64 v u = Some (v * u)"
  by (simp add: checked_mul_i64_def in_i64_def i64_min_def order_trans [of "- 9223372036854775808" 0])

lemma unit_le: "0 \<le> v \<Longrightarrow> (1::int) \<le> u \<Longrightarrow> v * u \<le> m \<Longrightarrow> v \<le> m"
  using mult_left_mono [of 1 u v] by simp

lemma date_component_days:
  assumes "0 \<le> v" "v * MS_PER_DAY \<le> i64_max"
  shows "date_component iso_acc0 (show_nat (nat v), CHR ''D'') =
    Inr (iso_acc0\<lparr>acc_ms := v * MS_PER_DAY, has_fixed := True\<rparr>)"
proof -
  have "v \<le> i64_max" using unit_le [OF assms(1) _ assms(2)] by (simp add: ms_units)
  moreover have "in_i64 (v * MS_PER_DAY)" using assms by (simp add: in_i64_def int_limits ms_units)
  ultimately show ?thesis
    using assms add_fixed_ok [of iso_acc0 "v * MS_PER_DAY"]
    by (simp add: date_component_def parse_i64_show_int checked_mul_i64_ok iso_acc0_def ms_units)
qed

lemma time_component_unit:
  assumes "0 \<le> v" "0 \<le> acc_ms a" "acc_ms a + v * u \<le> i64_max"
    and "unit = CHR ''H'' \<and> u = MS_PER_HOUR \<or> unit = CHR ''M'' \<and> u = MS_PER_MIN"
  shows "time_component a (show_nat (nat v), unit) =
    Inr (a\<lparr>acc_ms := acc_ms a + v * u, has_fixed := True\<rparr>)"
proof -
  have u: "1 \<le> u" using assms(4) by (auto simp: ms_units)
  have "v * u \<le> i64_max" "0 \<le> v * u" using assms u by simp_all
  moreover from this have "v \<le> i64_max" using unit_le [OF assms(1) u] by simp
  moreover have "in_i64 (acc_ms a + v * u)" using assms calculation by (simp add: in_i64_def int_limits)
  ultimately show ?thesis
    using assms(1,4) u add_fixed_ok [of a "v * u"]
    by (auto simp: time_component_def parse_i64_show_int checked_mul_i64_ok)
qed

lemma time_component_seconds:
  assumes "0 \<le> acc_ms a" "acc_ms a + s * MS_PER_SEC + m \<le> i64_max" "0 \<le> s" "s < 60" "0 \<le> m" "m < 1000"
  shows "time_component a (seconds_text (nat s) (nat m), CHR ''S'') =
    Inr (a\<lparr>acc_ms := acc_ms a + s * MS_PER_SEC + m, has_fixed := True\<rparr>)"
  using assms seconds_text_value [of "nat m" "nat s"] add_fixed_ok [of a "s * 1000 + m"]
  by (simp add: time_component_def ms_units in_i64_def int_limits add.assoc)

definition time_items :: "int \<Rightarrow> int \<Rightarrow> int \<Rightarrow> int \<Rightarrow> (string \<times> char) list" where
  "time_items h mi s m =
     (if 0 < h then [(show_nat (nat h), CHR ''H'')] else []) @
     (if 0 < mi then [(show_nat (nat mi), CHR ''M'')] else []) @
     (if 0 < s \<or> 0 < m then [(seconds_text (nat s) (nat m), CHR ''S'')] else [])"

definition time_text :: "int \<Rightarrow> int \<Rightarrow> int \<Rightarrow> int \<Rightarrow> string" where
  "time_text h mi s m = show_unit h ''H'' @ show_unit mi ''M'' @ show_seconds s m"

lemma parse_time_text: "parse_components (time_text h mi s m) = Some (time_items h mi s m)"
  by (simp add: time_text_def time_items_def parse_show_unit parse_show_seconds)

lemma time_text_empty:
  "time_text h mi s m = [] \<longleftrightarrow> \<not> (0 < h \<or> 0 < mi \<or> 0 < s \<or> 0 < m)"
  by (auto simp: time_text_def show_unit_def show_seconds_def)

lemma fold_time_items:
  assumes "0 \<le> acc_ms a" "0 \<le> h" "0 \<le> mi" "0 \<le> s" "s < 60" "0 \<le> m" "m < 1000"
    and "acc_ms a + h * MS_PER_HOUR + mi * MS_PER_MIN + s * MS_PER_SEC + m \<le> i64_max"
  shows "rfold time_component a (time_items h mi s m) =
    Inr (a\<lparr>acc_ms := acc_ms a + h * MS_PER_HOUR + mi * MS_PER_MIN + s * MS_PER_SEC + m,
           has_fixed := has_fixed a \<or> 0 < h \<or> 0 < mi \<or> 0 < s \<or> 0 < m\<rparr>)"
proof -
  define a1 where "a1 = a\<lparr>acc_ms := acc_ms a + h * MS_PER_HOUR, has_fixed := has_fixed a \<or> 0 < h\<rparr>"
  define a2 where "a2 = a1\<lparr>acc_ms := acc_ms a1 + mi * MS_PER_MIN, has_fixed := has_fixed a1 \<or> 0 < mi\<rparr>"
  have nn: "0 \<le> h * MS_PER_HOUR" "0 \<le> mi * MS_PER_MIN" "0 \<le> s * MS_PER_SEC"
    using assms by (simp_all add: ms_units)
  have 1: "rfold time_component a (if 0 < h then [(show_nat (nat h), CHR ''H'')] else []) = Inr a1"
    using time_component_unit [of h a MS_PER_HOUR "CHR ''H''"] assms nn by (auto simp: a1_def)
  have 2: "rfold time_component a1 (if 0 < mi then [(show_nat (nat mi), CHR ''M'')] else []) = Inr a2"
    using time_component_unit [of mi a1 MS_PER_MIN "CHR ''M''"] assms nn by (auto simp: a1_def a2_def)
  have 3: "rfold time_component a2
      (if 0 < s \<or> 0 < m then [(seconds_text (nat s) (nat m), CHR ''S'')] else []) =
    Inr (a\<lparr>acc_ms := acc_ms a + h * MS_PER_HOUR + mi * MS_PER_MIN + s * MS_PER_SEC + m,
           has_fixed := has_fixed a \<or> 0 < h \<or> 0 < mi \<or> 0 < s \<or> 0 < m\<rparr>)"
    using time_component_seconds [of a2 s m] assms nn by (auto simp: a1_def a2_def)
  show ?thesis by (simp only: time_items_def rfold_append 1 2 3 rbind_simps)
qed

lemma T_notin_show_unit: "CHR ''T'' \<notin> set (show_unit d ''D'')"
  using show_nat_digits [of "CHR ''T''"] by (auto simp: show_unit_def is_ascii_digit_def code_of_def)

definition iso_body :: "int \<Rightarrow> int \<Rightarrow> int \<Rightarrow> int \<Rightarrow> int \<Rightarrow> string" where
  "iso_body d h mi s m =
     (if time_text h mi s m \<noteq> [] then show_unit d ''D'' @ ''T'' @ time_text h mi s m
      else if show_unit d ''D'' = [] then ''T0S'' else show_unit d ''D'')"

lemma parse_days:
  assumes "0 \<le> d" "d * MS_PER_DAY \<le> i64_max"
  shows "rbind (ok_or (parse_components (show_unit d ''D'')) bad_period) (rfold date_component iso_acc0) =
    Inr (iso_acc0\<lparr>acc_ms := d * MS_PER_DAY, has_fixed := 0 < d\<rparr>)"
  using assms parse_show_unit [of "CHR ''D''" d "[]"] date_component_days [of d]
  by (auto simp: iso_acc0_def)

lemma parse_iso_body:
  assumes "0 \<le> d" "0 \<le> h" "0 \<le> mi" "0 \<le> s" "s < 60" "0 \<le> m" "m < 1000"
    and "d * MS_PER_DAY + h * MS_PER_HOUR + mi * MS_PER_MIN + s * MS_PER_SEC + m \<le> i64_max"
  shows "parse_body (iso_body d h mi s m) =
    Inr (iso_acc0\<lparr>acc_ms := d * MS_PER_DAY + h * MS_PER_HOUR + mi * MS_PER_MIN + s * MS_PER_SEC + m,
                   has_fixed := True\<rparr>)"
proof -
  define a where "a = iso_acc0\<lparr>acc_ms := d * MS_PER_DAY, has_fixed := 0 < d\<rparr>"
  have nn: "0 \<le> h * MS_PER_HOUR" "0 \<le> mi * MS_PER_MIN" "0 \<le> s * MS_PER_SEC" "0 \<le> d * MS_PER_DAY"
    using assms by (simp_all add: ms_units)
  have days: "rbind (ok_or (parse_components (show_unit d ''D'')) bad_period)
      (rfold date_component iso_acc0) = Inr a"
    using parse_days [of d] assms nn by (simp add: a_def)
  consider "time_text h mi s m \<noteq> []" | "time_text h mi s m = []" "0 < d" | "time_text h mi s m = []" "d = 0"
    using assms(1) by linarith
  then show ?thesis
  proof cases
    case 1
    then have split: "split_once (CHR ''T'') (iso_body d h mi s m) = Some (show_unit d ''D'', time_text h mi s m)"
      using split_once_append [OF T_notin_show_unit] by (simp add: iso_body_def)
    obtain dc where dc: "parse_components (show_unit d ''D'') = Some dc" "rfold date_component iso_acc0 dc = Inr a"
      using days by (auto simp: result_elims)
    show ?thesis
      using 1 fold_time_items [of a h mi s m] assms nn
      by (auto simp: parse_body_def split dc parse_time_text a_def time_text_empty)
  next
    case 2
    then have body: "iso_body d h mi s m = show_unit d ''D''" by (simp add: iso_body_def show_unit_def)
    have split: "split_once (CHR ''T'') (show_unit d ''D'') = None"
      using T_notin_show_unit by (simp add: split_once_None)
    have z: "h = 0" "mi = 0" "s = 0" "m = 0" using 2(1) assms by (auto simp: time_text_empty)
    obtain dc where "parse_components (show_unit d ''D'') = Some dc" "rfold date_component iso_acc0 dc = Inr a"
      using days by (auto simp: result_elims)
    then have "parse_body (iso_body d h mi s m) = Inr a"
      unfolding body parse_body_def split by simp
    then show ?thesis using 2 by (simp add: z a_def)
  next
    case 3
    have zero: "seconds_text 0 0 = ''0''"
      by (simp add: seconds_text_def show_nat.simps digit_char_0)
    have body: "split_once (CHR ''T'') (iso_body d h mi s m) = Some ([], ''0S'')"
      using 3 by (simp add: iso_body_def show_unit_def)
    have items: "parse_components ''0S'' = Some [(seconds_text 0 0, CHR ''S'')]"
      using parse_components_item [OF seconds_text_chars, of 0 0 "CHR ''S''" "[]"] by (simp add: zero)
    have z: "h = 0" "mi = 0" "s = 0" "m = 0" using 3(1) assms by (auto simp: time_text_empty)
    have "time_component iso_acc0 (seconds_text 0 0, CHR ''S'') = Inr (iso_acc0\<lparr>has_fixed := True\<rparr>)"
      using time_component_seconds [of iso_acc0 0 0] by (simp add: iso_acc0_def int_limits)
    then have "parse_body (iso_body d h mi s m) = Inr (iso_acc0\<lparr>has_fixed := True\<rparr>)"
      unfolding parse_body_def body using items by simp
    then show ?thesis using 3 by (simp add: z iso_acc0_def)
  qed
qed

lemma render_fixed_body: "render_fixed sign d h mi s m = sign @ ''P'' @ iso_body d h mi s m"
  by (simp add: render_fixed_def iso_body_def time_text_def Let_def)

lemma last_iso_body: "\<not> is_whitespace (last (''P'' @ iso_body d h mi s m))"
  by (auto simp: iso_body_def time_text_def show_unit_def show_seconds_def is_whitespace_def code_of_def)

lemma parse_fixed_body:
  assumes "\<bar>ms\<bar> \<le> i64_max"
  obtains body where "fixed_to_iso ms = (if ms < 0 then ''-'' else []) @ ''P'' @ body"
    and "parse_body body = Inr (iso_acc0\<lparr>acc_ms := \<bar>ms\<bar>, has_fixed := True\<rparr>)"
    and "\<not> is_whitespace (last (''P'' @ body))"
proof -
  define a d a2 h a3 mi a4 s m where "a = \<bar>ms\<bar>" and "d = a div MS_PER_DAY" and "a2 = a mod MS_PER_DAY"
    and "h = a2 div MS_PER_HOUR" and "a3 = a2 mod MS_PER_HOUR" and "mi = a3 div MS_PER_MIN"
    and "a4 = a3 mod MS_PER_MIN" and "s = a4 div MS_PER_SEC" and "m = a4 mod MS_PER_SEC"
  have fixed: "fixed_to_iso ms = (if ms < 0 then ''-'' else []) @ ''P'' @ iso_body d h mi s m"
    unfolding fixed_to_iso_def Let_def render_fixed_body
    by (simp only: a_def d_def a2_def h_def a3_def mi_def a4_def s_def m_def)
  have pos: "0 < MS_PER_DAY" "0 < MS_PER_HOUR" "0 < MS_PER_MIN" "0 < MS_PER_SEC"
    by (simp_all add: ms_units)
  have nn: "0 \<le> a" "0 \<le> a2" "0 \<le> a3" "0 \<le> a4" using pos by (simp_all add: a_def a2_def a3_def a4_def)
  have eqs: "a = d * MS_PER_DAY + a2" "a2 = h * MS_PER_HOUR + a3" "a3 = mi * MS_PER_MIN + a4"
    "a4 = s * MS_PER_SEC + m"
    by (simp_all add: d_def a2_def h_def a3_def mi_def a4_def s_def m_def)
  have "d * MS_PER_DAY + h * MS_PER_HOUR + mi * MS_PER_MIN + s * MS_PER_SEC + m = a"
    using eqs by linarith
  moreover have "0 \<le> d" "0 \<le> h" "0 \<le> mi" "0 \<le> s" "0 \<le> m" "m < 1000"
    using nn pos by (simp_all add: d_def h_def mi_def s_def m_def pos_imp_zdiv_nonneg_iff)
      (simp add: ms_units)
  moreover have "s < 60"
  proof -
    have "a4 < 60000" using pos by (simp add: a4_def ms_units)
    then show ?thesis using nn by (simp add: s_def ms_units)
  qed
  moreover have "a \<le> i64_max" using assms by (simp add: a_def)
  ultimately have "parse_body (iso_body d h mi s m) = Inr (iso_acc0\<lparr>acc_ms := a, has_fixed := True\<rparr>)"
    using parse_iso_body [of d h mi s m] by simp
  with fixed last_iso_body [of d h mi s m] show ?thesis by (intro that) (simp_all add: a_def)
qed

subsection \<open>The calendar form\<close>

lemma add_calendar_ok:
  "in_i64 (acc_months a + v) \<Longrightarrow>
   add_calendar a (Some v) = Inr (a\<lparr>acc_months := acc_months a + v, has_calendar := True\<rparr>)"
  by (simp add: add_calendar_def add_component_def checked_i64_def)

lemma parse_calendar_body:
  assumes "int n \<le> 4294967296" "unit = CHR ''Y'' \<and> v = int n * 12 \<or> unit = CHR ''M'' \<and> v = int n"
  shows "parse_body (show_nat n @ [unit]) = Inr (iso_acc0\<lparr>acc_months := v, has_calendar := True\<rparr>)"
proof -
  have u: "is_ascii_upper unit" "unit \<noteq> CHR ''T''" using assms(2) by auto
  have "CHR ''T'' \<notin> set (show_nat n @ [unit])"
    using u show_nat_digits [of "CHR ''T''" n] by (auto simp: is_ascii_digit_def code_of_def)
  then have split: "split_once (CHR ''T'') (show_nat n @ [unit]) = None" by (subst split_once_None)
  have items: "parse_components (show_nat n @ [unit]) = Some [(show_nat n, unit)]"
    using parse_components_item [OF list_all_digit_or_dot show_nat_nonempty u(1), where s = "[]"] by simp
  have "in_i64 (int n * 12)" "in_i64 (int n)" "int n \<le> i64_max"
    using assms(1) by (simp_all add: in_i64_def int_limits)
  then have "date_component iso_acc0 (show_nat n, unit) = Inr (iso_acc0\<lparr>acc_months := v, has_calendar := True\<rparr>)"
    using assms(2) add_calendar_ok [of iso_acc0]
    by (auto simp: date_component_def parse_i64_show_nat checked_mul_i64_def checked_i64_def iso_acc0_def)
  then show ?thesis unfolding parse_body_def split using items by simp
qed

lemma parse_months_body:
  assumes "in_i32 m"
  obtains body where "months_to_iso m = (if m < 0 then ''-'' else []) @ ''P'' @ body"
    and "parse_body body = Inr (iso_acc0\<lparr>acc_months := \<bar>m\<bar>, has_calendar := True\<rparr>)"
    and "\<not> is_whitespace (last (''P'' @ body))"
proof -
  define a where "a = nat \<bar>m\<bar>"
  have a: "int a = \<bar>m\<bar>" "int a \<le> 2147483648"
    using assms by (auto simp: a_def in_i32_def int_limits)
  show ?thesis
  proof (cases "a \<noteq> 0 \<and> a mod 12 = 0")
    case True
    then have "int (a div 12) * 12 = \<bar>m\<bar>" using a(1) by (simp add: zdiv_int) presburger
    moreover have "int (a div 12) \<le> 4294967296" using a(2) by (simp add: zdiv_int)
    ultimately show ?thesis
      using True parse_calendar_body [of "a div 12" "CHR ''Y''" "\<bar>m\<bar>"]
      by (intro that [of "show_nat (a div 12) @ ''Y''"]) (simp_all add: months_to_iso_def a_def [symmetric] Let_def is_whitespace_def code_of_def)
  next
    case False
    then show ?thesis
      using a parse_calendar_body [of a "CHR ''M''" "\<bar>m\<bar>"]
      by (intro that [of "show_nat a @ ''M''"]) (auto simp: months_to_iso_def a_def [symmetric] Let_def is_whitespace_def code_of_def)
  qed
qed

subsection \<open>The round trip\<close>

text \<open>The periods the catalog stores: whole milliseconds within \<open>i64\<close>, or months within \<open>i32\<close>.\<close>

fun encodable :: "period \<Rightarrow> bool" where
  "encodable (Fixed d) = (d mod 1000000 = 0 \<and> \<bar>d\<bar> \<le> i64_max * 1000000)"
| "encodable (Months m) = in_i32 m"

lemma trim_signed_P:
  assumes "\<not> is_whitespace (last (''P'' @ body))"
    and "sign = ''-'' \<or> sign = []"
  shows "trim (sign @ ''P'' @ body) = sign @ ''P'' @ body"
  using assms by (intro trim_id) (auto simp: is_whitespace_def code_of_def)

lemma from_iso_text:
  assumes "parse_body body = Inr a" "\<not> is_whitespace (last (''P'' @ body))"
  shows "from_iso8601 C ((if neg then ''-'' else []) @ ''P'' @ body) =
    (if has_calendar a \<and> has_fixed a then ParseErr (InvalidParameter ''mixes units'')
     else if has_calendar a
     then (case checked_i32 (if neg then - acc_months a else acc_months a) of
             None \<Rightarrow> ParseErr bad_period | Some m \<Rightarrow> Parsed (Months m))
     else if has_fixed a
     then (case try_milliseconds C (if neg then - acc_ms a else acc_ms a) of
             None \<Rightarrow> ParsePanic | Some d \<Rightarrow> Parsed (Fixed d))
     else ParseErr bad_period)"
  using assms(1) trim_signed_P [OF assms(2), of "''-''"] trim_signed_P [OF assms(2), of "[]"]
  by (cases neg) (simp_all add: from_iso8601_def)

lemma iso_roundtrip:
  assumes "chrono_laws C dim tod" "encodable p"
  shows "from_iso8601 C (to_iso8601 C p) = Parsed p"
proof (cases p)
  case (Fixed d)
  define ms where "ms = d div 1000000"
  have d: "d = ms * 1000000" "\<bar>ms\<bar> \<le> i64_max"
    using assms(2) Fixed by (auto simp: ms_def abs_if split: if_splits)
  have "num_milliseconds C d = ms"
    using chrono_laws.num_milliseconds [OF assms(1)] by (simp add: d quot_mult_self)
  moreover obtain body where "fixed_to_iso ms = (if ms < 0 then ''-'' else []) @ ''P'' @ body"
    and "parse_body body = Inr (iso_acc0\<lparr>acc_ms := \<bar>ms\<bar>, has_fixed := True\<rparr>)"
    and "\<not> is_whitespace (last (''P'' @ body))"
    using parse_fixed_body [OF d(2)] .
  ultimately show ?thesis
    using d Fixed from_iso_text [of body _ C "ms < 0"]
    by (simp add: to_iso8601_def chrono_laws.try_milliseconds [OF assms(1)] iso_acc0_def abs_le_iff)
next
  case (Months m)
  with assms(2) have m: "in_i32 m" by simp
  obtain body where "months_to_iso m = (if m < 0 then ''-'' else []) @ ''P'' @ body"
    and "parse_body body = Inr (iso_acc0\<lparr>acc_months := \<bar>m\<bar>, has_calendar := True\<rparr>)"
    and "\<not> is_whitespace (last (''P'' @ body))"
    using parse_months_body [OF m] .
  then show ?thesis
    using m Months from_iso_text [of body _ C "m < 0"]
    by (simp add: to_iso8601_def iso_acc0_def checked_i32_def)
qed

text \<open>C14: reading back what \<open>to_iso8601\<close> wrote gives the same period, for every period the store
  can hold: a fixed duration of whole milliseconds, or a number of calendar months.\<close>

theorem iso8601_roundtrip:
  assumes "chrono_laws C dim tod" "encodable p"
  shows "from_iso8601 C (to_iso8601 C p) = Parsed p"
  using assms by (rule iso_roundtrip)

theorem iso8601_roundtrip_witness:
  "from_iso8601 gregorian (to_iso8601 gregorian (Fixed (- 90500 * 1000000))) = Parsed (Fixed (- 90500 * 1000000))"
  by (rule iso8601_roundtrip [OF gregorian_laws]) (simp add: i64_max_def)

section \<open>The parser never panics\<close>

lemma parse_components_chars:
  "parse_components_from num s = Some out \<Longrightarrow> list_all (\<lambda>c. is_ascii_digit c \<or> c = CHR ''.'') num \<Longrightarrow>
   x \<in> set out \<Longrightarrow> list_all (\<lambda>c. is_ascii_digit c \<or> c = CHR ''.'') (fst x)"
proof (induction num s arbitrary: out rule: parse_components_from.induct)
  case (1 num)
  then show ?case by (auto split: if_splits)
next
  case (2 num ch s)
  then show ?case by (force split: if_splits)
qed

definition nonneg_acc :: "iso_acc \<Rightarrow> bool" where
  "nonneg_acc a \<longleftrightarrow> 0 \<le> acc_ms a \<and> acc_ms a \<le> i64_max"

lemma parse_i64_component:
  assumes "list_all (\<lambda>c. is_ascii_digit c \<or> c = CHR ''.'') num" "parse_i64 num = Some v"
  shows "0 \<le> v"
  using parse_i64_digits_nonneg [OF assms] .

lemma checked_mul_nonneg: "checked_mul_i64 v u = Some w \<Longrightarrow> 0 \<le> v \<Longrightarrow> 0 \<le> u \<Longrightarrow> 0 \<le> w"
  by (auto simp: checked_mul_i64_def)

lemma seconds_nonneg:
  assumes "list_all (\<lambda>c. is_ascii_digit c \<or> c = CHR ''.'') num" "seconds_str_to_ms num = Some v"
  shows "0 \<le> v"
proof (cases "split_once (CHR ''.'') num")
  case None
  then show ?thesis
    using assms parse_i64_component [OF assms(1)]
    by (auto simp: seconds_str_to_ms_def checked_mul_i64_def ms_units bind_eq_Some_conv)
next
  case (Some p)
  obtain whole frac where p: "p = (whole, frac)" by (cases p)
  have "num = whole @ CHR ''.'' # frac" using Some split_once_Some by (simp add: p)
  then have chars: "list_all (\<lambda>c. is_ascii_digit c \<or> c = CHR ''.'') whole"
    "list_all (\<lambda>c. is_ascii_digit c \<or> c = CHR ''.'') (pad_right3 frac)"
    using assms(1) by (auto simp: pad_right3_def list_all_iff is_ascii_digit_def code_of_def)
  from assms(2) show ?thesis
    using parse_i64_component [OF chars(1)] parse_i64_component [OF chars(2)]
    by (fastforce simp: seconds_str_to_ms_def Some p checked_mul_i64_def ms_units bind_eq_Some_conv
        split: if_splits)
qed

lemma add_fixed_nonneg:
  "add_fixed a v = Inr b \<Longrightarrow> nonneg_acc a \<Longrightarrow> (\<And>w. v = Some w \<Longrightarrow> 0 \<le> w) \<Longrightarrow> nonneg_acc b"
  by (auto simp: add_fixed_def add_component_def result_elims bind_eq_Some_conv nonneg_acc_def in_i64_def)

lemma add_calendar_nonneg: "add_calendar a v = Inr b \<Longrightarrow> nonneg_acc a \<Longrightarrow> nonneg_acc b"
  by (auto simp: add_calendar_def result_elims nonneg_acc_def)

lemma ms_units_nonneg: "0 \<le> MS_PER_SEC" "0 \<le> MS_PER_MIN" "0 \<le> MS_PER_HOUR" "0 \<le> MS_PER_DAY" "0 \<le> MS_PER_WEEK"
  by (simp_all add: ms_units)

lemma date_component_nonneg:
  assumes "list_all (\<lambda>c. is_ascii_digit c \<or> c = CHR ''.'') (fst x)" "date_component a x = Inr b" "nonneg_acc a"
  shows "nonneg_acc b"
  using assms parse_i64_component [OF assms(1)]
  by (cases x) (auto simp: date_component_def result_elims ms_units_nonneg intro: add_calendar_nonneg
      split: if_splits elim!: add_fixed_nonneg checked_mul_nonneg)

lemma time_component_nonneg:
  assumes "list_all (\<lambda>c. is_ascii_digit c \<or> c = CHR ''.'') (fst x)" "time_component a x = Inr b" "nonneg_acc a"
  shows "nonneg_acc b"
  using assms parse_i64_component [OF assms(1)] seconds_nonneg [OF assms(1)]
  by (cases x) (auto simp: time_component_def result_elims ms_units_nonneg
      split: if_splits elim!: add_fixed_nonneg checked_mul_nonneg)

lemma parse_body_nonneg:
  assumes "parse_body body = Inr a" shows "nonneg_acc a"
proof -
  have start: "nonneg_acc iso_acc0" by (simp add: nonneg_acc_def iso_acc0_def i64_max_def)
  have comps: "nonneg_acc b'" if "parse_components p = Some xs" "rfold f b xs = Inr b'" "nonneg_acc b"
    and "\<And>x b c. list_all (\<lambda>c. is_ascii_digit c \<or> c = CHR ''.'') (fst x) \<Longrightarrow> f b x = Inr c \<Longrightarrow>
          nonneg_acc b \<Longrightarrow> nonneg_acc c" for p xs f b b'
  proof (rule rfold_invariant [where P = nonneg_acc, OF that(2) that(3)])
    fix s x t assume "nonneg_acc s" "x \<in> set xs" "f s x = Inr t"
    with that(1) show "nonneg_acc t"
      using parse_components_chars [of "[]" p xs x] that(4) by (simp add: parse_components_def)
  qed
  have run: "nonneg_acc a" if ok: "rbind (ok_or (parse_components d) bad_period)
      (\<lambda>dc. rbind (rfold date_component iso_acc0 dc) (\<lambda>a. case time_part of None \<Rightarrow> Inr a
        | Some tp \<Rightarrow> rbind (ok_or (parse_components tp) bad_period) (rfold time_component a))) = Inr a"
    for d time_part
  proof -
    obtain dc b where b: "parse_components d = Some dc" "rfold date_component iso_acc0 dc = Inr b"
      and rest: "(case time_part of None \<Rightarrow> Inr b
        | Some tp \<Rightarrow> rbind (ok_or (parse_components tp) bad_period) (rfold time_component b)) = Inr a"
      using ok unfolding rbind_Inr_iff ok_or_Inr_iff by blast
    have "nonneg_acc b" using b start date_component_nonneg by (rule comps)
    with rest show ?thesis
      by (auto simp: result_elims split: option.splits intro: comps time_component_nonneg)
  qed
  show ?thesis
  proof (cases "split_once (CHR ''T'') body")
    case None
    with assms show ?thesis using run [of body None] by (simp add: parse_body_def)
  next
    case (Some p)
    with assms show ?thesis using run [of "fst p" "Some (snd p)"] by (cases p) (simp add: parse_body_def)
  qed
qed

text \<open>Parsing a period never panics, whatever the text. The \<open>Duration::milliseconds\<close> call at the
  end of \<open>from_iso8601\<close> panics outside the range of a duration; the accumulated count of
  milliseconds is always within it, because every component is non-negative and every addition is
  checked.\<close>

lemma from_iso8601_no_panic:
  assumes "chrono_laws C dim tod"
  shows "from_iso8601 C s \<noteq> ParsePanic"
proof -
  obtain neg unsigned where u: "(case strip_prefix ''-'' (trim s) of Some rest \<Rightarrow> (True, rest) |
      None \<Rightarrow> (False, trim s)) = (neg, unsigned)" by fastforce
  show ?thesis
  proof (cases "rbind (ok_or (strip_prefix ''P'' unsigned) bad_period) parse_body")
    case (Inl e)
    then show ?thesis by (simp add: from_iso8601_def u Let_def)
  next
    case (Inr a)
    then have "nonneg_acc a" using parse_body_nonneg by (auto simp: result_elims)
    then have "try_milliseconds C (if neg then - acc_ms a else acc_ms a) \<noteq> None"
      using chrono_laws.try_milliseconds [OF assms] by (auto simp: nonneg_acc_def)
    with Inr show ?thesis by (cases neg) (auto simp: from_iso8601_def u Let_def split: option.splits)
  qed
qed

end
