(* ===== verification/Layout.thy ===== *)
theory Layout
  imports PeriodText Hash
begin

text \<open>
  \<open>crates/infrastore-core/src/storage/common.rs\<close>: sizing of packed columns and chunks, and the names
  that carry a packed dataset's identity; and the compression policy of \<open>storage.rs\<close>. An unchecked
  product of machine integers wraps, as in a release build.
\<close>

section \<open>Sizing\<close>

definition DEFAULT_COLS_PER_DATASET :: nat where "DEFAULT_COLS_PER_DATASET = 1000"
definition MAX_CHUNK_BYTES :: nat where "MAX_CHUNK_BYTES = 1048576"
definition MAX_PENDING_BYTES :: nat where "MAX_PENDING_BYTES = 134217728"
definition MIN_CHUNK_BYTES :: nat where "MIN_CHUNK_BYTES = 32768"


definition element_block_bytes :: "dtype \<Rightarrow> nat list \<Rightarrow> nat" where
  "element_block_bytes d es = wrapping (wrapping (prod_list es) * dtype_size d)"

definition packed_chunk_rows :: "dtype \<Rightarrow> nat list \<Rightarrow> nat \<Rightarrow> nat \<Rightarrow> nat" where
  "packed_chunk_rows d es cols len =
     (let row = max (saturating_mul cols (element_block_bytes d es)) 1
      in if MIN_CHUNK_BYTES \<le> row then 1 else clamp_nat (div_ceil MIN_CHUNK_BYTES row) 1 (max len 1))"

definition resolve_dataset_cols :: "nat option \<Rightarrow> dtype \<Rightarrow> nat list \<Rightarrow> nat" where
  "resolve_dataset_cols requested d es =
     (let block = max (element_block_bytes d es) 1; cap = max (MAX_CHUNK_BYTES div block) 1
      in clamp_nat (case requested of Some n \<Rightarrow> n | None \<Rightarrow> DEFAULT_COLS_PER_DATASET) 1 cap)"

definition window_bytes :: "dtype \<Rightarrow> nat list \<Rightarrow> nat \<Rightarrow> nat" where
  "window_bytes d s axis =
     max (saturating_mul
       (wrapping (prod_list (map snd (filter (\<lambda>(i, _). i \<noteq> axis) (enumerate 0 s))))) (dtype_size d)) 1"

definition window_block_cols :: "dtype \<Rightarrow> nat list \<Rightarrow> nat \<Rightarrow> nat" where
  "window_block_cols d s count_axis =
     (let axis_len = (case get_at s count_axis of Some n \<Rightarrow> n | None \<Rightarrow> 0)
      in if axis_len = 0 then 1
         else let cap = max (MAX_CHUNK_BYTES div window_bytes d s count_axis) 1 in min cap axis_len)"

definition standalone_chunks :: "typed_array \<Rightarrow> nat option \<Rightarrow> nat list" where
  "standalone_chunks a window_axis =
     (case window_axis of
        Some axis \<Rightarrow>
          if axis < length (shape a) \<and> 0 \<notin> set (shape a)
          then (shape a)[axis := window_block_cols (arr_dtype a) (shape a) axis]
          else shape a
      | None \<Rightarrow> shape a)"

section \<open>Names\<close>

datatype pack_group = Regular period | Irregular hash

fun group_prefix :: "pack_group \<Rightarrow> string" where
  "group_prefix (Regular _) = ''sts_''"
| "group_prefix (Irregular _) = ''nsts_''"

fun group_suffix :: "chrono \<Rightarrow> pack_group \<Rightarrow> string" where
  "group_suffix C (Regular resolution) = to_iso8601 C resolution"
| "group_suffix C (Irregular h) = hash_hex h"

definition encode_shape :: "nat list \<Rightarrow> string" where
  "encode_shape es = (if es = [] then ''s'' else join ''x'' (map show_nat es))"

definition decode_shape :: "string \<Rightarrow> nat list result" where
  "decode_shape s =
     (if s = ''s'' then Inr []
      else rmap_all (\<lambda>p. ok_or (parse_usize p) (IntegrityError ''bad element shape'')) (split_all (CHR ''x'') s))"

definition dataset_base_name :: "chrono \<Rightarrow> dtype \<Rightarrow> nat list \<Rightarrow> nat \<Rightarrow> pack_group \<Rightarrow> string" where
  "dataset_base_name C d es len g =
     group_prefix g @ dtype_str d @ ''_'' @ encode_shape es @ ''_'' @ show_nat len @ ''_'' @ group_suffix C g"

definition spill_name :: "string \<Rightarrow> nat \<Rightarrow> string" where
  "spill_name base n = (if n = 0 then base else base @ ''__'' @ show_nat n)"

definition hex_to_hash :: "string \<Rightarrow> hash result" where
  "hex_to_hash s = ok_or (hash_from_hex s) (IntegrityError ''expected 64 hex chars'')"

definition parse_group :: "chrono \<Rightarrow> bool \<Rightarrow> string \<Rightarrow> ts_error failure + pack_group" where
  "parse_group C irregular s =
     (if irregular
      then raise (map_err (\<lambda>_. IntegrityError ''bad timestamps hash'')
             (rbind (hex_to_hash s) (\<lambda>h. Inr (Irregular h))))
      else (case from_iso8601 C s of
              Parsed p \<Rightarrow> Inr (Regular p)
            | ParseErr _ \<Rightarrow> Inl (Raised (IntegrityError ''bad resolution''))
            | ParsePanic \<Rightarrow> Inl Panicked))"

definition parse_dataset_name ::
  "chrono \<Rightarrow> string \<Rightarrow> ts_error failure + dtype \<times> nat list \<times> nat \<times> pack_group" where
  "parse_dataset_name C name =
     rbind (case strip_prefix ''nsts_'' name of
         Some core \<Rightarrow> Inr (core, True)
       | None \<Rightarrow> (case strip_prefix ''sts_'' name of
           Some core \<Rightarrow> Inr (core, False)
         | None \<Rightarrow> Inl (Raised (IntegrityError ''neither prefix''))))
     (\<lambda>(core, irregular). case splitn 4 (CHR ''_'') (before_first ''__'' core) of
        [p0, p1, p2, p3] \<Rightarrow>
          rbind (ok_or (dtype_parse p0) (Raised (IntegrityError ''bad dtype'')))
            (\<lambda>d. rbind (raise (decode_shape p1))
              (\<lambda>es. rbind (ok_or (parse_usize p2) (Raised (IntegrityError ''bad length'')))
                (\<lambda>len. rbind (parse_group C irregular p3)
                  (\<lambda>g. Inr (d, es, len, g)))))
      | _ \<Rightarrow> Inl (Raised (IntegrityError ''bad dataset name'')))"

section \<open>Names read back\<close>

lemma underscore_free_show_nat: "CHR ''_'' \<notin> set (show_nat n)" "CHR ''x'' \<notin> set (show_nat n)"
  using show_nat_digits by (fastforce simp: is_ascii_digit_def code_of_def)+

lemma underscore_free_dtype: "CHR ''_'' \<notin> set (dtype_str d)"
  by (cases d) simp_all

lemma set_join: "set (join sep xs) \<subseteq> set sep \<union> \<Union> (set ` set xs)"
  by (induction sep xs rule: join.induct) auto

lemma underscore_free_shape: "CHR ''_'' \<notin> set (encode_shape es)"
  using set_join [of "''x''" "map show_nat es"] underscore_free_show_nat
  by (auto simp: encode_shape_def)

lemma underscore_free_unit: "CHR ''_'' \<notin> set u \<Longrightarrow> CHR ''_'' \<notin> set (show_unit n u)"
  using underscore_free_show_nat by (simp add: show_unit_def)

lemma underscore_free_seconds: "CHR ''_'' \<notin> set (show_seconds s m)"
proof -
  have "CHR ''_'' \<notin> set (trim_end_zeros (pad3 n))" for n
    using trim_end_zeros_subset [of "pad3 n"] pad3_digits [of n] by (auto simp: is_ascii_digit_def code_of_def)
  then show ?thesis using underscore_free_show_nat by (simp add: show_seconds_def)
qed

lemma underscore_free_iso: "CHR ''_'' \<notin> set (to_iso8601 C p)"
proof (cases p)
  case (Fixed d)
  have "CHR ''_'' \<notin> set (render_fixed (if b then ''-'' else []) days hours mins secs millis)"
    for b days hours mins secs millis
    using underscore_free_unit underscore_free_seconds by (simp add: render_fixed_def Let_def)
  then show ?thesis by (simp add: Fixed to_iso8601_def fixed_to_iso_def Let_def)
next
  case (Months m)
  then show ?thesis using underscore_free_show_nat by (simp add: to_iso8601_def months_to_iso_def Let_def)
qed

lemma underscore_free_hex: "CHR ''_'' \<notin> set (hash_hex h)"
proof
  assume "CHR ''_'' \<in> set (hash_hex h)"
  then obtain n where "n < 16" "HEX ! n = CHR ''_''" using nibbles by (fastforce simp: hash_hex_def)
  with HEX_digit [of n] show False by (simp add: to_digit16_def code_of_def)
qed

lemma underscore_free_suffix: "CHR ''_'' \<notin> set (group_suffix C g)"
  by (cases g) (simp_all add: underscore_free_iso underscore_free_hex)

lemma decode_encode_shape:
  assumes "\<forall>n \<in> set es. n \<le> usize_max" shows "decode_shape (encode_shape es) = Inr es"
proof (cases "es = []")
  case True
  then show ?thesis by (simp add: encode_shape_def decode_shape_def)
next
  case False
  then have split: "split_all (CHR ''x'') (encode_shape es) = map show_nat es"
    using split_all_join [of "map show_nat es" "CHR ''x''"] underscore_free_show_nat
    by (auto simp: encode_shape_def)
  have "encode_shape es \<noteq> ''s''"
  proof
    assume "encode_shape es = ''s''"
    then have "map show_nat es = [''s'']" using split by simp
    then obtain n where "show_nat n = ''s''" by auto
    then show False using show_nat_digits [of "CHR ''s''" n] by (simp add: is_ascii_digit_def code_of_def)
  qed
  moreover have "rmap_all (\<lambda>p. ok_or (parse_usize p) e) (map show_nat es) = Inr es" for e :: ts_error
    using assms by (induction es) (simp_all add: parse_usize_show_nat)
  ultimately show ?thesis by (simp add: decode_shape_def split)
qed

lemma before_first_append:
  assumes "CHR ''_'' \<notin> set a"
  shows "before_first ''__'' (a @ CHR ''_'' # b) =
    a @ (case b of [] \<Rightarrow> ''_'' | c # _ \<Rightarrow> if c = CHR ''_'' then [] else CHR ''_'' # before_first ''__'' b)"
  using assms by (induction a) (auto split: list.splits option.splits)

lemma before_first_free: "CHR ''_'' \<notin> set a \<Longrightarrow> before_first ''__'' a = a"
  by (induction a) (auto split: option.splits)

lemma before_first_part:
  "CHR ''_'' \<notin> set a \<Longrightarrow> b \<noteq> [] \<Longrightarrow> hd b \<noteq> CHR ''_'' \<Longrightarrow>
   before_first ''__'' (a @ CHR ''_'' # b) = a @ CHR ''_'' # before_first ''__'' b"
  by (cases b) (simp_all add: before_first_append)

lemma before_first_spill: "CHR ''_'' \<notin> set a \<Longrightarrow> before_first ''__'' (a @ CHR ''_'' # CHR ''_'' # b) = a"
  by (simp add: before_first_append)

lemma hd_free: "CHR ''_'' \<notin> set a \<Longrightarrow> a \<noteq> [] \<Longrightarrow> hd (a @ b) \<noteq> CHR ''_''"
  by (cases a) auto

lemma parts_nonempty: "dtype_str d \<noteq> []" "encode_shape es \<noteq> []"
  by (cases d; simp) (cases es rule: list.exhaust, simp_all add: encode_shape_def, rename_tac n ns,
    case_tac ns, simp_all)

lemma splitn_4:
  "c \<notin> set p \<Longrightarrow> c \<notin> set q \<Longrightarrow> c \<notin> set r \<Longrightarrow> splitn 4 c (p @ c # q @ c # r @ c # s) = [p, q, r, s]"
  by (simp add: numeral_eq_Suc split_once_append)

definition valid_group :: "pack_group \<Rightarrow> bool" where
  "valid_group g = (case g of Regular p \<Rightarrow> encodable p | Irregular h \<Rightarrow> length h = 32)"

lemma suffix_nonempty: "valid_group g \<Longrightarrow> group_suffix C g \<noteq> []"
proof (cases g)
  case (Regular p)
  then show ?thesis
    by (cases p) (simp_all add: to_iso8601_def fixed_to_iso_def render_fixed_def months_to_iso_def Let_def)
next
  case (Irregular h)
  moreover assume "valid_group g"
  ultimately show ?thesis using length_hash_hex [of h] by (auto simp: valid_group_def)
qed

lemma parse_group_suffix:
  assumes "chrono_laws C dim tod" "valid_group g"
  shows "parse_group C (case g of Regular _ \<Rightarrow> False | Irregular _ \<Rightarrow> True) (group_suffix C g) = Inr g"
proof (cases g)
  case (Regular p)
  define s where "s = to_iso8601 C p"
  have "from_iso8601 C s = Parsed p"
    using assms Regular iso_roundtrip [OF assms(1)] by (simp add: valid_group_def s_def)
  then show ?thesis by (simp add: Regular parse_group_def s_def [symmetric])
next
  case (Irregular h)
  with assms(2) show ?thesis
    by (simp add: parse_group_def hex_to_hash_def hash_from_hex_hash_hex valid_group_def)
qed

definition name_core :: "chrono \<Rightarrow> dtype \<Rightarrow> nat list \<Rightarrow> nat \<Rightarrow> pack_group \<Rightarrow> string" where
  "name_core C d es len g =
     dtype_str d @ CHR ''_'' # encode_shape es @ CHR ''_'' # show_nat len @ CHR ''_'' # group_suffix C g"

lemma before_first_core:
  assumes "valid_group g" and rest: "rest = [] \<or> (\<exists>r. rest = CHR ''_'' # CHR ''_'' # r)"
  shows "before_first ''__'' (name_core C d es len g @ rest) = name_core C d es len g"
proof -
  have suffix: "before_first ''__'' (group_suffix C g @ rest) = group_suffix C g"
    using rest before_first_free before_first_spill underscore_free_suffix by auto
  have "hd (group_suffix C g @ rest) \<noteq> CHR ''_''"
    using hd_free underscore_free_suffix suffix_nonempty [OF assms(1)] by blast
  then have "before_first ''__'' (show_nat len @ CHR ''_'' # group_suffix C g @ rest) =
      show_nat len @ CHR ''_'' # group_suffix C g"
    using suffix_nonempty [OF assms(1)] by (subst before_first_part) (simp_all add: underscore_free_show_nat suffix)
  moreover have "hd (show_nat len @ CHR ''_'' # group_suffix C g @ rest) \<noteq> CHR ''_''"
    using hd_free underscore_free_show_nat(1) by simp
  ultimately have "before_first ''__'' (encode_shape es @ CHR ''_'' # show_nat len @ CHR ''_'' # group_suffix C g @ rest) =
      encode_shape es @ CHR ''_'' # show_nat len @ CHR ''_'' # group_suffix C g"
    by (subst before_first_part) (simp_all add: underscore_free_shape)
  moreover have "hd (encode_shape es @ CHR ''_'' # show_nat len @ CHR ''_'' # group_suffix C g @ rest) \<noteq> CHR ''_''"
    using hd_free underscore_free_shape parts_nonempty by blast
  ultimately show ?thesis
    unfolding name_core_def append_assoc append_Cons
    by (subst before_first_part) (simp_all add: underscore_free_dtype)
qed

lemma parse_core:
  assumes "chrono_laws C dim tod" "valid_group g" "\<forall>n \<in> set es. n \<le> usize_max" "len \<le> usize_max"
    and "rest = [] \<or> (\<exists>r. rest = CHR ''_'' # CHR ''_'' # r)"
  shows "parse_dataset_name C (group_prefix g @ name_core C d es len g @ rest) = Inr (d, es, len, g)"
proof -
  have strip: "(case strip_prefix ''nsts_'' (group_prefix g @ x) of
      Some core \<Rightarrow> Inr (core, True)
    | None \<Rightarrow> (case strip_prefix ''sts_'' (group_prefix g @ x) of
        Some core \<Rightarrow> Inr (core, False)
      | None \<Rightarrow> Inl (Raised (IntegrityError ''neither prefix'')))) =
      Inr (x, case g of Regular _ \<Rightarrow> False | Irregular _ \<Rightarrow> True)" for x
    by (cases g) simp_all
  have split: "splitn 4 (CHR ''_'') (name_core C d es len g) =
      [dtype_str d, encode_shape es, show_nat len, group_suffix C g]"
    unfolding name_core_def
    by (intro splitn_4 underscore_free_dtype underscore_free_shape underscore_free_show_nat)
  show ?thesis
    unfolding parse_dataset_name_def strip rbind_simps prod.case before_first_core [OF assms(2,5)] split
    using parse_group_suffix [OF assms(1,2)]
    by (simp add: dtype_parse_str decode_encode_shape assms(3,4) parse_usize_show_nat)
qed

section \<open>Chunk budgets\<close>

lemma div_mult_le_nat: "a div b * b \<le> (a::nat)"
  by (rule div_times_less_eq_dividend)

lemma capped_product:
  assumes "0 < b" shows "max (MAX_CHUNK_BYTES div b) 1 * b \<le> max MAX_CHUNK_BYTES b"
proof (cases "MAX_CHUNK_BYTES div b \<le> 1")
  case False
  then have "max (MAX_CHUNK_BYTES div b) 1 * b \<le> MAX_CHUNK_BYTES"
    using div_mult_le_nat [of MAX_CHUNK_BYTES b] by (simp add: max_def)
  then show ?thesis by simp
qed (simp add: max_def)

lemma div_ceil_minimal:
  assumes "0 < b" "0 < a" shows "(div_ceil a b - 1) * b < a"
proof -
  define q r where "q = (a + b - 1) div b" and "r = (a + b - 1) mod b"
  have "a + b - 1 = q * b + r" "r < b" using assms(1) by (simp_all add: q_def r_def)
  moreover have "(q - 1) * b = q * b - b" by (simp add: diff_mult_distrib)
  ultimately show ?thesis using assms by (simp add: div_ceil_def q_def [symmetric])
qed

section \<open>The compression policy\<close>

datatype compression = NoCompression | Deflate nat bool

definition default_compression :: compression where "default_compression = Deflate 3 True"

fun compression_validate :: "compression \<Rightarrow> unit result" where
  "compression_validate NoCompression = Inr ()"
| "compression_validate (Deflate level shuffle) =
     (if 9 < level then Inl (InvalidParameter ''deflate compression level must be 0-9'') else Inr ())"

fun compression_encode :: "compression \<Rightarrow> string" where
  "compression_encode NoCompression = ''none''"
| "compression_encode (Deflate level shuffle) =
     ''deflate:'' @ show_nat level @ '':'' @ (if shuffle then ''shuffle'' else ''noshuffle'')"

definition compression_decode :: "string \<Rightarrow> compression" where
  "compression_decode s =
     (if s = ''none'' then NoCompression
      else case split_all (CHR '':'') s of
        p0 # level # shuffle # _ \<Rightarrow>
          if p0 = ''deflate''
          then (case parse_unsigned 255 level of
                  Some n \<Rightarrow> if n \<le> 9 then Deflate n (shuffle \<noteq> ''noshuffle'') else default_compression
                | None \<Rightarrow> default_compression)
          else default_compression
      | _ \<Rightarrow> default_compression)"

lemma colon_free: "CHR '':'' \<notin> set (show_nat n)"
  using show_nat_digits by (fastforce simp: is_ascii_digit_def code_of_def)

lemma split_deflate:
  "CHR '':'' \<notin> set t \<Longrightarrow>
   split_all (CHR '':'') (''deflate:'' @ show_nat n @ '':'' @ t) = [''deflate'', show_nat n, t]"
  using split_all_append [of "CHR '':''" "''deflate''"] split_all_append [OF colon_free, of n t]
  by (simp add: split_all_free)

section \<open>Properties\<close>

text \<open>The name of a packed dataset, with or without a spill suffix, reads back as the identity of
  its pool: element type, element shape, length, and the period or the timestamp hash its columns
  share. No two pools share a name.\<close>

lemma dataset_name_roundtrip:
  assumes "chrono_laws C dim tod" "valid_group g" "\<forall>n \<in> set es. n \<le> usize_max" "len \<le> usize_max"
  shows "parse_dataset_name C (spill_name (dataset_base_name C d es len g) n) = Inr (d, es, len, g)"
  using parse_core [OF assms, of "[]" d] parse_core [OF assms, of "''__'' @ show_nat n" d]
  by (simp add: spill_name_def dataset_base_name_def name_core_def)

text \<open>Chunk sizing. A packed dataset has at least one column and its timestamp row stays within the
  chunk budget unless one column alone exceeds it; a chunk has at least one row and no more than the
  dataset, and when it has more than one, one row fewer would fall below the floor and the chunk
  stays under twice the floor; a forecast's window block has at least one window, never more than
  the axis, and stays within the budget unless one window alone exceeds it.\<close>

lemma chunk_sizes_bounded:
  fixes requested d es cols len s axis
  defines "block \<equiv> max (element_block_bytes d es) 1"
  defines "c \<equiv> resolve_dataset_cols requested d es"
  defines "row \<equiv> max (saturating_mul cols (element_block_bytes d es)) 1"
  defines "r \<equiv> packed_chunk_rows d es cols len"
  defines "w \<equiv> window_block_cols d s axis"
  shows "1 \<le> c \<and> c * block \<le> max MAX_CHUNK_BYTES block \<and>
    1 \<le> r \<and> r \<le> max len 1 \<and> (r = 1 \<or> (r - 1) * row < MIN_CHUNK_BYTES \<and> r * row < 2 * MIN_CHUNK_BYTES) \<and>
    (r < max len 1 \<longrightarrow> MIN_CHUNK_BYTES \<le> r * row) \<and>
    (axis < length s \<longrightarrow> 0 < s ! axis \<longrightarrow>
      1 \<le> w \<and> w \<le> s ! axis \<and> w * window_bytes d s axis \<le> max MAX_CHUNK_BYTES (window_bytes d s axis))"
proof -
  have block: "0 < block" and row: "0 < row" by (simp_all add: block_def row_def)
  have c: "1 \<le> c" "c \<le> max (MAX_CHUNK_BYTES div block) 1"
    using clamp_nat_bounds [of 1 "max (MAX_CHUNK_BYTES div block) 1"]
    by (simp_all add: c_def resolve_dataset_cols_def block_def Let_def)
  have c2: "c * block \<le> max MAX_CHUNK_BYTES block"
    using mult_le_mono1 [OF c(2)] capped_product [OF block] by (rule order_trans)
  have rq: "r = (if MIN_CHUNK_BYTES \<le> row then 1 else clamp_nat (div_ceil MIN_CHUNK_BYTES row) 1 (max len 1))"
    unfolding r_def packed_chunk_rows_def row_def Let_def ..
  have r: "1 \<le> r \<and> r \<le> max len 1 \<and> (r = 1 \<or> (r - 1) * row < MIN_CHUNK_BYTES \<and> r * row < 2 * MIN_CHUNK_BYTES) \<and>
    (r < max len 1 \<longrightarrow> MIN_CHUNK_BYTES \<le> r * row)"
  proof (cases "MIN_CHUNK_BYTES \<le> row")
    case True
    then show ?thesis by (simp add: rq)
  next
    case False
    define q where "q = div_ceil MIN_CHUNK_BYTES row"
    have q: "(q - 1) * row < MIN_CHUNK_BYTES" "MIN_CHUNK_BYTES \<le> q * row"
      using div_ceil_minimal [OF row] div_ceil_mult_ge [OF row] by (simp_all add: q_def MIN_CHUNK_BYTES_def)
    have r: "r = clamp_nat q 1 (max len 1)" using False by (simp add: rq q_def)
    have b: "1 \<le> r" "r \<le> max len 1" using clamp_nat_bounds [of 1 "max len 1" q] by (simp_all add: r)
    have "r - 1 \<le> q - 1 \<or> r = 1" by (auto simp: r clamp_nat_def)
    then have "r = 1 \<or> (r - 1) * row < MIN_CHUNK_BYTES"
      using order.strict_trans1 [OF mult_le_mono1 q(1)] by blast
    moreover have "r * row = (r - 1) * row + row" using b(1) by (cases r) simp_all
    moreover have "r < max len 1 \<Longrightarrow> q \<le> r" by (auto simp: r clamp_nat_def split: if_splits)
    moreover have "q \<le> r \<Longrightarrow> MIN_CHUNK_BYTES \<le> r * row"
      using q(2) mult_le_mono1 order_trans by blast
    ultimately show ?thesis
      using b False by linarith
  qed
  have w: "1 \<le> w \<and> w \<le> s ! axis \<and> w * window_bytes d s axis \<le> max MAX_CHUNK_BYTES (window_bytes d s axis)"
    if "axis < length s" "0 < s ! axis"
  proof -
    define b where "b = window_bytes d s axis"
    have b: "0 < b" by (simp add: b_def window_bytes_def)
    have w: "w = min (max (MAX_CHUNK_BYTES div b) 1) (s ! axis)"
      using that by (simp add: w_def window_block_cols_def get_at_def b_def Let_def)
    have "w * b \<le> max (MAX_CHUNK_BYTES div b) 1 * b" unfolding w by (intro mult_le_mono1) simp
    then have "w * b \<le> max MAX_CHUNK_BYTES b" using capped_product [OF b] by (rule order_trans)
    then show ?thesis using that(2) w by (simp add: b_def)
  qed
  show ?thesis using c(1) c2 r w by blast
qed

text \<open>Every compression policy that passes validation survives being stored as an attribute.\<close>

lemma compression_roundtrip:
  assumes "compression_validate c = Inr ()"
  shows "compression_decode (compression_encode c) = c"
proof (cases c)
  case NoCompression
  then show ?thesis by (simp add: compression_decode_def)
next
  case (Deflate level shuffle)
  have "level \<le> 9" using assms Deflate by (auto split: if_splits)
  then have "parse_unsigned 255 (show_nat level) = Some level" by (simp add: parse_unsigned_def)
  then show ?thesis
    using \<open>level \<le> 9\<close> split_deflate [of "if shuffle then ''shuffle'' else ''noshuffle''" level]
    by (simp add: Deflate compression_decode_def)
qed

lemma compression_roundtrip_witness:
  "compression_decode (compression_encode (Deflate 9 False)) = Deflate 9 False"
  by (rule compression_roundtrip) simp

end
