(* ===== verification/Backend.thy ===== *)
theory Backend
  imports Layout
begin

text \<open>
  The storage seam of \<open>crates/infrastore-core/src/storage.rs\<close> and its in-memory implementation
  \<open>storage/memory.rs\<close>. The contract of the \<open>StorageBackend\<close> trait is the locale \<open>storage_backend\<close>
  over an abstract state; its provided methods are definitions over the required ones; and
  \<open>MemoryBackend\<close> is an interpretation. A method that takes \<open>&mut self\<close> returns its result and the
  state it leaves, also when the result is an error.
\<close>

section \<open>Layouts and provided methods\<close>

datatype array_layout = Packed | Standalone | StandaloneWindowed nat

fun is_packed :: "array_layout \<Rightarrow> bool" where
  "is_packed Packed = True" | "is_packed _ = False"

datatype array_location = PackedAt string nat | StandaloneAt string | InMemory

fun show_location :: "array_location \<Rightarrow> string" where
  "show_location (PackedAt dataset column) = dataset @ ''[:, '' @ show_nat column @ '']''"
| "show_location (StandaloneAt dataset) = dataset"
| "show_location InMemory = ''(in-memory)''"

definition check_dtype :: "dtype \<Rightarrow> dtype \<Rightarrow> unit result" where
  "check_dtype stored requested =
     (if stored \<noteq> requested then Inl (IntegrityError ''stored dtype differs from the catalog'') else Inr ())"

type_synonym 's put = "'s \<Rightarrow> hash \<Rightarrow> typed_array \<Rightarrow> pack_group \<Rightarrow> array_layout \<Rightarrow> bool result \<times> 's"
type_synonym get_slice = "hash \<Rightarrow> dtype \<Rightarrow> nat \<times> nat \<Rightarrow> ts_error failure + typed_array"

fun put_packed_block :: "'s put \<Rightarrow> 's \<Rightarrow> (hash \<times> typed_array) list \<Rightarrow> pack_group \<Rightarrow> bool list result \<times> 's" where
  "put_packed_block put s [] g = (Inr [], s)"
| "put_packed_block put s ((h, a) # rest) g =
     (case put s h a g Packed of
        (Inl e, s') \<Rightarrow> (Inl e, s')
      | (Inr new, s') \<Rightarrow>
          (case put_packed_block put s' rest g of
             (Inl e, s'') \<Rightarrow> (Inl e, s'')
           | (Inr news, s'') \<Rightarrow> (Inr (new # news), s'')))"

definition read_arrays :: "(hash \<Rightarrow> dtype \<Rightarrow> typed_array result) \<Rightarrow> hash list \<Rightarrow> dtype list \<Rightarrow> typed_array list result" where
  "read_arrays get hashes dtypes = rmap_all (\<lambda>(h, d). get h d) (zip hashes dtypes)"

definition read_index_into :: "get_slice \<Rightarrow> hash list \<Rightarrow> dtype \<Rightarrow> nat \<Rightarrow> ts_error failure + byte list" where
  "read_index_into get_slice hashes d index =
     rfold (\<lambda>out h. rbind (get_slice h d (index, index + 1)) (\<lambda>step. Inr (out @ bytes step))) [] hashes"

definition read_indices_into :: "get_slice \<Rightarrow> hash list \<Rightarrow> dtype \<Rightarrow> nat list \<Rightarrow> ts_error failure + byte list" where
  "read_indices_into get_slice hashes d indices =
     rfold (\<lambda>out (h, index). rbind (get_slice h d (index, index + 1)) (\<lambda>step. Inr (out @ bytes step)))
       [] (zip hashes indices)"

definition read_ranges_by_slice ::
  "get_slice \<Rightarrow> hash list \<Rightarrow> dtype list \<Rightarrow> (nat \<times> nat) list \<Rightarrow> ts_error failure + byte list" where
  "read_ranges_by_slice get_slice hashes dtypes ranges =
     rfold (\<lambda>out ((h, d), range). rbind (get_slice h d range) (\<lambda>step. Inr (out @ bytes step)))
       [] (zip (zip hashes dtypes) ranges)"

definition read_window_block_into ::
  "(hash \<Rightarrow> dtype \<Rightarrow> typed_array result) \<Rightarrow> hash \<Rightarrow> dtype \<Rightarrow> nat \<Rightarrow> nat \<Rightarrow> nat \<Rightarrow> ts_error failure + byte list" where
  "read_window_block_into get h d count_axis window_start len =
     rbind (raise (get h d)) (\<lambda>a. write_window_block a count_axis window_start len [])"

definition verify :: "(byte list \<Rightarrow> hash) \<Rightarrow> (hash \<Rightarrow> dtype \<Rightarrow> typed_array result) \<Rightarrow> (hash \<times> dtype) list \<Rightarrow> string list" where
  "verify sha256 get arrays =
     concat (map (\<lambda>(h, d). case get h d of
         Inr a \<Rightarrow> if array_hash sha256 a \<noteq> h then [''hash mismatch''] else []
       | Inl NotFound \<Rightarrow> [''dangling reference'']
       | Inl _ \<Rightarrow> [''read error'']) arrays)"

definition locate :: "(hash \<Rightarrow> bool result) \<Rightarrow> hash \<Rightarrow> array_location result" where
  "locate contains h = rbind (contains h) (\<lambda>c. if c then Inr InMemory else Inl NotFound)"

text \<open>What a block write leaves: the first occurrence of every hash not already held.\<close>

fun add_new :: "(hash \<rightharpoonup> typed_array) \<Rightarrow> (hash \<times> typed_array) list \<Rightarrow> hash \<rightharpoonup> typed_array" where
  "add_new m [] = m"
| "add_new m ((h, a) # rest) = add_new (if m h = None then m(h \<mapsto> a) else m) rest"

lemma add_new_lookup:
  "add_new m block h = (case m h of Some a \<Rightarrow> Some a | None \<Rightarrow> map_of block h)"
  by (induction m block rule: add_new.induct) (auto split: option.splits)

lemma one_step_slice:
  assumes wf: "wf_array a" and i: "i < ta_length a"
  shows "\<exists>b c. slice_axis a 0 (i, i + 1) = Inr b \<and> ta_step a i = Inr c \<and> bytes b = bytes c"
proof -
  obtain n s where s: "shape a = n # s" using i by (cases "shape a") (simp_all add: ta_length_def)
  have "i + 1 \<le> shape a ! 0" "0 < length (shape a)" using i by (simp_all add: s ta_length_def)
  then have "write_window_block a 0 i 1 [] =
      Inr (segment (i * (prod_list s * dtype_size (arr_dtype a))) (prod_list s * dtype_size (arr_dtype a)) (bytes a))"
    using write_window_block_Inr [OF wf, of 0 i 1 "[]"] by (simp add: s)
  then show ?thesis
    using ta_step_ok(2) [OF wf i] i by (simp add: slice_axis_def s ta_length_def element_shape_def)
qed

section \<open>The contract\<close>

text \<open>
  \<open>stored\<close> and \<open>vectors\<close> are the abstract contents: what is held under each content hash. A put under
  a hash already held leaves the contents and says so; a remove of an absent hash is a no-op.
\<close>

locale storage_backend =
  fixes stored :: "'s \<Rightarrow> hash \<rightharpoonup> typed_array"
    and vectors :: "'s \<Rightarrow> hash \<rightharpoonup> datetime list"
    and valid_vector :: "datetime list \<Rightarrow> bool"
    and put :: "'s put"
    and get :: "'s \<Rightarrow> hash \<Rightarrow> dtype \<Rightarrow> typed_array result"
    and slice :: "'s \<Rightarrow> get_slice"
    and remove :: "'s \<Rightarrow> hash \<Rightarrow> unit result \<times> 's"
    and put_ts :: "'s \<Rightarrow> hash \<Rightarrow> datetime list \<Rightarrow> bool result \<times> 's"
    and get_ts :: "'s \<Rightarrow> hash \<Rightarrow> datetime list result"
    and remove_ts :: "'s \<Rightarrow> hash \<Rightarrow> unit result \<times> 's"
  assumes put_result: "fst (put s h a g l) = Inr (stored s h = None)"
    and put_stored: "stored (snd (put s h a g l)) = (if stored s h = None then (stored s)(h \<mapsto> a) else stored s)"
    and put_vectors: "vectors (snd (put s h a g l)) = vectors s"
    and get_found: "stored s h = Some a \<Longrightarrow> get s h d = (if arr_dtype a = d then Inr a else Inl (IntegrityError ''stored dtype differs from the catalog''))"
    and get_missing: "stored s h = None \<Longrightarrow> get s h d = Inl NotFound"
    and slice_get: "get s h d = Inr a \<Longrightarrow> slice s h d r = slice_axis a 0 r"
    and slice_missing: "get s h d = Inl e \<Longrightarrow> slice s h d r = Inl (Raised e)"
    and remove_stored: "stored (snd (remove s h)) = (stored s)(h := None)"
    and remove_vectors: "vectors (snd (remove s h)) = vectors s"
    and put_ts_vectors: "valid_vector ts \<Longrightarrow>
          vectors (snd (put_ts s h ts)) = (if vectors s h = None then (vectors s)(h \<mapsto> ts) else vectors s)"
    and put_ts_stored: "stored (snd (put_ts s h ts)) = stored s"
    and get_ts_vectors: "vectors s h = Some ts \<Longrightarrow> valid_vector ts \<Longrightarrow> get_ts s h = Inr ts"
    and get_ts_missing: "vectors s h = None \<Longrightarrow> get_ts s h = Inl NotFound"
    and remove_ts_vectors: "vectors (snd (remove_ts s h)) = (vectors s)(h := None)"
    and remove_ts_stored: "stored (snd (remove_ts s h)) = stored s"
begin

lemma put_packed_block:
  "fst (put_packed_block put s block g) =
     Inr (map (\<lambda>i. stored s (fst (block ! i)) = None \<and> fst (block ! i) \<notin> fst ` set (take i block)) [0..<length block]) \<and>
   stored (snd (put_packed_block put s block g)) = add_new (stored s) block"
proof (induction block arbitrary: s)
  case (Cons b rest)
  obtain h a where b: "b = (h, a)" by (cases b)
  obtain s' where put: "put s h a g Packed = (Inr (stored s h = None), s')"
    using put_result [of s h a g Packed] by (cases "put s h a g Packed") simp
  then have st: "stored s' = (if stored s h = None then (stored s)(h \<mapsto> a) else stored s)"
    using put_stored [of s h a g Packed] by simp
  have "map (\<lambda>i. stored s (fst ((b # rest) ! i)) = None \<and> fst ((b # rest) ! i) \<notin> fst ` set (take i (b # rest)))
      [0..<length (b # rest)] =
    (stored s h = None) # map (\<lambda>i. stored s' (fst (rest ! i)) = None \<and> fst (rest ! i) \<notin> fst ` set (take i rest))
      [0..<length rest]"
    by (simp add: b st upt_conv_Cons map_Suc_upt [symmetric] del: upt_Suc) auto
  moreover obtain r s'' where rest: "put_packed_block put s' rest g = (r, s'')" by fastforce
  moreover have "stored s'' = add_new (stored s') rest"
    "r = Inr (map (\<lambda>i. stored s' (fst (rest ! i)) = None \<and> fst (rest ! i) \<notin> fst ` set (take i rest)) [0..<length rest])"
    using Cons.IH [of s'] rest by simp_all
  ultimately show ?case by (simp only: b put_packed_block.simps put prod.case sum.case fst_conv snd_conv
        add_new.simps st)
qed simp

lemma get_array_iff: "get s h d = Inr a \<longleftrightarrow> stored s h = Some a \<and> arr_dtype a = d"
  using get_found [of s h _ d] get_missing [of s h d] by (cases "stored s h") (auto split: if_splits)

text \<open>What a batch of stored arrays of one element type reads back.\<close>

definition holds :: "'s \<Rightarrow> dtype \<Rightarrow> hash list \<Rightarrow> bool" where
  "holds s d hs \<longleftrightarrow> (\<forall>h \<in> set hs. \<exists>a. stored s h = Some a \<and> arr_dtype a = d \<and> wf_array a)"

lemma read_steps:
  assumes "holds s d hs" "\<forall>h \<in> set hs. \<forall>a. stored s h = Some a \<longrightarrow> i < ta_length a"
  shows "read_index_into (slice s) hs d i =
    Inr (concat (map (\<lambda>h. case ta_step (the (stored s h)) i of Inr b \<Rightarrow> bytes b | Inl _ \<Rightarrow> []) hs))"
proof -
  have "rbind (slice s h d (i, i + 1)) (\<lambda>step. Inr (out @ bytes step)) =
      Inr (out @ (case ta_step (the (stored s h)) i of Inr b \<Rightarrow> bytes b | Inl _ \<Rightarrow> []))"
    if "h \<in> set hs" for h out
  proof -
    obtain a where a: "stored s h = Some a" "arr_dtype a = d" "wf_array a" "i < ta_length a"
      using assms \<open>h \<in> set hs\<close> by (auto simp: holds_def)
    then have "slice s h d (i, i + 1) = slice_axis a 0 (i, i + 1)"
      by (intro slice_get) (simp add: get_array_iff)
    with one_step_slice [OF a(3,4)] a show ?thesis by auto
  qed
  then show ?thesis by (simp add: read_index_into_def rfold_append_steps)
qed

end

section \<open>The readers agree\<close>

lemma read_indices_replicate:
  "length indices = length hs \<Longrightarrow> set indices \<subseteq> {i} \<Longrightarrow> read_indices_into sl hs d indices = read_index_into sl hs d i"
proof -
  have "rfold (\<lambda>out (h, index). rbind (sl h d (index, index + 1)) (\<lambda>step. Inr (out @ bytes step))) out (zip hs indices) =
      rfold (\<lambda>out h. rbind (sl h d (i, i + 1)) (\<lambda>step. Inr (out @ bytes step))) out hs"
    if "length hs = length indices" "set indices \<subseteq> {i}" for out
    using that by (induction hs indices arbitrary: out rule: list_induct2) (simp_all cong: rbind_cong)
  then show "length indices = length hs \<Longrightarrow> set indices \<subseteq> {i} \<Longrightarrow> read_indices_into sl hs d indices = read_index_into sl hs d i"
    by (simp add: read_indices_into_def read_index_into_def)
qed

lemma read_ranges_indices:
  assumes "length hs = length indices"
  shows "read_ranges_by_slice sl hs (replicate (length hs) d) (map (\<lambda>i. (i, i + 1)) indices) =
    read_indices_into sl hs d indices"
proof -
  have "rfold (\<lambda>out ((h, d), range). rbind (sl h d range) (\<lambda>step. Inr (out @ bytes step))) out
        (zip (zip hs (replicate (length hs) d)) (map (\<lambda>i. (i, i + 1)) indices)) =
      rfold (\<lambda>out (h, index). rbind (sl h d (index, index + 1)) (\<lambda>step. Inr (out @ bytes step))) out (zip hs indices)"
    for out
    using assms by (induction hs indices arbitrary: out rule: list_induct2) (simp_all cong: rbind_cong)
  then show ?thesis by (simp add: read_ranges_by_slice_def read_indices_into_def)
qed

section \<open>The in-memory backend\<close>

record memory_backend =
  arrays :: "hash \<rightharpoonup> typed_array"
  tombstoned :: "hash set"
  timestamps :: "hash \<rightharpoonup> int list"

definition memory_new :: memory_backend where
  "memory_new = \<lparr>arrays = Map.empty, tombstoned = {}, timestamps = Map.empty\<rparr>"

definition mem_put_array :: "memory_backend put" where
  "mem_put_array s h a g l =
     (let s = s\<lparr>tombstoned := tombstoned s - {h}\<rparr>
      in case arrays s h of
           Some _ \<Rightarrow> (Inr False, s)
         | None \<Rightarrow> (Inr True, s\<lparr>arrays := (arrays s)(h \<mapsto> a)\<rparr>))"

definition mem_get_array :: "memory_backend \<Rightarrow> hash \<Rightarrow> dtype \<Rightarrow> typed_array result" where
  "mem_get_array s h d =
     rbind (ok_or (arrays s h) NotFound) (\<lambda>a. rbind (check_dtype (arr_dtype a) d) (\<lambda>_. Inr a))"

definition mem_array_shape :: "memory_backend \<Rightarrow> hash \<Rightarrow> nat list result" where
  "mem_array_shape s h = ok_or (map_option shape (arrays s h)) NotFound"

definition mem_get_slice :: "memory_backend \<Rightarrow> get_slice" where
  "mem_get_slice s h d rng =
     rbind (raise (rbind (ok_or (arrays s h) NotFound) (\<lambda>a. rbind (check_dtype (arr_dtype a) d) (\<lambda>_. Inr a))))
       (\<lambda>a. slice_axis a 0 rng)"

definition mem_remove_array :: "memory_backend \<Rightarrow> hash \<Rightarrow> unit result \<times> memory_backend" where
  "mem_remove_array s h =
     (Inr (), case arrays s h of
        Some _ \<Rightarrow> s\<lparr>arrays := (arrays s)(h := None), tombstoned := insert h (tombstoned s)\<rparr>
      | None \<Rightarrow> s)"

definition mem_contains :: "memory_backend \<Rightarrow> hash \<Rightarrow> bool result" where
  "mem_contains s h = Inr (arrays s h \<noteq> None)"

definition mem_put_timestamps :: "chrono \<Rightarrow> memory_backend \<Rightarrow> hash \<Rightarrow> datetime list \<Rightarrow> bool result \<times> memory_backend" where
  "mem_put_timestamps C s h ts =
     (case timestamps s h of
        Some _ \<Rightarrow> (Inr False, s)
      | None \<Rightarrow> (Inr True, s\<lparr>timestamps := (timestamps s)(h \<mapsto> to_millis C ts)\<rparr>))"

definition mem_get_timestamps :: "chrono \<Rightarrow> memory_backend \<Rightarrow> hash \<Rightarrow> datetime list result" where
  "mem_get_timestamps C s h = rbind (ok_or (timestamps s h) NotFound) (from_millis C)"

definition mem_remove_timestamps :: "memory_backend \<Rightarrow> hash \<Rightarrow> unit result \<times> memory_backend" where
  "mem_remove_timestamps s h = (Inr (), s\<lparr>timestamps := (timestamps s)(h := None)\<rparr>)"

definition mem_timestamp_hashes :: "memory_backend \<Rightarrow> hash set result" where
  "mem_timestamp_hashes s = Inr (dom (timestamps s))"

record compaction_report =
  slots_reclaimed :: nat
  datasets_dropped :: nat
  feature_sets_reclaimed :: nat
  timestamp_sets_reclaimed :: nat
  bytes_reclaimed :: nat

definition mem_compact :: "memory_backend \<Rightarrow> compaction_report result \<times> memory_backend" where
  "mem_compact s =
     (Inr \<lparr>slots_reclaimed = card (tombstoned s), datasets_dropped = 0, feature_sets_reclaimed = 0,
           timestamp_sets_reclaimed = 0, bytes_reclaimed = 0\<rparr>,
      s\<lparr>tombstoned := {}\<rparr>)"

text \<open>A stored vector of milliseconds that no write could have produced reads as no valid vector.\<close>

definition mem_vectors :: "chrono \<Rightarrow> memory_backend \<Rightarrow> hash \<rightharpoonup> datetime list" where
  "mem_vectors C s h =
     map_option (\<lambda>ms. case from_millis C ms of Inr ts \<Rightarrow> ts | Inl _ \<Rightarrow> [DateTime 0 1]) (timestamps s h)"

definition storable_vector :: "chrono \<Rightarrow> datetime list \<Rightarrow> bool" where
  "storable_vector C ts \<longleftrightarrow> (\<forall>t \<in> set ts. storable C t)"

lemma memory_backend_laws:
  assumes C: "chrono_laws C dim tod"
  shows "storage_backend arrays (mem_vectors C) (storable_vector C) mem_put_array mem_get_array mem_get_slice
    mem_remove_array (mem_put_timestamps C) (mem_get_timestamps C) mem_remove_timestamps"
proof
  fix s h a g l d r e ts
  have bogus: "\<not> storable_vector C [DateTime 0 1]"
    by (simp add: storable_vector_def storable_def require_millisecond_precision_def)
  show "fst (mem_put_array s h a g l) = Inr (arrays s h = None)"
    "arrays (snd (mem_put_array s h a g l)) = (if arrays s h = None then (arrays s)(h \<mapsto> a) else arrays s)"
    "mem_vectors C (snd (mem_put_array s h a g l)) = mem_vectors C s"
    by (auto simp: mem_put_array_def mem_vectors_def Let_def fun_eq_iff split: option.splits)
  show "arrays s h = Some a \<Longrightarrow> mem_get_array s h d =
      (if arr_dtype a = d then Inr a else Inl (IntegrityError ''stored dtype differs from the catalog''))"
    "arrays s h = None \<Longrightarrow> mem_get_array s h d = Inl NotFound"
    by (simp_all add: mem_get_array_def check_dtype_def)
  show "mem_get_array s h d = Inr a \<Longrightarrow> mem_get_slice s h d r = slice_axis a 0 r"
    "mem_get_array s h d = Inl e \<Longrightarrow> mem_get_slice s h d r = Inl (Raised e)"
    by (auto simp: mem_get_array_def mem_get_slice_def raise_def map_err_def rbind_def split: sum.splits)
  show "arrays (snd (mem_remove_array s h)) = (arrays s)(h := None)"
    "mem_vectors C (snd (mem_remove_array s h)) = mem_vectors C s"
    by (auto simp: mem_remove_array_def mem_vectors_def fun_eq_iff split: option.splits)
  show "storable_vector C ts \<Longrightarrow> mem_vectors C (snd (mem_put_timestamps C s h ts)) =
      (if mem_vectors C s h = None then (mem_vectors C s)(h \<mapsto> ts) else mem_vectors C s)"
    using chrono_laws.from_to_millis [OF C, of ts]
    by (auto simp: mem_put_timestamps_def mem_vectors_def storable_vector_def fun_eq_iff split: option.splits)
  show "arrays (snd (mem_put_timestamps C s h ts)) = arrays s"
    by (simp add: mem_put_timestamps_def split: option.splits)
  show "mem_vectors C s h = Some ts \<Longrightarrow> storable_vector C ts \<Longrightarrow> mem_get_timestamps C s h = Inr ts"
    using bogus by (cases "timestamps s h") (auto simp: mem_vectors_def mem_get_timestamps_def split: sum.splits)
  show "mem_vectors C s h = None \<Longrightarrow> mem_get_timestamps C s h = Inl NotFound"
    by (simp add: mem_vectors_def mem_get_timestamps_def)
  show "mem_vectors C (snd (mem_remove_timestamps s h)) = (mem_vectors C s)(h := None)"
    "arrays (snd (mem_remove_timestamps s h)) = arrays s"
    by (auto simp: mem_remove_timestamps_def mem_vectors_def fun_eq_iff)
qed

interpretation memory: storage_backend arrays "mem_vectors gregorian" "storable_vector gregorian"
  mem_put_array mem_get_array mem_get_slice mem_remove_array "mem_put_timestamps gregorian"
  "mem_get_timestamps gregorian" mem_remove_timestamps
  by (rule memory_backend_laws [OF gregorian_laws])

section \<open>Runs of the in-memory backend\<close>

inductive mem_reachable :: "chrono \<Rightarrow> memory_backend \<Rightarrow> bool" for C where
  mem_start: "mem_reachable C memory_new"
| mem_put: "mem_reachable C s \<Longrightarrow> mem_reachable C (snd (mem_put_array s h a g l))"
| mem_remove: "mem_reachable C s \<Longrightarrow> mem_reachable C (snd (mem_remove_array s h))"
| mem_put_ts: "mem_reachable C s \<Longrightarrow> mem_reachable C (snd (mem_put_timestamps C s h ts))"
| mem_remove_ts: "mem_reachable C s \<Longrightarrow> mem_reachable C (snd (mem_remove_timestamps s h))"
| mem_compaction: "mem_reachable C s \<Longrightarrow> mem_reachable C (snd (mem_compact s))"

definition tombstones_apart :: "memory_backend \<Rightarrow> bool" where
  "tombstones_apart s \<longleftrightarrow> finite (tombstoned s) \<and> tombstoned s \<inter> dom (arrays s) = {}"

lemma reachable_tombstones: "mem_reachable C s \<Longrightarrow> tombstones_apart s"
proof (induction rule: mem_reachable.induct)
  case (mem_put s h a g l)
  then show ?case by (auto simp: tombstones_apart_def mem_put_array_def Let_def split: option.splits)
next
  case (mem_remove s h)
  then show ?case by (auto simp: tombstones_apart_def mem_remove_array_def split: option.splits if_splits)
qed (auto simp: tombstones_apart_def memory_new_def mem_put_timestamps_def mem_remove_timestamps_def
    mem_compact_def split: option.splits)

section \<open>Properties\<close>

text \<open>C11: a block write stores, for every content hash not already held, the first array of the block
  under that hash, leaves every other entry alone, and flags exactly the inputs it physically
  wrote: those whose hash was neither stored before nor earlier in the block.\<close>

theorem put_packed_block_correct:
  "fst (put_packed_block mem_put_array s block g) =
     Inr (map (\<lambda>i. arrays s (fst (block ! i)) = None \<and> fst (block ! i) \<notin> fst ` set (take i block)) [0..<length block]) \<and>
   arrays (snd (put_packed_block mem_put_array s block g)) h =
     (case arrays s h of Some a \<Rightarrow> Some a | None \<Rightarrow> map_of block h)"
  using memory.put_packed_block add_new_lookup by metis

text \<open>The three row readers agree. Over well-formed arrays of one element type that are long enough,
  reading a row gives each array's step in order; reading a row index per column with equal indices
  and reading one-row ranges give the same bytes.\<close>

lemma row_readers_agree:
  assumes "\<forall>h \<in> set hs. \<exists>a. arrays s h = Some a \<and> arr_dtype a = d \<and> wf_array a \<and> i < ta_length a"
  shows "read_index_into (mem_get_slice s) hs d i =
      Inr (concat (map (\<lambda>h. case ta_step (the (arrays s h)) i of Inr b \<Rightarrow> bytes b | Inl _ \<Rightarrow> []) hs)) \<and>
    read_indices_into (mem_get_slice s) hs d (replicate (length hs) i) = read_index_into (mem_get_slice s) hs d i \<and>
    read_ranges_by_slice (mem_get_slice s) hs (replicate (length hs) d) (replicate (length hs) (i, i + 1)) =
      read_index_into (mem_get_slice s) hs d i"
proof -
  have "memory.holds s d hs" "\<forall>h \<in> set hs. \<forall>a. arrays s h = Some a \<longrightarrow> i < ta_length a"
    using assms by (auto simp: memory.holds_def)
  note steps = memory.read_steps [OF this]
  have same: "read_indices_into (mem_get_slice s) hs d (replicate (length hs) i) = read_index_into (mem_get_slice s) hs d i"
    by (intro read_indices_replicate) auto
  moreover have "read_ranges_by_slice (mem_get_slice s) hs (replicate (length hs) d) (replicate (length hs) (i, i + 1)) =
      read_indices_into (mem_get_slice s) hs d (replicate (length hs) i)"
    using read_ranges_indices [of hs "replicate (length hs) i" "mem_get_slice s" d] by simp
  ultimately show ?thesis using steps by simp
qed

text \<open>C13: an integrity check reports nothing exactly when every array the catalog names is held with
  the element type the catalog gives it and hashes to the hash it is stored under.\<close>

theorem verify_correct:
  "verify sha256 (mem_get_array s) named = [] \<longleftrightarrow>
     list_all (\<lambda>(h, d). case arrays s h of
       None \<Rightarrow> False | Some a \<Rightarrow> arr_dtype a = d \<and> array_hash sha256 a = h) named"
proof -
  have "(case mem_get_array s h d of
         Inr a \<Rightarrow> if array_hash sha256 a \<noteq> h then [''hash mismatch''] else []
       | Inl NotFound \<Rightarrow> [''dangling reference'']
       | Inl _ \<Rightarrow> [''read error'']) = [] \<longleftrightarrow>
      (case arrays s h of None \<Rightarrow> False | Some a \<Rightarrow> arr_dtype a = d \<and> array_hash sha256 a = h)" for h d
    by (cases "arrays s h") (simp_all add: memory.get_found memory.get_missing)
  then show ?thesis by (auto simp: verify_def list_all_iff)
qed

text \<open>C12: in every state the in-memory backend can reach, no array is both held and marked removed, so a
  compaction counts exactly the removed arrays that were not stored again.\<close>

theorem tombstones_disjoint:
  assumes "mem_reachable C s"
  shows "finite (tombstoned s) \<and> tombstoned s \<inter> dom (arrays s) = {}"
  using reachable_tombstones [OF assms] by (simp add: tombstones_apart_def)

theorem tombstones_disjoint_witness:
  "tombstoned (snd (mem_put_array (snd (mem_remove_array (snd (mem_put_array memory_new [1] demo_array
       (Regular (Months 1)) Packed)) [1])) [1] demo_array (Regular (Months 1)) Packed)) \<inter>
   dom (arrays (snd (mem_put_array (snd (mem_remove_array (snd (mem_put_array memory_new [1] demo_array
       (Regular (Months 1)) Packed)) [1])) [1] demo_array (Regular (Months 1)) Packed))) = {}"
  using tombstones_disjoint [OF mem_put [OF mem_remove [OF mem_put [OF mem_start]]]] by blast

end
