(* ===== verification/Reader.thy ===== *)
theory Reader
  imports Metadata Backend
begin

text \<open>
  \<open>crates/infrastore-core/src/reader.rs\<close>: the timestamp-oriented readers, and the functions of
  \<open>store.rs\<close> that drive them (\<open>static_read\<close>, \<open>forecast_read\<close>, \<open>merge_breakpoints\<close>).

  A reader is a plan that owns its buffers, so every operation that takes \<open>&mut self\<close> returns the
  changed reader together with its result, and a failed read shows what it left behind. The backend
  reads a reader is driven with are closures in the code and arguments here: such a closure is given
  the output buffer and returns what it made of it, also when it fails.
\<close>

type_synonym 'i row_read =
  "hash list \<Rightarrow> dtype \<Rightarrow> 'i \<Rightarrow> byte list \<Rightarrow> byte list \<times> (ts_error failure + unit)"

section \<open>Timelines\<close>

datatype timeline =
    RegularTimeline datetime period nat
  | IrregularTimeline "datetime list"
  | PersistentTimeline "datetime list list" "datetime list"

fun timeline_length :: "timeline \<Rightarrow> nat" where
  "timeline_length (RegularTimeline _ _ len) = len"
| "timeline_length (IrregularTimeline ts) = length ts"
| "timeline_length (PersistentTimeline _ axis) = length axis"

fun timeline_type :: "timeline \<Rightarrow> time_series_type" where
  "timeline_type (RegularTimeline _ _ _) = SingleTimeSeries"
| "timeline_type (IrregularTimeline _) = NonSequentialTimeSeries"
| "timeline_type (PersistentTimeline _ _) = PersistentTimeSeries"

text \<open>\<open>slice::binary_search\<close> on a strictly increasing vector.\<close>

definition binary_search :: "'a::linorder list \<Rightarrow> 'a \<Rightarrow> nat option" where
  "binary_search xs x = bisect (\<lambda>y. cmp_of y x) xs 0 (length xs)"

fun index_on_timeline :: "chrono \<Rightarrow> timeline \<Rightarrow> datetime \<Rightarrow> nat result" where
  "index_on_timeline C (RegularTimeline initial res len) at = index_on_grid C initial res len at"
| "index_on_timeline C (IrregularTimeline ts) at =
     ok_or (binary_search ts at) (InvalidParameter ''timestamp is not on the timeline'')"
| "index_on_timeline C (PersistentTimeline _ _) at = Inl (IntegrityError ''a persistent timeline resolves a row per column'')"

definition merge_breakpoints :: "datetime list list \<Rightarrow> datetime list" where
  "merge_breakpoints vectors = remdups_adj (sort (concat vectors))"

section \<open>Static groups\<close>

record static_group =
  g_element_type :: element_type
  g_element_shape :: "nat list"
  g_ids :: "int list"
  g_hashes :: "hash list"
  g_vector_ids :: "nat list"
  g_row_offsets :: "nat list"
  g_rows :: "nat list"
  g_buf :: "byte list"
  g_filled :: bool

definition group_values :: "static_group \<Rightarrow> byte list" where
  "group_values g = (if g_filled g then g_buf g else [])"

definition values_to_vec :: "'a element \<Rightarrow> static_group \<Rightarrow> 'a list result" where
  "values_to_vec E g =
     (if physical_dtype (g_element_type g) \<noteq> elem_dtype E then Inl (InvalidParameter ''wrong dtype'')
      else Inr (map (from_le_bytes E) (chunks_exact (dtype_size (elem_dtype E)) (group_values g))))"

text \<open>The shared tail of the three fills: the buffer the read left, filled when it succeeded.\<close>

definition after_read :: "static_group \<Rightarrow> byte list \<times> (ts_error failure + unit) \<Rightarrow> static_group \<times> (ts_error failure + unit)" where
  "after_read g out =
     (case out of
        (buf, Inl e) \<Rightarrow> (g\<lparr>g_buf := buf\<rparr>, Inl e)
      | (buf, Inr u) \<Rightarrow> (g\<lparr>g_buf := buf, g_filled := True\<rparr>, Inr ()))"

definition fill :: "nat row_read \<Rightarrow> nat \<Rightarrow> static_group \<Rightarrow> static_group \<times> (ts_error failure + unit)" where
  "fill read index g =
     (let g' = g\<lparr>g_filled := False\<rparr>
      in after_read g' (read (g_hashes g') (physical_dtype (g_element_type g')) index (g_buf g')))"

fun push_rows :: "nat list \<Rightarrow> nat list \<Rightarrow> nat list \<Rightarrow> nat list \<times> (ts_error failure + unit)" where
  "push_rows per_vector [] rows = (rows, Inr ())"
| "push_rows per_vector (v # vs) rows =
     (case get_at per_vector v of
        None \<Rightarrow> (rows, Inl (Raised (IntegrityError ''unknown breakpoint vector'')))
      | Some row \<Rightarrow> push_rows per_vector vs (rows @ [row]))"

definition fill_per_vector :: "nat list row_read \<Rightarrow> nat list \<Rightarrow> static_group \<Rightarrow> static_group \<times> (ts_error failure + unit)" where
  "fill_per_vector read per_vector g =
     (case push_rows per_vector (g_vector_ids g) [] of
        (rows, Inl e) \<Rightarrow> (g\<lparr>g_rows := rows\<rparr>, Inl e)
      | (rows, Inr _) \<Rightarrow>
          let g' = g\<lparr>g_rows := rows\<rparr>
          in after_read g' (read (g_hashes g') (physical_dtype (g_element_type g')) rows (g_buf g')))"

definition fill_at_offsets :: "nat list row_read \<Rightarrow> nat \<Rightarrow> static_group \<Rightarrow> static_group \<times> (ts_error failure + unit)" where
  "fill_at_offsets read index g =
     (let g' = g\<lparr>g_rows := map (\<lambda>off. index + off) (g_row_offsets g)\<rparr>
      in after_read g' (read (g_hashes g') (physical_dtype (g_element_type g')) (g_rows g') (g_buf g')))"

text \<open>A loop over groups that stops at the first error.\<close>

fun fill_groups ::
    "(static_group \<Rightarrow> static_group \<times> (ts_error failure + unit)) \<Rightarrow> static_group list \<Rightarrow>
     static_group list \<times> (ts_error failure + unit)" where
  "fill_groups f [] = ([], Inr ())"
| "fill_groups f (g # gs) =
     (case f g of
        (g', Inl e) \<Rightarrow> (g' # gs, Inl e)
      | (g', Inr _) \<Rightarrow> (case fill_groups f gs of (gs', r) \<Rightarrow> (g' # gs', r)))"

section \<open>The static reader\<close>

record static_reader =
  r_timeline :: timeline
  r_time_reference :: "time_reference option"
  r_groups :: "static_group list"
  r_per_vector :: "nat list"

definition reader_type :: "static_reader \<Rightarrow> time_series_type" where
  "reader_type R = timeline_type (r_timeline R)"

definition reader_length :: "static_reader \<Rightarrow> nat" where
  "reader_length R = timeline_length (r_timeline R)"

definition reader_initial_timestamp :: "static_reader \<Rightarrow> ts_error failure + datetime" where
  "reader_initial_timestamp R =
     (case r_timeline R of
        RegularTimeline initial _ _ \<Rightarrow> Inr initial
      | IrregularTimeline ts \<Rightarrow> ok_or (get_at ts 0) Panicked
      | PersistentTimeline _ axis \<Rightarrow> ok_or (get_at axis 0) Panicked)"

definition reader_resolution :: "static_reader \<Rightarrow> period option" where
  "reader_resolution R = (case r_timeline R of RegularTimeline _ res _ \<Rightarrow> Some res | _ \<Rightarrow> None)"

definition invalidate :: "static_reader \<Rightarrow> static_reader" where
  "invalidate R = R\<lparr>r_groups := map (\<lambda>g. g\<lparr>g_filled := False\<rparr>) (r_groups R)\<rparr>"

definition reader_index_at :: "chrono \<Rightarrow> static_reader \<Rightarrow> datetime \<Rightarrow> nat result" where
  "reader_index_at C R at =
     (case r_timeline R of
        RegularTimeline initial res len \<Rightarrow> index_on_grid C initial res len at
      | IrregularTimeline ts \<Rightarrow> ok_or (binary_search ts at) (InvalidParameter ''timestamp is not on the timeline'')
      | PersistentTimeline _ axis \<Rightarrow>
          ok_or (index_at axis at) (InvalidParameter ''before the first breakpoint''))"

definition reader_timestamp_at :: "chrono \<Rightarrow> static_reader \<Rightarrow> nat \<Rightarrow> datetime result" where
  "reader_timestamp_at C R index =
     (case r_timeline R of
        RegularTimeline initial res len \<Rightarrow> timestamp_on_grid C initial res len index
      | IrregularTimeline ts \<Rightarrow> ok_or (get_at ts index) (InvalidParameter ''index is past the timeline extent'')
      | PersistentTimeline _ axis \<Rightarrow> ok_or (get_at axis index) (InvalidParameter ''index is past the timeline extent''))"

definition reader_timestamps :: "chrono \<Rightarrow> static_reader \<Rightarrow> ts_error failure + datetime list" where
  "reader_timestamps C R =
     rmap_all (\<lambda>k. map_err (\<lambda>_. Panicked) (reader_timestamp_at C R k)) [0..<reader_length R]"

fun resolve_vectors :: "datetime list list \<Rightarrow> datetime \<Rightarrow> nat list \<Rightarrow> nat list \<times> (ts_error failure + unit)" where
  "resolve_vectors [] at rows = (rows, Inr ())"
| "resolve_vectors (bs # vectors) at rows =
     (case index_at bs at of
        None \<Rightarrow> (rows, Inl (Raised (InvalidParameter ''before the first breakpoint of a column'')))
      | Some row \<Rightarrow> resolve_vectors vectors at (rows @ [row]))"

definition read_at ::
    "chrono \<Rightarrow> nat row_read \<Rightarrow> nat list row_read \<Rightarrow> datetime \<Rightarrow> static_reader \<Rightarrow>
     static_reader \<times> (ts_error failure + unit)" where
  "read_at C uniform scattered at R =
     (case r_timeline R of
        PersistentTimeline vectors _ \<Rightarrow>
          (case resolve_vectors vectors at [] of
             (rows, Inl e) \<Rightarrow> (R\<lparr>r_per_vector := rows\<rparr>, Inl e)
           | (rows, Inr _) \<Rightarrow>
               (case fill_groups (fill_per_vector scattered rows) (r_groups R) of
                  (gs, r) \<Rightarrow> (R\<lparr>r_per_vector := rows, r_groups := gs\<rparr>, r)))
      | _ \<Rightarrow>
          (case index_on_timeline C (r_timeline R) at of
             Inl e \<Rightarrow> (R, Inl (Raised e))
           | Inr index \<Rightarrow>
               (case fill_groups (\<lambda>g. if g_row_offsets g = [] then fill uniform index g
                    else fill_at_offsets scattered index g) (r_groups R) of
                  (gs, r) \<Rightarrow> (R\<lparr>r_groups := gs\<rparr>, r))))"

definition static_read ::
    "chrono \<Rightarrow> nat row_read \<Rightarrow> nat list row_read \<Rightarrow> static_reader \<Rightarrow> datetime \<Rightarrow>
     static_reader \<times> (ts_error failure + unit)" where
  "static_read C uniform scattered R at =
     (case read_at C uniform scattered at R of
        (R', Inl e) \<Rightarrow> (invalidate R', Inl e)
      | (R', Inr u) \<Rightarrow> (R', Inr u))"

subsection \<open>Building it\<close>

definition grid_of :: "ts_metadata \<Rightarrow> (datetime \<times> period \<times> nat) result" where
  "grid_of m =
     (if m_type m \<noteq> SingleTimeSeries then Inl (InvalidParameter ''StaticReader handles SingleTimeSeries only'')
      else rbind (ok_or (m_initial_timestamp m) (IntegrityError ''missing initial_timestamp'')) (\<lambda>initial.
           rbind (ok_or (m_resolution m) (IntegrityError ''missing resolution'')) (\<lambda>res.
           rbind (ok_or (m_length m) (IntegrityError ''missing length'')) (\<lambda>len.
             Inr (initial, res, len)))))"

fun check_grids :: "datetime \<times> period \<times> nat \<Rightarrow> ts_metadata list \<Rightarrow> unit result" where
  "check_grids axis [] = Inr ()"
| "check_grids axis (r # rows) =
     rbind (grid_of r) (\<lambda>g.
       if g \<noteq> axis then Inl (InvalidParameter ''StaticReader requires a uniform grid'') else check_grids axis rows)"

definition regular_timeline :: "ts_metadata list \<Rightarrow> timeline result" where
  "regular_timeline rows =
     (case rows of
        [] \<Rightarrow> Inl (InvalidParameter ''no SingleTimeSeries match the filter'')
      | first # _ \<Rightarrow>
          rbind (grid_of first) (\<lambda>axis. rbind (check_grids axis rows) (\<lambda>_.
            case axis of (initial, res, len) \<Rightarrow> Inr (RegularTimeline initial res len))))"

definition place_row :: "chrono \<Rightarrow> period \<Rightarrow> datetime \<Rightarrow> bool \<Rightarrow> ts_metadata \<Rightarrow> (ts_metadata \<times> nat) result" where
  "place_row C res anchor zoneless_bound r =
     rbind (check_against (range_spelled anchor anchor zoneless_bound) (m_time_reference r)) (\<lambda>_.
     rbind (ok_or (m_initial_timestamp r) (IntegrityError ''a SingleTimeSeries with no start'')) (\<lambda>initial.
     rbind (map_err (\<lambda>_. InvalidParameter ''the anchor is not on the grid'') (steps_between C res initial anchor)) (\<lambda>offset.
       Inr (r, offset))))"

fun check_anchorable :: "chrono \<Rightarrow> period \<Rightarrow> nat \<Rightarrow> (ts_metadata \<times> nat) list \<Rightarrow> ts_error failure + unit" where
  "check_anchorable C res len [] = Inr ()"
| "check_anchorable C res len ((r, offset) # placed) =
     (case m_initial_timestamp r of
        None \<Rightarrow> Inl Panicked
      | Some initial \<Rightarrow>
          if \<not> sub_grid_is_anchorable C res initial offset len
          then Inl (Raised (InvalidParameter ''cannot be re-anchored'')) else check_anchorable C res len placed)"

definition remaining_steps :: "ts_metadata \<times> nat \<Rightarrow> nat" where
  "remaining_steps p = (case m_length (fst p) of Some n \<Rightarrow> n | None \<Rightarrow> 0) - snd p"

definition window_timeline ::
    "chrono \<Rightarrow> ts_metadata list \<Rightarrow> period \<Rightarrow> datetime \<Rightarrow> bool \<Rightarrow> nat option \<Rightarrow>
     ts_error failure + (timeline \<times> (ts_metadata \<times> nat) list)" where
  "window_timeline C rows res anchor zoneless_bound len =
     (if rows = [] then Inl (Raised (InvalidParameter ''no SingleTimeSeries match the filter''))
      else rbind (raise (rmap_all (place_row C res anchor zoneless_bound) rows)) (\<lambda>placed.
        let n = (case len of Some n \<Rightarrow> n
                 | None \<Rightarrow> if placed = [] then 0 else Min (set (map remaining_steps placed)))
        in if n = 0 then Inl (Raised (InvalidParameter ''the reader window is empty''))
           else rbind (check_anchorable C res n placed) (\<lambda>_. Inr (RegularTimeline anchor res n, placed))))"

definition cohort_time_reference :: "ts_metadata list \<Rightarrow> time_reference option result" where
  "cohort_time_reference rows =
     (if list_ex (\<lambda>r. m_time_reference r = Some Zoneless) rows \<and>
         list_ex (\<lambda>r. m_time_reference r \<noteq> Some Zoneless) rows
      then Inl (InvalidParameter ''the matched series disagree on their spelling'')
      else case rows of
             [] \<Rightarrow> Inr None
           | first # _ \<Rightarrow>
               if list_all (\<lambda>r. m_time_reference r = m_time_reference first) rows
               then Inr (m_time_reference first) else Inr (Some Utc))"

datatype column_role = SharedRole | VectorRole | OffsetRole

definition check_column :: "timeline \<Rightarrow> column_role \<Rightarrow> ts_metadata \<times> nat \<Rightarrow> unit result" where
  "check_column line role rc =
     (case rc of (r, companion) \<Rightarrow>
        if m_type r \<noteq> timeline_type line then Inl (InvalidParameter ''wrong type of series'')
        else if role = OffsetRole
        then (case line of
                RegularTimeline _ _ len \<Rightarrow>
                  (let have = (case m_length r of Some n \<Rightarrow> n | None \<Rightarrow> 0)
                   in case checked_usize (companion + len) of
                        None \<Rightarrow> Inl (InvalidParameter ''does not cover the reader window'')
                      | Some need \<Rightarrow>
                          if have < need then Inl (InvalidParameter ''does not cover the reader window'') else Inr ())
              | _ \<Rightarrow> Inl (IntegrityError ''a reader window applies to a regular grid only''))
        else rbind (case line of
                      PersistentTimeline vectors _ \<Rightarrow>
                        ok_or (map_option length (get_at vectors companion)) (IntegrityError ''unknown breakpoint vector'')
                    | _ \<Rightarrow> Inr (timeline_length line))
               (\<lambda>expected. if m_length r \<noteq> Some expected
                  then Inl (InvalidParameter ''StaticReader requires a uniform timeline'') else Inr ()))"

definition cmp_identity :: "ts_metadata \<Rightarrow> ts_metadata \<Rightarrow> ordering" where
  "cmp_identity a b =
     then_with (cmp_on m_owner_id cmp_of a b)
      (then_with (cmp_on (\<lambda>m. utf8 (owner_category_str (m_owner_category m))) cmp_bytes a b)
        (then_with (cmp_on (\<lambda>m. utf8 (m_name m)) cmp_bytes a b)
          (cmp_on m_features cmp_features a b)))"

definition cmp_layout :: "ts_metadata \<Rightarrow> ts_metadata \<Rightarrow> ordering" where
  "cmp_layout a b =
     then_with (cmp_on m_element_type cmp_of a b)
      (then_with (cmp_on m_element_shape (cmp_list cmp_of) a b) (cmp_identity a b))"

definition new_group :: "ts_metadata \<Rightarrow> static_group" where
  "new_group r =
     \<lparr>g_element_type = m_element_type r, g_element_shape = m_element_shape r, g_ids = [], g_hashes = [],
      g_vector_ids = [], g_row_offsets = [], g_rows = [], g_buf = [], g_filled = False\<rparr>"

definition push_column :: "column_role \<Rightarrow> int \<Rightarrow> ts_metadata \<times> nat \<Rightarrow> static_group \<Rightarrow> static_group" where
  "push_column role rid rc g =
     g\<lparr>g_ids := g_ids g @ [rid], g_hashes := g_hashes g @ [m_data_hash (fst rc)],
       g_vector_ids := g_vector_ids g @ (if role = VectorRole then [snd rc] else []),
       g_row_offsets := g_row_offsets g @ (if role = OffsetRole then [snd rc] else [])\<rparr>"

fun add_columns :: "column_role \<Rightarrow> static_group list \<Rightarrow> (ts_metadata \<times> nat) list \<Rightarrow> static_group list result" where
  "add_columns role groups [] = Inr groups"
| "add_columns role groups (rc # rest) =
     (let r = fst rc;
          push_new = (groups = [] \<or>
            (g_element_type (last groups), g_element_shape (last groups)) \<noteq> (m_element_type r, m_element_shape r));
          groups = (if push_new then groups @ [new_group r] else groups)
      in case m_id r of
           None \<Rightarrow> Inl (IntegrityError ''a reader column carries no catalog id'')
         | Some rid \<Rightarrow> add_columns role (butlast groups @ [push_column role rid rc (last groups)]) rest)"

definition drop_zero_offsets :: "static_group \<Rightarrow> static_group" where
  "drop_zero_offsets g = (if list_all (\<lambda>off. off = 0) (g_row_offsets g) then g\<lparr>g_row_offsets := []\<rparr> else g)"

definition build_groups_inner :: "timeline \<Rightarrow> (ts_metadata \<times> nat) list \<Rightarrow> column_role \<Rightarrow> static_reader result" where
  "build_groups_inner line rows role =
     (if rows = [] then Inl (InvalidParameter ''no series match the filter'')
      else if timeline_length line = 0 then Inl (InvalidParameter ''no timestamps to read'')
      else rbind (rmap_all (check_column line role) rows) (\<lambda>_.
           rbind (cohort_time_reference (map fst rows)) (\<lambda>tr.
           rbind (add_columns role [] (sort_by (cmp_on fst cmp_layout) rows)) (\<lambda>groups.
             Inr \<lparr>r_timeline = line, r_time_reference = tr, r_groups = map drop_zero_offsets groups, r_per_vector = []\<rparr>))))"

definition build_groups :: "timeline \<Rightarrow> ts_metadata list \<Rightarrow> static_reader result" where
  "build_groups line rows = build_groups_inner line (map (\<lambda>r. (r, 0)) rows) SharedRole"

definition build_groups_persistent :: "timeline \<Rightarrow> (ts_metadata \<times> nat) list \<Rightarrow> static_reader result" where
  "build_groups_persistent line rows = build_groups_inner line rows VectorRole"

definition build_groups_windowed :: "timeline \<Rightarrow> (ts_metadata \<times> nat) list \<Rightarrow> static_reader result" where
  "build_groups_windowed line rows = build_groups_inner line rows OffsetRole"

end
