(* ===== verification/ReaderLayout.thy ===== *)
theory ReaderLayout
  imports Reader
begin

text \<open>
  How a static reader arranges its columns: the sorted rows, cut into runs of one element type and
  shape, each run a group whose parallel vectors all come from the same rows. The layout does not
  depend on the order the catalog produced the rows in.
\<close>

section \<open>The row order\<close>

definition identity_eqv :: "ts_metadata \<Rightarrow> ts_metadata \<Rightarrow> bool" where
  "identity_eqv a b \<longleftrightarrow> m_owner_id a = m_owner_id b \<and> m_owner_category a = m_owner_category b \<and>
     m_name a = m_name b \<and> features_eqv (m_features a) (m_features b)"

definition layout_eqv :: "ts_metadata \<Rightarrow> ts_metadata \<Rightarrow> bool" where
  "layout_eqv a b \<longleftrightarrow> m_element_type a = m_element_type b \<and> m_element_shape a = m_element_shape b \<and> identity_eqv a b"

lemma owner_category_utf8: "utf8 (owner_category_str a) = utf8 (owner_category_str b) \<longleftrightarrow> a = b"
  by (cases a; cases b) (simp_all add: utf8_inject)

lemma owner_category_str_inject [simp]: "owner_category_str a = owner_category_str b \<longleftrightarrow> a = b"
  by (cases a; cases b) simp_all

interpretation identity_order: ord_contract cmp_identity identity_eqv
proof -
  have "ord_contract cmp_identity
    (\<lambda>a b. m_owner_id a = m_owner_id b \<and> utf8 (owner_category_str (m_owner_category a)) = utf8 (owner_category_str (m_owner_category b)) \<and>
      utf8 (m_name a) = utf8 (m_name b) \<and> features_eqv (m_features a) (m_features b))"
    unfolding cmp_identity_def [abs_def]
    by (intro then_contract linorder_cmp.on_contract bytes_cmp.on_contract features_order.on_contract)
  then show "ord_contract cmp_identity identity_eqv"
    by (rule back_subst [of "ord_contract cmp_identity"])
      (simp add: fun_eq_iff identity_eqv_def owner_category_utf8 utf8_inject)
qed

interpretation layout_order: ord_contract cmp_layout layout_eqv
proof -
  have "list_all2 (=) = ((=) :: nat list \<Rightarrow> _)" by (rule list.rel_eq)
  moreover have "ord_contract cmp_layout (\<lambda>a b. m_element_type a = m_element_type b \<and>
      list_all2 (=) (m_element_shape a) (m_element_shape b) \<and> identity_eqv a b)"
    unfolding cmp_layout_def [abs_def]
    by (intro then_contract linorder_cmp.on_contract ord_contract.on_contract linorder_cmp.list_contract
        identity_order.ord_contract_axioms)
  ultimately show "ord_contract cmp_layout layout_eqv" by (simp add: layout_eqv_def [abs_def])
qed

section \<open>Runs\<close>

type_synonym column = "ts_metadata \<times> nat"

definition column_key :: "column \<Rightarrow> element_type \<times> nat list" where
  "column_key rc = (m_element_type (fst rc), m_element_shape (fst rc))"

definition uniform_run :: "column list \<Rightarrow> bool" where
  "uniform_run run \<longleftrightarrow> run \<noteq> [] \<and> (\<forall>rc \<in> set run. column_key rc = column_key (hd run) \<and> m_id (fst rc) \<noteq> None)"

definition group_of :: "column_role \<Rightarrow> column list \<Rightarrow> static_group" where
  "group_of role run =
     \<lparr>g_element_type = fst (column_key (hd run)), g_element_shape = snd (column_key (hd run)),
      g_ids = map (\<lambda>rc. the (m_id (fst rc))) run, g_hashes = map (\<lambda>rc. m_data_hash (fst rc)) run,
      g_vector_ids = (if role = VectorRole then map snd run else []),
      g_row_offsets = (if role = OffsetRole then map snd run else []), g_rows = [], g_buf = [], g_filled = False\<rparr>"

definition runs_of :: "column list list \<Rightarrow> bool" where
  "runs_of runs \<longleftrightarrow> (\<forall>run \<in> set runs. uniform_run run) \<and> distinct_adj (map (\<lambda>run. column_key (hd run)) runs)"

lemma group_of_fields [simp]:
  "g_element_type (group_of role run) = m_element_type (fst (hd run))"
  "g_element_shape (group_of role run) = m_element_shape (fst (hd run))"
  by (simp_all add: group_of_def column_key_def)

lemma push_group_new: "m_id (fst rc) = Some rid \<Longrightarrow> push_column role rid rc (new_group (fst rc)) = group_of role [rc]"
  by (simp add: push_column_def new_group_def group_of_def column_key_def)

lemma push_group_more: "run \<noteq> [] \<Longrightarrow> m_id (fst rc) = Some rid \<Longrightarrow> push_column role rid rc (group_of role run) = group_of role (run @ [rc])"
  by (simp add: push_column_def group_of_def)

lemma add_columns_runs:
  assumes "add_columns role (map (group_of role) runs) rows = Inr groups" "runs_of runs"
  shows "\<exists>runs'. groups = map (group_of role) runs' \<and> concat runs' = concat runs @ rows \<and> runs_of runs'"
  using assms
proof (induction rows arbitrary: runs)
  case Nil
  then show ?case by auto
next
  case (Cons rc rest)
  obtain rid where rid: "m_id (fst rc) = Some rid"
    using Cons.prems(1) by (cases "m_id (fst rc)") (simp_all add: Let_def)
  show ?case
  proof (cases "runs \<noteq> [] \<and> column_key (hd (last runs)) = column_key rc")
    case False
    then have new: "map (group_of role) runs = [] \<or>
      (g_element_type (last (map (group_of role) runs)), g_element_shape (last (map (group_of role) runs))) \<noteq>
        (m_element_type (fst rc), m_element_shape (fst rc))"
      by (auto simp: last_map group_of_def column_key_def)
    have "add_columns role (map (group_of role) (runs @ [[rc]])) rest = Inr groups"
      using Cons.prems(1) new rid by (simp add: Let_def push_group_new)
    note step = Cons.IH [OF this]
    have "runs_of (runs @ [[rc]])"
    proof -
      have "uniform_run [rc]" using rid by (simp add: uniform_run_def)
      moreover have "runs = [] \<or> last (map (\<lambda>run. column_key (hd run)) runs) \<noteq> column_key rc"
        using False by (cases runs rule: rev_cases) simp_all
      ultimately show ?thesis using Cons.prems(2) by (auto simp: runs_of_def distinct_adj_append_iff)
    qed
    from step [OF this] show ?thesis by simp
  next
    case True
    then obtain front run where runs: "runs = front @ [run]" by (metis append_butlast_last_id)
    have run: "uniform_run run" using Cons.prems(2) by (simp add: runs runs_of_def)
    then have ne: "run \<noteq> []" by (simp add: uniform_run_def)
    have "add_columns role (map (group_of role) (front @ [run @ [rc]])) rest = Inr groups"
      using Cons.prems(1) True rid push_group_more [OF ne rid, of role] ne by (simp add: Let_def runs column_key_def)
    note step = Cons.IH [OF this]
    have "runs_of (front @ [run @ [rc]])"
    proof -
      have rc: "column_key rc = column_key (hd run)" using True by (simp add: runs)
      have "column_key c = column_key (hd run) \<and> m_id (fst c) \<noteq> None" if "c \<in> set (run @ [rc])" for c
      proof (cases "c = rc")
        case True
        show ?thesis unfolding True using rc rid by blast
      next
        case False
        then have "c \<in> set run" using that by simp
        then show ?thesis using run unfolding uniform_run_def by blast
      qed
      then have "uniform_run (run @ [rc])" unfolding uniform_run_def hd_append2 [OF ne] by blast
      then show ?thesis using Cons.prems(2) ne by (simp add: runs_of_def runs)
    qed
    from step [OF this] show ?thesis by (simp add: runs)
  qed
qed

lemma build_groups_inner_runs:
  assumes "build_groups_inner line rows role = Inr R"
  obtains runs where "r_timeline R = line" "r_groups R = map (\<lambda>run. drop_zero_offsets (group_of role run)) runs"
    "concat runs = sort_by (cmp_on fst cmp_layout) rows" "runs_of runs"
    "\<And>rc. rc \<in> set rows \<Longrightarrow> check_column line role rc = Inr ()" "rows \<noteq> []" "timeline_length line \<noteq> 0"
proof -
  from assms obtain us tr groups where
    checked: "rmap_all (check_column line role) rows = Inr us"
    and groups: "add_columns role [] (sort_by (cmp_on fst cmp_layout) rows) = Inr groups"
    and R: "R = \<lparr>r_timeline = line, r_time_reference = tr, r_groups = map drop_zero_offsets groups, r_per_vector = []\<rparr>"
    and ne: "rows \<noteq> []" "timeline_length line \<noteq> 0"
    by (auto simp: build_groups_inner_def result_elims split: if_splits)
  have "runs_of []" by (simp add: runs_of_def)
  then obtain runs where "groups = map (group_of role) runs" "concat runs = sort_by (cmp_on fst cmp_layout) rows" "runs_of runs"
    using add_columns_runs [of role "[]"] groups by auto
  moreover have "check_column line role rc = Inr ()" if "rc \<in> set rows" for rc
    using checked that by (auto simp: result_elims list_all2_conv_all_nth in_set_conv_nth)
  ultimately show thesis using that [of runs] R ne by (simp add: comp_def)
qed

section \<open>One group per element type and shape\<close>

lemma distinct_of_sorted_adj:
  assumes "sorted_wrt (\<lambda>a b. c a b \<noteq> GreaterThan) ks" "distinct_adj ks"
    and "ord_contract c (=)"
  shows "distinct ks"
  using assms(1,2)
proof (induction ks)
  case (Cons k ks)
  have "k \<notin> set ks"
  proof
    assume k: "k \<in> set ks"
    then obtain k' ks' where ks: "ks = k' # ks'" by (cases ks) auto
    have "k \<noteq> k'" using Cons.prems(2) ks by simp
    then have "k \<in> set ks'" using k ks by simp
    then have "c k k' \<noteq> GreaterThan" "c k' k \<noteq> GreaterThan" using Cons.prems(1) ks by auto
    then have "c k k' = EqualTo"
      using ord_contract.cmp_reverse [OF assms(3), of k k'] by (cases "c k k'"; cases "c k' k"; simp)
    with \<open>k \<noteq> k'\<close> show False using ord_contract.cmp_eqv [OF assms(3)] by simp
  qed
  then show ?case using Cons by (auto simp: distinct_adj_Cons)
qed simp

lemma sorted_wrt_concat_hd:
  "sorted_wrt P (concat xss) \<Longrightarrow> [] \<notin> set xss \<Longrightarrow> sorted_wrt P (map hd xss)"
proof (induction xss)
  case (Cons xs xss)
  have "P (hd xs) (hd ys)" if "ys \<in> set xss" for ys
  proof -
    have "hd xs \<in> set xs" "hd ys \<in> set (concat xss)" using Cons.prems(2) that by (auto intro!: hd_in_set)
    then show ?thesis using Cons.prems(1) by (auto simp: sorted_wrt_append)
  qed
  then show ?case using Cons by (auto simp: sorted_wrt_append)
qed simp

lemma runs_distinct:
  assumes "runs_of runs" "concat runs = sort_by (cmp_on fst cmp_layout) rows"
  shows "distinct (map (\<lambda>run. column_key (hd run)) runs)"
proof -
  let ?c = "\<lambda>a b :: element_type \<times> nat list. cmp_pair cmp_of (cmp_list cmp_of) a b"
  have types: "ord_contract (cmp_of :: element_type \<Rightarrow> _) (=)" by (rule linorder_cmp.ord_contract_axioms)
  have shapes: "ord_contract (cmp_list (cmp_of :: nat \<Rightarrow> _)) (=)"
    using linorder_cmp.list_contract by (simp add: list.rel_eq)
  have contract: "ord_contract ?c (=)"
    by (rule back_subst [of "ord_contract ?c", OF pair_contract [OF types shapes]]) (simp add: fun_eq_iff prod_eq_iff)
  have "sorted_wrt (\<lambda>a b. cmp_on fst cmp_layout a b \<noteq> GreaterThan) (concat runs)"
    unfolding assms(2) by (rule ord_contract.sorted_sort_by [OF layout_order.on_contract])
  then have "sorted_wrt (\<lambda>a b. ?c (column_key a) (column_key b) \<noteq> GreaterThan) (concat runs)"
  proof (rule sorted_wrt_mono_rel [rotated])
    fix a b :: column assume "cmp_on fst cmp_layout a b \<noteq> GreaterThan"
    then show "?c (column_key a) (column_key b) \<noteq> GreaterThan"
      by (auto simp: cmp_on_def cmp_layout_def cmp_pair_def column_key_def split: ordering.splits elim!: then_with.elims)
  qed
  moreover have "[] \<notin> set runs" using assms(1) by (auto simp: runs_of_def uniform_run_def)
  ultimately have "sorted_wrt (\<lambda>a b. ?c (column_key a) (column_key b) \<noteq> GreaterThan) (map hd runs)"
    by (rule sorted_wrt_concat_hd)
  then have "sorted_wrt (\<lambda>a b. ?c a b \<noteq> GreaterThan) (map (\<lambda>run. column_key (hd run)) runs)"
    by (simp add: sorted_wrt_map)
  then show ?thesis using distinct_of_sorted_adj [OF _ _ contract] assms(1) by (simp add: runs_of_def)
qed


section \<open>Independence of the row order\<close>

lemma cohort_time_reference_set:
  assumes "set rows = set rows'" shows "cohort_time_reference rows = cohort_time_reference rows'"
proof (cases rows)
  case Nil
  then show ?thesis using assms by simp
next
  case (Cons a as)
  then obtain b bs where b: "rows' = b # bs" using assms by (cases rows') auto
  have sets: "list_ex P rows = list_ex P rows'" for P using assms by (simp add: list_ex_iff)
  have "a \<in> set rows'" "b \<in> set rows" using assms Cons b by auto
  then have all: "list_all (\<lambda>r. m_time_reference r = m_time_reference a) rows =
      list_all (\<lambda>r. m_time_reference r = m_time_reference b) rows'"
    unfolding list_all_iff assms by metis
  have ref: "m_time_reference a = m_time_reference b"
    if "list_all (\<lambda>r. m_time_reference r = m_time_reference b) rows'"
    using that \<open>a \<in> set rows'\<close> unfolding list_all_iff by blast
  have "(case rows of [] \<Rightarrow> Inr None | first # _ \<Rightarrow>
        if list_all (\<lambda>r. m_time_reference r = m_time_reference first) rows
        then Inr (m_time_reference first) else Inr (Some Utc)) =
      (case rows' of [] \<Rightarrow> Inr None | first # _ \<Rightarrow>
        if list_all (\<lambda>r. m_time_reference r = m_time_reference first) rows'
        then (Inr (m_time_reference first) :: time_reference option result) else Inr (Some Utc))"
    using all ref unfolding Cons b list.case by (cases "list_all (\<lambda>r. m_time_reference r = m_time_reference b) (b # bs)") simp_all
  then show ?thesis unfolding cohort_time_reference_def sets by (simp only:)
qed

lemma rmap_all_unit: "(\<exists>us :: unit list. rmap_all f xs = Inr us) \<longleftrightarrow> (\<forall>x \<in> set xs. f x = Inr ())"
  by (induction xs) (auto simp: result_elims)

lemma build_groups_inner_order:
  assumes ok: "build_groups_inner line rows role = Inr R" and same: "mset rows' = mset rows"
    and separate: "\<And>a b. a \<in> set rows \<Longrightarrow> b \<in> set rows \<Longrightarrow> layout_eqv (fst a) (fst b) \<Longrightarrow> a = b"
  shows "build_groups_inner line rows' role = Inr R"
proof -
  have sets: "set rows' = set rows" "rows' = [] \<longleftrightarrow> rows = []" using same by (auto dest: mset_eq_setD)
  have sorted: "sort_by (cmp_on fst cmp_layout) rows' = sort_by (cmp_on fst cmp_layout) rows"
  proof (rule ord_contract.sort_by_unique [OF layout_order.on_contract same])
    fix a b assume "a \<in> set rows'" "b \<in> set rows'" "cmp_on fst cmp_layout a b = EqualTo"
    then show "a = b" using separate [of a b] by (simp add: sets cmp_on_def layout_order.cmp_eqv)
  qed
  have refs: "cohort_time_reference (map fst rows') = cohort_time_reference (map fst rows)"
    by (rule cohort_time_reference_set) (simp add: sets)
  obtain us where "rmap_all (check_column line role) rows = Inr us"
    using ok by (auto simp: build_groups_inner_def result_elims split: if_splits)
  then obtain us' where "rmap_all (check_column line role) rows' = Inr us'"
    using rmap_all_unit [of "check_column line role" rows] rmap_all_unit [of "check_column line role" rows'] sets by auto
  with ok show ?thesis by (auto simp: build_groups_inner_def result_elims sorted refs sets split: if_splits)
qed

section \<open>Properties\<close>

text \<open>C26: the layout of a static reader. Its groups are the rows in layout order, cut into runs, one
  group per element type and shape; the ids, hashes and companions of a group are those of its run,
  position by position, so no column can be read under another column's offset or breakpoints. When
  no two rows share type, shape and identity, the reader does not depend on the order in which the
  catalog produced the rows.\<close>

theorem static_reader_layout:
  assumes "build_groups_inner line rows role = Inr R"
  shows "(\<exists>runs. concat runs = sort_by (cmp_on fst cmp_layout) rows \<and> (\<forall>run \<in> set runs. uniform_run run) \<and>
      distinct (map (\<lambda>run. column_key (hd run)) runs) \<and>
      r_groups R = map (\<lambda>run. drop_zero_offsets (group_of role run)) runs) \<and>
    (mset rows' = mset rows \<and> (\<forall>a \<in> set rows. \<forall>b \<in> set rows. layout_eqv (fst a) (fst b) \<longrightarrow> a = b) \<longrightarrow>
      build_groups_inner line rows' role = Inr R)"
proof -
  obtain runs where "r_groups R = map (\<lambda>run. drop_zero_offsets (group_of role run)) runs"
    "concat runs = sort_by (cmp_on fst cmp_layout) rows" "runs_of runs"
    by (rule build_groups_inner_runs [OF assms])
  then have "\<exists>runs. concat runs = sort_by (cmp_on fst cmp_layout) rows \<and> (\<forall>run \<in> set runs. uniform_run run) \<and>
      distinct (map (\<lambda>run. column_key (hd run)) runs) \<and>
      r_groups R = map (\<lambda>run. drop_zero_offsets (group_of role run)) runs"
    using runs_distinct [of runs rows] by (auto simp: runs_of_def)
  then show ?thesis using build_groups_inner_order [OF assms] by blast
qed

definition demo_row :: "int \<Rightarrow> element_type \<Rightarrow> hash \<Rightarrow> nat \<Rightarrow> ts_metadata" where
  "demo_row rid t h len =
     \<lparr>m_owner_id = rid, m_owner_type = ''Generator'', m_owner_category = Component, m_type = SingleTimeSeries,
      m_name = ''load'', m_data_hash = h, m_initial_timestamp = Some (day_2024 1 31), m_resolution = Some (Months 1),
      m_length = Some len, m_horizon = None, m_interval = None, m_count = None, m_timestamps = None, m_features = [],
      m_units = None, m_quantity_kind = None, m_unit_system = None, m_time_reference = None, m_component_field = None,
      m_percentiles = None, m_element_type = t, m_element_shape = [], m_application_data = None, m_id = Some rid\<rparr>"

theorem static_reader_layout_witness:
  "\<exists>R. build_groups (RegularTimeline (day_2024 1 31) (Months 1) 3)
      [demo_row 2 (ScalarOf U8) [2] 3, demo_row 1 (ScalarOf F64) [1] 3] = Inr R \<and>
    build_groups (RegularTimeline (day_2024 1 31) (Months 1) 3)
      [demo_row 1 (ScalarOf F64) [1] 3, demo_row 2 (ScalarOf U8) [2] 3] = Inr R"
proof -
  let ?line = "RegularTimeline (day_2024 1 31) (Months 1) 3"
  let ?a = "(demo_row 2 (ScalarOf U8) [2] 3, 0 :: nat)" and ?b = "(demo_row 1 (ScalarOf F64) [1] 3, 0 :: nat)"
  obtain R where R: "build_groups_inner ?line [?a, ?b] SharedRole = Inr R"
    by (simp add: build_groups_inner_def check_column_def demo_row_def cohort_time_reference_def sort_by_def
        cmp_on_def cmp_layout_def cmp_of_def less_element_type_def Let_def)
  have "mset [?b, ?a] = mset [?a, ?b]" by simp
  moreover have "\<forall>a \<in> set [?a, ?b]. \<forall>b \<in> set [?a, ?b]. layout_eqv (fst a) (fst b) \<longrightarrow> a = b"
    by (simp add: layout_eqv_def demo_row_def)
  ultimately have "build_groups_inner ?line [?b, ?a] SharedRole = Inr R"
    using static_reader_layout [OF R, of "[?b, ?a]"] by blast
  with R show ?thesis by (simp add: build_groups_def)
qed

end
