(* ===== verification/ReaderReads.thy ===== *)
theory ReaderReads
  imports ReaderLayout
begin

text \<open>
  Driving a static reader. The store hands it two reads, one row index for a batch of arrays or one
  per array; what it relies on is the locale \<open>row_source\<close>: they deliver the one-row slices of the
  arrays, in order. The provided methods of the storage trait satisfy it over any \<open>get_slice\<close>, so
  the in-memory backend does.
\<close>

section \<open>The row reads, with their output buffer\<close>

text \<open>The loop of the provided methods: the buffer holds the rows read so far also when a slice fails.\<close>

fun slices_into :: "get_slice \<Rightarrow> dtype \<Rightarrow> (hash \<times> nat) list \<Rightarrow> byte list \<Rightarrow> byte list \<times> (ts_error failure + unit)" where
  "slices_into get_slice d [] out = (out, Inr ())"
| "slices_into get_slice d ((h, index) # rest) out =
     (case get_slice h d (index, index + 1) of
        Inl e \<Rightarrow> (out, Inl e)
      | Inr step \<Rightarrow> slices_into get_slice d rest (out @ bytes step))"

definition index_into :: "get_slice \<Rightarrow> nat row_read" where
  "index_into get_slice hs d index out = slices_into get_slice d (map (\<lambda>h. (h, index)) hs) []"

definition indices_into :: "get_slice \<Rightarrow> nat list row_read" where
  "indices_into get_slice hs d rows out = slices_into get_slice d (zip hs rows) []"

definition row_slices :: "get_slice \<Rightarrow> dtype \<Rightarrow> (hash \<times> nat) list \<Rightarrow> byte list \<Rightarrow> bool" where
  "row_slices get_slice d reqs bs \<longleftrightarrow>
     (\<exists>steps. list_all2 (\<lambda>(h, i) step. get_slice h d (i, i + 1) = Inr step) reqs steps \<and> bs = concat (map bytes steps))"

lemma row_slices_simps [simp]:
  "row_slices gs d [] bs \<longleftrightarrow> bs = []"
  "row_slices gs d ((h, i) # reqs) bs \<longleftrightarrow>
     (\<exists>step bs'. gs h d (i, i + 1) = Inr step \<and> row_slices gs d reqs bs' \<and> bs = bytes step @ bs')"
proof -
  show "row_slices gs d [] bs \<longleftrightarrow> bs = []" by (simp add: row_slices_def)
  show "row_slices gs d ((h, i) # reqs) bs \<longleftrightarrow>
     (\<exists>step bs'. gs h d (i, i + 1) = Inr step \<and> row_slices gs d reqs bs' \<and> bs = bytes step @ bs')"
    unfolding row_slices_def list_all2_Cons1 by (safe, force) (rule exI, auto)
qed

lemma slices_into_iff: "slices_into gs d reqs out = (bs, Inr ()) \<longleftrightarrow> (\<exists>bs'. row_slices gs d reqs bs' \<and> bs = out @ bs')"
proof (induction gs d reqs out arbitrary: bs rule: slices_into.induct)
  case (2 gs d h index rest out)
  then show ?case by (cases "gs h d (index, index + 1)") auto
qed auto

locale row_source =
  fixes get_slice :: get_slice and uniform :: "nat row_read" and scattered :: "nat list row_read"
  assumes uniform_rows: "uniform hs d i out = (bs, Inr ()) \<longleftrightarrow> row_slices get_slice d (map (\<lambda>h. (h, i)) hs) bs"
    and scattered_rows: "length rows = length hs \<Longrightarrow>
      scattered hs d rows out = (bs, Inr ()) \<longleftrightarrow> row_slices get_slice d (zip hs rows) bs"

interpretation provided: row_source gs "index_into gs" "indices_into gs" for gs
  by unfold_locales (simp_all add: index_into_def indices_into_def slices_into_iff)

section \<open>The plan a reader keeps\<close>

definition group_plan :: "static_group \<Rightarrow> static_group" where
  "group_plan g = g\<lparr>g_rows := [], g_buf := [], g_filled := False\<rparr>"

definition reader_plan :: "timeline \<Rightarrow> column_role \<Rightarrow> column list list \<Rightarrow> static_reader \<Rightarrow> bool" where
  "reader_plan line role runs R \<longleftrightarrow> r_timeline R = line \<and>
     map group_plan (r_groups R) = map (\<lambda>run. drop_zero_offsets (group_of role run)) runs"

fun role_fits :: "timeline \<Rightarrow> column_role \<Rightarrow> bool" where
  "role_fits (RegularTimeline _ _ _) role \<longleftrightarrow> role \<noteq> VectorRole"
| "role_fits (IrregularTimeline _) role \<longleftrightarrow> role = SharedRole"
| "role_fits (PersistentTimeline _ _) role \<longleftrightarrow> role = VectorRole"

text \<open>The storage row a column reads at an instant.\<close>

fun column_row :: "chrono \<Rightarrow> timeline \<Rightarrow> column_role \<Rightarrow> datetime \<Rightarrow> column \<Rightarrow> nat option" where
  "column_row C (PersistentTimeline vectors axis) role at rc =
     Option.bind (get_at vectors (snd rc)) (\<lambda>bs. index_at bs at)"
| "column_row C line role at rc =
     (case index_on_timeline C line at of
        Inl _ \<Rightarrow> None | Inr i \<Rightarrow> Some (if role = OffsetRole then i + snd rc else i))"

text \<open>The bytes a run holds at an instant: the row of every column, in order.\<close>

definition axis_defined :: "chrono \<Rightarrow> timeline \<Rightarrow> datetime \<Rightarrow> bool" where
  "axis_defined C line at \<longleftrightarrow>
     (case line of
        PersistentTimeline vectors _ \<Rightarrow> list_all (\<lambda>bs. index_at bs at \<noteq> None) vectors
      | _ \<Rightarrow> \<exists>i. index_on_timeline C line at = Inr i)"

definition run_values :: "chrono \<Rightarrow> get_slice \<Rightarrow> timeline \<Rightarrow> column_role \<Rightarrow> datetime \<Rightarrow> column list \<Rightarrow> byte list \<Rightarrow> bool" where
  "run_values C gs line role at run bs \<longleftrightarrow>
     list_all (\<lambda>rc. column_row C line role at rc \<noteq> None) run \<and>
     row_slices gs (physical_dtype (m_element_type (fst (hd run))))
       (map (\<lambda>rc. (m_data_hash (fst rc), the (column_row C line role at rc))) run) bs"

lemma build_reader_plan:
  assumes "build_groups_inner line rows role = Inr R"
  shows "\<exists>runs. concat runs = sort_by (cmp_on fst cmp_layout) rows \<and> runs_of runs \<and> reader_plan line role runs R"
proof -
  obtain runs where "r_timeline R = line" "r_groups R = map (\<lambda>run. drop_zero_offsets (group_of role run)) runs"
    "concat runs = sort_by (cmp_on fst cmp_layout) rows" "runs_of runs"
    by (rule build_groups_inner_runs [OF assms])
  then show ?thesis by (auto simp: reader_plan_def group_plan_def group_of_def drop_zero_offsets_def)
qed

lemma drop_zero_fields [simp]:
  "g_element_type (drop_zero_offsets g) = g_element_type g" "g_hashes (drop_zero_offsets g) = g_hashes g"
  "g_vector_ids (drop_zero_offsets g) = g_vector_ids g"
  "g_row_offsets (drop_zero_offsets g) = (if list_all (\<lambda>off. off = 0) (g_row_offsets g) then [] else g_row_offsets g)"
  by (simp_all add: drop_zero_offsets_def)

lemma plan_fields:
  assumes "group_plan g = drop_zero_offsets (group_of role run)"
  shows "g_element_type g = m_element_type (fst (hd run))" "g_hashes g = map (\<lambda>rc. m_data_hash (fst rc)) run"
    "g_vector_ids g = (if role = VectorRole then map snd run else [])"
    "g_row_offsets g = (if role = OffsetRole \<and> \<not> list_all (\<lambda>rc. snd rc = 0) run then map snd run else [])"
proof -
  have kept: "g_element_type (group_plan g) = g_element_type g" "g_hashes (group_plan g) = g_hashes g"
    "g_vector_ids (group_plan g) = g_vector_ids g" "g_row_offsets (group_plan g) = g_row_offsets g"
    by (simp_all add: group_plan_def)
  note kept = kept [unfolded assms drop_zero_fields, symmetric]
  show "g_element_type g = m_element_type (fst (hd run))" unfolding kept(1) by simp
  show "g_hashes g = map (\<lambda>rc. m_data_hash (fst rc)) run" unfolding kept(2) by (simp add: group_of_def)
  show "g_vector_ids g = (if role = VectorRole then map snd run else [])"
    unfolding kept(3) by (simp add: group_of_def)
  show "g_row_offsets g = (if role = OffsetRole \<and> \<not> list_all (\<lambda>rc. snd rc = 0) run then map snd run else [])"
    unfolding kept(4) by (simp add: group_of_def list.pred_map comp_def)
qed

lemma group_plan_updates [simp]:
  "group_plan (g\<lparr>g_buf := b\<rparr>) = group_plan g" "group_plan (g\<lparr>g_filled := f\<rparr>) = group_plan g"
  "group_plan (g\<lparr>g_rows := r\<rparr>) = group_plan g"
  by (simp_all add: group_plan_def)

lemma after_read_plan [simp]: "group_plan (fst (after_read g out)) = group_plan g"
  by (cases out; cases "snd out") (simp_all add: after_read_def)

lemma fill_plans:
  "group_plan (fst (fill u i g)) = group_plan g" "group_plan (fst (fill_at_offsets s i g)) = group_plan g"
  "group_plan (fst (fill_per_vector s per g)) = group_plan g"
proof -
  show "group_plan (fst (fill u i g)) = group_plan g" by (simp add: fill_def Let_def after_read_plan)
  show "group_plan (fst (fill_at_offsets s i g)) = group_plan g" by (simp add: fill_at_offsets_def Let_def after_read_plan)
  show "group_plan (fst (fill_per_vector s per g)) = group_plan g"
    by (auto simp: fill_per_vector_def Let_def after_read_plan split: prod.split sum.split)
qed

lemma fill_groups_plan:
  assumes "\<And>g. group_plan (fst (f g)) = group_plan g"
  shows "map group_plan (fst (fill_groups f gs)) = map group_plan gs"
proof (induction gs)
  case (Cons g gs)
  then show ?case using assms [of g] by (auto split: prod.split sum.split)
qed simp

lemma after_read_ok:
  "after_read g out = (g', Inr ()) \<longleftrightarrow> (\<exists>bs. out = (bs, Inr ()) \<and> g' = g\<lparr>g_buf := bs, g_filled := True\<rparr>)"
  by (cases out; cases "snd out") (auto simp: after_read_def)

lemma fill_groups_ok:
  "fill_groups f gs = (gs', Inr ()) \<longleftrightarrow> list_all2 (\<lambda>g g'. f g = (g', Inr ())) gs gs'"
proof (induction gs arbitrary: gs')
  case (Cons g gs)
  obtain g1 r1 gs2 r2 where f: "f g = (g1, r1)" "fill_groups f gs = (gs2, r2)" by (metis surj_pair)
  show ?case using Cons [of "tl gs'"] by (cases r1; cases gs') (auto simp: f)
qed auto

lemma push_rows_ok:
  "push_rows per vs rows = (rows', Inr ()) \<longleftrightarrow>
     list_all (\<lambda>v. get_at per v \<noteq> None) vs \<and> rows' = rows @ map (\<lambda>v. the (get_at per v)) vs"
proof (induction per vs rows arbitrary: rows' rule: push_rows.induct)
  case (2 per v vs rows)
  then show ?case by (cases "get_at per v") auto
qed auto

lemma resolve_vectors_ok:
  "resolve_vectors vectors at rows = (rows', Inr ()) \<longleftrightarrow>
     list_all (\<lambda>bs. index_at bs at \<noteq> None) vectors \<and> rows' = rows @ map (\<lambda>bs. the (index_at bs at)) vectors"
proof (induction vectors at rows arbitrary: rows' rule: resolve_vectors.induct)
  case (2 bs vectors at rows)
  then show ?case by (cases "index_at bs at") auto
qed auto

lemma get_at_map: "get_at (map f xs) i = map_option f (get_at xs i)"
  by (simp add: get_at_def)

lemma zip_maps: "zip (map f xs) (map g xs) = map (\<lambda>x. (f x, g x)) xs"
  by (induction xs) simp_all

section \<open>One group\<close>

context row_source
begin

lemma shared_group:
  assumes plan: "group_plan g = drop_zero_offsets (group_of role run)" and fits: "role_fits line role"
    and line: "\<And>vectors axis. line \<noteq> PersistentTimeline vectors axis" and i: "index_on_timeline C line at = Inr i"
  shows "(if g_row_offsets g = [] then fill uniform i g else fill_at_offsets scattered i g) = (g', Inr ()) \<Longrightarrow>
      run_values C get_slice line role at run (group_values g')"
    and "run_values C get_slice line role at run bs \<Longrightarrow>
      \<exists>g'. (if g_row_offsets g = [] then fill uniform i g else fill_at_offsets scattered i g) = (g', Inr ())"
proof -
  note f = plan_fields [OF plan]
  have row: "column_row C line role at rc = Some (if role = OffsetRole then i + snd rc else i)" for rc
    using line i by (cases line) simp_all
  have vals: "run_values C get_slice line role at run bs \<longleftrightarrow>
      row_slices get_slice (physical_dtype (g_element_type g))
        (map (\<lambda>rc. (m_data_hash (fst rc), if role = OffsetRole then i + snd rc else i)) run) bs" for bs
    by (simp add: run_values_def row f(1) list_all_iff)
  have offsets: "g_row_offsets g = [] \<longleftrightarrow> \<not> (role = OffsetRole \<and> \<not> list_all (\<lambda>rc. snd rc = 0) run)"
    unfolding f(4) by auto
  have uni: "map (\<lambda>rc. (m_data_hash (fst rc), if role = OffsetRole then i + snd rc else i)) run =
      map (\<lambda>h. (h, i)) (g_hashes g)" if "g_row_offsets g = []"
    using that unfolding offsets f(2) by (auto simp: list_all_iff)
  have sca: "map (\<lambda>rc. (m_data_hash (fst rc), if role = OffsetRole then i + snd rc else i)) run =
      zip (g_hashes g) (map (\<lambda>off. i + off) (g_row_offsets g))"
    "length (map (\<lambda>off. i + off) (g_row_offsets g)) = length (g_hashes g)" if "g_row_offsets g \<noteq> []"
    using that unfolding offsets f(2,4) by (auto simp: zip_maps comp_def)
  let ?fill = "if g_row_offsets g = [] then fill uniform i g else fill_at_offsets scattered i g"
  have iff: "?fill = (g', Inr ()) \<longleftrightarrow>
      (\<exists>bs rows. run_values C get_slice line role at run bs \<and>
        g' = g\<lparr>g_filled := False, g_rows := rows, g_buf := bs, g_filled := True\<rparr> \<and>
        rows = (if g_row_offsets g = [] then g_rows g else map (\<lambda>off. i + off) (g_row_offsets g)))" for g'
  proof (cases "g_row_offsets g = []")
    case True
    then show ?thesis
      by (auto simp: fill_def Let_def after_read_ok uniform_rows vals uni)
  next
    case False
    then show ?thesis
      by (auto simp: fill_at_offsets_def Let_def after_read_ok scattered_rows [OF sca(2)] vals sca(1))
  qed
  show "?fill = (g', Inr ()) \<Longrightarrow> run_values C get_slice line role at run (group_values g')"
    unfolding iff by (auto simp: group_values_def)
  show "run_values C get_slice line role at run bs \<Longrightarrow> \<exists>g'. ?fill = (g', Inr ())" unfolding iff by blast
qed

lemma persistent_group:
  assumes plan: "group_plan g = drop_zero_offsets (group_of VectorRole run)" and line: "line = PersistentTimeline vectors axis"
    and all: "list_all (\<lambda>bs. index_at bs at \<noteq> None) vectors"
  defines "rows \<equiv> map (\<lambda>bs. the (index_at bs at)) vectors"
  shows "fill_per_vector scattered rows g = (g', Inr ()) \<Longrightarrow>
      run_values C get_slice line VectorRole at run (group_values g')"
    and "run_values C get_slice line VectorRole at run bs \<Longrightarrow> \<exists>g'. fill_per_vector scattered rows g = (g', Inr ())"
proof -
  note f = plan_fields [OF plan]
  have row: "column_row C line VectorRole at rc = get_at rows (snd rc)" for rc
  proof (cases "get_at vectors (snd rc)")
    case (Some bs)
    then have "bs \<in> set vectors" by (auto simp: get_at_def split: if_splits)
    then show ?thesis using all Some by (auto simp: line rows_def get_at_map list_all_iff)
  qed (simp add: line rows_def get_at_map)
  define known where "known \<longleftrightarrow> list_all (\<lambda>rc. get_at rows (snd rc) \<noteq> None) run"
  let ?rows = "map (\<lambda>rc. the (get_at rows (snd rc))) run"
  have pushed: "push_rows rows (g_vector_ids g) [] = (rows', Inr ()) \<longleftrightarrow> known \<and> rows' = ?rows" for rows'
    by (auto simp: push_rows_ok f(3) known_def list.pred_map comp_def)
  have vals: "run_values C get_slice line VectorRole at run bs \<longleftrightarrow>
      known \<and> row_slices get_slice (physical_dtype (g_element_type g)) (zip (g_hashes g) ?rows) bs" for bs
    unfolding run_values_def row known_def f(1,2) zip_maps by simp
  have len: "length ?rows = length (g_hashes g)" by (simp add: f(2))
  have iff: "fill_per_vector scattered rows g = (g', Inr ()) \<longleftrightarrow>
      (\<exists>bs. run_values C get_slice line VectorRole at run bs \<and> g' = g\<lparr>g_rows := ?rows, g_buf := bs, g_filled := True\<rparr>)" for g'
  proof (cases "push_rows rows (g_vector_ids g) []")
    case (Pair rs r)
    show ?thesis
    proof (cases r)
      case (Inl e)
      then have "\<not> known" using pushed [of ?rows] Pair by simp
      then show ?thesis by (simp add: fill_per_vector_def Pair Inl vals)
    next
      case (Inr u)
      then have "known" "rs = ?rows" using pushed [of rs] Pair by simp_all
      then show ?thesis
        by (auto simp: fill_per_vector_def Pair Inr Let_def after_read_ok scattered_rows [OF len] vals)
    qed
  qed
  show "fill_per_vector scattered rows g = (g', Inr ()) \<Longrightarrow> run_values C get_slice line VectorRole at run (group_values g')"
    unfolding iff by (auto simp: group_values_def)
  show "run_values C get_slice line VectorRole at run bs \<Longrightarrow> \<exists>g'. fill_per_vector scattered rows g = (g', Inr ())"
    unfolding iff by blast
qed

section \<open>A whole read\<close>

lemma read_at_groups:
  assumes plan: "reader_plan line role runs R" and fits: "role_fits line role"
  shows "read_at C uniform scattered at R = (R', Inr ()) \<Longrightarrow>
      list_all2 (\<lambda>run g. run_values C get_slice line role at run (group_values g)) runs (r_groups R')"
    and "axis_defined C line at \<Longrightarrow> \<forall>run \<in> set runs. \<exists>bs. run_values C get_slice line role at run bs \<Longrightarrow>
      \<exists>R'. read_at C uniform scattered at R = (R', Inr ())"
proof -
  have line: "r_timeline R = line" using plan by (simp add: reader_plan_def)
  have groups: "list_all2 (\<lambda>g run. group_plan g = drop_zero_offsets (group_of role run)) (r_groups R) runs"
    using plan by (simp add: reader_plan_def list_eq_iff_nth_eq list_all2_conv_all_nth)
  have filled: "list_all2 (\<lambda>run g. run_values C get_slice line role at run (group_values g)) runs gs'"
    if "fill_groups f (r_groups R) = (gs', Inr ())"
      and "\<And>g run g'. group_plan g = drop_zero_offsets (group_of role run) \<Longrightarrow> f g = (g', Inr ()) \<Longrightarrow>
        run_values C get_slice line role at run (group_values g')" for f gs'
    unfolding list_all2_conv_all_nth
  proof (intro conjI allI impI)
    have filled: "list_all2 (\<lambda>g g'. f g = (g', Inr ())) (r_groups R) gs'" using that(1) by (simp add: fill_groups_ok)
    then show "length runs = length gs'" using list_all2_lengthD [OF filled] list_all2_lengthD [OF groups] by simp
    fix i assume "i < length runs"
    then have i: "i < length (r_groups R)" using list_all2_lengthD [OF groups] by simp
    show "run_values C get_slice line role at (runs ! i) (group_values (gs' ! i))"
      by (rule that(2) [OF list_all2_nthD [OF groups i] list_all2_nthD [OF filled i]])
  qed
  have total: "\<exists>gs'. fill_groups f (r_groups R) = (gs', Inr ())"
    if "\<forall>run \<in> set runs. \<exists>bs. run_values C get_slice line role at run bs"
      and "\<And>g run bs. group_plan g = drop_zero_offsets (group_of role run) \<Longrightarrow>
        run_values C get_slice line role at run bs \<Longrightarrow> \<exists>g'. f g = (g', Inr ())" for f
  proof -
    note ready = that(1)
    have "\<forall>g \<in> set (r_groups R). \<exists>g'. f g = (g', Inr ())"
    proof
      fix g assume "g \<in> set (r_groups R)"
      then obtain i where i: "i < length (r_groups R)" "g = r_groups R ! i" by (auto simp: in_set_conv_nth)
      then have "runs ! i \<in> set runs" using list_all2_lengthD [OF groups] by simp
      with ready obtain bs where bs: "run_values C get_slice line role at (runs ! i) bs" by blast
      show "\<exists>g'. f g = (g', Inr ())" unfolding i(2) by (rule that(2) [OF list_all2_nthD [OF groups i(1)] bs])
    qed
    then have "list_all2 (\<lambda>g g'. f g = (g', Inr ())) (r_groups R) (map (\<lambda>g. fst (f g)) (r_groups R))"
      unfolding list.rel_map list_all2_same by (metis fst_conv)
    then show ?thesis unfolding fill_groups_ok by blast
  qed
  show "list_all2 (\<lambda>run g. run_values C get_slice line role at run (group_values g)) runs (r_groups R')"
    if ok: "read_at C uniform scattered at R = (R', Inr ())"
  proof (cases "\<exists>vectors axis. line = PersistentTimeline vectors axis")
    case True
    then obtain vectors axis where v: "line = PersistentTimeline vectors axis" by blast
    then have role: "role = VectorRole" using fits by simp
    from ok obtain rows gs' where rows: "resolve_vectors vectors at [] = (rows, Inr ())"
      and gs: "fill_groups (fill_per_vector scattered rows) (r_groups R) = (gs', Inr ())" "r_groups R' = gs'"
      by (auto simp: read_at_def line v split: prod.splits sum.splits)
    from rows have all: "list_all (\<lambda>bs. index_at bs at \<noteq> None) vectors" and
      eq: "rows = map (\<lambda>bs. the (index_at bs at)) vectors" by (simp_all add: resolve_vectors_ok)
    show ?thesis unfolding gs(2)
      by (rule filled [OF gs(1)]) (use persistent_group(1) [OF _ v all] eq role in simp)
  next
    case False
    then obtain i gs' where i: "index_on_timeline C line at = Inr i"
      and gs: "fill_groups (\<lambda>g. if g_row_offsets g = [] then fill uniform i g else fill_at_offsets scattered i g)
        (r_groups R) = (gs', Inr ())" "r_groups R' = gs'"
      using ok by (cases line) (auto simp: read_at_def line split: prod.splits sum.splits)
    show ?thesis unfolding gs(2)
      by (rule filled [OF gs(1)]) (rule shared_group(1) [OF _ fits _ i], use False in auto)
  qed
  show "\<exists>R'. read_at C uniform scattered at R = (R', Inr ())"
    if defined: "axis_defined C line at" and ready: "\<forall>run \<in> set runs. \<exists>bs. run_values C get_slice line role at run bs"
  proof (cases "\<exists>vectors axis. line = PersistentTimeline vectors axis")
    case True
    then obtain vectors axis where v: "line = PersistentTimeline vectors axis" by blast
    then have role: "role = VectorRole" using fits by simp
    have all: "list_all (\<lambda>bs. index_at bs at \<noteq> None) vectors" using defined by (simp add: axis_defined_def v)
    then have rows: "resolve_vectors vectors at [] = (map (\<lambda>bs. the (index_at bs at)) vectors, Inr ())"
      by (simp add: resolve_vectors_ok)
    obtain gs' where "fill_groups (fill_per_vector scattered (map (\<lambda>bs. the (index_at bs at)) vectors)) (r_groups R) = (gs', Inr ())"
      using total [OF ready] persistent_group(2) [OF _ v all] role by blast
    then show ?thesis by (simp add: read_at_def line v rows)
  next
    case False
    then obtain i where i: "index_on_timeline C line at = Inr i"
      using defined by (cases line) (auto simp: axis_defined_def)
    have "\<exists>gs'. fill_groups (\<lambda>g. if g_row_offsets g = [] then fill uniform i g else fill_at_offsets scattered i g)
        (r_groups R) = (gs', Inr ())"
      by (rule total [OF ready]) (rule shared_group(2) [OF _ fits _ i], use False in auto)
    then obtain gs' where "fill_groups (\<lambda>g. if g_row_offsets g = [] then fill uniform i g else fill_at_offsets scattered i g)
        (r_groups R) = (gs', Inr ())" by blast
    then show ?thesis using False i by (cases line) (auto simp: read_at_def line)
  qed
qed

end

lemma read_at_plan: "reader_plan line role runs R \<Longrightarrow> reader_plan line role runs (fst (read_at C u s at R))"
  unfolding read_at_def reader_plan_def
  by (auto simp: fill_groups_plan fill_plans split: timeline.split sum.split prod.split
      dest!: arg_cong [where f = "\<lambda>p. map group_plan (fst p)"])

lemma invalidate_plan: "reader_plan line role runs R \<Longrightarrow> reader_plan line role runs (invalidate R)"
  by (simp add: reader_plan_def invalidate_def comp_def)

lemma static_read_plan: "reader_plan line role runs R \<Longrightarrow> reader_plan line role runs (fst (static_read C u s R at))"
  using read_at_plan [of line role runs R C u s at] invalidate_plan
  by (auto simp: static_read_def split: prod.splits sum.splits)

lemma static_read_error:
  "static_read C u s R at = (R', Inl e) \<Longrightarrow> g \<in> set (r_groups R') \<Longrightarrow> group_values g = []"
  by (auto simp: static_read_def invalidate_def group_values_def split: prod.splits sum.splits)


section \<open>Properties\<close>

text \<open>C27: reading a static reader is all or nothing. A built reader has a plan; a read keeps it. When the
  read succeeds every group holds, in column order, exactly the row each column has at the instant:
  the one index of the shared axis, that index shifted by the column's own offset, or the row in
  force on the column's own breakpoints. When it fails every group is empty. And it does succeed
  whenever the instant lies on the axis and every column's row can be sliced.\<close>

theorem static_read_correct:
  fixes C :: chrono and gs :: get_slice and at :: datetime and line R
  assumes "reader_plan line role runs R" "role_fits line role"
  defines "result \<equiv> static_read C (index_into gs) (indices_into gs) R at"
  shows "(build_groups_inner line rows role = Inr R0 \<longrightarrow>
      (\<exists>runs. concat runs = sort_by (cmp_on fst cmp_layout) rows \<and> reader_plan line role runs R0)) \<and>
    reader_plan line role runs (fst result) \<and>
    (snd result = Inr () \<longrightarrow>
      list_all2 (\<lambda>run g. run_values C gs line role at run (group_values g)) runs (r_groups (fst result))) \<and>
    (snd result \<noteq> Inr () \<longrightarrow> (\<forall>g \<in> set (r_groups (fst result)). group_values g = [])) \<and>
    (axis_defined C line at \<and> (\<forall>run \<in> set runs. \<exists>bs. run_values C gs line role at run bs) \<longrightarrow> snd result = Inr ())"
proof (intro conjI impI ballI)
  let ?read = "read_at C (index_into gs) (indices_into gs) at R"
  note groups = provided.read_at_groups [OF assms(1,2), where gs = gs and C = C and at = at]
  obtain R' r where result: "result = (R', r)" by (cases result)
  show "\<exists>runs. concat runs = sort_by (cmp_on fst cmp_layout) rows \<and> reader_plan line role runs R0"
    if "build_groups_inner line rows role = Inr R0" using build_reader_plan [OF that] by blast
  show "reader_plan line role runs (fst result)" unfolding result_def by (rule static_read_plan [OF assms(1)])
  show "list_all2 (\<lambda>run g. run_values C gs line role at run (group_values g)) runs (r_groups (fst result))"
    if "snd result = Inr ()"
  proof -
    have "static_read C (index_into gs) (indices_into gs) R at = (R', Inr ())"
      using that result unfolding result_def by simp
    then have "?read = (R', Inr ())"
      by (auto simp: static_read_def split: prod.splits sum.splits)
    from groups(1) [OF this] show ?thesis by (simp add: result)
  qed
  show "group_values g = []" if failed: "snd result \<noteq> Inr ()" and g: "g \<in> set (r_groups (fst result))" for g
  proof -
    have "r \<noteq> Inr ()" using failed result by simp
    then obtain e where e: "r = Inl e" by (cases r) auto
    have "static_read C (index_into gs) (indices_into gs) R at = (R', Inl e)"
      using result e unfolding result_def by simp
    from static_read_error [OF this] show ?thesis using g result by simp
  qed
  show "snd result = Inr ()"
    if ready: "axis_defined C line at \<and> (\<forall>run \<in> set runs. \<exists>bs. run_values C gs line role at run bs)"
  proof -
    obtain R'' where "?read = (R'', Inr ())" using groups(2) ready by blast
    then show ?thesis by (simp add: result_def static_read_def)
  qed
qed

theorem static_read_correct_witness:
  "\<exists>R. build_groups (IrregularTimeline [day_2024 1 31, day_2024 2 29])
        [(demo_row 1 (ScalarOf U8) [1] 2)\<lparr>m_type := NonSequentialTimeSeries\<rparr>] = Inr R \<and>
    snd (static_read gregorian (index_into (\<lambda>_ _ _. Inl (Raised NotFound))) (indices_into (\<lambda>_ _ _. Inl (Raised NotFound)))
      R (day_2024 2 29)) \<noteq> Inr () \<and>
    (\<forall>g \<in> set (r_groups (fst (static_read gregorian (index_into (\<lambda>_ _ _. Inl (Raised NotFound)))
      (indices_into (\<lambda>_ _ _. Inl (Raised NotFound))) R (day_2024 2 29)))). group_values g = [])"
proof -
  let ?line = "IrregularTimeline [day_2024 1 31, day_2024 2 29]"
  let ?row = "(demo_row 1 (ScalarOf U8) [1] 2)\<lparr>m_type := NonSequentialTimeSeries\<rparr>"
  let ?gs = "(\<lambda>_ _ _. Inl (Raised NotFound)) :: get_slice"
  let ?run = "[(?row, 0)]"
  let ?R = "\<lparr>r_timeline = ?line, r_time_reference = None, r_groups = [group_of SharedRole ?run], r_per_vector = []\<rparr>"
  have build: "build_groups ?line [?row] = Inr ?R"
    by (simp add: build_groups_def build_groups_inner_def check_column_def demo_row_def cohort_time_reference_def
        sort_by_def group_of_def column_key_def new_group_def push_column_def drop_zero_offsets_def Let_def)
  have plan: "reader_plan ?line SharedRole [?run] ?R"
    by (simp add: reader_plan_def group_plan_def group_of_def drop_zero_offsets_def)
  have fits: "role_fits ?line SharedRole" by simp
  have "binary_search [day_2024 1 31, day_2024 2 29] (day_2024 2 29) = Some 1" by code_simp
  then have "snd (static_read gregorian (index_into ?gs) (indices_into ?gs) ?R (day_2024 2 29)) \<noteq> Inr ()"
    by (simp add: static_read_def read_at_def fill_def index_into_def after_read_def group_of_def Let_def)
  with static_read_correct [OF plan fits, where gs = ?gs and C = gregorian and at = "day_2024 2 29"] build
  show ?thesis by blast
qed

end
