(* ===== verification/ForecastReader.thy ===== *)
theory ForecastReader
  imports ReaderReads
begin

text \<open>
  The forecast reader of \<open>crates/infrastore-core/src/reader.rs\<close> with the functions of \<open>store.rs\<close>
  that drive it: one slot per array and read plan, a slot of a dense forecast caching a block of
  consecutive windows, and the reads of derived slots made in one batch. Buffers are state, so a
  failed read shows what it left. A window index handed to a slot is below the reader's count.
\<close>

section \<open>Window slots\<close>

datatype window_read = DenseRead nat | DerivedRead nat nat

record window_slot =
  ws_hash :: hash
  ws_element_type :: element_type
  ws_shape :: "nat list"
  ws_read :: window_read
  ws_count :: nat
  ws_block_cols :: nat
  ws_cached :: "(nat \<times> nat) option"
  ws_block :: "byte list"
  ws_buf :: "byte list"
  ws_filled :: bool

type_synonym block_read =
  "hash \<Rightarrow> dtype \<Rightarrow> nat \<Rightarrow> nat \<Rightarrow> nat \<Rightarrow> byte list \<Rightarrow> byte list \<times> (ts_error failure + unit)"
type_synonym range_read =
  "hash list \<Rightarrow> dtype list \<Rightarrow> (nat \<times> nat) list \<Rightarrow> byte list \<times> (ts_error failure + unit)"

definition ws_dtype :: "window_slot \<Rightarrow> dtype" where
  "ws_dtype s = physical_dtype (ws_element_type s)"

definition slot_window :: "window_slot \<Rightarrow> byte list" where
  "slot_window s = (if ws_filled s then ws_buf s else [])"

definition window_to_vec :: "'a element \<Rightarrow> window_slot \<Rightarrow> 'a list result" where
  "window_to_vec E s =
     (if ws_dtype s \<noteq> elem_dtype E then Inl (InvalidParameter ''wrong dtype'')
      else Inr (map (from_le_bytes E) (chunks_exact (dtype_size (elem_dtype E)) (slot_window s))))"

definition block_range :: "window_slot \<Rightarrow> nat \<Rightarrow> nat \<times> nat" where
  "block_range s window =
     (let cols = max (ws_block_cols s) 1; start = window div cols * cols
      in (start, min (start + cols) (ws_count s)))"

definition serves_from_cache :: "window_slot \<Rightarrow> nat \<Rightarrow> bool" where
  "serves_from_cache s window =
     (case ws_read s of
        DenseRead _ \<Rightarrow> ws_cached s = Some (block_range s window)
      | DerivedRead _ _ \<Rightarrow> False)"

definition forget :: "window_slot \<Rightarrow> window_slot" where
  "forget s = s\<lparr>ws_cached := None, ws_filled := False\<rparr>"

definition derived_span :: "window_slot \<Rightarrow> nat \<Rightarrow> (nat \<times> nat) option" where
  "derived_span s window =
     (case ws_read s of
        DenseRead _ \<Rightarrow> None
      | DerivedRead interval_steps horizon_steps \<Rightarrow>
          (let start = wrapping (window * interval_steps) in Some (start, wrapping (start + horizon_steps))))"

definition slot_bytes :: "window_slot \<Rightarrow> nat" where
  "slot_bytes s = wrapping (prod_list (ws_shape s) * dtype_size (ws_dtype s))"

definition set_window :: "byte list \<Rightarrow> window_slot \<Rightarrow> window_slot" where
  "set_window w s = s\<lparr>ws_buf := w, ws_filled := True\<rparr>"

definition gather_window ::
    "byte list \<Rightarrow> nat list \<Rightarrow> nat \<Rightarrow> nat \<Rightarrow> nat \<Rightarrow> nat \<Rightarrow> ts_error failure + byte list" where
  "gather_window block window_shape axis block_len lw elem_size =
     (if length window_shape < axis then Inl Panicked
      else let outer = prod_list (take axis window_shape);
               inner_bytes = prod_list (drop axis window_shape) * elem_size
           in rfold (\<lambda>out i.
                let start = (i * block_len + lw) * inner_bytes
                in if length block < start + inner_bytes then Inl Panicked
                   else Inr (out @ segment start inner_bytes block))
              [] [0..<outer])"

definition load_block :: "block_read \<Rightarrow> nat \<Rightarrow> nat \<times> nat \<Rightarrow> window_slot \<Rightarrow> window_slot \<times> (ts_error failure + unit)" where
  "load_block read_block axis rng s =
     (if ws_cached s = Some rng then (s, Inr ())
      else case read_block (ws_hash s) (ws_dtype s) axis (fst rng) (snd rng - fst rng) (ws_block s) of
             (block, Inl e) \<Rightarrow> (s\<lparr>ws_cached := None, ws_block := block\<rparr>, Inl e)
           | (block, Inr _) \<Rightarrow> (s\<lparr>ws_cached := Some rng, ws_block := block\<rparr>, Inr ()))"

definition read_window :: "block_read \<Rightarrow> nat \<Rightarrow> window_slot \<Rightarrow> window_slot \<times> (ts_error failure + unit)" where
  "read_window read_block window s =
     (case ws_read s of
        DerivedRead _ _ \<Rightarrow> (s, Inl (Raised (IntegrityError ''read_window on a derived slot'')))
      | DenseRead axis \<Rightarrow>
          (let rng = block_range s window
           in case load_block read_block axis rng (s\<lparr>ws_filled := False\<rparr>) of
                (s', Inl e) \<Rightarrow> (s', Inl e)
              | (s', Inr _) \<Rightarrow>
                  (case gather_window (ws_block s') (ws_shape s') axis (snd rng - fst rng)
                          (window - fst rng) (dtype_size (ws_dtype s')) of
                     Inl e \<Rightarrow> (s', Inl e)
                   | Inr w \<Rightarrow> (set_window w s', Inr ()))))"

section \<open>The reader\<close>

record forecast_entry =
  e_id :: int
  e_slot :: nat

record forecast_reader =
  fr_type :: time_series_type
  fr_time_reference :: "time_reference option"
  fr_initial_timestamp :: datetime
  fr_resolution :: period
  fr_interval :: period
  fr_count :: nat
  fr_slots :: "window_slot list"
  fr_entries :: "forecast_entry list"

definition entry_slot :: "forecast_reader \<Rightarrow> nat \<Rightarrow> ts_error failure + window_slot" where
  "entry_slot R i =
     rbind (ok_or (get_at (fr_entries R) i) Panicked) (\<lambda>e. ok_or (get_at (fr_slots R) (e_slot e)) Panicked)"

definition forecast_invalidate :: "forecast_reader \<Rightarrow> forecast_reader" where
  "forecast_invalidate R = R\<lparr>fr_slots := map (\<lambda>s. s\<lparr>ws_filled := False\<rparr>) (fr_slots R)\<rparr>"

definition window_index :: "chrono \<Rightarrow> forecast_reader \<Rightarrow> datetime \<Rightarrow> nat result" where
  "window_index C R at = index_on_grid C (fr_initial_timestamp R) (fr_interval R) (fr_count R) at"

definition window_timestamp_at :: "chrono \<Rightarrow> forecast_reader \<Rightarrow> nat \<Rightarrow> datetime result" where
  "window_timestamp_at C R index = timestamp_on_grid C (fr_initial_timestamp R) (fr_interval R) (fr_count R) index"

subsection \<open>Building it\<close>

definition dense_layout :: "nat list \<Rightarrow> nat \<Rightarrow> nat \<Rightarrow> (nat list \<times> window_read) result" where
  "dense_layout s windows axis =
     (if length s \<le> axis then Inl (IntegrityError ''stored shape has no count axis'')
      else if s ! axis \<noteq> windows then Inl (IntegrityError ''window count disagrees with stored axis length'')
      else Inr (take axis s @ drop (Suc axis) s, DenseRead axis))"

definition entry_layout :: "chrono \<Rightarrow> ts_metadata \<Rightarrow> nat list \<Rightarrow> nat \<Rightarrow> (nat list \<times> window_read) result" where
  "entry_layout C m s windows =
     (case m_type m of
        Deterministic \<Rightarrow> dense_layout s windows 1
      | Probabilistic \<Rightarrow> dense_layout s windows 2
      | Scenarios \<Rightarrow> dense_layout s windows 2
      | DeterministicSingleTimeSeries \<Rightarrow>
          rbind (ok_or (m_resolution m) (IntegrityError ''missing resolution'')) (\<lambda>res.
          rbind (ok_or (m_horizon m) (IntegrityError ''missing horizon'')) (\<lambda>hor.
          rbind (ok_or (m_interval m) (IntegrityError ''missing interval'')) (\<lambda>itv.
          rbind (map_err IntegrityError (compute_h C hor res)) (\<lambda>h.
          rbind (if windows = 1 \<and> is_zero itv then Inr 0
                 else map_err (\<lambda>_. IntegrityError ''interval is not a multiple of resolution'') (divide_into C res itv))
            (\<lambda>interval_steps.
              let total_len = (case s of [] \<Rightarrow> 0 | n # _ \<Rightarrow> n);
                  required = wrapping ((windows - 1) * interval_steps + h)
              in if total_len < required then Inl (IntegrityError ''the array is too short'')
                 else Inr (h # tl s, DerivedRead interval_steps h))))))
      | _ \<Rightarrow> Inl (InvalidParameter ''ForecastReader handles forecasts only''))"

definition forecast_timeline :: "ts_metadata \<Rightarrow> (datetime \<times> period \<times> period \<times> nat) result" where
  "forecast_timeline m =
     rbind (ok_or (m_initial_timestamp m) (IntegrityError ''missing initial_timestamp'')) (\<lambda>initial.
     rbind (ok_or (m_resolution m) (IntegrityError ''missing resolution'')) (\<lambda>res.
     rbind (ok_or (m_interval m) (IntegrityError ''missing interval'')) (\<lambda>itv.
     rbind (ok_or (m_count m) (IntegrityError ''missing count'')) (\<lambda>windows.
       Inr (initial, res, itv, windows)))))"

type_synonym slot_key = "hash \<times> window_read \<times> element_type"

definition new_slot :: "ts_metadata \<Rightarrow> nat list \<Rightarrow> nat \<Rightarrow> nat list \<Rightarrow> window_read \<Rightarrow> window_slot" where
  "new_slot m s windows window_shape plan =
     \<lparr>ws_hash = m_data_hash m, ws_element_type = m_element_type m, ws_shape = window_shape, ws_read = plan,
      ws_count = windows,
      ws_block_cols =
        (case plan of
           DenseRead axis \<Rightarrow> window_block_cols (physical_dtype (m_element_type m)) s axis
         | DerivedRead _ _ \<Rightarrow> 1),
      ws_cached = None, ws_block = [], ws_buf = [], ws_filled = False\<rparr>"

fun add_entries ::
    "chrono \<Rightarrow> time_series_type \<Rightarrow> datetime \<times> period \<times> period \<times> nat \<Rightarrow> (slot_key \<rightharpoonup> nat) \<Rightarrow> window_slot list \<Rightarrow>
     forecast_entry list \<Rightarrow> (ts_metadata \<times> nat list) list \<Rightarrow> (window_slot list \<times> forecast_entry list) result" where
  "add_entries C reported line slot_of slots entries [] = Inr (slots, entries)"
| "add_entries C reported line slot_of slots entries ((m, s) # items) =
     (if \<not> type_accepts reported (m_type m) then Inl (IntegrityError ''ForecastReader cannot hold this type'')
      else rbind (forecast_timeline m) (\<lambda>own.
        if own \<noteq> line then Inl (InvalidParameter ''ForecastReader requires a uniform window timeline'')
        else let windows = snd (snd (snd line)) in
          rbind (entry_layout C m s windows) (\<lambda>(window_shape, plan).
            let key = (m_data_hash m, plan, m_element_type m);
                (slot, slot_of, slots) =
                  (case slot_of key of
                     Some i \<Rightarrow> (i, slot_of, slots)
                   | None \<Rightarrow> (length slots, slot_of(key \<mapsto> length slots), slots @ [new_slot m s windows window_shape plan]))
            in rbind (ok_or (m_id m) (IntegrityError ''a reader entry carries no catalog id'')) (\<lambda>i.
                 add_entries C reported line slot_of slots (entries @ [\<lparr>e_id = i, e_slot = slot\<rparr>]) items))))"

definition build_forecast_entries ::
    "chrono \<Rightarrow> time_series_type \<Rightarrow> (ts_metadata \<times> nat list) list \<Rightarrow> forecast_reader result" where
  "build_forecast_entries C reported items =
     (case sort_by (cmp_on fst cmp_identity) items of
        [] \<Rightarrow> Inl (InvalidParameter ''no forecasts match the filter'')
      | first # rest \<Rightarrow>
          rbind (cohort_time_reference (map fst (first # rest))) (\<lambda>tr.
          rbind (forecast_timeline (fst first)) (\<lambda>line.
          rbind (add_entries C reported line Map.empty [] [] (first # rest)) (\<lambda>(slots, entries).
            case line of (initial, res, itv, windows) \<Rightarrow>
              Inr \<lparr>fr_type = reported, fr_time_reference = tr, fr_initial_timestamp = initial,
                   fr_resolution = res, fr_interval = itv, fr_count = windows,
                   fr_slots = slots, fr_entries = entries\<rparr>))))"

subsection \<open>Reading an instant\<close>

definition read_dense_slot ::
    "(hash \<Rightarrow> bool result) \<Rightarrow> block_read \<Rightarrow> nat \<Rightarrow> window_slot \<Rightarrow> window_slot \<times> (ts_error failure + unit)" where
  "read_dense_slot holds_array read_block window s =
     (if serves_from_cache s window
      then case holds_array (ws_hash s) of
             Inl e \<Rightarrow> (s, Inl (Raised e))
           | Inr h \<Rightarrow> if h then read_window read_block window s else (forget s, Inl (Raised NotFound))
      else read_window read_block window s)"

text \<open>A derived slot waits for the batch.\<close>

definition read_slot ::
    "(hash \<Rightarrow> bool result) \<Rightarrow> block_read \<Rightarrow> nat \<Rightarrow> window_slot \<Rightarrow> window_slot \<times> (ts_error failure + unit)" where
  "read_slot holds_array read_block window s =
     (if derived_span s window \<noteq> None then (s, Inr ()) else read_dense_slot holds_array read_block window s)"

fun read_dense_slots ::
    "(hash \<Rightarrow> bool result) \<Rightarrow> block_read \<Rightarrow> nat \<Rightarrow> window_slot list \<Rightarrow> window_slot list \<times> (ts_error failure + unit)" where
  "read_dense_slots holds_array read_block window [] = ([], Inr ())"
| "read_dense_slots holds_array read_block window (s # slots) =
     (case read_slot holds_array read_block window s of
        (s', Inl e) \<Rightarrow> (s' # slots, Inl e)
      | (s', Inr _) \<Rightarrow>
          (case read_dense_slots holds_array read_block window slots of (slots', r) \<Rightarrow> (s' # slots', r)))"

fun install_windows :: "nat \<Rightarrow> window_slot list \<Rightarrow> byte list \<Rightarrow> window_slot list \<times> (ts_error failure + byte list)" where
  "install_windows window [] rest = ([], Inr rest)"
| "install_windows window (s # slots) rest =
     (if derived_span s window = None
      then (case install_windows window slots rest of (slots', r) \<Rightarrow> (s # slots', r))
      else if length rest < slot_bytes s
      then (s # slots, Inl (Raised (IntegrityError ''fewer bytes than the derived windows need'')))
      else (case install_windows window slots (drop (slot_bytes s) rest) of
              (slots', r) \<Rightarrow> (set_window (take (slot_bytes s) rest) s # slots', r)))"

definition derived_slots :: "nat \<Rightarrow> window_slot list \<Rightarrow> window_slot list" where
  "derived_slots window slots = filter (\<lambda>s. derived_span s window \<noteq> None) slots"

definition read_derived ::
    "range_read \<Rightarrow> nat \<Rightarrow> window_slot list \<Rightarrow> window_slot list \<times> (ts_error failure + unit)" where
  "read_derived read_ranges window slots =
     (let derived = derived_slots window slots
      in if derived = [] then (slots, Inr ())
         else case read_ranges (map ws_hash derived) (map ws_dtype derived)
                     (map (\<lambda>s. the (derived_span s window)) derived) of
                (_, Inl e) \<Rightarrow> (slots, Inl e)
              | (out, Inr _) \<Rightarrow>
                  (case install_windows window slots out of
                     (slots', Inl e) \<Rightarrow> (slots', Inl e)
                   | (slots', Inr rest) \<Rightarrow>
                       (slots', if rest = [] then Inr ()
                                else Inl (Raised (IntegrityError ''more bytes than the derived windows need'')))))"

definition forecast_read_into ::
    "chrono \<Rightarrow> (hash \<Rightarrow> bool result) \<Rightarrow> block_read \<Rightarrow> range_read \<Rightarrow> forecast_reader \<Rightarrow> datetime \<Rightarrow>
     forecast_reader \<times> (ts_error failure + unit)" where
  "forecast_read_into C holds_array read_block read_ranges R at =
     (case window_index C R at of
        Inl e \<Rightarrow> (R, Inl (Raised e))
      | Inr window \<Rightarrow>
          (case read_dense_slots holds_array read_block window (fr_slots R) of
             (slots, Inl e) \<Rightarrow> (R\<lparr>fr_slots := slots\<rparr>, Inl e)
           | (slots, Inr _) \<Rightarrow>
               (case read_derived read_ranges window slots of (slots', r) \<Rightarrow> (R\<lparr>fr_slots := slots'\<rparr>, r))))"

definition forecast_read ::
    "chrono \<Rightarrow> (hash \<Rightarrow> bool result) \<Rightarrow> block_read \<Rightarrow> range_read \<Rightarrow> forecast_reader \<Rightarrow> datetime \<Rightarrow>
     forecast_reader \<times> (ts_error failure + unit)" where
  "forecast_read C holds_array read_block read_ranges R at =
     (case forecast_read_into C holds_array read_block read_ranges R at of
        (R', Inl e) \<Rightarrow> (forecast_invalidate R', Inl e)
      | (R', Inr u) \<Rightarrow> (R', Inr u))"

end
