(* ===== verification/ForecastReads.thy ===== *)
theory ForecastReads
  imports ForecastReader
begin

text \<open>
  Driving a forecast reader. What the store's reads are relied on for is the locale
  \<open>window_source\<close>: a block read delivers the slice of the array along its count axis, a range read
  the row slices in order, and both only for arrays that are held. Arrays are content addressed,
  so \<open>content\<close>, the array of every hash, does not change while arrays come and go; a slot's cached
  block stays a block of that array.
\<close>

section \<open>The reads, with their output buffer\<close>

definition window_block_into :: "(hash \<Rightarrow> dtype \<Rightarrow> typed_array result) \<Rightarrow> block_read" where
  "window_block_into get h d axis start n out =
     (case get h d of
        Inl e \<Rightarrow> (out, Inl (Raised e))
      | Inr a \<Rightarrow>
          (case write_window_block a axis start n [] of
             Inl e \<Rightarrow> ([], Inl e)
           | Inr block \<Rightarrow> (block, Inr ())))"

fun range_slices :: "get_slice \<Rightarrow> ((hash \<times> dtype) \<times> nat \<times> nat) list \<Rightarrow> byte list \<Rightarrow> byte list \<times> (ts_error failure + unit)" where
  "range_slices get_slice [] out = (out, Inr ())"
| "range_slices get_slice (((h, d), rng) # rest) out =
     (case get_slice h d rng of
        Inl e \<Rightarrow> (out, Inl e)
      | Inr part \<Rightarrow> range_slices get_slice rest (out @ bytes part))"

definition ranges_into :: "get_slice \<Rightarrow> range_read" where
  "ranges_into get_slice hs ds rngs = range_slices get_slice (zip (zip hs ds) rngs) []"

definition range_parts :: "(hash \<rightharpoonup> typed_array) \<Rightarrow> ((hash \<times> dtype) \<times> nat \<times> nat) list \<Rightarrow> typed_array list \<Rightarrow> bool" where
  "range_parts stored = list_all2 (\<lambda>((h, d), rng) part.
     \<exists>a. stored h = Some a \<and> arr_dtype a = d \<and> slice_axis a 0 rng = Inr part)"

locale window_source =
  fixes stored :: "hash \<rightharpoonup> typed_array" and holds_array :: "hash \<Rightarrow> bool result"
    and read_block :: block_read and read_ranges :: range_read
  assumes holds_array: "holds_array h = Inr (stored h \<noteq> None)"
    and read_block: "read_block h d axis start n out = (bs, Inr ()) \<longleftrightarrow>
      (\<exists>a b. stored h = Some a \<and> arr_dtype a = d \<and> slice_axis a axis (start, start + n) = Inr b \<and> bs = bytes b)"
    and read_ranges: "read_ranges hs ds rngs = (bs, Inr ()) \<longleftrightarrow>
      (\<exists>parts. range_parts stored (zip (zip hs ds) rngs) parts \<and> bs = concat (map bytes parts))"

lemma mem_get_slice_Inr:
  "mem_get_slice s h d rng = Inr p \<longleftrightarrow> (\<exists>a. arrays s h = Some a \<and> arr_dtype a = d \<and> slice_axis a 0 rng = Inr p)"
  by (auto simp: mem_get_slice_def check_dtype_def result_elims split: if_splits)

lemma range_slices_iff:
  "range_slices (mem_get_slice s) reqs out = (bs, Inr ()) \<longleftrightarrow>
   (\<exists>parts. range_parts (arrays s) reqs parts \<and> bs = out @ concat (map bytes parts))"
proof (induction "mem_get_slice s" reqs out arbitrary: bs rule: range_slices.induct)
  case (1 out)
  then show ?case by (auto simp: range_parts_def)
next
  case (2 h d rng rest out)
  show ?case
  proof (cases "mem_get_slice s h d rng")
    case (Inl e)
    then have "\<not> (\<exists>a p. arrays s h = Some a \<and> arr_dtype a = d \<and> slice_axis a 0 rng = Inr p)"
      using mem_get_slice_Inr [of s h d rng] by auto
    then show ?thesis using Inl by (auto simp: range_parts_def list_all2_Cons1)
  next
    case (Inr part)
    then have "(\<exists>a. arrays s h = Some a \<and> arr_dtype a = d \<and> slice_axis a 0 rng = Inr p) \<longleftrightarrow> p = part" for p
      using mem_get_slice_Inr [of s h d rng p] by auto
    then show ?thesis using Inr 2 [OF Inr] by (auto simp: range_parts_def list_all2_Cons1)
  qed
qed

lemma slice_axis_block:
  "(\<exists>b. slice_axis a axis (start, start + n) = Inr b \<and> bs = bytes b) \<longleftrightarrow> write_window_block a axis start n [] = Inr bs"
  by (auto simp: slice_axis_def Let_def result_elims write_window_block_def split: if_splits)

interpretation mem_windows: window_source "arrays s" "mem_contains s" "window_block_into (mem_get_array s)"
    "ranges_into (mem_get_slice s)" for s
proof
  fix h d axis start n out bs hs ds rngs
  show "mem_contains s h = Inr (arrays s h \<noteq> None)" by (simp add: mem_contains_def)
  have "window_block_into (mem_get_array s) h d axis start n out = (bs, Inr ()) \<longleftrightarrow>
      (\<exists>a. arrays s h = Some a \<and> arr_dtype a = d \<and> write_window_block a axis start n [] = Inr bs)"
    by (cases "arrays s h") (auto simp: window_block_into_def mem_get_array_def check_dtype_def split: sum.splits)
  then show "window_block_into (mem_get_array s) h d axis start n out = (bs, Inr ()) \<longleftrightarrow>
      (\<exists>a b. arrays s h = Some a \<and> arr_dtype a = d \<and> slice_axis a axis (start, start + n) = Inr b \<and> bs = bytes b)"
    unfolding slice_axis_block [symmetric] by blast
  show "ranges_into (mem_get_slice s) hs ds rngs = (bs, Inr ()) \<longleftrightarrow>
      (\<exists>parts. range_parts (arrays s) (zip (zip hs ds) rngs) parts \<and> bs = concat (map bytes parts))"
    by (simp add: ranges_into_def range_slices_iff)
qed

section \<open>One window out of a block\<close>

lemma gather_slice:
  assumes wf: "wf_array a" and axis: "axis < length (shape a)" and w: "lo \<le> w" "w < hi" "hi \<le> shape a ! axis"
    and block: "slice_axis a axis (lo, hi) = Inr b"
  obtains c where "slice_axis a axis (w, w + 1) = Inr c" "wf_array c"
    "gather_window (bytes b) (take axis (shape a) @ drop (Suc axis) (shape a)) axis (hi - lo) (w - lo)
       (dtype_size (arr_dtype a)) = Inr (bytes c)"
proof -
  define outer L ib n where "outer = prod_list (take axis (shape a))" and "L = shape a ! axis"
    and "ib = prod_list (drop (Suc axis) (shape a)) * dtype_size (arr_dtype a)" and "n = hi - lo"
  define part where "part = (\<lambda>start n k. segment ((k * L + start) * (1 * ib)) (n * (1 * ib)) (bytes a))"
  have n: "lo + n \<le> L" "w - lo < n" "lo + (w - lo) = w" "w + 1 \<le> L" using w by (simp_all add: n_def L_def)
  have len: "length (bytes a) = outer * (L * (1 * ib))"
    using wf_array_length [OF wf] shape_split [OF axis] by (simp add: outer_def L_def ib_def)
  obtain c where c: "slice_axis a axis (w, w + 1) = Inr c" "wf_array c"
    using slice_axis_ok [OF wf axis, of w "w + 1"] w by auto
  have c_bytes: "bytes c = concat (map (part w 1) [0..<outer])"
    using write_window_block_Inr [OF wf axis, of w 1 "[]"] slice_axis_block [of a axis w 1 "bytes c"] c(1) n(4)
    by (auto simp: part_def outer_def L_def ib_def)
  have b_bytes: "bytes b = concat (map (part lo n) [0..<outer])"
    using write_window_block_Inr [OF wf axis, of lo n "[]"] slice_axis_block [of a axis lo n "bytes b"] block n(1) w
    by (auto simp: part_def outer_def L_def ib_def n_def)
  have part: "length (part lo n k) = n * ib" if "k < outer" for k
    using window_block_bytes [OF len n(1) that] by (simp add: part_def length_segment)
  then have "length (bytes b) = outer * (n * ib)"
    using length_concat_uniform [of "[0..<outer]" "part lo n" "n * ib"] by (simp add: b_bytes)
  then have fits: "(k * n + (w - lo)) * ib + ib \<le> length (bytes b)" if "k < outer" for k
    using window_block_bytes [of "bytes b" outer n ib "w - lo" 1 k] that n(2) by simp
  have window: "segment ((k * n + (w - lo)) * ib) ib (bytes b) = part w 1 k" if "k < outer" for k
    using sliced_element [OF len n(1) that n(2), of 0] n(3) by (simp add: b_bytes part_def)
  have "rfold (\<lambda>out i. let start = (i * n + (w - lo)) * ib
          in if length (bytes b) < start + ib then Inl Panicked else Inr (out @ segment start ib (bytes b))) [] [0..<outer] =
      Inr (bytes c)"
    unfolding c_bytes using fits window by (subst rfold_append_steps [where g = "part w 1"]) (auto simp: Let_def not_less)
  moreover have axis': "\<not> length (shape a) - Suc 0 < axis" using axis by simp
  ultimately have "gather_window (bytes b) (take axis (shape a) @ drop (Suc axis) (shape a)) axis (hi - lo) (w - lo)
       (dtype_size (arr_dtype a)) = Inr (bytes c)"
    using axis axis' by (simp add: gather_window_def Let_def outer_def [symmetric] ib_def [symmetric] n_def [symmetric] min_absorb2)
  with c that show thesis by blast
qed

lemma block_range_bounds:
  assumes "w < ws_count s"
  shows "fst (block_range s w) \<le> w" "w < snd (block_range s w)" "snd (block_range s w) \<le> ws_count s"
proof -
  define cols where "cols = max (ws_block_cols s) 1"
  have eq: "block_range s w = (w div cols * cols, min (w div cols * cols + cols) (ws_count s))"
    unfolding block_range_def cols_def Let_def by (rule refl)
  have "0 < cols" by (simp add: cols_def)
  then have "w < w div cols * cols + cols" unfolding add.commute [of _ cols] by (rule dividend_less_div_times)
  then show "w < snd (block_range s w)" unfolding eq snd_conv using assms by (rule min_less_iff_conj [THEN iffD2, OF conjI])
  show "fst (block_range s w) \<le> w" unfolding eq fst_conv by (rule div_times_less_eq_dividend)
  show "snd (block_range s w) \<le> ws_count s" unfolding eq snd_conv by (rule min.cobounded2)
qed


section \<open>What a slot keeps\<close>

text \<open>Reading changes neither what a slot reads nor how; its cached block is a block of its array.\<close>

definition slot_plan :: "window_slot \<Rightarrow> window_slot" where
  "slot_plan s = s\<lparr>ws_cached := None, ws_block := [], ws_buf := [], ws_filled := False\<rparr>"

definition slot_fits :: "(hash \<Rightarrow> typed_array) \<Rightarrow> nat \<Rightarrow> window_slot \<Rightarrow> bool" where
  "slot_fits content n s \<longleftrightarrow>
     (let a = content (ws_hash s)
      in wf_array a \<and> arr_dtype a = ws_dtype s \<and> ws_count s = n \<and>
         (case ws_read s of
            DenseRead axis \<Rightarrow>
              axis < length (shape a) \<and> shape a ! axis = n \<and> ws_shape s = take axis (shape a) @ drop (Suc axis) (shape a)
          | DerivedRead steps h \<Rightarrow>
              shape a \<noteq> [] \<and> ws_shape s = h # tl (shape a) \<and>
              (n - 1) * steps + h \<le> hd (shape a) \<and> (n - 1) * steps + h \<le> usize_max))"

definition cached_from :: "(hash \<Rightarrow> typed_array) \<Rightarrow> window_slot \<Rightarrow> bool" where
  "cached_from content s \<longleftrightarrow>
     (\<forall>lo hi axis. ws_cached s = Some (lo, hi) \<longrightarrow> ws_read s = DenseRead axis \<longrightarrow>
        (\<exists>b. slice_axis (content (ws_hash s)) axis (lo, hi) = Inr b \<and> ws_block s = bytes b))"

definition slot_ok :: "(hash \<Rightarrow> typed_array) \<Rightarrow> nat \<Rightarrow> window_slot \<Rightarrow> bool" where
  "slot_ok content n s \<longleftrightarrow> slot_fits content n s \<and> cached_from content s"

text \<open>The window a slot stands for, as a slice of its array.\<close>

definition window_of :: "(hash \<Rightarrow> typed_array) \<Rightarrow> window_slot \<Rightarrow> nat \<Rightarrow> ts_error failure + typed_array" where
  "window_of content s w =
     (case ws_read s of
        DenseRead axis \<Rightarrow> slice_axis (content (ws_hash s)) axis (w, w + 1)
      | DerivedRead steps h \<Rightarrow> slice_axis (content (ws_hash s)) 0 (w * steps, w * steps + h))"

definition shows_window :: "(hash \<Rightarrow> typed_array) \<Rightarrow> nat \<Rightarrow> window_slot \<Rightarrow> bool" where
  "shows_window content w s \<longleftrightarrow> (\<exists>b. window_of content s w = Inr b \<and> slot_window s = bytes b)"

lemma slot_plan_updates [simp]:
  "slot_plan (s\<lparr>ws_cached := c\<rparr>) = slot_plan s"
  "slot_plan (s\<lparr>ws_block := b\<rparr>) = slot_plan s"
  "slot_plan (s\<lparr>ws_buf := b\<rparr>) = slot_plan s"
  "slot_plan (s\<lparr>ws_filled := f\<rparr>) = slot_plan s"
  by (cases s; simp add: slot_plan_def)+

lemma slot_plan_fields:
  assumes "slot_plan s' = slot_plan s"
  shows "ws_hash s' = ws_hash s" "ws_element_type s' = ws_element_type s" "ws_shape s' = ws_shape s"
    "ws_read s' = ws_read s" "ws_count s' = ws_count s" "ws_block_cols s' = ws_block_cols s"
  using assms by (cases s; cases s'; simp add: slot_plan_def)+

lemma slot_plan_same:
  assumes "slot_plan s' = slot_plan s"
  shows "slot_fits content n s' = slot_fits content n s" "derived_span s' w = derived_span s w"
    "block_range s' w = block_range s w" "ws_dtype s' = ws_dtype s" "slot_bytes s' = slot_bytes s"
    "window_of content s' w = window_of content s w"
  using slot_plan_fields [OF assms]
  by (simp_all add: slot_fits_def derived_span_def block_range_def ws_dtype_def slot_bytes_def window_of_def
      cong: window_read.case_cong)

lemma set_window_fields [simp]:
  "slot_plan (set_window w s) = slot_plan s" "slot_window (set_window w s) = w"
  "cached_from content (set_window w s) = cached_from content s"
  by (simp_all add: set_window_def slot_window_def cached_from_def)

lemma cached_from_updates [simp]:
  "cached_from content (s\<lparr>ws_filled := f\<rparr>) = cached_from content s"
  "cached_from content (s\<lparr>ws_cached := None\<rparr>)"
  "cached_from content (s\<lparr>ws_cached := None, ws_block := b\<rparr>)"
  "cached_from content (s\<lparr>ws_cached := None, ws_filled := f\<rparr>)"
  by (simp_all add: cached_from_def)

lemma dense_fits:
  assumes "slot_fits content n s" "ws_read s = DenseRead axis"
  shows "wf_array (content (ws_hash s))" "arr_dtype (content (ws_hash s)) = ws_dtype s" "ws_count s = n"
    "axis < length (shape (content (ws_hash s)))" "shape (content (ws_hash s)) ! axis = n"
    "ws_shape s = take axis (shape (content (ws_hash s))) @ drop (Suc axis) (shape (content (ws_hash s)))"
  using assms by (simp_all add: slot_fits_def Let_def)

definition installed :: "(hash \<Rightarrow> typed_array) \<Rightarrow> nat \<Rightarrow> window_slot \<Rightarrow> window_slot \<Rightarrow> bool" where
  "installed content w s s' \<longleftrightarrow> slot_plan s' = slot_plan s \<and> cached_from content s' = cached_from content s \<and>
     (if derived_span s w = None then s' = s else shows_window content w s')"

lemma index_on_grid_less: "index_on_grid C initial step len at = Inr i \<Longrightarrow> i < len"
  by (auto simp: index_on_grid_def result_elims split: if_splits)

context window_source
begin

lemma load_block_ok:
  assumes fits: "slot_fits content n s" "ws_read s = DenseRead axis" and cached: "cached_from content s"
    and agree: "\<forall>h a. stored h = Some a \<longrightarrow> a = content h" and rng: "lo \<le> hi"
    and load: "load_block read_block axis (lo, hi) s = (s', r)"
  shows "slot_plan s' = slot_plan s" "ws_filled s' = ws_filled s" "cached_from content s'"
    and "r = Inr () \<Longrightarrow> \<exists>b. slice_axis (content (ws_hash s)) axis (lo, hi) = Inr b \<and> ws_block s' = bytes b"
    and "r = Inr () \<Longrightarrow> ws_cached s \<noteq> Some (lo, hi) \<Longrightarrow> stored (ws_hash s) \<noteq> None"
proof -
  let ?read = "read_block (ws_hash s) (ws_dtype s) axis lo (hi - lo) (ws_block s)"
  have read: "\<exists>b. stored (ws_hash s) \<noteq> None \<and> slice_axis (content (ws_hash s)) axis (lo, hi) = Inr b \<and> block = bytes b"
    if "?read = (block, Inr ())" for block
    using that rng agree unfolding read_block by force
  consider (hit) "ws_cached s = Some (lo, hi)" "s' = s" "r = Inr ()"
    | (failed) block e where "ws_cached s \<noteq> Some (lo, hi)" "s' = s\<lparr>ws_cached := None, ws_block := block\<rparr>" "r = Inl e"
    | (loaded) block where "ws_cached s \<noteq> Some (lo, hi)" "?read = (block, Inr ())"
        "s' = s\<lparr>ws_cached := Some (lo, hi), ws_block := block\<rparr>" "r = Inr ()"
    using load by (auto simp: load_block_def split: if_splits prod.splits sum.splits)
  then have "slot_plan s' = slot_plan s \<and> ws_filled s' = ws_filled s \<and> cached_from content s' \<and>
    (r = Inr () \<longrightarrow> (\<exists>b. slice_axis (content (ws_hash s)) axis (lo, hi) = Inr b \<and> ws_block s' = bytes b)) \<and>
    (r = Inr () \<longrightarrow> ws_cached s \<noteq> Some (lo, hi) \<longrightarrow> stored (ws_hash s) \<noteq> None)"
  proof cases
    case hit
    then show ?thesis using cached fits(2) by (auto simp: cached_from_def)
  next
    case failed
    then show ?thesis by simp
  next
    case loaded
    obtain b where b: "stored (ws_hash s) \<noteq> None" "slice_axis (content (ws_hash s)) axis (lo, hi) = Inr b" "block = bytes b"
      using read [OF loaded(2)] by blast
    then show ?thesis using loaded fits(2) by (auto simp: cached_from_def)
  qed
  then show "slot_plan s' = slot_plan s" "ws_filled s' = ws_filled s" "cached_from content s'"
    and "r = Inr () \<Longrightarrow> \<exists>b. slice_axis (content (ws_hash s)) axis (lo, hi) = Inr b \<and> ws_block s' = bytes b"
    and "r = Inr () \<Longrightarrow> ws_cached s \<noteq> Some (lo, hi) \<Longrightarrow> stored (ws_hash s) \<noteq> None" by blast+
qed

lemma load_block_succeeds:
  assumes fits: "slot_fits content n s" "ws_read s = DenseRead axis" and held: "stored (ws_hash s) = Some (content (ws_hash s))"
    and rng: "lo \<le> hi" "hi \<le> n"
  shows "\<exists>s'. load_block read_block axis (lo, hi) s = (s', Inr ())"
proof -
  note d = dense_fits [OF fits]
  obtain b where b: "slice_axis (content (ws_hash s)) axis (lo, hi) = Inr b"
    using slice_axis_ok [OF d(1,4), of lo hi] rng d(5) by auto
  have "read_block (ws_hash s) (ws_dtype s) axis lo (hi - lo) (ws_block s) = (bytes b, Inr ())"
    unfolding read_block using held d(2) b rng(1) by simp
  then show ?thesis by (simp add: load_block_def)
qed

lemma read_window_ok:
  assumes ok: "slot_ok content n s" and dense: "ws_read s = DenseRead axis" and w: "w < n"
    and agree: "\<forall>h a. stored h = Some a \<longrightarrow> a = content h"
    and read: "read_window read_block w s = (s', r)"
  shows "slot_plan s' = slot_plan s \<and> slot_ok content n s' \<and>
    (r = Inr () \<longrightarrow> shows_window content w s' \<and> (serves_from_cache s w \<or> stored (ws_hash s) \<noteq> None))"
    and "stored (ws_hash s) = Some (content (ws_hash s)) \<Longrightarrow> r = Inr ()"
proof -
  have fits: "slot_fits content n s" and cached: "cached_from content s" using ok by (simp_all add: slot_ok_def)
  note d = dense_fits [OF fits dense]
  obtain lo hi where rng: "block_range s w = (lo, hi)" by fastforce
  have bounds: "lo \<le> w" "w < hi" "hi \<le> n" using block_range_bounds [of w s] w d(3) rng by simp_all
  define s0 where "s0 = s\<lparr>ws_filled := False\<rparr>"
  have s0: "slot_fits content n s0" "ws_read s0 = DenseRead axis" "cached_from content s0" "ws_hash s0 = ws_hash s"
    "slot_plan s0 = slot_plan s" "ws_cached s0 = ws_cached s"
    using fits dense cached slot_plan_same(1) [of s0 s content n] by (simp_all add: s0_def)
  obtain s1 r1 where load: "load_block read_block axis (lo, hi) s0 = (s1, r1)" by fastforce
  note l = load_block_ok [OF s0(1-3) agree _ load]
  have plan: "slot_plan s1 = slot_plan s" "slot_ok content n s1"
    using l(1,3) bounds s0(5) fits slot_plan_same(1) [of s1 s content n] by (simp_all add: slot_ok_def)
  note f = slot_plan_fields [OF plan(1)]
  have loaded: "\<exists>c. slice_axis (content (ws_hash s)) axis (w, w + 1) = Inr c \<and>
      gather_window (ws_block s1) (ws_shape s1) axis (hi - lo) (w - lo) (dtype_size (ws_dtype s1)) = Inr (bytes c)"
    if success: "r1 = Inr ()"
  proof -
    obtain b where b: "slice_axis (content (ws_hash s)) axis (lo, hi) = Inr b" "ws_block s1 = bytes b"
      using l(4) bounds success s0(4) by auto
    obtain c where "slice_axis (content (ws_hash s)) axis (w, w + 1) = Inr c"
      "gather_window (bytes b) (ws_shape s) axis (hi - lo) (w - lo) (dtype_size (ws_dtype s)) = Inr (bytes c)"
      using gather_slice [OF d(1,4) bounds(1,2) _ b(1)] bounds(3) d(2,5,6) by metis
    then show ?thesis using b(2) f(3) slot_plan_same(4) [OF plan(1)] by auto
  qed
  have result: "(s', r) = (case r1 of Inl e \<Rightarrow> (s1, Inl e) | Inr _ \<Rightarrow>
      (case gather_window (ws_block s1) (ws_shape s1) axis (hi - lo) (w - lo) (dtype_size (ws_dtype s1)) of
         Inl e \<Rightarrow> (s1, Inl e) | Inr b \<Rightarrow> (set_window b s1, Inr ())))"
    using read dense rng load by (simp add: read_window_def s0_def Let_def split: sum.splits)
  have cases: "(\<exists>e. r = Inl e \<and> s' = s1 \<and> r1 = Inl e) \<or>
      (\<exists>c. slice_axis (content (ws_hash s)) axis (w, w + 1) = Inr c \<and> r = Inr () \<and> s' = set_window (bytes c) s1 \<and> r1 = Inr ())"
  proof (cases r1)
    case (Inl e)
    then show ?thesis using result by simp
  next
    case (Inr u)
    then show ?thesis using result loaded by auto
  qed
  show "slot_plan s' = slot_plan s \<and> slot_ok content n s' \<and>
    (r = Inr () \<longrightarrow> shows_window content w s' \<and> (serves_from_cache s w \<or> stored (ws_hash s) \<noteq> None))"
    using cases
  proof (elim disjE exE conjE)
    fix e
    assume "r = Inl e" "s' = s1"
    then show ?thesis using plan by simp
  next
    fix c
    assume c: "slice_axis (content (ws_hash s)) axis (w, w + 1) = Inr c" "r = Inr ()" "s' = set_window (bytes c) s1" "r1 = Inr ()"
    have p: "slot_plan s' = slot_plan s" using plan c(3) by simp
    have "shows_window content w s'"
      using slot_plan_same(6) [OF p] c(1,3) dense by (simp add: shows_window_def window_of_def)
    moreover have "serves_from_cache s w \<or> stored (ws_hash s) \<noteq> None"
      using l(5) c(4) bounds s0(4,6) dense rng by (auto simp: serves_from_cache_def)
    moreover have "slot_ok content n s'"
      using plan(2) slot_plan_same(1) [of s' s1 content n] c(3) by (simp add: slot_ok_def)
    ultimately show ?thesis using p by simp
  qed
  show "r = Inr ()" if "stored (ws_hash s) = Some (content (ws_hash s))"
    using load_block_succeeds [OF s0(1,2), of lo hi] that bounds s0(4) load cases by auto
qed

lemma forget_ok: "slot_ok content n s \<Longrightarrow> slot_ok content n (forget s)" "slot_plan (forget s) = slot_plan s"
proof -
  show plan: "slot_plan (forget s) = slot_plan s" by (simp add: forget_def)
  show "slot_ok content n s \<Longrightarrow> slot_ok content n (forget s)"
    using slot_plan_same(1) [OF plan, of content n] by (simp add: slot_ok_def forget_def)
qed

lemma read_dense_slot_ok:
  assumes ok: "slot_ok content n s" and dense: "derived_span s w = None" and w: "w < n"
    and agree: "\<forall>h a. stored h = Some a \<longrightarrow> a = content h"
    and read: "read_dense_slot holds_array read_block w s = (s', r)"
  shows "slot_plan s' = slot_plan s \<and> slot_ok content n s' \<and>
    (r = Inr () \<longrightarrow> shows_window content w s' \<and> stored (ws_hash s) \<noteq> None)"
    and "stored (ws_hash s) \<noteq> None \<Longrightarrow> r = Inr ()"
proof -
  obtain axis where axis: "ws_read s = DenseRead axis" using dense by (cases "ws_read s") (auto simp: derived_span_def Let_def)
  consider (gone) "stored (ws_hash s) = None" "s' = forget s" "r \<noteq> Inr ()"
    | (reads) "read_window read_block w s = (s', r)" "stored (ws_hash s) \<noteq> None \<or> \<not> serves_from_cache s w"
    using read by (auto simp: read_dense_slot_def holds_array split: if_splits)
  then have "(slot_plan s' = slot_plan s \<and> slot_ok content n s' \<and>
      (r = Inr () \<longrightarrow> shows_window content w s' \<and> stored (ws_hash s) \<noteq> None)) \<and> (stored (ws_hash s) \<noteq> None \<longrightarrow> r = Inr ())"
  proof cases
    case gone
    then show ?thesis using forget_ok ok by simp
  next
    case reads
    then show ?thesis using read_window_ok [OF ok axis w agree reads(1)] agree by auto
  qed
  then show "slot_plan s' = slot_plan s \<and> slot_ok content n s' \<and>
      (r = Inr () \<longrightarrow> shows_window content w s' \<and> stored (ws_hash s) \<noteq> None)"
    and "stored (ws_hash s) \<noteq> None \<Longrightarrow> r = Inr ()" by blast+
qed

lemma read_slot_ok:
  assumes ok: "slot_ok content n s" and w: "w < n" and agree: "\<forall>h a. stored h = Some a \<longrightarrow> a = content h"
    and read: "read_slot holds_array read_block w s = (s', r)"
  shows "slot_plan s' = slot_plan s" "slot_ok content n s'"
    and "r = Inr () \<Longrightarrow> derived_span s' w = None \<Longrightarrow> shows_window content w s' \<and> stored (ws_hash s') \<noteq> None"
    and "stored (ws_hash s) \<noteq> None \<Longrightarrow> r = Inr ()"
proof -
  have all: "slot_plan s' = slot_plan s \<and> slot_ok content n s' \<and>
      (r = Inr () \<longrightarrow> derived_span s w = None \<longrightarrow> shows_window content w s' \<and> stored (ws_hash s) \<noteq> None) \<and>
      (stored (ws_hash s) \<noteq> None \<longrightarrow> r = Inr ())"
  proof (cases "derived_span s w = None")
    case True
    then have "read_dense_slot holds_array read_block w s = (s', r)" using read by (simp add: read_slot_def)
    from read_dense_slot_ok [OF ok True w agree this] show ?thesis by blast
  next
    case False
    then have "s' = s" "r = Inr ()" using read by (simp_all add: read_slot_def)
    then show ?thesis using ok False by auto
  qed
  show plan: "slot_plan s' = slot_plan s" using all by blast
  show "slot_ok content n s'" "stored (ws_hash s) \<noteq> None \<Longrightarrow> r = Inr ()" using all by blast+
  show "r = Inr () \<Longrightarrow> derived_span s' w = None \<Longrightarrow> shows_window content w s' \<and> stored (ws_hash s') \<noteq> None"
    unfolding slot_plan_same(2) [OF plan] slot_plan_fields(1) [OF plan] using all by blast
qed

lemma read_dense_slots_ok:
  assumes "list_all (slot_ok content n) slots" and w: "w < n"
    and agree: "\<forall>h a. stored h = Some a \<longrightarrow> a = content h"
    and "read_dense_slots holds_array read_block w slots = (slots', r)"
  shows "map slot_plan slots' = map slot_plan slots \<and> list_all (slot_ok content n) slots' \<and>
    (r = Inr () \<longrightarrow> (\<forall>s \<in> set slots'. derived_span s w = None \<longrightarrow> shows_window content w s \<and> stored (ws_hash s) \<noteq> None)) \<and>
    ((\<forall>s \<in> set slots. stored (ws_hash s) \<noteq> None) \<longrightarrow> r = Inr ())"
  using assms(1,4)
proof (induction slots arbitrary: slots' r)
  case (Cons s slots)
  obtain s1 r1 where one: "read_slot holds_array read_block w s = (s1, r1)" by fastforce
  have ok: "slot_ok content n s" "list_all (slot_ok content n) slots" using Cons.prems by simp_all
  note s1 = read_slot_ok [OF ok(1) w agree one]
  show ?case
  proof (cases r1)
    case (Inl e)
    then have "slots' = s1 # slots" "r = Inl e" using Cons.prems(2) one by simp_all
    then show ?thesis using s1 ok Inl by auto
  next
    case (Inr u)
    obtain rest r2 where rest: "read_dense_slots holds_array read_block w slots = (rest, r2)" by fastforce
    then have eq: "slots' = s1 # rest" "r = r2" using Cons.prems(2) one Inr by simp_all
    note ih = Cons.IH [OF ok(2) rest]
    show ?thesis unfolding eq using ih s1 Inr by (intro conjI impI) (simp, simp, force, force)
  qed
qed simp

lemma derived_part:
  assumes fits: "slot_fits content n s" and derived: "derived_span s w = Some rng" and w: "w < n"
  shows "\<exists>p. slice_axis (content (ws_hash s)) 0 rng = Inr p \<and> window_of content s w = Inr p \<and> length (bytes p) = slot_bytes s"
proof -
  let ?a = "content (ws_hash s)"
  obtain steps h where read: "ws_read s = DerivedRead steps h" using derived by (cases "ws_read s") (auto simp: derived_span_def)
  have a: "wf_array ?a" "arr_dtype ?a = ws_dtype s" "shape ?a \<noteq> []" "ws_shape s = h # tl (shape ?a)"
    and room: "(n - 1) * steps + h \<le> hd (shape ?a)" "(n - 1) * steps + h \<le> usize_max"
    using fits read by (simp_all add: slot_fits_def Let_def)
  have "w \<le> n - 1" using w by linarith
  then have "w * steps + h \<le> (n - 1) * steps + h" by (simp add: mult_le_mono1)
  then have le: "w * steps + h \<le> hd (shape ?a)" "w * steps + h \<le> usize_max" using room by linarith+
  then have rng: "rng = (w * steps, w * steps + h)"
    using derived read by (simp add: derived_span_def Let_def wrapping_def)
  obtain p where p: "slice_axis ?a 0 rng = Inr p" "arr_dtype p = ws_dtype s" "shape p = (shape ?a)[0 := h]" "wf_array p"
    using slice_axis_ok [OF a(1), of 0 "w * steps" "w * steps + h"] a(2,3) le(1) unfolding rng
    by (auto simp: hd_conv_nth)
  have "shape p = ws_shape s" using p(3) a(3,4) by (cases "shape ?a") simp_all
  then have "length (bytes p) = prod_list (ws_shape s) * dtype_size (ws_dtype s)" using wf_array_length [OF p(4)] p(2) by simp
  then have "length (bytes p) = slot_bytes s" using wf_array_bounded [OF p(4)] by (simp add: slot_bytes_def wrapping_def)
  with p(1) show ?thesis using read rng by (simp add: window_of_def)
qed

lemma install_windows_ok:
  assumes "list_all2 (\<lambda>s p. window_of content s w = Inr p \<and> length (bytes p) = slot_bytes s)
      (derived_slots w slots) parts"
  shows "\<exists>slots'. install_windows w slots (concat (map bytes parts) @ rest) = (slots', Inr rest) \<and>
    list_all2 (installed content w) slots slots'"
  using assms
proof (induction slots arbitrary: parts)
  case (Cons s slots)
  show ?case
  proof (cases "derived_span s w = None")
    case True
    then have "installed content w s s" by (simp add: installed_def)
    then show ?thesis using Cons.IH [of parts] Cons.prems True by (auto simp: derived_slots_def)
  next
    case False
    then obtain p parts' where p: "parts = p # parts'" "window_of content s w = Inr p" "length (bytes p) = slot_bytes s"
      and rest: "list_all2 (\<lambda>s p. window_of content s w = Inr p \<and> length (bytes p) = slot_bytes s)
        (derived_slots w slots) parts'"
      using Cons.prems False by (auto simp: list_all2_Cons1 derived_slots_def)
    have "installed content w s (set_window (bytes p) s)"
      using p(2) slot_plan_same(6) [of "set_window (bytes p) s" s content w] False
      by (auto simp: shows_window_def installed_def)
    then show ?thesis using Cons.IH [OF rest] False p by auto
  qed
qed (simp add: derived_slots_def)

text \<open>The batch of derived slots.\<close>

lemma derived_parts:
  assumes "list_all (slot_ok content n) ds" and spans: "\<forall>s \<in> set ds. derived_span s w \<noteq> None" and w: "w < n"
    and agree: "\<forall>h a. stored h = Some a \<longrightarrow> a = content h"
  shows "range_parts stored (zip (zip (map ws_hash ds) (map ws_dtype ds)) (map (\<lambda>s. the (derived_span s w)) ds)) parts \<Longrightarrow>
      list_all2 (\<lambda>s p. window_of content s w = Inr p \<and> length (bytes p) = slot_bytes s) ds parts \<and>
      (\<forall>s \<in> set ds. stored (ws_hash s) \<noteq> None)"
    and "\<forall>s \<in> set ds. stored (ws_hash s) \<noteq> None \<Longrightarrow>
      \<exists>parts. range_parts stored (zip (zip (map ws_hash ds) (map ws_dtype ds)) (map (\<lambda>s. the (derived_span s w)) ds)) parts"
  using assms(1,2)
proof (induction ds arbitrary: parts)
  case (Cons s ds)
  {
    case 1
    obtain rng where rng: "derived_span s w = Some rng" using 1(3) by auto
    have ok: "slot_fits content n s" "list_all (slot_ok content n) ds" using 1(2) by (simp_all add: slot_ok_def list_all_iff)
    obtain p where p: "slice_axis (content (ws_hash s)) 0 rng = Inr p" "window_of content s w = Inr p" "length (bytes p) = slot_bytes s"
      using derived_part [OF ok(1) rng w] by blast
    obtain q parts' a where q: "parts = q # parts'" "stored (ws_hash s) = Some a" "slice_axis a 0 rng = Inr q"
      and rest: "range_parts stored (zip (zip (map ws_hash ds) (map ws_dtype ds)) (map (\<lambda>s. the (derived_span s w)) ds)) parts'"
      using 1(1) rng by (auto simp: range_parts_def list_all2_Cons1)
    have "q = p" using q(2,3) agree [rule_format, OF q(2)] p(1) by simp
    then show ?case using Cons.IH(1) [OF rest ok(2)] 1(3) p q by simp
  next
    case 2
    obtain rng where rng: "derived_span s w = Some rng" using 2(3) by auto
    have ok: "slot_fits content n s" "list_all (slot_ok content n) ds" using 2(2) by (simp_all add: slot_ok_def list_all_iff)
    obtain p where p: "slice_axis (content (ws_hash s)) 0 rng = Inr p" using derived_part [OF ok(1) rng w] by blast
    have d: "arr_dtype (content (ws_hash s)) = ws_dtype s" using ok(1) by (simp add: slot_fits_def Let_def)
    obtain a where a: "stored (ws_hash s) = Some a" using 2(1) by auto
    obtain parts' where
      "range_parts stored (zip (zip (map ws_hash ds) (map ws_dtype ds)) (map (\<lambda>s. the (derived_span s w)) ds)) parts'"
      using Cons.IH(2) ok(2) 2(1,3) by auto
    then have "range_parts stored (zip (zip (map ws_hash (s # ds)) (map ws_dtype (s # ds)))
        (map (\<lambda>s. the (derived_span s w)) (s # ds))) (p # parts')"
      using a agree [rule_format, OF a] d p rng by (simp add: range_parts_def)
    then show ?case by blast
  }
qed (auto simp: range_parts_def)

definition shown :: "(hash \<Rightarrow> typed_array) \<Rightarrow> nat \<Rightarrow> window_slot list \<Rightarrow> bool" where
  "shown content w slots \<longleftrightarrow> (\<forall>s \<in> set slots. shows_window content w s \<and> stored (ws_hash s) \<noteq> None)"

lemma installed_slots:
  assumes "list_all2 (installed content w) slots slots'" "list_all (slot_ok content n) slots"
    and "\<forall>s \<in> set slots. (derived_span s w = None \<longrightarrow> shows_window content w s) \<and> stored (ws_hash s) \<noteq> None"
  shows "map slot_plan slots' = map slot_plan slots \<and> list_all (slot_ok content n) slots' \<and> shown content w slots'"
  using assms
proof (induction slots slots' rule: list_all2_induct)
  case (Cons s slots s' slots')
  have plan: "slot_plan s' = slot_plan s" using Cons.hyps(1) by (simp add: installed_def)
  have "slot_ok content n s'"
    using Cons.hyps(1) Cons.prems(1) slot_plan_same(1) [OF plan, of content n] by (simp add: installed_def slot_ok_def)
  moreover have "shows_window content w s'"
    using Cons.hyps(1) Cons.prems(2) by (auto simp: installed_def split: if_splits)
  ultimately show ?case using Cons slot_plan_fields(1) [OF plan] plan by (auto simp: shown_def)
qed (simp add: shown_def)

lemma read_derived_ok:
  assumes ok: "list_all (slot_ok content n) slots" and w: "w < n"
    and agree: "\<forall>h a. stored h = Some a \<longrightarrow> a = content h"
    and dense: "\<forall>s \<in> set slots. derived_span s w = None \<longrightarrow> shows_window content w s \<and> stored (ws_hash s) \<noteq> None"
    and read: "read_derived read_ranges w slots = (slots', r)"
  shows "map slot_plan slots' = map slot_plan slots \<and> list_all (slot_ok content n) slots' \<and>
    (r = Inr () \<longrightarrow> shown content w slots') \<and> ((\<forall>s \<in> set slots. stored (ws_hash s) \<noteq> None) \<longrightarrow> r = Inr ())"
proof -
  define ds where "ds = derived_slots w slots"
  have okd: "list_all (slot_ok content n) ds" and spans: "\<forall>s \<in> set ds. derived_span s w \<noteq> None" and sub: "set ds \<subseteq> set slots"
    using ok by (auto simp: ds_def derived_slots_def list_all_iff)
  have rest: "derived_span s w = None" if "s \<in> set slots" "s \<notin> set ds" for s
    using that unfolding ds_def derived_slots_def set_filter by blast
  note parts = derived_parts [OF okd spans w agree]
  let ?read = "read_ranges (map ws_hash ds) (map ws_dtype ds) (map (\<lambda>s. the (derived_span s w)) ds)"
  obtain out r2 where out: "?read = (out, r2)" by fastforce
  consider (none) "ds = []" | (failed) e where "ds \<noteq> []" "r2 = Inl e" | (complete) "ds \<noteq> []" "r2 = Inr ()"
    by (cases r2) auto
  then show ?thesis
  proof cases
    case none
    then have "slots' = slots" "r = Inr ()" using read by (simp_all add: read_derived_def ds_def)
    then show ?thesis using ok dense rest none by (auto simp: shown_def)
  next
    case failed
    have "\<not> (\<forall>s \<in> set ds. stored (ws_hash s) \<noteq> None)"
    proof
      assume "\<forall>s \<in> set ds. stored (ws_hash s) \<noteq> None"
      from parts(2) [OF this] have "\<exists>bs. ?read = (bs, Inr ())" unfolding read_ranges by blast
      then show False using out failed(2) by simp
    qed
    moreover have "slots' = slots" "r = Inl e" using read out failed by (simp_all add: read_derived_def ds_def)
    ultimately show ?thesis using ok sub by auto
  next
    case complete
    then have "?read = (out, Inr ())" using out by simp
    then obtain ps where ps: "range_parts stored (zip (zip (map ws_hash ds) (map ws_dtype ds))
        (map (\<lambda>s. the (derived_span s w)) ds)) ps" "out = concat (map bytes ps)" unfolding read_ranges by blast
    note p = parts(1) [OF ps(1)]
    obtain slots2 where inst: "install_windows w slots out = (slots2, Inr [])" "list_all2 (installed content w) slots slots2"
      using install_windows_ok [of content w slots ps "[]"] p ps(2) by (auto simp: ds_def)
    have "slots' = slots2" "r = Inr ()" using read out complete inst(1) by (simp_all add: read_derived_def ds_def)
    moreover have "\<forall>s \<in> set slots. (derived_span s w = None \<longrightarrow> shows_window content w s) \<and> stored (ws_hash s) \<noteq> None"
      using dense rest p by blast
    ultimately show ?thesis using installed_slots [OF inst(2) ok] by simp
  qed
qed

lemma forecast_read_into_ok:
  assumes ok: "list_all (slot_ok content (fr_count R)) (fr_slots R)"
    and agree: "\<forall>h a. stored h = Some a \<longrightarrow> a = content h"
    and read: "forecast_read_into C holds_array read_block read_ranges R at = (R', r)"
  shows "\<exists>slots'. R' = R\<lparr>fr_slots := slots'\<rparr> \<and> map slot_plan slots' = map slot_plan (fr_slots R) \<and>
      list_all (slot_ok content (fr_count R)) slots' \<and>
      (r = Inr () \<longrightarrow> (\<exists>w. window_index C R at = Inr w \<and> shown content w slots'))"
    and "window_index C R at = Inr w \<Longrightarrow> \<forall>s \<in> set (fr_slots R). stored (ws_hash s) \<noteq> None \<Longrightarrow> r = Inr ()"
proof -
  have "(\<exists>slots'. R' = R\<lparr>fr_slots := slots'\<rparr> \<and> map slot_plan slots' = map slot_plan (fr_slots R) \<and>
      list_all (slot_ok content (fr_count R)) slots' \<and>
      (r = Inr () \<longrightarrow> (\<exists>w. window_index C R at = Inr w \<and> shown content w slots'))) \<and>
    ((\<exists>w. window_index C R at = Inr w) \<and> (\<forall>s \<in> set (fr_slots R). stored (ws_hash s) \<noteq> None) \<longrightarrow> r = Inr ())"
  proof (cases "window_index C R at")
    case (Inl e)
    then have "R' = R\<lparr>fr_slots := fr_slots R\<rparr>" "r = Inl (Raised e)" using read by (simp_all add: forecast_read_into_def)
    moreover have "\<not> (\<exists>w. window_index C R at = Inr w)" "r \<noteq> Inr ()" using Inl \<open>r = Inl (Raised e)\<close> by simp_all
    ultimately show ?thesis using ok by blast
  next
    case index: (Inr w)
    have w: "w < fr_count R" using index_on_grid_less index by (auto simp: window_index_def)
    obtain slots r1 where dense: "read_dense_slots holds_array read_block w (fr_slots R) = (slots, r1)" by fastforce
    note d = read_dense_slots_ok [OF ok w agree dense]
    then have "map ws_hash (map slot_plan slots) = map ws_hash (map slot_plan (fr_slots R))" by simp
    then have hashes: "map ws_hash slots = map ws_hash (fr_slots R)" by (simp add: slot_plan_def comp_def)
    have held: "(\<forall>s \<in> set slots. stored (ws_hash s) \<noteq> None) \<longleftrightarrow> (\<forall>s \<in> set (fr_slots R). stored (ws_hash s) \<noteq> None)"
      using arg_cong [OF hashes, of "\<lambda>hs. \<forall>h \<in> set hs. stored h \<noteq> None"] by simp
    show ?thesis
    proof (cases r1)
      case (Inl e)
      then have "R' = R\<lparr>fr_slots := slots\<rparr>" "r = Inl e" using read index dense by (auto simp: forecast_read_into_def)
      moreover have "r \<noteq> Inr ()" "\<not> (\<forall>s \<in> set (fr_slots R). stored (ws_hash s) \<noteq> None)"
        using \<open>r = Inl e\<close> d Inl by blast+
      ultimately show ?thesis using d by blast
    next
      case (Inr u)
      obtain slots2 r2 where derived: "read_derived read_ranges w slots = (slots2, r2)" by fastforce
      then have eq: "R' = R\<lparr>fr_slots := slots2\<rparr>" "r = r2" using read index dense Inr by (simp_all add: forecast_read_into_def)
      have "list_all (slot_ok content (fr_count R)) slots"
        "\<forall>s \<in> set slots. derived_span s w = None \<longrightarrow> shows_window content w s \<and> stored (ws_hash s) \<noteq> None"
        using d Inr by auto
      note rd = read_derived_ok [OF this(1) w agree this(2) derived]
      then have "map slot_plan slots2 = map slot_plan (fr_slots R)" using d by simp
      with rd show ?thesis unfolding eq index held by blast
    qed
  qed
  then show "\<exists>slots'. R' = R\<lparr>fr_slots := slots'\<rparr> \<and> map slot_plan slots' = map slot_plan (fr_slots R) \<and>
      list_all (slot_ok content (fr_count R)) slots' \<and>
      (r = Inr () \<longrightarrow> (\<exists>w. window_index C R at = Inr w \<and> shown content w slots'))"
    and "window_index C R at = Inr w \<Longrightarrow> \<forall>s \<in> set (fr_slots R). stored (ws_hash s) \<noteq> None \<Longrightarrow> r = Inr ()"
    by blast+
qed

end

section \<open>Properties\<close>

definition reader_ok :: "(hash \<Rightarrow> typed_array) \<Rightarrow> forecast_reader \<Rightarrow> bool" where
  "reader_ok content R \<longleftrightarrow> list_all (slot_ok content (fr_count R)) (fr_slots R)"

definition forecast_plan :: "forecast_reader \<Rightarrow> forecast_reader" where
  "forecast_plan R = R\<lparr>fr_slots := map slot_plan (fr_slots R)\<rparr>"

definition mem_forecast_read ::
    "chrono \<Rightarrow> memory_backend \<Rightarrow> forecast_reader \<Rightarrow> datetime \<Rightarrow> forecast_reader \<times> (ts_error failure + unit)" where
  "mem_forecast_read C s =
     forecast_read C (mem_contains s) (window_block_into (mem_get_array s)) (ranges_into (mem_get_slice s))"

lemma forecast_invalidate_ok:
  "reader_ok content (forecast_invalidate R) = reader_ok content R" "forecast_plan (forecast_invalidate R) = forecast_plan R"
  "slot \<in> set (fr_slots (forecast_invalidate R)) \<Longrightarrow> slot_window slot = []"
proof -
  have "slot_ok content n (s\<lparr>ws_filled := False\<rparr>) = slot_ok content n s" for n s
    using slot_plan_same(1) [of "s\<lparr>ws_filled := False\<rparr>" s content n] by (simp add: slot_ok_def)
  then show "reader_ok content (forecast_invalidate R) = reader_ok content R"
    by (simp add: reader_ok_def forecast_invalidate_def list_all_iff)
  show "forecast_plan (forecast_invalidate R) = forecast_plan R"
    by (simp add: forecast_plan_def forecast_invalidate_def comp_def)
  show "slot \<in> set (fr_slots (forecast_invalidate R)) \<Longrightarrow> slot_window slot = []"
    by (auto simp: forecast_invalidate_def slot_window_def)
qed

text \<open>C28: reading a forecast reader is all or nothing and never stale. While arrays come and go under
  their content hashes, a read keeps the reader's plan and every cached block a block of its array.
  When it succeeds, the instant is a window start and every slot holds exactly its window of an
  array that is still stored, served from its cache or not, dense or derived; when it fails, every
  slot is empty.\<close>

theorem forecast_read_correct:
  fixes C :: chrono and s :: memory_backend and R :: forecast_reader and at :: datetime
  assumes "reader_ok content R" "\<forall>h a. arrays s h = Some a \<longrightarrow> a = content h"
  defines "result \<equiv> mem_forecast_read C s R at"
  shows "reader_ok content (fst result) \<and> forecast_plan (fst result) = forecast_plan R \<and>
    (snd result = Inr () \<longrightarrow> (\<exists>w. window_index C R at = Inr w \<and>
      (\<forall>slot \<in> set (fr_slots (fst result)). arrays s (ws_hash slot) \<noteq> None \<and>
        (\<exists>b. window_of content slot w = Inr b \<and> slot_window slot = bytes b)))) \<and>
    (snd result \<noteq> Inr () \<longrightarrow> (\<forall>slot \<in> set (fr_slots (fst result)). slot_window slot = []))"
proof -
  obtain R' r where read: "forecast_read_into C (mem_contains s) (window_block_into (mem_get_array s))
      (ranges_into (mem_get_slice s)) R at = (R', r)" by fastforce
  obtain slots where slots: "R' = R\<lparr>fr_slots := slots\<rparr>" "map slot_plan slots = map slot_plan (fr_slots R)"
    "list_all (slot_ok content (fr_count R)) slots"
    and shown: "r = Inr () \<longrightarrow> (\<exists>w. window_index C R at = Inr w \<and> mem_windows.shown s content w slots)"
    using mem_windows.forecast_read_into_ok(1) [OF assms(1) [unfolded reader_ok_def] assms(2) read] by blast
  have R': "reader_ok content R'" "forecast_plan R' = forecast_plan R"
    using slots by (simp_all add: reader_ok_def forecast_plan_def)
  show ?thesis
  proof (cases r)
    case (Inl e)
    then have "result = (forecast_invalidate R', Inl e)" using read by (simp add: result_def mem_forecast_read_def forecast_read_def)
    then show ?thesis using R' forecast_invalidate_ok by simp
  next
    case (Inr u)
    then have "result = (R', Inr ())" using read by (simp add: result_def mem_forecast_read_def forecast_read_def)
    then show ?thesis using R' shown slots(1) Inr by (auto simp: mem_windows.shown_def shows_window_def)
  qed
qed

definition demo_column :: typed_array where
  "demo_column = \<lparr>arr_dtype = U8, shape = [2, 1], bytes = [7, 8]\<rparr>"

definition demo_slot :: "hash \<Rightarrow> nat list \<Rightarrow> window_read \<Rightarrow> window_slot" where
  "demo_slot h ws plan =
     \<lparr>ws_hash = h, ws_element_type = ScalarOf U8, ws_shape = ws, ws_read = plan, ws_count = 1, ws_block_cols = 1,
      ws_cached = None, ws_block = [], ws_buf = [], ws_filled = False\<rparr>"

definition demo_reader :: "window_slot list \<Rightarrow> forecast_reader" where
  "demo_reader slots =
     \<lparr>fr_type = Deterministic, fr_time_reference = None, fr_initial_timestamp = day_2024 1 31, fr_resolution = Months 1,
      fr_interval = Fixed 0, fr_count = 1, fr_slots = slots, fr_entries = [\<lparr>e_id = 1, e_slot = 0\<rparr>]\<rparr>"

lemma demo_reader_ok:
  assumes "\<forall>s \<in> set slots. s = demo_slot [1] [2, 3] (DerivedRead 0 2) \<or> s = demo_slot [2] [2] (DenseRead 1) \<or>
    s = (demo_slot [2] [2] (DenseRead 1))\<lparr>ws_cached := Some (0, 1), ws_block := [7, 8], ws_buf := [7, 8], ws_filled := True\<rparr>"
  shows "reader_ok (\<lambda>h. if h = [1] then demo_array else demo_column) (demo_reader slots)"
proof -
  have wf: "wf_array demo_column"
    by (simp add: demo_column_def wf_array_def check_bytes_def expected_bytes_def element_count_def checked_usize_def usize_max_def)
  have slice: "slice_axis demo_column 1 (0, 1) = Inr demo_column"
    by code_simp
  show ?thesis
    using assms wf wf_demo slice
    by (fastforce simp: reader_ok_def list_all_iff demo_reader_def slot_ok_def slot_fits_def cached_from_def demo_slot_def
        demo_array_def demo_column_def ws_dtype_def usize_max_def)
qed

theorem forecast_read_correct_witness:
  "list_all (\<lambda>slot. slot_window slot = []) (fr_slots (fst (mem_forecast_read gregorian memory_new
      (demo_reader [(demo_slot [2] [2] (DenseRead 1))\<lparr>ws_cached := Some (0, 1), ws_block := [7, 8], ws_buf := [7, 8], ws_filled := True\<rparr>])
      (day_2024 1 31))))"
proof -
  let ?slot = "(demo_slot [2] [2] (DenseRead 1))\<lparr>ws_cached := Some (0, 1), ws_block := [7, 8], ws_buf := [7, 8], ws_filled := True\<rparr>"
  have ok: "reader_ok (\<lambda>h. if h = [1] then demo_array else demo_column) (demo_reader [?slot])" by (rule demo_reader_ok) simp
  have agree: "\<forall>h a. arrays memory_new h = Some a \<longrightarrow> a = (if h = [1] then demo_array else demo_column)"
    by (simp add: memory_new_def)
  have "snd (mem_forecast_read gregorian memory_new (demo_reader [?slot]) (day_2024 1 31)) \<noteq> Inr ()"
    by (simp add: mem_forecast_read_def forecast_read_def forecast_read_into_def demo_reader_def window_index_def index_on_grid_def
        read_slot_def read_dense_slot_def serves_from_cache_def derived_span_def demo_slot_def block_range_def mem_contains_def
        memory_new_def)
  with forecast_read_correct [OF ok agree, of gregorian "day_2024 1 31"] show ?thesis
    unfolding list_all_iff by blast
qed

text \<open>C29: a forecast read succeeds whenever it can. If the instant is a window start and the arrays of
  all slots are stored, the read reports no error, so with the previous property every slot then
  holds its window.\<close>

theorem forecast_read_progress:
  fixes C :: chrono and s :: memory_backend and R :: forecast_reader and at :: datetime
  assumes "reader_ok content R" "\<forall>h a. arrays s h = Some a \<longrightarrow> a = content h"
    and "window_index C R at = Inr w" "\<forall>slot \<in> set (fr_slots R). arrays s (ws_hash slot) \<noteq> None"
  shows "snd (mem_forecast_read C s R at) = Inr ()"
proof -
  obtain R' r where read: "forecast_read_into C (mem_contains s) (window_block_into (mem_get_array s))
      (ranges_into (mem_get_slice s)) R at = (R', r)" by fastforce
  have "r = Inr ()"
    using mem_windows.forecast_read_into_ok(2) [OF assms(1) [unfolded reader_ok_def] assms(2) read assms(3,4)] .
  then show ?thesis using read by (simp add: mem_forecast_read_def forecast_read_def)
qed

theorem forecast_read_progress_witness:
  "snd (mem_forecast_read gregorian (memory_new\<lparr>arrays := [[1] \<mapsto> demo_array, [2] \<mapsto> demo_column]\<rparr>)
     (demo_reader [demo_slot [1] [2, 3] (DerivedRead 0 2), demo_slot [2] [2] (DenseRead 1)]) (day_2024 1 31)) = Inr ()"
proof -
  have ok: "reader_ok (\<lambda>h. if h = [1] then demo_array else demo_column)
      (demo_reader [demo_slot [1] [2, 3] (DerivedRead 0 2), demo_slot [2] [2] (DenseRead 1)])"
    by (rule demo_reader_ok) simp
  show ?thesis
    by (rule forecast_read_progress [OF ok, of _ gregorian _ 0])
      (auto simp: demo_reader_def demo_slot_def window_index_def index_on_grid_def split: if_splits)
qed

end
