(* ===== verification/WriteBuffer.thy ===== *)
theory WriteBuffer
  imports Backend
begin

text \<open>
  \<open>crates/infrastore-core/src/write_buffer.rs\<close>: the packed arrays an open transaction has accepted and
  not yet written. A \<open>HashMap\<close> is a map; the order it iterates in is the parameter \<open>iter\<close>, about
  which only what every iteration satisfies is assumed (each key once). The backend is the record of
  the operations the buffer calls, and its contract the locale \<open>block_store\<close>. Byte counts of live
  buffers are mathematical naturals.
\<close>

section \<open>The backend as the buffer sees it\<close>

record 's backend_ops =
  b_contains :: "'s \<Rightarrow> hash \<Rightarrow> bool result"
  b_has_pack_group :: "'s \<Rightarrow> dtype \<Rightarrow> nat list \<Rightarrow> nat \<Rightarrow> pack_group \<Rightarrow> bool"
  b_put :: "'s put"
  b_put_block :: "'s \<Rightarrow> (hash \<times> typed_array) list \<Rightarrow> pack_group \<Rightarrow> bool list result \<times> 's"
  b_remove :: "'s \<Rightarrow> hash \<Rightarrow> unit result \<times> 's"

type_synonym pool_key = "dtype \<times> nat list \<times> nat \<times> pack_group"

definition pool_key :: "typed_array \<Rightarrow> pack_group \<Rightarrow> pool_key" where
  "pool_key a g = (arr_dtype a, element_shape a, ta_length a, g)"

definition key_group :: "pool_key \<Rightarrow> pack_group" where
  "key_group k = snd (snd (snd k))"

text \<open>The scan of \<open>put_block\<close> for new arrays, which stops at two. \<open>new\<close> holds positions found so far.\<close>

fun scan_new :: "(hash \<Rightarrow> bool result) \<Rightarrow> hash set \<Rightarrow> nat list \<Rightarrow> (nat \<times> hash) list \<Rightarrow> nat list result" where
  "scan_new contains seen new [] = Inr new"
| "scan_new contains seen new ((i, h) # rest) =
     (if h \<in> seen then scan_new contains seen new rest
      else rbind (contains h)
        (\<lambda>held. if held then scan_new contains (insert h seen) new rest
          else if length new = 1 then Inr (new @ [i])
          else scan_new contains (insert h seen) (new @ [i]) rest))"

definition is_irregular_group :: "pack_group \<Rightarrow> bool" where
  "is_irregular_group g = (case g of Irregular _ \<Rightarrow> True | Regular _ \<Rightarrow> False)"

definition put_block :: "'s backend_ops \<Rightarrow> 's \<Rightarrow> (hash \<times> typed_array) list \<Rightarrow> pack_group \<Rightarrow> bool list result \<times> 's" where
  "put_block B s block g =
     (case scan_new (b_contains B s) {} [] (enumerate 0 (map fst block)) of
        Inl e \<Rightarrow> (Inl e, s)
      | Inr [] \<Rightarrow> (Inr (replicate (length block) False), s)
      | Inr [i] \<Rightarrow>
          let (h, a) = block ! i;
              layout = (if is_irregular_group g \<and>
                  \<not> b_has_pack_group B s (arr_dtype a) (element_shape a) (ta_length a) g
                then Standalone else Packed)
          in (case b_put B s h a g layout of
                (Inl e, s') \<Rightarrow> (Inl e, s')
              | (Inr w, s') \<Rightarrow> (Inr ((replicate (length block) False)[i := w]), s'))
      | Inr _ \<Rightarrow> b_put_block B s block g)"

section \<open>The buffer\<close>

record block =
  b_hashes :: "hash list"
  b_arrays :: "typed_array list"
  b_bytes :: nat

definition empty_block :: block where
  "empty_block = \<lparr>b_hashes = [], b_arrays = [], b_bytes = 0\<rparr>"

record write_buffer =
  blocks :: "pool_key \<rightharpoonup> block"
  by_hash :: "hash \<rightharpoonup> pool_key \<times> nat"
  wb_bytes :: nat
  max_bytes :: nat

definition wb_new :: write_buffer where
  "wb_new = \<lparr>blocks = Map.empty, by_hash = Map.empty, wb_bytes = 0, max_bytes = MAX_PENDING_BYTES\<rparr>"

definition wb_contains :: "write_buffer \<Rightarrow> hash \<Rightarrow> bool" where
  "wb_contains W h \<longleftrightarrow> by_hash W h \<noteq> None"

definition wb_get :: "write_buffer \<Rightarrow> hash \<Rightarrow> typed_array option" where
  "wb_get W h =
     (case by_hash W h of
        None \<Rightarrow> None
      | Some (key, idx) \<Rightarrow> (case blocks W key of None \<Rightarrow> None | Some b \<Rightarrow> get_at (b_arrays b) idx))"

definition width_cap :: "write_buffer \<Rightarrow> dtype \<Rightarrow> nat list \<Rightarrow> nat \<Rightarrow> nat" where
  "width_cap W d es len =
     (let per_column = max (saturating_mul len (element_block_bytes d es)) 1;
          by_bytes = max (max_bytes W div per_column) 1
      in min (resolve_dataset_cols (Some usize_max) d es) by_bytes)"

text \<open>One turn of the loop that splits a written block: a skipped array stays buffered.\<close>

definition keep_step ::
  "pool_key \<Rightarrow> hash set \<Rightarrow> (hash \<rightharpoonup> pool_key \<times> nat) \<times> block \<Rightarrow> hash \<times> typed_array \<Rightarrow>
   (hash \<rightharpoonup> pool_key \<times> nat) \<times> block" where
  "keep_step key skip st ha =
     (case st of (m, kept) \<Rightarrow> case ha of (h, a) \<Rightarrow>
        if h \<in> skip
        then (m(h \<mapsto> (key, length (b_hashes kept))),
              kept\<lparr>b_hashes := b_hashes kept @ [h], b_arrays := b_arrays kept @ [a],
                   b_bytes := b_bytes kept + length (bytes a)\<rparr>)
        else (m(h := None), kept))"

definition write_block_except ::
  "'s backend_ops \<Rightarrow> pool_key \<Rightarrow> hash set \<Rightarrow> write_buffer \<Rightarrow> 's \<Rightarrow> unit result \<times> write_buffer \<times> 's" where
  "write_block_except B key skip W s =
     (case blocks W key of
        None \<Rightarrow> (Inr (), W, s)
      | Some b \<Rightarrow>
          let W1 = W\<lparr>blocks := (blocks W)(key := None), wb_bytes := wb_bytes W - b_bytes b\<rparr>;
              pairs = zip (b_hashes b) (b_arrays b);
              live = filter (\<lambda>(h, a). h \<notin> skip) pairs;
              (outcome, s') = (if live = [] then (Inr [], s) else put_block B s live (key_group key))
          in case outcome of
               Inl e \<Rightarrow> (Inl e, W1\<lparr>wb_bytes := wb_bytes W1 + b_bytes b, blocks := (blocks W1)(key \<mapsto> b)\<rparr>, s')
             | Inr _ \<Rightarrow>
                 let (m, kept) = foldl (keep_step key skip) (by_hash W1, empty_block) pairs;
                     W2 = W1\<lparr>by_hash := m\<rparr>
                 in (Inr (),
                     if b_hashes kept = [] then W2
                     else W2\<lparr>wb_bytes := wb_bytes W2 + b_bytes kept, blocks := (blocks W2)(key \<mapsto> kept)\<rparr>,
                     s'))"

definition write_block ::
  "'s backend_ops \<Rightarrow> pool_key \<Rightarrow> write_buffer \<Rightarrow> 's \<Rightarrow> unit result \<times> write_buffer \<times> 's" where
  "write_block B key W s = write_block_except B key {} W s"

fun write_blocks ::
  "'s backend_ops \<Rightarrow> hash set \<Rightarrow> pool_key list \<Rightarrow> write_buffer \<Rightarrow> 's \<Rightarrow> unit result \<times> write_buffer \<times> 's" where
  "write_blocks B skip [] W s = (Inr (), W, s)"
| "write_blocks B skip (key # keys) W s =
     (case write_block_except B key skip W s of
        (Inl e, W', s') \<Rightarrow> (Inl e, W', s')
      | (Inr _, W', s') \<Rightarrow> write_blocks B skip keys W' s')"

type_synonym iteration = "(pool_key \<rightharpoonup> block) \<Rightarrow> pool_key list"

definition write_all_except ::
  "'s backend_ops \<Rightarrow> iteration \<Rightarrow> hash set \<Rightarrow> write_buffer \<Rightarrow> 's \<Rightarrow> unit result \<times> write_buffer \<times> 's" where
  "write_all_except B iter skip W s = write_blocks B skip (iter (blocks W)) W s"

definition write_all ::
  "'s backend_ops \<Rightarrow> iteration \<Rightarrow> write_buffer \<Rightarrow> 's \<Rightarrow> unit result \<times> write_buffer \<times> 's" where
  "write_all B iter W s = write_all_except B iter {} W s"

fun holding_keys :: "write_buffer \<Rightarrow> pool_key list \<Rightarrow> hash list \<Rightarrow> pool_key list" where
  "holding_keys W keys [] = keys"
| "holding_keys W keys (h # hs) =
     (case by_hash W h of
        Some (key, _) \<Rightarrow> holding_keys W (if key \<in> set keys then keys else keys @ [key]) hs
      | None \<Rightarrow> holding_keys W keys hs)"

definition write_holding ::
  "'s backend_ops \<Rightarrow> hash list \<Rightarrow> write_buffer \<Rightarrow> 's \<Rightarrow> unit result \<times> write_buffer \<times> 's" where
  "write_holding B hashes W s = write_blocks B {} (holding_keys W [] hashes) W s"

text \<open>\<open>Iterator::max_by_key\<close>: the last of the largest.\<close>

fun max_by_key :: "('a \<Rightarrow> nat) \<Rightarrow> 'a list \<Rightarrow> 'a option" where
  "max_by_key f [] = None"
| "max_by_key f (x # xs) =
     (case max_by_key f xs of None \<Rightarrow> Some x | Some y \<Rightarrow> if f x \<le> f y then Some y else Some x)"

text \<open>
  The eviction loop, with as many turns as there are blocks and one more: each turn that does not
  end it writes out a block.
\<close>

fun evict_loop :: "nat \<Rightarrow> 's backend_ops \<Rightarrow> iteration \<Rightarrow> write_buffer \<Rightarrow> 's \<Rightarrow> unit result \<times> write_buffer \<times> 's" where
  "evict_loop 0 B iter W s = (Inr (), W, s)"
| "evict_loop (Suc n) B iter W s =
     (if wb_bytes W \<le> max_bytes W then (Inr (), W, s)
      else case max_by_key (\<lambda>k. case blocks W k of Some b \<Rightarrow> b_bytes b | None \<Rightarrow> 0) (iter (blocks W)) of
        None \<Rightarrow> (Inr (), W, s)
      | Some key \<Rightarrow>
          (case write_block B key W s of
             (Inl e, W', s') \<Rightarrow> (Inl e, W', s')
           | (Inr _, W', s') \<Rightarrow> evict_loop n B iter W' s'))"

definition evict_over_budget ::
  "'s backend_ops \<Rightarrow> iteration \<Rightarrow> write_buffer \<Rightarrow> 's \<Rightarrow> unit result \<times> write_buffer \<times> 's" where
  "evict_over_budget B iter W s = evict_loop (length (iter (blocks W)) + 1) B iter W s"

definition set_max_bytes ::
  "'s backend_ops \<Rightarrow> iteration \<Rightarrow> nat \<Rightarrow> write_buffer \<Rightarrow> 's \<Rightarrow> unit result \<times> write_buffer \<times> 's" where
  "set_max_bytes B iter n W s = evict_over_budget B iter (W\<lparr>max_bytes := n\<rparr>) s"

definition swap_remove :: "nat \<Rightarrow> 'a list \<Rightarrow> 'a list" where
  "swap_remove i xs = butlast (xs[i := last xs])"

definition wb_remove :: "hash \<Rightarrow> write_buffer \<Rightarrow> bool \<times> write_buffer" where
  "wb_remove h W =
     (case by_hash W h of
        None \<Rightarrow> (False, W)
      | Some (key, idx) \<Rightarrow>
          let W1 = W\<lparr>by_hash := (by_hash W)(h := None)\<rparr>
          in case blocks W key of
               None \<Rightarrow> (True, W1)
             | Some b \<Rightarrow>
                 let dropped = length (bytes (b_arrays b ! idx));
                     b' = b\<lparr>b_hashes := swap_remove idx (b_hashes b), b_arrays := swap_remove idx (b_arrays b),
                            b_bytes := b_bytes b - dropped\<rparr>;
                     m = (case get_at (b_hashes b') idx of
                            Some moved \<Rightarrow> (by_hash W1)(moved \<mapsto> (key, idx)) | None \<Rightarrow> by_hash W1)
                 in (True,
                     W1\<lparr>by_hash := m, wb_bytes := wb_bytes W1 - dropped,
                        blocks := (blocks W1)(key := if b_hashes b' = [] then None else Some b')\<rparr>))"

definition wb_accept :: "hash \<Rightarrow> typed_array \<Rightarrow> pack_group \<Rightarrow> write_buffer \<Rightarrow> write_buffer" where
  "wb_accept h a g W =
     (let key = pool_key a g;
          b = (case blocks W key of Some b \<Rightarrow> b | None \<Rightarrow> empty_block);
          b' = b\<lparr>b_hashes := b_hashes b @ [h], b_arrays := b_arrays b @ [a], b_bytes := b_bytes b + length (bytes a)\<rparr>
      in W\<lparr>blocks := (blocks W)(key \<mapsto> b'), wb_bytes := wb_bytes W + length (bytes a),
           by_hash := (by_hash W)(h \<mapsto> (key, length (b_hashes b)))\<rparr>)"

definition wb_push ::
  "'s backend_ops \<Rightarrow> iteration \<Rightarrow> hash \<Rightarrow> typed_array \<Rightarrow> pack_group \<Rightarrow> write_buffer \<Rightarrow> 's \<Rightarrow>
   unit result \<times> write_buffer \<times> 's" where
  "wb_push B iter h a g W s =
     (let key = pool_key a g;
          cap = width_cap W (arr_dtype a) (element_shape a) (ta_length a);
          W1 = wb_accept h a g W;
          full = (cap \<le> length (b_hashes (the (blocks W1 key))));
          (r, W2, s2) =
            (case if full then write_block B key W1 s else (Inr (), W1, s) of
               (Inl e, W', s') \<Rightarrow> (Inl e, W', s')
             | (Inr _, W', s') \<Rightarrow> evict_over_budget B iter W' s')
      in case r of
           Inr _ \<Rightarrow> (Inr (), W2, s2)
         | Inl e \<Rightarrow>
             (case wb_remove h W2 of
                (True, W3) \<Rightarrow> (Inl e, W3, s2)
              | (False, W3) \<Rightarrow> (Inl e, W3, snd (b_remove B s2 h))))"

section \<open>The scan for new arrays\<close>

lemma scan_new_extends: "scan_new contains seen new xs = Inr r \<Longrightarrow> \<exists>e. r = new @ e"
proof (induction xs arbitrary: seen new)
  case (Cons x xs)
  obtain j k where x: "x = (j, k)" by (cases x)
  show ?case
    using Cons.prems Cons.IH [of "insert k seen" "new @ [j]"] Cons.IH [of seen new] Cons.IH [of "insert k seen" new]
    by (auto simp: x result_elims split: if_splits)
qed simp

lemma scan_new_none:
  assumes "scan_new contains seen new xs = Inr new"
    and "\<And>h c. contains h = Inr c \<Longrightarrow> c \<longleftrightarrow> m h \<noteq> None"
  shows "\<forall>(i, h) \<in> set xs. h \<in> seen \<or> m h \<noteq> None"
  using assms(1)
proof (induction xs arbitrary: seen)
  case (Cons x xs)
  obtain j k where x: "x = (j, k)" by (cases x)
  have "\<not> (k \<notin> seen \<and> contains k = Inr False)"
    using Cons.prems by (auto simp: x split: if_splits dest!: scan_new_extends)
  then have no: "k \<in> seen \<or> contains k \<noteq> Inr False" by blast
  define seen' where "seen' = (if k \<in> seen then seen else insert k seen)"
  have "scan_new contains seen' new xs = Inr new" and old: "k \<in> seen \<or> m k \<noteq> None"
    using Cons.prems no assms(2) [of k True] by (auto simp: x seen'_def result_elims split: if_splits)
  then have "\<forall>(i, h) \<in> set xs. h \<in> seen' \<or> m h \<noteq> None" using Cons.IH by blast
  moreover have "l \<in> seen \<or> m l \<noteq> None" if "l \<in> seen'" for l
    using that old by (auto simp: seen'_def split: if_splits)
  ultimately show ?case using old by (auto simp: x)
qed simp

lemma scan_new_one:
  assumes "scan_new contains seen [] xs = Inr [i]"
    and "\<And>h c. contains h = Inr c \<Longrightarrow> c \<longleftrightarrow> m h \<noteq> None"
  shows "\<exists>ys h zs. xs = ys @ (i, h) # zs \<and> m h = None \<and> h \<notin> seen \<and>
    (\<forall>(j, k) \<in> set ys. k \<in> seen \<or> m k \<noteq> None) \<and> (\<forall>(j, k) \<in> set zs. k \<in> seen \<or> k = h \<or> m k \<noteq> None)"
  using assms(1)
proof (induction xs arbitrary: seen)
  case (Cons x rest)
  obtain j k where x: "x = (j, k)" by (cases x)
  show ?case
  proof (cases "k \<notin> seen \<and> contains k = Inr False")
    case True
    then have "scan_new contains (insert k seen) [j] rest = Inr [i]" using Cons.prems by (simp add: x)
    moreover from this have "j = i" by (auto dest: scan_new_extends)
    ultimately have "\<forall>(j, l) \<in> set rest. l \<in> insert k seen \<or> m l \<noteq> None"
      using scan_new_none [of contains "insert k seen" "[i]" rest m] assms(2) by simp
    then show ?thesis
      using True assms(2) [of k False] \<open>j = i\<close> by (intro exI [of _ "[] :: (nat \<times> hash) list"] exI [of _ k] exI [of _ rest]) (auto simp: x)
  next
    case False
    define seen' where "seen' = (if k \<in> seen then seen else insert k seen)"
    have "scan_new contains seen' [] rest = Inr [i]" and old: "k \<in> seen \<or> m k \<noteq> None"
      using Cons.prems False assms(2) [of k True] by (auto simp: x seen'_def result_elims split: if_splits)
    then obtain ys h zs where split: "rest = ys @ (i, h) # zs" "m h = None" "h \<notin> seen'"
      "\<forall>(j, k) \<in> set ys. k \<in> seen' \<or> m k \<noteq> None" "\<forall>(j, k) \<in> set zs. k \<in> seen' \<or> k = h \<or> m k \<noteq> None"
      using Cons.IH by blast
    have sub: "l \<in> seen \<or> m l \<noteq> None" if "l \<in> seen'" for l
      using that old by (auto simp: seen'_def split: if_splits)
    show ?thesis
    proof (intro exI conjI)
      show "x # rest = ((j, k) # ys) @ (i, h) # zs" using split x by simp
      show "h \<notin> seen" using split(3) by (simp add: seen'_def split: if_splits)
      show "\<forall>(j, k) \<in> set ((j, k) # ys). k \<in> seen \<or> m k \<noteq> None" using split(4) sub old by auto
      show "\<forall>(j, k) \<in> set zs. k \<in> seen \<or> k = h \<or> m k \<noteq> None" using split(5) sub by auto
    qed (rule split(2))
  qed
qed simp

lemma add_new_held: "\<forall>(h, a) \<in> set block. m h \<noteq> None \<Longrightarrow> add_new m block = m"
  by (induction m block rule: add_new.induct) auto

lemma add_new_single:
  assumes "map_of block h = Some a" "m h = None" "\<forall>(k, b) \<in> set block. k = h \<or> m k \<noteq> None"
  shows "add_new m block = m(h \<mapsto> a)"
proof
  fix k
  have "m k = None \<Longrightarrow> k \<noteq> h \<Longrightarrow> map_of block k = None" using assms(3) by (auto simp: map_of_eq_None_iff)
  then show "add_new m block k = (m(h \<mapsto> a)) k" using assms by (auto simp: add_new_lookup split: option.splits)
qed

lemma enumerate_split:
  assumes "enumerate 0 (map fst block) = ys @ (i, h) # zs"
  shows "i = length ys" "i < length block" "fst (block ! i) = h"
    "\<forall>j < i. (j, fst (block ! j)) \<in> set ys" "\<forall>j. i < j \<longrightarrow> j < length block \<longrightarrow> (j, fst (block ! j)) \<in> set zs"
proof -
  have len: "length ys + 1 + length zs = length block" using arg_cong [OF assms, of length] by simp
  have nth: "(ys @ (i, h) # zs) ! j = (j, fst (block ! j))" if "j < length block" for j
    using that by (simp add: assms [symmetric] nth_enumerate_eq)
  show i: "i = length ys" "fst (block ! i) = h" "i < length block" using nth [of "length ys"] len by auto
  show "\<forall>j < i. (j, fst (block ! j)) \<in> set ys"
    using nth i len by (metis (no_types, lifting) nth_append nth_mem order.strict_trans)
  show "\<forall>j. i < j \<longrightarrow> j < length block \<longrightarrow> (j, fst (block ! j)) \<in> set zs"
  proof (intro allI impI)
    fix j assume j: "i < j" "j < length block"
    then have "zs ! (j - i - 1) = (j, fst (block ! j))" "j - i - 1 < length zs"
      using nth [of j] i len by (auto simp: nth_append nth_Cons' split: if_splits)
    then show "(j, fst (block ! j)) \<in> set zs" by (metis nth_mem)
  qed
qed

lemma map_of_first:
  assumes "i < length block" "\<forall>j < i. fst (block ! j) \<noteq> fst (block ! i)"
  shows "map_of block (fst (block ! i)) = Some (snd (block ! i))"
  using assms
proof (induction block arbitrary: i)
  case (Cons x block)
  show ?case
  proof (cases i)
    case (Suc n)
    moreover have "fst x \<noteq> fst (block ! n)" using Cons.prems(2) Suc by force
    moreover have "\<forall>j < n. fst (block ! j) \<noteq> fst (block ! n)" using Cons.prems(2) Suc by force
    ultimately show ?thesis using Cons by (cases x) simp
  qed (cases x, simp)
qed simp

section \<open>The contract of the backend\<close>

text \<open>
  What the buffer relies on: a call that reports an error has stored nothing, and removing drops one
  hash.
\<close>

locale block_store =
  fixes B :: "'s backend_ops" and stored :: "'s \<Rightarrow> hash \<rightharpoonup> typed_array"
  assumes contains_stored: "b_contains B s h = Inr c \<Longrightarrow> c \<longleftrightarrow> stored s h \<noteq> None"
    and put_ok: "b_put B s h a g l = (Inr new, s') \<Longrightarrow> stored s' = add_new (stored s) [(h, a)]"
    and put_error: "b_put B s h a g l = (Inl e, s') \<Longrightarrow> stored s' = stored s"
    and block_ok: "b_put_block B s block g = (Inr flags, s') \<Longrightarrow> stored s' = add_new (stored s) block"
    and block_error: "b_put_block B s block g = (Inl e, s') \<Longrightarrow> stored s' = stored s"
    and remove_stored: "stored (snd (b_remove B s h)) = (stored s)(h := None)"
begin

lemma put_block_ok:
  assumes "put_block B s block g = (Inr flags, s')"
  shows "stored s' = add_new (stored s) block"
proof -
  obtain new where scan: "scan_new (b_contains B s) {} [] (enumerate 0 (map fst block)) = Inr new"
    using assms by (cases "scan_new (b_contains B s) {} [] (enumerate 0 (map fst block))") (auto simp: put_block_def)
  consider "new = []" | i where "new = [i]" | "\<exists>i j r. new = i # j # r"
    by (metis list.exhaust)
  then show ?thesis
  proof cases
    case 1
    have "\<forall>(i, h) \<in> set (enumerate 0 (map fst block)). h \<in> {} \<or> stored s h \<noteq> None"
      by (rule scan_new_none [OF scan [unfolded 1] contains_stored])
    then have "\<forall>h \<in> set (map snd (enumerate 0 (map fst block))). stored s h \<noteq> None"
      unfolding set_map by fastforce
    then have "\<forall>(h, a) \<in> set block. stored s h \<noteq> None" by (simp only: map_snd_enumerate) auto
    then show ?thesis using assms scan by (simp add: put_block_def 1 add_new_held)
  next
    case 2
    have "\<exists>ys h zs. enumerate 0 (map fst block) = ys @ (i, h) # zs \<and> stored s h = None \<and> h \<notin> {} \<and>
        (\<forall>(j, k) \<in> set ys. k \<in> {} \<or> stored s k \<noteq> None) \<and> (\<forall>(j, k) \<in> set zs. k \<in> {} \<or> k = h \<or> stored s k \<noteq> None)"
      by (rule scan_new_one [where m = "stored s", OF scan [unfolded 2]]) (rule contains_stored)
    then obtain ys h zs where split: "enumerate 0 (map fst block) = ys @ (i, h) # zs" "stored s h = None"
      and only: "\<forall>(j, k) \<in> set ys. k \<in> {} \<or> stored s k \<noteq> None"
        "\<forall>(j, k) \<in> set zs. k \<in> {} \<or> k = h \<or> stored s k \<noteq> None"
      by (elim exE conjE) (rule that)
    have ys: "stored s k \<noteq> None" if "(j, k) \<in> set ys" for j k using only(1) that by auto
    have zs: "k = h \<or> stored s k \<noteq> None" if "(j, k) \<in> set zs" for j k using only(2) that by auto
    note pos = enumerate_split [OF split(1)]
    have old: "stored s (fst (block ! j)) \<noteq> None" if "j < i" for j using pos(4) ys that by blast
    have later: "fst (block ! j) = h \<or> stored s (fst (block ! j)) \<noteq> None" if "j < length block" for j
    proof (cases j i rule: linorder_cases)
      case greater
      then show ?thesis using pos(5) zs that by blast
    qed (use old pos(3) in auto)
    have "map_of block (fst (block ! i)) = Some (snd (block ! i))"
      by (rule map_of_first [OF pos(2)]) (use old pos(3) split(2) in force)
    then have "map_of block h = Some (snd (block ! i))" by (simp only: pos(3))
    moreover have "\<forall>(k, b) \<in> set block. k = h \<or> stored s k \<noteq> None" using later by (fastforce simp: in_set_conv_nth)
    ultimately have "add_new (stored s) block = (stored s)(h \<mapsto> snd (block ! i))" using split(2) by (intro add_new_single)
    moreover have "stored s' = add_new (stored s) [(h, snd (block ! i))]"
    proof -
      obtain a where bi: "block ! i = (h, a)" using pos(3) by (cases "block ! i") simp
      define l where "l = (if is_irregular_group g \<and>
        \<not> b_has_pack_group B s (arr_dtype a) (element_shape a) (ta_length a) g then Standalone else Packed)"
      have "put_block B s block g = (case b_put B s h a g l of
            (Inl e, s') \<Rightarrow> (Inl e, s') | (Inr w, s') \<Rightarrow> (Inr ((replicate (length block) False)[i := w]), s'))"
        by (simp add: put_block_def scan 2 Let_def l_def bi)
      then obtain w where "b_put B s h a g l = (Inr w, s')"
        using assms by (cases "b_put B s h a g l") (simp split: sum.splits)
      from put_ok [OF this] show ?thesis by (simp add: bi)
    qed
    ultimately show ?thesis using split(2) by simp
  next
    case 3
    then obtain i j r where new: "new = i # j # r" by blast
    have "put_block B s block g = b_put_block B s block g" by (simp add: put_block_def scan new)
    then have "b_put_block B s block g = (Inr flags, s')" using assms by simp
    then show ?thesis by (rule block_ok)
  qed
qed

lemma put_block_error:
  assumes "put_block B s block g = (Inl e, s')"
  shows "stored s' = stored s"
  using assms put_error block_error
  by (auto simp: put_block_def Let_def split: sum.splits list.splits prod.splits)

end

end
