(* ===== verification/WriteBufferInv.thy ===== *)
theory WriteBufferInv
  imports WriteBuffer
begin

text \<open>
  The invariant of the write buffer of \<open>write_buffer.rs\<close> and what each of its operations does to it
  and to the buffered arrays, whatever the backend answers.
\<close>

section \<open>The invariant of the buffer\<close>

text \<open>
  A block is never empty, its three columns agree, and every array of it belongs to its pool; the
  index by hash is exactly the positions; the byte count is exact.
\<close>

definition arrays_bytes :: "typed_array list \<Rightarrow> nat" where
  "arrays_bytes as = sum_list (map (\<lambda>a. length (bytes a)) as)"

definition wf_block :: "pool_key \<Rightarrow> block \<Rightarrow> bool" where
  "wf_block key b \<longleftrightarrow> b_hashes b \<noteq> [] \<and> length (b_arrays b) = length (b_hashes b) \<and>
     b_bytes b = arrays_bytes (b_arrays b) \<and> list_all (\<lambda>a. pool_key a (key_group key) = key) (b_arrays b)"

definition positions :: "(pool_key \<rightharpoonup> block) \<Rightarrow> hash \<Rightarrow> pool_key \<times> nat \<Rightarrow> bool" where
  "positions m h ki \<longleftrightarrow> (case m (fst ki) of None \<Rightarrow> False | Some b \<Rightarrow> get_at (b_hashes b) (snd ki) = Some h)"

definition wb_inv :: "write_buffer \<Rightarrow> bool" where
  "wb_inv W \<longleftrightarrow> finite (dom (blocks W)) \<and> (\<forall>key b. blocks W key = Some b \<longrightarrow> wf_block key b) \<and>
     (\<forall>h ki. by_hash W h = Some ki \<longleftrightarrow> positions (blocks W) h ki) \<and>
     wb_bytes W = (\<Sum>key\<in>dom (blocks W). b_bytes (the (blocks W key)))"


lemma wb_invD:
  assumes "wb_inv W"
  shows "finite (dom (blocks W))" and "blocks W key = Some b \<Longrightarrow> wf_block key b"
    and "by_hash W h = Some ki \<longleftrightarrow> positions (blocks W) h ki"
    and "wb_bytes W = (\<Sum>key\<in>dom (blocks W). b_bytes (the (blocks W key)))"
  using assms unfolding wb_inv_def by blast+

lemma sum_dom_upd:
  fixes f :: "'b \<Rightarrow> nat"
  assumes "finite (dom m)"
  shows "(\<Sum>k\<in>dom (m(key := x)). f (the ((m(key := x)) k))) + (case m key of None \<Rightarrow> 0 | Some b \<Rightarrow> f b) =
    (\<Sum>k\<in>dom m. f (the (m k))) + (case x of None \<Rightarrow> 0 | Some b \<Rightarrow> f b)"
proof -
  have same: "(\<Sum>k\<in>dom m - {key}. f (the ((m(key := x)) k))) = (\<Sum>k\<in>dom m - {key}. f (the (m k)))"
    by (rule sum.cong) auto
  have "dom (m(key := x)) = (if x = None then dom m - {key} else insert key (dom m - {key}))" by auto
  moreover have "(\<Sum>k\<in>dom m. f (the (m k))) =
      (\<Sum>k\<in>dom m - {key}. f (the (m k))) + (case m key of None \<Rightarrow> 0 | Some b \<Rightarrow> f b)"
  proof (cases "m key")
    case None
    then have "dom m - {key} = dom m" by auto
    then show ?thesis using None by simp
  next
    case (Some b)
    then show ?thesis using assms sum.remove [of "dom m" key "\<lambda>k. f (the (m k))"] by (simp add: domI)
  qed
  moreover have "(\<Sum>k\<in>insert key (dom m - {key}). f (the ((m(key := x)) k))) =
      f (the x) + (\<Sum>k\<in>dom m - {key}. f (the ((m(key := x)) k)))"
    using assms by (subst sum.insert) auto
  ultimately show ?thesis using same by (cases x) simp_all
qed

definition opt_hashes :: "block option \<Rightarrow> hash list" where
  "opt_hashes ob = (case ob of None \<Rightarrow> [] | Some b \<Rightarrow> b_hashes b)"

definition opt_bytes :: "block option \<Rightarrow> nat" where
  "opt_bytes ob = (case ob of None \<Rightarrow> 0 | Some b \<Rightarrow> b_bytes b)"

text \<open>Replacing the block of one pool: the index changes for that pool's hashes only.\<close>

lemma wb_inv_update:
  assumes inv: "wb_inv W" and blocks: "blocks W' = (blocks W)(key := ob)"
    and wf: "\<And>b. ob = Some b \<Longrightarrow> wf_block key b"
    and here: "\<And>i. i < length (opt_hashes ob) \<Longrightarrow> by_hash W' (opt_hashes ob ! i) = Some (key, i)"
    and gone: "\<And>h. h \<notin> set (opt_hashes ob) \<Longrightarrow>
      by_hash W' h = (case by_hash W h of Some (k, i) \<Rightarrow> if k = key then None else Some (k, i) | None \<Rightarrow> None)"
    and fresh: "\<And>h k i. h \<in> set (opt_hashes ob) \<Longrightarrow> by_hash W h = Some (k, i) \<Longrightarrow> k = key"
    and bytes: "wb_bytes W' + opt_bytes (blocks W key) = wb_bytes W + opt_bytes ob"
  shows "wb_inv W'"
proof -
  have fin: "finite (dom (blocks W))" and wfs: "\<And>k b. blocks W k = Some b \<Longrightarrow> wf_block k b"
    and pos: "\<And>h ki. by_hash W h = Some ki \<longleftrightarrow> positions (blocks W) h ki"
    and total: "wb_bytes W = (\<Sum>k\<in>dom (blocks W). b_bytes (the (blocks W k)))"
    using wb_invD [OF inv] by simp_all
  have "by_hash W' h = Some (k, i) \<longleftrightarrow> positions (blocks W') h (k, i)" for h k i
  proof (cases "k = key")
    case True
    have "positions (blocks W') h (key, i) \<longleftrightarrow> i < length (opt_hashes ob) \<and> opt_hashes ob ! i = h"
      by (auto simp: positions_def blocks opt_hashes_def get_at_Some split: option.splits)
    also have "\<dots> \<longleftrightarrow> by_hash W' h = Some (key, i)"
    proof
      assume new: "by_hash W' h = Some (key, i)"
      have "h \<in> set (opt_hashes ob)"
      proof (rule ccontr)
        assume "h \<notin> set (opt_hashes ob)"
        from gone [OF this] new show False by (auto split: option.splits if_splits)
      qed
      then obtain j where "j < length (opt_hashes ob)" "opt_hashes ob ! j = h" by (auto simp: in_set_conv_nth)
      then show "i < length (opt_hashes ob) \<and> opt_hashes ob ! i = h" using here [of j] new by simp
    qed (use here in blast)
    finally show ?thesis using True by simp
  next
    case False
    then have "positions (blocks W') h (k, i) \<longleftrightarrow> by_hash W h = Some (k, i)"
      by (simp add: pos positions_def blocks)
    also have "\<dots> \<longleftrightarrow> by_hash W' h = Some (k, i)"
    proof (cases "h \<in> set (opt_hashes ob)")
      case True
      then obtain j where "j < length (opt_hashes ob)" "opt_hashes ob ! j = h" by (auto simp: in_set_conv_nth)
      then have "by_hash W' h = Some (key, j)" using here by blast
      moreover have "by_hash W h \<noteq> Some (k, i)" using fresh [OF True] False by blast
      ultimately show ?thesis using False by simp
    next
      case h: False
      show ?thesis using gone [OF h] False by (auto split: option.splits if_splits)
    qed
    finally show ?thesis by simp
  qed
  moreover have "wb_bytes W' = (\<Sum>k\<in>dom (blocks W'). b_bytes (the (blocks W' k)))"
    using sum_dom_upd [OF fin, of b_bytes key ob] bytes total by (simp add: blocks opt_bytes_def)
  moreover have "finite (dom (blocks W'))" using fin by (simp add: blocks)
  moreover have "wf_block k b" if "blocks W' k = Some b" for k b
    using that wfs wf by (cases "k = key") (simp_all add: blocks)
  ultimately show ?thesis unfolding wb_inv_def by (metis surj_pair)
qed

text \<open>What is buffered under a hash, read from the block of its pool.\<close>

definition block_map :: "block option \<Rightarrow> hash \<rightharpoonup> typed_array" where
  "block_map ob = (case ob of None \<Rightarrow> Map.empty | Some b \<Rightarrow> map_of (zip (b_hashes b) (b_arrays b)))"

definition in_pool :: "write_buffer \<Rightarrow> pool_key \<Rightarrow> hash \<Rightarrow> bool" where
  "in_pool W key h \<longleftrightarrow> h \<in> set (opt_hashes (blocks W key))"

lemma in_pool_iff:
  assumes "wb_inv W" shows "in_pool W key h \<longleftrightarrow> (\<exists>i. by_hash W h = Some (key, i))"
  unfolding wb_invD(3) [OF assms]
  by (cases "blocks W key") (auto simp: in_pool_def positions_def opt_hashes_def get_at_Some in_set_conv_nth)

definition block_pairs :: "block option \<Rightarrow> (hash \<times> typed_array) list" where
  "block_pairs ob = (case ob of None \<Rightarrow> [] | Some b \<Rightarrow> zip (b_hashes b) (b_arrays b))"

lemma block_pairs_simps [simp]:
  "block_pairs None = []" "block_pairs (Some b) = zip (b_hashes b) (b_arrays b)"
  "opt_hashes None = []" "opt_hashes (Some b) = b_hashes b"
  "opt_bytes None = 0" "opt_bytes (Some b) = b_bytes b"
  by (simp_all add: block_pairs_def opt_hashes_def opt_bytes_def)

lemma wb_inv_hashes:
  assumes "wb_inv W"
  shows "map fst (block_pairs (blocks W key)) = opt_hashes (blocks W key)"
    and "distinct (opt_hashes (blocks W key))"
    and "i < length (opt_hashes (blocks W key)) \<Longrightarrow> by_hash W (opt_hashes (blocks W key) ! i) = Some (key, i)"
proof -
  show "map fst (block_pairs (blocks W key)) = opt_hashes (blocks W key)"
    using wb_invD(2) [OF assms, of key] by (cases "blocks W key") (auto simp: wf_block_def)
  have pos: "by_hash W (opt_hashes (blocks W key) ! i) = Some (key, i)" if "i < length (opt_hashes (blocks W key))" for i
    using that wb_invD(3) [OF assms, of "opt_hashes (blocks W key) ! i" "(key, i)"]
    by (cases "blocks W key") (auto simp: positions_def get_at_Some)
  then show "i < length (opt_hashes (blocks W key)) \<Longrightarrow> by_hash W (opt_hashes (blocks W key) ! i) = Some (key, i)" .
  show "distinct (opt_hashes (blocks W key))"
    unfolding distinct_conv_nth using pos by (metis option.inject prod.inject)
qed

lemma wb_get_pairs:
  assumes "wb_inv W"
  shows "wb_get W h = Some a \<longleftrightarrow> (\<exists>key. (h, a) \<in> set (block_pairs (blocks W key)))"
proof
  assume "wb_get W h = Some a"
  then obtain key i b where b: "by_hash W h = Some (key, i)" "blocks W key = Some b" "get_at (b_arrays b) i = Some a"
    by (auto simp: wb_get_def split: option.splits)
  then have "get_at (b_hashes b) i = Some h" using wb_invD(3) [OF assms, of h "(key, i)"] by (simp add: positions_def)
  with b show "\<exists>key. (h, a) \<in> set (block_pairs (blocks W key))"
    by (intro exI [of _ key]) (auto simp: get_at_Some in_set_zip)
next
  assume "\<exists>key. (h, a) \<in> set (block_pairs (blocks W key))"
  then obtain key where "(h, a) \<in> set (block_pairs (blocks W key))" by blast
  then obtain b i where "blocks W key = Some b" "i < length (b_hashes b)" "b_hashes b ! i = h"
      "i < length (b_arrays b)" "b_arrays b ! i = a"
    by (cases "blocks W key") (auto simp: in_set_zip)
  with wb_inv_hashes(3) [OF assms, of i key] show "wb_get W h = Some a"
    by (auto simp: wb_get_def get_at_Some)
qed

lemma wb_get_pool:
  assumes "wb_inv W" "in_pool W key h"
  shows "wb_get W h = map_of (block_pairs (blocks W key)) h"
proof -
  note keys = wb_inv_hashes(1,2) [OF assms(1)]
  have "h \<in> fst ` set (block_pairs (blocks W key))"
    using assms(2) unfolding in_pool_def keys(1) [symmetric] set_map .
  then obtain a where "(h, a) \<in> set (block_pairs (blocks W key))" by fastforce
  moreover from this have "wb_get W h = Some a" using wb_get_pairs [OF assms(1)] by blast
  ultimately show ?thesis using keys by (simp add: map_of_eq_Some_iff)
qed

lemma wb_get_update:
  assumes "wb_inv W" "wb_inv W'" "blocks W' = (blocks W)(key := ob)"
  shows "wb_get W' h = (case map_of (block_pairs ob) h of
    Some a \<Rightarrow> Some a | None \<Rightarrow> if in_pool W key h then None else wb_get W h)"
proof (cases "map_of (block_pairs ob) h")
  case (Some a)
  then have "(h, a) \<in> set (block_pairs (blocks W' key))" by (simp add: assms(3) map_of_SomeD)
  then have "wb_get W' h = Some a" using wb_get_pairs [OF assms(2)] by blast
  then show ?thesis using Some by simp
next
  case None
  then have none: "(h, a) \<notin> set (block_pairs (blocks W' key))" for a
    by (auto simp: assms(3) map_of_eq_None_iff rev_image_eqI)
  have other: "blocks W' k = blocks W k" if "k \<noteq> key" for k using that by (simp add: assms(3))
  have "wb_get W' h = Some a \<longleftrightarrow> (if in_pool W key h then None else wb_get W h) = Some a" for a
  proof (cases "in_pool W key h")
    case True
    then obtain i where "by_hash W h = Some (key, i)" using in_pool_iff [OF assms(1)] by blast
    then have "\<not> in_pool W k h" if "k \<noteq> key" for k using in_pool_iff [OF assms(1), of k h] that by auto
    then have "(h, a) \<notin> set (block_pairs (blocks W k))" if "k \<noteq> key" for k
      using that wb_inv_hashes(1) [OF assms(1), of k] unfolding in_pool_def
      by (metis (no_types, lifting) fst_conv image_eqI set_map)
    then show ?thesis using True none other wb_get_pairs [OF assms(2)] by (metis option.distinct(1))
  next
    case False
    then have "(h, a) \<notin> set (block_pairs (blocks W key))"
      using wb_inv_hashes(1) [OF assms(1), of key] unfolding in_pool_def
      by (metis (no_types, lifting) fst_conv image_eqI set_map)
    then show ?thesis using False none other wb_get_pairs [OF assms(1)] wb_get_pairs [OF assms(2)] by metis
  qed
  then have "wb_get W' h = (if in_pool W key h then None else wb_get W h)"
    by (metis (no_types, lifting) not_Some_eq)
  then show ?thesis using None by simp
qed

section \<open>Accepting and removing\<close>

lemma wb_bytes_ge: "wb_inv W \<Longrightarrow> opt_bytes (blocks W key) \<le> wb_bytes W"
  using sum_dom_upd [of "blocks W" b_bytes key None] wb_invD(1,4) [of W] by (simp add: opt_bytes_def)

lemma wb_accept_inv:
  assumes inv: "wb_inv W" and fresh: "by_hash W h = None"
  shows "wb_inv (wb_accept h a g W)" and "wb_get (wb_accept h a g W) = (wb_get W)(h \<mapsto> a)"
proof -
  define key where "key = pool_key a g"
  define b where "b = (case blocks W key of Some b \<Rightarrow> b | None \<Rightarrow> empty_block)"
  define b' where "b' = b\<lparr>b_hashes := b_hashes b @ [h], b_arrays := b_arrays b @ [a], b_bytes := b_bytes b + length (bytes a)\<rparr>"
  have old: "b_hashes b = opt_hashes (blocks W key)" "b_bytes b = opt_bytes (blocks W key)"
    "zip (b_hashes b) (b_arrays b) = block_pairs (blocks W key)"
    by (cases "blocks W key"; simp add: b_def empty_block_def)+
  have wf: "length (b_arrays b) = length (b_hashes b)" "b_bytes b = arrays_bytes (b_arrays b)"
    "list_all (\<lambda>a. pool_key a (key_group key) = key) (b_arrays b)"
    using wb_invD(2) [OF inv, of key]
    by (cases "blocks W key"; simp add: b_def empty_block_def wf_block_def arrays_bytes_def)+
  have key: "pool_key a (key_group key) = key" by (simp add: key_def key_group_def pool_key_def)
  have W': "blocks (wb_accept h a g W) = (blocks W)(key := Some b')"
    "by_hash (wb_accept h a g W) = (by_hash W)(h \<mapsto> (key, length (b_hashes b)))"
    "wb_bytes (wb_accept h a g W) = wb_bytes W + length (bytes a)"
    by (simp_all add: wb_accept_def Let_def key_def b_def b'_def)
  have hashes: "opt_hashes (Some b') = opt_hashes (blocks W key) @ [h]" by (simp add: b'_def old)
  have new: "h \<notin> set (opt_hashes (blocks W key))"
    using in_pool_iff [OF inv, of key h] fresh by (simp add: in_pool_def)
  show inv': "wb_inv (wb_accept h a g W)"
  proof (rule wb_inv_update [OF inv W'(1)])
    show "wf_block key b''" if "Some b' = Some b''" for b''
      using that wf key by (auto simp: wf_block_def b'_def arrays_bytes_def)
    show "by_hash (wb_accept h a g W) (opt_hashes (Some b') ! i) = Some (key, i)"
      if "i < length (opt_hashes (Some b'))" for i
      using that wb_inv_hashes(3) [OF inv, of i key] fresh
      by (auto simp: W' hashes nth_append old less_Suc_eq simp del: block_pairs_simps)
    show "by_hash (wb_accept h a g W) k = (case by_hash W k of Some (k, i) \<Rightarrow> if k = key then None else Some (k, i) | None \<Rightarrow> None)"
      if "k \<notin> set (opt_hashes (Some b'))" for k
      using that in_pool_iff [OF inv, of key k]
      by (auto simp: W' hashes in_pool_def simp del: block_pairs_simps split: option.splits)
    show "k = key" if "l \<in> set (opt_hashes (Some b'))" "by_hash W l = Some (k, i)" for l k i
      using that in_pool_iff [OF inv, of key l] fresh by (auto simp: hashes in_pool_def simp del: block_pairs_simps)
    show "wb_bytes (wb_accept h a g W) + opt_bytes (blocks W key) = wb_bytes W + opt_bytes (Some b')"
      by (simp add: W' b'_def old)
  qed
  have pairs: "block_pairs (Some b') = block_pairs (blocks W key) @ [(h, a)]"
    using wf(1) old(3) by (simp add: b'_def)
  show "wb_get (wb_accept h a g W) = (wb_get W)(h \<mapsto> a)"
  proof
    fix k
    show "wb_get (wb_accept h a g W) k = ((wb_get W)(h \<mapsto> a)) k"
    proof (cases "in_pool W key k")
      case True
      then have "k \<noteq> h" using new by (auto simp: in_pool_def)
      moreover obtain c where "map_of (block_pairs (blocks W key)) k = Some c"
        using True unfolding in_pool_def wb_inv_hashes(1) [OF inv, symmetric]
        by (metis (no_types, lifting) map_of_eq_None_iff not_Some_eq set_map)
      ultimately show ?thesis
        unfolding wb_get_update [OF inv inv' W'(1)] pairs
        by (simp add: wb_get_pool [OF inv True])
    next
      case False
      then have "map_of (block_pairs (blocks W key)) k = None"
        unfolding in_pool_def wb_inv_hashes(1) [OF inv, symmetric] by (simp add: map_of_eq_None_iff)
      then show ?thesis
        unfolding wb_get_update [OF inv inv' W'(1)] pairs using False by (simp add: map_add_def)
    qed
  qed
qed

lemma swap_remove_props:
  assumes "i < length xs"
  shows "length (swap_remove i xs) = length xs - 1"
    and "j < length xs - 1 \<Longrightarrow> swap_remove i xs ! j = xs ! (if j = i then length xs - 1 else j)"
proof -
  have "xs \<noteq> []" using assms by auto
  then show "length (swap_remove i xs) = length xs - 1"
    and "j < length xs - 1 \<Longrightarrow> swap_remove i xs ! j = xs ! (if j = i then length xs - 1 else j)"
    by (auto simp: swap_remove_def nth_butlast last_conv_nth)
qed

lemma zip_swap_remove:
  assumes "length xs = length ys" "i < length xs"
  shows "swap_remove i (zip xs ys) = zip (swap_remove i xs) (swap_remove i ys)"
  using assms by (intro nth_equalityI) (auto simp: swap_remove_props)

lemma map_swap_remove: "i < length xs \<Longrightarrow> map f (swap_remove i xs) = swap_remove i (map f xs)"
  by (intro nth_equalityI) (auto simp: swap_remove_props)

lemma set_swap_remove:
  assumes "i < length xs" shows "set (swap_remove i xs) = {xs ! j | j. j < length xs \<and> j \<noteq> i}"
proof (intro set_eqI iffI)
  fix x assume "x \<in> set (swap_remove i xs)"
  then obtain j where "j < length xs - 1" "x = xs ! (if j = i then length xs - 1 else j)"
    using assms by (auto simp: in_set_conv_nth swap_remove_props)
  then show "x \<in> {xs ! j | j. j < length xs \<and> j \<noteq> i}"
    by (intro CollectI exI [of _ "if j = i then length xs - 1 else j"]) auto
next
  fix x assume "x \<in> {xs ! j | j. j < length xs \<and> j \<noteq> i}"
  then obtain j where j: "j < length xs" "j \<noteq> i" "x = xs ! j" by blast
  have "\<exists>k < length xs - 1. swap_remove i xs ! k = x"
  proof (cases "j = length xs - 1")
    case True
    then have "i < length xs - 1" using j assms by simp
    then show ?thesis using j True assms by (intro exI [of _ i]) (simp add: swap_remove_props)
  next
    case False
    then have "j < length xs - 1" using j by simp
    then show ?thesis using j assms by (intro exI [of _ j]) (simp add: swap_remove_props)
  qed
  then show "x \<in> set (swap_remove i xs)" using assms by (auto simp: in_set_conv_nth swap_remove_props)
qed

lemma distinct_swap_remove:
  assumes "distinct xs" "i < length xs" shows "distinct (swap_remove i xs)"
  using assms by (auto simp: distinct_conv_nth swap_remove_props)

lemma map_of_swap_remove:
  assumes "distinct (map fst ps)" "i < length ps"
  shows "map_of (swap_remove i ps) = (map_of ps)(fst (ps ! i) := None)"
proof -
  have "distinct (map fst (swap_remove i ps))"
    using distinct_swap_remove [OF assms(1)] assms(2) by (simp add: map_swap_remove)
  moreover have "(k, v) \<in> set (swap_remove i ps) \<longleftrightarrow> (k, v) \<in> set ps \<and> k \<noteq> fst (ps ! i)" for k v
  proof -
    have "fst (ps ! j) \<noteq> fst (ps ! i)" if "j < length ps" "j \<noteq> i" for j
      using that assms by (auto simp: distinct_conv_nth)
    then have "(\<exists>j. (k, v) = ps ! j \<and> j < length ps \<and> j \<noteq> i) \<longleftrightarrow> (\<exists>j < length ps. ps ! j = (k, v)) \<and> k \<noteq> fst (ps ! i)"
      by (metis fst_conv)
    then show ?thesis by (simp add: set_swap_remove [OF assms(2)] in_set_conv_nth)
  qed
  ultimately have "map_of (swap_remove i ps) k = Some v \<longleftrightarrow> ((map_of ps)(fst (ps ! i) := None)) k = Some v" for k v
    using assms(1) by (simp add: map_of_eq_Some_iff)
  then show ?thesis by (intro ext) (metis not_Some_eq)
qed

lemma sum_list_swap_remove:
  fixes xs :: "nat list"
  assumes "i < length xs"
  shows "sum_list (swap_remove i xs) + xs ! i = sum_list xs"
proof -
  define ys where "ys = xs[i := last xs]"
  have "xs \<noteq> []" using assms by auto
  then have ys: "ys \<noteq> []" "last ys = last xs" by (simp_all add: ys_def last_list_update)
  then have "sum_list ys = sum_list (butlast ys) + last ys"
    by (metis append_butlast_last_id sum_list.Cons sum_list.Nil sum_list_append add_0_right)
  moreover have "sum_list ys = sum_list xs + last xs - xs ! i"
    using assms by (simp add: ys_def sum_list_update)
  ultimately show ?thesis
    using elem_le_sum_list [OF assms] ys(2) by (simp add: swap_remove_def ys_def [symmetric])
qed

lemma arrays_bytes_swap_remove:
  assumes "i < length as"
  shows "arrays_bytes as = arrays_bytes (swap_remove i as) + length (bytes (as ! i))"
  using sum_list_swap_remove [of i "map (\<lambda>a. length (bytes a)) as"] assms
  by (simp add: arrays_bytes_def map_swap_remove)

lemma wb_remove_inv:
  assumes inv: "wb_inv W"
  shows "wb_inv (snd (wb_remove h W))" and "wb_get (snd (wb_remove h W)) = (wb_get W)(h := None)"
    and "fst (wb_remove h W) \<longleftrightarrow> by_hash W h \<noteq> None"
proof -
  show "fst (wb_remove h W) \<longleftrightarrow> by_hash W h \<noteq> None"
    by (simp add: wb_remove_def Let_def split: option.splits)
  have "wb_inv (snd (wb_remove h W)) \<and> wb_get (snd (wb_remove h W)) = (wb_get W)(h := None)"
  proof (cases "by_hash W h")
    case None
    then show ?thesis using inv by (auto simp: wb_remove_def wb_get_def)
  next
    case (Some ki)
    then obtain key i where at: "by_hash W h = Some (key, i)" by (cases ki) simp
    then obtain b where b: "blocks W key = Some b" and i: "i < length (b_hashes b)" and hi: "b_hashes b ! i = h"
      using wb_invD(3) [OF inv, of h "(key, i)"] by (auto simp: positions_def get_at_Some split: option.splits)
    have wf: "wf_block key b" by (rule wb_invD(2) [OF inv b])
    then have len: "length (b_arrays b) = length (b_hashes b)" by (simp add: wf_block_def)
    define dropped where "dropped = length (bytes (b_arrays b ! i))"
    define b' where "b' = b\<lparr>b_hashes := swap_remove i (b_hashes b), b_arrays := swap_remove i (b_arrays b),
        b_bytes := b_bytes b - dropped\<rparr>"
    define ob where "ob = (if b_hashes b' = [] then None else Some b')"
    define W' where "W' = snd (wb_remove h W)"
    have W': "blocks W' = (blocks W)(key := ob)" "wb_bytes W' = wb_bytes W - dropped"
      "by_hash W' = (case get_at (swap_remove i (b_hashes b)) i of
          Some moved \<Rightarrow> ((by_hash W)(h := None))(moved \<mapsto> (key, i)) | None \<Rightarrow> (by_hash W)(h := None))"
      by (simp_all add: W'_def wb_remove_def at b Let_def b'_def ob_def dropped_def split: option.splits)
    have hashes: "opt_hashes ob = swap_remove i (b_hashes b)" by (simp add: ob_def b'_def)
    have pairs: "block_pairs ob = swap_remove i (block_pairs (blocks W key))"
      using i len by (simp add: ob_def b'_def b zip_swap_remove)
    have dist: "distinct (b_hashes b)" and pos: "\<And>j. j < length (b_hashes b) \<Longrightarrow> by_hash W (b_hashes b ! j) = Some (key, j)"
      using wb_inv_hashes(2) [OF inv, of key] wb_inv_hashes(3) [OF inv, of _ key] by (simp_all add: b)
    have set: "set (opt_hashes ob) = set (b_hashes b) - {h}"
      unfolding hashes set_swap_remove [OF i] using dist i hi by (auto simp: in_set_conv_nth distinct_conv_nth)
    have sum: "arrays_bytes (b_arrays b) = arrays_bytes (swap_remove i (b_arrays b)) + dropped"
      using i len by (simp add: arrays_bytes_swap_remove dropped_def)
    have "wb_inv W'"
    proof (rule wb_inv_update [OF inv W'(1)])
      show "wf_block key c" if "ob = Some c" for c
        using that wf len i sum by (auto simp: ob_def b'_def wf_block_def swap_remove_props list_all_iff
            set_swap_remove split: if_splits)
      show "by_hash W' (opt_hashes ob ! j) = Some (key, j)" if "j < length (opt_hashes ob)" for j
      proof (cases "j = i")
        case True
        then show ?thesis using that by (simp add: W' hashes get_at_def)
      next
        case False
        have j: "j < length (b_hashes b) - 1" using that i by (simp add: hashes swap_remove_props)
        then have "b_hashes b ! j \<noteq> h" "b_hashes b ! j \<noteq> b_hashes b ! (length (b_hashes b) - 1)"
          using dist False i hi by (auto simp: distinct_conv_nth)
        then show ?thesis
          using j i False pos [of j] by (auto simp: W' hashes get_at_def swap_remove_props)
      qed
      show "by_hash W' k = (case by_hash W k of Some (k, i) \<Rightarrow> if k = key then None else Some (k, i) | None \<Rightarrow> None)"
        if "k \<notin> set (opt_hashes ob)" for k
      proof -
        have "get_at (swap_remove i (b_hashes b)) i \<noteq> Some k"
          using that by (auto simp: hashes get_at_Some in_set_conv_nth)
        then have "by_hash W' k = ((by_hash W)(h := None)) k" by (auto simp: W' split: option.splits)
        moreover have "k = h \<or> (\<nexists>j. by_hash W k = Some (key, j))"
          using that in_pool_iff [OF inv, of key k] unfolding set in_pool_def b by auto
        ultimately show ?thesis using at by (cases "by_hash W k") auto
      qed
      show "k = key" if "l \<in> set (opt_hashes ob)" "by_hash W l = Some (k, j)" for l k j
        using that in_pool_iff [OF inv, of key l] by (auto simp: set in_pool_def b)
      show "wb_bytes W' + opt_bytes (blocks W key) = wb_bytes W + opt_bytes ob"
      proof -
        have "swap_remove i (b_hashes b) = [] \<Longrightarrow> swap_remove i (b_arrays b) = []"
          using swap_remove_props(1) i len by (metis length_0_conv)
        then have "opt_bytes ob = arrays_bytes (swap_remove i (b_arrays b))"
          using sum wf by (auto simp: ob_def b'_def wf_block_def arrays_bytes_def)
        then show ?thesis using sum wf wb_bytes_ge [OF inv, of key] by (simp add: W' b wf_block_def)
      qed
    qed
    moreover have "wb_get W' = (wb_get W)(h := None)"
    proof
      fix k
      have fst_at: "fst (block_pairs (blocks W key) ! i) = h" using i len hi by (simp add: b)
      have "distinct (map fst (block_pairs (blocks W key)))" using dist len by (simp add: b)
      then have mp: "map_of (block_pairs ob) = (map_of (block_pairs (blocks W key)))(h := None)"
        unfolding pairs using map_of_swap_remove [of "block_pairs (blocks W key)" i] i len fst_at by (simp add: b)
      have "map_of (block_pairs (blocks W key)) k = None" if "\<not> in_pool W key k"
        using that unfolding in_pool_def wb_inv_hashes(1) [OF inv, symmetric] by (simp add: map_of_eq_None_iff)
      then show "wb_get W' k = ((wb_get W)(h := None)) k"
        using wb_get_update [OF inv \<open>wb_inv W'\<close> W'(1), of k] wb_get_pool [OF inv, of key k] at in_pool_iff [OF inv, of key h]
        by (auto simp: mp split: option.splits if_splits)
    qed
    ultimately show ?thesis by (simp add: W'_def)
  qed
  then show "wb_inv (snd (wb_remove h W))" "wb_get (snd (wb_remove h W)) = (wb_get W)(h := None)" by simp_all
qed

section \<open>Writing a block out\<close>

definition kept_pairs :: "hash set \<Rightarrow> (hash \<times> typed_array) list \<Rightarrow> (hash \<times> typed_array) list" where
  "kept_pairs skip pairs = filter (\<lambda>(h, a). h \<in> skip) pairs"

lemma keep_steps:
  assumes "foldl (keep_step key skip) (m0, kept0) pairs = (m, kept)" "distinct (map fst pairs)"
    and "length (b_arrays kept0) = length (b_hashes kept0)"
  shows "b_hashes kept = b_hashes kept0 @ map fst (kept_pairs skip pairs) \<and>
    b_arrays kept = b_arrays kept0 @ map snd (kept_pairs skip pairs) \<and>
    b_bytes kept = b_bytes kept0 + arrays_bytes (map snd (kept_pairs skip pairs)) \<and>
    (\<forall>h. h \<notin> fst ` set pairs \<longrightarrow> m h = m0 h) \<and>
    (\<forall>h. h \<in> fst ` set pairs \<longrightarrow> h \<notin> skip \<longrightarrow> m h = None) \<and>
    (\<forall>i. length (b_hashes kept0) \<le> i \<longrightarrow> i < length (b_hashes kept) \<longrightarrow> m (b_hashes kept ! i) = Some (key, i))"
  using assms
proof (induction pairs arbitrary: m0 kept0)
  case Nil
  then show ?case by (simp add: kept_pairs_def arrays_bytes_def)
next
  case (Cons p pairs)
  obtain k a where p: "p = (k, a)" by (cases p)
  obtain m1 kept1 where one: "keep_step key skip (m0, kept0) (k, a) = (m1, kept1)" by fastforce
  note step = one [unfolded keep_step_def prod.case]
  have len1: "length (b_arrays kept1) = length (b_hashes kept1)" using Cons.prems(3) step by (auto split: if_splits)
  have tail: "foldl (keep_step key skip) (m1, kept1) pairs = (m, kept)" using Cons.prems(1) by (simp add: p one)
  have dist: "distinct (map fst pairs)" and k: "k \<notin> fst ` set pairs" using Cons.prems(2) by (simp_all add: p)
  note IH = Cons.IH [OF tail dist len1]
  have lists: "b_hashes kept = b_hashes kept1 @ map fst (kept_pairs skip pairs)"
    "b_arrays kept = b_arrays kept1 @ map snd (kept_pairs skip pairs)"
    "b_bytes kept = b_bytes kept1 + arrays_bytes (map snd (kept_pairs skip pairs))"
    using IH by blast+
  note maps = IH [THEN conjunct2, THEN conjunct2, THEN conjunct2]
  have same: "m h = m1 h" if "h \<notin> fst ` set pairs" for h
    by (rule maps [THEN conjunct1, rule_format, OF that])
  have gone: "m h = None" if "h \<in> fst ` set pairs" "h \<notin> skip" for h
    by (rule maps [THEN conjunct2, THEN conjunct1, rule_format, OF that])
  have at: "m (b_hashes kept ! i) = Some (key, i)" if "length (b_hashes kept1) \<le> i" "i < length (b_hashes kept)" for i
    by (rule maps [THEN conjunct2, THEN conjunct2, rule_format, OF that])
  have m1: "m1 h = m0 h" if "h \<noteq> k" for h using step that by (auto split: if_splits)
  show ?case
  proof (intro conjI allI impI)
    show "b_hashes kept = b_hashes kept0 @ map fst (kept_pairs skip (p # pairs))"
      "b_arrays kept = b_arrays kept0 @ map snd (kept_pairs skip (p # pairs))"
      "b_bytes kept = b_bytes kept0 + arrays_bytes (map snd (kept_pairs skip (p # pairs)))"
      using step by (auto simp: lists p kept_pairs_def arrays_bytes_def split: if_splits)
    show "m h = m0 h" if "h \<notin> fst ` set (p # pairs)" for h using that same m1 by (simp add: p)
    show "m h = None" if "h \<in> fst ` set (p # pairs)" "h \<notin> skip" for h
    proof (cases "h = k")
      case True
      then show ?thesis using same [OF k] step that(2) by auto
    qed (use gone that p in auto)
    show "m (b_hashes kept ! i) = Some (key, i)" if "length (b_hashes kept0) \<le> i" "i < length (b_hashes kept)" for i
    proof (cases "length (b_hashes kept1) \<le> i")
      case False
      then have "k \<in> skip" "i = length (b_hashes kept0)" "b_hashes kept ! i = k"
        using that step by (auto simp: lists nth_append split: if_splits)
      then show ?thesis using same [OF k] step by auto
    qed (use at that in blast)
  qed
qed

text \<open>The arrays of a pool that a write leaving out \<open>skip\<close> hands to the backend.\<close>

definition live_pairs :: "hash set \<Rightarrow> block option \<Rightarrow> (hash \<times> typed_array) list" where
  "live_pairs skip ob = filter (\<lambda>(h, a). h \<notin> skip) (block_pairs ob)"

lemma write_block_error:
  assumes inv: "wb_inv W" and err: "write_block_except B key skip W s = (Inl e, W', s')"
  shows "W' = W \<and> put_block B s (live_pairs skip (blocks W key)) (key_group key) = (Inl e, s')"
proof -
  obtain b where b: "blocks W key = Some b" using err by (cases "blocks W key") (auto simp: write_block_except_def)
  have "b_bytes b \<le> wb_bytes W" using wb_bytes_ge [OF inv, of key] by (simp add: b)
  moreover have "(blocks W)(key := Some b) = blocks W" using b by auto
  ultimately show ?thesis
    using err by (auto simp: write_block_except_def b Let_def live_pairs_def split: prod.splits sum.splits if_splits)
qed

lemma write_block_ok:
  assumes inv: "wb_inv W" and ok: "write_block_except B key skip W s = (Inr (), W', s')"
  shows "wb_inv W'"
    and "wb_get W' h = (if in_pool W key h \<and> h \<notin> skip then None else wb_get W h)"
    and "live_pairs skip (blocks W key) = [] \<and> s' = s \<or>
      (\<exists>flags. put_block B s (live_pairs skip (blocks W key)) (key_group key) = (Inr flags, s'))"
    and "max_bytes W' = max_bytes W"
    and "skip = {} \<Longrightarrow> blocks W' = (blocks W)(key := None)"
    and "in_pool W' k h \<longleftrightarrow> in_pool W k h \<and> (k = key \<longrightarrow> h \<in> skip)"
proof -
  have "wb_inv W' \<and> (\<forall>h. wb_get W' h = (if in_pool W key h \<and> h \<notin> skip then None else wb_get W h)) \<and>
    (live_pairs skip (blocks W key) = [] \<and> s' = s \<or>
      (\<exists>flags. put_block B s (live_pairs skip (blocks W key)) (key_group key) = (Inr flags, s'))) \<and>
    max_bytes W' = max_bytes W \<and> (skip = {} \<longrightarrow> blocks W' = (blocks W)(key := None)) \<and>
    (\<forall>k h. in_pool W' k h \<longleftrightarrow> in_pool W k h \<and> (k = key \<longrightarrow> h \<in> skip))"
  proof (cases "blocks W key")
    case None
    then show ?thesis using ok inv by (auto simp: write_block_except_def in_pool_def live_pairs_def)
  next
    case (Some b)
    define pairs where "pairs = zip (b_hashes b) (b_arrays b)"
    obtain m kept where fold: "foldl (keep_step key skip) (by_hash W, empty_block) pairs = (m, kept)" by fastforce
    have wf: "wf_block key b" by (rule wb_invD(2) [OF inv Some])
    have fsts: "map fst pairs = b_hashes b" and snds: "map snd pairs = b_arrays b"
      using wf by (simp_all add: pairs_def wf_block_def)
    have dist: "distinct (b_hashes b)" using wb_inv_hashes(2) [OF inv, of key] by (simp add: Some)
    have keep: "b_hashes kept = map fst (kept_pairs skip pairs)" "b_arrays kept = map snd (kept_pairs skip pairs)"
      "b_bytes kept = arrays_bytes (map snd (kept_pairs skip pairs))"
      "\<And>h. h \<notin> set (b_hashes b) \<Longrightarrow> m h = by_hash W h"
      "\<And>h. h \<in> set (b_hashes b) \<Longrightarrow> h \<notin> skip \<Longrightarrow> m h = None"
      using keep_steps [OF fold, unfolded fsts, OF dist] unfolding set_map [symmetric] fsts
      by (simp_all add: empty_block_def)
    have kept_at: "m (b_hashes kept ! i) = Some (key, i)" if "i < length (b_hashes kept)" for i
      using keep_steps [OF fold, unfolded fsts, OF dist, THEN conjunct2, THEN conjunct2, THEN conjunct2,
          THEN conjunct2, THEN conjunct2] that by (simp add: empty_block_def)
    define ob where "ob = (if b_hashes kept = [] then None else Some kept)"
    have kept_in: "set (b_hashes kept) = set (b_hashes b) \<inter> skip"
      unfolding keep(1) fsts [symmetric] by (auto simp: kept_pairs_def)
    have W': "blocks W' = (blocks W)(key := ob)" "by_hash W' = m" "max_bytes W' = max_bytes W"
        "wb_bytes W' + b_bytes b = wb_bytes W + opt_bytes ob"
      and put: "live_pairs skip (blocks W key) = [] \<and> s' = s \<or>
        (\<exists>flags. put_block B s (live_pairs skip (blocks W key)) (key_group key) = (Inr flags, s'))"
      using ok fold wb_bytes_ge [OF inv, of key]
      by (auto simp: write_block_except_def Some Let_def ob_def live_pairs_def pairs_def
          split: prod.splits sum.splits if_splits)
    have hashes: "opt_hashes ob = b_hashes kept" by (simp add: ob_def)
    have inv': "wb_inv W'"
    proof (rule wb_inv_update [OF inv W'(1)])
      show "wf_block key c" if "ob = Some c" for c
        using that wf keep(1-3)
        by (auto simp: ob_def wf_block_def kept_pairs_def list_all_iff pairs_def dest: set_zip_rightD split: if_splits)
      show "by_hash W' (opt_hashes ob ! i) = Some (key, i)" if "i < length (opt_hashes ob)" for i
        using that kept_at by (simp add: hashes W')
      show "by_hash W' h = (case by_hash W h of Some (k, i) \<Rightarrow> if k = key then None else Some (k, i) | None \<Rightarrow> None)"
        if "h \<notin> set (opt_hashes ob)" for h
      proof (cases "h \<in> set (b_hashes b)")
        case True
        then obtain i where "by_hash W h = Some (key, i)" using in_pool_iff [OF inv, of key h] by (auto simp: in_pool_def Some)
        then show ?thesis using True that kept_in keep(5) by (simp add: hashes W')
      next
        case False
        then have "\<nexists>i. by_hash W h = Some (key, i)" using in_pool_iff [OF inv, of key h] by (auto simp: in_pool_def Some)
        then show ?thesis using False keep(4) by (cases "by_hash W h") (auto simp: W')
      qed
      show "k = key" if "l \<in> set (opt_hashes ob)" "by_hash W l = Some (k, i)" for l k i
      proof -
        have "in_pool W key l" using that(1) kept_in by (simp add: in_pool_def Some hashes)
        then show ?thesis using in_pool_iff [OF inv, of key l] that(2) by auto
      qed
      show "wb_bytes W' + opt_bytes (blocks W key) = wb_bytes W + opt_bytes ob" using W'(4) by (simp add: Some)
    qed
    have "block_pairs ob = kept_pairs skip pairs" by (simp add: ob_def keep(1,2) zip_map_fst_snd)
    moreover have "map_of (kept_pairs skip pairs) h = (if h \<in> skip then map_of pairs h else None)" for h
      by (induction pairs) (auto simp: kept_pairs_def)
    ultimately have kept_map: "map_of (block_pairs ob) h = (if h \<in> skip then map_of pairs h else None)" for h
      by simp
    have pool: "map_of pairs h = None \<longleftrightarrow> \<not> in_pool W key h" for h
      using fsts by (simp add: map_of_eq_None_iff in_pool_def Some flip: set_map)
    have "wb_get W' h = (if in_pool W key h \<and> h \<notin> skip then None else wb_get W h)" for h
    proof (cases "in_pool W key h")
      case True
      then have "wb_get W h = map_of pairs h" using wb_get_pool [OF inv True] by (simp add: Some pairs_def)
      then show ?thesis
        using True pool [of h] unfolding wb_get_update [OF inv inv' W'(1)] kept_map by (auto split: option.splits)
    next
      case False
      then show ?thesis
        using pool [of h] unfolding wb_get_update [OF inv inv' W'(1)] kept_map by simp
    qed
    moreover have "skip = {} \<longrightarrow> ob = None" using kept_in by (auto simp: ob_def)
    moreover have "in_pool W' k h \<longleftrightarrow> in_pool W k h \<and> (k = key \<longrightarrow> h \<in> skip)" for k h
      using kept_in hashes by (simp add: in_pool_def W'(1) Some)
    ultimately show ?thesis using inv' put W' by blast
  qed
  then show "wb_inv W'"
    and "wb_get W' h = (if in_pool W key h \<and> h \<notin> skip then None else wb_get W h)"
    and "live_pairs skip (blocks W key) = [] \<and> s' = s \<or>
      (\<exists>flags. put_block B s (live_pairs skip (blocks W key)) (key_group key) = (Inr flags, s'))"
    and "max_bytes W' = max_bytes W"
    and "skip = {} \<Longrightarrow> blocks W' = (blocks W)(key := None)"
    and "in_pool W' k h \<longleftrightarrow> in_pool W k h \<and> (k = key \<longrightarrow> h \<in> skip)"
    by blast+
qed


lemma wb_contains_get:
  assumes "wb_inv W" shows "wb_contains W h \<longleftrightarrow> wb_get W h \<noteq> None"
proof
  assume "wb_contains W h"
  then obtain key i where at: "by_hash W h = Some (key, i)" by (auto simp: wb_contains_def)
  then obtain b where "blocks W key = Some b" "i < length (b_hashes b)"
    using wb_invD(3) [OF assms, of h "(key, i)"] by (auto simp: positions_def get_at_Some split: option.splits)
  moreover from this have "i < length (b_arrays b)" using wb_invD(2) [OF assms] by (simp add: wf_block_def)
  ultimately show "wb_get W h \<noteq> None" using at by (simp add: wb_get_def get_at_def)
qed (auto simp: wb_get_def wb_contains_def split: option.splits)

lemma write_block_inv:
  assumes "wb_inv W" "write_block_except B key skip W s = (r, W', s')"
  shows "wb_inv W'" and "max_bytes W' = max_bytes W"
proof -
  have "wb_inv W' \<and> max_bytes W' = max_bytes W"
  proof (cases r)
    case (Inl e)
    then have "write_block_except B key skip W s = (Inl e, W', s')" using assms(2) by simp
    from write_block_error [OF assms(1) this] show ?thesis using assms(1) by simp
  next
    case (Inr u)
    then have ok: "write_block_except B key skip W s = (Inr (), W', s')" using assms(2) by simp
    show ?thesis using write_block_ok(1,4) [OF assms(1) ok] by simp
  qed
  then show "wb_inv W'" and "max_bytes W' = max_bytes W" by simp_all
qed

lemma write_blocks_inv:
  assumes "wb_inv W" "write_blocks B skip keys W s = (r, W', s')"
  shows "wb_inv W' \<and> max_bytes W' = max_bytes W"
  using assms
proof (induction keys arbitrary: W s)
  case (Cons key keys)
  obtain r1 W1 s1 where one: "write_block_except B key skip W s = (r1, W1, s1)" by (metis prod_cases3)
  note inv = write_block_inv [OF Cons.prems(1) one]
  show ?case
  proof (cases r1)
    case (Inl e)
    then show ?thesis using Cons.prems(2) one inv by simp
  next
    case (Inr u)
    then show ?thesis using Cons.IH [OF inv(1), of s1] Cons.prems(2) one inv(2) by simp
  qed
qed simp

lemma evict_loop_inv:
  assumes "wb_inv W" "evict_loop n B iter W s = (r, W', s')"
  shows "wb_inv W' \<and> max_bytes W' = max_bytes W"
  using assms
proof (induction n arbitrary: W s)
  case (Suc n)
  show ?case
  proof (cases "wb_bytes W \<le> max_bytes W")
    case False
    show ?thesis
    proof (cases "max_by_key (\<lambda>k. case blocks W k of Some b \<Rightarrow> b_bytes b | None \<Rightarrow> 0) (iter (blocks W))")
      case None
      then show ?thesis using Suc.prems False by simp
    next
      case (Some key)
      obtain r1 W1 s1 where one: "write_block_except B key {} W s = (r1, W1, s1)" by (metis prod_cases3)
      note inv = write_block_inv [OF Suc.prems(1) one]
      show ?thesis
      proof (cases r1)
        case (Inl e)
        then show ?thesis using Suc.prems(2) one inv False Some by (simp add: write_block_def)
      next
        case (Inr u)
        then show ?thesis using Suc.IH [OF inv(1), of s1] Suc.prems(2) one inv(2) False Some by (simp add: write_block_def)
      qed
    qed
  qed (use Suc.prems in simp)
qed simp

lemma evict_over_budget_inv:
  assumes "wb_inv W" "evict_over_budget B iter W s = (r, W', s')"
  shows "wb_inv W'" and "max_bytes W' = max_bytes W"
  using evict_loop_inv [OF assms(1) assms(2) [unfolded evict_over_budget_def]] by simp_all

lemma set_max_bytes_inv:
  assumes "wb_inv W" "set_max_bytes B iter n W s = (r, W', s')"
  shows "wb_inv W'" and "max_bytes W' = n"
proof -
  have "wb_inv (W\<lparr>max_bytes := n\<rparr>)" using assms(1) by (simp add: wb_inv_def)
  from evict_over_budget_inv [OF this assms(2) [unfolded set_max_bytes_def]]
  show "wb_inv W'" and "max_bytes W' = n" by simp_all
qed

text \<open>A push is: accept, write the pool's block if it is full, evict, and on an error take the array out.\<close>

definition push_writes ::
  "'s backend_ops \<Rightarrow> iteration \<Rightarrow> hash \<Rightarrow> typed_array \<Rightarrow> pack_group \<Rightarrow> write_buffer \<Rightarrow> 's \<Rightarrow> unit result \<times> write_buffer \<times> 's" where
  "push_writes B iter h a g W s =
     (let W1 = wb_accept h a g W; key = pool_key a g
      in case (if width_cap W (arr_dtype a) (element_shape a) (ta_length a) \<le> length (b_hashes (the (blocks W1 key)))
            then write_block B key W1 s else (Inr (), W1, s)) of
           (Inl e, W', s') \<Rightarrow> (Inl e, W', s')
         | (Inr _, W', s') \<Rightarrow> evict_over_budget B iter W' s')"

lemma wb_push_writes:
  "wb_push B iter h a g W s = (case push_writes B iter h a g W s of
       (Inr _, W', s') \<Rightarrow> (Inr (), W', s')
     | (Inl e, W', s') \<Rightarrow> (Inl e, snd (wb_remove h W'), if fst (wb_remove h W') then s' else snd (b_remove B s' h)))"
proof -
  obtain r1 W1 s1 where one: "push_writes B iter h a g W s = (r1, W1, s1)" by (metis prod_cases3)
  obtain f W2 where rem: "wb_remove h W1 = (f, W2)" by fastforce
  have "wb_push B iter h a g W s = (case push_writes B iter h a g W s of (r, W2, s2) \<Rightarrow>
      (case r of Inr _ \<Rightarrow> (Inr (), W2, s2)
       | Inl e \<Rightarrow> (case wb_remove h W2 of (True, W3) \<Rightarrow> (Inl e, W3, s2) | (False, W3) \<Rightarrow> (Inl e, W3, snd (b_remove B s2 h)))))"
    unfolding wb_push_def push_writes_def Let_def ..
  then show ?thesis by (cases r1; cases f) (simp_all add: one rem)
qed

lemma push_writes_cases:
  assumes "push_writes B iter h a g W s = (r, W', s')"
  obtains r1 W1 s1 where
    "write_block_except B (pool_key a g) {} (wb_accept h a g W) s = (r1, W1, s1) \<or>
      r1 = Inr () \<and> W1 = wb_accept h a g W \<and> s1 = s"
    "case r1 of Inl e \<Rightarrow> r = Inl e \<and> W' = W1 \<and> s' = s1 | Inr _ \<Rightarrow> evict_over_budget B iter W1 s1 = (r, W', s')"
proof -
  define V where "V = wb_accept h a g W"
  define full where "full \<longleftrightarrow> width_cap W (arr_dtype a) (element_shape a) (ta_length a) \<le>
    length (b_hashes (the (blocks V (pool_key a g))))"
  obtain r1 W1 s1 where one: "(if full then write_block B (pool_key a g) V s else (Inr (), V, s)) = (r1, W1, s1)"
    by (metis prod_cases3)
  have "push_writes B iter h a g W s = (case (r1, W1, s1) of (Inl e, W', s') \<Rightarrow> (Inl e, W', s')
         | (Inr _, W', s') \<Rightarrow> evict_over_budget B iter W' s')"
    unfolding one [symmetric] by (simp add: push_writes_def Let_def full_def V_def)
  then have "case r1 of Inl e \<Rightarrow> r = Inl e \<and> W' = W1 \<and> s' = s1 | Inr _ \<Rightarrow> evict_over_budget B iter W1 s1 = (r, W', s')"
    using assms by (cases r1) auto
  moreover have "write_block_except B (pool_key a g) {} V s = (r1, W1, s1) \<or> r1 = Inr () \<and> W1 = V \<and> s1 = s"
    using one by (auto simp: write_block_def split: if_splits)
  ultimately show ?thesis by (intro that) (simp_all add: V_def)
qed

lemma step_or_stay:
  "write_block_except B key skip V s = (r1, W1, s1) \<or> r1 = Inr () \<and> W1 = V \<and> s1 = s \<Longrightarrow> wb_inv V \<Longrightarrow> wb_inv W1"
  by (elim disjE conjE) (simp_all add: write_block_inv(1))

lemma push_writes_inv:
  assumes "wb_inv W" "by_hash W h = None" "push_writes B iter h a g W s = (r, W', s')"
  shows "wb_inv W'"
proof -
  note acc = wb_accept_inv(1) [OF assms(1,2), of a g]
  from assms(3) show ?thesis
  proof (rule push_writes_cases)
    fix r1 W1 s1
    assume one: "write_block_except B (pool_key a g) {} (wb_accept h a g W) s = (r1, W1, s1) \<or>
        r1 = Inr () \<and> W1 = wb_accept h a g W \<and> s1 = s"
      and two: "case r1 of Inl e \<Rightarrow> r = Inl e \<and> W' = W1 \<and> s' = s1 | Inr _ \<Rightarrow> evict_over_budget B iter W1 s1 = (r, W', s')"
    have "wb_inv W1" by (rule step_or_stay [OF one acc])
    then show ?thesis using two evict_over_budget_inv(1) by (cases r1) auto
  qed
qed

lemma wb_push_inv:
  assumes "wb_inv W" "by_hash W h = None" "wb_push B iter h a g W s = (r, W', s')"
  shows "wb_inv W'"
proof -
  obtain r1 W1 s1 where one: "push_writes B iter h a g W s = (r1, W1, s1)" by (metis prod_cases3)
  have "wb_inv W1" using push_writes_inv [OF assms(1,2) one] by simp
  then show ?thesis
    using assms(3) wb_remove_inv(1) [of W1 h] by (cases r1) (auto simp: wb_push_writes one)
qed

end
