(* ===== verification/WriteBufferRuns.thy ===== *)
theory WriteBufferRuns
  imports WriteBufferInv
begin

text \<open>
  What a reader sees through buffer and backend, the byte budget, and the runs of the write buffer of
  \<open>write_buffer.rs\<close>, over any backend that keeps the contract \<open>block_store\<close>.
\<close>

section \<open>What the store holds across buffer and backend\<close>

text \<open>
  \<open>contents\<close> is what a reader of the store sees: the buffered arrays over the stored ones. A hash is
  never in both.
\<close>

definition contents :: "(hash \<rightharpoonup> typed_array) \<Rightarrow> write_buffer \<Rightarrow> hash \<rightharpoonup> typed_array" where
  "contents m W h = (case wb_get W h of Some a \<Rightarrow> Some a | None \<Rightarrow> m h)"

definition apart :: "(hash \<rightharpoonup> typed_array) \<Rightarrow> write_buffer \<Rightarrow> bool" where
  "apart m W \<longleftrightarrow> (\<forall>h. wb_get W h \<noteq> None \<longrightarrow> m h = None)"

lemma not_contains: "\<not> wb_contains W h \<Longrightarrow> by_hash W h = None"
  by (cases "by_hash W h") (simp_all add: wb_contains_def)

lemma map_of_live: "map_of (filter (\<lambda>(h, a). h \<notin> skip) ps) h = (if h \<in> skip then None else map_of ps h)"
  by (induction ps) auto

context block_store
begin

lemma write_block_contents:
  assumes inv: "wb_inv W" and apart: "apart (stored s) W"
    and step: "write_block_except B key skip W s = (r, W', s')"
  shows "apart (stored s') W' \<and> contents (stored s') W' = contents (stored s) W"
proof (cases r)
  case (Inl e)
  then have "write_block_except B key skip W s = (Inl e, W', s')" using step by simp
  from write_block_error [OF inv this] have "W' = W" "stored s' = stored s" using put_block_error by auto
  then show ?thesis using apart by simp
next
  case (Inr u)
  then have ok: "write_block_except B key skip W s = (Inr (), W', s')" using step by simp
  define live where "live = live_pairs skip (blocks W key)"
  have st: "stored s' = add_new (stored s) live"
    using write_block_ok(3) [OF inv ok] put_block_ok by (auto simp: live_def)
  have get': "wb_get W' h = (if in_pool W key h \<and> h \<notin> skip then None else wb_get W h)" for h
    by (rule write_block_ok(2) [OF inv ok])
  have live: "map_of live h = (if in_pool W key h \<and> h \<notin> skip then wb_get W h else None)" for h
  proof -
    have "map_of live h = (if h \<in> skip then None else map_of (block_pairs (blocks W key)) h)"
      by (simp add: live_def live_pairs_def map_of_live)
    moreover have "map_of (block_pairs (blocks W key)) h = None" if "\<not> in_pool W key h"
      using that unfolding in_pool_def wb_inv_hashes(1) [OF inv, symmetric] by (simp add: map_of_eq_None_iff)
    ultimately show ?thesis using wb_get_pool [OF inv, of key h] by auto
  qed
  have "contents (stored s') W' h = contents (stored s) W h" for h
    using apart by (auto simp: contents_def st add_new_lookup get' live apart_def split: option.splits)
  moreover have "apart (stored s') W'"
    using apart by (auto simp: apart_def st add_new_lookup get' live split: option.splits if_splits)
  ultimately show ?thesis by blast
qed

lemma write_blocks_contents:
  assumes "wb_inv W" "apart (stored s) W" "write_blocks B skip keys W s = (r, W', s')"
  shows "apart (stored s') W' \<and> contents (stored s') W' = contents (stored s) W"
  using assms
proof (induction keys arbitrary: W s)
  case (Cons key keys)
  obtain r1 W1 s1 where one: "write_block_except B key skip W s = (r1, W1, s1)" by (metis prod_cases3)
  note inv = write_block_inv [OF Cons.prems(1) one] and c = write_block_contents [OF Cons.prems(1,2) one]
  show ?case
  proof (cases r1)
    case (Inl e)
    then show ?thesis using Cons.prems(3) one c by simp
  next
    case (Inr u)
    then show ?thesis using Cons.IH [OF inv(1), of s1] Cons.prems(3) one c by simp
  qed
qed simp

lemma evict_loop_contents:
  assumes "wb_inv W" "apart (stored s) W" "evict_loop n B iter W s = (r, W', s')"
  shows "apart (stored s') W' \<and> contents (stored s') W' = contents (stored s) W"
  using assms
proof (induction n arbitrary: W s)
  case (Suc n)
  show ?case
  proof (cases "wb_bytes W \<le> max_bytes W")
    case False
    show ?thesis
    proof (cases "max_by_key (\<lambda>k. case blocks W k of Some b \<Rightarrow> b_bytes b | None \<Rightarrow> 0) (iter (blocks W))")
      case None
      then show ?thesis using Suc.prems False by simp
    next
      case (Some key)
      obtain r1 W1 s1 where one: "write_block_except B key {} W s = (r1, W1, s1)" by (metis prod_cases3)
      note inv = write_block_inv [OF Suc.prems(1) one] and c = write_block_contents [OF Suc.prems(1,2) one]
      show ?thesis
      proof (cases r1)
        case (Inl e)
        then show ?thesis using Suc.prems(3) one c False Some by (simp add: write_block_def)
      next
        case (Inr u)
        then show ?thesis using Suc.IH [OF inv(1), of s1] Suc.prems(3) one c False Some by (simp add: write_block_def)
      qed
    qed
  qed (use Suc.prems in simp)
qed simp

lemma push_writes_contents:
  assumes inv: "wb_inv W" and apart: "apart (stored s) W" and fresh: "\<not> wb_contains W h" "stored s h = None"
    and step: "push_writes B iter h a g W s = (r, W', s')"
  shows "apart (stored s') W' \<and> contents (stored s') W' = (contents (stored s) W)(h \<mapsto> a)"
proof -
  have none: "by_hash W h = None" by (rule not_contains [OF fresh(1)])
  define V where "V = wb_accept h a g W"
  have V: "wb_inv V" "wb_get V = (wb_get W)(h \<mapsto> a)" using wb_accept_inv [OF inv none] by (simp_all add: V_def)
  have av: "apart (stored s) V" "contents (stored s) V = (contents (stored s) W)(h \<mapsto> a)"
    using apart fresh(2) by (auto simp: apart_def contents_def V(2))
  from step show ?thesis
  proof (rule push_writes_cases)
    fix r1 W1 s1
    assume one: "write_block_except B (pool_key a g) {} (wb_accept h a g W) s = (r1, W1, s1) \<or>
        r1 = Inr () \<and> W1 = wb_accept h a g W \<and> s1 = s"
      and two: "case r1 of Inl e \<Rightarrow> r = Inl e \<and> W' = W1 \<and> s' = s1 | Inr _ \<Rightarrow> evict_over_budget B iter W1 s1 = (r, W', s')"
    have c1: "wb_inv W1 \<and> apart (stored s1) W1 \<and> contents (stored s1) W1 = contents (stored s) V"
      using one unfolding V_def [symmetric]
    proof (elim disjE conjE)
      assume w: "write_block_except B (pool_key a g) {} V s = (r1, W1, s1)"
      show ?thesis using write_block_inv(1) [OF V(1) w] write_block_contents [OF V(1) av(1) w] by simp
    qed (simp add: V(1) av(1))
    show ?thesis
    proof (cases r1)
      case (Inr u)
      then have "evict_loop (length (iter (blocks W1)) + 1) B iter W1 s1 = (r, W', s')"
        using two by (simp add: evict_over_budget_def)
      from evict_loop_contents [OF _ _ this] show ?thesis using c1 av(2) by simp
    qed (use two c1 av(2) in simp)
  qed
qed

lemma wb_push_contents:
  assumes inv: "wb_inv W" and apart: "apart (stored s) W" and fresh: "\<not> wb_contains W h" "stored s h = None"
    and step: "wb_push B iter h a g W s = (r, W', s')"
  shows "apart (stored s') W' \<and>
    contents (stored s') W' = (case r of Inr _ \<Rightarrow> (contents (stored s) W)(h \<mapsto> a) | Inl _ \<Rightarrow> contents (stored s) W)"
proof -
  obtain r1 W1 s1 where one: "push_writes B iter h a g W s = (r1, W1, s1)" by (metis prod_cases3)
  have c: "apart (stored s1) W1" "contents (stored s1) W1 = (contents (stored s) W)(h \<mapsto> a)"
    using push_writes_contents [OF inv apart fresh one] by simp_all
  have inv1: "wb_inv W1" using push_writes_inv [OF inv not_contains [OF fresh(1)] one] by simp
  have old: "contents (stored s) W h = None"
    using fresh wb_contains_get [OF inv] by (simp add: contents_def)
  show ?thesis
  proof (cases r1)
    case (Inr u)
    then show ?thesis using step c by (auto simp: wb_push_writes one)
  next
    case (Inl e)
    have rest: "contents m V k = contents (stored s) W k" if "k \<noteq> h" "wb_get V k = wb_get W1 k" "m k = stored s1 k" for k m V
    proof -
      have "contents m V k = contents (stored s1) W1 k" by (simp only: contents_def that(2,3))
      then show ?thesis using that(1) by (simp add: c(2))
    qed
    show ?thesis
    proof (cases "fst (wb_remove h W1)")
      case True
      then have r: "r = Inl e" "W' = snd (wb_remove h W1)" "s' = s1" using step Inl by (auto simp: wb_push_writes one)
      have buffered: "stored s1 h = None"
        using True wb_remove_inv(3) [OF inv1, of h] wb_contains_get [OF inv1, of h] c(1)
        by (auto simp: wb_contains_def apart_def)
      have "contents (stored s') W' k = contents (stored s) W k" for k
        using rest [of k W' "stored s'"] old buffered by (cases "k = h") (auto simp: r wb_remove_inv(2) [OF inv1] contents_def)
      then show ?thesis using c(1) by (auto simp: r apart_def wb_remove_inv(2) [OF inv1])
    next
      case False
      then have r: "r = Inl e" "W' = snd (wb_remove h W1)" "stored s' = (stored s1)(h := None)"
        using step Inl remove_stored by (auto simp: wb_push_writes one)
      have "contents (stored s') W' k = contents (stored s) W k" for k
        using rest [of k W' "stored s'"] old by (cases "k = h") (auto simp: r wb_remove_inv(2) [OF inv1] contents_def)
      then show ?thesis using c(1) by (auto simp: r apart_def wb_remove_inv(2) [OF inv1])
    qed
  qed
qed

end

section \<open>The byte budget\<close>

text \<open>A hash map's iteration visits every key once.\<close>

definition lawful :: "iteration \<Rightarrow> bool" where
  "lawful iter \<longleftrightarrow> (\<forall>m. finite (dom m) \<longrightarrow> distinct (iter m) \<and> set (iter m) = dom m)"

lemma max_by_key_in: "max_by_key f xs = Some x \<Longrightarrow> x \<in> set xs"
  by (induction xs arbitrary: x) (auto split: option.splits if_splits)

lemma max_by_key_None: "max_by_key f xs = None \<longleftrightarrow> xs = []"
  by (cases xs) (auto split: option.splits)

lemma evict_loop_budget:
  assumes "lawful iter" "wb_inv W" "card (dom (blocks W)) < n" "evict_loop n B iter W s = (Inr (), W', s')"
  shows "wb_bytes W' \<le> max_bytes W'"
  using assms(2-)
proof (induction n arbitrary: W s)
  case (Suc n)
  have iter: "set (iter (blocks W)) = dom (blocks W)"
    using assms(1) wb_invD(1) [OF Suc.prems(1)] by (simp add: lawful_def)
  show ?case
  proof (cases "wb_bytes W \<le> max_bytes W")
    case False
    show ?thesis
    proof (cases "max_by_key (\<lambda>k. case blocks W k of Some b \<Rightarrow> b_bytes b | None \<Rightarrow> 0) (iter (blocks W))")
      case None
      then have "dom (blocks W) = {}" using iter by (simp add: max_by_key_None)
      then have "wb_bytes W = 0" using wb_invD(4) [OF Suc.prems(1)] by simp
      then show ?thesis using False by simp
    next
      case (Some key)
      then have key: "key \<in> dom (blocks W)" using max_by_key_in iter by fastforce
      obtain r1 W1 s1 where one: "write_block_except B key {} W s = (r1, W1, s1)" by (metis prod_cases3)
      show ?thesis
      proof (cases r1)
        case (Inl e)
        then show ?thesis using Suc.prems(3) one False Some by (simp add: write_block_def)
      next
        case (Inr u)
        then have ok: "write_block_except B key {} W s = (Inr (), W1, s1)" using one by simp
        have "dom (blocks W1) = dom (blocks W) - {key}" using write_block_ok(5) [OF Suc.prems(1) ok] by simp
        then have "card (dom (blocks W1)) < n"
          using Suc.prems(2) key card_Diff1_less [OF wb_invD(1) [OF Suc.prems(1)] key] by simp
        then show ?thesis
          using Suc.IH [OF write_block_ok(1) [OF Suc.prems(1) ok], of s1] Suc.prems(3) ok False Some
          by (simp add: write_block_def)
      qed
    qed
  qed (use Suc.prems in simp)
qed simp

lemma evict_over_budget_budget:
  assumes "lawful iter" "wb_inv W" "evict_over_budget B iter W s = (Inr (), W', s')"
  shows "wb_bytes W' \<le> max_bytes W'"
proof -
  have "length (iter (blocks W)) = card (dom (blocks W))"
    using assms(1) wb_invD(1) [OF assms(2)] by (metis lawful_def distinct_card)
  then show ?thesis
    using evict_loop_budget [OF assms(1,2) _ assms(3) [unfolded evict_over_budget_def]] by simp
qed

lemma push_writes_budget:
  assumes "lawful iter" "wb_inv W" "by_hash W h = None" "push_writes B iter h a g W s = (Inr (), W', s')"
  shows "wb_bytes W' \<le> max_bytes W'"
proof -
  define V where "V = wb_accept h a g W"
  have V: "wb_inv V" using wb_accept_inv(1) [OF assms(2,3)] by (simp add: V_def)
  from assms(4) show ?thesis
  proof (rule push_writes_cases)
    fix r1 W1 s1
    assume one: "write_block_except B (pool_key a g) {} (wb_accept h a g W) s = (r1, W1, s1) \<or>
        r1 = Inr () \<and> W1 = wb_accept h a g W \<and> s1 = s"
      and two: "case r1 of Inl e \<Rightarrow> Inr () = Inl e \<and> W' = W1 \<and> s' = s1
        | Inr _ \<Rightarrow> evict_over_budget B iter W1 s1 = (Inr (), W', s')"
    have "wb_inv W1" by (rule step_or_stay [OF one V [unfolded V_def]])
    then show ?thesis using two evict_over_budget_budget [OF assms(1)] by (cases r1) auto
  qed
qed

section \<open>Bytes are those of the contents\<close>

definition array_bytes :: "typed_array option \<Rightarrow> nat" where
  "array_bytes oa = (case oa of None \<Rightarrow> 0 | Some a \<Rightarrow> length (bytes a))"

lemma wb_bytes_contents:
  assumes inv: "wb_inv W"
  shows "wb_bytes W = (\<Sum>h\<in>dom (wb_get W). array_bytes (wb_get W h))" "finite (dom (wb_get W))"
proof -
  let ?P = "SIGMA k:dom (blocks W). {..<length (b_hashes (the (blocks W k)))}"
  let ?f = "\<lambda>p. length (bytes (b_arrays (the (blocks W (fst p))) ! snd p))"
  let ?at = "\<lambda>h. the (by_hash W h)"
  have fin: "finite (dom (blocks W))" by (rule wb_invD(1) [OF inv])
  have at: "by_hash W h = Some (k, i) \<longleftrightarrow> (\<exists>b. blocks W k = Some b \<and> i < length (b_hashes b) \<and> b_hashes b ! i = h)" for h k i
    unfolding wb_invD(3) [OF inv] by (cases "blocks W k") (auto simp: positions_def get_at_Some)
  have len: "length (b_arrays b) = length (b_hashes b)" "b_bytes b = (\<Sum>i<length (b_hashes b). length (bytes (b_arrays b ! i)))"
    if "blocks W k = Some b" for k b
    using wb_invD(2) [OF inv that] by (simp_all add: wf_block_def arrays_bytes_def sum_list_sum_nth atLeast0LessThan)
  have dom: "dom (wb_get W) = dom (by_hash W)"
    using wb_contains_get [OF inv] unfolding wb_contains_def dom_def by blast
  have "inj_on ?at (dom (by_hash W))"
  proof (rule inj_onI)
    fix h h'
    assume "h \<in> dom (by_hash W)" "h' \<in> dom (by_hash W)" and eq: "?at h = ?at h'"
    then obtain k i where "by_hash W h = Some (k, i)" "by_hash W h' = Some (k, i)" by fastforce
    then show "h = h'" by (auto simp: at)
  qed
  moreover have "?at ` dom (by_hash W) = ?P"
  proof
    show "?at ` dom (by_hash W) \<subseteq> ?P" using at by fastforce
    show "?P \<subseteq> ?at ` dom (by_hash W)"
    proof
      fix p
      assume "p \<in> ?P"
      then obtain k i b where p: "p = (k, i)" "blocks W k = Some b" "i < length (b_hashes b)" by auto
      then have "by_hash W (b_hashes b ! i) = Some p" by (simp add: at)
      then show "p \<in> ?at ` dom (by_hash W)" by (metis domI image_eqI option.sel)
    qed
  qed
  ultimately have bij: "bij_betw ?at (dom (by_hash W)) ?P" by (simp add: bij_betw_def)
  have "finite ?P" using fin by simp
  then show "finite (dom (wb_get W))" using bij_betw_finite [OF bij] dom by simp
  have "wb_bytes W = (\<Sum>k\<in>dom (blocks W). \<Sum>i<length (b_hashes (the (blocks W k))). ?f (k, i))"
    unfolding wb_invD(4) [OF inv] by (rule sum.cong) (use len in auto)
  also have "\<dots> = (\<Sum>p\<in>?P. ?f p)" using fin by (subst sum.Sigma) (simp_all add: case_prod_beta)
  also have "\<dots> = (\<Sum>h\<in>dom (by_hash W). ?f (?at h))" by (rule sum.reindex_bij_betw [OF bij, symmetric])
  also have "\<dots> = (\<Sum>h\<in>dom (wb_get W). array_bytes (wb_get W h))"
    unfolding dom
  proof (rule sum.cong)
    fix h
    assume "h \<in> dom (by_hash W)"
    then obtain k i b where h: "by_hash W h = Some (k, i)" "blocks W k = Some b" "i < length (b_hashes b)" using at by fastforce
    then have "wb_get W h = Some (b_arrays b ! i)" using len(1) [OF h(2)] by (simp add: wb_get_def get_at_def)
    then show "?f (?at h) = array_bytes (wb_get W h)" using h by (simp add: array_bytes_def)
  qed simp
  finally show "wb_bytes W = (\<Sum>h\<in>dom (wb_get W). array_bytes (wb_get W h))" .
qed

lemma wb_bytes_mono:
  assumes "wb_inv W" "wb_inv W'" "wb_get W' \<subseteq>\<^sub>m wb_get W"
  shows "wb_bytes W' \<le> wb_bytes W"
proof -
  have "(\<Sum>h\<in>dom (wb_get W'). array_bytes (wb_get W' h)) = (\<Sum>h\<in>dom (wb_get W'). array_bytes (wb_get W h))"
    using assms(3) by (intro sum.cong) (auto simp: map_le_def)
  also have "\<dots> \<le> (\<Sum>h\<in>dom (wb_get W). array_bytes (wb_get W h))"
    by (rule sum_mono2) (use wb_bytes_contents(2) [OF assms(1)] map_le_implies_dom_le [OF assms(3)] in auto)
  finally show ?thesis using wb_bytes_contents(1) [OF assms(1)] wb_bytes_contents(1) [OF assms(2)] by simp
qed

text \<open>Writing blocks out only takes arrays from the buffer, whether or not it fails.\<close>

lemma write_block_less:
  assumes inv: "wb_inv W" and run: "write_block_except B key skip W s = (r, W', s')"
  shows "wb_get W' \<subseteq>\<^sub>m wb_get W"
proof (cases r)
  case (Inl e)
  then show ?thesis using write_block_error [OF inv, of B key skip s e W' s'] run by simp
next
  case (Inr u)
  then show ?thesis using write_block_ok(2) [OF inv, of B key skip s W' s'] run by (auto simp: map_le_def split: if_splits)
qed

lemma evict_loop_less:
  assumes "wb_inv W" "evict_loop n B iter W s = (r, W', s')"
  shows "wb_get W' \<subseteq>\<^sub>m wb_get W"
  using assms
proof (induction n arbitrary: W s)
  case (Suc n)
  show ?case
  proof (cases "wb_bytes W \<le> max_bytes W")
    case False
    show ?thesis
    proof (cases "max_by_key (\<lambda>k. case blocks W k of Some b \<Rightarrow> b_bytes b | None \<Rightarrow> 0) (iter (blocks W))")
      case (Some key)
      obtain r1 W1 s1 where one: "write_block_except B key {} W s = (r1, W1, s1)" by (metis prod_cases3)
      note less = write_block_less [OF Suc.prems(1) one]
      show ?thesis
      proof (cases r1)
        case (Inl e)
        then show ?thesis using Suc.prems(2) one False Some less by (simp add: write_block_def)
      next
        case (Inr u)
        then have "evict_loop n B iter W1 s1 = (r, W', s')" using Suc.prems(2) one False Some by (simp add: write_block_def)
        from Suc.IH [OF write_block_inv(1) [OF Suc.prems(1) one] this] show ?thesis using less by (rule map_le_trans)
      qed
    qed (use Suc.prems False in simp)
  qed (use Suc.prems in simp)
qed simp

lemma push_writes_less:
  assumes inv: "wb_inv W" and fresh: "by_hash W h = None" and run: "push_writes B iter h a g W s = (r, W', s')"
  shows "wb_get W' \<subseteq>\<^sub>m (wb_get W)(h \<mapsto> a)" "max_bytes W' = max_bytes W"
proof -
  define V where "V = wb_accept h a g W"
  have V: "wb_inv V" "wb_get V = (wb_get W)(h \<mapsto> a)" "max_bytes V = max_bytes W"
    using wb_accept_inv [OF inv fresh] by (simp_all add: V_def) (simp add: wb_accept_def Let_def)
  have "wb_get W' \<subseteq>\<^sub>m wb_get V \<and> max_bytes W' = max_bytes V"
    using run
  proof (rule push_writes_cases)
    fix r1 W1 s1
    assume one: "write_block_except B (pool_key a g) {} (wb_accept h a g W) s = (r1, W1, s1) \<or>
        r1 = Inr () \<and> W1 = wb_accept h a g W \<and> s1 = s"
      and two: "case r1 of Inl e \<Rightarrow> r = Inl e \<and> W' = W1 \<and> s' = s1 | Inr _ \<Rightarrow> evict_over_budget B iter W1 s1 = (r, W', s')"
    have inv1: "wb_inv W1" by (rule step_or_stay [OF one V(1) [unfolded V_def]])
    have less: "wb_get W1 \<subseteq>\<^sub>m wb_get V" "max_bytes W1 = max_bytes V"
      by (use one write_block_less [OF V(1), of B "pool_key a g" "{}" s r1 W1 s1]
          write_block_inv(2) [OF V(1), of B "pool_key a g" "{}" s r1 W1 s1] in \<open>auto simp: V_def\<close>)
    show ?thesis
    proof (cases r1)
      case (Inl e)
      then show ?thesis using two less by simp
    next
      case (Inr u)
      then have ev: "evict_over_budget B iter W1 s1 = (r, W', s')" using two by simp
      show ?thesis
        using evict_loop_less [OF inv1 ev [unfolded evict_over_budget_def]] less map_le_trans evict_over_budget_inv(2) [OF inv1 ev] by auto
    qed
  qed
  then show "wb_get W' \<subseteq>\<^sub>m (wb_get W)(h \<mapsto> a)" "max_bytes W' = max_bytes W" using V by simp_all
qed

text \<open>A push that fails takes its own array out again, so it never leaves more than it found.\<close>

lemma wb_push_bytes:
  assumes iter: "lawful iter" and inv: "wb_inv W" and fresh: "\<not> wb_contains W h" and run: "wb_push B iter h a g W s = (r, W', s')"
  shows "max_bytes W' = max_bytes W" "case r of Inr _ \<Rightarrow> wb_bytes W' \<le> max_bytes W' | Inl _ \<Rightarrow> wb_bytes W' \<le> wb_bytes W"
proof -
  obtain q V t where push: "push_writes B iter h a g W s = (q, V, t)" by (metis prod_cases3)
  note none = not_contains [OF fresh]
  note less = push_writes_less [OF inv none push]
  have V: "wb_inv V" by (rule push_writes_inv [OF inv none push])
  have out: "case q of Inr _ \<Rightarrow> r = Inr () \<and> W' = V | Inl e \<Rightarrow> r = Inl e \<and> W' = snd (wb_remove h V)"
    using run push by (auto simp: wb_push_writes split: sum.splits)
  have kept: "max_bytes (snd (wb_remove h V)) = max_bytes V"
    by (auto simp: wb_remove_def Let_def split: option.splits)
  then show "max_bytes W' = max_bytes W" using out less(2) by (cases q) auto
  show "case r of Inr _ \<Rightarrow> wb_bytes W' \<le> max_bytes W' | Inl _ \<Rightarrow> wb_bytes W' \<le> wb_bytes W"
  proof (cases q)
    case (Inl e)
    have "wb_get W' \<subseteq>\<^sub>m wb_get W"
    proof -
      have "wb_get W h = None" using wb_contains_get [OF inv] fresh by simp
      moreover have "wb_get W' = (wb_get V)(h := None)" using out Inl wb_remove_inv(2) [OF V] by simp
      ultimately show ?thesis using less(1) by (fastforce simp: map_le_def dom_def)
    qed
    then show ?thesis using out Inl wb_bytes_mono [OF inv] wb_remove_inv(1) [OF V, of h] by simp
  next
    case (Inr u)
    then have "push_writes B iter h a g W s = (Inr (), V, t)" using push by simp
    from push_writes_budget [OF iter inv none this] show ?thesis using out Inr by simp
  qed
qed

section \<open>A write of everything\<close>

lemma write_blocks_done:
  assumes "wb_inv W" "write_blocks B skip keys W s = (Inr u, W', s')"
  shows "in_pool W' k h \<longleftrightarrow> in_pool W k h \<and> (k \<in> set keys \<longrightarrow> h \<in> skip)"
  using assms
proof (induction keys arbitrary: W s)
  case (Cons key keys)
  obtain r1 W1 s1 where one: "write_block_except B key skip W s = (r1, W1, s1)" by (metis prod_cases3)
  then have ok: "write_block_except B key skip W s = (Inr (), W1, s1)" using Cons.prems(2) by (cases r1) auto
  have "write_blocks B skip keys W1 s1 = (Inr u, W', s')" using Cons.prems(2) ok by simp
  then show ?case
    using Cons.IH [OF write_block_ok(1) [OF Cons.prems(1) ok]] write_block_ok(6) [OF Cons.prems(1) ok] by auto
qed simp

lemma contains_in_pool: "wb_inv W \<Longrightarrow> wb_contains W h \<longleftrightarrow> (\<exists>key. in_pool W key h)"
  using in_pool_iff [of W _ h] by (cases "by_hash W h") (auto simp: wb_contains_def)

lemma write_all_except_done:
  assumes "lawful iter" "wb_inv W" "write_all_except B iter skip W s = (Inr u, W', s')"
  shows "wb_contains W' h \<longleftrightarrow> wb_contains W h \<and> h \<in> skip"
proof -
  have inv': "wb_inv W'" using write_blocks_inv [OF assms(2) assms(3) [unfolded write_all_except_def]] by simp
  have "in_pool W key h \<Longrightarrow> key \<in> set (iter (blocks W))" for key
    using assms(1) wb_invD(1) [OF assms(2)] by (cases "blocks W key") (auto simp: lawful_def in_pool_def)
  then show ?thesis
    using write_blocks_done [OF assms(2) assms(3) [unfolded write_all_except_def], of _ h]
    by (auto simp: contains_in_pool [OF assms(2)] contains_in_pool [OF inv'])
qed

lemma holding_keys_in: "key \<in> set (holding_keys W keys hs) \<longleftrightarrow> key \<in> set keys \<or> (\<exists>h \<in> set hs. \<exists>i. by_hash W h = Some (key, i))"
proof (induction hs arbitrary: keys)
  case (Cons h hs)
  show ?case
  proof (cases "by_hash W h")
    case (Some ki)
    then show ?thesis using Cons.IH by (cases ki) auto
  qed (use Cons.IH in simp)
qed simp

lemma write_holding_done:
  assumes inv: "wb_inv W" and run: "write_holding B hashes W s = (Inr u, W', s')" and h: "h \<in> set hashes"
  shows "\<not> wb_contains W' h"
proof
  assume in': "wb_contains W' h"
  have inv': "wb_inv W'" using write_blocks_inv [OF inv run [unfolded write_holding_def]] by simp
  note written = write_blocks_done [OF inv run [unfolded write_holding_def], of _ h]
  obtain key where "in_pool W' key h" using in' contains_in_pool [OF inv'] by blast
  then have "in_pool W key h" "key \<notin> set (holding_keys W [] hashes)" using written by auto
  then show False using in_pool_iff [OF inv, of key h] h by (auto simp: holding_keys_in)
qed

section \<open>The in-memory backend keeps the contract\<close>

definition mem_ops :: "memory_backend backend_ops" where
  "mem_ops = \<lparr>b_contains = mem_contains, b_has_pack_group = (\<lambda>_ _ _ _ _. False), b_put = mem_put_array,
     b_put_block = put_packed_block mem_put_array, b_remove = mem_remove_array\<rparr>"

lemma mem_put_array_ok: "\<exists>new. fst (mem_put_array s h a g l) = Inr new"
  using memory.put_result by blast

lemma mem_put_block_ok: "\<exists>flags. fst (put_packed_block mem_put_array s block g) = Inr flags"
  using memory.put_packed_block by blast

interpretation mem_store: block_store mem_ops arrays
proof
  fix s h c a g l new s' e block flags
  show "b_contains mem_ops s h = Inr c \<Longrightarrow> c \<longleftrightarrow> arrays s h \<noteq> None"
    by (auto simp: mem_ops_def mem_contains_def)
  show "b_put mem_ops s h a g l = (Inr new, s') \<Longrightarrow> arrays s' = add_new (arrays s) [(h, a)]"
    using memory.put_stored [of s h a g l] by (auto simp: mem_ops_def)
  show "b_put mem_ops s h a g l = (Inl e, s') \<Longrightarrow> arrays s' = arrays s"
    using mem_put_array_ok [of s h a g l] by (auto simp: mem_ops_def)
  show "b_put_block mem_ops s block g = (Inr flags, s') \<Longrightarrow> arrays s' = add_new (arrays s) block"
    using memory.put_packed_block [of s block g] by (auto simp: mem_ops_def)
  show "b_put_block mem_ops s block g = (Inl e, s') \<Longrightarrow> arrays s' = arrays s"
    using mem_put_block_ok [of s block g] by (auto simp: mem_ops_def)
  show "arrays (snd (b_remove mem_ops s h)) = (arrays s)(h := None)"
    using memory.remove_stored [of s h] by (simp add: mem_ops_def)
qed

section \<open>Runs of the buffer\<close>

text \<open>A push is made only for a hash that neither the buffer nor the backend holds.\<close>

inductive wb_reachable ::
  "'s backend_ops \<Rightarrow> ('s \<Rightarrow> hash \<rightharpoonup> typed_array) \<Rightarrow> iteration \<Rightarrow> write_buffer \<Rightarrow> 's \<Rightarrow> bool"
  for B stored iter where
  run_new: "wb_reachable B stored iter wb_new s"
| run_push: "wb_reachable B stored iter W s \<Longrightarrow> \<not> wb_contains W h \<Longrightarrow> stored s h = None \<Longrightarrow>
    wb_push B iter h a g W s = (r, W', s') \<Longrightarrow> wb_reachable B stored iter W' s'"
| run_remove: "wb_reachable B stored iter W s \<Longrightarrow> wb_reachable B stored iter (snd (wb_remove h W)) s"
| run_budget: "wb_reachable B stored iter W s \<Longrightarrow> set_max_bytes B iter n W s = (r, W', s') \<Longrightarrow>
    wb_reachable B stored iter W' s'"
| run_write: "wb_reachable B stored iter W s \<Longrightarrow> write_all_except B iter skip W s = (r, W', s') \<Longrightarrow>
    wb_reachable B stored iter W' s'"
| run_holding: "wb_reachable B stored iter W s \<Longrightarrow> write_holding B hashes W s = (r, W', s') \<Longrightarrow>
    wb_reachable B stored iter W' s'"

lemma wb_get_max_bytes: "wb_get (W\<lparr>max_bytes := n\<rparr>) = wb_get W"
  by (intro ext) (auto simp: wb_get_def split: option.splits)

lemma wb_new_inv: "wb_inv wb_new"
  by (simp add: wb_inv_def wb_new_def positions_def)

lemma reachable_inv: "wb_reachable B stored iter W s \<Longrightarrow> wb_inv W"
proof (induction rule: wb_reachable.induct)
  case (run_push W s h a g r W' s')
  from wb_push_inv [OF run_push.IH not_contains [OF run_push.hyps(2)] run_push.hyps(4)] show ?case .
next
  case (run_budget W s n r W' s')
  from set_max_bytes_inv(1) [OF run_budget.IH run_budget.hyps(2)] show ?case .
next
  case (run_write W s skip r W' s')
  from write_blocks_inv [OF run_write.IH run_write.hyps(2) [unfolded write_all_except_def]] show ?case by simp
next
  case (run_holding W s hashes r W' s')
  from write_blocks_inv [OF run_holding.IH run_holding.hyps(2) [unfolded write_holding_def]] show ?case by simp
qed (simp_all add: wb_new_inv wb_remove_inv)

context block_store
begin

lemma reachable_apart: "wb_reachable B stored iter W s \<Longrightarrow> apart (stored s) W"
proof (induction rule: wb_reachable.induct)
  case (run_new s)
  then show ?case by (simp add: apart_def wb_get_def wb_new_def)
next
  case (run_push W s h a g r W' s')
  from wb_push_contents [OF reachable_inv [OF run_push.hyps(1)] run_push.IH run_push.hyps(2-4)] show ?case by simp
next
  case (run_remove W s h)
  then show ?case using wb_remove_inv(2) [OF reachable_inv [OF run_remove.hyps]] by (simp add: apart_def)
next
  case (run_budget W s n r W' s')
  have "wb_inv (W\<lparr>max_bytes := n\<rparr>)" "apart (stored s) (W\<lparr>max_bytes := n\<rparr>)"
    using reachable_inv [OF run_budget.hyps(1)] run_budget.IH
    by (simp_all add: wb_inv_def apart_def wb_get_max_bytes)
  from evict_loop_contents [OF this run_budget.hyps(2) [unfolded set_max_bytes_def evict_over_budget_def]]
  show ?case by simp
next
  case (run_write W s skip r W' s')
  from write_blocks_contents [OF reachable_inv [OF run_write.hyps(1)] run_write.IH
      run_write.hyps(2) [unfolded write_all_except_def]] show ?case by simp
next
  case (run_holding W s hashes r W' s')
  from write_blocks_contents [OF reachable_inv [OF run_holding.hyps(1)] run_holding.IH
      run_holding.hyps(2) [unfolded write_holding_def]] show ?case by simp
qed

end

section \<open>Properties\<close>

text \<open>An iteration order for the concrete runs: some order of the keys.\<close>

definition some_order :: iteration where
  "some_order m = (SOME keys. distinct keys \<and> set keys = dom m)"

lemma lawful_some_order: "lawful some_order"
proof -
  have "distinct (some_order m) \<and> set (some_order m) = dom m" if "finite (dom m)" for m :: "pool_key \<rightharpoonup> block"
    unfolding some_order_def using someI_ex [OF finite_distinct_list [OF that]] by (simp add: conj_commute)
  then show ?thesis by (simp add: lawful_def)
qed

definition demo_buffer :: write_buffer where
  "demo_buffer = wb_accept [1] demo_array (Regular (Months 1)) wb_new"

lemma demo_push: "wb_push mem_ops some_order [1] demo_array (Regular (Months 1)) wb_new s = (Inr (), demo_buffer, s)"
proof -
  have "\<not> width_cap wb_new U8 [3] 2 \<le> 1"
    by (simp add: width_cap_def Let_def saturating_mul_def element_block_bytes_def dtype_size.simps wb_new_def
        MAX_PENDING_BYTES_def resolve_dataset_cols_def MAX_CHUNK_BYTES_def usize_max_def wrapping_def clamp_nat_def)
  moreover have "arr_dtype demo_array = U8" "element_shape demo_array = [3]" "ta_length demo_array = 2"
    by (simp_all add: demo_array_def element_shape_def ta_length_def)
  moreover have "length (b_hashes (the (blocks demo_buffer (pool_key demo_array (Regular (Months 1)))))) = 1"
    and "wb_bytes demo_buffer \<le> max_bytes demo_buffer"
    by (simp_all add: demo_buffer_def wb_accept_def Let_def wb_new_def empty_block_def demo_array_def MAX_PENDING_BYTES_def)
  ultimately show ?thesis
    by (simp add: wb_push_def Let_def evict_over_budget_def flip: demo_buffer_def)
qed

text \<open>C16: in every state the write buffer can reach, over any backend and whatever writes fail, no block
  is empty, each block's hashes and arrays have one length and its arrays lie in the pool it is keyed
  by, the index by hash holds exactly the positions in the blocks, and both byte counts are exact.\<close>

theorem write_buffer_invariant:
  assumes "wb_reachable B stored iter W s"
  shows "finite (dom (blocks W)) \<and>
    (\<forall>key b. blocks W key = Some b \<longrightarrow> b_hashes b \<noteq> [] \<and> length (b_arrays b) = length (b_hashes b) \<and>
       b_bytes b = sum_list (map (\<lambda>a. length (bytes a)) (b_arrays b)) \<and>
       list_all (\<lambda>a. pool_key a (key_group key) = key) (b_arrays b)) \<and>
    (\<forall>h key i. by_hash W h = Some (key, i) \<longleftrightarrow>
       (\<exists>b. blocks W key = Some b \<and> i < length (b_hashes b) \<and> b_hashes b ! i = h)) \<and>
    wb_bytes W = (\<Sum>key\<in>dom (blocks W). b_bytes (the (blocks W key)))"
proof (intro conjI allI impI)
  note inv = reachable_inv [OF assms]
  show "finite (dom (blocks W))" "wb_bytes W = (\<Sum>key\<in>dom (blocks W). b_bytes (the (blocks W key)))"
    by (rule wb_invD [OF inv])+
  fix h key i b
  show "by_hash W h = Some (key, i) \<longleftrightarrow>
      (\<exists>b. blocks W key = Some b \<and> i < length (b_hashes b) \<and> b_hashes b ! i = h)"
    unfolding wb_invD(3) [OF inv] by (cases "blocks W key") (auto simp: positions_def get_at_Some)
  assume "blocks W key = Some b"
  then have "wf_block key b" by (rule wb_invD(2) [OF inv])
  then show "b_hashes b \<noteq> []" "length (b_arrays b) = length (b_hashes b)"
    "b_bytes b = sum_list (map (\<lambda>a. length (bytes a)) (b_arrays b))"
    "list_all (\<lambda>a. pool_key a (key_group key) = key) (b_arrays b)"
    by (simp_all add: wf_block_def arrays_bytes_def)
qed

theorem write_buffer_invariant_witness:
  "wb_reachable mem_ops arrays some_order demo_buffer memory_new \<and>
   wb_bytes demo_buffer = (\<Sum>key\<in>dom (blocks demo_buffer). b_bytes (the (blocks demo_buffer key)))"
proof -
  have "wb_reachable mem_ops arrays some_order demo_buffer memory_new"
    by (rule run_push [OF run_new _ _ demo_push]) (simp_all add: wb_contains_def wb_new_def memory_new_def)
  with write_buffer_invariant [OF this] show ?thesis by blast
qed

text \<open>C17: the byte budget holds. A push that reports success leaves the buffer within its budget; one that
  fails, at whichever write, never leaves more bytes in it than it found, so a buffer within its budget
  stays within it after any push. A change of the budget that succeeds has written the buffer down to the
  new figure, and one that fails has not grown it. The eviction loop ends after at most one turn per block.\<close>

theorem write_buffer_budget:
  assumes "wb_reachable B stored iter W s" "lawful iter"
  shows "(\<not> wb_contains W h \<longrightarrow> wb_push B iter h a g W s = (r1, W1, s1) \<longrightarrow>
      max_bytes W1 = max_bytes W \<and>
      (case r1 of Inr _ \<Rightarrow> wb_bytes W1 \<le> max_bytes W1 | Inl _ \<Rightarrow> wb_bytes W1 \<le> wb_bytes W) \<and>
      (wb_bytes W \<le> max_bytes W \<longrightarrow> wb_bytes W1 \<le> max_bytes W1)) \<and>
    (set_max_bytes B iter n W s = (r2, W2, s2) \<longrightarrow>
      max_bytes W2 = n \<and> (case r2 of Inr _ \<Rightarrow> wb_bytes W2 \<le> n | Inl _ \<Rightarrow> wb_bytes W2 \<le> wb_bytes W))"
proof -
  note inv = reachable_inv [OF assms(1)]
  have push: "max_bytes W1 = max_bytes W \<and>
      (case r1 of Inr _ \<Rightarrow> wb_bytes W1 \<le> max_bytes W1 | Inl _ \<Rightarrow> wb_bytes W1 \<le> wb_bytes W) \<and>
      (wb_bytes W \<le> max_bytes W \<longrightarrow> wb_bytes W1 \<le> max_bytes W1)"
    if "\<not> wb_contains W h" "wb_push B iter h a g W s = (r1, W1, s1)"
    using wb_push_bytes [OF assms(2) inv that] by (auto split: sum.splits)
  have set: "max_bytes W2 = n \<and> (case r2 of Inr _ \<Rightarrow> wb_bytes W2 \<le> n | Inl _ \<Rightarrow> wb_bytes W2 \<le> wb_bytes W)"
    if set: "set_max_bytes B iter n W s = (r2, W2, s2)"
  proof -
    have V: "wb_inv (W\<lparr>max_bytes := n\<rparr>)" using inv by (simp add: wb_inv_def)
    note kept = set_max_bytes_inv [OF inv set]
    show ?thesis
    proof (cases r2)
      case (Inl e)
      have "wb_get W2 \<subseteq>\<^sub>m wb_get W"
        using evict_loop_less [OF V set [unfolded set_max_bytes_def evict_over_budget_def]] by (simp add: wb_get_max_bytes)
      then show ?thesis using wb_bytes_mono [OF inv kept(1)] kept(2) Inl by simp
    next
      case (Inr u)
      then show ?thesis
        using evict_over_budget_budget [OF assms(2) V, of B s W2 s2] set kept(2) by (simp add: set_max_bytes_def)
    qed
  qed
  from push set show ?thesis by blast
qed

theorem write_buffer_budget_witness:
  "wb_push mem_ops some_order [1] demo_array (Regular (Months 1)) wb_new memory_new = (Inr (), demo_buffer, memory_new) \<and>
   wb_bytes demo_buffer \<le> max_bytes demo_buffer"
proof -
  have "\<not> wb_contains wb_new [1]" by (simp add: wb_contains_def wb_new_def)
  then show ?thesis
    using write_buffer_budget [OF run_new [of mem_ops arrays some_order memory_new] lawful_some_order] demo_push [of memory_new]
    by fastforce
qed

text \<open>C15: the buffer over a backend refines one store of arrays: what it holds is the buffered arrays
  together with the stored ones. Over every backend whose failed writes store nothing, a push that succeeds
  adds exactly its array and one that fails leaves the contents as they were, wherever the failure struck;
  removing a buffered array takes exactly that array out, and removing any other hash changes nothing;
  writing everything but some hashes, writing the blocks that hold given hashes and changing the budget
  leave the contents as they are, whether or not they fail. After a write that succeeds, only the hashes
  it was told to skip, or none of those it was given, are still buffered.\<close>

theorem write_buffer_contents:
  assumes "block_store B stored" "wb_reachable B stored iter W s" "lawful iter"
  shows "(\<not> wb_contains W h \<longrightarrow> stored s h = None \<longrightarrow> wb_push B iter h a g W s = (r1, W1, s1) \<longrightarrow>
      contents (stored s1) W1 =
        (case r1 of Inr _ \<Rightarrow> (contents (stored s) W)(h \<mapsto> a) | Inl _ \<Rightarrow> contents (stored s) W)) \<and>
    (wb_remove h W = (held, W2) \<longrightarrow> held = wb_contains W h \<and>
      contents (stored s) W2 = (if held then (contents (stored s) W)(h := None) else contents (stored s) W)) \<and>
    (write_all_except B iter skip W s = (r3, W3, s3) \<longrightarrow>
      contents (stored s3) W3 = contents (stored s) W \<and>
      (r3 = Inr () \<longrightarrow> (\<forall>h. wb_contains W3 h \<longleftrightarrow> wb_contains W h \<and> h \<in> skip))) \<and>
    (write_holding B hashes W s = (r4, W4, s4) \<longrightarrow>
      contents (stored s4) W4 = contents (stored s) W \<and>
      (r4 = Inr () \<longrightarrow> (\<forall>h \<in> set hashes. \<not> wb_contains W4 h))) \<and>
    (set_max_bytes B iter n W s = (r5, W5, s5) \<longrightarrow> contents (stored s5) W5 = contents (stored s) W)"
proof -
  note inv = reachable_inv [OF assms(2)] and apart = block_store.reachable_apart [OF assms(1,2)]
  have push: "contents (stored s1) W1 =
      (case r1 of Inr _ \<Rightarrow> (contents (stored s) W)(h \<mapsto> a) | Inl _ \<Rightarrow> contents (stored s) W)"
    if "\<not> wb_contains W h" "stored s h = None" "wb_push B iter h a g W s = (r1, W1, s1)"
    using block_store.wb_push_contents [OF assms(1) inv apart that] by simp
  have removed: "held = wb_contains W h \<and>
      contents (stored s) W2 = (if held then (contents (stored s) W)(h := None) else contents (stored s) W)"
    if "wb_remove h W = (held, W2)"
    using wb_remove_inv [OF inv, of h] that apart wb_contains_get [OF inv, of h]
    by (auto simp: contents_def apart_def wb_contains_def map_add_def fun_eq_iff split: option.splits)
  have all: "contents (stored s3) W3 = contents (stored s) W \<and>
      (r3 = Inr () \<longrightarrow> (\<forall>h. wb_contains W3 h \<longleftrightarrow> wb_contains W h \<and> h \<in> skip))"
    if w: "write_all_except B iter skip W s = (r3, W3, s3)"
    using block_store.write_blocks_contents [OF assms(1) inv apart w [unfolded write_all_except_def]]
      write_all_except_done [OF assms(3) inv, of B skip s "()" W3 s3] w by auto
  have holding: "contents (stored s4) W4 = contents (stored s) W \<and> (r4 = Inr () \<longrightarrow> (\<forall>h \<in> set hashes. \<not> wb_contains W4 h))"
    if w: "write_holding B hashes W s = (r4, W4, s4)"
    using block_store.write_blocks_contents [OF assms(1) inv apart w [unfolded write_holding_def]]
      write_holding_done [OF inv, of B hashes s "()" W4 s4] w by auto
  have budget: "contents (stored s5) W5 = contents (stored s) W" if w: "set_max_bytes B iter n W s = (r5, W5, s5)"
  proof -
    have "wb_inv (W\<lparr>max_bytes := n\<rparr>)" "apart (stored s) (W\<lparr>max_bytes := n\<rparr>)"
      using inv apart by (simp_all add: wb_inv_def apart_def wb_get_max_bytes)
    note block_store.evict_loop_contents [OF assms(1) this w [unfolded set_max_bytes_def evict_over_budget_def]]
    moreover
    have "contents (stored s) (W\<lparr>max_bytes := n\<rparr>) = contents (stored s) W"
      by (rule ext) (simp add: contents_def wb_get_max_bytes)
    ultimately show ?thesis by simp
  qed
  from push removed all holding budget show ?thesis by simp
qed

theorem write_buffer_contents_witness:
  "contents (arrays memory_new) demo_buffer = (contents (arrays memory_new) wb_new)([1] \<mapsto> demo_array) \<and>
   contents (arrays memory_new) (snd (wb_remove [1] demo_buffer)) = (contents (arrays memory_new) demo_buffer)([1] := None)"
proof -
  have fresh: "\<not> wb_contains wb_new [1]" "arrays memory_new [1] = None"
    by (simp_all add: wb_contains_def wb_new_def memory_new_def)
  have pushed: "contents (arrays memory_new) demo_buffer = (contents (arrays memory_new) wb_new)([1] \<mapsto> demo_array)"
    using fresh write_buffer_contents [OF mem_store.block_store_axioms run_new [of mem_ops arrays some_order memory_new]
      lawful_some_order] demo_push [of memory_new] by fastforce
  have reach: "wb_reachable mem_ops arrays some_order demo_buffer memory_new"
    by (rule run_push [OF run_new [of mem_ops arrays some_order memory_new] fresh demo_push])
  have held: "wb_contains demo_buffer [1]" by (simp add: demo_buffer_def wb_accept_def wb_contains_def Let_def)
  obtain h W where "wb_remove [1] demo_buffer = (h, W)" by fastforce
  with write_buffer_contents [OF mem_store.block_store_axioms reach lawful_some_order] held pushed show ?thesis by auto
qed

end
