(* ===== verification/StoreArrays.thy ===== *)
theory StoreArrays
  imports ForecastReads WriteBufferRuns
begin

text \<open>
  The array store as \<open>Store\<close> of \<open>crates/infrastore-core/src/store.rs\<close> sees it: inside a transaction
  a packed array waits in the write buffer, so every read and write looks there first and goes to
  the backend (here the in-memory one) for the rest. A read that fills a caller's buffer returns
  what it left there.
\<close>

section \<open>State and single-array operations\<close>

record array_store =
  as_buffer :: write_buffer
  as_backend :: memory_backend
  as_in_transaction :: bool

definition store_holds_array :: "array_store \<Rightarrow> hash \<Rightarrow> bool result" where
  "store_holds_array S h = (if wb_contains (as_buffer S) h then Inr True else mem_contains (as_backend S) h)"

definition store_put_array ::
    "iteration \<Rightarrow> array_store \<Rightarrow> hash \<Rightarrow> typed_array \<Rightarrow> pack_group \<Rightarrow> array_layout \<Rightarrow> bool result \<times> array_store" where
  "store_put_array iter S h a g layout =
     (case store_holds_array S h of
        Inl e \<Rightarrow> (Inl e, S)
      | Inr held \<Rightarrow>
          if held then (Inr False, S)
          else if is_packed layout \<and> as_in_transaction S
          then (case wb_push mem_ops iter h a g (as_buffer S) (as_backend S) of
                  (Inl e, W, s) \<Rightarrow> (Inl e, S\<lparr>as_buffer := W, as_backend := s\<rparr>)
                | (Inr _, W, s) \<Rightarrow> (Inr True, S\<lparr>as_buffer := W, as_backend := s\<rparr>))
          else (case mem_put_array (as_backend S) h a g layout of (r, s) \<Rightarrow> (r, S\<lparr>as_backend := s\<rparr>)))"

definition store_remove_array :: "array_store \<Rightarrow> hash \<Rightarrow> unit result \<times> array_store" where
  "store_remove_array S h =
     (case wb_remove h (as_buffer S) of
        (True, W) \<Rightarrow> (Inr (), S\<lparr>as_buffer := W\<rparr>)
      | (False, W) \<Rightarrow>
          (case mem_remove_array (as_backend S) h of (r, s) \<Rightarrow> (r, S\<lparr>as_buffer := W, as_backend := s\<rparr>)))"

text \<open>Flushing the in-memory backend does nothing.\<close>

definition store_flush_arrays :: "iteration \<Rightarrow> array_store \<Rightarrow> unit result \<times> array_store" where
  "store_flush_arrays iter S =
     (case write_all mem_ops iter (as_buffer S) (as_backend S) of
        (r, W, s) \<Rightarrow> (r, S\<lparr>as_buffer := W, as_backend := s\<rparr>))"

definition store_get_array :: "array_store \<Rightarrow> hash \<Rightarrow> dtype \<Rightarrow> typed_array result" where
  "store_get_array S h d =
     (case wb_get (as_buffer S) h of
        Some a \<Rightarrow> rbind (check_dtype (arr_dtype a) d) (\<lambda>_. Inr a)
      | None \<Rightarrow> mem_get_array (as_backend S) h d)"

definition store_get_slice :: "array_store \<Rightarrow> get_slice" where
  "store_get_slice S h d rng =
     (case wb_get (as_buffer S) h of
        Some a \<Rightarrow> rbind (raise (check_dtype (arr_dtype a) d)) (\<lambda>_. slice_axis a 0 rng)
      | None \<Rightarrow> mem_get_slice (as_backend S) h d rng)"

definition store_array_shape :: "array_store \<Rightarrow> hash \<Rightarrow> nat list result" where
  "store_array_shape S h =
     (case wb_get (as_buffer S) h of
        Some a \<Rightarrow> Inr (shape a)
      | None \<Rightarrow> mem_array_shape (as_backend S) h)"

definition store_window_block_into :: "array_store \<Rightarrow> block_read" where
  "store_window_block_into S h d axis start n out =
     (case wb_get (as_buffer S) h of
        Some a \<Rightarrow>
          (case check_dtype (arr_dtype a) d of
             Inl e \<Rightarrow> (out, Inl (Raised e))
           | Inr _ \<Rightarrow>
               (case write_window_block a axis start n [] of
                  Inl e \<Rightarrow> ([], Inl e)
                | Inr block \<Rightarrow> (block, Inr ())))
      | None \<Rightarrow> window_block_into (mem_get_array (as_backend S)) h d axis start n out)"

definition read_forecast_windows ::
    "array_store \<Rightarrow> hash \<Rightarrow> dtype \<Rightarrow> nat list \<Rightarrow> nat \<Rightarrow> nat \<Rightarrow> nat \<Rightarrow> ts_error failure + typed_array" where
  "read_forecast_windows S h d s axis w0 w1 =
     (if length s \<le> axis then Inl Panicked
      else if w0 = 0 \<and> w1 = s ! axis then raise (store_get_array S h d)
      else case store_window_block_into S h d axis w0 (w1 - w0) [] of
             (_, Inl e) \<Rightarrow> Inl e
           | (bs, Inr _) \<Rightarrow> raise (map_err IntegrityError (ta_new d (s[axis := w1 - w0]) bs)))"

section \<open>Batches\<close>

definition buffers_any :: "array_store \<Rightarrow> hash list \<Rightarrow> bool" where
  "buffers_any S hs = list_ex (wb_contains (as_buffer S)) hs"

definition store_ranges_into :: "array_store \<Rightarrow> range_read" where
  "store_ranges_into S hs ds rngs =
     (if \<not> buffers_any S hs then ranges_into (mem_get_slice (as_backend S)) hs ds rngs
      else ranges_into (store_get_slice S) hs ds rngs)"

fun merge_arrays :: "write_buffer \<Rightarrow> (hash \<times> dtype) list \<Rightarrow> typed_array list \<Rightarrow> typed_array list result" where
  "merge_arrays W [] from_file = Inr []"
| "merge_arrays W ((h, d) # rest) from_file =
     (case wb_get W h of
        Some a \<Rightarrow> rbind (check_dtype (arr_dtype a) d) (\<lambda>_. rbind (merge_arrays W rest from_file) (\<lambda>as. Inr (a # as)))
      | None \<Rightarrow>
          (case from_file of
             [] \<Rightarrow> Inl (IntegrityError ''fewer arrays returned than hashes asked for'')
           | f # fs \<Rightarrow> rbind (merge_arrays W rest fs) (\<lambda>as. Inr (f # as))))"

definition store_read_arrays :: "array_store \<Rightarrow> hash list \<Rightarrow> dtype list \<Rightarrow> typed_array list result" where
  "store_read_arrays S hs ds =
     (if \<not> buffers_any S hs then read_arrays (mem_get_array (as_backend S)) hs ds
      else if length ds \<noteq> length hs then Inl (InvalidParameter ''as many dtypes as hashes'')
      else let file = filter (\<lambda>(h, d). \<not> wb_contains (as_buffer S) h) (zip hs ds)
           in rbind (read_arrays (mem_get_array (as_backend S)) (map fst file) (map snd file))
                (merge_arrays (as_buffer S) (zip hs ds)))"

datatype rows = UniformRows nat | PerColumnRows "nat list"

fun row_of :: "rows \<Rightarrow> nat \<Rightarrow> ts_error failure + nat" where
  "row_of (UniformRows index) i = Inr index"
| "row_of (PerColumnRows indices) i = ok_or (get_at indices i) Panicked"

fun backend_rows_into :: "memory_backend \<Rightarrow> dtype \<Rightarrow> hash list \<Rightarrow> rows \<Rightarrow> byte list \<times> (ts_error failure + unit)" where
  "backend_rows_into s d hs (UniformRows index) = index_into (mem_get_slice s) hs d index []"
| "backend_rows_into s d hs (PerColumnRows indices) = indices_into (mem_get_slice s) hs d indices []"

text \<open>The first pass: the columns the file holds, and the size of a block from the first buffered one.\<close>

fun split_columns ::
    "write_buffer \<Rightarrow> dtype \<Rightarrow> rows \<Rightarrow> nat \<Rightarrow> hash list \<Rightarrow> nat option \<Rightarrow>
     ts_error failure + (nat option \<times> (hash \<times> nat) list)" where
  "split_columns W d rows i [] block = Inr (block, [])"
| "split_columns W d rows i (h # hs) block =
     (case wb_get W h of
        Some a \<Rightarrow>
          rbind (raise (check_dtype (arr_dtype a) d)) (\<lambda>_.
            split_columns W d rows (i + 1) hs
              (case block of
                 None \<Rightarrow> Some (wrapping (max (wrapping (prod_list (element_shape a))) 1 * dtype_size d))
               | Some b \<Rightarrow> Some b))
      | None \<Rightarrow>
          rbind (row_of rows i) (\<lambda>row.
          rbind (split_columns W d rows (i + 1) hs block) (\<lambda>(block, file). Inr (block, (h, row) # file))))"

text \<open>The second pass: each column's block, out of its buffered array or the next one from the file.\<close>

fun merge_rows ::
    "write_buffer \<Rightarrow> rows \<Rightarrow> nat \<Rightarrow> nat \<Rightarrow> hash list \<Rightarrow> byte list list \<Rightarrow> byte list \<Rightarrow>
     byte list \<times> (ts_error failure + unit)" where
  "merge_rows W rows block i [] file_blocks out = (out, Inr ())"
| "merge_rows W rows block i (h # hs) file_blocks out =
     (case wb_get W h of
        Some a \<Rightarrow>
          (case row_of rows i of
             Inl e \<Rightarrow> (out, Inl e)
           | Inr row \<Rightarrow>
               if ta_length a \<le> row then (out, Inl (Raised (InvalidParameter ''index out of bounds'')))
               else if length (bytes a) < (row + 1) * block then (out, Inl Panicked)
               else merge_rows W rows block (i + 1) hs file_blocks (out @ segment (row * block) block (bytes a)))
      | None \<Rightarrow>
          (case file_blocks of
             [] \<Rightarrow> (out, Inl Panicked)
           | b # bs \<Rightarrow> merge_rows W rows block (i + 1) hs bs (out @ b)))"

definition store_rows_into :: "array_store \<Rightarrow> hash list \<Rightarrow> dtype \<Rightarrow> rows \<Rightarrow> byte list \<Rightarrow> byte list \<times> (ts_error failure + unit)" where
  "store_rows_into S hs d rows out =
     (if \<not> buffers_any S hs then backend_rows_into (as_backend S) d hs rows
      else case split_columns (as_buffer S) d rows 0 hs None of
             Inl e \<Rightarrow> (out, Inl e)
           | Inr (None, _) \<Rightarrow> (out, Inl Panicked)
           | Inr (Some block, file) \<Rightarrow>
               (case backend_rows_into (as_backend S) d (map fst file)
                       (case rows of UniformRows index \<Rightarrow> UniformRows index
                        | PerColumnRows _ \<Rightarrow> PerColumnRows (map snd file)) of
                  (_, Inl e) \<Rightarrow> (out, Inl e)
                | (from_file, Inr _) \<Rightarrow>
                    if length from_file \<noteq> length file * block
                    then (out, Inl (Raised (IntegrityError ''the backend returned the wrong number of bytes'')))
                    else if block = 0 then ([], Inl Panicked)
                    else merge_rows (as_buffer S) rows block 0 hs (chunks_exact block from_file) []))"

end
