(* ===== verification/Materialize.thy ===== *)
theory Materialize
  imports ReadWindow StoreArrays
begin

text \<open>
  Reading one series of \<open>crates/infrastore-core/src/store.rs\<close>: \<open>materialize_array\<close> builds each type
  from its catalog row and its stored array, whole or sliced to a time range; \<open>resolve_windows\<close>
  turns a range into a run of forecast windows; \<open>read_by_id\<close>, \<open>read_by_ids\<close> and the batched
  \<open>bulk_read_metas\<close> compose them. The catalog look-ups these start with are arguments. Unchecked
  arithmetic wraps, as it does in a release build.
\<close>

section \<open>Slices of a grid\<close>

definition require_anchorable_slice :: "chrono \<Rightarrow> period \<Rightarrow> datetime \<Rightarrow> nat \<Rightarrow> nat \<Rightarrow> unit result" where
  "require_anchorable_slice C p initial offset len =
     (if sub_grid_is_anchorable C p initial offset len then Inr ()
      else Inl (InvalidParameter ''slice cannot be expressed as a grid of its own''))"

definition window_at :: "chrono \<Rightarrow> period \<Rightarrow> datetime \<Rightarrow> nat \<Rightarrow> datetime result" where
  "window_at C itv initial k = ok_or (add_to C itv initial (as_i64 k)) (IntegrityError ''window timestamp overflow'')"

text \<open>The binary search for the first window at or past \<open>until\<close>.\<close>

function search_windows :: "chrono \<Rightarrow> period \<Rightarrow> datetime \<Rightarrow> datetime \<Rightarrow> nat \<Rightarrow> nat \<Rightarrow> nat result" where
  "search_windows C itv initial until lo hi =
     (if lo < hi
      then let mid = lo + (hi - lo) div 2
           in rbind (window_at C itv initial mid) (\<lambda>t.
              if t < until then search_windows C itv initial until (mid + 1) hi
              else search_windows C itv initial until lo mid)
      else Inr lo)"
  by pat_completeness auto
termination by (relation "measure (\<lambda>(C, itv, initial, until, lo, hi). hi - lo)") auto

declare search_windows.simps [simp del]

definition resolve_windows ::
    "chrono \<Rightarrow> datetime \<Rightarrow> period \<Rightarrow> nat \<Rightarrow> (datetime \<times> datetime) option \<Rightarrow> (nat \<times> nat \<times> datetime) result" where
  "resolve_windows C initial itv stored time_range =
     (case time_range of
        None \<Rightarrow> Inr (0, stored, initial)
      | Some (start, until) \<Rightarrow>
          if until < start then Inl (InvalidParameter ''end < start'')
          else if \<not> is_positive C itv
          then if stored = 1 \<and> is_zero itv
               then if initial < start then Inl (InvalidParameter ''start_time must align to a window boundary'')
                    else if initial < until then Inr (0, 1, initial) else Inr (0, 0, initial)
               else Inl (InvalidParameter ''forecast interval must be positive'')
          else rbind (if start \<le> initial then Inr 0
                      else map_err (\<lambda>_. InvalidParameter ''start_time must align to a window boundary'')
                             (steps_between C itv initial start)) (\<lambda>start_k.
               if stored \<le> start_k then Inl (InvalidParameter ''start_time is past the last window'')
               else rbind (search_windows C itv initial until start_k stored) (\<lambda>w1.
                    if w1 \<le> start_k then rbind (window_at C itv initial start_k) (\<lambda>t. Inr (0, 0, t))
                    else rbind (require_anchorable_slice C itv initial start_k (w1 - start_k)) (\<lambda>_.
                         rbind (window_at C itv initial start_k) (\<lambda>t. Inr (start_k, w1, t))))))"

definition validate_forecast_shape :: "nat list \<Rightarrow> nat list \<Rightarrow> unit result" where
  "validate_forecast_shape s expected =
     (if length s < length expected then Inl (IntegrityError ''fewer dims than the expected prefix'')
      else if \<not> list_all (\<lambda>(got, want). got = want) (zip s expected) then Inl (IntegrityError ''shape mismatch'')
      else Inr ())"

section \<open>Static series\<close>

definition row_dtype :: "ts_metadata \<Rightarrow> dtype" where
  "row_dtype m = physical_dtype (m_element_type m)"

definition single_series :: "ts_metadata \<Rightarrow> datetime \<Rightarrow> period \<Rightarrow> nat \<Rightarrow> typed_array \<Rightarrow> single_time_series" where
  "single_series m initial res len a =
     with_element_type (m_element_type m)
       (series.extend (plain_series a (m_name m)) (single_time_series.fields initial res len))"

definition slice_single ::
    "chrono \<Rightarrow> array_store \<Rightarrow> ts_metadata \<Rightarrow> datetime \<Rightarrow> period \<Rightarrow> nat \<Rightarrow> datetime \<Rightarrow> datetime \<Rightarrow>
     ts_error failure + (typed_array \<times> datetime \<times> nat)" where
  "slice_single C S m initial res len start until =
     (if until < start then Inl (Raised (InvalidParameter ''end < start''))
      else if \<not> is_positive C res then Inl (Raised (InvalidParameter ''resolution must be positive''))
      else
        let start_idx = min (floor_steps C res initial start) len;
            end_idx = max (min (ceil_steps C res initial until) len) start_idx
        in rbind (raise (require_anchorable_slice C res initial start_idx (end_idx - start_idx))) (\<lambda>_.
           rbind (store_get_slice S (m_data_hash m) (row_dtype m) (start_idx, end_idx)) (\<lambda>a.
           rbind (ok_or (add_to C res initial (as_i64 start_idx)) (Raised (IntegrityError ''sliced initial overflow'')))
             (\<lambda>at. Inr (a, at, end_idx - start_idx)))))"

definition materialize_single ::
    "chrono \<Rightarrow> array_store \<Rightarrow> ts_metadata \<Rightarrow> (datetime \<times> datetime) option \<Rightarrow> ts_error failure + time_series_data" where
  "materialize_single C S m time_range =
     rbind (raise (required_field (m_initial_timestamp m) ''initial_timestamp'')) (\<lambda>initial.
     rbind (raise (required_field (m_resolution m) ''resolution'')) (\<lambda>res.
     rbind (raise (required_field (m_length m) ''length'')) (\<lambda>len.
     rbind (case time_range of
              None \<Rightarrow> rbind (raise (store_get_array S (m_data_hash m) (row_dtype m))) (\<lambda>a. Inr (a, initial, len))
            | Some (start, until) \<Rightarrow> slice_single C S m initial res len start until)
       (\<lambda>(a, at, n). Inr (SingleData (single_series m at res n a))))))"

text \<open>The rows \<open>lo..hi\<close> of an explicit timeline; the slice of the array has checked the bounds.\<close>

definition explicit_rows ::
    "array_store \<Rightarrow> ts_metadata \<Rightarrow> datetime list \<Rightarrow> nat \<Rightarrow> nat \<Rightarrow> ts_error failure + (typed_array \<times> datetime list)" where
  "explicit_rows S m ts lo hi =
     rbind (store_get_slice S (m_data_hash m) (row_dtype m) (lo, hi)) (\<lambda>a. Inr (a, segment lo (hi - lo) ts))"

definition whole_explicit ::
    "array_store \<Rightarrow> ts_metadata \<Rightarrow> datetime list \<Rightarrow> typed_array option \<Rightarrow> ts_error failure + (typed_array \<times> datetime list)" where
  "whole_explicit S m ts prefetched =
     (case prefetched of
        Some a \<Rightarrow> Inr (a, ts)
      | None \<Rightarrow> rbind (raise (store_get_array S (m_data_hash m) (row_dtype m))) (\<lambda>a. Inr (a, ts)))"

definition explicit_timeline :: "ts_metadata \<Rightarrow> datetime list result" where
  "explicit_timeline m =
     rbind (required_field (m_timestamps m) ''timestamps'') (\<lambda>ts.
     rbind (required_field (m_length m) ''length'') (\<lambda>len.
       if length ts \<noteq> len then Inl (IntegrityError ''as many timestamps as steps'') else Inr ts))"

definition materialize_non_sequential ::
    "array_store \<Rightarrow> ts_metadata \<Rightarrow> (datetime \<times> datetime) option \<Rightarrow> typed_array option \<Rightarrow>
     ts_error failure + time_series_data" where
  "materialize_non_sequential S m time_range prefetched =
     rbind (raise (explicit_timeline m)) (\<lambda>ts.
     rbind (case time_range of
              None \<Rightarrow> whole_explicit S m ts prefetched
            | Some (start, until) \<Rightarrow>
                if until < start then Inl (Raised (InvalidParameter ''end < start''))
                else explicit_rows S m ts (partition_point (\<lambda>t. t < start) ts) (partition_point (\<lambda>t. t < until) ts))
       (\<lambda>(a, ts'). rbind (raise (map_err IntegrityError (nsts_new ts' a (m_name m))))
          (\<lambda>s. Inr (NonSequentialData s))))"

text \<open>
  A range of zero width holds no instant. Otherwise the slice begins at the breakpoint in force at
  the start of the range.
\<close>

definition persistent_range :: "datetime list \<Rightarrow> datetime \<Rightarrow> datetime \<Rightarrow> (nat \<times> nat) result" where
  "persistent_range ts start until =
     (if until < start then Inl (InvalidParameter ''end < start'')
      else if until = start
      then let at = partition_point (\<lambda>t. t < start) ts in Inr (at, at)
      else rbind (ok_or (index_at ts start) (InvalidParameter ''no value before the first breakpoint''))
             (\<lambda>start_idx. Inr (start_idx, partition_point (\<lambda>t. t < until) ts)))"

definition materialize_persistent ::
    "array_store \<Rightarrow> ts_metadata \<Rightarrow> (datetime \<times> datetime) option \<Rightarrow> typed_array option \<Rightarrow>
     ts_error failure + time_series_data" where
  "materialize_persistent S m time_range prefetched =
     rbind (raise (explicit_timeline m)) (\<lambda>ts.
     rbind (case time_range of
              None \<Rightarrow> whole_explicit S m ts prefetched
            | Some (start, until) \<Rightarrow>
                rbind (raise (persistent_range ts start until)) (\<lambda>(lo, hi). explicit_rows S m ts lo hi))
       (\<lambda>(a, ts'). rbind (raise (map_err IntegrityError (persistent_new ts' a (m_name m))))
          (\<lambda>s. Inr (PersistentData s))))"

section \<open>Forecasts\<close>

definition forecast_fields :: "ts_metadata \<Rightarrow> (datetime \<times> period \<times> period \<times> period \<times> nat) result" where
  "forecast_fields m =
     rbind (required_field (m_initial_timestamp m) ''initial_timestamp'') (\<lambda>initial.
     rbind (required_field (m_resolution m) ''resolution'') (\<lambda>res.
     rbind (required_field (m_horizon m) ''horizon'') (\<lambda>hor.
     rbind (required_field (m_interval m) ''interval'') (\<lambda>itv.
     rbind (required_field (m_count m) ''count'') (\<lambda>stored.
       Inr (initial, res, hor, itv, stored))))))"

definition selected_windows ::
    "chrono \<Rightarrow> array_store \<Rightarrow> ts_metadata \<Rightarrow> (datetime \<times> datetime) option \<Rightarrow> datetime \<Rightarrow> period \<Rightarrow> nat \<Rightarrow>
     nat list \<Rightarrow> nat \<Rightarrow> ts_error failure + (datetime \<times> nat \<times> typed_array)" where
  "selected_windows C S m time_range initial itv stored s axis =
     rbind (raise (resolve_windows C initial itv stored time_range)) (\<lambda>(w0, w1, at).
     rbind (read_forecast_windows S (m_data_hash m) (row_dtype m) s axis w0 w1) (\<lambda>a.
       Inr (at, w1 - w0, a)))"

definition materialize_deterministic ::
    "chrono \<Rightarrow> array_store \<Rightarrow> ts_metadata \<Rightarrow> (datetime \<times> datetime) option \<Rightarrow> ts_error failure + time_series_data" where
  "materialize_deterministic C S m time_range =
     rbind (raise (store_array_shape S (m_data_hash m))) (\<lambda>s.
     rbind (raise (forecast_fields m)) (\<lambda>(initial, res, hor, itv, stored).
     rbind (raise (map_err IntegrityError (compute_h C hor res))) (\<lambda>h.
     rbind (raise (validate_forecast_shape s [h, stored])) (\<lambda>_.
     rbind (selected_windows C S m time_range initial itv stored s 1) (\<lambda>(at, n, a).
     rbind (raise (map_err IntegrityError (deterministic_new C at res hor itv n a (m_name m)))) (\<lambda>d.
       Inr (DeterministicData d)))))))"

definition materialize_probabilistic ::
    "chrono \<Rightarrow> array_store \<Rightarrow> ts_metadata \<Rightarrow> (datetime \<times> datetime) option \<Rightarrow> ts_error failure + time_series_data" where
  "materialize_probabilistic C S m time_range =
     rbind (raise (store_array_shape S (m_data_hash m))) (\<lambda>s.
     rbind (raise (forecast_fields m)) (\<lambda>(initial, res, hor, itv, stored).
     rbind (raise (required_field (m_percentiles m) ''percentiles'')) (\<lambda>ps.
     rbind (raise (map_err IntegrityError (compute_h C hor res))) (\<lambda>h.
     rbind (raise (validate_forecast_shape s [length ps, h, stored])) (\<lambda>_.
     rbind (selected_windows C S m time_range initial itv stored s 2) (\<lambda>(at, n, a).
     rbind (raise (map_err IntegrityError (probabilistic_new C at res hor itv n ps a (m_name m)))) (\<lambda>d.
       Inr (ProbabilisticData d))))))))"

definition materialize_scenarios ::
    "chrono \<Rightarrow> array_store \<Rightarrow> ts_metadata \<Rightarrow> (datetime \<times> datetime) option \<Rightarrow> ts_error failure + time_series_data" where
  "materialize_scenarios C S m time_range =
     rbind (raise (store_array_shape S (m_data_hash m))) (\<lambda>s.
     rbind (raise (forecast_fields m)) (\<lambda>(initial, res, hor, itv, stored).
     rbind (raise (map_err IntegrityError (compute_h C hor res))) (\<lambda>h.
     if length s < 3 then Inl (Raised (IntegrityError ''stored shape must have at least 3 dims''))
     else
       let scenarios = s ! 0
       in rbind (raise (validate_forecast_shape s [scenarios, h, stored])) (\<lambda>_.
          rbind (selected_windows C S m time_range initial itv stored s 2) (\<lambda>(at, n, a).
          rbind (raise (map_err IntegrityError (scenarios_new C at res hor itv n scenarios a (m_name m)))) (\<lambda>d.
            Inr (ScenariosData d)))))))"

subsection \<open>A forecast derived from a single series\<close>

text \<open>\<open>out[at..at + n].copy_from_slice(..)\<close>: both slices are checked.\<close>

definition copy_block :: "byte list \<Rightarrow> nat \<Rightarrow> nat \<Rightarrow> nat \<Rightarrow> byte list \<Rightarrow> ts_error failure + byte list" where
  "copy_block src src_off n dst_off out =
     (if length src < src_off + n \<or> length out < dst_off + n then Inl Panicked
      else Inr (take dst_off out @ segment src_off n src @ drop (dst_off + n) out))"

text \<open>
  The gather: step \<open>s\<close> of selected window \<open>j\<close> is row \<open>(w0 + j) * interval_steps + s\<close> of the series,
  whose rows from \<open>lo\<close> on were fetched.
\<close>

definition gather_derived :: "byte list \<Rightarrow> nat \<Rightarrow> nat \<Rightarrow> nat \<Rightarrow> nat \<Rightarrow> nat \<Rightarrow> nat \<Rightarrow> byte list \<Rightarrow> ts_error failure + byte list" where
  "gather_derived src w0 selected h interval_steps lo elem_factor out =
     rfold (\<lambda>out (j, s).
         let src_idx = wrapping (wrapping ((w0 + j) * interval_steps) + s + (2 ^ 64 - lo));
             src_off = wrapping (src_idx * elem_factor);
             dst_off = wrapping (wrapping (wrapping (s * selected) + j) * elem_factor)
         in copy_block src src_off elem_factor dst_off out)
       out (List.product [0..<selected] [0..<h])"

definition derived_interval :: "chrono \<Rightarrow> period \<Rightarrow> period \<Rightarrow> nat \<Rightarrow> nat result" where
  "derived_interval C res itv stored =
     (if stored = 1 \<and> is_zero itv then Inr 0
      else map_err (\<lambda>_. IntegrityError ''interval is not a multiple of resolution'') (divide_into C res itv))"

definition gathered_array ::
    "array_store \<Rightarrow> ts_metadata \<Rightarrow> nat list \<Rightarrow> nat \<Rightarrow> nat \<Rightarrow> nat \<Rightarrow> nat \<Rightarrow> ts_error failure + typed_array" where
  "gathered_array S m es w0 selected h interval_steps =
     (let elem_factor = wrapping (wrapping (prod_list es) * dtype_size (row_dtype m));
          lo = wrapping (w0 * interval_steps);
          hi = (if selected = 0 then lo else wrapping (wrapping ((w0 + selected - 1) * interval_steps) + h));
          out_shape = h # selected # es
      in rbind (store_get_slice S (m_data_hash m) (row_dtype m) (lo, hi)) (\<lambda>a.
         rbind (gather_derived (bytes a) w0 selected h interval_steps lo elem_factor
             (replicate (wrapping (wrapping (prod_list out_shape) * dtype_size (row_dtype m))) 0)) (\<lambda>out.
           raise (map_err IntegrityError (ta_new (row_dtype m) out_shape out)))))"

definition materialize_derived ::
    "chrono \<Rightarrow> array_store \<Rightarrow> ts_metadata \<Rightarrow> (datetime \<times> datetime) option \<Rightarrow> ts_error failure + time_series_data" where
  "materialize_derived C S m time_range =
     rbind (raise (store_array_shape S (m_data_hash m))) (\<lambda>s.
     rbind (raise (forecast_fields m)) (\<lambda>(initial, res, hor, itv, stored).
     rbind (raise (map_err IntegrityError (compute_h C hor res))) (\<lambda>h.
     rbind (raise (derived_interval C res itv stored)) (\<lambda>interval_steps.
       let total_len = (case s of [] \<Rightarrow> 0 | n # _ \<Rightarrow> n)
       in if total_len < wrapping (wrapping ((stored - 1) * interval_steps) + h)
          then Inl (Raised (IntegrityError ''the windows exceed the underlying series''))
          else rbind (raise (resolve_windows C initial itv stored time_range)) (\<lambda>(w0, w1, at).
               rbind (gathered_array S m (tl s) w0 (w1 - w0) h interval_steps) (\<lambda>a.
               rbind (raise (map_err IntegrityError (deterministic_new C at res hor itv (w1 - w0) a (m_name m)))) (\<lambda>d.
                 Inr (DeterministicData d))))))))"

section \<open>Any series\<close>

definition checked_bounds :: "ts_metadata \<Rightarrow> time_range option \<Rightarrow> (datetime \<times> datetime) option result" where
  "checked_bounds m time_range =
     (case time_range of
        None \<Rightarrow> Inr None
      | Some r \<Rightarrow> rbind (check_against r (m_time_reference m)) (\<lambda>_. Inr (Some (range_bounds r))))"

definition materialize_array ::
    "chrono \<Rightarrow> array_store \<Rightarrow> ts_metadata \<Rightarrow> time_range option \<Rightarrow> typed_array option \<Rightarrow>
     ts_error failure + time_series_data" where
  "materialize_array C S m time_range prefetched =
     rbind (raise (checked_bounds m time_range)) (\<lambda>bounds.
       case m_type m of
         SingleTimeSeries \<Rightarrow> materialize_single C S m bounds
       | NonSequentialTimeSeries \<Rightarrow> materialize_non_sequential S m bounds prefetched
       | PersistentTimeSeries \<Rightarrow> materialize_persistent S m bounds prefetched
       | Deterministic \<Rightarrow> materialize_deterministic C S m bounds
       | Probabilistic \<Rightarrow> materialize_probabilistic C S m bounds
       | Scenarios \<Rightarrow> materialize_scenarios C S m bounds
       | DeterministicSingleTimeSeries \<Rightarrow> materialize_derived C S m bounds)"

definition descriptors_of :: "ts_metadata \<Rightarrow> descriptors" where
  "descriptors_of m =
     \<lparr>s_element_type = m_element_type m, s_units = m_units m, s_quantity_kind = m_quantity_kind m,
      s_unit_system = m_unit_system m, s_time_reference = m_time_reference m,
      s_component_field = m_component_field m, s_application_data = m_application_data m\<rparr>"

definition materialize_prefetched ::
    "chrono \<Rightarrow> array_store \<Rightarrow> ts_metadata \<Rightarrow> time_range option \<Rightarrow> typed_array option \<Rightarrow>
     ts_error failure + time_series_data" where
  "materialize_prefetched C S m time_range prefetched =
     rbind (materialize_array C S m time_range prefetched) (\<lambda>d. Inr (set_descriptors (descriptors_of m) d))"

definition materialize_time_series ::
    "chrono \<Rightarrow> array_store \<Rightarrow> ts_metadata \<Rightarrow> time_range option \<Rightarrow> ts_error failure + time_series_data" where
  "materialize_time_series C S m time_range = materialize_prefetched C S m time_range None"

section \<open>Reading by id\<close>

definition read_windowed :: "chrono \<Rightarrow> array_store \<Rightarrow> read_window_request \<Rightarrow> ts_metadata \<Rightarrow> ts_error failure + time_series_data" where
  "read_windowed C S w m =
     rbind (raise (rw_resolve C w m)) (\<lambda>range. materialize_time_series C S m range)"

definition read_by_id_inner ::
    "chrono \<Rightarrow> (int \<Rightarrow> ts_metadata option result) \<Rightarrow> array_store \<Rightarrow> int \<Rightarrow> (int \<times> owner_category) option \<Rightarrow>
     read_window_request \<Rightarrow> ts_error failure + time_series_data" where
  "read_by_id_inner C get_by_id S i expected_owner w =
     rbind (raise (get_by_id i)) (\<lambda>found.
     rbind (ok_or found (Raised NotFound)) (\<lambda>m.
       case expected_owner of
         None \<Rightarrow> read_windowed C S w m
       | Some (owner, category) \<Rightarrow>
           if m_owner_id m \<noteq> owner \<or> m_owner_category m \<noteq> category
           then Inl (Raised (OwnerMismatch i owner (owner_category_str category) (m_owner_id m) (owner_category_str (m_owner_category m))))
           else read_windowed C S w m))"

text \<open>The map of the rows found, in which a later row replaces an earlier one of the same id.\<close>

definition rows_for_ids :: "(int list \<Rightarrow> ts_metadata list result) \<Rightarrow> int list \<Rightarrow> ts_metadata list result" where
  "rows_for_ids list_by_ids ids =
     rbind (list_by_ids ids) (\<lambda>found.
       let by_id = map_of (rev (List.map_filter (\<lambda>m. map_option (\<lambda>i. (i, m)) (m_id m)) found))
       in rmap_all (\<lambda>i. ok_or (by_id i) NotFound) ids)"

fun mixed_zoning :: "bool \<Rightarrow> bool \<Rightarrow> ts_metadata list \<Rightarrow> bool" where
  "mixed_zoning zoneless zoned [] \<longleftrightarrow> False"
| "mixed_zoning zoneless zoned (m # ms) \<longleftrightarrow>
     (let zoneless' = zoneless \<or> m_time_reference m = Some Zoneless;
          zoned' = zoned \<or> m_time_reference m \<noteq> Some Zoneless
      in zoneless' \<and> zoned' \<or> mixed_zoning zoneless' zoned' ms)"

definition reject_mixed_zoning :: "ts_metadata list \<Rightarrow> unit result" where
  "reject_mixed_zoning ms =
     (if mixed_zoning False False ms then Inl (InvalidParameter ''the selection mixes zoneless series with instants'')
      else Inr ())"

fun batched :: "time_series_type \<Rightarrow> bool" where
  "batched SingleTimeSeries \<longleftrightarrow> True"
| "batched NonSequentialTimeSeries \<longleftrightarrow> True"
| "batched PersistentTimeSeries \<longleftrightarrow> True"
| "batched _ \<longleftrightarrow> False"

definition bulk_single :: "ts_metadata \<Rightarrow> typed_array \<Rightarrow> time_series_data result" where
  "bulk_single m a =
     rbind (required_field (m_initial_timestamp m) ''initial_timestamp'') (\<lambda>initial.
     rbind (required_field (m_resolution m) ''resolution'') (\<lambda>res.
     rbind (required_field (m_length m) ''length'') (\<lambda>len.
       Inr (set_descriptors (descriptors_of m) (SingleData ((sts_new initial res a (m_name m))\<lparr>series_length := len\<rparr>))))))"

fun bulk_rows :: "chrono \<Rightarrow> array_store \<Rightarrow> ts_metadata list \<Rightarrow> typed_array list \<Rightarrow> ts_error failure + time_series_data list" where
  "bulk_rows C S [] packed = Inr []"
| "bulk_rows C S (m # ms) packed =
     (if batched (m_type m)
      then (case packed of
              [] \<Rightarrow> Inl (Raised (IntegrityError ''fewer arrays returned than packed rows''))
            | a # packed' \<Rightarrow>
                rbind (if m_type m = SingleTimeSeries then raise (bulk_single m a)
                       else materialize_prefetched C S m None (Some a)) (\<lambda>d.
                rbind (bulk_rows C S ms packed') (\<lambda>ds. Inr (d # ds))))
      else rbind (materialize_time_series C S m None) (\<lambda>d.
           rbind (bulk_rows C S ms packed) (\<lambda>ds. Inr (d # ds))))"

definition bulk_read_metas :: "chrono \<Rightarrow> array_store \<Rightarrow> ts_metadata list \<Rightarrow> ts_error failure + time_series_data list" where
  "bulk_read_metas C S ms =
     (let packed = filter (\<lambda>m. batched (m_type m)) ms
      in rbind (raise (store_read_arrays S (map m_data_hash packed) (map row_dtype packed))) (bulk_rows C S ms))"

definition read_by_ids ::
    "chrono \<Rightarrow> (int list \<Rightarrow> ts_metadata list result) \<Rightarrow> array_store \<Rightarrow> int list \<Rightarrow> read_window_request \<Rightarrow>
     ts_error failure + time_series_data list" where
  "read_by_ids C list_by_ids S ids w =
     rbind (raise (rows_for_ids list_by_ids ids)) (\<lambda>ms.
       if rw_is_full w then bulk_read_metas C S ms
       else rbind (if rw_start w \<noteq> None then raise (reject_mixed_zoning ms) else Inr ()) (\<lambda>_.
            rmap_all (read_windowed C S w) ms))"

definition read_by_ids_range ::
    "chrono \<Rightarrow> (int list \<Rightarrow> ts_metadata list result) \<Rightarrow> array_store \<Rightarrow> int list \<Rightarrow> time_range \<Rightarrow>
     ts_error failure + time_series_data list" where
  "read_by_ids_range C list_by_ids S ids r =
     rbind (raise (rows_for_ids list_by_ids ids)) (\<lambda>ms.
     rbind (raise (reject_mixed_zoning ms)) (\<lambda>_.
       rmap_all (\<lambda>m. materialize_time_series C S m (Some r)) ms))"

end
