(* ===== verification/SeriesTimelines.thy ===== *)
theory SeriesTimelines
  imports TimeSeries
begin

text \<open>
  Lemmas and properties of the series types: the two grid helpers invert each other, an inferred
  grid materialises to the vector it was inferred from, a persistent series is a step function, the
  windows of a forecast lie on its two grids, and the values a series was built from are read back.
\<close>

section \<open>Type codes\<close>

lemma type_code_simps [simp]: "type_from_code (type_code t) = Some t" "type_parse (type_str t) = Some t"
  by (cases t; simp add: type_from_code_def type_parse_def)+

lemma type_accepts_iff:
  "type_accepts t stored \<longleftrightarrow> stored = t \<or> t = Deterministic \<and> stored = DeterministicSingleTimeSeries"
  by (cases t; cases stored) (simp_all add: type_accepts_def code_span_def)

lemma code_groups:
  "type_code t \<in> set forecast_codes \<longleftrightarrow> is_forecast t" "type_code t \<in> set static_codes \<longleftrightarrow> \<not> is_forecast t"
  by (cases t; simp add: forecast_codes_def static_codes_def)+

section \<open>Grids\<close>

lemma as_i64_small [simp]: "n < 2 ^ 63 \<Longrightarrow> as_i64 n = int n"
  by (simp add: as_i64_def)

lemma timestamp_on_grid_Inr [result_elims]:
  "timestamp_on_grid C initial step len k = Inr t \<longleftrightarrow> k < len \<and> add_to C step initial (as_i64 k) = Some t"
  by (simp add: timestamp_on_grid_def result_elims not_le)

lemma any_pair_sorted: "\<not> any_pair (\<lambda>t u. u \<le> t) xs \<longleftrightarrow> sorted_wrt (<) (xs :: 'a::linorder list)"
proof (induction xs rule: induct_list012)
  case (3 x y zs)
  then show ?case by (auto simp: not_le intro: less_trans)
qed simp_all

context chrono_laws
begin

lemma add_to_0: "regular C t \<Longrightarrow> is_positive C p \<or> is_zero p \<Longrightarrow> add_to C p t 0 = Some t"
proof (elim disjE)
  assume r: "regular C t" and "is_positive C p"
  then show ?thesis using grid.point_0 [OF period_grid] by simp
next
  assume r: "regular C t" and "is_zero p"
  then have "p = Fixed 0 \<or> p = Months 0" by (cases p) simp_all
  moreover have "of_ns (to_ns t) = t" using r by (simp add: regular_def of_ns_to_ns)
  ultimately show ?thesis
    using r by (auto simp: num_milliseconds quot_def checked_i64_def in_i64_def int_limits try_milliseconds
        checked_add_signed add_months_zero checked_u32_def)
qed

lemma grid_lookup:
  assumes "regular C initial" "no_leap at" "is_positive C step" "len \<le> 2 ^ 63"
  shows "index_on_grid C initial step len at = Inr k \<longleftrightarrow> timestamp_on_grid C initial step len k = Inr at"
proof -
  have "\<not> is_zero step" using assms(3) by (cases step) (auto simp: num_milliseconds quot_def)
  moreover have "steps_between C step initial at = Inr k \<longleftrightarrow> add_to C step initial (int k) = Some at"
    using steps_between_sound [of initial at step k] steps_between_on_grid [OF assms(1,3), of k at] assms(1,2)
    by (auto simp: regular_def)
  ultimately show ?thesis using assms(4) by (auto simp: index_on_grid_def result_elims intro!: exI [of _ k] split: if_splits)
qed

lemma single_point_lookup:
  assumes "regular C initial" "is_zero step \<and> len = 1"
  shows "index_on_grid C initial step len at = Inr k \<longleftrightarrow> timestamp_on_grid C initial step len k = Inr at"
  using assms add_to_0 [OF assms(1), of step] by (auto simp: index_on_grid_def result_elims simp del: add_to.simps)

lemma from_timestamps_materialises:
  assumes reg: "\<forall>t \<in> set ts. regular C t" and len: "length ts \<le> 2 ^ 63"
    and ok: "sts_from_timestamps C ts a name = Inr s"
  shows "sts_timestamps C s = Inr ts"
proof -
  from ok obtain p where p: "infer C ts = Inr p" "s = sts_new (ts ! 0) p a name" "length ts = ta_length a"
    by (auto simp: sts_from_timestamps_def result_elims split: if_splits)
  have "on_grid C p ts" using infer_sound [OF reg p(1)] by blast
  then have "list_all2 (\<lambda>k t. map_err (\<lambda>_. Panicked) (sts_timestamp_at C s k) = Inr t) [0..<length ts] ts"
    using len p(2,3) by (auto simp: list_all2_conv_all_nth on_grid_def sts_timestamp_at_def sts_new_def
        single_time_series.defs series.defs result_elims)
  then show ?thesis using p(2,3)
    by (simp add: sts_timestamps_def rmap_all_Inr_iff sts_new_def single_time_series.defs series.defs)
qed

end

section \<open>Step functions\<close>

lemma persistent_new_Inr:
  assumes "persistent_new ts a name = Inr s"
  shows "breakpoints s = ts" "s_data s = a" "length ts = ta_length a" "sorted_wrt (<) ts"
  using assms by (auto simp: persistent_new_def any_pair_sorted persistent_time_series.defs series.defs
      plain_series_def split: if_splits)

definition in_force :: "datetime list \<Rightarrow> datetime \<Rightarrow> nat \<Rightarrow> bool" where
  "in_force bs at i \<longleftrightarrow> i < length bs \<and> bs ! i \<le> at \<and> (Suc i < length bs \<longrightarrow> at < bs ! Suc i)"

lemma persistent_index_at_iff:
  assumes "persistent_new ts a name = Inr s"
  shows "persistent_index_at s at = Inr i \<longleftrightarrow> in_force ts at i"
    and "(\<exists>e. persistent_index_at s at = Inl e) \<longleftrightarrow> (\<forall>b \<in> set ts. at < b)"
proof -
  note s = persistent_new_Inr [OF assms]
  note exact = index_at_exact [OF s(4), of at]
  have "in_force ts at i \<longleftrightarrow> i < length ts \<and> ts ! i \<le> at \<and> (\<forall>j. i < j \<and> j < length ts \<longrightarrow> at < ts ! j)"
  proof -
    have "at < ts ! j" if "Suc i < length ts" "at < ts ! Suc i" "i < j" "j < length ts" for j
    proof (cases "j = Suc i")
      case False
      then have "ts ! Suc i < ts ! j" using that by (intro sorted_wrt_nth_less [OF s(4)]) auto
      then show ?thesis using that(2) by order
    qed (use that in simp)
    then show ?thesis by (auto simp: in_force_def)
  qed
  then show "persistent_index_at s at = Inr i \<longleftrightarrow> in_force ts at i"
    using exact [of i] by (simp add: persistent_index_at_def result_elims s)
  show "(\<exists>e. persistent_index_at s at = Inl e) \<longleftrightarrow> (\<forall>b \<in> set ts. at < b)"
    using exact by (simp add: persistent_index_at_def result_elims s)
qed

section \<open>Forecasts\<close>

lemma deterministic_fields [simp]:
  fixes initial res hor itv count a name
  defines "d \<equiv> series.extend (plain_series a name) (deterministic.fields initial res hor itv count)"
  shows "f_initial_timestamp d = initial" "f_resolution d = res" "horizon d = hor" "interval d = itv"
    "window_count d = count" "s_data d = a"
  by (simp_all add: d_def deterministic.defs series.defs plain_series_def)

lemma deterministic_new_Inr:
  assumes "deterministic_new C initial res hor itv count a name = Inr d"
  obtains h E where "f_initial_timestamp d = initial" "f_resolution d = res" "horizon d = hor"
    "interval d = itv" "window_count d = count" "s_data d = a" "divide_into C res hor = Inr h"
    "shape a = h # count # E" "is_positive C res" "is_positive C hor"
    "is_positive C itv \<or> count \<le> 1 \<and> is_zero itv"
proof -
  let ?out = "series.extend (plain_series a name) (deterministic.fields initial res hor itv count)"
  from assms have d: "d = ?out" and v: "deterministic_validate C ?out = Inr ()"
    by (auto simp: deterministic_new_def Let_def result_elims)
  from v obtain h where h: "divide_into C res hor = Inr h" "2 \<le> length (shape a)"
    "shape a = [h, count] @ drop 2 (shape a)"
    by (auto simp: deterministic_validate_def compute_h_def result_elims not_less split: if_splits)
  from v have "is_positive C res" "is_positive C hor" "is_positive C itv \<or> count \<le> 1 \<and> is_zero itv"
    by (auto simp: deterministic_validate_def validate_forecast_periods_def Let_def result_elims split: if_splits)
  then show thesis using that [of h "drop 2 (shape a)"] h d by (simp add: deterministic_fields)
qed


context chrono_laws
begin

lemma window_timestamps_on_grid:
  assumes t: "regular C (f_initial_timestamp d)" and p: "is_positive C (f_resolution d)"
    and i: "is_positive C (interval d) \<or> window_count d \<le> 1 \<and> is_zero (interval d)"
    and small: "window_count d \<le> 2 ^ 63" "horizon_count d \<le> 2 ^ 63"
    and ok: "window_timestamps C d k = Inr ts"
  obtains start where "k < window_count d" "add_to C (interval d) (f_initial_timestamp d) (int k) = Some start"
    "regular C start" "length ts = horizon_count d"
    "\<And>h. h < horizon_count d \<Longrightarrow> add_to C (f_resolution d) start (int h) = Some (ts ! h)" "sorted_wrt (<) ts"
proof -
  from ok obtain start where start: "window_start C d k = Inr start" and
    steps: "list_all2 (\<lambda>h t. timestamp_on_grid C start (f_resolution d) (horizon_count d) h = Inr t)
      [0..<horizon_count d] ts"
    by (auto simp: window_timestamps_def result_elims)
  from start small have k: "k < window_count d" "add_to C (interval d) (f_initial_timestamp d) (int k) = Some start"
    by (auto simp: window_start_def result_elims)
  have r: "regular C start"
  proof (cases "is_positive C (interval d)")
    case True
    from add_to_regular [OF t True k(2)] show ?thesis .
  next
    case False
    then have "k = 0" "is_zero (interval d)" using i k(1) by auto
    then show ?thesis using add_to_0 [OF t] k(2) t by simp
  qed
  have len: "length ts = horizon_count d" using list_all2_lengthD [OF steps] by simp
  have nth: "add_to C (f_resolution d) start (int h) = Some (ts ! h)" if "h < horizon_count d" for h
    using list_all2_nthD [OF steps, of h] that small(2) by (simp add: result_elims)
  have "sorted_wrt (<) ts"
    unfolding sorted_wrt_iff_nth_less
  proof (intro allI impI)
    fix i j assume ij: "i < j" "j < length ts"
    then have "i < horizon_count d" "j < horizon_count d" using len by simp_all
    from grid.point_mono [OF period_grid [OF r p] nth [OF this(1)] nth [OF this(2)] ij(1)] show "ts ! i < ts ! j" .
  qed
  with that k r len nth show thesis by blast
qed

end

section \<open>Values\<close>

definition data_from_values ::
    "chrono \<Rightarrow> time_series_type \<Rightarrow> datetime list \<Rightarrow> datetime \<Rightarrow> period \<Rightarrow> period \<Rightarrow> period \<Rightarrow> nat \<Rightarrow>
     64 word list \<Rightarrow> nat \<Rightarrow> decoded_values \<Rightarrow> string \<Rightarrow> string + time_series_data" where
  "data_from_values C k ts initial res hor itv count ps sc v name =
     (case k of
        SingleTimeSeries \<Rightarrow> rbind (sts_from_values initial res v name) (\<lambda>s. Inr (SingleData s))
      | NonSequentialTimeSeries \<Rightarrow> rbind (nsts_from_values ts v name) (\<lambda>s. Inr (NonSequentialData s))
      | PersistentTimeSeries \<Rightarrow> rbind (persistent_from_values ts v name) (\<lambda>s. Inr (PersistentData s))
      | Probabilistic \<Rightarrow>
          rbind (probabilistic_from_values C initial res hor itv count ps v name) (\<lambda>d. Inr (ProbabilisticData d))
      | Scenarios \<Rightarrow>
          rbind (scenarios_from_values C initial res hor itv count sc v name) (\<lambda>d. Inr (ScenariosData d))
      | _ \<Rightarrow> rbind (deterministic_from_values C initial res hor itv count v name) (\<lambda>d. Inr (DeterministicData d)))"

lemmas series_records =
  series.defs descriptors.defs single_time_series.defs non_sequential_time_series.defs persistent_time_series.defs
  deterministic.defs probabilistic.defs scenarios.defs plain_series_def with_element_type_def

lemma encode_with_type_Inr:
  "encode_with_type v lead = Inr (a, t) \<longleftrightarrow> encode v lead = Inr a \<and> element_type_of v = Some t"
  by (auto simp: encode_with_type_def result_elims)

lemma data_from_values_encoded:
  assumes "data_from_values C k ts initial res hor itv count ps sc v name = Inr d"
  shows "\<exists>lead. encode v lead = Inr (data_array d) \<and> element_type_of v = Some (data_element_type d) \<and>
    length lead = leading_dims (data_type d)"
proof -
  note out = data_array_def data_element_type_def series_records
  have fin: ?thesis if "encode_with_type v lead = Inr (data_array d, data_element_type d)"
    "length lead = leading_dims (data_type d)" for lead
    using that encode_with_type_Inr by blast
  show ?thesis
  proof (cases k)
    case SingleTimeSeries
    with assms show ?thesis
      by (intro fin [of "[decoded_len v]"])
        (auto simp: data_from_values_def sts_from_values_def sts_new_def result_elims out)
  next
    case NonSequentialTimeSeries
    with assms show ?thesis
      by (intro fin [of "[decoded_len v]"])
        (auto simp: data_from_values_def nsts_from_values_def nsts_new_def result_elims out split: if_splits)
  next
    case PersistentTimeSeries
    with assms show ?thesis
      by (intro fin [of "[decoded_len v]"])
        (auto simp: data_from_values_def persistent_from_values_def persistent_new_def result_elims out split: if_splits)
  next
    case Probabilistic
    with assms obtain h where "compute_h C hor res = Inr h"
      by (auto simp: data_from_values_def probabilistic_from_values_def result_elims)
    with assms Probabilistic show ?thesis
      by (intro fin [of "[length ps, h, count]"])
        (auto simp: data_from_values_def probabilistic_from_values_def probabilistic_new_def result_elims Let_def out)
  next
    case Scenarios
    with assms obtain h where "compute_h C hor res = Inr h"
      by (auto simp: data_from_values_def scenarios_from_values_def result_elims)
    with assms Scenarios show ?thesis
      by (intro fin [of "[sc, h, count]"])
        (auto simp: data_from_values_def scenarios_from_values_def scenarios_new_def result_elims Let_def out)
  next
    case Deterministic
    with assms obtain h where "compute_h C hor res = Inr h"
      by (auto simp: data_from_values_def deterministic_from_values_def result_elims)
    with assms Deterministic show ?thesis
      by (intro fin [of "[h, count]"])
        (auto simp: data_from_values_def deterministic_from_values_def deterministic_new_def result_elims Let_def out)
  next
    case DeterministicSingleTimeSeries
    with assms obtain h where "compute_h C hor res = Inr h"
      by (auto simp: data_from_values_def deterministic_from_values_def result_elims)
    with assms DeterministicSingleTimeSeries show ?thesis
      by (intro fin [of "[h, count]"])
        (auto simp: data_from_values_def deterministic_from_values_def deterministic_new_def result_elims Let_def out)
  qed
qed


section \<open>Properties\<close>

text \<open>C21: the two grid helpers are inverse to each other on every grid of at most 2^63 points, the single
  point of a forecast with one window and a zero interval included: \<open>index_on_grid\<close> answers \<open>k\<close> exactly
  when \<open>timestamp_on_grid\<close> places point \<open>k\<close> at the instant. So an instant before the grid, between its
  points or at its extent has no index. A step that is not positive gives any other number of points no
  index at all.\<close>

theorem grid_lookup_correct:
  assumes "chrono_laws C dim tod" "regular C initial" "no_leap at" "len \<le> 2 ^ 63"
  shows "(is_positive C step \<or> is_zero step \<and> len = 1 \<longrightarrow>
      (index_on_grid C initial step len at = Inr k \<longleftrightarrow> timestamp_on_grid C initial step len k = Inr at)) \<and>
    ((case step of Fixed d \<Rightarrow> num_milliseconds C d \<le> 0 | Months m \<Rightarrow> m \<le> 0) \<and> \<not> (is_zero step \<and> len = 1) \<longrightarrow>
      (\<exists>e. index_on_grid C initial step len at = Inl e))"
proof (intro conjI impI)
  assume "is_positive C step \<or> is_zero step \<and> len = 1"
  then show "index_on_grid C initial step len at = Inr k \<longleftrightarrow> timestamp_on_grid C initial step len k = Inr at"
    using chrono_laws.grid_lookup [OF assms(1-3) _ assms(4)] chrono_laws.single_point_lookup [OF assms(1,2)] by blast
next
  assume "(case step of Fixed d \<Rightarrow> num_milliseconds C d \<le> 0 | Months m \<Rightarrow> m \<le> 0) \<and> \<not> (is_zero step \<and> len = 1)"
  then show "\<exists>e. index_on_grid C initial step len at = Inl e"
    by (cases step) (auto simp: index_on_grid_def Let_def)
qed

theorem grid_lookup_correct_witness:
  "index_on_grid gregorian (day_2024 1 31) (Months 1) 3 (day_2024 3 31) = Inr 2 \<and>
   index_on_grid gregorian (day_2024 1 31) (Months 1) 2 (day_2024 3 31) \<noteq> Inr 2 \<and>
   index_on_grid gregorian (day_2024 1 31) zero_period 1 (day_2024 1 31) = Inr 0 \<and>
   (\<exists>e. index_on_grid gregorian (day_2024 1 31) (Months 0) 3 (day_2024 1 31) = Inl e)"
proof -
  have p: "(3 :: nat) \<le> 2 ^ 63" "(2 :: nat) \<le> 2 ^ 63" "(1 :: nat) \<le> 2 ^ 63" by simp_all
  note g = grid_lookup_correct [OF gregorian_laws regular_2024(1) no_leap_2024]
  have zero: "is_zero zero_period" by (simp add: zero_period_def)
  then have "timestamp_on_grid gregorian (day_2024 1 31) zero_period 1 0 = Inr (day_2024 1 31)"
    using chrono_laws.add_to_0 [OF gregorian_laws regular_2024(1), of zero_period] by (simp add: result_elims del: add_to.simps)
  then have "index_on_grid gregorian (day_2024 1 31) zero_period 1 (day_2024 1 31) = Inr 0"
    using g [OF p(3), of zero_period 1 31 0] zero by blast
  moreover have "\<exists>e. index_on_grid gregorian (day_2024 1 31) (Months 0) 3 (day_2024 1 31) = Inl e"
    using g [OF p(1), of "Months 0" 1 31] by simp
  ultimately show ?thesis
    using g [OF p(1), of "Months 1" 3 31 2] g [OF p(2), of "Months 1" 3 31 2] steps_2024(3)
    by (simp add: result_elims del: add_to.simps)
qed

text \<open>C22: a series built from a vector of instants by \<open>SingleTimeSeries::from_timestamps\<close> materialises
  to exactly that vector, calendar months included, and the constructor accepts every vector of at
  least two instants that some period (of an \<open>i32\<close> number of months) steps through, with one value
  each.\<close>

theorem from_timestamps_correct:
  assumes "chrono_laws C dim tod" "\<forall>t \<in> set ts. regular C t" "length ts \<le> 2 ^ 63"
  shows "(sts_from_timestamps C ts a name = Inr s \<longrightarrow>
      sts_timestamps C s = Inr ts \<and> s_data s = a \<and> is_positive C (resolution s)) \<and>
    (2 \<le> length ts \<and> length ts = ta_length a \<and> is_positive C p \<and>
      (case p of Months m \<Rightarrow> in_i32 m | Fixed _ \<Rightarrow> True) \<and> on_grid C p ts \<longrightarrow>
      (\<exists>s. sts_from_timestamps C ts a name = Inr s))"
proof (intro conjI impI)
  assume ok: "sts_from_timestamps C ts a name = Inr s"
  then show "sts_timestamps C s = Inr ts" by (rule chrono_laws.from_timestamps_materialises [OF assms])
  from ok obtain p where "infer C ts = Inr p" "s = sts_new (ts ! 0) p a name"
    by (auto simp: sts_from_timestamps_def result_elims split: if_splits)
  then show "s_data s = a" "is_positive C (resolution s)"
    using chrono_laws.infer_sound [OF assms(1,2)] by (auto simp: sts_new_def series_records)
next
  assume g: "2 \<le> length ts \<and> length ts = ta_length a \<and> is_positive C p \<and>
    (case p of Months m \<Rightarrow> in_i32 m | Fixed _ \<Rightarrow> True) \<and> on_grid C p ts"
  then obtain q where "infer C ts = Inr q" using chrono_laws.infer_complete [OF assms(1,2)] by blast
  with g show "\<exists>s. sts_from_timestamps C ts a name = Inr s" by (simp add: sts_from_timestamps_def)
qed

theorem from_timestamps_correct_witness:
  "\<exists>s. sts_from_timestamps gregorian [day_2024 1 31, day_2024 2 29, day_2024 3 31]
      \<lparr>arr_dtype = U8, shape = [3], bytes = [7, 8, 9]\<rparr> ''m'' = Inr s \<and>
    sts_timestamps gregorian s = Inr [day_2024 1 31, day_2024 2 29, day_2024 3 31]"
proof -
  let ?ts = "[day_2024 1 31, day_2024 2 29, day_2024 3 31]"
  let ?a = "\<lparr>arr_dtype = U8, shape = [3], bytes = [7, 8, 9]\<rparr>"
  have grid: "on_grid gregorian (Months 1) ?ts"
    using steps_2024(1-3)
    by (auto simp: on_grid_def less_Suc_eq numeral_2_eq_2 numeral_3_eq_3 simp del: add_to.simps)
  have r: "\<forall>t \<in> set ?ts. regular gregorian t" "length ?ts \<le> 2 ^ 63" by simp_all
  have "in_i32 1" "is_positive gregorian (Months 1)" by (simp_all add: in_i32_def int_limits)
  with grid have "2 \<le> length ?ts \<and> length ?ts = ta_length ?a \<and> is_positive gregorian (Months 1) \<and>
    (case Months 1 of Months m \<Rightarrow> in_i32 m | Fixed _ \<Rightarrow> True) \<and> on_grid gregorian (Months 1) ?ts"
    by (simp add: ta_length_def)
  with from_timestamps_correct [OF gregorian_laws r, of ?a "''m''" _ "Months 1"] show ?thesis by blast
qed

text \<open>C23: a persistent series is the right-continuous step function of its breakpoints. The value
  at an instant is that of the one breakpoint interval the instant falls in (the last one unbounded),
  an instant before every breakpoint is an error, and neither the row nor the breakpoint look-up of a
  constructed series panics.\<close>

theorem persistent_step_function:
  assumes "persistent_new ts a name = Inr s" "wf_array a" "element_shape a = []" "to_vec E a = Inr vs"
    "length vs = length ts"
  shows "(value_at E s at = Inr v \<longleftrightarrow> (\<exists>i. in_force ts at i \<and> v = vs ! i)) \<and>
    ((\<exists>e. value_at E s at = Inl e) \<longleftrightarrow> (\<forall>b \<in> set ts. at < b)) \<and>
    breakpoint_at s at \<noteq> Inl Panicked \<and> row_at s at \<noteq> Inl Panicked"
proof -
  note s = persistent_new_Inr [OF assms(1)]
  note ix = persistent_index_at_iff [OF assms(1), of at]
  have el: "element_at E a i = Inr (vs ! i)" if "in_force ts at i" for i
    using element_at_to_vec [OF assms(2,4), of i] that assms(5) by (simp add: in_force_def)
  have "value_at E s at = Inr v \<longleftrightarrow> (\<exists>i. in_force ts at i \<and> v = vs ! i)"
    using el ix(1) by (auto simp: value_at_def s assms(3) result_elims)
  moreover have "(\<exists>e. value_at E s at = Inl e) \<longleftrightarrow> (\<exists>e. persistent_index_at s at = Inl e)"
    using el ix(1) by (auto simp: value_at_def s assms(3) result_elims)
  moreover have "breakpoint_at s at \<noteq> Inl Panicked"
    using ix(1) by (cases "persistent_index_at s at") (auto simp: breakpoint_at_def s get_at_def in_force_def)
  moreover have "row_at s at \<noteq> Inl Panicked"
  proof (cases "persistent_index_at s at")
    case (Inr i)
    then have "i < ta_length a" using ix(1) [of i] s(3) by (simp add: in_force_def)
    from ta_step_ok(2) [OF assms(2) this] show ?thesis by (simp add: row_at_def s Inr)
  qed (simp add: row_at_def)
  ultimately show ?thesis using ix(2) by blast
qed

theorem persistent_step_function_witness:
  "\<exists>s. persistent_new [day_2024 1 31, day_2024 2 29] \<lparr>arr_dtype = U8, shape = [2], bytes = [7, 9]\<rparr> ''fuel'' = Inr s \<and>
    value_at u8_element s (day_2024 3 31) = Inr 9 \<and> (\<exists>e. value_at u8_element s (day_2024 1 30) = Inl e)"
proof -
  let ?a = "\<lparr>arr_dtype = U8, shape = [2], bytes = [7, 9]\<rparr> :: typed_array"
  let ?ts = "[day_2024 1 31, day_2024 2 29]"
  have lt: "day_2024 1 31 < day_2024 2 29" "day_2024 2 29 \<le> day_2024 3 31" "day_2024 1 30 < day_2024 1 31"
    "day_2024 1 30 < day_2024 2 29" by code_simp+
  obtain s where s: "persistent_new ?ts ?a ''fuel'' = Inr s"
    using lt(1) by (simp add: persistent_new_def ta_length_def not_le)
  have a: "wf_array ?a" "element_shape ?a = []" "to_vec u8_element ?a = Inr [7, 9]" "length [7, 9 :: 8 word] = length ?ts"
    by (simp_all add: wf_array_def check_bytes_def expected_bytes_def element_count_def checked_usize_def usize_max_def
        element_shape_def to_vec_def u8_element_def numeric_element_def chunks_exact_def segment_def)
  have "in_force ?ts (day_2024 3 31) 1" using lt(2) by (simp add: in_force_def)
  moreover note f = persistent_step_function [OF s a, of "day_2024 3 31"] persistent_step_function [OF s a, of "day_2024 1 30"]
  ultimately have "value_at u8_element s (day_2024 3 31) = Inr 9" by force
  moreover have "\<exists>e. value_at u8_element s (day_2024 1 30) = Inl e" using f(2) lt by simp
  ultimately show ?thesis using s by blast
qed

text \<open>C24: the windows of a constructed deterministic forecast. Its array is \<open>[H, count, ...]\<close> where
  \<open>H\<close> steps of the resolution are one horizon; window \<open>k\<close> exists only for \<open>k < count\<close>, starts \<open>k\<close>
  intervals after the first, and its \<open>H\<close> timestamps are the resolution grid from that start, in
  strictly increasing order.\<close>

theorem deterministic_windows:
  assumes "chrono_laws C dim tod" "regular C initial"
    and "deterministic_new C initial res hor itv count a name = Inr d"
    and "count \<le> 2 ^ 63" "horizon_count d \<le> 2 ^ 63"
  shows "\<exists>h E. shape (s_data d) = h # count # E \<and> 0 < h \<and> horizon_count d = h \<and>
    (\<forall>t. regular C t \<longrightarrow> add_to C hor t 1 = add_to C res t (int h)) \<and>
    (\<forall>k ts. window_timestamps C d k = Inr ts \<longrightarrow>
      (\<exists>start. k < count \<and> add_to C itv initial (int k) = Some start \<and> length ts = h \<and>
        sorted_wrt (<) ts \<and> (\<forall>j < h. add_to C res start (int j) = Some (ts ! j))))"
proof -
  obtain h E where d: "f_initial_timestamp d = initial" "f_resolution d = res" "horizon d = hor"
    "interval d = itv" "window_count d = count" "s_data d = a" and div: "divide_into C res hor = Inr h"
    and a: "shape a = h # count # E" and pos: "is_positive C res" "is_positive C hor"
    and itv: "is_positive C itv \<or> count \<le> 1 \<and> is_zero itv"
    by (rule deterministic_new_Inr [OF assms(3)])
  have hc: "horizon_count d = h" by (simp add: horizon_count_def d a)
  have mult: "0 < h \<and> add_to C hor t 1 = add_to C res t (int h)" if "regular C t" for t
    using chrono_laws.divide_into_multiple [OF assms(1) that pos div, of 1] by simp
  have win: "\<exists>start. k < count \<and> add_to C itv initial (int k) = Some start \<and> length ts = h \<and>
      sorted_wrt (<) ts \<and> (\<forall>j < h. add_to C res start (int j) = Some (ts ! j))"
    if w: "window_timestamps C d k = Inr ts" for k ts
    using chrono_laws.window_timestamps_on_grid [OF assms(1), where d = d and k = k and ts = ts]
      d hc assms(2,4,5) pos itv w by metis
  show ?thesis using mult [OF assms(2)] mult win d(6) a hc by auto
qed

theorem deterministic_windows_witness:
  "\<exists>d. deterministic_new gregorian (day_2024 1 31) (Months 1) (Months 2) (Months 1) 3
      \<lparr>arr_dtype = U8, shape = [2, 3], bytes = [1, 2, 3, 4, 5, 6]\<rparr> ''f'' = Inr d \<and>
    (\<forall>k ts. window_timestamps gregorian d k = Inr ts \<longrightarrow> k < 3 \<and> length ts = 2)"
proof -
  let ?a = "\<lparr>arr_dtype = U8, shape = [2, 3], bytes = [1, 2, 3, 4, 5, 6]\<rparr> :: typed_array"
  have "divide_into gregorian (Months 1) (Months 2) = Inr 2" by (simp add: ratio_def quot_nonneg remt_nonneg)
  then obtain d where d: "deterministic_new gregorian (day_2024 1 31) (Months 1) (Months 2) (Months 1) 3 ?a ''f'' = Inr d"
    and s: "s_data d = ?a"
    by (simp add: deterministic_new_def deterministic_validate_def validate_forecast_periods_def compute_h_def
        series_records del: divide_into.simps)
  have h: "horizon_count d \<le> 2 ^ 63" by (simp add: horizon_count_def s)
  from deterministic_windows [OF gregorian_laws regular_2024(1) d _ h] s d show ?thesis by fastforce
qed

text \<open>C25: the values any of the six \<open>from_values\<close> constructors was given are what
  \<open>TimeSeriesData::decoded_values\<close> reads back, under the element type the constructor declared.\<close>

theorem series_values_roundtrip:
  assumes "data_from_values C k ts initial res hor itv count ps sc v name = Inr d"
    and "wf_array (data_array d)" "counts_exact v"
  shows "data_decoded_values d = Inr v"
proof -
  obtain lead where "encode v lead = Inr (data_array d)" "element_type_of v = Some (data_element_type d)"
    "length lead = leading_dims (data_type d)"
    using data_from_values_encoded [OF assms(1)] by blast
  with decode_encode [OF this(1,2) assms(2,3)] show ?thesis by (simp add: data_decoded_values_def)
qed

theorem series_values_roundtrip_witness:
  "\<exists>d. data_from_values gregorian SingleTimeSeries [] (day_2024 1 31) (Months 1) (Months 1) (Months 1) 1 [] 0
      demo_curves ''c'' = Inr d \<and> data_decoded_values d = Inr demo_curves"
proof -
  obtain a where a: "encode demo_curves [2] = Inr a" "wf_array a"
    by (simp add: encode_def demo_curves_def max_len_def padded_row_def linear_points_def wrapping_def usize_max_def
        from_slice_def element_count_def checked_usize_def f64_element_def numeric_element_def wf_array_def
        check_bytes_def expected_bytes_def Let_def)
  let ?d = "SingleData (with_element_type PiecewiseLinearType (sts_new (day_2024 1 31) (Months 1) a ''c''))"
  have d: "data_from_values gregorian SingleTimeSeries [] (day_2024 1 31) (Months 1) (Months 1) (Months 1) 1 [] 0
      demo_curves ''c'' = Inr ?d"
    using a(1) by (simp add: data_from_values_def sts_from_values_def encode_with_type_def demo_curves_def numeral_2_eq_2)
  have "data_array ?d = a" by (simp add: data_array_def sts_new_def series_records)
  then have "data_decoded_values ?d = Inr demo_curves"
    using a(2) by (intro series_values_roundtrip [OF d]) (simp_all add: demo_curves_def counts_exact_def)
  with d show ?thesis by blast
qed

end
