(* ===== verification/StoreReads.thy ===== *)
theory StoreReads
  imports StoreArrays
begin

text \<open>
  The array store refines one map: \<open>view\<close> is the in-memory backend that would hold the buffered
  arrays already, and reading the store is reading it.
\<close>

section \<open>The view\<close>

definition view :: "array_store \<Rightarrow> memory_backend" where
  "view S = (as_backend S)\<lparr>arrays := contents (arrays (as_backend S)) (as_buffer S)\<rparr>"

text \<open>The buffer is consistent and no array is in both places; a store that is not in a transaction
  buffers nothing.\<close>

definition store_ok :: "array_store \<Rightarrow> bool" where
  "store_ok S \<longleftrightarrow> wb_inv (as_buffer S) \<and> apart (arrays (as_backend S)) (as_buffer S)"

lemma view_arrays: "arrays (view S) = contents (arrays (as_backend S)) (as_buffer S)"
  by (simp add: view_def)

lemma view_lookup:
  "wb_get (as_buffer S) h = Some a \<Longrightarrow> arrays (view S) h = Some a"
  "wb_get (as_buffer S) h = None \<Longrightarrow> arrays (view S) h = arrays (as_backend S) h"
  by (simp_all add: view_arrays contents_def)

lemma contains_get: "store_ok S \<Longrightarrow> wb_contains (as_buffer S) h \<longleftrightarrow> wb_get (as_buffer S) h \<noteq> None"
  by (simp add: store_ok_def wb_contains_get)

section \<open>Reads\<close>

lemma store_holds_array_view: "store_ok S \<Longrightarrow> store_holds_array S h = mem_contains (view S) h"
  by (cases "wb_get (as_buffer S) h") (simp_all add: store_holds_array_def contains_get mem_contains_def view_lookup)

lemma store_get_array_view: "store_get_array S h d = mem_get_array (view S) h d"
  by (cases "wb_get (as_buffer S) h") (simp_all add: store_get_array_def mem_get_array_def view_lookup)

lemma store_get_slice_view: "store_get_slice S h d rng = mem_get_slice (view S) h d rng"
proof (cases "wb_get (as_buffer S) h")
  case (Some a)
  then show ?thesis by (cases "check_dtype (arr_dtype a) d") (simp_all add: store_get_slice_def mem_get_slice_def view_lookup)
qed (simp add: store_get_slice_def mem_get_slice_def view_lookup)

lemma store_array_shape_view: "store_array_shape S h = mem_array_shape (view S) h"
  by (cases "wb_get (as_buffer S) h") (simp_all add: store_array_shape_def mem_array_shape_def view_lookup)

lemma store_window_block_view: "store_window_block_into S = window_block_into (mem_get_array (view S))"
proof (intro ext)
  fix h d axis start n out
  show "store_window_block_into S h d axis start n out = window_block_into (mem_get_array (view S)) h d axis start n out"
  proof (cases "wb_get (as_buffer S) h")
    case (Some a)
    then show ?thesis
      by (cases "check_dtype (arr_dtype a) d") (simp_all add: store_window_block_into_def window_block_into_def mem_get_array_def view_lookup)
  next
    case None
    then show ?thesis by (simp add: store_window_block_into_def window_block_into_def mem_get_array_def view_lookup)
  qed
qed

lemma range_slices_cong:
  "(\<And>h d rng. ((h, d), rng) \<in> set reqs \<Longrightarrow> gs h d rng = gs' h d rng) \<Longrightarrow> range_slices gs reqs out = range_slices gs' reqs out"
proof (induction gs reqs out rule: range_slices.induct)
  case (2 gs h d rng rest out)
  then show ?case by (cases "gs' h d rng") simp_all
qed simp

lemma not_buffered:
  assumes "store_ok S" "\<not> buffers_any S hs" "h \<in> set hs"
  shows "wb_get (as_buffer S) h = None"
  using assms contains_get by (auto simp: buffers_any_def list_ex_iff)

lemma store_ranges_view: "store_ok S \<Longrightarrow> store_ranges_into S = ranges_into (mem_get_slice (view S))"
proof (intro ext)
  fix hs ds rngs
  assume ok: "store_ok S"
  have same: "mem_get_slice (as_backend S) h d rng = mem_get_slice (view S) h d rng" if "wb_get (as_buffer S) h = None" for h d rng
    using that by (simp add: mem_get_slice_def view_lookup)
  show "store_ranges_into S hs ds rngs = ranges_into (mem_get_slice (view S)) hs ds rngs"
    unfolding store_ranges_into_def ranges_into_def
    by (cases "buffers_any S hs")
      (auto intro!: range_slices_cong same not_buffered [OF ok] simp: store_get_slice_view dest!: set_zip_leftD)
qed

text \<open>Whole arrays: the same result, or an error in both.\<close>

lemma read_arrays_Inr: "read_arrays get hs ds = Inr as \<longleftrightarrow> list_all2 (\<lambda>(h, d) a. get h d = Inr a) (zip hs ds) as"
  by (simp add: read_arrays_def rmap_all_Inr_iff case_prod_unfold)

lemma merge_arrays_Inr:
  assumes "list_all2 (\<lambda>(h, d) a. mem_get_array (as_backend S) h d = Inr a)
      (filter (\<lambda>(h, d). wb_get (as_buffer S) h = None) reqs) from_file"
  shows "merge_arrays (as_buffer S) reqs from_file = Inr as \<longleftrightarrow>
    list_all2 (\<lambda>(h, d) a. store_get_array S h d = Inr a) reqs as"
  using assms
proof (induction reqs arbitrary: from_file as)
  case (Cons r reqs)
  obtain h d where r: "r = (h, d)" by (cases r)
  show ?case
  proof (cases "wb_get (as_buffer S) h")
    case (Some a)
    then show ?thesis using Cons
      by (auto simp: r result_elims store_get_array_def list_all2_Cons1)
  next
    case None
    then obtain f fs where f: "from_file = f # fs" "mem_get_array (as_backend S) h d = Inr f"
      and fs: "list_all2 (\<lambda>(h, d) a. mem_get_array (as_backend S) h d = Inr a)
        (filter (\<lambda>(h, d). wb_get (as_buffer S) h = None) reqs) fs"
      using Cons.prems by (auto simp: r list_all2_Cons1)
    then show ?thesis using Cons.IH [OF fs] None
      by (auto simp: r result_elims store_get_array_def list_all2_Cons1)
  qed
qed auto

lemma store_read_arrays_view:
  assumes ok: "store_ok S" and len: "length ds = length hs"
  shows "store_read_arrays S hs ds = Inr as \<longleftrightarrow> read_arrays (mem_get_array (view S)) hs ds = Inr as"
proof (cases "buffers_any S hs")
  case False
  have "list_all2 (\<lambda>(h, d) a. mem_get_array (as_backend S) h d = Inr a) (zip hs ds) as \<longleftrightarrow>
      list_all2 (\<lambda>(h, d) a. mem_get_array (view S) h d = Inr a) (zip hs ds) as"
    using not_buffered [OF ok False]
    by (intro list.rel_cong) (auto simp: mem_get_array_def view_lookup dest!: set_zip_leftD)
  with False show ?thesis by (simp add: store_read_arrays_def read_arrays_Inr)
next
  case True
  let ?file = "filter (\<lambda>(h, d). \<not> wb_contains (as_buffer S) h) (zip hs ds)"
  have columns: "?file = filter (\<lambda>(h, d). wb_get (as_buffer S) h = None) (zip hs ds)" using contains_get [OF ok] by simp
  have zip: "zip (map fst ?file) (map snd ?file) = ?file" by (rule zip_map_fst_snd)
  show ?thesis
  proof
    assume "store_read_arrays S hs ds = Inr as"
    then obtain from_file where "read_arrays (mem_get_array (as_backend S)) (map fst ?file) (map snd ?file) = Inr from_file"
      and merge: "merge_arrays (as_buffer S) (zip hs ds) from_file = Inr as"
      using True len by (auto simp: store_read_arrays_def result_elims Let_def)
    then have "list_all2 (\<lambda>(h, d) a. mem_get_array (as_backend S) h d = Inr a)
        (filter (\<lambda>(h, d). wb_get (as_buffer S) h = None) (zip hs ds)) from_file" by (simp add: read_arrays_Inr columns zip_map_fst_snd)
    from merge_arrays_Inr [OF this, of as] merge show "read_arrays (mem_get_array (view S)) hs ds = Inr as"
      by (simp add: read_arrays_Inr store_get_array_view)
  next
    assume "read_arrays (mem_get_array (view S)) hs ds = Inr as"
    then have all: "list_all2 (\<lambda>(h, d) a. store_get_array S h d = Inr a) (zip hs ds) as"
      by (simp add: read_arrays_Inr store_get_array_view)
    have "\<exists>from_file. list_all2 (\<lambda>(h, d) a. mem_get_array (as_backend S) h d = Inr a)
        (filter (\<lambda>(h, d). wb_get (as_buffer S) h = None) reqs) from_file"
      if "list_all2 (\<lambda>(h, d) a. store_get_array S h d = Inr a) reqs as" for reqs as
      using that
    proof (induction reqs as rule: list_all2_induct)
      case (Cons r reqs a as)
      then obtain from_file where "list_all2 (\<lambda>(h, d) a. mem_get_array (as_backend S) h d = Inr a)
        (filter (\<lambda>(h, d). wb_get (as_buffer S) h = None) reqs) from_file" by blast
      then show ?case using Cons.hyps(1)
        by (cases "wb_get (as_buffer S) (fst r)")
          (auto simp: store_get_array_def case_prod_unfold intro: exI [of _ from_file] exI [of _ "a # from_file"])
    qed simp
    from this [OF all] obtain from_file where from_file: "list_all2 (\<lambda>(h, d) a. mem_get_array (as_backend S) h d = Inr a)
        (filter (\<lambda>(h, d). wb_get (as_buffer S) h = None) (zip hs ds)) from_file" by blast
    then have "read_arrays (mem_get_array (as_backend S)) (map fst ?file) (map snd ?file) = Inr from_file"
      by (simp add: read_arrays_Inr columns zip_map_fst_snd)
    then show "store_read_arrays S hs ds = Inr as"
      using True len merge_arrays_Inr [OF from_file] all by (simp add: store_read_arrays_def Let_def)
  qed
qed

section \<open>Rows\<close>

definition row_list :: "rows \<Rightarrow> hash list \<Rightarrow> nat list" where
  "row_list rows hs = (case rows of UniformRows index \<Rightarrow> replicate (length hs) index | PerColumnRows indices \<Rightarrow> indices)"

text \<open>What a batch of rows reads: a block of \<open>w\<close> bytes of every array, all of them long enough.\<close>

definition row_held :: "(hash \<rightharpoonup> typed_array) \<Rightarrow> dtype \<Rightarrow> hash \<times> nat \<Rightarrow> bool" where
  "row_held m d req \<longleftrightarrow> (\<exists>a. m (fst req) = Some a \<and> arr_dtype a = d \<and> snd req < ta_length a)"

definition row_block :: "(hash \<rightharpoonup> typed_array) \<Rightarrow> nat \<Rightarrow> hash \<times> nat \<Rightarrow> byte list" where
  "row_block m w req = segment (snd req * w) w (bytes (the (m (fst req))))"

text \<open>The arrays of a batch have one element shape, without empty dimensions.\<close>

definition uniform_elements :: "(hash \<rightharpoonup> typed_array) \<Rightarrow> nat list \<Rightarrow> hash list \<Rightarrow> bool" where
  "uniform_elements m es hs \<longleftrightarrow> (\<forall>h \<in> set hs. \<forall>a. m h = Some a \<longrightarrow> wf_array a \<and> element_shape a = es)"

lemma element_width:
  assumes "wf_array a" "i < ta_length a"
  shows "\<exists>b. slice_axis a 0 (i, i + 1) = Inr b \<and>
    bytes b = segment (i * (prod_list (element_shape a) * dtype_size (arr_dtype a))) (prod_list (element_shape a) * dtype_size (arr_dtype a)) (bytes a)"
  using one_step_slice [OF assms] ta_step_ok(2) [OF assms] by auto

lemma one_row:
  assumes "uniform_elements m es hs" "h \<in> set hs" "m = arrays s"
  shows "(\<exists>b. mem_get_slice s h d (i, i + 1) = Inr b \<and> bs = bytes b) \<longleftrightarrow>
    row_held m d (h, i) \<and> bs = row_block m (prod_list es * dtype_size d) (h, i)"
proof (cases "arrays s h")
  case (Some a)
  then have a: "wf_array a" "element_shape a = es" using assms by (auto simp: uniform_elements_def)
  show ?thesis
  proof (cases "arr_dtype a = d \<and> i < ta_length a")
    case True
    then obtain b where "slice_axis a 0 (i, i + 1) = Inr b"
      "bytes b = segment (i * (prod_list es * dtype_size d)) (prod_list es * dtype_size d) (bytes a)"
      using element_width [OF a(1), of i] a(2) by auto
    then show ?thesis using True Some assms(3) by (auto simp: mem_get_slice_Inr row_held_def row_block_def)
  next
    case False
    have "slice_axis a 0 (i, i + 1) \<noteq> Inr b" if "\<not> i < ta_length a" for b
      using that slice_axis_error [of i "i + 1" 0 a] by (cases "shape a") (auto simp: ta_length_def)
    then show ?thesis using False Some assms(3) by (auto simp: mem_get_slice_Inr row_held_def)
  qed
next
  case None
  then show ?thesis using assms(3) by (auto simp: mem_get_slice_Inr row_held_def)
qed

lemma row_slices_blocks:
  assumes "uniform_elements (arrays s) es (map fst reqs)"
  shows "row_slices (mem_get_slice s) d reqs bs \<longleftrightarrow>
    (\<forall>req \<in> set reqs. row_held (arrays s) d req) \<and>
    bs = concat (map (row_block (arrays s) (prod_list es * dtype_size d)) reqs)"
  using assms
proof (induction reqs arbitrary: bs)
  case (Cons r reqs)
  obtain h i where r: "r = (h, i)" by (cases r)
  have u: "uniform_elements (arrays s) es (map fst reqs)" using Cons.prems by (simp add: uniform_elements_def)
  have one: "(\<exists>b. mem_get_slice s h d (i, i + 1) = Inr b \<and> c = bytes b) \<longleftrightarrow>
      row_held (arrays s) d (h, i) \<and> c = row_block (arrays s) (prod_list es * dtype_size d) (h, i)" for c
    using one_row [OF Cons.prems, of h s d i c] by (simp add: r)
  have "row_slices (mem_get_slice s) d (r # reqs) bs \<longleftrightarrow>
      (\<exists>c bs'. (\<exists>b. mem_get_slice s h d (i, i + 1) = Inr b \<and> c = bytes b) \<and> row_slices (mem_get_slice s) d reqs bs' \<and> bs = c @ bs')"
    by (auto simp: r)
  then show ?case unfolding one Cons.IH [OF u] by (auto simp: r)
qed simp

lemma row_block_length:
  assumes "uniform_elements m es hs" "fst req \<in> set hs" "row_held m d req"
  shows "length (row_block m (prod_list es * dtype_size d) req) = prod_list es * dtype_size d"
    and "(snd req + 1) * (prod_list es * dtype_size d) \<le> length (bytes (the (m (fst req))))"
    and "prod_list es * dtype_size d \<le> usize_max"
proof -
  obtain a where a: "m (fst req) = Some a" "arr_dtype a = d" "snd req < ta_length a" "wf_array a" "element_shape a = es"
    using assms by (auto simp: row_held_def uniform_elements_def)
  let ?w = "prod_list es * dtype_size d"
  have len: "length (bytes a) = ta_length a * ?w" using ta_step_ok(1) [OF a(4,3)] a(2,5) by simp
  have le: "(snd req + 1) * ?w \<le> length (bytes a)" unfolding len using a(3) by (intro mult_le_mono1) simp
  then show "(snd req + 1) * ?w \<le> length (bytes (the (m (fst req))))" using a(1) by simp
  have "snd req * ?w + ?w \<le> length (bytes a)" using le by (simp add: add.commute)
  then show "length (row_block m ?w req) = ?w" using a(1) by (simp add: row_block_def length_segment)
  show "?w \<le> usize_max" using le wf_array_bounded [OF a(4)] by (simp add: add.commute)
qed

lemma backend_rows_iff:
  assumes "\<forall>index. rows = UniformRows index \<longrightarrow> (\<forall>c \<in> set cols. snd c = index)"
  shows "backend_rows_into s d (map fst cols)
      (case rows of UniformRows index \<Rightarrow> UniformRows index | PerColumnRows _ \<Rightarrow> PerColumnRows (map snd cols)) = (bs, Inr ()) \<longleftrightarrow>
    row_slices (mem_get_slice s) d cols bs"
proof (cases rows)
  case (UniformRows index)
  then have "map (\<lambda>h. (h, index)) (map fst cols) = cols" using assms by (induction cols) auto
  then show ?thesis using UniformRows by (simp add: index_into_def slices_into_iff del: map_map)
next
  case (PerColumnRows indices)
  then show ?thesis by (simp add: indices_into_def slices_into_iff zip_map_fst_snd)
qed

definition buffered :: "array_store \<Rightarrow> hash \<times> nat \<Rightarrow> bool" where
  "buffered S req \<longleftrightarrow> wb_get (as_buffer S) (fst req) \<noteq> None"

text \<open>The block size computed from a buffered array.\<close>

definition block_size :: "nat list \<Rightarrow> dtype \<Rightarrow> nat" where
  "block_size es d = wrapping (max (wrapping (prod_list es)) 1 * dtype_size d)"

lemma prod_list_positive: "0 \<notin> set es \<Longrightarrow> 0 < prod_list (es :: nat list)"
  by (induction es) auto

lemma block_size_exact:
  assumes "prod_list es * dtype_size d \<le> usize_max" "0 \<notin> set es"
  shows "block_size es d = prod_list es * dtype_size d"
proof -
  have "1 \<le> prod_list es" using prod_list_positive [OF assms(2)] by simp
  moreover have "prod_list es \<le> usize_max" using assms(1) dtype_size_pos [of d] by (metis le_trans mult_le_mono2 mult.right_neutral Suc_leI One_nat_def)
  ultimately show ?thesis using assms(1) by (simp add: block_size_def wrapping_def max_absorb1)
qed

lemma split_columns_iff:
  assumes "length rs = length hs" "\<forall>j < length hs. row_of rows (i + j) = Inr (rs ! j)"
    and "\<forall>h \<in> set hs. \<forall>a. wb_get (as_buffer S) h = Some a \<longrightarrow> element_shape a = es"
  shows "split_columns (as_buffer S) d rows i hs block = Inr out \<longleftrightarrow>
    (\<forall>h \<in> set hs. \<forall>a. wb_get (as_buffer S) h = Some a \<longrightarrow> arr_dtype a = d) \<and>
    out = (if block = None \<and> (\<exists>h \<in> set hs. wb_get (as_buffer S) h \<noteq> None) then Some (block_size es d) else block,
           filter (\<lambda>req. \<not> buffered S req) (zip hs rs))"
  using assms
proof (induction hs arbitrary: rs i block out)
  case (Cons h hs)
  then obtain r rs' where rs: "rs = r # rs'" by (cases rs) simp_all
  have row: "row_of rows i = Inr r" using Cons.prems(2) rs by (auto dest: spec [of _ 0])
  have rest: "\<forall>j < length hs. row_of rows (i + 1 + j) = Inr (rs' ! j)"
    using Cons.prems(2) rs by (auto dest: spec [of _ "Suc _"])
  have es: "\<forall>h \<in> set hs. \<forall>a. wb_get (as_buffer S) h = Some a \<longrightarrow> element_shape a = es" using Cons.prems(3) by simp
  have len: "length rs' = length hs" using Cons.prems(1) rs by simp
  note ih = Cons.IH [OF len rest es]
  show ?case
  proof (cases "wb_get (as_buffer S) h")
    case None
    then show ?thesis using ih row by (auto simp: rs buffered_def result_elims)
  next
    case (Some a)
    then have "element_shape a = es" using Cons.prems(3) by simp
    then show ?thesis using ih Some
      by (cases block) (auto simp: rs buffered_def result_elims check_dtype_def block_size_def)
  qed
qed auto

lemma merge_rows_ok:
  assumes "length rs = length hs" "\<forall>j < length hs. row_of rows (i + j) = Inr (rs ! j)"
    and "\<forall>req \<in> set (zip hs rs). \<forall>a. wb_get (as_buffer S) (fst req) = Some a \<longrightarrow>
      snd req < ta_length a \<and> (snd req + 1) * w \<le> length (bytes a)"
    and "m = arrays (view S)" "chunks = map (row_block m w) (filter (\<lambda>req. \<not> buffered S req) (zip hs rs))"
  shows "merge_rows (as_buffer S) rows w i hs chunks out = (out @ concat (map (row_block m w) (zip hs rs)), Inr ())"
  using assms
proof (induction hs arbitrary: rs i out chunks)
  case (Cons h hs)
  then obtain r rs' where rs: "rs = r # rs'" by (cases rs) simp_all
  have row: "row_of rows i = Inr r" using Cons.prems(2) rs by (auto dest: spec [of _ 0])
  have rest: "\<forall>j < length hs. row_of rows (i + 1 + j) = Inr (rs' ! j)"
    using Cons.prems(2) rs by (auto dest: spec [of _ "Suc _"])
  have fits: "\<forall>req \<in> set (zip hs rs'). \<forall>a. wb_get (as_buffer S) (fst req) = Some a \<longrightarrow>
      snd req < ta_length a \<and> (snd req + 1) * w \<le> length (bytes a)" using Cons.prems(3) rs by simp
  have len: "length rs' = length hs" using Cons.prems(1) rs by simp
  note ih = Cons.IH [OF len rest fits Cons.prems(4) refl]
  show ?case
  proof (cases "wb_get (as_buffer S) h")
    case None
    then have "chunks = row_block m w (h, r) # map (row_block m w) (filter (\<lambda>req. \<not> buffered S req) (zip hs rs'))"
      using Cons.prems(5) by (simp add: rs buffered_def)
    then show ?thesis using None ih by (simp add: rs)
  next
    case (Some a)
    have "r < ta_length a" "(r + 1) * w \<le> length (bytes a)" using Cons.prems(3) Some rs by simp_all
    moreover have "row_block m w (h, r) = segment (r * w) w (bytes a)"
      using view_lookup(1) [OF Some] Cons.prems(4) by (simp add: row_block_def)
    moreover have "chunks = map (row_block m w) (filter (\<lambda>req. \<not> buffered S req) (zip hs rs'))"
      using Cons.prems(5) Some by (simp add: rs buffered_def)
    ultimately show ?thesis using Some row ih by (simp add: rs not_le not_less)
  qed
qed simp

lemma merge_rows_bounds:
  assumes "length rs = length hs" "\<forall>j < length hs. row_of rows (i + j) = Inr (rs ! j)"
    and "merge_rows (as_buffer S) rows w i hs chunks out = (bs, Inr ())"
  shows "\<forall>req \<in> set (zip hs rs). \<forall>a. wb_get (as_buffer S) (fst req) = Some a \<longrightarrow> snd req < ta_length a"
  using assms
proof (induction hs arbitrary: rs i out chunks)
  case (Cons h hs)
  then obtain r rs' where rs: "rs = r # rs'" by (cases rs) simp_all
  have row: "row_of rows i = Inr r" using Cons.prems(2) rs by (auto dest: spec [of _ 0])
  have rest: "\<forall>j < length hs. row_of rows (i + 1 + j) = Inr (rs' ! j)"
    using Cons.prems(2) rs by (auto dest: spec [of _ "Suc _"])
  have len: "length rs' = length hs" using Cons.prems(1) rs by simp
  note ih = Cons.IH [OF len rest]
  show ?case
  proof (cases "wb_get (as_buffer S) h")
    case None
    then obtain c cs where "chunks = c # cs" "merge_rows (as_buffer S) rows w (i + 1) hs cs (out @ c) = (bs, Inr ())"
      using Cons.prems(3) by (auto split: list.splits)
    from ih [OF this(2)] None show ?thesis by (simp add: rs)
  next
    case (Some a)
    then have "r < ta_length a" "merge_rows (as_buffer S) rows w (i + 1) hs chunks (out @ segment (r * w) w (bytes a)) = (bs, Inr ())"
      using Cons.prems(3) row by (auto split: if_splits)
    from ih [OF this(2)] this(1) Some show ?thesis by (simp add: rs)
  qed
qed simp

lemma store_rows_view:
  assumes ok: "store_ok S" and es: "uniform_elements (arrays (view S)) es hs" "0 \<notin> set es"
    and len: "length (row_list rows hs) = length hs"
  shows "store_rows_into S hs d rows out = (bs, Inr ()) \<longleftrightarrow>
    row_slices (mem_get_slice (view S)) d (zip hs (row_list rows hs)) bs"
proof -
  define m reqs w where "m = arrays (view S)" and "reqs = zip hs (row_list rows hs)" and "w = prod_list es * dtype_size d"
  define cols where "cols = filter (\<lambda>req. \<not> buffered S req) reqs"
  have hashes: "map fst reqs = hs" "\<And>req. req \<in> set reqs \<Longrightarrow> fst req \<in> set hs"
    using len by (auto simp: reqs_def dest: set_zip_leftD)
  have uniform: "uniform_elements m es (map fst reqs)" using es(1) hashes by (simp add: m_def)
  have blocks: "row_slices (mem_get_slice (view S)) d reqs bs \<longleftrightarrow>
      (\<forall>req \<in> set reqs. row_held m d req) \<and> bs = concat (map (row_block m w) reqs)" for bs
    using row_slices_blocks [of "view S" es reqs d bs] uniform by (simp add: m_def w_def)
  have rows_at: "\<forall>j < length hs. row_of rows (0 + j) = Inr (row_list rows hs ! j)"
    using len by (cases rows) (auto simp: row_list_def get_at_def)
  have index: "\<forall>index. rows = UniformRows index \<longrightarrow> (\<forall>c \<in> set reqs. snd c = index)"
    by (auto simp: reqs_def row_list_def dest!: set_zip_rightD)
  have slice: "row_slices (mem_get_slice (as_backend S)) d cols c \<longleftrightarrow>
      (\<forall>req \<in> set cols. row_held m d req) \<and> c = concat (map (row_block m w) cols)" for c
  proof -
    have same: "arrays (as_backend S) (fst req) = m (fst req)" if "req \<in> set cols" for req
      using that view_lookup(2) [of S "fst req"] by (simp add: cols_def buffered_def m_def)
    then have "uniform_elements (arrays (as_backend S)) es (map fst cols)"
      using uniform by (auto simp: uniform_elements_def cols_def)
    from row_slices_blocks [OF this, of d c] same show ?thesis by (simp add: row_held_def row_block_def w_def cong: map_cong)
  qed
  have backend: "backend_rows_into (as_backend S) d (map fst cols)
      (case rows of UniformRows index \<Rightarrow> UniformRows index | PerColumnRows _ \<Rightarrow> PerColumnRows (map snd cols)) = (c, Inr ()) \<longleftrightarrow>
      (\<forall>req \<in> set cols. row_held m d req) \<and> c = concat (map (row_block m w) cols)" for c
    using backend_rows_iff [of rows cols "as_backend S" d c] index slice by (simp add: cols_def)
  have width: "length (row_block m w req) = w" "w \<le> usize_max" "(snd req + 1) * w \<le> length (bytes (the (m (fst req))))"
    if "req \<in> set reqs" "row_held m d req" for req
    using row_block_length [OF es(1) hashes(2) [OF that(1)]] that(2) by (simp_all add: m_def w_def)
  show ?thesis unfolding reqs_def [symmetric] blocks
  proof (cases "buffers_any S hs")
    case False
    then have "\<forall>req \<in> set reqs. \<not> buffered S req" using not_buffered [OF ok False] hashes(2) by (auto simp: buffered_def)
    then have cols: "cols = reqs" by (simp add: cols_def filter_id_conv)
    have "(case rows of UniformRows index \<Rightarrow> UniformRows index | PerColumnRows _ \<Rightarrow> PerColumnRows (map snd reqs)) = rows"
      using len by (cases rows) (simp_all add: reqs_def row_list_def)
    then show "store_rows_into S hs d rows out = (bs, Inr ()) \<longleftrightarrow>
        (\<forall>req \<in> set reqs. row_held m d req) \<and> bs = concat (map (row_block m w) reqs)"
      using False backend [of bs, unfolded cols] hashes(1) by (simp add: store_rows_into_def)
  next
    case True
    then obtain h where h: "h \<in> set hs" "wb_get (as_buffer S) h \<noteq> None"
      using contains_get [OF ok] by (auto simp: buffers_any_def list_ex_iff)
    have shapes: "\<forall>h \<in> set hs. \<forall>a. wb_get (as_buffer S) h = Some a \<longrightarrow> element_shape a = es"
      using es(1) view_lookup(1) by (auto simp: uniform_elements_def)
    note split = split_columns_iff [OF len rows_at shapes, of d None, folded reqs_def, folded cols_def]
    have held: "row_held m d req \<longleftrightarrow> (\<forall>a. wb_get (as_buffer S) (fst req) = Some a \<longrightarrow> arr_dtype a = d \<and> snd req < ta_length a)"
      if "buffered S req" for req
      using that view_lookup(1) [of S "fst req"] by (auto simp: buffered_def row_held_def m_def)
    have positive: "0 < prod_list es * dtype_size d"
      using prod_list_positive [OF es(2)] dtype_size_pos [of d] by simp
    have merged: "merge_rows (as_buffer S) rows w 0 hs (map (row_block m w) cols) [] = (concat (map (row_block m w) reqs), Inr ())"
      if all: "\<And>req. req \<in> set reqs \<Longrightarrow> row_held m d req"
    proof -
      have "\<forall>req \<in> set (zip hs (row_list rows hs)). \<forall>a. wb_get (as_buffer S) (fst req) = Some a \<longrightarrow>
          snd req < ta_length a \<and> (snd req + 1) * w \<le> length (bytes a)"
      proof (intro ballI allI impI)
        fix req a assume req: "req \<in> set (zip hs (row_list rows hs))" and a: "wb_get (as_buffer S) (fst req) = Some a"
        then have "row_held m d req" "m (fst req) = Some a" using all view_lookup(1) [OF a] by (simp_all add: reqs_def m_def)
        then show "snd req < ta_length a \<and> (snd req + 1) * w \<le> length (bytes a)"
          using width(3) [of req] req by (auto simp: row_held_def reqs_def)
      qed
      from merge_rows_ok [OF len rows_at this m_def refl, of "[]"] show ?thesis by (simp add: cols_def reqs_def)
    qed
    show "store_rows_into S hs d rows out = (bs, Inr ()) \<longleftrightarrow>
        (\<forall>req \<in> set reqs. row_held m d req) \<and> bs = concat (map (row_block m w) reqs)"
    proof
      assume "store_rows_into S hs d rows out = (bs, Inr ())"
      then obtain block cols' from_file where
        scan: "split_columns (as_buffer S) d rows 0 hs None = Inr (Some block, cols')"
        and rd: "backend_rows_into (as_backend S) d (map fst cols')
          (case rows of UniformRows index \<Rightarrow> UniformRows index | PerColumnRows _ \<Rightarrow> PerColumnRows (map snd cols')) = (from_file, Inr ())"
        and merge: "0 < block" "merge_rows (as_buffer S) rows block 0 hs (chunks_exact block from_file) [] = (bs, Inr ())"
        using True by (auto simp: store_rows_into_def split: sum.splits option.splits prod.splits if_splits)
      have cols': "cols' = cols" "block = block_size es d"
        and dt: "\<forall>h \<in> set hs. \<forall>a. wb_get (as_buffer S) h = Some a \<longrightarrow> arr_dtype a = d"
        using scan [unfolded split] h by (auto split: if_splits)
      have all: "row_held m d req" if "req \<in> set reqs" for req
      proof (cases "buffered S req")
        case True
        then show ?thesis
          using held [OF True] merge_rows_bounds [OF len rows_at merge(2)] that dt hashes(2) [OF that] by (simp add: reqs_def)
      next
        case False
        then show ?thesis using rd [unfolded cols' backend] that by (cases req) (auto simp: cols_def)
      qed
      obtain req where req: "req \<in> set reqs" "fst req = h" using h(1) hashes(1) by (metis in_set_conv_nth length_map nth_map)
      have "block = w" using block_size_exact [OF _ es(2)] width(2) [OF req(1) all [OF req(1)]] cols'(2) by (simp add: w_def)
      have ff: "from_file = concat (map (row_block m w) cols)" using rd [unfolded cols' backend] by simp
      have chunks: "chunks_exact block from_file = map (row_block m w) cols"
        unfolding ff \<open>block = w\<close> using width(1) all merge(1) \<open>block = w\<close>
        by (intro chunks_exact_concat) (auto simp: cols_def)
      have "bs = concat (map (row_block m w) reqs)"
        using merge(2) merged [OF all] chunks \<open>block = w\<close> by simp
      then show "(\<forall>req \<in> set reqs. row_held m d req) \<and> bs = concat (map (row_block m w) reqs)" using all by blast
    next
      assume all: "(\<forall>req \<in> set reqs. row_held m d req) \<and> bs = concat (map (row_block m w) reqs)"
      show "store_rows_into S hs d rows out = (bs, Inr ())"
      proof -
        have held_all: "row_held m d req" if "req \<in> set reqs" for req using all that by blast
        obtain req where req: "req \<in> set reqs" "fst req = h" using h(1) hashes(1) by (metis in_set_conv_nth length_map nth_map)
        have block: "block_size es d = w" using block_size_exact [OF _ es(2)] width(2) [OF req(1) held_all [OF req(1)]] by (simp add: w_def)
        have pos: "0 < w" using positive by (simp add: w_def)
        have dt: "\<forall>h \<in> set hs. \<forall>a. wb_get (as_buffer S) h = Some a \<longrightarrow> arr_dtype a = d"
        proof (intro ballI allI impI)
          fix k a assume k: "k \<in> set hs" "wb_get (as_buffer S) k = Some a"
          then obtain req where "req \<in> set reqs" "fst req = k" using hashes(1) by (metis in_set_conv_nth length_map nth_map)
          then show "arr_dtype a = d" using held_all [of req] view_lookup(1) [OF k(2)] by (auto simp: row_held_def m_def)
        qed
        have scan: "split_columns (as_buffer S) d rows 0 hs None = Inr (Some w, cols)"
          unfolding split using dt h block by auto
        have rd: "backend_rows_into (as_backend S) d (map fst cols)
          (case rows of UniformRows index \<Rightarrow> UniformRows index | PerColumnRows _ \<Rightarrow> PerColumnRows (map snd cols)) =
          (concat (map (row_block m w) cols), Inr ())"
          unfolding backend using held_all by (simp add: cols_def)
        have ws: "length (row_block m w c) = w" if "c \<in> set cols" for c
          using that width(1) held_all by (simp add: cols_def)
        have "length (concat (map (row_block m w) cols)) = length cols * w" by (rule length_concat_uniform) (rule ws)
        moreover have "chunks_exact w (concat (map (row_block m w) cols)) = map (row_block m w) cols"
          using ws pos by (intro chunks_exact_concat)
        ultimately show ?thesis
          using True scan rd merged [OF held_all] pos all by (simp add: store_rows_into_def)
      qed
    qed
  qed
qed

section \<open>Writes\<close>

lemma store_put_view:
  assumes ok: "store_ok S" and put: "store_put_array iter S h a g layout = (r, S')"
  shows "store_ok S'"
    and "r = Inr new \<Longrightarrow> new = (arrays (view S) h = None) \<and>
      arrays (view S') = (if new then (arrays (view S))(h \<mapsto> a) else arrays (view S))"
    and "r = Inl e \<Longrightarrow> arrays (view S') = arrays (view S)"
proof -
  have inv: "wb_inv (as_buffer S)" "apart (arrays (as_backend S)) (as_buffer S)" using ok by (simp_all add: store_ok_def)
  have holds: "store_holds_array S h = Inr (arrays (view S) h \<noteq> None)"
    using store_holds_array_view [OF ok] by (simp add: mem_contains_def)
  have "store_ok S' \<and> (\<forall>new. r = Inr new \<longrightarrow> new = (arrays (view S) h = None) \<and>
      arrays (view S') = (if new then (arrays (view S))(h \<mapsto> a) else arrays (view S))) \<and>
    (\<forall>e. r = Inl e \<longrightarrow> arrays (view S') = arrays (view S))"
  proof (cases "arrays (view S) h")
    case (Some b)
    then have "S' = S" "r = Inr False" using put holds by (simp_all add: store_put_array_def)
    then show ?thesis using ok Some by auto
  next
    case None
    then have absent: "wb_get (as_buffer S) h = None" "arrays (as_backend S) h = None"
      by (auto simp: view_arrays contents_def split: option.splits)
    then have fresh: "\<not> wb_contains (as_buffer S) h" by (simp add: contains_get [OF ok])
    show ?thesis
    proof (cases "is_packed layout \<and> as_in_transaction S")
      case True
      obtain r1 W s where push: "wb_push mem_ops iter h a g (as_buffer S) (as_backend S) = (r1, W, s)" by (metis prod_cases3)
      have S': "S' = S\<lparr>as_buffer := W, as_backend := s\<rparr>" "r = (case r1 of Inl e \<Rightarrow> Inl e | Inr _ \<Rightarrow> Inr True)"
        using put holds None True push by (auto simp: store_put_array_def split: sum.splits)
      have "apart (arrays s) W \<and> contents (arrays s) W =
          (case r1 of Inr _ \<Rightarrow> (arrays (view S))(h \<mapsto> a) | Inl _ \<Rightarrow> arrays (view S))"
        unfolding view_arrays by (rule mem_store.wb_push_contents [OF inv fresh absent(2) push])
      moreover have "wb_inv W" by (rule wb_push_inv [OF inv(1) not_contains [OF fresh] push])
      ultimately show ?thesis using S' None by (cases r1) (simp_all add: store_ok_def view_arrays)
    next
      case False
      obtain s where mem: "mem_put_array (as_backend S) h a g layout = (Inr True, s)"
        "arrays s = (arrays (as_backend S))(h \<mapsto> a)"
        using memory.put_result [of "as_backend S" h a g layout] memory.put_stored [of "as_backend S" h a g layout] absent
        by (cases "mem_put_array (as_backend S) h a g layout") auto
      have S': "S' = S\<lparr>as_backend := s\<rparr>" "r = Inr True"
        using put holds None False mem by (auto simp: store_put_array_def)
      have "contents (arrays s) (as_buffer S) = (arrays (view S))(h \<mapsto> a)" "apart (arrays s) (as_buffer S)"
        using mem(2) absent inv(2) by (auto simp: view_arrays contents_def fun_eq_iff apart_def split: option.splits)
      then show ?thesis using S' inv None by (simp add: store_ok_def view_arrays)
    qed
  qed
  then show "store_ok S'"
    and "r = Inr new \<Longrightarrow> new = (arrays (view S) h = None) \<and>
      arrays (view S') = (if new then (arrays (view S))(h \<mapsto> a) else arrays (view S))"
    and "r = Inl e \<Longrightarrow> arrays (view S') = arrays (view S)" by blast+
qed

lemma store_remove_view:
  assumes ok: "store_ok S"
  shows "store_ok (snd (store_remove_array S h))"
    and "arrays (view (snd (store_remove_array S h))) = (arrays (view S))(h := None)"
    and "fst (store_remove_array S h) = Inr ()"
proof -
  have inv: "wb_inv (as_buffer S)" "apart (arrays (as_backend S)) (as_buffer S)" using ok by (simp_all add: store_ok_def)
  obtain b W where rem: "wb_remove h (as_buffer S) = (b, W)" by fastforce
  have W: "wb_inv W" "wb_get W = (wb_get (as_buffer S))(h := None)" "b \<longleftrightarrow> wb_get (as_buffer S) h \<noteq> None"
    using wb_remove_inv [OF inv(1), of h] rem contains_get [OF ok, of h] by (auto simp: wb_contains_def)
  obtain s where mem: "mem_remove_array (as_backend S) h = (Inr (), s)" "arrays s = (arrays (as_backend S))(h := None)"
    using memory.remove_stored [of "as_backend S" h] by (simp add: mem_remove_array_def)
  have "store_ok (snd (store_remove_array S h)) \<and> fst (store_remove_array S h) = Inr () \<and>
    arrays (view (snd (store_remove_array S h))) = (arrays (view S))(h := None)"
  proof (cases b)
    case True
    then have "store_remove_array S h = (Inr (), S\<lparr>as_buffer := W\<rparr>)" using rem by (simp add: store_remove_array_def)
    moreover have "arrays (as_backend S) h = None" using True W(3) inv(2) by (simp add: apart_def)
    ultimately show ?thesis
      using W inv(2) by (auto simp: store_ok_def view_arrays contents_def apart_def fun_eq_iff split: option.splits)
  next
    case False
    then have "store_remove_array S h = (Inr (), S\<lparr>as_buffer := W, as_backend := s\<rparr>)"
      using rem mem by (simp add: store_remove_array_def)
    then show ?thesis
      using W mem(2) inv(2) False by (auto simp: store_ok_def view_arrays contents_def apart_def fun_eq_iff split: option.splits)
  qed
  then show "store_ok (snd (store_remove_array S h))" "fst (store_remove_array S h) = Inr ()"
    "arrays (view (snd (store_remove_array S h))) = (arrays (view S))(h := None)" by blast+
qed

lemma store_flush_view:
  assumes ok: "store_ok S" and flush: "store_flush_arrays iter S = (r, S')"
  shows "store_ok S'" "arrays (view S') = arrays (view S)"
    and "lawful iter \<Longrightarrow> r = Inr () \<Longrightarrow> arrays (as_backend S') = arrays (view S)"
proof -
  have inv: "wb_inv (as_buffer S)" "apart (arrays (as_backend S)) (as_buffer S)" using ok by (simp_all add: store_ok_def)
  obtain W s where w: "write_all mem_ops iter (as_buffer S) (as_backend S) = (r, W, s)" "S' = S\<lparr>as_buffer := W, as_backend := s\<rparr>"
    using flush by (auto simp: store_flush_arrays_def split: prod.splits)
  have c: "apart (arrays s) W" "contents (arrays s) W = arrays (view S)"
    using mem_store.write_blocks_contents [OF inv w(1) [unfolded write_all_def write_all_except_def]] by (simp_all add: view_arrays)
  have "wb_inv W" using write_blocks_inv [OF inv(1) w(1) [unfolded write_all_def write_all_except_def]] by simp
  then show ok': "store_ok S'" using c w(2) by (simp add: store_ok_def)
  show "arrays (view S') = arrays (view S)" using c w(2) by (simp add: view_arrays)
  assume "lawful iter" "r = Inr ()"
  then have "\<not> wb_contains W h" for h
    using write_all_except_done [of iter "as_buffer S" mem_ops "{}" "as_backend S" "()" W s h] inv(1) w(1) by (simp add: write_all_def)
  then have "wb_get W h = None" for h using wb_contains_get [OF \<open>wb_inv W\<close>] by simp
  then show "arrays (as_backend S') = arrays (view S)" using c(2) w(2) by (simp add: contents_def fun_eq_iff)
qed

section \<open>Properties\<close>

text \<open>C31: reading the store refines reading one map. Whatever part of the arrays is still buffered, the
  store answers like the backend that holds them all: membership, whole arrays, slices, shapes,
  window blocks and row ranges are the same functions, a batch of whole arrays is the same batch, and
  a batch of rows delivers the same bytes.\<close>

theorem store_reads_refine:
  assumes "store_ok S"
  shows "store_holds_array S = mem_contains (view S) \<and> store_get_array S = mem_get_array (view S) \<and>
    store_get_slice S = mem_get_slice (view S) \<and> store_array_shape S = mem_array_shape (view S) \<and>
    store_window_block_into S = window_block_into (mem_get_array (view S)) \<and>
    store_ranges_into S = ranges_into (mem_get_slice (view S)) \<and>
    (length ds = length hs \<longrightarrow>
      (store_read_arrays S hs ds = Inr as \<longleftrightarrow> read_arrays (mem_get_array (view S)) hs ds = Inr as)) \<and>
    (length (row_list rows hs) = length hs \<and> uniform_elements (arrays (view S)) es hs \<and> 0 \<notin> set es \<longrightarrow>
      (store_rows_into S hs d rows out = (bs, Inr ()) \<longleftrightarrow>
        row_slices (mem_get_slice (view S)) d (zip hs (row_list rows hs)) bs))"
proof (intro conjI)
  show "store_holds_array S = mem_contains (view S)" by (rule ext) (rule store_holds_array_view [OF assms])
  show "store_get_array S = mem_get_array (view S)" by (intro ext) (rule store_get_array_view)
  show "store_get_slice S = mem_get_slice (view S)" by (intro ext) (rule store_get_slice_view)
  show "store_array_shape S = mem_array_shape (view S)" by (rule ext) (rule store_array_shape_view)
  show "store_window_block_into S = window_block_into (mem_get_array (view S))" by (rule store_window_block_view)
  show "store_ranges_into S = ranges_into (mem_get_slice (view S))" by (rule store_ranges_view [OF assms])
  show "length ds = length hs \<longrightarrow>
      (store_read_arrays S hs ds = Inr as \<longleftrightarrow> read_arrays (mem_get_array (view S)) hs ds = Inr as)"
    using store_read_arrays_view [OF assms] by blast
  show "length (row_list rows hs) = length hs \<and> uniform_elements (arrays (view S)) es hs \<and> 0 \<notin> set es \<longrightarrow>
      (store_rows_into S hs d rows out = (bs, Inr ()) \<longleftrightarrow>
        row_slices (mem_get_slice (view S)) d (zip hs (row_list rows hs)) bs)"
    using store_rows_view [OF assms] by blast
qed

definition demo_store :: array_store where
  "demo_store = \<lparr>as_buffer = demo_buffer, as_backend = memory_new, as_in_transaction = True\<rparr>"

lemma demo_store_ok: "store_ok demo_store"
proof -
  have run: "wb_reachable mem_ops arrays some_order demo_buffer memory_new"
    by (rule run_push [OF run_new _ _ demo_push]) (simp_all add: wb_contains_def wb_new_def memory_new_def)
  then show ?thesis using reachable_inv [OF run] mem_store.reachable_apart [OF run] by (simp add: store_ok_def demo_store_def)
qed

lemma demo_store_view: "arrays (view demo_store) = [[1] \<mapsto> demo_array]"
proof -
  have "wb_get demo_buffer = [[1] \<mapsto> demo_array]"
    by (auto simp: demo_buffer_def wb_accept_def Let_def wb_new_def empty_block_def wb_get_def get_at_def fun_eq_iff)
  then show ?thesis by (auto simp: view_arrays demo_store_def contents_def memory_new_def fun_eq_iff)
qed

theorem store_reads_refine_witness:
  "store_rows_into demo_store [[1], [1]] U8 (UniformRows 1) [] = ([3, 4, 5, 3, 4, 5], Inr ())"
proof -
  have u: "uniform_elements (arrays (view demo_store)) [3] [[1], [1]]"
    using wf_demo by (simp add: uniform_elements_def demo_store_view) (simp add: demo_array_def element_shape_def)
  have "row_slices (mem_get_slice (view demo_store)) U8 [([1], 1), ([1], 1)] [3, 4, 5, 3, 4, 5]"
  proof -
    have "slice_axis demo_array 0 (Suc 0, Suc (Suc 0)) = Inr \<lparr>arr_dtype = U8, shape = [1, 3], bytes = [3, 4, 5]\<rparr>" by code_simp
    then have "mem_get_slice (view demo_store) [1] U8 (1, 1 + 1) = Inr \<lparr>arr_dtype = U8, shape = [1, 3], bytes = [3, 4, 5]\<rparr>"
      using demo_store_view by (simp add: mem_get_slice_Inr) (simp add: demo_array_def)
    then show ?thesis by simp
  qed
  then show ?thesis
    using store_reads_refine [OF demo_store_ok, of "[U8, U8]" "[[1], [1]]" "[]" "UniformRows 1" "[3]" U8 "[]" "[3, 4, 5, 3, 4, 5]"] u
    by (simp add: row_list_def numeral_2_eq_2)
qed

text \<open>C32: writing the store refines writing one map. A put reports whether the hash was absent and stores
  the array exactly then, buffered or not; one that fails changes nothing a reader sees, evicted
  blocks included; a remove drops the hash from wherever it is; and a flush moves the buffer into
  the backend without changing what is stored.\<close>

theorem store_writes_refine:
  assumes "store_ok S" "lawful iter"
  shows "(store_put_array iter S h a g layout = (r1, S1) \<longrightarrow> store_ok S1 \<and>
      (\<forall>new. r1 = Inr new \<longrightarrow> new = (arrays (view S) h = None) \<and>
        arrays (view S1) = (if new then (arrays (view S))(h \<mapsto> a) else arrays (view S))) \<and>
      (\<forall>e. r1 = Inl e \<longrightarrow> arrays (view S1) = arrays (view S))) \<and>
    (store_remove_array S h = (r2, S2) \<longrightarrow> store_ok S2 \<and> r2 = Inr () \<and> arrays (view S2) = (arrays (view S))(h := None)) \<and>
    (store_flush_arrays iter S = (r3, S3) \<longrightarrow> store_ok S3 \<and> arrays (view S3) = arrays (view S) \<and>
      (r3 = Inr () \<longrightarrow> arrays (as_backend S3) = arrays (view S)))"
proof (intro conjI)
  show "store_put_array iter S h a g layout = (r1, S1) \<longrightarrow> store_ok S1 \<and>
      (\<forall>new. r1 = Inr new \<longrightarrow> new = (arrays (view S) h = None) \<and>
        arrays (view S1) = (if new then (arrays (view S))(h \<mapsto> a) else arrays (view S))) \<and>
      (\<forall>e. r1 = Inl e \<longrightarrow> arrays (view S1) = arrays (view S))"
    using store_put_view [OF assms(1), of iter h a g layout r1 S1] by blast
  show "store_remove_array S h = (r2, S2) \<longrightarrow> store_ok S2 \<and> r2 = Inr () \<and> arrays (view S2) = (arrays (view S))(h := None)"
    using store_remove_view [OF assms(1), of h] by auto
  show "store_flush_arrays iter S = (r3, S3) \<longrightarrow> store_ok S3 \<and> arrays (view S3) = arrays (view S) \<and>
      (r3 = Inr () \<longrightarrow> arrays (as_backend S3) = arrays (view S))"
    using store_flush_view [OF assms(1), of iter r3 S3] assms(2) by blast
qed

theorem store_writes_refine_witness:
  "arrays (view (snd (store_remove_array demo_store [1]))) = Map.empty"
proof -
  obtain r S where S: "store_remove_array demo_store [1] = (r, S)" by fastforce
  have "arrays (view S) = (arrays (view demo_store))([1] := None)"
    using store_writes_refine [OF demo_store_ok lawful_some_order] S by blast
  then show ?thesis using S by (simp add: demo_store_view)
qed

end
