(* ===== verification/WindowReads.thy ===== *)
theory WindowReads
  imports Materialize SeriesTimelines StoreReads
begin

text \<open>
  Lemmas on reading a single series by a window: stepping on from a point of a grid, resolving the
  window, cutting the slice, and the timestamps of what was read.
\<close>

section \<open>Grids started over\<close>

context chrono_laws
begin

text \<open>
  Stepping on from a point of a grid never runs past the stored grid, even when clamping made the
  two differ, and always past the point before.
\<close>

lemma reanchored_bounds:
  assumes t: "regular C t" and p: "is_positive C p" and u: "add_to C p t (int i) = Some u"
    and e: "add_to C p u (int n) = Some e"
  shows "(\<forall>v. add_to C p t (int (i + n)) = Some v \<longrightarrow> e \<le> v) \<and>
    (0 < n \<longrightarrow> (\<exists>v. add_to C p t (int (i + n - 1)) = Some v \<and> v < e))"
  using p
proof (cases rule: positive_cases)
  case (fixed ms)
  note g = period_grid [OF t p]
  have e': "add_to C p t (int (i + n)) = Some e"
    using add_to_Fixed_assoc [OF t fixed(2) u [unfolded fixed(1)]] e by (simp add: fixed(1) del: add_to.simps)
  obtain w where w: "add_to C p t (int (i + n - 1)) = Some w"
    using grid.point_closed [OF g, of "i + n" "i + n - 1"] e' by (auto simp del: add_to.simps)
  then show ?thesis using grid.point_mono [OF g w e'] e' by (auto simp del: add_to.simps)
next
  case (months m)
  have cu: "checked_add_months C t (m * i) = Some u" and ce: "checked_add_months C u (m * n) = Some e"
    using u e by (auto simp: months(1) add_to_Months simp del: add_to.simps split: if_splits)
  note tu = add_months_civil [OF t cu]
  note ue = add_months_civil [OF conjunct1 [OF tu] ce]
  have idx: "month_index C e = month_index C t + int (m * (i + n))"
    using tu ue by (simp add: algebra_simps)
  have "e \<le> v" if v: "add_to C p t (int (i + n)) = Some v" for v
  proof -
    have cv: "checked_add_months C t (m * (i + n)) = Some v"
      using v unfolding months(1) add_to_Months by (simp split: if_splits)
    note tv = add_months_civil [OF t cv]
    have same: "month_index C e = month_index C v" "time_of_day e = time_of_day v" using idx tu ue tv by simp_all
    have day: "dt_day C e \<le> dt_day C v" using tu ue tv same(1) by (auto simp: min_def)
    show "e \<le> v"
    proof (cases "dt_day C e = dt_day C v")
      case True
      then show ?thesis using civil_inject [OF same(1) _ same(2)] by simp
    next
      case False
      then show ?thesis using day_mono [OF same(1) [symmetric]] day by (metis linorder_le_cases order_antisym)
    qed
  qed
  moreover have "\<exists>v. add_to C p t (int (i + n - 1)) = Some v \<and> v < e" if "0 < n"
  proof -
  have max: "month_index C e \<le> month_index C (max_utc C)" "month_index C (min_utc C) \<le> month_index C t"
    using ue t unfolding regular_def by (blast intro: month_index_mono)+
  have less: "m * (i + n - 1) < m * (i + n)" using that months(2) by simp
  then have le: "int (m * (i + n - 1)) < int (m * (i + n))" by (simp only: of_nat_less_iff)
  have "int (m * (i + n - 1)) \<le> int u32_max" using idx max range_months le by linarith
  moreover have "checked_add_months C t (m * (i + n - 1)) \<noteq> None"
    using add_months_defined [OF t, of "m * (i + n - 1)"] idx max le by linarith
  then obtain w where w: "checked_add_months C t (m * (i + n - 1)) = Some w" by blast
  ultimately have "add_to C p t (int (i + n - 1)) = Some w"
    unfolding months(1) add_to_Months by (simp only: of_nat_le_iff if_True)
  moreover have "w < e" using add_months_civil [OF t w] idx le by (intro month_index_less) linarith
  ultimately show ?thesis by blast
  qed
  ultimately show ?thesis by blast
qed

lemma floor_on_grid:
  assumes "regular C t" "is_positive C p" "add_to C p t (int i) = Some u"
  shows "floor_steps C p t u = i" "t \<le> u"
proof -
  note g = period_grid [OF assms(1,2)]
  show le: "t \<le> u" using grid.point_mono_le [OF g grid.point_0 [OF g] assms(3)] by simp
  have "grid.last_at (\<lambda>k. add_to C p t (int k)) u i"
    using assms(3) grid.point_mono [OF g assms(3)] by (auto simp: grid.last_at_def [OF g] simp del: add_to.simps)
  then show "floor_steps C p t u = i"
    using grid.last_at_eq [OF g floor_steps_last [OF assms(1) add_to_regular [OF assms] le assms(2)]] by blast
qed

lemma ceil_reanchored:
  assumes t: "regular C t" and p: "is_positive C p" and u: "add_to C p t (int i) = Some u"
    and e: "add_to C p u (int n) = Some e" and n: "0 < n"
  shows "ceil_steps C p t e = i + n" "t \<le> e" "u \<le> e"
proof -
  note g = period_grid [OF t p]
  have ru: "regular C u" by (rule add_to_regular [OF t p u])
  have re: "regular C e" by (rule add_to_regular [OF ru p e])
  show le: "u \<le> e" using floor_on_grid(2) [OF ru p e] .
  then show te: "t \<le> e" using floor_on_grid(2) [OF t p u] by simp
  obtain v where v: "add_to C p t (int (i + n - 1)) = Some v" "v < e" using reanchored_bounds [OF t p u e] n by blast
  note ceil = ceil_steps_first [OF t re te p]
  have "\<not> ceil_steps C p t e < i + n"
  proof
    assume "ceil_steps C p t e < i + n"
    then have k: "ceil_steps C p t e \<le> i + n - 1" by simp
    then obtain w where w: "add_to C p t (int (ceil_steps C p t e)) = Some w"
      using grid.point_closed [OF g _ k] v(1) by (auto simp del: add_to.simps)
    then have "e \<le> w" "w \<le> v" using ceil grid.point_mono_le [OF g w v(1) k] by blast+
    with v(2) show False by simp
  qed
  moreover have "\<not> i + n < ceil_steps C p t e"
  proof
    assume "i + n < ceil_steps C p t e"
    then obtain w where "add_to C p t (int (i + n)) = Some w" "w < e" using ceil by blast
    then show False using reanchored_bounds [OF t p u e] by fastforce
  qed
  ultimately show "ceil_steps C p t e = i + n" by simp
qed

end

section \<open>Windows of a single series\<close>

lemma guard_Inr: "(if b then Inl e else x) = Inr y \<longleftrightarrow> \<not> b \<and> x = Inr y"
  by simp

lemma store_slice: "arrays (view S) h = Some a \<Longrightarrow> arr_dtype a = d \<Longrightarrow> store_get_slice S h d rng = slice_axis a 0 rng"
  by (simp add: store_get_slice_view mem_get_slice_def mem_get_array_def check_dtype_def)

text \<open>The catalog row of a single series over array \<open>a\<close>, on a grid of positive steps.\<close>

definition single_row :: "chrono \<Rightarrow> array_store \<Rightarrow> ts_metadata \<Rightarrow> typed_array \<Rightarrow> datetime \<Rightarrow> period \<Rightarrow> bool" where
  "single_row C S m a initial res \<longleftrightarrow>
     m_type m = SingleTimeSeries \<and> m_initial_timestamp m = Some initial \<and> m_resolution m = Some res \<and>
     m_length m = Some (ta_length a) \<and> arrays (view S) (m_data_hash m) = Some a \<and> arr_dtype a = row_dtype m \<and>
     wf_array a \<and> shape a \<noteq> [] \<and> ta_length a < 2 ^ 63 \<and> regular C initial \<and> is_positive C res"

definition window_begin :: "read_window_request \<Rightarrow> datetime \<Rightarrow> datetime" where
  "window_begin w initial = (case rw_start w of None \<Rightarrow> initial | Some t \<Rightarrow> t)"

text \<open>The window asks for the \<open>n\<close> steps of an \<open>L\<close> step grid from step \<open>i\<close> on, and for nothing else.\<close>

definition names_steps :: "chrono \<Rightarrow> read_window_request \<Rightarrow> ts_metadata \<Rightarrow> datetime \<Rightarrow> period \<Rightarrow> nat \<Rightarrow> nat \<Rightarrow> nat \<Rightarrow> bool" where
  "names_steps C w m initial res L i n \<longleftrightarrow>
     rw_count w = None \<and> add_to C res initial (int i) = Some (window_begin w initial) \<and>
     n = (case rw_len w of None \<Rightarrow> L - i | Some k \<Rightarrow> k) \<and> 0 < n \<and> i + n \<le> L \<and>
     add_to C res (window_begin w initial) (int n) \<noteq> None \<and>
     (rw_start w \<noteq> None \<longrightarrow> (rw_zoneless w \<longleftrightarrow> m_time_reference m = Some Zoneless))"

lemma window_extent_Inr:
  "window_extent requested i L = Inr n \<longleftrightarrow>
     n = (case requested of None \<Rightarrow> L - i | Some k \<Rightarrow> k) \<and> 0 < n \<and> n \<le> L - i"
  by (auto simp: window_extent_def Let_def split: option.splits)

lemma check_against_Inr: "check_against r ref = Inr () \<longleftrightarrow> (range_zoneless r \<longleftrightarrow> ref = Some Zoneless)"
  by (cases "range_zoneless r"; cases "ref = Some Zoneless") (simp_all add: check_against_def accepts_zoned_bound_def)

lemma checked_window:
  "checked_bounds m (Some (rw_range w m start until)) = Inr b \<longleftrightarrow>
     b = Some (start, until) \<and> (rw_start w \<noteq> None \<longrightarrow> (rw_zoneless w \<longleftrightarrow> m_time_reference m = Some Zoneless))"
  by (auto simp: checked_bounds_def result_elims check_against_Inr rw_range_def range_spelled_def range_bounds_def
      accepts_zoned_bound_def split: option.splits)

context chrono_laws
begin

lemma steps_between_iff:
  "regular C t \<Longrightarrow> is_positive C p \<Longrightarrow> no_leap v \<Longrightarrow> steps_between C p t v = Inr k \<longleftrightarrow> add_to C p t (int k) = Some v"
  using steps_between_sound [of t v p k] steps_between_on_grid [of t p k v] by (auto simp: regular_def)

lemma resolve_single_Inr:
  assumes row: "single_row C S m a initial res" and leap: "no_leap (window_begin w initial)"
  shows "resolve_single C w m = Inr r \<longleftrightarrow>
    rw_count w = None \<and> (\<exists>i n e. add_to C res initial (int i) = Some (window_begin w initial) \<and>
      n = (case rw_len w of None \<Rightarrow> ta_length a - i | Some k \<Rightarrow> k) \<and> 0 < n \<and> i + n \<le> ta_length a \<and>
      add_to C res (window_begin w initial) (int n) = Some e \<and> r = rw_range w m (window_begin w initial) e)"
proof -
  have m: "m_initial_timestamp m = Some initial" "m_resolution m = Some res" "m_length m = Some (ta_length a)"
    "ta_length a < 2 ^ 63" "regular C initial" "is_positive C res"
    using row by (simp_all add: single_row_def)
  have small: "as_i64 n = int n" if "i + n \<le> ta_length a" for i n using that m(4) by simp
  have count: "reject_count w = Inr () \<longleftrightarrow> rw_count w = None" by (simp add: reject_count_def split: option.splits)
  have "resolve_single C w m = Inr r \<longleftrightarrow> rw_count w = None \<and>
      (\<exists>i. add_to C res initial (int i) = Some (window_begin w initial) \<and> i < ta_length a \<and>
        (\<exists>n. window_extent (rw_len w) i (ta_length a) = Inr n \<and>
          (\<exists>e. add_to C res (window_begin w initial) (as_i64 n) = Some e \<and> r = rw_range w m (window_begin w initial) e)))"
    using m(1-3)
    by (simp add: resolve_single_def result_elims guard_Inr required_field_def count Let_def window_begin_def [symmetric]
        steps_between_iff [OF m(5,6) leap] not_le del: add_to.simps if_split) blast
  also have "\<dots> \<longleftrightarrow> rw_count w = None \<and> (\<exists>i n e. add_to C res initial (int i) = Some (window_begin w initial) \<and>
      n = (case rw_len w of None \<Rightarrow> ta_length a - i | Some k \<Rightarrow> k) \<and> 0 < n \<and> i + n \<le> ta_length a \<and>
      add_to C res (window_begin w initial) (int n) = Some e \<and> r = rw_range w m (window_begin w initial) e)"
  proof -
    have "i < ta_length a \<and> window_extent (rw_len w) i (ta_length a) = Inr n \<and>
          add_to C res (window_begin w initial) (as_i64 n) = Some e \<longleftrightarrow>
        n = (case rw_len w of None \<Rightarrow> ta_length a - i | Some k \<Rightarrow> k) \<and> 0 < n \<and> i + n \<le> ta_length a \<and>
          add_to C res (window_begin w initial) (int n) = Some e" for i n e
      using small [of i n] unfolding window_extent_Inr by (auto simp del: add_to.simps)
    then show ?thesis by blast
  qed
  finally show ?thesis .
qed

lemma read_single_window:
  assumes row: "single_row C S m a initial res" and leap: "no_leap (window_begin w initial)"
    and full: "\<not> rw_is_full w"
  shows "read_windowed C S w m = Inr d \<longleftrightarrow>
    (\<exists>i n b. names_steps C w m initial res (ta_length a) i n \<and> sub_grid_is_anchorable C res initial i n \<and>
      slice_axis a 0 (i, i + n) = Inr b \<and>
      d = set_descriptors (descriptors_of m) (SingleData (single_series m (window_begin w initial) res n b)))"
proof -
  note sl = store_slice [of S "m_data_hash m" a "row_dtype m"]
  have m: "m_type m = SingleTimeSeries" "m_initial_timestamp m = Some initial" "m_resolution m = Some res"
    "m_length m = Some (ta_length a)" "ta_length a < 2 ^ 63" "regular C initial" "is_positive C res"
    and slice: "store_get_slice S (m_data_hash m) (row_dtype m) rng = slice_axis a 0 rng" for rng
    using row sl by (simp_all add: single_row_def)
  let ?from = "window_begin w initial"
  have cut: "materialize_single C S m (Some (?from, e)) = Inr d' \<longleftrightarrow>
      sub_grid_is_anchorable C res initial i n \<and>
      (\<exists>b. slice_axis a 0 (i, i + n) = Inr b \<and> d' = SingleData (single_series m ?from res n b))"
    if "add_to C res initial (int i) = Some ?from" "add_to C res ?from (int n) = Some e" "0 < n" "i + n \<le> ta_length a"
    for i n e d'
  proof -
    note ceil = ceil_reanchored [OF m(6,7) that(1-3)]
    have "slice_single C S m initial res (ta_length a) ?from e =
        rbind (raise (require_anchorable_slice C res initial i n)) (\<lambda>_.
        rbind (slice_axis a 0 (i, i + n)) (\<lambda>b. Inr (b, ?from, n)))"
      using ceil floor_on_grid [OF m(6,7) that(1)] that m(5,7)
      by (simp add: slice_single_def slice min_absorb1 max_absorb1 not_less [symmetric] del: add_to.simps)
    then show ?thesis
      using m by (auto simp: materialize_single_def required_field_def result_elims require_anchorable_slice_def
          simp del: sub_grid_is_anchorable.simps split: if_splits)
  qed
  have read: "read_windowed C S w m = Inr d \<longleftrightarrow>
      (\<exists>r. resolve_single C w m = Inr r \<and> (\<exists>bounds. checked_bounds m (Some r) = Inr bounds \<and>
        (\<exists>d'. materialize_single C S m bounds = Inr d' \<and> d = set_descriptors (descriptors_of m) d')))"
    using m(1) full by (simp add: read_windowed_def rw_resolve_def materialize_time_series_def
        materialize_prefetched_def materialize_array_def result_elims) blast
  show ?thesis
  proof
    assume "read_windowed C S w m = Inr d"
    then obtain r bounds d' where r: "resolve_single C w m = Inr r" "checked_bounds m (Some r) = Inr bounds"
      "materialize_single C S m bounds = Inr d'" "d = set_descriptors (descriptors_of m) d'"
      using read by blast
    then obtain i n e where i: "rw_count w = None" "add_to C res initial (int i) = Some ?from"
      "n = (case rw_len w of None \<Rightarrow> ta_length a - i | Some k \<Rightarrow> k)" "0 < n" "i + n \<le> ta_length a"
      "add_to C res ?from (int n) = Some e" "r = rw_range w m ?from e"
      unfolding resolve_single_Inr [OF row leap] by blast
    have b: "bounds = Some (?from, e)" "rw_start w \<noteq> None \<longrightarrow> (rw_zoneless w \<longleftrightarrow> m_time_reference m = Some Zoneless)"
      using r(2) unfolding i(7) checked_window by blast+
    have "names_steps C w m initial res (ta_length a) i n" using i b(2) by (simp add: names_steps_def del: add_to.simps)
    moreover obtain b where "sub_grid_is_anchorable C res initial i n" "slice_axis a 0 (i, i + n) = Inr b"
      "d' = SingleData (single_series m ?from res n b)"
      using r(3) cut [OF i(2,6,4,5), of d'] unfolding b(1) by blast
    ultimately show "\<exists>i n b. names_steps C w m initial res (ta_length a) i n \<and> sub_grid_is_anchorable C res initial i n \<and>
        slice_axis a 0 (i, i + n) = Inr b \<and>
        d = set_descriptors (descriptors_of m) (SingleData (single_series m ?from res n b))"
      using r(4) by blast
  next
    assume "\<exists>i n b. names_steps C w m initial res (ta_length a) i n \<and> sub_grid_is_anchorable C res initial i n \<and>
        slice_axis a 0 (i, i + n) = Inr b \<and>
        d = set_descriptors (descriptors_of m) (SingleData (single_series m ?from res n b))"
    then obtain i n b where n: "names_steps C w m initial res (ta_length a) i n"
      "sub_grid_is_anchorable C res initial i n" "slice_axis a 0 (i, i + n) = Inr b"
      "d = set_descriptors (descriptors_of m) (SingleData (single_series m ?from res n b))"
      by blast
    then obtain e where e: "rw_count w = None" "add_to C res initial (int i) = Some ?from"
      "n = (case rw_len w of None \<Rightarrow> ta_length a - i | Some k \<Rightarrow> k)" "0 < n" "i + n \<le> ta_length a"
      "add_to C res ?from (int n) = Some e"
      "rw_start w \<noteq> None \<longrightarrow> (rw_zoneless w \<longleftrightarrow> m_time_reference m = Some Zoneless)"
      unfolding names_steps_def by blast
    have "resolve_single C w m = Inr (rw_range w m ?from e)" unfolding resolve_single_Inr [OF row leap] using e by blast
    moreover have "checked_bounds m (Some (rw_range w m ?from e)) = Inr (Some (?from, e))"
      unfolding checked_window using e(7) by blast
    moreover have "materialize_single C S m (Some (?from, e)) = Inr (SingleData (single_series m ?from res n b))"
      using cut [OF e(2,6,4,5)] n(2,3) by blast
    ultimately show "read_windowed C S w m = Inr d" unfolding read using n(4) by blast
  qed
qed


lemma window_timestamps_stored:
  assumes row: "single_row C S m a initial res" and n: "names_steps C w m initial res (ta_length a) i n"
    and anchor: "sub_grid_is_anchorable C res initial i n"
  obtains ts where "sts_timestamps C (single_series m (window_begin w initial) res n b) = Inr ts" "length ts = n"
    "\<And>j. j < n \<Longrightarrow> add_to C res initial (int (i + j)) = Some (ts ! j)"
proof -
  let ?from = "window_begin w initial"
  have m: "ta_length a < 2 ^ 63" "regular C initial" "is_positive C res" using row by (simp_all add: single_row_def)
  have i: "add_to C res initial (int i) = Some ?from" "add_to C res ?from (int n) \<noteq> None" "i + n \<le> ta_length a"
    using n unfolding names_steps_def by blast+
  have g: "grid (\<lambda>k. add_to C res ?from (int k)) ?from"
    by (rule period_grid [OF add_to_regular [OF m(2,3) i(1)] m(3)])
  have same: "add_to C res ?from (int j) = add_to C res initial (int (i + j))" if "j < n" for j
    using anchor that unfolding anchorable_iff [OF m(2,3) i(1)] by blast
  have ex: "\<exists>t. add_to C res ?from (int j) = Some t" if "j < n" for j
    using grid.point_closed [OF g i(2), of j] that by (auto simp del: add_to.simps)
  define ts where "ts = map (\<lambda>j. the (add_to C res ?from (int j))) [0..<n]"
  have pts: "add_to C res ?from (int j) = Some (ts ! j)" if "j < n" for j
    using ex [OF that] that by (auto simp: ts_def simp del: add_to.simps)
  have fields: "initial_timestamp (single_series m ?from res n b) = ?from"
    "resolution (single_series m ?from res n b) = res" "series_length (single_series m ?from res n b) = n"
    by (simp_all add: single_series_def series_records)
  have "list_all2 (\<lambda>k t. map_err (\<lambda>_. Panicked) (sts_timestamp_at C (single_series m ?from res n b) k) = Inr t) [0..<n] ts"
    using pts m(1) i(3)
    by (auto simp: list_all2_conv_all_nth ts_def sts_timestamp_at_def fields result_elims simp del: add_to.simps)
  then have "sts_timestamps C (single_series m ?from res n b) = Inr ts"
    by (simp add: sts_timestamps_def fields result_elims)
  then show thesis by (rule that) (use pts same in \<open>simp_all add: ts_def del: add_to.simps of_nat_add\<close>)
qed

end

lemma single_slice_ok:
  assumes "single_row C S m a initial res" "i + n \<le> ta_length a"
  obtains b where "slice_axis a 0 (i, i + n) = Inr b"
proof -
  have s: "wf_array a" "shape a \<noteq> []" using assms(1) by (simp_all add: single_row_def)
  then have "ta_length a = shape a ! 0" by (cases "shape a") (simp_all add: ta_length_def)
  then show thesis using slice_axis_ok [OF s(1), of 0 i "i + n"] s(2) assms(2) that by auto
qed

lemma timestamps_with_descriptors: "sts_timestamps C (with_descriptors f s) = sts_timestamps C s"
  by (cases s) (simp add: sts_timestamps_def sts_timestamp_at_def with_descriptors_def descriptors.defs)

section \<open>Properties\<close>

text \<open>C33: a window of a single series is exact or refused. Reading steps \<open>i\<close> to \<open>i + n\<close> by a window
  succeeds exactly when the window starts on the stored grid, selects at least one step and none past
  the end, is spelled the way the series is, and the slice can be described by a grid of its own. The
  series read then holds the stored rows \<open>i\<close> to \<open>i + n\<close>, and its timestamps are the stored grid's.\<close>

theorem windowed_read_exact:
  assumes "chrono_laws C dim tod" "single_row C S m a initial res" "no_leap (window_begin w initial)" "\<not> rw_is_full w"
  shows "((\<exists>d. read_windowed C S w m = Inr d) \<longleftrightarrow>
      (\<exists>i n. names_steps C w m initial res (ta_length a) i n \<and> sub_grid_is_anchorable C res initial i n)) \<and>
    (names_steps C w m initial res (ta_length a) i n \<and> sub_grid_is_anchorable C res initial i n \<longrightarrow>
      (\<exists>s ts. read_windowed C S w m = Inr (SingleData s) \<and> series_length s = n \<and>
        slice_axis a 0 (i, i + n) = Inr (s_data s) \<and> sts_timestamps C s = Inr ts \<and> length ts = n \<and>
        (\<forall>j < n. add_to C res initial (int (i + j)) = Some (ts ! j))))"
proof -
  note read = chrono_laws.read_single_window [OF assms]
  have ok: "\<exists>s ts. read_windowed C S w m = Inr (SingleData s) \<and> series_length s = n \<and>
        slice_axis a 0 (i, i + n) = Inr (s_data s) \<and> sts_timestamps C s = Inr ts \<and> length ts = n \<and>
        (\<forall>j < n. add_to C res initial (int (i + j)) = Some (ts ! j))"
    if n: "names_steps C w m initial res (ta_length a) i n" "sub_grid_is_anchorable C res initial i n" for i n
  proof -
    have "i + n \<le> ta_length a" using n(1) by (simp add: names_steps_def)
    then obtain b where b: "slice_axis a 0 (i, i + n) = Inr b" by (rule single_slice_ok [OF assms(2)])
    obtain ts where ts: "sts_timestamps C (single_series m (window_begin w initial) res n b) = Inr ts" "length ts = n"
      "\<And>j. j < n \<Longrightarrow> add_to C res initial (int (i + j)) = Some (ts ! j)"
      using chrono_laws.window_timestamps_stored [OF assms(1,2) n, of b] by blast
    let ?s = "with_descriptors (\<lambda>_. descriptors_of m) (single_series m (window_begin w initial) res n b)"
    have "read_windowed C S w m = Inr (SingleData ?s)"
      unfolding read using n b by (auto simp: set_descriptors_def)
    moreover have "series_length ?s = n" "s_data ?s = b"
      by (simp_all add: single_series_def with_descriptors_def series_records)
    ultimately show ?thesis using b ts timestamps_with_descriptors by metis
  qed
  moreover have "\<exists>i n. names_steps C w m initial res (ta_length a) i n \<and> sub_grid_is_anchorable C res initial i n"
    if "read_windowed C S w m = Inr d" for d
    using that unfolding read by blast
  ultimately show ?thesis by blast
qed


definition demo_row :: ts_metadata where
  "demo_row =
     \<lparr>m_owner_id = 1, m_owner_type = ''Bus'', m_owner_category = Component, m_type = SingleTimeSeries,
      m_name = ''load'', m_data_hash = [1], m_initial_timestamp = Some (day_2024 1 31),
      m_resolution = Some (Months 1), m_length = Some 2, m_horizon = None, m_interval = None, m_count = None,
      m_timestamps = None, m_features = [], m_units = None, m_quantity_kind = None, m_unit_system = None,
      m_time_reference = None, m_component_field = None, m_percentiles = None, m_element_type = ScalarOf U8,
      m_element_shape = [3], m_application_data = None, m_id = Some 7\<rparr>"

lemma demo_single_row: "single_row gregorian demo_store demo_row demo_array (day_2024 1 31) (Months 1)"
  using wf_demo
  by (simp add: single_row_def demo_row_def demo_store_view row_dtype_def ta_length_def) (simp add: demo_array_def)

theorem windowed_read_exact_witness:
  "\<exists>s. read_windowed gregorian demo_store (rw_with_len 1 (rw_from (day_2024 2 29))) demo_row = Inr (SingleData s) \<and>
    sts_timestamps gregorian s = Inr [day_2024 2 29]"
proof -
  define w where "w = rw_with_len 1 (rw_from (day_2024 2 29))"
  have fields: "window_begin w (day_2024 1 31) = day_2024 2 29" "\<not> rw_is_full w" "rw_len w = Some 1" "rw_count w = None"
    "\<not> rw_zoneless w"
    by (simp_all add: w_def window_begin_def rw_is_full_def rw_with_len_def rw_from_def rw_full_def)
  have steps: "add_to gregorian (Months 1) (day_2024 1 31) (int 1) = Some (day_2024 2 29)"
    "add_to gregorian (Months 1) (day_2024 2 29) (int 1) \<noteq> None"
    using steps_2024(2,4) by (simp_all del: add_to.simps)
  have L: "ta_length demo_array = 2" by (simp add: demo_array_def ta_length_def)
  have names: "names_steps gregorian w demo_row (day_2024 1 31) (Months 1) (ta_length demo_array) 1 1"
    using steps by (simp add: names_steps_def fields L demo_row_def del: add_to.simps)
  have "sub_grid_is_anchorable gregorian (Months 1) (day_2024 1 31) 1 1" by simp
  then obtain s ts where s: "read_windowed gregorian demo_store w demo_row = Inr (SingleData s)"
    "sts_timestamps gregorian s = Inr ts" "length ts = 1"
    "\<forall>j < 1. add_to gregorian (Months 1) (day_2024 1 31) (int (1 + j)) = Some (ts ! j)"
    using windowed_read_exact [OF gregorian_laws demo_single_row, of w 1 1] names fields(1,2) no_leap_2024 by auto
  have "ts ! 0 = day_2024 2 29" using s(4) steps(1) by (simp del: add_to.simps)
  then have "ts = [day_2024 2 29]" using s(3) by (cases ts) auto
  with s show ?thesis by (auto simp: w_def)
qed

end
