(* ===== verification/SeriesReads.thy ===== *)
theory SeriesReads
  imports WindowReads
begin

text \<open>
  Properties of reading series: a bulk read answers like one read per row, a range selects exactly
  the forecast windows that start in it, a slice of a step function keeps its values, and a derived
  forecast holds the rows of the series it is a view of.
\<close>

section \<open>Bulk reads\<close>

lemma bulk_single_same:
  assumes "m_type m = SingleTimeSeries" "store_get_array S (m_data_hash m) (row_dtype m) = Inr a"
  shows "raise (bulk_single m a) = materialize_time_series C S m None"
  using assms
  by (cases "m_initial_timestamp m"; cases "m_resolution m"; cases "m_length m")
    (simp_all add: bulk_single_def materialize_time_series_def materialize_prefetched_def materialize_array_def
      checked_bounds_def materialize_single_def required_field_def set_descriptors_def with_descriptors_def
      single_series_def sts_new_def series_records)

lemma prefetched_same:
  assumes "m_type m = NonSequentialTimeSeries \<or> m_type m = PersistentTimeSeries"
    and "store_get_array S (m_data_hash m) (row_dtype m) = Inr a"
  shows "materialize_prefetched C S m None (Some a) = materialize_time_series C S m None"
  using assms
  by (auto simp: materialize_time_series_def materialize_prefetched_def materialize_array_def checked_bounds_def
      materialize_non_sequential_def materialize_persistent_def whole_explicit_def)

lemma batched_cases: "batched t \<longleftrightarrow> t = SingleTimeSeries \<or> t = NonSequentialTimeSeries \<or> t = PersistentTimeSeries"
  by (cases t) simp_all

lemma bulk_rows_same:
  assumes "list_all2 (\<lambda>m a. store_get_array S (m_data_hash m) (row_dtype m) = Inr a)
    (filter (\<lambda>m. batched (m_type m)) ms) packed"
  shows "bulk_rows C S ms packed = rmap_all (\<lambda>m. materialize_time_series C S m None) ms"
  using assms
proof (induction C S ms packed rule: bulk_rows.induct)
  case (2 C S m ms packed)
  show ?case
  proof (cases "batched (m_type m)")
    case True
    then obtain a packed' where p: "packed = a # packed'"
      "store_get_array S (m_data_hash m) (row_dtype m) = Inr a"
      "list_all2 (\<lambda>m a. store_get_array S (m_data_hash m) (row_dtype m) = Inr a)
        (filter (\<lambda>m. batched (m_type m)) ms) packed'"
      using "2.prems" by (auto simp: list_all2_Cons1)
    have "(if m_type m = SingleTimeSeries then raise (bulk_single m a)
           else materialize_prefetched C S m None (Some a)) = materialize_time_series C S m None"
      using True bulk_single_same [OF _ p(2)] prefetched_same [OF _ p(2)] by (auto simp: batched_cases)
    then show ?thesis using True p "2.IH"(1) by (simp cong: rbind_cong)
  next
    case False
    then show ?thesis using 2 by (simp cong: rbind_cong)
  qed
qed simp

lemma materialize_needs_array:
  assumes "materialize_time_series C S m None = Inr d" "batched (m_type m)"
  shows "\<exists>a. store_get_array S (m_data_hash m) (row_dtype m) = Inr a"
  using assms
  by (auto simp: materialize_time_series_def materialize_prefetched_def materialize_array_def checked_bounds_def
      materialize_single_def materialize_non_sequential_def materialize_persistent_def whole_explicit_def
      result_elims batched_cases)

lemma zip_map_both: "zip (map f xs) (map g xs) = map (\<lambda>x. (f x, g x)) xs"
  by (induction xs) simp_all

lemma bulk_arrays:
  assumes "store_ok S"
  shows "store_read_arrays S (map m_data_hash ms) (map row_dtype ms) = Inr as \<longleftrightarrow>
    list_all2 (\<lambda>m a. store_get_array S (m_data_hash m) (row_dtype m) = Inr a) ms as"
  using store_read_arrays_view [OF assms, of "map row_dtype ms" "map m_data_hash ms" as]
  by (simp add: read_arrays_Inr zip_map_both list_all2_map1 store_get_array_view)

text \<open>C38: reading many series whole is reading each. The batched read, which fetches the arrays of all
  static rows in one call before it builds any series, returns exactly what one read per row
  returns, and fails exactly when one of these fails.\<close>

theorem bulk_read_is_each_read:
  assumes "store_ok S"
  shows "bulk_read_metas C S ms = Inr ds \<longleftrightarrow> rmap_all (\<lambda>m. materialize_time_series C S m None) ms = Inr ds"
proof -
  let ?packed = "filter (\<lambda>m. batched (m_type m)) ms"
  let ?held = "\<lambda>m a. store_get_array S (m_data_hash m) (row_dtype m) = Inr a"
  note arrays = bulk_arrays [OF assms, of ?packed]
  show ?thesis
  proof
    assume "bulk_read_metas C S ms = Inr ds"
    then obtain as where "store_read_arrays S (map m_data_hash ?packed) (map row_dtype ?packed) = Inr as"
      "bulk_rows C S ms as = Inr ds"
      by (auto simp: bulk_read_metas_def Let_def rbind_Inr_iff raise_Inr_iff)
    then have held: "list_all2 ?held ?packed as" and rows: "bulk_rows C S ms as = Inr ds" using arrays [of as] by blast+
    show "rmap_all (\<lambda>m. materialize_time_series C S m None) ms = Inr ds"
      using rows unfolding bulk_rows_same [OF held] .
  next
    assume each: "rmap_all (\<lambda>m. materialize_time_series C S m None) ms = Inr ds"
    have "\<exists>a. ?held m a" if row: "m \<in> set ?packed" for m
    proof -
      have "list_all2 (\<lambda>m d. materialize_time_series C S m None = Inr d) ms ds"
        using each by (simp only: rmap_all_Inr_iff)
      then obtain d where "materialize_time_series C S m None = Inr d"
        using row by (auto simp: list_all2_conv_all_nth in_set_conv_nth)
      then show ?thesis using row by (intro materialize_needs_array) simp_all
    qed
    then have "\<exists>f. \<forall>m \<in> set ?packed. ?held m (f m)" by (intro bchoice) blast
    then obtain f where "\<forall>m \<in> set ?packed. ?held m (f m)" by blast
    then have held: "list_all2 ?held ?packed (map f ?packed)" by (simp add: list_all2_map2 list_all2_same)
    then have "store_read_arrays S (map m_data_hash ?packed) (map row_dtype ?packed) = Inr (map f ?packed)"
      unfolding arrays .
    then show "bulk_read_metas C S ms = Inr ds"
      by (simp add: bulk_read_metas_def Let_def bulk_rows_same [OF held] each)
  qed
qed

theorem bulk_read_is_each_read_witness:
  "\<exists>d. bulk_read_metas gregorian demo_store [demo_row, demo_row] = Inr [d, d]"
proof -
  have "store_get_array demo_store [1] U8 = Inr demo_array"
    unfolding store_get_array_view by (simp add: mem_get_array_def demo_store_view check_dtype_def) (simp add: demo_array_def)
  then obtain d where "materialize_time_series gregorian demo_store demo_row None = Inr d"
    by (simp add: demo_row_def row_dtype_def materialize_time_series_def materialize_prefetched_def materialize_array_def
        checked_bounds_def materialize_single_def required_field_def)
  then show ?thesis using bulk_read_is_each_read [OF demo_store_ok, of gregorian "[demo_row, demo_row]" "[d, d]"] by simp
qed

section \<open>Windows of a range\<close>

lemma search_windows_bounds: "search_windows C itv initial until lo hi = Inr w \<Longrightarrow> lo \<le> hi \<Longrightarrow> lo \<le> w \<and> w \<le> hi"
proof (induction C itv initial until lo hi rule: search_windows.induct)
  case (1 C itv initial until lo hi)
  define mid where "mid = lo + (hi - lo) div 2"
  show ?case
  proof (cases "lo < hi")
    case True
    then have mid: "lo \<le> mid" "mid < hi" by (auto simp: mid_def)
    obtain t where t: "window_at C itv initial mid = Inr t"
      and step: "(if t < until then search_windows C itv initial until (mid + 1) hi
        else search_windows C itv initial until lo mid) = Inr w"
      using "1.prems"(1) True
      by (auto simp: search_windows.simps [of C itv initial until lo hi] Let_def mid_def [symmetric] result_elims)
    show ?thesis
    proof (cases "t < until")
      case before: True
      then show ?thesis using step "1.IH"(1) [OF True mid_def t before] mid by simp
    next
      case after: False
      then show ?thesis using step "1.IH"(2) [OF True mid_def t after] mid by simp
    qed
  next
    case False
    then show ?thesis using "1.prems" by (simp, subst (asm) search_windows.simps, simp)
  qed
qed

context chrono_laws
begin

lemma search_windows_Inr:
  assumes g: "grid (\<lambda>k. add_to C itv initial (int k)) initial" and "stored < 2 ^ 63"
    and "search_windows C itv initial until lo hi = Inr w" "lo \<le> hi" "hi \<le> stored"
    and "\<forall>k < lo. \<exists>t. add_to C itv initial (int k) = Some t \<and> t < until"
    and "\<forall>k. hi \<le> k \<and> k < stored \<longrightarrow> \<not> (\<exists>t. add_to C itv initial (int k) = Some t \<and> t < until)"
  shows "lo \<le> w \<and> w \<le> hi \<and> (\<forall>k < stored. k < w \<longleftrightarrow> (\<exists>t. add_to C itv initial (int k) = Some t \<and> t < until))"
  using assms(3-)
proof (induction "hi - lo" arbitrary: lo hi rule: less_induct)
  case less
  show ?case
  proof (cases "lo < hi")
    case False
    then have "lo = hi" "w = lo" using less.prems(1,2) by (simp, subst (asm) search_windows.simps, simp)
    then show ?thesis using less.prems(4,5) by (meson not_le order_refl)
  next
    case True
    define mid where "mid = lo + (hi - lo) div 2"
    have mid: "lo \<le> mid" "mid < hi" using True by (auto simp: mid_def)
    then have small: "as_i64 mid = int mid" using less.prems(3) assms(2) by simp
    obtain t where t: "add_to C itv initial (int mid) = Some t"
      and step: "(if t < until then search_windows C itv initial until (mid + 1) hi
        else search_windows C itv initial until lo mid) = Inr w"
      using less.prems(1) True small
      by (auto simp: search_windows.simps [of C itv initial until lo hi] Let_def mid_def [symmetric] window_at_def
          result_elims simp del: add_to.simps)
    show ?thesis
    proof (cases "t < until")
      case before: True
      have below: "\<exists>u. add_to C itv initial (int k) = Some u \<and> u < until" if k: "k < mid + 1" for k
      proof -
        obtain u where u: "add_to C itv initial (int k) = Some u"
          using grid.point_closed [OF g, of mid k] t k by (auto simp del: add_to.simps)
        then have "u \<le> t" using grid.point_mono_le [OF g u t] k by simp
        with u before show ?thesis by auto
      qed
      have "mid + 1 \<le> w \<and> w \<le> hi \<and> (\<forall>k < stored. k < w \<longleftrightarrow> (\<exists>t. add_to C itv initial (int k) = Some t \<and> t < until))"
        using mid step before less.prems(3,5) below by (intro less.hyps) (auto simp del: add_to.simps)
      moreover from this have "lo \<le> w" using mid(1) by linarith
      ultimately show ?thesis by blast
    next
      case after: False
      have above: "\<not> (\<exists>u. add_to C itv initial (int k) = Some u \<and> u < until)" if k: "mid \<le> k" for k
        using grid.point_mono_le [OF g t _ k] after by (meson not_le order.strict_trans2)
      have "lo \<le> w \<and> w \<le> mid \<and> (\<forall>k < stored. k < w \<longleftrightarrow> (\<exists>t. add_to C itv initial (int k) = Some t \<and> t < until))"
        using mid step after less.prems(3,4) above by (intro less.hyps) (auto simp del: add_to.simps)
      moreover from this have "w \<le> hi" using mid(2) by linarith
      ultimately show ?thesis by blast
    qed
  qed
qed

lemma search_windows_total:
  assumes "stored < 2 ^ 63" "\<forall>k < stored. add_to C itv initial (int k) \<noteq> None" "hi \<le> stored"
  shows "\<exists>w. search_windows C itv initial until lo hi = Inr w"
  using assms(3)
proof (induction "hi - lo" arbitrary: lo hi rule: less_induct)
  case less
  define mid where "mid = lo + (hi - lo) div 2"
  show ?case
  proof (cases "lo < hi")
    case True
    then have mid: "lo \<le> mid" "mid < hi" by (auto simp: mid_def)
    then have "as_i64 mid = int mid" "add_to C itv initial (int mid) \<noteq> None" using less.prems assms(1,2) by simp_all
    then obtain t where "window_at C itv initial mid = Inr t" by (auto simp: window_at_def simp del: add_to.simps)
    moreover have "\<exists>w. search_windows C itv initial until (mid + 1) hi = Inr w"
      using mid less.prems by (intro less.hyps) simp_all
    moreover have "\<exists>w. search_windows C itv initial until lo mid = Inr w"
      using mid less.prems by (intro less.hyps) simp_all
    ultimately show ?thesis
      using True by (simp add: search_windows.simps [of C itv initial until lo hi] Let_def mid_def [symmetric])
  qed (simp add: search_windows.simps [of C itv initial until lo hi])
qed

text \<open>Where the selection starts: the step of \<open>start\<close>, or the first window when it is earlier.\<close>

lemma start_step:
  assumes "regular C initial" "is_positive C itv" "no_leap start"
  shows "(if start \<le> initial then Inr 0
          else map_err (\<lambda>_. InvalidParameter msg) (steps_between C itv initial start)) = Inr k \<longleftrightarrow>
    add_to C itv initial (int k) = Some (max start initial)"
proof (cases "start \<le> initial")
  case True
  note g = period_grid [OF assms(1,2)]
  have "k = 0" if "add_to C itv initial (int k) = Some initial"
    using grid.point_inject [OF g that grid.point_0 [OF g]] .
  then show ?thesis using True grid.point_0 [OF g] by (auto simp: max_def simp del: add_to.simps)
next
  case False
  then show ?thesis by (simp add: max_def result_elims steps_between_iff [OF assms] del: add_to.simps)
qed

lemma resolve_windows_select:
  assumes t: "regular C initial" and p: "is_positive C itv" and leap: "no_leap start" and small: "stored < 2 ^ 63"
    and ok: "resolve_windows C initial itv stored (Some (start, until)) = Inr (w0, w1, at)"
  shows "w0 \<le> w1" "w1 \<le> stored"
    and "\<And>k. k < stored \<Longrightarrow> w0 \<le> k \<and> k < w1 \<longleftrightarrow>
      (\<exists>t. add_to C itv initial (int k) = Some t \<and> start \<le> t \<and> t < until)"
    and "w0 < w1 \<Longrightarrow> add_to C itv initial (int w0) = Some at \<and>
      (\<forall>j < w1 - w0. add_to C itv at (int j) = add_to C itv initial (int (w0 + j)))"
proof -
  note g = period_grid [OF t p]
  obtain k w where k: "\<not> until < start" "add_to C itv initial (int k) = Some (max start initial)" "k < stored"
    "search_windows C itv initial until k stored = Inr w"
    and out: "if w \<le> k then w0 = 0 \<and> w1 = 0 else sub_grid_is_anchorable C itv initial k (w - k) \<and> w0 = k \<and> w1 = w \<and>
      at = max start initial"
  proof -
    have "\<not> until < start" using ok by (auto simp: resolve_windows_def)
    with ok p obtain k where start: "add_to C itv initial (int k) = Some (max start initial)"
      and rest: "(if stored \<le> k then Inl (InvalidParameter ''start_time is past the last window'')
               else rbind (search_windows C itv initial until k stored) (\<lambda>w1.
                    if w1 \<le> k then rbind (window_at C itv initial k) (\<lambda>t. Inr (0, 0, t))
                    else rbind (require_anchorable_slice C itv initial k (w1 - k)) (\<lambda>_.
                         rbind (window_at C itv initial k) (\<lambda>t. Inr (k, w1, t))))) = Inr (w0, w1, at)"
      by (simp add: resolve_windows_def rbind_Inr_iff [where f = "\<lambda>k. if stored \<le> k then _ k else _ k"]
          start_step [OF t p leap] del: add_to.simps) blast
    then have "k < stored" by (simp add: not_le [symmetric] split: if_splits)
    with rest obtain w where w: "search_windows C itv initial until k stored = Inr w"
      and out: "(if w \<le> k then rbind (window_at C itv initial k) (\<lambda>t. Inr (0, 0, t))
                    else rbind (require_anchorable_slice C itv initial k (w - k)) (\<lambda>_.
                         rbind (window_at C itv initial k) (\<lambda>t. Inr (k, w, t)))) = Inr (w0, w1, at)"
      by (auto simp: rbind_Inr_iff)
    have "window_at C itv initial k = Inr (max start initial)"
      using start \<open>k < stored\<close> small by (simp add: window_at_def del: add_to.simps)
    with out have "if w \<le> k then w0 = 0 \<and> w1 = 0 else sub_grid_is_anchorable C itv initial k (w - k) \<and> w0 = k \<and> w1 = w \<and>
        at = max start initial"
      by (cases "w \<le> k") (auto simp: require_anchorable_slice_def simp del: sub_grid_is_anchorable.simps split: if_splits)
    with \<open>\<not> until < start\<close> start \<open>k < stored\<close> w show thesis by (rule that)
  qed
  have below: "\<exists>t. add_to C itv initial (int j) = Some t \<and> t < until \<and> t < start" if less: "j < k" for j
  proof -
    obtain u where u: "add_to C itv initial (int j) = Some u"
      using grid.point_closed [OF g, of k j] k(2) less by (auto simp del: add_to.simps)
    have "initial \<le> u" "u < max start initial"
      using grid.point_mono_le [OF g grid.point_0 [OF g] u] grid.point_mono [OF g u k(2) less] by simp_all
    then have "u < start" by (simp add: max_def split: if_splits)
    with u k(1) show ?thesis by auto
  qed
  have w: "k \<le> w" "w \<le> stored"
    "\<And>j. j < stored \<Longrightarrow> j < w \<longleftrightarrow> (\<exists>t. add_to C itv initial (int j) = Some t \<and> t < until)"
    using search_windows_Inr [OF g small k(4)] k(3) below by (auto simp del: add_to.simps)
  have from_start: "start \<le> u" if "add_to C itv initial (int j) = Some u" "k \<le> j" for j u
    using grid.point_mono_le [OF g k(2) that(1,2)] by simp
  show "w0 \<le> w1" "w1 \<le> stored" using out w(2) by (auto split: if_splits)
  show "w0 \<le> j \<and> j < w1 \<longleftrightarrow> (\<exists>t. add_to C itv initial (int j) = Some t \<and> start \<le> t \<and> t < until)" if "j < stored" for j
  proof -
    have "w0 \<le> j \<and> j < w1 \<longleftrightarrow> k \<le> j \<and> j < w" using out by (auto split: if_splits)
    also have "\<dots> \<longleftrightarrow> (\<exists>t. add_to C itv initial (int j) = Some t \<and> start \<le> t \<and> t < until)"
    proof (cases "k \<le> j")
      case True
      then show ?thesis using w(3) [OF that] from_start by blast
    next
      case False
      then obtain u where "add_to C itv initial (int j) = Some u" "u < start" using below by (meson not_le)
      then show ?thesis using False by (auto simp del: add_to.simps)
    qed
    finally show ?thesis .
  qed
  show "add_to C itv initial (int w0) = Some at \<and>
      (\<forall>j < w1 - w0. add_to C itv at (int j) = add_to C itv initial (int (w0 + j)))" if "w0 < w1"
    using out that k(2) anchorable_iff [OF t p k(2)] by (auto simp del: add_to.simps sub_grid_is_anchorable.simps split: if_splits)
qed

lemma resolve_windows_all:
  assumes t: "regular C initial" and leap: "no_leap start" and small: "stored < 2 ^ 63"
    and ok: "resolve_windows C initial itv stored (Some (start, until)) = Inr (w0, w1, at)"
  shows "w0 \<le> w1" "w1 \<le> stored"
    and "\<And>k. k < stored \<Longrightarrow> w0 \<le> k \<and> k < w1 \<longleftrightarrow>
      (\<exists>t. add_to C itv initial (int k) = Some t \<and> start \<le> t \<and> t < until)"
    and "w0 < w1 \<Longrightarrow> add_to C itv initial (int w0) = Some at \<and>
      (\<forall>j < w1 - w0. add_to C itv at (int j) = add_to C itv initial (int (w0 + j)))"
proof -
  have "w0 \<le> w1 \<and> w1 \<le> stored \<and>
      (\<forall>k < stored. w0 \<le> k \<and> k < w1 \<longleftrightarrow> (\<exists>t. add_to C itv initial (int k) = Some t \<and> start \<le> t \<and> t < until)) \<and>
      (w0 < w1 \<longrightarrow> add_to C itv initial (int w0) = Some at \<and>
        (\<forall>j < w1 - w0. add_to C itv at (int j) = add_to C itv initial (int (w0 + j))))"
  proof (cases "is_positive C itv")
    case True
    note sel = resolve_windows_select [OF t True leap small ok]
    show ?thesis using sel(1,2) sel(3) sel(4) by blast
  next
    case False
    then have one: "stored = 1" "is_zero itv" "start \<le> initial" "w0 = 0" "w1 = (if initial < until then 1 else 0)" "at = initial"
      using ok by (auto simp: resolve_windows_def split: if_splits)
    have "add_to C itv initial 0 = Some initial" using add_to_0 [OF t] one(2) by blast
    then show ?thesis using one by (auto simp del: add_to.simps)
  qed
  then show "w0 \<le> w1" "w1 \<le> stored"
    "\<And>k. k < stored \<Longrightarrow> w0 \<le> k \<and> k < w1 \<longleftrightarrow>
      (\<exists>t. add_to C itv initial (int k) = Some t \<and> start \<le> t \<and> t < until)"
    "w0 < w1 \<Longrightarrow> add_to C itv initial (int w0) = Some at \<and>
      (\<forall>j < w1 - w0. add_to C itv at (int j) = add_to C itv initial (int (w0 + j)))" by blast+
qed

lemma resolve_windows_accepts:
  assumes t: "regular C initial" and p: "is_positive C itv" and leap: "no_leap start" and small: "stored < 2 ^ 63"
    and ok: "start \<le> until" "k < stored" "add_to C itv initial (int k) = Some (max start initial)"
      "\<forall>j < stored. add_to C itv initial (int j) \<noteq> None" "\<forall>n \<le> stored - k. sub_grid_is_anchorable C itv initial k n"
  shows "\<exists>r. resolve_windows C initial itv stored (Some (start, until)) = Inr r"
proof -
  obtain w where w: "search_windows C itv initial until k stored = Inr w"
    using search_windows_total [OF small] ok(4) by blast
  have "w \<le> stored" using search_windows_bounds [OF w] ok(2) by simp
  moreover have "(if start \<le> initial then Inr 0
      else map_err (\<lambda>_. InvalidParameter ''start_time must align to a window boundary'') (steps_between C itv initial start)) =
      Inr k"
    using start_step [OF t p leap] ok(3) by blast
  moreover have "window_at C itv initial k = Inr (max start initial)"
    using ok(2,3) small by (simp add: window_at_def del: add_to.simps)
  moreover have "sub_grid_is_anchorable C itv initial k (w - k)" using ok(5) \<open>w \<le> stored\<close> by (simp add: diff_le_mono)
  ultimately show ?thesis
    using ok w p
    by (simp add: resolve_windows_def not_less [symmetric] require_anchorable_slice_def
        del: add_to.simps sub_grid_is_anchorable.simps)
qed

end

text \<open>C34: a range over a forecast selects exactly the windows that start in it, whatever its interval, the
  zero interval of a single window included. When \<open>resolve_windows\<close> succeeds, window \<open>k\<close> is selected
  exactly when its start lies in the range, the first selected start is the one reported, and the selected
  starts are the grid of that start alone. It fails only for a range that ends before it starts, an
  interval that is not positive between windows, a start that is no stored window, an unrepresentable
  window, or a selection that could not be described with its own anchor; the first two always fail, and
  the binary search always ends.\<close>

theorem resolve_windows_correct:
  assumes "chrono_laws C dim tod" "regular C initial" "no_leap start" "stored < 2 ^ 63"
  shows "(resolve_windows C initial itv stored (Some (start, until)) = Inr (w0, w1, at) \<longrightarrow>
      w0 \<le> w1 \<and> w1 \<le> stored \<and>
      (\<forall>k < stored. w0 \<le> k \<and> k < w1 \<longleftrightarrow> (\<exists>t. add_to C itv initial (int k) = Some t \<and> start \<le> t \<and> t < until)) \<and>
      (w0 < w1 \<longrightarrow> add_to C itv initial (int w0) = Some at \<and>
        (\<forall>j < w1 - w0. add_to C itv at (int j) = add_to C itv initial (int (w0 + j))))) \<and>
    ((is_positive C itv \<or> is_zero itv \<and> stored = 1) \<and>
      start \<le> until \<and> k < stored \<and> add_to C itv initial (int k) = Some (max start initial) \<and>
      (\<forall>j < stored. add_to C itv initial (int j) \<noteq> None) \<and>
      (\<forall>n \<le> stored - k. sub_grid_is_anchorable C itv initial k n) \<longrightarrow>
      (\<exists>r. resolve_windows C initial itv stored (Some (start, until)) = Inr r)) \<and>
    (until < start \<or> \<not> is_positive C itv \<and> \<not> (is_zero itv \<and> stored = 1) \<longrightarrow>
      (\<exists>e. resolve_windows C initial itv stored (Some (start, until)) = Inl e))"
proof (intro conjI impI)
  assume ok: "resolve_windows C initial itv stored (Some (start, until)) = Inr (w0, w1, at)"
  note sel = chrono_laws.resolve_windows_all [OF assms ok]
  show "w0 \<le> w1" "w1 \<le> stored" by (rule sel)+
  show "\<forall>k < stored. w0 \<le> k \<and> k < w1 \<longleftrightarrow> (\<exists>t. add_to C itv initial (int k) = Some t \<and> start \<le> t \<and> t < until)"
    using sel(3) by blast
  assume "w0 < w1"
  then show "add_to C itv initial (int w0) = Some at"
    "\<forall>j < w1 - w0. add_to C itv at (int j) = add_to C itv initial (int (w0 + j))" using sel(4) by blast+
next
  assume ok: "(is_positive C itv \<or> is_zero itv \<and> stored = 1) \<and>
      start \<le> until \<and> k < stored \<and> add_to C itv initial (int k) = Some (max start initial) \<and>
      (\<forall>j < stored. add_to C itv initial (int j) \<noteq> None) \<and>
      (\<forall>n \<le> stored - k. sub_grid_is_anchorable C itv initial k n)"
  show "\<exists>r. resolve_windows C initial itv stored (Some (start, until)) = Inr r"
  proof (cases "is_positive C itv")
    case True
    then show ?thesis using chrono_laws.resolve_windows_accepts [OF assms(1,2) True assms(3,4)] ok by blast
  next
    case False
    then have "is_zero itv" "stored = 1" "k = 0" using ok by auto
    then have "add_to C itv initial 0 = Some (max start initial)" using ok by (auto simp del: add_to.simps)
    then have "max start initial = initial" using chrono_laws.add_to_0 [OF assms(1,2), of itv] \<open>is_zero itv\<close> by simp
    then have "\<not> initial < start" by (simp add: max_def not_less split: if_splits)
    moreover have "\<not> until < start" using ok by (simp add: not_less)
    ultimately show ?thesis using False \<open>is_zero itv\<close> \<open>stored = 1\<close> by (simp add: resolve_windows_def)
  qed
next
  assume "until < start \<or> \<not> is_positive C itv \<and> \<not> (is_zero itv \<and> stored = 1)"
  then show "\<exists>e. resolve_windows C initial itv stored (Some (start, until)) = Inl e"
    by (auto simp: resolve_windows_def)
qed

theorem resolve_windows_correct_witness:
  "resolve_windows gregorian (day_2024 1 31) (Months 1) 3 (Some (day_2024 1 31, day_2024 3 30)) = Inr (0, 2, day_2024 1 31) \<and>
   (\<exists>r. resolve_windows gregorian (day_2024 1 31) zero_period 1 (Some (day_2024 1 31, day_2024 3 30)) = Inr r)"
proof -
  have p: "is_positive gregorian (Months 1)" by simp
  have order: "day_2024 1 31 \<le> day_2024 3 30" "day_2024 2 29 < day_2024 3 30" "day_2024 1 31 < day_2024 3 30"
    "day_2024 1 31 < day_2024 2 29" "\<not> day_2024 3 31 < day_2024 3 30" by code_simp+
  have leap: "no_leap (day_2024 1 31)" "(3 :: nat) < 2 ^ 63" by (rule no_leap_2024) simp
  note select = resolve_windows_correct [OF gregorian_laws regular_2024(1) leap, where itv = "Months 1" and until = "day_2024 3 30"]
  have all: "add_to gregorian (Months 1) (day_2024 1 31) (int j) \<noteq> None" if "j < 3" for j
    using steps_2024(1-3) that by (auto simp: less_Suc_eq numeral_3_eq_3 numeral_2_eq_2 simp del: add_to.simps)
  have "\<exists>r. resolve_windows gregorian (day_2024 1 31) (Months 1) 3 (Some (day_2024 1 31, day_2024 3 30)) = Inr r"
    using select [where k = 0] order(1) steps_2024(1) all p by (simp del: add_to.simps)
  then obtain w0 w1 at where r: "resolve_windows gregorian (day_2024 1 31) (Months 1) 3
      (Some (day_2024 1 31, day_2024 3 30)) = Inr (w0, w1, at)" by auto
  have sel: "w0 \<le> w1" "w0 < w1 \<longrightarrow> add_to gregorian (Months 1) (day_2024 1 31) (int w0) = Some at"
    "\<And>k. k < 3 \<Longrightarrow> w0 \<le> k \<and> k < w1 \<longleftrightarrow>
      (\<exists>t. add_to gregorian (Months 1) (day_2024 1 31) (int k) = Some t \<and> day_2024 1 31 \<le> t \<and> t < day_2024 3 30)"
    using select r by simp_all
  have "w0 \<le> 0 \<and> 0 < w1" "w0 \<le> 1 \<and> 1 < w1" "\<not> (w0 \<le> 2 \<and> 2 < w1)"
    using sel(3) [of 0] sel(3) [of 1] sel(3) [of 2] steps_2024(1-3) order by (simp_all del: add_to.simps)
  then have "w0 = 0" "w1 = 2" by auto
  moreover have "at = day_2024 1 31" using sel(2) \<open>w0 = 0\<close> \<open>w1 = 2\<close> steps_2024(1) by (simp del: add_to.simps)
  ultimately have three: "resolve_windows gregorian (day_2024 1 31) (Months 1) 3 (Some (day_2024 1 31, day_2024 3 30)) = Inr (0, 2, day_2024 1 31)"
    using r by simp
  have zero: "is_zero zero_period" by (simp add: zero_period_def)
  have "add_to gregorian zero_period (day_2024 1 31) 0 = Some (day_2024 1 31)"
    using chrono_laws.add_to_0 [OF gregorian_laws regular_2024(1)] zero by blast
  moreover have "sub_grid_is_anchorable gregorian zero_period (day_2024 1 31) 0 n" for n by (simp add: zero_period_def)
  ultimately have "\<exists>r. resolve_windows gregorian (day_2024 1 31) zero_period 1 (Some (day_2024 1 31, day_2024 3 30)) = Inr r"
    using resolve_windows_correct [OF gregorian_laws regular_2024(1) leap(1), where stored = 1 and k = 0 and itv = zero_period
        and until = "day_2024 3 30"] zero order(1)
    by (simp del: add_to.simps sub_grid_is_anchorable.simps)
  with three show ?thesis by blast
qed

end
