(* ===== verification/SliceReads.thy ===== *)
theory SliceReads
  imports WindowReads
begin

text \<open>
  Properties of reading part of a series with an explicit timeline, and of a forecast derived from a
  single series: a slice of a step function keeps its values over the range, a slice of an irregular
  series holds the instants of the range, and a derived window holds the rows of its series.
\<close>

section \<open>Leading slices\<close>

lemma leading_slice:
  assumes wf: "wf_array a" and s: "shape a \<noteq> []" and r: "lo \<le> hi" "hi \<le> ta_length a"
  defines "w \<equiv> prod_list (element_shape a) * dtype_size (arr_dtype a)"
  obtains b where "slice_axis a 0 (lo, hi) = Inr b" "wf_array b" "arr_dtype b = arr_dtype a"
    "shape b = (hi - lo) # element_shape a" "bytes b = segment (lo * w) ((hi - lo) * w) (bytes a)"
    "\<And>j. j < hi - lo \<Longrightarrow> ta_step b j = ta_step a (lo + j)"
proof -
  obtain n es where n: "shape a = n # es" using s by (cases "shape a") simp_all
  then have L: "ta_length a = n" "element_shape a = es" by (simp_all add: ta_length_def element_shape_def)
  obtain b where b: "slice_axis a 0 (lo, hi) = Inr b" "arr_dtype b = arr_dtype a" "shape b = (hi - lo) # es" "wf_array b"
    using slice_axis_ok [OF wf, of 0 lo hi] r n by (auto simp: L)
  have "write_window_block a 0 lo (hi - lo) [] = Inr (segment (lo * w) ((hi - lo) * w) (bytes a))"
    using write_window_block_Inr [OF wf, of 0 lo "hi - lo" "[]"] r by (simp add: n w_def L)
  then have bytes: "bytes b = segment (lo * w) ((hi - lo) * w) (bytes a)"
    using b(1) r by (auto simp: slice_axis_def n L)
  have step: "ta_step b j = ta_step a (lo + j)" if j: "j < hi - lo" for j
  proof -
    have eb: "ta_length b = hi - lo" "element_shape b = es" using b(3) by (simp_all add: ta_length_def element_shape_def)
    have "j * w + w \<le> (hi - lo) * w" using mult_le_mono1 [of "Suc j" "hi - lo" w] j by simp
    then have "segment (j * w) w (bytes b) = segment ((lo + j) * w) w (bytes a)"
      by (simp add: bytes segment_segment algebra_simps)
    then show ?thesis
      using ta_step_ok(2) [OF b(4), of j] ta_step_ok(2) [OF wf, of "lo + j"] j r by (simp add: eb L b(2) w_def)
  qed
  show thesis by (rule that [OF b(1,4,2) _ bytes step]) (simp_all add: b(3) L)
qed

section \<open>Explicit timelines\<close>

text \<open>The catalog row of a series over array \<open>a\<close> with the explicit timeline \<open>ts\<close>.\<close>

definition explicit_row :: "array_store \<Rightarrow> ts_metadata \<Rightarrow> typed_array \<Rightarrow> datetime list \<Rightarrow> bool" where
  "explicit_row S m a ts \<longleftrightarrow>
     m_timestamps m = Some ts \<and> m_length m = Some (length ts) \<and> sorted_wrt (<) ts \<and>
     arrays (view S) (m_data_hash m) = Some a \<and> arr_dtype a = row_dtype m \<and> wf_array a \<and> shape a \<noteq> [] \<and>
     ta_length a = length ts"

lemma partition_point_less:
  assumes "sorted_wrt (<) ts" "k < length ts"
  shows "k < partition_point (\<lambda>t. t < x) ts \<longleftrightarrow> ts ! k < (x :: 'a :: linorder)"
proof
  show "k < partition_point (\<lambda>t. t < x) ts \<Longrightarrow> ts ! k < x" by (rule partition_point_below)
  assume less: "ts ! k < x"
  show "k < partition_point (\<lambda>t. t < x) ts"
  proof (rule ccontr)
    let ?n = "partition_point (\<lambda>t. t < x) ts"
    assume "\<not> k < ?n"
    then have "?n \<le> k" by simp
    moreover from this have "\<not> ts ! ?n < x"
      using nth_length_takeWhile [of "\<lambda>t. t < x" ts] assms(2) by (simp add: partition_point_def)
    ultimately show False using less assms sorted_wrt_nth_less [OF assms(1), of ?n k] by (cases "?n = k") force+
  qed
qed

lemma sorted_segment: "sorted_wrt P ts \<Longrightarrow> sorted_wrt P (segment lo n ts)"
  by (simp add: segment_def sorted_wrt_take sorted_wrt_drop)

lemma explicit_rows_ok:
  assumes "explicit_row S m a ts" "lo \<le> hi" "hi \<le> length ts"
  obtains b where "explicit_rows S m ts lo hi = Inr (b, segment lo (hi - lo) ts)" "ta_length b = hi - lo"
    "\<And>j. j < hi - lo \<Longrightarrow> ta_step b j = ta_step a (lo + j)"
proof -
  have row: "arrays (view S) (m_data_hash m) = Some a" "arr_dtype a = row_dtype m" "wf_array a" "shape a \<noteq> []"
    "ta_length a = length ts" using assms(1) by (simp_all add: explicit_row_def)
  obtain b where b: "slice_axis a 0 (lo, hi) = Inr b" "shape b = (hi - lo) # element_shape a"
    "\<And>j. j < hi - lo \<Longrightarrow> ta_step b j = ta_step a (lo + j)"
    using leading_slice [OF row(3,4) assms(2)] row(5) assms(3) by metis
  show thesis
    by (rule that [OF _ _ b(3)]) (simp_all add: explicit_rows_def store_slice [OF row(1,2)] b(1,2) ta_length_def)
qed

lemma explicit_timeline_ok: "explicit_row S m a ts \<Longrightarrow> explicit_timeline m = Inr ts"
  by (simp add: explicit_row_def explicit_timeline_def required_field_def)

lemma checked_range_Inr:
  "checked_bounds m (Some r) = Inr b \<longleftrightarrow>
     (range_zoneless r \<longleftrightarrow> m_time_reference m = Some Zoneless) \<and> b = Some (range_start r, range_end r)"
  using check_against_Inr [of r "m_time_reference m"] by (auto simp: checked_bounds_def range_bounds_def result_elims)

subsection \<open>Step functions\<close>

lemma persistent_range_in_force:
  assumes sorted: "sorted_wrt (<) ts" and less: "start < until" and i: "index_at ts start = Some i"
  shows "persistent_range ts start until = Inr (i, partition_point (\<lambda>t. t < until) ts)"
    and "i < partition_point (\<lambda>t. t < until) ts"
    and "start \<le> at \<Longrightarrow> at < until \<Longrightarrow> in_force ts at k \<Longrightarrow>
      i \<le> k \<and> in_force (segment i (partition_point (\<lambda>t. t < until) ts - i) ts) at (k - i)"
proof -
  let ?e = "partition_point (\<lambda>t. t < until) ts"
  have ti: "i < length ts" "ts ! i \<le> start" using index_at_exact [OF sorted, of start i] i by auto
  show e: "i < ?e" using ti less partition_point_less [OF sorted ti(1), of until] by simp
  show "persistent_range ts start until = Inr (i, ?e)" using less i by (auto simp: persistent_range_def)
  assume at: "start \<le> at" "at < until" and k: "in_force ts at k"
  have "i \<le> k"
  proof (rule ccontr)
    assume "\<not> i \<le> k"
    then have ki: "Suc k \<le> i" by simp
    then have "at < ts ! Suc k" using k ti(1) by (simp add: in_force_def)
    moreover have "ts ! Suc k \<le> ts ! i"
      using sorted_wrt_nth_less [OF sorted, of "Suc k" i] ki ti(1) by (cases "Suc k = i") auto
    ultimately show False using ti(2) at(1) by simp
  qed
  moreover have "k < ?e" using k at(2) partition_point_less [OF sorted, of k until] by (auto simp: in_force_def)
  moreover have "?e \<le> length ts" by (rule partition_point_le)
  ultimately show "i \<le> k \<and> in_force (segment i (?e - i) ts) at (k - i)"
    using k by (auto simp: in_force_def segment_def)
qed

lemma persistent_new_ok:
  assumes "sorted_wrt (<) ts" "ta_length a = length ts"
  obtains s where "persistent_new ts a name = Inr s"
  using assms by (simp add: persistent_new_def any_pair_sorted)

lemma with_descriptors_persistent:
  "breakpoints (with_descriptors f s) = breakpoints s" "s_data (with_descriptors f s) = s_data s"
  by (cases s; simp add: with_descriptors_def descriptors.defs)+

lemma row_at_with_descriptors: "row_at (with_descriptors f s) at = row_at s at"
  by (simp add: row_at_def persistent_index_at_def with_descriptors_persistent)

lemma materialize_by_type:
  "materialize_time_series C S m r = Inr d \<longleftrightarrow>
    (\<exists>bounds d'. checked_bounds m r = Inr bounds \<and> d = set_descriptors (descriptors_of m) d' \<and>
      (case m_type m of
         SingleTimeSeries \<Rightarrow> materialize_single C S m bounds
       | NonSequentialTimeSeries \<Rightarrow> materialize_non_sequential S m bounds None
       | PersistentTimeSeries \<Rightarrow> materialize_persistent S m bounds None
       | Deterministic \<Rightarrow> materialize_deterministic C S m bounds
       | Probabilistic \<Rightarrow> materialize_probabilistic C S m bounds
       | Scenarios \<Rightarrow> materialize_scenarios C S m bounds
       | DeterministicSingleTimeSeries \<Rightarrow> materialize_derived C S m bounds) = Inr d')"
  by (simp add: materialize_time_series_def materialize_prefetched_def materialize_array_def result_elims) blast

lemma whole_row: "explicit_row S m a ts \<Longrightarrow> whole_explicit S m ts None = Inr (a, ts)"
  by (simp add: explicit_row_def whole_explicit_def store_get_array_view mem_get_array_def check_dtype_def)

lemma materialize_persistent_Inr:
  assumes "explicit_row S m a ts"
  shows "materialize_persistent S m None None = Inr d \<longleftrightarrow> (\<exists>s. persistent_new ts a (m_name m) = Inr s \<and> d = PersistentData s)"
    and "materialize_persistent S m (Some (start, until)) None = Inr d \<longleftrightarrow>
      (\<exists>lo hi b ts' s. persistent_range ts start until = Inr (lo, hi) \<and> explicit_rows S m ts lo hi = Inr (b, ts') \<and>
        persistent_new ts' b (m_name m) = Inr s \<and> d = PersistentData s)"
  using explicit_timeline_ok [OF assms] whole_row [OF assms]
  by (auto simp: materialize_persistent_def rbind_Inr_iff raise_Inr_iff map_err_Inr_iff)

lemma materialize_non_sequential_Inr:
  assumes "explicit_row S m a ts"
  shows "materialize_non_sequential S m None None = Inr d \<longleftrightarrow> (\<exists>s. nsts_new ts a (m_name m) = Inr s \<and> d = NonSequentialData s)"
    and "materialize_non_sequential S m (Some (start, until)) None = Inr d \<longleftrightarrow> start \<le> until \<and>
      (\<exists>b ts' s. explicit_rows S m ts (partition_point (\<lambda>t. t < start) ts) (partition_point (\<lambda>t. t < until) ts) = Inr (b, ts') \<and>
        nsts_new ts' b (m_name m) = Inr s \<and> d = NonSequentialData s)"
  using explicit_timeline_ok [OF assms] whole_row [OF assms]
  by (auto simp: materialize_non_sequential_def rbind_Inr_iff raise_Inr_iff map_err_Inr_iff not_less)

text \<open>What a sliced read of a step function is, against the whole one.\<close>

definition same_values :: "'a persistent_time_series_scheme \<Rightarrow> 'b persistent_time_series_scheme \<Rightarrow> datetime \<Rightarrow> datetime \<Rightarrow> bool" where
  "same_values s s' start until \<longleftrightarrow> (\<forall>at. start \<le> at \<and> at < until \<longrightarrow> row_at s at = row_at s' at)"

lemma persistent_part:
  assumes row: "explicit_row S m a ts" and whole: "persistent_new ts a (m_name m) = Inr s0" and less: "start < until"
    and i: "index_at ts start = Some i"
  obtains s where "materialize_persistent S m (Some (start, until)) None = Inr (PersistentData s)"
    "same_values s s0 start until"
proof -
  have sorted: "sorted_wrt (<) ts" using row by (simp add: explicit_row_def)
  let ?e = "partition_point (\<lambda>t. t < until) ts"
  note r = persistent_range_in_force [OF sorted less i]
  obtain b where b: "explicit_rows S m ts i ?e = Inr (b, segment i (?e - i) ts)" "ta_length b = ?e - i"
    "\<And>j. j < ?e - i \<Longrightarrow> ta_step b j = ta_step a (i + j)"
    using explicit_rows_ok [OF row, of i ?e] r(2) partition_point_le [of "\<lambda>t. t < until" ts] by (metis less_imp_le)
  have len: "length (segment i (?e - i) ts) = ?e - i"
    using r(2) partition_point_le [of "\<lambda>t. t < until" ts] by (simp add: length_segment)
  obtain s where s: "persistent_new (segment i (?e - i) ts) b (m_name m) = Inr s"
    using persistent_new_ok [OF sorted_segment [OF sorted]] b(2) len by metis
  have "row_at s at = row_at s0 at" if at: "start \<le> at" "at < until" for at
  proof -
    have "\<not> (\<forall>t \<in> set ts. at < t)"
      using index_at_exact [OF sorted, of start i] i at(1) by (meson nth_mem leD order_trans)
    then obtain k where k: "persistent_index_at s0 at = Inr k"
      using persistent_index_at_iff(2) [OF whole, of at] by (cases "persistent_index_at s0 at") auto
    then have "in_force ts at k" using persistent_index_at_iff(1) [OF whole] by blast
    then have part: "i \<le> k" "in_force (segment i (?e - i) ts) at (k - i)" using r(3) [OF at] by blast+
    then have "persistent_index_at s at = Inr (k - i)" using persistent_index_at_iff(1) [OF s] by blast
    moreover have "ta_step b (k - i) = ta_step a k"
      using b(3) [of "k - i"] part len by (simp add: in_force_def)
    ultimately show ?thesis using k persistent_new_Inr(2) [OF s] persistent_new_Inr(2) [OF whole] by (simp add: row_at_def)
  qed
  then have "same_values s s0 start until" unfolding same_values_def by blast
  moreover have "materialize_persistent S m (Some (start, until)) None = Inr (PersistentData s)"
    unfolding materialize_persistent_Inr(2) [OF row] using r(1) b(1) s by blast
  ultimately show thesis using that by blast
qed

section \<open>Properties\<close>

text \<open>C35: a slice of a step function is that step function. Reading a persistent series over a range
  succeeds exactly when the bounds are spelled the way the series is and the series is defined at the
  start of the range, and at every instant of the range the slice has the row the whole series has.\<close>

theorem persistent_slice_values:
  assumes "m_type m = PersistentTimeSeries" "explicit_row S m a ts" "range_start r < range_end r"
  shows "\<exists>s0. materialize_time_series C S m None = Inr (PersistentData s0) \<and>
    ((\<exists>d. materialize_time_series C S m (Some r) = Inr d) \<longleftrightarrow>
      (range_zoneless r \<longleftrightarrow> m_time_reference m = Some Zoneless) \<and> (\<exists>t \<in> set ts. t \<le> range_start r)) \<and>
    (\<forall>d. materialize_time_series C S m (Some r) = Inr d \<longrightarrow>
      (\<exists>s. d = PersistentData s \<and> same_values s s0 (range_start r) (range_end r)))"
proof -
  have row: "sorted_wrt (<) ts" "ta_length a = length ts" using assms(2) by (simp_all add: explicit_row_def)
  obtain s0 where s0: "persistent_new ts a (m_name m) = Inr s0" by (rule persistent_new_ok [OF row])
  let ?ds = "with_descriptors (\<lambda>_. descriptors_of m)"
  have whole: "materialize_time_series C S m None = Inr (PersistentData (?ds s0))"
    using s0 assms(1) by (simp add: materialize_by_type checked_bounds_def materialize_persistent_Inr [OF assms(2)]
        set_descriptors_def)
  have parts: "materialize_time_series C S m (Some r) = Inr d \<longleftrightarrow>
      (range_zoneless r \<longleftrightarrow> m_time_reference m = Some Zoneless) \<and>
      (\<exists>d'. d = set_descriptors (descriptors_of m) d' \<and>
        materialize_persistent S m (Some (range_start r, range_end r)) None = Inr d')" for d
    using assms(1) by (auto simp: materialize_by_type checked_range_Inr)
  have ok: "\<exists>s. materialize_persistent S m (Some (range_start r, range_end r)) None = Inr (PersistentData s) \<and>
      same_values s s0 (range_start r) (range_end r)" if first: "\<exists>t \<in> set ts. t \<le> range_start r"
  proof -
    obtain i where "index_at ts (range_start r) = Some i"
      using index_at_exact [OF row(1), of "range_start r"] first by (cases "index_at ts (range_start r)") (auto simp: not_less [symmetric])
    then show ?thesis using persistent_part [OF assms(2) s0 assms(3)] by metis
  qed
  have first: "\<exists>t \<in> set ts. t \<le> range_start r"
    if part: "materialize_persistent S m (Some (range_start r, range_end r)) None = Inr d'" for d'
  proof (rule ccontr)
    assume "\<not> (\<exists>t \<in> set ts. t \<le> range_start r)"
    then have "index_at ts (range_start r) = None"
      using index_at_exact [OF row(1), of "range_start r"] by (simp add: not_le)
    then show False
      using part assms(3) unfolding materialize_persistent_Inr(2) [OF assms(2)] by (simp add: persistent_range_def split: if_splits)
  qed
  have "\<exists>s. d = PersistentData s \<and> same_values s (?ds s0) (range_start r) (range_end r)"
    if read: "materialize_time_series C S m (Some r) = Inr d" for d
  proof -
    obtain d' where d': "d = set_descriptors (descriptors_of m) d'"
      "materialize_persistent S m (Some (range_start r, range_end r)) None = Inr d'" using read parts by blast
    obtain s where "d' = PersistentData s" "same_values s s0 (range_start r) (range_end r)" using ok [OF first [OF d'(2)]] d'(2) by auto
    then have "d = PersistentData (?ds s)" "same_values (?ds s) (?ds s0) (range_start r) (range_end r)"
      using d'(1) by (simp_all add: set_descriptors_def same_values_def row_at_with_descriptors)
    then show ?thesis by blast
  qed
  then show ?thesis using whole parts ok first by blast
qed

definition demo_steps :: ts_metadata where
  "demo_steps = demo_row\<lparr>m_type := PersistentTimeSeries, m_initial_timestamp := None, m_resolution := None,
     m_timestamps := Some [day_2024 1 31, day_2024 2 29]\<rparr>"

lemma demo_explicit_row: "explicit_row demo_store (demo_steps\<lparr>m_type := t\<rparr>) demo_array [day_2024 1 31, day_2024 2 29]"
proof -
  have "day_2024 1 31 < day_2024 2 29" by code_simp
  moreover have "arrays (view demo_store) [1] = Some demo_array" by (simp add: demo_store_view)
  ultimately show ?thesis
    using wf_demo by (simp add: explicit_row_def demo_steps_def demo_row_def row_dtype_def ta_length_def)
      (simp add: demo_array_def)
qed

theorem persistent_slice_values_witness:
  "\<exists>d. materialize_time_series gregorian demo_store demo_steps (Some (range_new (day_2024 3 30) (day_2024 3 31))) = Inr d"
proof -
  have t: "demo_steps\<lparr>m_type := PersistentTimeSeries\<rparr> = demo_steps" by (simp add: demo_steps_def)
  have m: "m_type demo_steps = PersistentTimeSeries" "m_time_reference demo_steps = None"
    by (simp_all add: demo_steps_def demo_row_def)
  have "day_2024 3 30 < day_2024 3 31" "day_2024 2 29 \<le> day_2024 3 30" by code_simp+
  then show ?thesis
    using persistent_slice_values [OF m(1) demo_explicit_row [of PersistentTimeSeries, unfolded t],
        of "range_new (day_2024 3 30) (day_2024 3 31)" gregorian] m(2)
    by (simp add: range_new_def) blast
qed

lemma partition_point_Cons [simp]: "partition_point p (x # xs) = (if p x then Suc (partition_point p xs) else 0)"
  by (simp add: partition_point_def)

lemma filter_range_segment:
  assumes "sorted_wrt (<) ts" "start \<le> until"
  shows "filter (\<lambda>t. start \<le> t \<and> t < until) ts =
    segment (partition_point (\<lambda>t. t < start) ts)
      (partition_point (\<lambda>t. t < until) ts - partition_point (\<lambda>t. t < start) ts) (ts :: 'a :: linorder list)"
  using assms(1)
proof (induction ts)
  case (Cons x ts)
  consider "x < start" | "start \<le> x" "x < until" | "until \<le> x" by fastforce
  then show ?case
  proof cases
    case 1
    then show ?thesis using Cons assms(2) by (auto simp: segment_def)
  next
    case 2
    then have "partition_point (\<lambda>t. t < start) ts = 0" using Cons.prems by (cases ts) (auto simp: partition_point_def)
    then show ?thesis using 2 Cons by (simp add: segment_def not_less)
  next
    case 3
    then have "filter (\<lambda>t. start \<le> t \<and> t < until) ts = []" using Cons.prems by (auto simp: filter_empty_conv)
    then show ?thesis using 3 assms(2) by (simp add: segment_def not_less [symmetric])
  qed
qed (simp add: segment_def partition_point_def)

lemma partition_point_mono: "start \<le> (until :: 'a :: linorder) \<Longrightarrow> partition_point (\<lambda>t. t < start) ts \<le> partition_point (\<lambda>t. t < until) ts"
  by (induction ts) (auto simp: partition_point_def)

abbreviation instants :: "'a non_sequential_time_series_scheme \<Rightarrow> datetime list" where
  "instants \<equiv> non_sequential_time_series.timestamps"

lemma nsts_new_Inr:
  assumes "nsts_new ts a name = Inr s"
  shows "instants s = ts" "s_data s = a"
  using assms by (auto simp: nsts_new_def non_sequential_time_series.defs series.defs plain_series_def split: if_splits)

lemma with_descriptors_timestamps:
  "instants (with_descriptors f s) = instants s" "s_data (with_descriptors f (s :: non_sequential_time_series)) = s_data s"
  by (cases s; simp add: with_descriptors_def descriptors.defs)+

text \<open>C36: a slice of an irregular series is the instants of the range with their rows. Reading a
  non-sequential series over a range succeeds exactly when the range does not end before it starts
  and is spelled the way the series is; it holds exactly the stored instants in the range, in order,
  each with the row stored for it.\<close>

theorem non_sequential_slice_exact:
  assumes "m_type m = NonSequentialTimeSeries" "explicit_row S m a ts"
  shows "((\<exists>d. materialize_time_series C S m (Some r) = Inr d) \<longleftrightarrow>
      range_start r \<le> range_end r \<and> (range_zoneless r \<longleftrightarrow> m_time_reference m = Some Zoneless)) \<and>
    (\<forall>d. materialize_time_series C S m (Some r) = Inr d \<longrightarrow>
      (\<exists>s. d = NonSequentialData s \<and> instants s = filter (\<lambda>t. range_start r \<le> t \<and> t < range_end r) ts \<and>
        (\<forall>j k. j < length (instants s) \<and> k < length ts \<and> instants s ! j = ts ! k \<longrightarrow>
          ta_step (s_data s) j = ta_step a k)))"
proof -
  have row: "sorted_wrt (<) ts" using assms(2) by (simp add: explicit_row_def)
  let ?lo = "partition_point (\<lambda>t. t < range_start r) ts" and ?hi = "partition_point (\<lambda>t. t < range_end r) ts"
  let ?part = "segment ?lo (?hi - ?lo) ts"
  have parts: "materialize_time_series C S m (Some r) = Inr d \<longleftrightarrow>
      (range_zoneless r \<longleftrightarrow> m_time_reference m = Some Zoneless) \<and>
      (\<exists>d'. d = set_descriptors (descriptors_of m) d' \<and>
        materialize_non_sequential S m (Some (range_start r, range_end r)) None = Inr d')" for d
    using assms(1) by (auto simp: materialize_by_type checked_range_Inr)
  have ok: "\<exists>s. materialize_non_sequential S m (Some (range_start r, range_end r)) None = Inr (NonSequentialData s) \<and>
      instants s = filter (\<lambda>t. range_start r \<le> t \<and> t < range_end r) ts \<and>
      (\<forall>j k. j < length (instants s) \<and> k < length ts \<and> instants s ! j = ts ! k \<longrightarrow> ta_step (s_data s) j = ta_step a k)"
    if le: "range_start r \<le> range_end r"
  proof -
    have hi: "?lo \<le> ?hi" "?hi \<le> length ts" by (simp_all add: partition_point_mono [OF le] partition_point_le)
    obtain b where b: "explicit_rows S m ts ?lo ?hi = Inr (b, ?part)" "ta_length b = ?hi - ?lo"
      "\<And>j. j < ?hi - ?lo \<Longrightarrow> ta_step b j = ta_step a (?lo + j)"
      by (rule explicit_rows_ok [OF assms(2) hi]) blast
    have len: "length ?part = ?hi - ?lo" using hi by (simp add: length_segment)
    obtain s where s: "nsts_new ?part b (m_name m) = Inr s"
      using sorted_segment [OF row, of ?lo "?hi - ?lo"] b(2) len by (simp add: nsts_new_def any_pair_sorted)
    have "ta_step b j = ta_step a k" if j: "j < length ?part" "k < length ts" "?part ! j = ts ! k" for j k
    proof -
      have "ts ! (?lo + j) = ts ! k" "?lo + j < length ts" using j hi len by (simp_all add: segment_nth)
      then have "?lo + j = k" using sorted_wrt_nth_less [OF row] j(2) by (metis less_irrefl linorder_neqE_nat)
      then show ?thesis using b(3) [of j] j(1) len by simp
    qed
    moreover have "materialize_non_sequential S m (Some (range_start r, range_end r)) None = Inr (NonSequentialData s)"
      unfolding materialize_non_sequential_Inr(2) [OF assms(2)] using le b(1) s by blast
    ultimately show ?thesis using nsts_new_Inr [OF s] filter_range_segment [OF row le] by (intro exI [of _ s]) simp
  qed
  have le: "range_start r \<le> range_end r"
    if "materialize_non_sequential S m (Some (range_start r, range_end r)) None = Inr d'" for d'
    using that unfolding materialize_non_sequential_Inr(2) [OF assms(2)] by blast
  have "\<exists>s. d = NonSequentialData s \<and> instants s = filter (\<lambda>t. range_start r \<le> t \<and> t < range_end r) ts \<and>
      (\<forall>j k. j < length (instants s) \<and> k < length ts \<and> instants s ! j = ts ! k \<longrightarrow> ta_step (s_data s) j = ta_step a k)"
    if read: "materialize_time_series C S m (Some r) = Inr d" for d
  proof -
    obtain d' where d': "d = set_descriptors (descriptors_of m) d'"
      "materialize_non_sequential S m (Some (range_start r, range_end r)) None = Inr d'" using read parts by blast
    obtain s where s: "d' = NonSequentialData s" "instants s = filter (\<lambda>t. range_start r \<le> t \<and> t < range_end r) ts"
      "\<forall>j k. j < length (instants s) \<and> k < length ts \<and> instants s ! j = ts ! k \<longrightarrow> ta_step (s_data s) j = ta_step a k"
      using ok [OF le [OF d'(2)]] d'(2) by auto
    then show ?thesis
      using d'(1) by (intro exI [of _ "with_descriptors (\<lambda>_. descriptors_of m) s"])
        (simp add: set_descriptors_def with_descriptors_timestamps)
  qed
  then show ?thesis using parts ok le by blast
qed

theorem non_sequential_slice_exact_witness:
  "\<exists>s. materialize_time_series gregorian demo_store (demo_steps\<lparr>m_type := NonSequentialTimeSeries\<rparr>)
      (Some (range_new (day_2024 2 1) (day_2024 3 31))) = Inr (NonSequentialData s) \<and> instants s = [day_2024 2 29]"
proof -
  let ?m = "demo_steps\<lparr>m_type := NonSequentialTimeSeries\<rparr>" and ?r = "range_new (day_2024 2 1) (day_2024 3 31)"
  have m: "m_type ?m = NonSequentialTimeSeries" "m_time_reference ?m = None" by (simp_all add: demo_steps_def demo_row_def)
  have order: "day_2024 2 1 \<le> day_2024 3 31" "day_2024 2 1 \<le> day_2024 2 29" "day_2024 2 29 < day_2024 3 31"
    "\<not> day_2024 2 1 \<le> day_2024 1 31" by code_simp+
  note slice = non_sequential_slice_exact [OF m(1) demo_explicit_row, of gregorian ?r]
  obtain d where d: "materialize_time_series gregorian demo_store ?m (Some ?r) = Inr d"
    using slice order(1) m(2) by (auto simp: range_new_def)
  then obtain s where "d = NonSequentialData s"
    "instants s = filter (\<lambda>t. range_start ?r \<le> t \<and> t < range_end ?r) [day_2024 1 31, day_2024 2 29]"
    using slice by blast
  then show ?thesis using d order by (simp add: range_new_def)
qed

end
