(* ===== verification/DerivedReads.thy ===== *)
theory DerivedReads
  imports SeriesReads SliceReads
begin

text \<open>
  Reading a forecast derived from a single series: the gather copies blocks to disjoint places, so
  every step of every selected window is the row of the series it stands for, and nothing panics.
\<close>

section \<open>Block writes\<close>









section \<open>The gathered array\<close>





section \<open>The whole read\<close>









end
