(* ===== verification/AddRequests.thy ===== *)
theory AddRequests
  imports DerivedReads
begin

text \<open>
  Adding a series: \<open>AddRequest\<close>, the validation every write goes through and the catalog row and
  array placement it derives (\<open>build_request_parts\<close> and its helpers in
  \<open>crates/infrastore-core/src/store.rs\<close>), with the read-back of what was added. A warning that is
  only logged has no trace here.
\<close>

section \<open>Requests and placements\<close>

record add_request =
  r_owner_id :: int
  r_owner_type :: string
  r_owner_category :: owner_category
  r_data :: time_series_data
  r_features :: features

definition add_request_new :: "int \<Rightarrow> string \<Rightarrow> owner_category \<Rightarrow> time_series_data \<Rightarrow> add_request" where
  "add_request_new owner typ cat d =
     \<lparr>r_owner_id = owner, r_owner_type = typ, r_owner_category = cat, r_data = d, r_features = []\<rparr>"

definition with_features :: "features \<Rightarrow> add_request \<Rightarrow> add_request" where
  "with_features fs item = item\<lparr>r_features := fs\<rparr>"

record request_parts =
  p_hash :: hash
  p_group :: pack_group
  p_layout :: array_layout
  p_meta :: ts_metadata

fun array_layout_for :: "time_series_type \<Rightarrow> array_layout" where
  "array_layout_for SingleTimeSeries = Packed"
| "array_layout_for DeterministicSingleTimeSeries = Packed"
| "array_layout_for NonSequentialTimeSeries = Packed"
| "array_layout_for PersistentTimeSeries = Packed"
| "array_layout_for Deterministic = StandaloneWindowed 1"
| "array_layout_for Probabilistic = StandaloneWindowed 2"
| "array_layout_for Scenarios = StandaloneWindowed 2"

text \<open>The pool of a stored row; a row with neither axis takes a period of one nanosecond.\<close>

definition pool_key_of :: "(byte list \<Rightarrow> hash) \<Rightarrow> chrono \<Rightarrow> ts_metadata \<Rightarrow> pool_key" where
  "pool_key_of sha C m =
     (physical_dtype (m_element_type m), m_element_shape m,
      (case m_length m of None \<Rightarrow> 0 | Some n \<Rightarrow> n),
      (case (m_timestamps m, m_resolution m) of
         (Some ts, _) \<Rightarrow> Irregular (timestamps_hash sha C ts)
       | (None, Some res) \<Rightarrow> Regular res
       | (None, None) \<Rightarrow> Regular (Fixed 1)))"

section \<open>Store attributes and generation stamps\<close>

definition RESERVED_STORE_ATTRIBUTE_PREFIX :: string where
  "RESERVED_STORE_ATTRIBUTE_PREFIX = ''infrastore.''"

definition validate_store_attribute_key :: "string \<Rightarrow> unit result" where
  "validate_store_attribute_key key =
     (if key = [] then Inl (InvalidParameter ''must not be empty'')
      else if take (length RESERVED_STORE_ATTRIBUTE_PREFIX) key = RESERVED_STORE_ATTRIBUTE_PREFIX
      then Inl (InvalidParameter ''reserved prefix'')
      else Inr ())"

definition UNSTAMPED :: string where "UNSTAMPED = ''none''"

definition check_generation_pair :: "string option \<Rightarrow> string option \<Rightarrow> unit result" where
  "check_generation_pair h5 sqlite =
     (if h5 \<noteq> sqlite
      then Inl (MismatchedArtifact (case h5 of None \<Rightarrow> UNSTAMPED | Some s \<Rightarrow> s)
                  (case sqlite of None \<Rightarrow> UNSTAMPED | Some s \<Rightarrow> s))
      else Inr ())"

section \<open>Time references\<close>

definition is_calendar_scale :: "chrono \<Rightarrow> period \<Rightarrow> bool" where
  "is_calendar_scale C p =
     (case p of Months m \<Rightarrow> m \<noteq> 0 | Fixed d \<Rightarrow> 86400000 \<le> \<bar>num_milliseconds C d\<bar>)"

text \<open>The periods of a series that step a grid; a horizon is only ever divided.\<close>

fun calendar_periods :: "time_series_data \<Rightarrow> period list" where
  "calendar_periods (SingleData s) = [resolution s]"
| "calendar_periods (NonSequentialData s) = []"
| "calendar_periods (PersistentData s) = []"
| "calendar_periods (DeterministicData s) = [f_resolution s, interval s]"
| "calendar_periods (ProbabilisticData s) = [f_resolution s, interval s]"
| "calendar_periods (ScenariosData s) = [f_resolution s, interval s]"

definition validate_time_reference :: "chrono \<Rightarrow> time_series_data \<Rightarrow> unit result" where
  "validate_time_reference C d =
     (case s_time_reference (series_of d) of
        None \<Rightarrow> Inr ()
      | Some r \<Rightarrow>
          rbind (validate_reference r) (\<lambda>_.
            case r of
              Zone _ \<Rightarrow>
                if list_ex (is_calendar_scale C) (calendar_periods d)
                then Inl (InvalidParameter ''a calendar period cannot be combined with a named zone'')
                else Inr ()
            | _ \<Rightarrow> Inr ()))"

section \<open>Arrays and instants\<close>

definition validate_array_geometry :: "typed_array \<Rightarrow> time_series_type \<Rightarrow> unit result" where
  "validate_array_geometry a t =
     rbind (map_err InvalidParameter (check_bytes a)) (\<lambda>_.
       if 0 \<in> set (drop (leading_dims t) (shape a))
       then Inl (InvalidParameter ''zero-width element dimension'')
       else Inr ())"

definition require_ms :: "chrono \<Rightarrow> datetime \<Rightarrow> unit result" where
  "require_ms C t =
     rbind (map_err InvalidParameter (require_millisecond_precision t)) (\<lambda>_.
       if \<not> (0 \<le> dt_year C t \<and> dt_year C t \<le> 9999)
       then Inl (InvalidParameter ''outside years 0000-9999'')
       else Inr ())"

definition require_all_ms :: "datetime list \<Rightarrow> unit result" where
  "require_all_ms ts = rbind (rmap_all (\<lambda>t. map_err InvalidParameter (require_millisecond_precision t)) ts) (\<lambda>_. Inr ())"

section \<open>Validation by type\<close>

definition validate_single :: "chrono \<Rightarrow> single_time_series \<Rightarrow> unit result" where
  "validate_single C s =
     rbind (require_ms C (initial_timestamp s)) (\<lambda>_.
       if series_length s \<noteq> ta_length (s_data s) then Inl (InvalidParameter ''declared length'')
       else if \<not> is_positive C (resolution s)
       then Inl (InvalidParameter ''resolution is not a positive whole number of milliseconds'')
       else Inr ())"

definition validate_non_sequential :: "non_sequential_time_series \<Rightarrow> unit result" where
  "validate_non_sequential s =
     (if length (instants s) \<noteq> ta_length (s_data s) \<or> timestamps_length s \<noteq> ta_length (s_data s)
      then Inl (InvalidParameter ''timestamp count, length, and data length must match'')
      else if any_pair (\<lambda>t u. u \<le> t) (instants s)
      then Inl (InvalidParameter ''timestamps must be strictly increasing'')
      else require_all_ms (instants s))"

definition validate_persistent :: "persistent_time_series \<Rightarrow> unit result" where
  "validate_persistent s =
     (if length (breakpoints s) \<noteq> ta_length (s_data s) \<or> breakpoints_length s \<noteq> ta_length (s_data s)
      then Inl (InvalidParameter ''breakpoint count, length, and data length must match'')
      else if any_pair (\<lambda>t u. u \<le> t) (breakpoints s)
      then Inl (InvalidParameter ''breakpoints must be strictly increasing'')
      else require_all_ms (breakpoints s))"

definition validate_data :: "chrono \<Rightarrow> time_series_data \<Rightarrow> unit result" where
  "validate_data C d =
     rbind (validate_array_geometry (data_array d) (data_type d)) (\<lambda>_.
       case d of
         SingleData s \<Rightarrow> validate_single C s
       | NonSequentialData s \<Rightarrow> validate_non_sequential s
       | PersistentData s \<Rightarrow> validate_persistent s
       | DeterministicData s \<Rightarrow>
           rbind (require_ms C (f_initial_timestamp s)) (\<lambda>_. map_err InvalidParameter (deterministic_validate C s))
       | ProbabilisticData s \<Rightarrow>
           rbind (require_ms C (f_initial_timestamp s)) (\<lambda>_. map_err InvalidParameter (probabilistic_validate C s))
       | ScenariosData s \<Rightarrow>
           rbind (require_ms C (f_initial_timestamp s)) (\<lambda>_. map_err InvalidParameter (scenarios_validate C s)))"

fun as_invalid_parameter :: "ts_error \<Rightarrow> ts_error" where
  "as_invalid_parameter (IntegrityError msg) = InvalidParameter msg"
| "as_invalid_parameter e = e"

definition validate_deterministic :: "chrono \<Rightarrow> deterministic \<Rightarrow> unit result" where
  "validate_deterministic C d =
     rbind (map_err InvalidParameter (compute_h C (horizon d) (f_resolution d))) (\<lambda>h.
       map_err as_invalid_parameter (validate_forecast_shape (shape (s_data d)) [h, window_count d]))"

definition validate_probabilistic :: "chrono \<Rightarrow> probabilistic \<Rightarrow> unit result" where
  "validate_probabilistic C d =
     rbind (map_err InvalidParameter (compute_h C (horizon d) (f_resolution d))) (\<lambda>h.
       map_err as_invalid_parameter
         (validate_forecast_shape (shape (s_data d)) [length (percentiles d), h, window_count d]))"

definition validate_scenarios :: "chrono \<Rightarrow> scenarios \<Rightarrow> unit result" where
  "validate_scenarios C d =
     rbind (map_err InvalidParameter (compute_h C (horizon d) (f_resolution d))) (\<lambda>h.
       map_err as_invalid_parameter
         (validate_forecast_shape (shape (s_data d)) [scenario_count d, h, window_count d]))"

definition resolve_element_type :: "add_request \<Rightarrow> ts_error failure + element_type" where
  "resolve_element_type item =
     (let declared = data_element_type (r_data item)
      in rbind (validate_array declared (data_array (r_data item)) (leading_dims (data_type (r_data item))))
           (\<lambda>_. Inr declared))"

section \<open>Deriving the parts of a request\<close>

definition base_row :: "(byte list \<Rightarrow> hash) \<Rightarrow> add_request \<Rightarrow> element_type \<Rightarrow> ts_metadata" where
  "base_row sha item t =
     (let d = r_data item; s = series_of d in
      \<lparr>m_owner_id = r_owner_id item, m_owner_type = r_owner_type item, m_owner_category = r_owner_category item,
       m_type = data_type d, m_name = data_name d, m_data_hash = array_hash sha (data_array d),
       m_initial_timestamp = None, m_resolution = None, m_length = Some (ta_length (data_array d)),
       m_horizon = None, m_interval = None, m_count = None, m_timestamps = None,
       m_features = r_features item, m_units = s_units s, m_quantity_kind = s_quantity_kind s,
       m_unit_system = s_unit_system s, m_time_reference = s_time_reference s,
       m_component_field = s_component_field s, m_percentiles = None, m_element_type = t,
       m_element_shape = element_shape (data_array d), m_application_data = s_application_data s, m_id = None\<rparr>)"

definition forecast_row :: "'a deterministic_scheme \<Rightarrow> ts_metadata \<Rightarrow> ts_metadata" where
  "forecast_row d base =
     base\<lparr>m_initial_timestamp := Some (f_initial_timestamp d), m_resolution := Some (f_resolution d),
          m_horizon := Some (horizon d), m_interval := Some (interval d), m_count := Some (window_count d)\<rparr>"

fun placed_row ::
    "(byte list \<Rightarrow> hash) \<Rightarrow> chrono \<Rightarrow> time_series_data \<Rightarrow> ts_metadata \<Rightarrow> (pack_group \<times> ts_metadata) result" where
  "placed_row sha C (SingleData s) base =
     Inr (Regular (resolution s),
          base\<lparr>m_initial_timestamp := Some (initial_timestamp s), m_resolution := Some (resolution s)\<rparr>)"
| "placed_row sha C (NonSequentialData s) base =
     Inr (Irregular (timestamps_hash sha C (instants s)), base\<lparr>m_timestamps := Some (instants s)\<rparr>)"
| "placed_row sha C (PersistentData s) base =
     Inr (Irregular (timestamps_hash sha C (breakpoints s)), base\<lparr>m_timestamps := Some (breakpoints s)\<rparr>)"
| "placed_row sha C (DeterministicData s) base =
     rbind (validate_deterministic C s) (\<lambda>_. Inr (Regular (f_resolution s), forecast_row s base))"
| "placed_row sha C (ProbabilisticData s) base =
     rbind (validate_probabilistic C s) (\<lambda>_.
       Inr (Regular (f_resolution s), forecast_row s (base\<lparr>m_percentiles := Some (percentiles s)\<rparr>)))"
| "placed_row sha C (ScenariosData s) base =
     rbind (validate_scenarios C s) (\<lambda>_. Inr (Regular (f_resolution s), forecast_row s base))"

definition build_request_parts ::
    "(byte list \<Rightarrow> hash) \<Rightarrow> chrono \<Rightarrow> add_request \<Rightarrow> ts_error failure + request_parts" where
  "build_request_parts sha C item =
     rbind (raise (validate_features (r_features item))) (\<lambda>_.
     rbind (resolve_element_type item) (\<lambda>t.
     rbind (raise (validate_time_reference C (r_data item))) (\<lambda>_.
     rbind (raise (validate_data C (r_data item))) (\<lambda>_.
     rbind (raise (placed_row sha C (r_data item) (base_row sha item t))) (\<lambda>(group, m).
       Inr \<lparr>p_hash = array_hash sha (data_array (r_data item)), p_group = group,
            p_layout = array_layout_for (data_type (r_data item)), p_meta = m\<rparr>)))))"

section \<open>What an accepted request is\<close>

lemma build_request_parts_Inr:
  "build_request_parts sha C item = Inr p \<longleftrightarrow>
     validate_features (r_features item) = Inr () \<and>
     validate_array (data_element_type (r_data item)) (data_array (r_data item)) (leading_dims (data_type (r_data item))) = Inr () \<and>
     validate_time_reference C (r_data item) = Inr () \<and> validate_data C (r_data item) = Inr () \<and>
     placed_row sha C (r_data item) (base_row sha item (data_element_type (r_data item))) = Inr (p_group p, p_meta p) \<and>
     p_hash p = array_hash sha (data_array (r_data item)) \<and> p_layout p = array_layout_for (data_type (r_data item))"
  by (cases p) (auto simp: build_request_parts_def resolve_element_type_def Let_def rbind_Inr_iff raise_Inr_iff)

lemma validate_array_dtype:
  "validate_array t a n = Inr () \<Longrightarrow> arr_dtype a = physical_dtype t \<and> n \<le> length (shape a)"
  by (auto simp: validate_array_def split: if_splits)

lemma validate_single_Inr:
  "validate_single C s = Inr () \<longleftrightarrow> require_ms C (initial_timestamp s) = Inr () \<and>
     series_length s = ta_length (s_data s) \<and> is_positive C (resolution s)"
  by (auto simp: validate_single_def rbind_Inr_iff guard_Inr)

lemma require_all_ms_Inr: "require_all_ms ts = Inr () \<longleftrightarrow> (\<forall>t \<in> set ts. require_millisecond_precision t = Inr ())"
  unfolding require_all_ms_def by (induction ts) (auto simp: rbind_Inr_iff map_err_Inr_iff)

lemma validate_non_sequential_Inr:
  "validate_non_sequential s = Inr () \<longleftrightarrow> length (instants s) = ta_length (s_data s) \<and>
     timestamps_length s = ta_length (s_data s) \<and> sorted_wrt (<) (instants s) \<and>
     (\<forall>t \<in> set (instants s). require_millisecond_precision t = Inr ())"
  using any_pair_sorted [of "instants s"] by (auto simp: validate_non_sequential_def require_all_ms_Inr)

lemma validate_persistent_Inr:
  "validate_persistent s = Inr () \<longleftrightarrow> length (breakpoints s) = ta_length (s_data s) \<and>
     breakpoints_length s = ta_length (s_data s) \<and> sorted_wrt (<) (breakpoints s) \<and>
     (\<forall>t \<in> set (breakpoints s). require_millisecond_precision t = Inr ())"
  using any_pair_sorted [of "breakpoints s"] by (auto simp: validate_persistent_def require_all_ms_Inr)

lemma validate_array_geometry_Inr:
  "validate_array_geometry a t = Inr () \<longleftrightarrow> check_bytes a = Inr () \<and> 0 \<notin> set (drop (leading_dims t) (shape a))"
  by (auto simp: validate_array_geometry_def rbind_Inr_iff map_err_Inr_iff)

section \<open>Reading back\<close>

lemma held_array:
  "arrays (view S) h = Some a \<Longrightarrow> arr_dtype a = d \<Longrightarrow> store_get_array S h d = Inr a"
  by (simp add: store_get_array_view mem_get_array_def check_dtype_def)

lemma held_shape: "arrays (view S) h = Some a \<Longrightarrow> store_array_shape S h = Inr (shape a)"
  by (simp add: store_array_shape_view mem_array_shape_def)

lemma whole_windows:
  assumes "arrays (view S) h = Some a" "arr_dtype a = d" "axis < length (shape a)" "shape a ! axis = n"
  shows "read_forecast_windows S h d (shape a) axis 0 n = Inr a"
  using assms by (simp add: read_forecast_windows_def held_array)

lemma whole_bounds: "checked_bounds m None = Inr None"
  by (simp add: checked_bounds_def)

lemmas read_back_defs = materialize_time_series_def materialize_prefetched_def materialize_array_def whole_bounds
  base_row_def data_array_def data_name_def data_element_type_def row_dtype_def required_field_def
  set_descriptors_def with_descriptors_def descriptors_of_def plain_series_def

lemma added_single:
  assumes "r_data item = SingleData s" "series_length s = ta_length (s_data s)"
    "arrays (view S) (array_hash sha (s_data s)) = Some (s_data s)"
    "arr_dtype (s_data s) = physical_dtype (s_element_type s)"
    "placed_row sha C (r_data item) (base_row sha item (data_element_type (r_data item))) = Inr (g, m)"
  shows "materialize_time_series C S (m\<lparr>m_id := i\<rparr>) None = Inr (r_data item)"
  using assms held_array [OF assms(3,4)]
  by (cases s) (auto simp: read_back_defs materialize_single_def single_series_def with_element_type_def
      series.defs single_time_series.defs descriptors.defs)

lemma added_non_sequential:
  assumes "r_data item = NonSequentialData s" "validate_non_sequential s = Inr ()"
    "arrays (view S) (array_hash sha (s_data s)) = Some (s_data s)"
    "arr_dtype (s_data s) = physical_dtype (s_element_type s)"
    "placed_row sha C (r_data item) (base_row sha item (data_element_type (r_data item))) = Inr (g, m)"
  shows "materialize_time_series C S (m\<lparr>m_id := i\<rparr>) None = Inr (r_data item)"
  using assms held_array [OF assms(3,4)] any_pair_sorted [of "instants s"]
  by (cases s) (auto simp: validate_non_sequential_Inr read_back_defs materialize_non_sequential_def explicit_timeline_def
      whole_explicit_def nsts_new_def series.defs non_sequential_time_series.defs descriptors.defs)

lemma added_persistent:
  assumes "r_data item = PersistentData s" "validate_persistent s = Inr ()"
    "arrays (view S) (array_hash sha (s_data s)) = Some (s_data s)"
    "arr_dtype (s_data s) = physical_dtype (s_element_type s)"
    "placed_row sha C (r_data item) (base_row sha item (data_element_type (r_data item))) = Inr (g, m)"
  shows "materialize_time_series C S (m\<lparr>m_id := i\<rparr>) None = Inr (r_data item)"
  using assms held_array [OF assms(3,4)] any_pair_sorted [of "breakpoints s"]
  by (cases s) (auto simp: validate_persistent_Inr read_back_defs materialize_persistent_def explicit_timeline_def
      whole_explicit_def persistent_new_def series.defs persistent_time_series.defs descriptors.defs)

text \<open>The windows of a stored forecast are all of them when no range is asked for.\<close>

lemma all_windows:
  assumes "arrays (view S) (m_data_hash m) = Some a" "arr_dtype a = row_dtype m" "axis < length (shape a)" "shape a ! axis = n"
  shows "selected_windows C S m None at itv n (shape a) axis = Inr (at, n, a)"
  using whole_windows [OF assms] by (simp add: selected_windows_def resolve_windows_def)

lemma zip_prefix: "length e \<le> length s \<and> list_all (\<lambda>(got, want). got = want) (zip s e) \<longleftrightarrow> (\<exists>rest. s = e @ rest)"
proof (induction e arbitrary: s)
  case (Cons x e)
  show ?case
  proof (cases s)
    case (Cons y ys)
    then show ?thesis using Cons.IH [of ys] by auto
  qed simp
qed simp

lemma validate_forecast_shape_prefix: "validate_forecast_shape s e = Inr () \<longleftrightarrow> (\<exists>rest. s = e @ rest)"
  unfolding zip_prefix [symmetric] by (auto simp: validate_forecast_shape_def)

lemma added_deterministic:
  assumes "r_data item = DeterministicData s" "deterministic_validate C s = Inr ()"
    "arrays (view S) (array_hash sha (s_data s)) = Some (s_data s)"
    "arr_dtype (s_data s) = physical_dtype (s_element_type s)"
    "placed_row sha C (r_data item) (base_row sha item (data_element_type (r_data item))) = Inr (g, m)"
  shows "materialize_time_series C S (m\<lparr>m_id := i\<rparr>) None = Inr (r_data item)"
proof -
  obtain h rest where h: "compute_h C (horizon s) (f_resolution s) = Inr h" and sh: "shape (s_data s) = [h, window_count s] @ rest"
    and m: "m = forecast_row s (base_row sha item (s_element_type s))"
    using assms(1,5) by (auto simp: rbind_Inr_iff map_err_Inr_iff validate_deterministic_def validate_forecast_shape_prefix
        data_element_type_def series.defs)
  have rows: "m_data_hash (m\<lparr>m_id := i\<rparr>) = array_hash sha (s_data s)" "row_dtype (m\<lparr>m_id := i\<rparr>) = physical_dtype (s_element_type s)"
    using assms(1) by (simp_all add: m forecast_row_def base_row_def data_array_def row_dtype_def Let_def series.defs)
  have all: "selected_windows C S (m\<lparr>m_id := i\<rparr>) None at itv (window_count s) (shape (s_data s)) 1 =
      Inr (at, window_count s, s_data s)" for at itv
    using all_windows [of S "m\<lparr>m_id := i\<rparr>" "s_data s" 1 "window_count s"] assms(3,4) sh by (simp only: rows) simp
  have "deterministic_new C (f_initial_timestamp s) (f_resolution s) (horizon s) (interval s) (window_count s) (s_data s) (s_name s) =
      Inr (series.extend (plain_series (s_data s) (s_name s))
        (deterministic.fields (f_initial_timestamp s) (f_resolution s) (horizon s) (interval s) (window_count s)))"
    using assms(2) by (simp add: deterministic_new_def deterministic_validate_def plain_series_def Let_def
        series.defs deterministic.defs cong: if_cong)
  then show ?thesis
    using assms(1) held_shape [OF assms(3)] h sh all rows
    by (cases s) (simp add: m read_back_defs forecast_row_def materialize_deterministic_def forecast_fields_def
        validate_forecast_shape_def series.defs deterministic.defs descriptors.defs)
qed

lemma added_probabilistic:
  assumes "r_data item = ProbabilisticData s" "probabilistic_validate C s = Inr ()"
    "arrays (view S) (array_hash sha (s_data s)) = Some (s_data s)"
    "arr_dtype (s_data s) = physical_dtype (s_element_type s)"
    "placed_row sha C (r_data item) (base_row sha item (data_element_type (r_data item))) = Inr (g, m)"
  shows "materialize_time_series C S (m\<lparr>m_id := i\<rparr>) None = Inr (r_data item)"
proof -
  obtain h rest where h: "compute_h C (horizon s) (f_resolution s) = Inr h" and sh: "shape (s_data s) = [length (percentiles s), h, window_count s] @ rest"
    and m: "m = forecast_row s ((base_row sha item (s_element_type s))\<lparr>m_percentiles := Some (percentiles s)\<rparr>)"
    using assms(1,5) by (auto simp: rbind_Inr_iff map_err_Inr_iff validate_probabilistic_def validate_forecast_shape_prefix
        data_element_type_def series.defs)
  have rows: "m_data_hash (m\<lparr>m_id := i\<rparr>) = array_hash sha (s_data s)" "row_dtype (m\<lparr>m_id := i\<rparr>) = physical_dtype (s_element_type s)"
    using assms(1) by (simp_all add: m forecast_row_def base_row_def data_array_def row_dtype_def Let_def series.defs)
  have all: "selected_windows C S (m\<lparr>m_id := i\<rparr>) None at itv (window_count s) (shape (s_data s)) 2 =
      Inr (at, window_count s, s_data s)" for at itv
    using all_windows [of S "m\<lparr>m_id := i\<rparr>" "s_data s" 2 "window_count s"] assms(3,4) sh by (simp only: rows) simp
  have "probabilistic_new C (f_initial_timestamp s) (f_resolution s) (horizon s) (interval s) (window_count s) (percentiles s) (s_data s) (s_name s) =
      Inr (deterministic.extend (series.extend (plain_series (s_data s) (s_name s))
        (deterministic.fields (f_initial_timestamp s) (f_resolution s) (horizon s) (interval s) (window_count s)))
        (probabilistic.fields (percentiles s)))"
    using assms(2) by (simp add: probabilistic_new_def probabilistic_validate_def plain_series_def Let_def
        series.defs deterministic.defs probabilistic.defs cong: if_cong)
  then show ?thesis
    using assms(1) held_shape [OF assms(3)] h sh all rows
    by (cases s) (simp add: m read_back_defs forecast_row_def materialize_probabilistic_def forecast_fields_def
        validate_forecast_shape_def series.defs deterministic.defs probabilistic.defs descriptors.defs)
qed

lemma added_scenarios:
  assumes "r_data item = ScenariosData s" "scenarios_validate C s = Inr ()"
    "arrays (view S) (array_hash sha (s_data s)) = Some (s_data s)"
    "arr_dtype (s_data s) = physical_dtype (s_element_type s)"
    "placed_row sha C (r_data item) (base_row sha item (data_element_type (r_data item))) = Inr (g, m)"
  shows "materialize_time_series C S (m\<lparr>m_id := i\<rparr>) None = Inr (r_data item)"
proof -
  obtain h rest where h: "compute_h C (horizon s) (f_resolution s) = Inr h" and sh: "shape (s_data s) = [scenario_count s, h, window_count s] @ rest"
    and m: "m = forecast_row s (base_row sha item (s_element_type s))"
    using assms(1,5) by (auto simp: rbind_Inr_iff map_err_Inr_iff validate_scenarios_def validate_forecast_shape_prefix
        data_element_type_def series.defs)
  have rows: "m_data_hash (m\<lparr>m_id := i\<rparr>) = array_hash sha (s_data s)" "row_dtype (m\<lparr>m_id := i\<rparr>) = physical_dtype (s_element_type s)"
    using assms(1) by (simp_all add: m forecast_row_def base_row_def data_array_def row_dtype_def Let_def series.defs)
  have all: "selected_windows C S (m\<lparr>m_id := i\<rparr>) None at itv (window_count s) (shape (s_data s)) 2 =
      Inr (at, window_count s, s_data s)" for at itv
    using all_windows [of S "m\<lparr>m_id := i\<rparr>" "s_data s" 2 "window_count s"] assms(3,4) sh by (simp only: rows) simp
  have "scenarios_new C (f_initial_timestamp s) (f_resolution s) (horizon s) (interval s) (window_count s) (scenario_count s) (s_data s) (s_name s) =
      Inr (deterministic.extend (series.extend (plain_series (s_data s) (s_name s))
        (deterministic.fields (f_initial_timestamp s) (f_resolution s) (horizon s) (interval s) (window_count s)))
        (scenarios.fields (scenario_count s)))"
    using assms(2) by (simp add: scenarios_new_def scenarios_validate_def plain_series_def Let_def
        series.defs deterministic.defs scenarios.defs cong: if_cong)
  then show ?thesis
    using assms(1) held_shape [OF assms(3)] h sh all rows
    by (cases s) (simp add: m read_back_defs forecast_row_def materialize_scenarios_def forecast_fields_def
        validate_forecast_shape_def series.defs deterministic.defs scenarios.defs descriptors.defs)
qed

lemma added_row_reads_back:
  assumes "build_request_parts sha C item = Inr p" "arrays (view S) (p_hash p) = Some (data_array (r_data item))"
  shows "materialize_time_series C S ((p_meta p)\<lparr>m_id := i\<rparr>) None = Inr (r_data item)"
proof -
  have parts: "validate_data C (r_data item) = Inr ()" "p_hash p = array_hash sha (data_array (r_data item))"
    "placed_row sha C (r_data item) (base_row sha item (data_element_type (r_data item))) = Inr (p_group p, p_meta p)"
    "arr_dtype (data_array (r_data item)) = physical_dtype (data_element_type (r_data item))"
    using assms(1) by (auto simp: build_request_parts_Inr dest: validate_array_dtype)
  note held = assms(2) [unfolded parts(2)]
  note facts = held parts(1,4)
  note unfolds = validate_data_def rbind_Inr_iff map_err_Inr_iff data_array_def data_element_type_def series.defs
  show ?thesis
  proof (cases "r_data item")
    case (SingleData s)
    from facts show ?thesis
      by (intro added_single [OF SingleData _ _ _ parts(3)]) (simp_all add: SingleData unfolds validate_single_Inr)
  next
    case (NonSequentialData s)
    from facts show ?thesis
      by (intro added_non_sequential [OF NonSequentialData _ _ _ parts(3)]) (simp_all add: NonSequentialData unfolds)
  next
    case (DeterministicData s)
    from facts show ?thesis
      by (intro added_deterministic [OF DeterministicData _ _ _ parts(3)]) (simp_all add: DeterministicData unfolds)
  next
    case (ProbabilisticData s)
    from facts show ?thesis
      by (intro added_probabilistic [OF ProbabilisticData _ _ _ parts(3)]) (simp_all add: ProbabilisticData unfolds)
  next
    case (ScenariosData s)
    from facts show ?thesis
      by (intro added_scenarios [OF ScenariosData _ _ _ parts(3)]) (simp_all add: ScenariosData unfolds)
  next
    case (PersistentData s)
    from facts show ?thesis
      by (intro added_persistent [OF PersistentData _ _ _ parts(3)]) (simp_all add: PersistentData unfolds)
  qed
qed

section \<open>Properties\<close>

text \<open>The instants a row records, and what an accepted row says of its array.\<close>

definition row_instants :: "ts_metadata \<Rightarrow> datetime list" where
  "row_instants m =
     (case m_initial_timestamp m of None \<Rightarrow> [] | Some t \<Rightarrow> [t]) @ (case m_timestamps m of None \<Rightarrow> [] | Some ts \<Rightarrow> ts)"

definition row_describes :: "chrono \<Rightarrow> ts_metadata \<Rightarrow> typed_array \<Rightarrow> bool" where
  "row_describes C m a \<longleftrightarrow>
     wf_array a \<and> arr_dtype a = row_dtype m \<and> m_element_shape m = element_shape a \<and> m_length m = Some (ta_length a) \<and>
     leading_dims (m_type m) \<le> length (shape a) \<and> 0 \<notin> set (drop (leading_dims (m_type m)) (shape a)) \<and>
     (\<forall>t \<in> set (row_instants m). require_millisecond_precision t = Inr ()) \<and>
     (m_initial_timestamp m = None \<longleftrightarrow> m_timestamps m \<noteq> None) \<and>
     (\<forall>ts. m_timestamps m = Some ts \<longrightarrow> sorted_wrt (<) ts \<and> length ts = ta_length a) \<and>
     (\<forall>res. m_resolution m = Some res \<longrightarrow> is_positive C res) \<and>
     (is_forecast (m_type m) \<longleftrightarrow> m_count m \<noteq> None) \<and>
     (\<forall>n. m_count m = Some n \<longrightarrow>
        (\<exists>h res hor. m_resolution m = Some res \<and> m_horizon m = Some hor \<and> compute_h C hor res = Inr h \<and>
           drop (leading_dims (m_type m) - 2) (take (leading_dims (m_type m)) (shape a)) = [h, n]))"

lemma placed_row_keeps:
  assumes "placed_row sha C d base = Inr (g, m)"
  shows "m_type m = m_type base \<and> m_data_hash m = m_data_hash base \<and> m_length m = m_length base \<and>
    m_element_shape m = m_element_shape base \<and> m_element_type m = m_element_type base \<and> m_id m = m_id base"
  using assms by (cases d) (auto simp: forecast_row_def rbind_Inr_iff)

lemma forecast_periods_positive: "validate_forecast_periods C res hor itv n = Inr () \<Longrightarrow> is_positive C res"
  by (auto simp: validate_forecast_periods_def Let_def rbind_Inr_iff split: if_splits)

lemma require_ms_precise: "require_ms C t = Inr () \<Longrightarrow> require_millisecond_precision t = Inr ()"
  by (auto simp: require_ms_def rbind_Inr_iff map_err_Inr_iff)

lemma forecast_describes:
  assumes shape: "shape a = front @ [h, n] @ rest" "length front + 2 = leading_dims (m_type m)" "is_forecast (m_type m)"
    and base: "wf_array a" "arr_dtype a = row_dtype m" "m_element_shape m = element_shape a" "m_length m = Some (ta_length a)"
      "0 \<notin> set (drop (leading_dims (m_type m)) (shape a))"
    and fields: "m_initial_timestamp m = Some t" "m_timestamps m = None" "m_resolution m = Some res" "m_horizon m = Some hor"
      "m_count m = Some n" "require_ms C t = Inr ()" "compute_h C hor res = Inr h"
      "validate_forecast_periods C res hor itv n = Inr ()"
  shows "row_describes C m a"
  using shape base(2-5) fields forecast_periods_positive [OF fields(8)] require_ms_precise [OF fields(6)]
  by (simp add: row_describes_def row_instants_def base(1) flip: shape(2))

lemma placed_row_describes:
  assumes placed: "placed_row sha C d base = Inr (g, m)" and base: "m_type base = data_type d" "m_initial_timestamp base = None" "m_timestamps base = None" "m_count base = None"
    "m_resolution base = None"
    and valid: "validate_data C d = Inr ()" "leading_dims (data_type d) \<le> length (shape (data_array d))"
    and array: "wf_array (data_array d)" "0 \<notin> set (drop (leading_dims (m_type m)) (shape (data_array d)))"
      "arr_dtype (data_array d) = row_dtype m" "m_element_shape m = element_shape (data_array d)"
      "m_length m = Some (ta_length (data_array d))"
  shows "row_describes C m (data_array d) \<and> (case (m_timestamps m, m_resolution m) of
      (Some ts, _) \<Rightarrow> g = Irregular (timestamps_hash sha C ts) | (None, Some res) \<Rightarrow> g = Regular res | _ \<Rightarrow> False)"
proof (cases d)
  case (SingleData s)
  then show ?thesis using placed base valid array
    by (auto simp: row_describes_def row_instants_def validate_data_def rbind_Inr_iff validate_single_Inr dest: require_ms_precise)
next
  case (NonSequentialData s)
  then show ?thesis using placed base valid array
    by (auto simp: row_describes_def row_instants_def validate_data_def rbind_Inr_iff validate_non_sequential_Inr
        data_array_def series.defs)
next
  case (PersistentData s)
  then show ?thesis using placed base valid array
    by (auto simp: row_describes_def row_instants_def validate_data_def rbind_Inr_iff validate_persistent_Inr
        data_array_def series.defs)
next
  case (DeterministicData s)
  then obtain h rest where "shape (s_data s) = [] @ [h, window_count s] @ rest" "compute_h C (horizon s) (f_resolution s) = Inr h"
    and m: "m = forecast_row s base" "g = Regular (f_resolution s)"
    using placed by (auto simp: rbind_Inr_iff map_err_Inr_iff validate_deterministic_def validate_forecast_shape_prefix)
  then show ?thesis
    using forecast_describes [of "data_array d" "[]" h "window_count s" rest m] DeterministicData base valid array
    by (auto simp: forecast_row_def validate_data_def rbind_Inr_iff map_err_Inr_iff deterministic_validate_def data_array_def series.defs)
next
  case (ProbabilisticData s)
  then obtain h rest where "shape (s_data s) = [length (percentiles s)] @ [h, window_count s] @ rest"
      "compute_h C (horizon s) (f_resolution s) = Inr h"
    and m: "m = forecast_row s (base\<lparr>m_percentiles := Some (percentiles s)\<rparr>)" "g = Regular (f_resolution s)"
    using placed by (auto simp: rbind_Inr_iff map_err_Inr_iff validate_probabilistic_def validate_forecast_shape_prefix)
  then show ?thesis
    using forecast_describes [of "data_array d" "[length (percentiles s)]" h "window_count s" rest m] ProbabilisticData base valid array
    by (auto simp: forecast_row_def validate_data_def rbind_Inr_iff map_err_Inr_iff probabilistic_validate_def data_array_def series.defs)
next
  case (ScenariosData s)
  then obtain h rest where "shape (s_data s) = [scenario_count s] @ [h, window_count s] @ rest"
      "compute_h C (horizon s) (f_resolution s) = Inr h"
    and m: "m = forecast_row s base" "g = Regular (f_resolution s)"
    using placed by (auto simp: rbind_Inr_iff map_err_Inr_iff validate_scenarios_def validate_forecast_shape_prefix)
  then show ?thesis
    using forecast_describes [of "data_array d" "[scenario_count s]" h "window_count s" rest m] ScenariosData base valid array
    by (auto simp: forecast_row_def validate_data_def rbind_Inr_iff map_err_Inr_iff scenarios_validate_def data_array_def series.defs)
qed

text \<open>C40: a row derived from an accepted request describes its array: the bytes fit the shape, the
  dtype and element shape are the array's own, no element is empty, every recorded instant is a whole
  millisecond, an explicit timeline is strictly increasing with one instant per step, a period that
  steps a grid is positive, and the shape of a forecast is the one its horizon, resolution and count
  give. The row names the array by its hash, and its pool, derived again from the row, is the one the
  array was put in.\<close>

theorem accepted_row_describes:
  assumes "build_request_parts sha C item = Inr p"
  shows "row_describes C (p_meta p) (data_array (r_data item)) \<and>
    m_data_hash (p_meta p) = p_hash p \<and> p_hash p = array_hash sha (data_array (r_data item)) \<and>
    pool_key_of sha C (p_meta p) = pool_key (data_array (r_data item)) (p_group p) \<and>
    p_layout p = array_layout_for (m_type (p_meta p)) \<and> m_id (p_meta p) = None"
proof -
  let ?a = "data_array (r_data item)" and ?m = "p_meta p"
  have parts: "validate_data C (r_data item) = Inr ()" "p_hash p = array_hash sha ?a"
    "placed_row sha C (r_data item) (base_row sha item (data_element_type (r_data item))) = Inr (p_group p, p_meta p)"
    "p_layout p = array_layout_for (data_type (r_data item))"
    "arr_dtype ?a = physical_dtype (data_element_type (r_data item))" "leading_dims (data_type (r_data item)) \<le> length (shape ?a)"
    using assms by (auto simp: build_request_parts_Inr dest: validate_array_dtype)
  have m: "m_type ?m = data_type (r_data item)" "m_data_hash ?m = array_hash sha ?a" "m_length ?m = Some (ta_length ?a)"
    "m_element_shape ?m = element_shape ?a" "m_element_type ?m = data_element_type (r_data item)" "m_id ?m = None"
    using placed_row_keeps [OF parts(3)] by (simp_all add: base_row_def Let_def)
  have geometry: "wf_array ?a" "0 \<notin> set (drop (leading_dims (m_type ?m)) (shape ?a))"
    using parts(1) by (auto simp: m(1) validate_data_def rbind_Inr_iff validate_array_geometry_Inr wf_array_def)
  have dtype: "arr_dtype ?a = row_dtype ?m" by (simp add: row_dtype_def m(5) parts(5))
  have describes: "row_describes C ?m ?a \<and> (case (m_timestamps ?m, m_resolution ?m) of
      (Some ts, _) \<Rightarrow> p_group p = Irregular (timestamps_hash sha C ts) | (None, Some res) \<Rightarrow> p_group p = Regular res | _ \<Rightarrow> False)"
    by (rule placed_row_describes [OF parts(3) _ _ _ _ _ parts(1,6) geometry dtype m(4,3)]) (simp_all add: base_row_def Let_def)
  then have "pool_key_of sha C ?m = pool_key ?a (p_group p)"
    by (auto simp: pool_key_of_def pool_key_def m dtype row_dtype_def split: option.splits prod.splits)
  then show ?thesis using describes parts(2,4) m by simp
qed

text \<open>C39: an added series reads back as it was given. When a request is accepted and its array is put
  into a store that holds nothing under its hash, or this array already, then reading the new row,
  whatever id the catalog gives it, returns the data of the request, descriptors and all.\<close>

theorem added_series_reads_back:
  assumes "build_request_parts sha C item = Inr p" "store_ok S"
    and "\<And>a. arrays (view S) (p_hash p) = Some a \<Longrightarrow> a = data_array (r_data item)"
    and "store_put_array iter S (p_hash p) (data_array (r_data item)) (p_group p) (p_layout p) = (Inr new, S')"
  shows "materialize_time_series C S' ((p_meta p)\<lparr>m_id := i\<rparr>) None = Inr (r_data item)"
proof -
  have "new = (arrays (view S) (p_hash p) = None)"
    "arrays (view S') = (if new then (arrays (view S))(p_hash p \<mapsto> data_array (r_data item)) else arrays (view S))"
    using store_put_view(2) [OF assms(2,4), of new] by simp_all
  then have "arrays (view S') (p_hash p) = Some (data_array (r_data item))" using assms(3) by auto
  then show ?thesis by (rule added_row_reads_back [OF assms(1)])
qed

definition demo_request :: add_request where
  "demo_request = add_request_new 1 ''Bus'' Component (SingleData (sts_new (day_2024 1 31) (Months 1) demo_array ''load''))"

definition empty_store :: array_store where
  "empty_store = \<lparr>as_buffer = wb_new, as_backend = memory_new, as_in_transaction = False\<rparr>"

lemma demo_require_ms: "require_ms gregorian (day_2024 1 31) = Inr ()"
proof -
  have "greg_month_index (day_2024 1 31) = 24288"
    unfolding day_2024_def by (subst greg_month_index_civil) (simp_all add: months_2024)
  then have "dt_year gregorian (day_2024 1 31) = 2024" by (simp add: gregorian_def)
  moreover have "require_millisecond_precision (day_2024 1 31) = Inr ()"
    by (simp add: require_millisecond_precision_def day_2024_def civil_def)
  ultimately show ?thesis by (simp add: require_ms_def)
qed

abbreviation demo_series :: single_time_series where
  "demo_series \<equiv> sts_new (day_2024 1 31) (Months 1) demo_array ''load''"

lemma demo_series_fields:
  "s_data demo_series = demo_array" "series_length demo_series = 2" "initial_timestamp demo_series = day_2024 1 31"
  "resolution demo_series = Months 1" "s_element_type demo_series = ScalarOf U8" "s_time_reference demo_series = None"
  by (simp_all add: sts_new_def plain_series_def series.defs single_time_series.defs demo_array_def ta_length_def)

lemma demo_request_fields: "r_data demo_request = SingleData demo_series" "r_features demo_request = []"
  "data_array (SingleData demo_series) = demo_array" "data_element_type (SingleData demo_series) = ScalarOf U8"
  "s_time_reference (series_of (SingleData demo_series)) = None"
  by (simp_all add: demo_request_def add_request_new_def data_array_def data_element_type_def demo_series_fields series.defs)

lemma demo_series_valid: "validate_data gregorian (SingleData demo_series) = Inr ()"
  using wf_demo unfolding validate_data_def wf_array_def
  by (simp add: validate_array_geometry_def validate_single_def data_array_def demo_series_fields series.defs demo_require_ms)
    (simp add: demo_array_def ta_length_def)

lemma demo_request_accepted:
  obtains p where "build_request_parts (\<lambda>_. [9]) gregorian demo_request = Inr p" "p_hash p = [9]" "p_layout p = Packed"
proof
  let ?p = "\<lparr>p_hash = [9], p_group = Regular (Months 1), p_layout = Packed,
    p_meta = (base_row (\<lambda>_. [9]) demo_request (ScalarOf U8))\<lparr>m_initial_timestamp := Some (day_2024 1 31),
      m_resolution := Some (Months 1)\<rparr>\<rparr>"
  have "validate_array (ScalarOf U8) demo_array 1 = Inr ()"
    by (simp add: validate_array_def demo_array_def validate_element_dims_def)
  then show "build_request_parts (\<lambda>_. [9]) gregorian demo_request = Inr ?p"
    unfolding build_request_parts_Inr
    by (simp add: demo_request_fields demo_series_valid demo_series_fields validate_time_reference_def array_hash_def
        del: series_of.simps)
  show "p_hash ?p = [9]" "p_layout ?p = Packed" by simp_all
qed

theorem accepted_row_describes_witness:
  "\<exists>p. build_request_parts (\<lambda>_. [9]) gregorian demo_request = Inr p \<and> row_describes gregorian (p_meta p) demo_array"
proof -
  obtain p where "build_request_parts (\<lambda>_. [9]) gregorian demo_request = Inr p" by (rule demo_request_accepted)
  then show ?thesis using accepted_row_describes [of "\<lambda>_. [9]" gregorian demo_request p] by (auto simp: demo_request_fields)
qed

theorem added_series_reads_back_witness:
  "\<exists>p S. build_request_parts (\<lambda>_. [9]) gregorian demo_request = Inr p \<and>
     store_put_array some_order empty_store [9] demo_array (p_group p) Packed = (Inr True, S) \<and>
     materialize_time_series gregorian S ((p_meta p)\<lparr>m_id := Some 1\<rparr>) None = Inr (SingleData demo_series)"
proof -
  obtain p where p: "build_request_parts (\<lambda>_. [9]) gregorian demo_request = Inr p" "p_hash p = [9]" "p_layout p = Packed"
    by (rule demo_request_accepted)
  have ok: "store_ok empty_store" by (simp add: store_ok_def empty_store_def wb_new_inv apart_def)
    (simp add: wb_get_def wb_new_def)
  have none: "arrays (view empty_store) h = None" for h
    by (simp add: view_arrays contents_def empty_store_def memory_new_def wb_get_def wb_new_def)
  obtain S where put: "store_put_array some_order empty_store [9] demo_array (p_group p) Packed = (Inr True, S)"
    by (simp add: store_put_array_def store_holds_array_def empty_store_def mem_contains_def memory_new_def
        mem_put_array_def wb_contains_def wb_new_def)
  have "materialize_time_series gregorian S ((p_meta p)\<lparr>m_id := Some 1\<rparr>) None = Inr (r_data demo_request)"
    using added_series_reads_back [OF p(1) ok, of some_order True S "Some 1"] put
    by (simp add: none demo_request_fields p(2,3))
  then show ?thesis using p(1) put by (auto simp: demo_request_fields)
qed

end
