(* ===== verification/CatalogOps.thy ===== *)
theory CatalogOps
  imports Timestamps Hash Metadata
begin

text \<open>
  The catalog as \<open>Store\<close> uses it: the statements it issues (\<open>catalog_ops\<close>), each a function on the state
  of the connection that returns a result, the guard of \<open>MetadataStore::savepoint\<close>, and, as the locale
  \<open>catalog_laws\<close>, what a transaction relies on. A connection has a current table and a stack of saved
  ones, one per open savepoint. A statement that fails changes nothing, or SQLite has rolled the whole
  transaction back and the connection is outside any transaction.
\<close>

section \<open>The catalog as the store sees it\<close>

datatype column = DataHash | TimestampsHash

record shared_set_cache =
  ss_features :: "hash set"
  ss_timestamps :: "hash set"

definition no_shared_sets :: shared_set_cache where
  "no_shared_sets = \<lparr>ss_features = {}, ss_timestamps = {}\<rparr>"

definition note_timestamps :: "hash \<Rightarrow> shared_set_cache \<Rightarrow> bool \<times> shared_set_cache" where
  "note_timestamps h c = (h \<notin> ss_timestamps c, c\<lparr>ss_timestamps := insert h (ss_timestamps c)\<rparr>)"

record deleted_row =
  d_data_hash :: hash
  d_type :: time_series_type
  d_owner_id :: int
  d_owner_category :: owner_category
  d_name :: string
  d_resolution :: "period option"
  d_features_hash :: hash

type_synonym ('k, 'a) catalog_call = "'k \<Rightarrow> 'a result \<times> 'k"

record 'k catalog_ops =
  c_savepoint :: "('k, unit) catalog_call"
  c_release :: "('k, unit) catalog_call"
  c_rollback :: "('k, unit) catalog_call"
  c_autocommit :: "'k \<Rightarrow> bool"
  c_references :: "column \<Rightarrow> hash \<Rightarrow> ('k, bool) catalog_call"
  c_insert :: "ts_metadata \<Rightarrow> shared_set_cache \<Rightarrow> ('k, int \<times> shared_set_cache) catalog_call"
  c_delete :: "int \<Rightarrow> (int \<times> owner_category) option \<Rightarrow> ('k, deleted_row option) catalog_call"
  c_family_conflict :: "ts_metadata \<Rightarrow> time_series_type \<Rightarrow> ('k, bool) catalog_call"
  c_family_holds :: "deleted_row \<Rightarrow> time_series_type \<Rightarrow> ('k, bool) catalog_call"
  c_delete_all :: "(int \<times> owner_category) option \<Rightarrow> ('k, hash list) catalog_call"
  c_referenced_axes :: "('k, hash set \<times> string list) catalog_call"

definition cret :: "'a \<Rightarrow> ('k, 'a) catalog_call" where "cret a k = (Inr a, k)"
definition cerr :: "ts_error \<Rightarrow> ('k, 'a) catalog_call" where "cerr e k = (Inl e, k)"

definition cbind :: "('k, 'a) catalog_call \<Rightarrow> ('a \<Rightarrow> ('k, 'b) catalog_call) \<Rightarrow> ('k, 'b) catalog_call" where
  "cbind f g k = (case f k of (Inl e, k') \<Rightarrow> (Inl e, k') | (Inr a, k') \<Rightarrow> g a k')"

text \<open>\<open>MetadataStore::savepoint\<close>: the guard rolls back when it is dropped without a commit.\<close>

definition in_savepoint :: "'k catalog_ops \<Rightarrow> ('k, 'a) catalog_call \<Rightarrow> ('k, 'a) catalog_call" where
  "in_savepoint K f k =
     (case c_savepoint K k of
        (Inl e, k1) \<Rightarrow> (Inl e, k1)
      | (Inr _, k1) \<Rightarrow>
          (case f k1 of
             (Inl e, k2) \<Rightarrow> (Inl e, snd (c_rollback K k2))
           | (Inr a, k2) \<Rightarrow>
               (case c_release K k2 of
                  (Inl e, k3) \<Rightarrow> (Inl e, snd (c_rollback K k3))
                | (Inr _, k3) \<Rightarrow> (Inr a, k3))))"

section \<open>What a transaction relies on\<close>

text \<open>The association rows and the feature sets stored beside them.\<close>

record table =
  t_rows :: "ts_metadata list"
  t_sets :: "hash set"

fun row_refs :: "(byte list \<Rightarrow> hash) \<Rightarrow> chrono \<Rightarrow> column \<Rightarrow> ts_metadata \<Rightarrow> hash set" where
  "row_refs sha C DataHash m = {m_data_hash m}"
| "row_refs sha C TimestampsHash m = (case m_timestamps m of None \<Rightarrow> {} | Some ts \<Rightarrow> {timestamps_hash sha C ts})"

definition table_refs :: "(byte list \<Rightarrow> hash) \<Rightarrow> chrono \<Rightarrow> table \<Rightarrow> column \<Rightarrow> hash set" where
  "table_refs sha C t col = (\<Union>m \<in> set (t_rows t). row_refs sha C col m)"

text \<open>Every feature set a row names is stored; the empty set needs no entry.\<close>

definition sets_interned :: "(byte list \<Rightarrow> hash) \<Rightarrow> table \<Rightarrow> bool" where
  "sets_interned sha t \<longleftrightarrow>
     (\<forall>m \<in> set (t_rows t). features_hash sha (m_features m) \<in> t_sets t \<or> features_hash sha (m_features m) = features_hash sha [])"

definition fell :: "('k \<Rightarrow> table) \<Rightarrow> ('k \<Rightarrow> table list) \<Rightarrow> 'k \<Rightarrow> 'k \<Rightarrow> bool" where
  "fell tbl saved k k' \<longleftrightarrow>
     tbl k' = tbl k \<and> saved k' = saved k \<or> saved k' = [] \<and> tbl k' = last (tbl k # saved k)"

definition tame :: "('k \<Rightarrow> table) \<Rightarrow> ('k \<Rightarrow> table list) \<Rightarrow> ('k, 'a) catalog_call \<Rightarrow> bool" where
  "tame tbl saved f \<longleftrightarrow>
     (\<forall>k r k'. f k = (r, k') \<longrightarrow> saved k' = saved k \<or>
        saved k \<noteq> [] \<and> saved k' = [] \<and> tbl k' = last (saved k) \<and> (\<exists>e. r = Inl e))"

locale catalog_laws =
  fixes sha :: "byte list \<Rightarrow> hash"
    and C :: chrono
    and K :: "'k catalog_ops"
    and tbl :: "'k \<Rightarrow> table"
    and saved :: "'k \<Rightarrow> table list"
  assumes autocommit: "c_autocommit K k \<longleftrightarrow> saved k = []"
    and savepoint_Inr: "c_savepoint K k = (Inr u, k') \<Longrightarrow> tbl k' = tbl k \<and> saved k' = tbl k # saved k"
    and savepoint_Inl: "c_savepoint K k = (Inl e, k') \<Longrightarrow> fell tbl saved k k'"
    and release_Inr: "c_release K k = (Inr u, k') \<Longrightarrow> saved k \<noteq> [] \<and> tbl k' = tbl k \<and> saved k' = tl (saved k)"
    and release_Inl: "c_release K k = (Inl e, k') \<Longrightarrow> fell tbl saved k k'"
    and rollback_open: "saved k \<noteq> [] \<Longrightarrow> \<exists>k'. c_rollback K k = (Inr (), k') \<and> tbl k' = hd (saved k) \<and> saved k' = tl (saved k)"
    and rollback_none: "saved k = [] \<Longrightarrow> \<exists>e k'. c_rollback K k = (Inl e, k') \<and> tbl k' = tbl k \<and> saved k' = []"
    and references_Inr: "c_references K col h k = (Inr b, k') \<Longrightarrow>
          tbl k' = tbl k \<and> saved k' = saved k \<and> (b \<longleftrightarrow> h \<in> table_refs sha C (tbl k) col)"
    and references_Inl: "c_references K col h k = (Inl e, k') \<Longrightarrow> fell tbl saved k k'"
    and family_conflict_Inr: "c_family_conflict K m t k = (Inr b, k') \<Longrightarrow> tbl k' = tbl k \<and> saved k' = saved k"
    and family_conflict_Inl: "c_family_conflict K m t k = (Inl e, k') \<Longrightarrow> fell tbl saved k k'"
    and family_holds_Inr: "c_family_holds K d t k = (Inr b, k') \<Longrightarrow> tbl k' = tbl k \<and> saved k' = saved k"
    and family_holds_Inl: "c_family_holds K d t k = (Inl e, k') \<Longrightarrow> fell tbl saved k k'"
    and insert_Inr: "c_insert K m cache k = (Inr (i, cache'), k') \<Longrightarrow>
          saved k' = saved k \<and> t_rows (tbl k') = t_rows (tbl k) @ [m\<lparr>m_id := Some i\<rparr>] \<and>
          t_sets (tbl k') = (if features_hash sha (m_features m) \<notin> ss_features cache \<and> m_features m \<noteq> []
            then insert (features_hash sha (m_features m)) (t_sets (tbl k)) else t_sets (tbl k)) \<and>
          cache' = cache\<lparr>ss_features := insert (features_hash sha (m_features m)) (ss_features cache)\<rparr>"
    and insert_Inl: "c_insert K m cache k = (Inl e, k') \<Longrightarrow>
          saved k' = saved k \<and> t_rows (tbl k') = t_rows (tbl k) \<and> t_sets (tbl k) \<subseteq> t_sets (tbl k') \<or>
          saved k \<noteq> [] \<and> saved k' = [] \<and> tbl k' = last (saved k)"
    and delete_None: "c_delete K i owner k = (Inr None, k') \<Longrightarrow> tbl k' = tbl k \<and> saved k' = saved k"
    and delete_Some: "c_delete K i owner k = (Inr (Some row), k') \<Longrightarrow>
          saved k' = saved k \<and> t_sets (tbl k') = t_sets (tbl k) \<and>
          t_rows (tbl k') = filter (\<lambda>m. m_id m \<noteq> Some i) (t_rows (tbl k))"
    and delete_Inl: "c_delete K i owner k = (Inl e, k') \<Longrightarrow>
          saved k' = saved k \<or> saved k \<noteq> [] \<and> saved k' = [] \<and> tbl k' = last (saved k)"
    and delete_all_Inr: "c_delete_all K owner k = (Inr hs, k') \<Longrightarrow>
          saved k' = saved k \<and> set (t_rows (tbl k')) \<subseteq> set (t_rows (tbl k)) \<and>
          (t_sets (tbl k') = t_sets (tbl k) \<or> t_rows (tbl k') = [])"
    and delete_all_Inl: "c_delete_all K owner k = (Inl e, k') \<Longrightarrow>
          saved k' = saved k \<or> saved k \<noteq> [] \<and> saved k' = [] \<and> tbl k' = last (saved k)"
    and referenced_axes_Inr: "c_referenced_axes K k = (Inr (axes, problems), k') \<Longrightarrow>
          tbl k' = tbl k \<and> saved k' = saved k \<and> (problems = [] \<longrightarrow> axes = table_refs sha C (tbl k) TimestampsHash)"
    and referenced_axes_Inl: "c_referenced_axes K k = (Inl e, k') \<Longrightarrow> fell tbl saved k k'"
begin

lemma fell_tame: "fell tbl saved k k' \<Longrightarrow> saved k' = saved k \<or> saved k \<noteq> [] \<and> saved k' = [] \<and> tbl k' = last (saved k)"
  by (auto simp: fell_def)

lemma tame_cret: "tame tbl saved (cret a)"
  by (simp add: tame_def cret_def)

lemma tame_cerr: "tame tbl saved (cerr e)"
  by (simp add: tame_def cerr_def)

lemma tame_cbind:
  assumes "tame tbl saved f" "\<And>a. tame tbl saved (g a)"
  shows "tame tbl saved (cbind f g)"
  unfolding tame_def
proof (intro allI impI)
  fix k r k'
  assume run: "cbind f g k = (r, k')"
  obtain x k1 where f: "f k = (x, k1)" by (cases "f k")
  note one = assms(1) [unfolded tame_def, rule_format, OF f]
  show "saved k' = saved k \<or> saved k \<noteq> [] \<and> saved k' = [] \<and> tbl k' = last (saved k) \<and> (\<exists>e. r = Inl e)"
  proof (cases x)
    case (Inl e)
    then show ?thesis using run f one by (auto simp: cbind_def)
  next
    case (Inr a)
    then have "g a k1 = (r, k')" "saved k1 = saved k" using run f one by (auto simp: cbind_def)
    then show ?thesis using assms(2) [of a, unfolded tame_def, rule_format, of k1 r k'] by simp
  qed
qed

lemma tameI:
  assumes "\<And>k a k'. f k = (Inr a, k') \<Longrightarrow> saved k' = saved k"
    and "\<And>k e k'. f k = (Inl e, k') \<Longrightarrow> saved k' = saved k \<or> saved k \<noteq> [] \<and> saved k' = [] \<and> tbl k' = last (saved k)"
  shows "tame tbl saved f"
  unfolding tame_def
proof (intro allI impI)
  fix k r k'
  assume "f k = (r, k')"
  then show "saved k' = saved k \<or> saved k \<noteq> [] \<and> saved k' = [] \<and> tbl k' = last (saved k) \<and> (\<exists>e. r = Inl e)"
    using assms by (cases r) blast+
qed

lemma tame_references: "tame tbl saved (c_references K col h)"
  by (rule tameI) (use references_Inr references_Inl fell_tame in blast)+

lemma tame_family_conflict: "tame tbl saved (c_family_conflict K m t)"
  by (rule tameI) (use family_conflict_Inr family_conflict_Inl fell_tame in blast)+

lemma tame_family_holds: "tame tbl saved (c_family_holds K d t)"
  by (rule tameI) (use family_holds_Inr family_holds_Inl fell_tame in blast)+

lemma tame_insert: "tame tbl saved (c_insert K m cache)"
proof (rule tameI)
  fix k a k'
  assume "c_insert K m cache k = (Inr a, k')"
  then show "saved k' = saved k" using insert_Inr by (cases a) blast
qed (use insert_Inl in blast)

lemma tame_delete: "tame tbl saved (c_delete K i owner)"
proof (rule tameI)
  fix k a k'
  assume "c_delete K i owner k = (Inr a, k')"
  then show "saved k' = saved k" using delete_None delete_Some by (cases a) blast+
qed (use delete_Inl in blast)

lemma tame_delete_all: "tame tbl saved (c_delete_all K owner)"
  by (rule tameI) (use delete_all_Inr delete_all_Inl in blast)+

lemma tame_referenced_axes: "tame tbl saved (c_referenced_axes K)"
proof (rule tameI)
  fix k a k'
  assume "c_referenced_axes K k = (Inr a, k')"
  then show "saved k' = saved k" using referenced_axes_Inr by (cases a) blast
qed (use referenced_axes_Inl fell_tame in blast)

lemmas tame_rules = tame_cret tame_cerr tame_cbind tame_references tame_family_conflict tame_family_holds tame_insert
  tame_delete tame_delete_all tame_referenced_axes

lemma rolled_back:
  assumes "saved k2 = t # ts \<or> saved k2 = [] \<and> tbl k2 = last (t # ts)"
  shows "tbl (snd (c_rollback K k2)) = t \<and> saved (snd (c_rollback K k2)) = ts \<or>
    saved (snd (c_rollback K k2)) = [] \<and> tbl (snd (c_rollback K k2)) = last (t # ts)"
proof (cases "saved k2 = []")
  case True
  then show ?thesis using assms rollback_none [OF True] by auto
next
  case False
  then show ?thesis using assms rollback_open [OF False] by auto
qed

lemma in_savepoint_cases:
  assumes f: "tame tbl saved f" and run: "in_savepoint K f k = (r, k')"
  shows "(\<exists>e. r = Inl e) \<and> fell tbl saved k k' \<or>
    (\<exists>a k1 k2. r = Inr a \<and> tbl k1 = tbl k \<and> saved k1 = tbl k # saved k \<and> f k1 = (Inr a, k2) \<and>
      saved k2 = tbl k # saved k \<and> tbl k' = tbl k2 \<and> saved k' = saved k)"
proof -
  obtain x k1 where sp: "c_savepoint K k = (x, k1)" by (cases "c_savepoint K k")
  show ?thesis
  proof (cases x)
    case (Inl e)
    then show ?thesis using run sp savepoint_Inl by (auto simp: in_savepoint_def)
  next
    case (Inr u)
    then have k1: "tbl k1 = tbl k" "saved k1 = tbl k # saved k" using sp savepoint_Inr by auto
    obtain y k2 where fk: "f k1 = (y, k2)" by (cases "f k1")
    note after = f [unfolded tame_def, rule_format, OF fk, unfolded k1]
    show ?thesis
    proof (cases y)
      case (Inl e)
      then have "r = Inl e" "k' = snd (c_rollback K k2)" using run sp \<open>x = Inr u\<close> fk by (auto simp: in_savepoint_def)
      then show ?thesis using rolled_back [of k2 "tbl k" "saved k"] after by (auto simp: fell_def)
    next
      case (Inr a)
      then have k2: "saved k2 = tbl k # saved k" using after by auto
      obtain z k3 where rel: "c_release K k2 = (z, k3)" by (cases "c_release K k2")
      show ?thesis
      proof (cases z)
        case (Inl e)
        then have "r = Inl e" "k' = snd (c_rollback K k3)" using run sp \<open>x = Inr u\<close> fk \<open>y = Inr a\<close> rel
          by (auto simp: in_savepoint_def)
        moreover have "saved k3 = tbl k # saved k \<or> saved k3 = [] \<and> tbl k3 = last (tbl k # saved k)"
          using release_Inl [of k2 e k3] rel Inl k2 by (auto simp: fell_def)
        ultimately show ?thesis using rolled_back [of k3 "tbl k" "saved k"] by (auto simp: fell_def)
      next
        case (Inr v)
        then have "r = Inr a" "k' = k3" using run sp \<open>x = Inr u\<close> fk \<open>y = Inr a\<close> rel by (auto simp: in_savepoint_def)
        then show ?thesis using release_Inr [of k2 v k3] rel Inr k1 k2 fk \<open>y = Inr a\<close> by auto
      qed
    qed
  qed
qed

end

end
