(* ===== verification/Catalog.thy ===== *)
theory Catalog
  imports CatalogOps PeriodText
begin

text \<open>
  The association catalog of \<open>crates/infrastore-core/src/metadata.rs\<close>: the rows of
  \<open>time_series_associations\<close> and \<open>feature_sets\<close> as the statements of \<open>MetadataStore\<close> read and change them,
  on a connection with a stack of savepoints. A row is its \<open>TimeSeriesMetadata\<close> with an id; the column
  \<open>timestamps_hash\<close> is derived from its instants. \<open>cn_outcomes\<close> schedules how SQLite treats the next
  statements: it completes one, refuses it, or refuses it and rolls the whole transaction back.
\<close>

section \<open>Connections and statements\<close>

record catalog_db =
  db_rows :: "ts_metadata list"
  db_last_id :: int
  db_features :: "(hash \<times> byte list \<times> feature_value) list"

datatype outcome = Completes | Fails | RollsBackAll

record connection =
  cn_db :: catalog_db
  cn_saved :: "catalog_db list"
  cn_outcomes :: "outcome list"

definition empty_db :: catalog_db where
  "empty_db = \<lparr>db_rows = [], db_last_id = 0, db_features = []\<rparr>"

definition open_in_memory :: "outcome list \<Rightarrow> connection" where
  "open_in_memory outcomes = \<lparr>cn_db = empty_db, cn_saved = [], cn_outcomes = outcomes\<rparr>"

definition statement :: "(catalog_db \<Rightarrow> 'a result \<times> catalog_db) \<Rightarrow> (connection, 'a) catalog_call" where
  "statement f k =
     (case cn_outcomes k of
        Fails # rest \<Rightarrow> (Inl SqliteError, k\<lparr>cn_outcomes := rest\<rparr>)
      | RollsBackAll # rest \<Rightarrow>
          (Inl SqliteError, k\<lparr>cn_db := last (cn_db k # cn_saved k), cn_saved := [], cn_outcomes := rest\<rparr>)
      | outcomes \<Rightarrow> (case f (cn_db k) of (r, db) \<Rightarrow> (r, k\<lparr>cn_db := db, cn_outcomes := tl outcomes\<rparr>)))"

text \<open>A read-only connection refuses the savepoint, so it never has one to release or to roll back.\<close>

definition savepoint :: "bool \<Rightarrow> (connection, unit) catalog_call" where
  "savepoint read_only k =
     (if read_only then (Inl ReadOnlyStore, k)
      else case statement (\<lambda>db. (Inr (), db)) k of
             (Inl e, k') \<Rightarrow> (Inl e, k')
           | (Inr _, k') \<Rightarrow> (Inr (), k'\<lparr>cn_saved := cn_db k' # cn_saved k'\<rparr>))"

definition release :: "bool \<Rightarrow> (connection, unit) catalog_call" where
  "release read_only k =
     (if cn_saved k = [] then (Inl (if read_only then ReadOnlyStore else SqliteError), k)
      else case statement (\<lambda>db. (Inr (), db)) k of
             (Inl e, k') \<Rightarrow> (Inl e, k')
           | (Inr _, k') \<Rightarrow> (Inr (), k'\<lparr>cn_saved := tl (cn_saved k')\<rparr>))"

definition roll_back :: "bool \<Rightarrow> (connection, unit) catalog_call" where
  "roll_back read_only k =
     (case cn_saved k of
        [] \<Rightarrow> (Inl (if read_only then ReadOnlyStore else SqliteError), k)
      | db # rest \<Rightarrow> (Inr (), k\<lparr>cn_db := db, cn_saved := rest\<rparr>))"

definition in_autocommit :: "connection \<Rightarrow> bool" where
  "in_autocommit k \<longleftrightarrow> cn_saved k = []"

section \<open>Inserting\<close>

definition iso_or_empty :: "chrono \<Rightarrow> period option \<Rightarrow> string" where
  "iso_or_empty C p = (case p of None \<Rightarrow> '''' | Some q \<Rightarrow> to_iso8601 C q)"

text \<open>The columns of the unique index \<open>uq_ts_assoc_coalesced\<close>.\<close>

definition row_identity ::
    "(byte list \<Rightarrow> hash) \<Rightarrow> chrono \<Rightarrow> ts_metadata \<Rightarrow>
     int \<times> owner_category \<times> time_series_type \<times> string \<times> string \<times> string \<times> hash" where
  "row_identity sha C m =
     (m_owner_id m, m_owner_category m, m_type m, m_name m, iso_or_empty C (m_resolution m),
      iso_or_empty C (m_interval m), features_hash sha (m_features m))"

definition insert_feature :: "hash \<Rightarrow> byte list \<times> feature_value \<Rightarrow> catalog_db \<Rightarrow> unit result \<times> catalog_db" where
  "insert_feature h kv db =
     (Inr (), if list_ex (\<lambda>(h', k, v). h' = h \<and> k = fst kv) (db_features db) then db
              else db\<lparr>db_features := db_features db @ [(h, kv)]\<rparr>)"

fun insert_feature_set :: "hash \<Rightarrow> features \<Rightarrow> (connection, unit) catalog_call" where
  "insert_feature_set h [] = cret ()"
| "insert_feature_set h (kv # fs) = cbind (statement (insert_feature h kv)) (\<lambda>_. insert_feature_set h fs)"

text \<open>The id is the one the caller supplied, or one past every id ever given out.\<close>

definition insert_row :: "(byte list \<Rightarrow> hash) \<Rightarrow> chrono \<Rightarrow> ts_metadata \<Rightarrow> catalog_db \<Rightarrow> int result \<times> catalog_db" where
  "insert_row sha C m db =
     (if m_id m \<noteq> None \<and> list_ex (\<lambda>r. m_id r = m_id m) (db_rows db)
      then (Inl (DuplicateAssociationId (the (m_id m))), db)
      else if list_ex (\<lambda>r. row_identity sha C r = row_identity sha C m) (db_rows db)
      then (Inl DuplicateTimeSeries, db)
      else if m_id m = None \<and> db_last_id db = 2 ^ 63 - 1 then (Inl SqliteError, db)
      else let i = (case m_id m of None \<Rightarrow> db_last_id db + 1 | Some i \<Rightarrow> i)
           in (Inr i, db\<lparr>db_rows := db_rows db @ [m\<lparr>m_id := Some i\<rparr>], db_last_id := max (db_last_id db) i\<rparr>))"

definition insert_batched ::
    "(byte list \<Rightarrow> hash) \<Rightarrow> chrono \<Rightarrow> ts_metadata \<Rightarrow> shared_set_cache \<Rightarrow> (connection, int \<times> shared_set_cache) catalog_call" where
  "insert_batched sha C m cache =
     (let h = features_hash sha (m_features m)
      in cbind (if h \<in> ss_features cache then cret () else insert_feature_set h (m_features m)) (\<lambda>_.
         cbind (statement (insert_row sha C m)) (\<lambda>i.
           cret (i, cache\<lparr>ss_features := insert h (ss_features cache)\<rparr>))))"

section \<open>Probes\<close>

definition hash_is_referenced_in_tx ::
    "(byte list \<Rightarrow> hash) \<Rightarrow> chrono \<Rightarrow> column \<Rightarrow> hash \<Rightarrow> (connection, bool) catalog_call" where
  "hash_is_referenced_in_tx sha C col h =
     statement (\<lambda>db. (Inr (list_ex (\<lambda>m. h \<in> row_refs sha C col m) (db_rows db)), db))"

definition same_family ::
    "(byte list \<Rightarrow> hash) \<Rightarrow> chrono \<Rightarrow> int \<times> owner_category \<times> string \<times> period option \<times> hash \<Rightarrow> ts_metadata \<Rightarrow> bool" where
  "same_family sha C f r =
     (case f of (owner, cat, name, res, h) \<Rightarrow>
        m_owner_id r = owner \<and> m_owner_category r = cat \<and> m_name r = name \<and>
        map_option (to_iso8601 C) (m_resolution r) = map_option (to_iso8601 C) res \<and> features_hash sha (m_features r) = h)"

definition forecast_family_conflict ::
    "(byte list \<Rightarrow> hash) \<Rightarrow> chrono \<Rightarrow> ts_metadata \<Rightarrow> time_series_type \<Rightarrow> (connection, bool) catalog_call" where
  "forecast_family_conflict sha C m t =
     statement (\<lambda>db.
       (Inr (list_ex (\<lambda>r. m_type r = t \<and>
          same_family sha C (m_owner_id m, m_owner_category m, m_name m, m_resolution m, features_hash sha (m_features m)) r)
          (db_rows db)), db))"

definition forecast_family_conflict_on_array ::
    "(byte list \<Rightarrow> hash) \<Rightarrow> chrono \<Rightarrow> deleted_row \<Rightarrow> time_series_type \<Rightarrow> (connection, bool) catalog_call" where
  "forecast_family_conflict_on_array sha C d t =
     statement (\<lambda>db.
       (Inr (list_ex (\<lambda>r. m_type r = t \<and> m_data_hash r = d_data_hash d \<and>
          same_family sha C (d_owner_id d, d_owner_category d, d_name d, d_resolution d, d_features_hash d) r)
          (db_rows db)), db))"

text \<open>A row here always carries a 32-byte hash, so no row is a problem.\<close>

definition referenced_timestamp_hashes ::
    "(byte list \<Rightarrow> hash) \<Rightarrow> chrono \<Rightarrow> (connection, hash set \<times> string list) catalog_call" where
  "referenced_timestamp_hashes sha C =
     statement (\<lambda>db. (Inr (\<Union>m \<in> set (db_rows db). row_refs sha C TimestampsHash m, []), db))"

section \<open>Deleting\<close>

definition iso_to_period :: "chrono \<Rightarrow> string \<Rightarrow> period result" where
  "iso_to_period C s =
     (case from_iso8601 C s of
        Parsed p \<Rightarrow> Inr p
      | _ \<Rightarrow> Inl (IntegrityError ''bad period in catalog''))"

definition deleted_of :: "(byte list \<Rightarrow> hash) \<Rightarrow> ts_metadata \<Rightarrow> period option \<Rightarrow> deleted_row" where
  "deleted_of sha m res =
     \<lparr>d_data_hash = m_data_hash m, d_type = m_type m, d_owner_id = m_owner_id m, d_owner_category = m_owner_category m,
      d_name = m_name m, d_resolution = res, d_features_hash = features_hash sha (m_features m)\<rparr>"

definition delete_row :: "int \<Rightarrow> catalog_db \<Rightarrow> unit result \<times> catalog_db" where
  "delete_row i db = (Inr (), db\<lparr>db_rows := filter (\<lambda>m. m_id m \<noteq> Some i) (db_rows db)\<rparr>)"

definition delete_by_id ::
    "(byte list \<Rightarrow> hash) \<Rightarrow> chrono \<Rightarrow> int \<Rightarrow> (int \<times> owner_category) option \<Rightarrow> (connection, deleted_row option) catalog_call" where
  "delete_by_id sha C i expected =
     cbind (statement (\<lambda>db. (Inr (List.find (\<lambda>m. m_id m = Some i) (db_rows db)), db))) (\<lambda>found.
       case found of
         None \<Rightarrow> cret None
       | Some m \<Rightarrow>
           if (case expected of None \<Rightarrow> False | Some (owner, cat) \<Rightarrow> m_owner_id m \<noteq> owner \<or> m_owner_category m \<noteq> cat)
           then cerr (OwnerMismatch i (fst (the expected)) (owner_category_str (snd (the expected)))
                        (m_owner_id m) (owner_category_str (m_owner_category m)))
           else cbind (statement (delete_row i)) (\<lambda>_.
             case m_resolution m of
               None \<Rightarrow> cret (Some (deleted_of sha m None))
             | Some p \<Rightarrow>
                 (case iso_to_period C (to_iso8601 C p) of
                    Inl e \<Rightarrow> cerr e
                  | Inr q \<Rightarrow> cret (Some (deleted_of sha m (Some q))))))"

definition owned_by :: "int \<times> owner_category \<Rightarrow> ts_metadata \<Rightarrow> bool" where
  "owned_by owner m \<longleftrightarrow> (m_owner_id m, m_owner_category m) = owner"

definition delete_by_owner :: "int \<times> owner_category \<Rightarrow> (connection, hash list) catalog_call" where
  "delete_by_owner owner =
     cbind (statement (\<lambda>db. (Inr (map m_data_hash (filter (owned_by owner) (db_rows db))), db))) (\<lambda>hs.
     cbind (statement (\<lambda>db. (Inr (), db\<lparr>db_rows := filter (\<lambda>m. \<not> owned_by owner m) (db_rows db)\<rparr>))) (\<lambda>_.
       cret hs))"

definition delete_all :: "(connection, hash list) catalog_call" where
  "delete_all =
     cbind (statement (\<lambda>db. (Inr (map m_data_hash (db_rows db)), db))) (\<lambda>hs.
     cbind (statement (\<lambda>db. (Inr (), db\<lparr>db_rows := []\<rparr>))) (\<lambda>_.
     cbind (statement (\<lambda>db. (Inr (), db\<lparr>db_features := []\<rparr>))) (\<lambda>_.
       cret hs)))"

definition sqlite_catalog :: "bool \<Rightarrow> (byte list \<Rightarrow> hash) \<Rightarrow> chrono \<Rightarrow> connection catalog_ops" where
  "sqlite_catalog read_only sha C =
     \<lparr>c_savepoint = savepoint read_only, c_release = release read_only, c_rollback = roll_back read_only,
      c_autocommit = in_autocommit, c_references = hash_is_referenced_in_tx sha C, c_insert = insert_batched sha C,
      c_delete = delete_by_id sha C, c_family_conflict = forecast_family_conflict sha C,
      c_family_holds = forecast_family_conflict_on_array sha C,
      c_delete_all = (\<lambda>owner. case owner of None \<Rightarrow> delete_all | Some o' \<Rightarrow> delete_by_owner o'),
      c_referenced_axes = referenced_timestamp_hashes sha C\<rparr>"

section \<open>The catalog keeps the laws\<close>

definition feature_hashes :: "catalog_db \<Rightarrow> hash set" where
  "feature_hashes db = fst ` set (db_features db)"

definition table_of :: "catalog_db \<Rightarrow> table" where
  "table_of db = \<lparr>t_rows = db_rows db, t_sets = feature_hashes db\<rparr>"

abbreviation tables_saved :: "connection \<Rightarrow> table list" where
  "tables_saved k \<equiv> map table_of (cn_saved k)"

lemma statement_cases:
  assumes "statement f k = (r, k')"
  obtains (ran) "f (cn_db k) = (r, cn_db k')" "cn_saved k' = cn_saved k"
  | (failed) "r = Inl SqliteError" "cn_db k' = cn_db k" "cn_saved k' = cn_saved k"
  | (lost) "r = Inl SqliteError" "cn_saved k' = []" "cn_db k' = last (cn_db k # cn_saved k)"
  using assms by (auto simp: statement_def split: list.splits outcome.splits prod.splits)

lemma statement_Inr:
  "statement f k = (Inr a, k') \<Longrightarrow> f (cn_db k) = (Inr a, cn_db k') \<and> cn_saved k' = cn_saved k"
  by (erule statement_cases) auto

lemma statement_Inl:
  "statement f k = (Inl e, k') \<Longrightarrow> (\<And>db db' e. f db = (Inl e, db') \<Longrightarrow> db' = db) \<Longrightarrow>
     cn_db k' = cn_db k \<and> cn_saved k' = cn_saved k \<or> cn_saved k' = [] \<and> cn_db k' = last (cn_db k # cn_saved k)"
  by (erule statement_cases) auto

lemma last_table: "last (table_of db # map table_of dbs) = table_of (last (db # dbs))"
  by (cases "dbs = []") (simp_all add: last_map)

lemma statement_fell:
  assumes "statement f k = (Inl e, k')" "\<And>db db' e. f db = (Inl e, db') \<Longrightarrow> db' = db"
  shows "fell (\<lambda>k. table_of (cn_db k)) tables_saved k k'"
  using statement_Inl [OF assms(1)] assms(2) by (auto simp: fell_def last_map)

lemma query_Inr:
  "statement (\<lambda>db. (g db, db)) k = (Inr a, k') \<Longrightarrow> g (cn_db k) = Inr a \<and> cn_db k' = cn_db k \<and> cn_saved k' = cn_saved k"
  using statement_Inr by fastforce

lemma insert_feature_sets:
  assumes "insert_feature h kv db = (r, db')"
  shows "db_rows db' = db_rows db" "feature_hashes db' = insert h (feature_hashes db)"
proof -
  show "db_rows db' = db_rows db" using assms by (auto simp: insert_feature_def)
  show "feature_hashes db' = insert h (feature_hashes db)"
  proof (cases "list_ex (\<lambda>(h', k, v). h' = h \<and> k = fst kv) (db_features db)")
    case True
    then have "h \<in> feature_hashes db" by (force simp: list_ex_iff feature_hashes_def)
    then show ?thesis using assms True by (simp add: insert_feature_def insert_absorb)
  next
    case False
    then have "db' = db\<lparr>db_features := db_features db @ [(h, kv)]\<rparr>" using assms by (simp add: insert_feature_def)
    then show ?thesis by (simp add: feature_hashes_def)
  qed
qed

lemma insert_feature_set_cases:
  assumes "insert_feature_set h fs k = (r, k')"
  shows "case r of
      Inr _ \<Rightarrow> cn_saved k' = cn_saved k \<and> db_rows (cn_db k') = db_rows (cn_db k) \<and>
        feature_hashes (cn_db k') = (if fs = [] then {} else {h}) \<union> feature_hashes (cn_db k)
    | Inl _ \<Rightarrow> cn_saved k' = cn_saved k \<and> db_rows (cn_db k') = db_rows (cn_db k) \<and>
        feature_hashes (cn_db k) \<subseteq> feature_hashes (cn_db k') \<or>
        cn_saved k \<noteq> [] \<and> cn_saved k' = [] \<and> cn_db k' = last (cn_saved k)"
  using assms
proof (induction fs arbitrary: k)
  case (Cons kv fs)
  obtain x k1 where one: "statement (insert_feature h kv) k = (x, k1)" by fastforce
  show ?case
  proof (cases x)
    case (Inl e)
    then show ?thesis
      using statement_Inl [of "insert_feature h kv" k e k1] one Cons.prems
      by (cases "cn_saved k = []") (auto simp: cbind_def insert_feature_def)
  next
    case (Inr u)
    then have k1: "insert_feature h kv (cn_db k) = (Inr u, cn_db k1)" "cn_saved k1 = cn_saved k"
      using statement_Inr [of "insert_feature h kv" k u k1] one by auto
    note step = insert_feature_sets [OF k1(1)]
    have "insert_feature_set h fs k1 = (r, k')" using Cons.prems one Inr by (simp add: cbind_def)
    then show ?thesis using Cons.IH [of k1] k1(2) step by (cases r) (auto split: if_splits)
  qed
qed (auto simp: cret_def)

lemma insert_row_Inl: "insert_row sha C m db = (Inl e, db') \<Longrightarrow> db' = db"
  by (auto simp: insert_row_def Let_def split: if_splits)

lemma insert_row_Inr: "insert_row sha C m db = (Inr i, db') \<Longrightarrow>
    db_rows db' = db_rows db @ [m\<lparr>m_id := Some i\<rparr>] \<and> feature_hashes db' = feature_hashes db"
  by (auto simp: insert_row_def Let_def feature_hashes_def split: if_splits)

lemma insert_batched_cases:
  assumes "insert_batched sha C m cache k = (r, k')"
  defines "h \<equiv> features_hash sha (m_features m)"
  shows "case r of
      Inr (i, cache') \<Rightarrow> cn_saved k' = cn_saved k \<and> db_rows (cn_db k') = db_rows (cn_db k) @ [m\<lparr>m_id := Some i\<rparr>] \<and>
        feature_hashes (cn_db k') =
          (if h \<notin> ss_features cache \<and> m_features m \<noteq> [] then insert h (feature_hashes (cn_db k))
           else feature_hashes (cn_db k)) \<and>
        cache' = cache\<lparr>ss_features := insert h (ss_features cache)\<rparr>
    | Inl e \<Rightarrow> cn_saved k' = cn_saved k \<and> db_rows (cn_db k') = db_rows (cn_db k) \<and>
        feature_hashes (cn_db k) \<subseteq> feature_hashes (cn_db k') \<or>
        cn_saved k \<noteq> [] \<and> cn_saved k' = [] \<and> cn_db k' = last (cn_saved k)"
proof -
  obtain x k1 where sets: "(if h \<in> ss_features cache then cret () else insert_feature_set h (m_features m)) k = (x, k1)" by fastforce
  have one: "case x of
      Inr _ \<Rightarrow> cn_saved k1 = cn_saved k \<and> db_rows (cn_db k1) = db_rows (cn_db k) \<and> feature_hashes (cn_db k1) =
          (if h \<notin> ss_features cache \<and> m_features m \<noteq> [] then insert h (feature_hashes (cn_db k))
           else feature_hashes (cn_db k))
    | Inl _ \<Rightarrow> cn_saved k1 = cn_saved k \<and> db_rows (cn_db k1) = db_rows (cn_db k) \<and>
        feature_hashes (cn_db k) \<subseteq> feature_hashes (cn_db k1) \<or>
        cn_saved k \<noteq> [] \<and> cn_saved k1 = [] \<and> cn_db k1 = last (cn_saved k)"
    using sets insert_feature_set_cases [of h "m_features m" k x k1] by (cases x) (auto simp: cret_def split: if_splits)
  show ?thesis
  proof (cases x)
    case (Inl e)
    then show ?thesis using assms(1) sets one by (auto simp: insert_batched_def Let_def h_def [symmetric] cbind_def)
  next
    case (Inr u)
    obtain y k2 where row: "statement (insert_row sha C m) k1 = (y, k2)" by fastforce
    have r: "r = (case y of Inl e \<Rightarrow> Inl e | Inr i \<Rightarrow> Inr (i, cache\<lparr>ss_features := insert h (ss_features cache)\<rparr>))" "k' = k2"
      using assms(1) sets Inr row by (auto simp: insert_batched_def Let_def h_def [symmetric] cbind_def cret_def split: sum.splits)
    show ?thesis
    proof (cases y)
      case (Inl e)
      then show ?thesis using statement_Inl [of "insert_row sha C m" k1 e k2] row insert_row_Inl r one \<open>x = Inr u\<close>
        by (cases "cn_saved k = []") (auto split: if_splits)
    next
      case (Inr i)
      then show ?thesis using statement_Inr [of "insert_row sha C m" k1 i k2] row insert_row_Inr [of sha C m "cn_db k1" i "cn_db k2"] r one \<open>x = Inr u\<close>
        by simp
    qed
  qed
qed

lemma statement_saved:
  "statement f k = (r, k') \<Longrightarrow> cn_saved k' = cn_saved k \<or>
     cn_saved k \<noteq> [] \<and> cn_saved k' = [] \<and> cn_db k' = last (cn_saved k) \<and> r = Inl SqliteError"
  by (erule statement_cases) (auto split: if_splits)

lemma delete_by_id_cases:
  assumes "delete_by_id sha C i owner k = (r, k')"
  shows "case r of
      Inr None \<Rightarrow> cn_saved k' = cn_saved k \<and> cn_db k' = cn_db k
    | Inr (Some row) \<Rightarrow> cn_saved k' = cn_saved k \<and> cn_db k' = snd (delete_row i (cn_db k))
    | Inl e \<Rightarrow> cn_saved k' = cn_saved k \<or> cn_saved k \<noteq> [] \<and> cn_saved k' = [] \<and> cn_db k' = last (cn_saved k)"
proof -
  obtain x k1 where one: "statement (\<lambda>db. (Inr (List.find (\<lambda>m. m_id m = Some i) (db_rows db)), db)) k = (x, k1)" by fastforce
  show ?thesis
  proof (cases x)
    case (Inl e)
    then show ?thesis using assms one statement_saved [OF one] by (auto simp: delete_by_id_def cbind_def)
  next
    case (Inr found)
    then have k1: "cn_saved k1 = cn_saved k" "cn_db k1 = cn_db k" using query_Inr [OF one [unfolded Inr]] by auto
    obtain y k2 where two: "statement (delete_row i) k1 = (y, k2)" by fastforce
    have k2: "\<exists>u. y = Inr u \<Longrightarrow> cn_saved k2 = cn_saved k \<and> cn_db k2 = snd (delete_row i (cn_db k))"
      using statement_Inr [of "delete_row i" k1 _ k2] two k1 by (metis snd_conv)
    have lost: "cn_saved k2 = cn_saved k \<or> cn_saved k \<noteq> [] \<and> cn_saved k2 = [] \<and> cn_db k2 = last (cn_saved k)"
      using statement_saved [OF two] k1 by auto
    show ?thesis
      using assms one Inr two k1 k2 lost
      by (auto simp: delete_by_id_def cbind_def cret_def cerr_def split: option.splits sum.splits if_splits prod.splits)
  qed
qed

lemma stmt_step:
  assumes "cbind (statement f) g k = (r, k')"
  shows "(\<exists>a k1. fst (f (cn_db k)) = Inr a \<and> cn_db k1 = snd (f (cn_db k)) \<and> cn_saved k1 = cn_saved k \<and> g a k1 = (r, k')) \<or>
    (\<exists>e. r = Inl e) \<and> (cn_saved k' = cn_saved k \<or> cn_saved k \<noteq> [] \<and> cn_saved k' = [] \<and> cn_db k' = last (cn_saved k))"
proof -
  obtain x k1 where one: "statement f k = (x, k1)" by fastforce
  show ?thesis
  proof (cases x)
    case (Inl e)
    then show ?thesis using assms one statement_saved [OF one] by (auto simp: cbind_def)
  next
    case (Inr a)
    then show ?thesis using assms one statement_Inr [of f k a k1] by (force simp: cbind_def)
  qed
qed

lemma delete_by_owner_cases:
  assumes "delete_by_owner o' k = (r, k')"
  shows "case r of
      Inr hs \<Rightarrow> cn_saved k' = cn_saved k \<and> cn_db k' = cn_db k\<lparr>db_rows := filter (\<lambda>m. \<not> owned_by o' m) (db_rows (cn_db k))\<rparr>
    | Inl e \<Rightarrow> cn_saved k' = cn_saved k \<or> cn_saved k \<noteq> [] \<and> cn_saved k' = [] \<and> cn_db k' = last (cn_saved k)"
  using assms unfolding delete_by_owner_def
  by (auto simp: cret_def dest!: stmt_step)

lemma delete_all_cases:
  assumes "delete_all k = (r, k')"
  shows "case r of
      Inr hs \<Rightarrow> cn_saved k' = cn_saved k \<and> db_rows (cn_db k') = []
    | Inl e \<Rightarrow> cn_saved k' = cn_saved k \<or> cn_saved k \<noteq> [] \<and> cn_saved k' = [] \<and> cn_db k' = last (cn_saved k)"
  using assms unfolding delete_all_def by (auto simp: cret_def dest!: stmt_step)

interpretation sqlite: catalog_laws sha C "sqlite_catalog read_only sha C" "\<lambda>k. table_of (cn_db k)" tables_saved
  for sha C read_only
proof
  let ?K = "sqlite_catalog read_only sha C"
  let ?tbl = "\<lambda>k. table_of (cn_db k)"
  fix k k' :: connection and u e col h b m t d i cache cache' owner row hs axes problems
  show "c_autocommit ?K k \<longleftrightarrow> tables_saved k = []" by (simp add: sqlite_catalog_def in_autocommit_def)
  show "c_savepoint ?K k = (Inr u, k') \<Longrightarrow> ?tbl k' = ?tbl k \<and> tables_saved k' = ?tbl k # tables_saved k"
    by (auto simp: sqlite_catalog_def savepoint_def split: if_splits prod.splits sum.splits dest!: query_Inr)
  show "c_savepoint ?K k = (Inl e, k') \<Longrightarrow> fell ?tbl tables_saved k k'"
    by (auto simp: sqlite_catalog_def savepoint_def fell_def split: if_splits prod.splits sum.splits dest!: statement_fell [unfolded fell_def])
  show "c_release ?K k = (Inr u, k') \<Longrightarrow> tables_saved k \<noteq> [] \<and> ?tbl k' = ?tbl k \<and> tables_saved k' = tl (tables_saved k)"
    by (auto simp: sqlite_catalog_def release_def map_tl split: if_splits prod.splits sum.splits dest!: query_Inr)
  show "c_release ?K k = (Inl e, k') \<Longrightarrow> fell ?tbl tables_saved k k'"
    by (auto simp: sqlite_catalog_def release_def fell_def split: if_splits prod.splits sum.splits dest!: statement_fell [unfolded fell_def])
  show "tables_saved k \<noteq> [] \<Longrightarrow> \<exists>k'. c_rollback ?K k = (Inr (), k') \<and> ?tbl k' = hd (tables_saved k) \<and> tables_saved k' = tl (tables_saved k)"
    by (cases "cn_saved k") (auto simp: sqlite_catalog_def roll_back_def)
  show "tables_saved k = [] \<Longrightarrow> \<exists>e k'. c_rollback ?K k = (Inl e, k') \<and> ?tbl k' = ?tbl k \<and> tables_saved k' = []"
    by (auto simp: sqlite_catalog_def roll_back_def)
  show "c_references ?K col h k = (Inr b, k') \<Longrightarrow>
      ?tbl k' = ?tbl k \<and> tables_saved k' = tables_saved k \<and> (b \<longleftrightarrow> h \<in> table_refs sha C (?tbl k) col)"
    by (auto simp: sqlite_catalog_def hash_is_referenced_in_tx_def table_refs_def table_of_def list_ex_iff dest!: query_Inr)
  show "c_references ?K col h k = (Inl e, k') \<Longrightarrow> fell ?tbl tables_saved k k'"
    by (auto simp: sqlite_catalog_def hash_is_referenced_in_tx_def elim: statement_fell)
  show "c_family_conflict ?K m t k = (Inr b, k') \<Longrightarrow> ?tbl k' = ?tbl k \<and> tables_saved k' = tables_saved k"
    by (auto simp: sqlite_catalog_def forecast_family_conflict_def dest!: query_Inr)
  show "c_family_conflict ?K m t k = (Inl e, k') \<Longrightarrow> fell ?tbl tables_saved k k'"
    by (auto simp: sqlite_catalog_def forecast_family_conflict_def elim: statement_fell)
  show "c_family_holds ?K d t k = (Inr b, k') \<Longrightarrow> ?tbl k' = ?tbl k \<and> tables_saved k' = tables_saved k"
    by (auto simp: sqlite_catalog_def forecast_family_conflict_on_array_def dest!: query_Inr)
  show "c_family_holds ?K d t k = (Inl e, k') \<Longrightarrow> fell ?tbl tables_saved k k'"
    by (auto simp: sqlite_catalog_def forecast_family_conflict_on_array_def elim: statement_fell)
  show "c_insert ?K m cache k = (Inr (i, cache'), k') \<Longrightarrow>
      tables_saved k' = tables_saved k \<and> t_rows (?tbl k') = t_rows (?tbl k) @ [m\<lparr>m_id := Some i\<rparr>] \<and>
      t_sets (?tbl k') = (if features_hash sha (m_features m) \<notin> ss_features cache \<and> m_features m \<noteq> []
        then insert (features_hash sha (m_features m)) (t_sets (?tbl k)) else t_sets (?tbl k)) \<and>
      cache' = cache\<lparr>ss_features := insert (features_hash sha (m_features m)) (ss_features cache)\<rparr>"
    using insert_batched_cases [of sha C m cache k "Inr (i, cache')" k'] by (auto simp: sqlite_catalog_def table_of_def)
  show "c_insert ?K m cache k = (Inl e, k') \<Longrightarrow>
      tables_saved k' = tables_saved k \<and> t_rows (?tbl k') = t_rows (?tbl k) \<and> t_sets (?tbl k) \<subseteq> t_sets (?tbl k') \<or>
      tables_saved k \<noteq> [] \<and> tables_saved k' = [] \<and> ?tbl k' = last (tables_saved k)"
    using insert_batched_cases [of sha C m cache k "Inl e" k'] by (auto simp: sqlite_catalog_def table_of_def last_map)
  show "c_delete ?K i owner k = (Inr None, k') \<Longrightarrow> ?tbl k' = ?tbl k \<and> tables_saved k' = tables_saved k"
    using delete_by_id_cases [of sha C i owner k "Inr None" k'] by (simp add: sqlite_catalog_def)
  show "c_delete ?K i owner k = (Inr (Some row), k') \<Longrightarrow>
      tables_saved k' = tables_saved k \<and> t_sets (?tbl k') = t_sets (?tbl k) \<and>
      t_rows (?tbl k') = filter (\<lambda>m. m_id m \<noteq> Some i) (t_rows (?tbl k))"
    using delete_by_id_cases [of sha C i owner k "Inr (Some row)" k'] by (simp add: sqlite_catalog_def table_of_def delete_row_def feature_hashes_def)
  show "c_delete ?K i owner k = (Inl e, k') \<Longrightarrow>
      tables_saved k' = tables_saved k \<or> tables_saved k \<noteq> [] \<and> tables_saved k' = [] \<and> ?tbl k' = last (tables_saved k)"
    using delete_by_id_cases [of sha C i owner k "Inl e" k'] by (auto simp: sqlite_catalog_def last_map)
  show "c_delete_all ?K owner k = (Inr hs, k') \<Longrightarrow>
      tables_saved k' = tables_saved k \<and> set (t_rows (?tbl k')) \<subseteq> set (t_rows (?tbl k)) \<and>
      (t_sets (?tbl k') = t_sets (?tbl k) \<or> t_rows (?tbl k') = [])"
    using delete_by_owner_cases [of "the owner" k "Inr hs" k'] delete_all_cases [of k "Inr hs" k']
    by (cases owner) (auto simp: sqlite_catalog_def table_of_def feature_hashes_def)
  show "c_delete_all ?K owner k = (Inl e, k') \<Longrightarrow>
      tables_saved k' = tables_saved k \<or> tables_saved k \<noteq> [] \<and> tables_saved k' = [] \<and> ?tbl k' = last (tables_saved k)"
    using delete_by_owner_cases [of "the owner" k "Inl e" k'] delete_all_cases [of k "Inl e" k']
    by (cases owner) (auto simp: sqlite_catalog_def last_map)
  show "c_referenced_axes ?K k = (Inr (axes, problems), k') \<Longrightarrow>
      ?tbl k' = ?tbl k \<and> tables_saved k' = tables_saved k \<and> (problems = [] \<longrightarrow> axes = table_refs sha C (?tbl k) TimestampsHash)"
    by (auto simp: sqlite_catalog_def referenced_timestamp_hashes_def table_refs_def table_of_def dest!: query_Inr)
  show "c_referenced_axes ?K k = (Inl e, k') \<Longrightarrow> fell ?tbl tables_saved k k'"
    by (auto simp: sqlite_catalog_def referenced_timestamp_hashes_def elim: statement_fell)
qed

end
