(* ===== verification/StoreTxn.thy ===== *)
theory StoreTxn
  imports AddRequests Catalog "HOL-Library.List_Lexorder"
begin

text \<open>
  Transactions over both halves of a store, as in \<open>crates/infrastore-core/src/store.rs\<close>: the
  bookkeeping of an open transaction (\<open>OpenTxn\<close>, \<open>FileObjects\<close>, \<open>Mark\<close>), begin, commit and
  rollback, adding a batch of requests and the removals. The array half is \<open>array_store\<close>; the catalog
  half is SQLite and enters as the record \<open>catalog_ops\<close> of the statements the store issues, whose
  documented behaviour (nested savepoints, a failing statement that changes nothing, a failure after
  which SQLite has rolled the whole transaction back) is the locale \<open>catalog_laws\<close>
  of \<open>CatalogOps\<close>, interpreted in \<open>Catalog\<close>. Flushing the in-memory backend does nothing; warnings are only logged. A map
  iterates in an order of its own (\<open>iter\<close> for the write buffer, \<open>order\<close> for the pools of a batch).
\<close>

section \<open>Objects of the array file\<close>

record file_objects =
  fo_arrays :: "hash list"
  fo_timestamps :: "hash list"

record mark =
  mk_arrays :: nat
  mk_timestamps :: nat

definition no_objects :: file_objects where "no_objects = \<lparr>fo_arrays = [], fo_timestamps = []\<rparr>"

definition fo_is_empty :: "file_objects \<Rightarrow> bool" where
  "fo_is_empty f \<longleftrightarrow> fo_arrays f = [] \<and> fo_timestamps f = []"

definition fo_mark :: "file_objects \<Rightarrow> mark" where
  "fo_mark f = \<lparr>mk_arrays = length (fo_arrays f), mk_timestamps = length (fo_timestamps f)\<rparr>"

definition fo_split_off :: "mark \<Rightarrow> file_objects \<Rightarrow> file_objects \<times> file_objects" where
  "fo_split_off m f =
     (\<lparr>fo_arrays = drop (mk_arrays m) (fo_arrays f), fo_timestamps = drop (mk_timestamps m) (fo_timestamps f)\<rparr>,
      \<lparr>fo_arrays = take (mk_arrays m) (fo_arrays f), fo_timestamps = take (mk_timestamps m) (fo_timestamps f)\<rparr>)"

definition fo_append :: "file_objects \<Rightarrow> file_objects \<Rightarrow> file_objects" where
  "fo_append f g = \<lparr>fo_arrays = fo_arrays f @ fo_arrays g, fo_timestamps = fo_timestamps f @ fo_timestamps g\<rparr>"

fun unreferenced_loop :: "'k catalog_ops \<Rightarrow> column \<Rightarrow> hash set \<Rightarrow> hash list \<Rightarrow> ('k, hash list) catalog_call" where
  "unreferenced_loop K col seen [] = cret []"
| "unreferenced_loop K col seen (h # hs) =
     (if h \<in> seen then unreferenced_loop K col seen hs
      else cbind (c_references K col h) (\<lambda>referenced.
           cbind (unreferenced_loop K col (insert h seen) hs) (\<lambda>out.
             cret (if referenced then out else h # out))))"

definition unreferenced_in :: "'k catalog_ops \<Rightarrow> hash list \<Rightarrow> column \<Rightarrow> ('k, hash list) catalog_call" where
  "unreferenced_in K candidates col = unreferenced_loop K col {} candidates"

definition unreferenced :: "'k catalog_ops \<Rightarrow> file_objects \<Rightarrow> ('k, file_objects) catalog_call" where
  "unreferenced K candidates =
     (if fo_is_empty candidates then cret no_objects
      else in_savepoint K
        (cbind (unreferenced_in K (fo_arrays candidates) DataHash) (\<lambda>as.
         cbind (unreferenced_in K (fo_timestamps candidates) TimestampsHash) (\<lambda>ts.
           cret \<lparr>fo_arrays = as, fo_timestamps = ts\<rparr>))))"

section \<open>The store\<close>

record open_txn =
  marks :: "mark list"
  written :: file_objects
  pending_free :: file_objects
  shared_sets :: shared_set_cache

definition no_txn :: open_txn where
  "no_txn = \<lparr>marks = [], written = no_objects, pending_free = no_objects, shared_sets = no_shared_sets\<rparr>"

record 'k store =
  s_arrays :: array_store
  s_catalog :: 'k
  s_txn :: open_txn
  s_read_only :: bool

definition in_transaction :: "'k store \<Rightarrow> bool" where
  "in_transaction st \<longleftrightarrow> marks (s_txn st) \<noteq> []"

definition invalidate_shared_sets :: "'k store \<Rightarrow> 'k store" where
  "invalidate_shared_sets st = st\<lparr>s_txn := (s_txn st)\<lparr>shared_sets := no_shared_sets\<rparr>\<rparr>"

definition transaction_was_forced_back :: "'k catalog_ops \<Rightarrow> 'k store \<Rightarrow> bool" where
  "transaction_was_forced_back K st \<longleftrightarrow> in_transaction st \<and> c_autocommit K (s_catalog st)"

definition check_transaction_alive :: "'k catalog_ops \<Rightarrow> 'k store \<Rightarrow> unit result" where
  "check_transaction_alive K st =
     (if transaction_was_forced_back K st
      then Inl (InvalidParameter ''the open transaction was rolled back by SQLite'') else Inr ())"

definition innermost_level :: "'k store \<Rightarrow> nat result" where
  "innermost_level st =
     (if marks (s_txn st) = [] then Inl (InvalidParameter ''no transaction is open'')
      else Inr (length (marks (s_txn st)) - 1))"

definition refuse_in_transaction :: "'k store \<Rightarrow> unit result" where
  "refuse_in_transaction st =
     (if in_transaction st then Inl (InvalidParameter ''while a transaction is open'') else Inr ())"

subsection \<open>Removing what was written\<close>

fun remove_arrays :: "hash list \<Rightarrow> array_store \<Rightarrow> array_store" where
  "remove_arrays [] S = S"
| "remove_arrays (h # hs) S = remove_arrays hs (snd (store_remove_array S h))"

fun remove_axes :: "hash list \<Rightarrow> memory_backend \<Rightarrow> memory_backend" where
  "remove_axes [] s = s"
| "remove_axes (h # hs) s = remove_axes hs (snd (mem_remove_timestamps s h))"

definition remove_writes :: "file_objects \<Rightarrow> array_store \<Rightarrow> array_store" where
  "remove_writes f S =
     (let S1 = remove_arrays (fo_arrays f) S
      in S1\<lparr>as_backend := remove_axes (fo_timestamps f) (as_backend S1)\<rparr>)"

text \<open>The arrays still buffered are dropped from the buffer, the others are kept in the list.\<close>

fun drop_buffered :: "hash list \<Rightarrow> write_buffer \<Rightarrow> hash list \<times> write_buffer" where
  "drop_buffered [] W = ([], W)"
| "drop_buffered (h # hs) W =
     (case wb_remove h W of
        (True, W') \<Rightarrow> drop_buffered hs W'
      | (False, W') \<Rightarrow> (case drop_buffered hs W' of (rest, W'') \<Rightarrow> (h # rest, W'')))"

definition unwind_written :: "'k catalog_ops \<Rightarrow> file_objects \<Rightarrow> 'k store \<Rightarrow> 'k store" where
  "unwind_written K f st =
     (case drop_buffered (fo_arrays f) (as_buffer (s_arrays st)) of (rest, W) \<Rightarrow>
        let S = (s_arrays st)\<lparr>as_buffer := W\<rparr>
        in case unreferenced K (f\<lparr>fo_arrays := rest\<rparr>) (s_catalog st) of
             (Inr garbage, k) \<Rightarrow> st\<lparr>s_arrays := remove_writes garbage S, s_catalog := k\<rparr>
           | (Inl _, k) \<Rightarrow> st\<lparr>s_arrays := S, s_catalog := k\<rparr>)"

definition free_or_defer :: "file_objects \<Rightarrow> 'k store \<Rightarrow> 'k store" where
  "free_or_defer garbage st =
     (if in_transaction st
      then st\<lparr>s_txn := (s_txn st)\<lparr>pending_free := fo_append (pending_free (s_txn st)) garbage\<rparr>\<rparr>
      else st\<lparr>s_arrays := remove_writes garbage (s_arrays st)\<rparr>)"

text \<open>A panic unwinds past the call that would settle the write.\<close>

definition settle :: "file_objects \<Rightarrow> ts_error failure + 'a \<Rightarrow> 'k store \<Rightarrow> (ts_error failure + 'a) \<times> 'k store" where
  "settle staged r st =
     (case r of
        Inr v \<Rightarrow>
          (Inr v, if in_transaction st then st\<lparr>s_txn := (s_txn st)\<lparr>written := fo_append (written (s_txn st)) staged\<rparr>\<rparr>
                  else st)
      | Inl (Raised e) \<Rightarrow> (Inl (Raised e), st\<lparr>s_arrays := remove_writes staged (s_arrays st)\<rparr>)
      | Inl Panicked \<Rightarrow> (Inl Panicked, st))"

definition write_catalog :: "'k catalog_ops \<Rightarrow> ('k, 'a) catalog_call \<Rightarrow> 'k store \<Rightarrow> 'a result \<times> 'k store" where
  "write_catalog K f st =
     (case check_transaction_alive K st of
        Inl e \<Rightarrow> (Inl e, st)
      | Inr _ \<Rightarrow> (case in_savepoint K f (s_catalog st) of (r, k) \<Rightarrow> (r, st\<lparr>s_catalog := k\<rparr>)))"

section \<open>Begin, commit and rollback\<close>

definition begin_transaction :: "'k catalog_ops \<Rightarrow> 'k store \<Rightarrow> unit result \<times> 'k store" where
  "begin_transaction K st =
     (case check_transaction_alive K st of
        Inl e \<Rightarrow> (Inl e, st)
      | Inr _ \<Rightarrow>
          (case c_savepoint K (s_catalog st) of
             (Inl e, k) \<Rightarrow> (Inl e, st\<lparr>s_catalog := k\<rparr>)
           | (Inr _, k) \<Rightarrow>
               (Inr (), st\<lparr>s_catalog := k,
                  s_txn := (s_txn st)\<lparr>marks := marks (s_txn st) @ [fo_mark (written (s_txn st))]\<rparr>\<rparr>)))"

definition write_buffered :: "iteration \<Rightarrow> hash list \<Rightarrow> array_store \<Rightarrow> unit result \<times> array_store" where
  "write_buffered iter garbage S =
     (case write_all_except mem_ops iter (set garbage) (as_buffer S) (as_backend S) of
        (r, W, s) \<Rightarrow> (r, S\<lparr>as_buffer := W, as_backend := s\<rparr>))"

definition commit_outermost :: "'k catalog_ops \<Rightarrow> iteration \<Rightarrow> 'k store \<Rightarrow> unit result \<times> 'k store" where
  "commit_outermost K iter st =
     (case unreferenced K (pending_free (s_txn st)) (s_catalog st) of
        (Inl e, k) \<Rightarrow> (Inl e, st\<lparr>s_catalog := k\<rparr>)
      | (Inr garbage, k) \<Rightarrow>
          (case if fo_is_empty (written (s_txn st)) then (Inr (), s_arrays st)
                else write_buffered iter (fo_arrays garbage) (s_arrays st) of
             (Inl e, S) \<Rightarrow> (Inl e, st\<lparr>s_catalog := k, s_arrays := S\<rparr>)
           | (Inr _, S) \<Rightarrow>
               (case c_release K k of
                  (Inl e, k') \<Rightarrow> (Inl e, st\<lparr>s_catalog := k', s_arrays := S\<rparr>)
                | (Inr _, k') \<Rightarrow>
                    (Inr (), st\<lparr>s_catalog := k', s_arrays := remove_writes garbage S, s_txn := no_txn\<rparr>))))"

definition commit_transaction :: "'k catalog_ops \<Rightarrow> iteration \<Rightarrow> 'k store \<Rightarrow> unit result \<times> 'k store" where
  "commit_transaction K iter st =
     (case innermost_level st of
        Inl e \<Rightarrow> (Inl e, st)
      | Inr level \<Rightarrow>
          (case check_transaction_alive K st of
             Inl e \<Rightarrow> (Inl e, st)
           | Inr _ \<Rightarrow>
               if 0 < level
               then (case c_release K (s_catalog st) of
                       (Inl e, k) \<Rightarrow> (Inl e, st\<lparr>s_catalog := k\<rparr>)
                     | (Inr _, k) \<Rightarrow>
                         (Inr (), st\<lparr>s_catalog := k, s_txn := (s_txn st)\<lparr>marks := butlast (marks (s_txn st))\<rparr>\<rparr>))
               else commit_outermost K iter st))"

definition rollback_transaction :: "'k catalog_ops \<Rightarrow> 'k store \<Rightarrow> unit result \<times> 'k store" where
  "rollback_transaction K st =
     (case innermost_level st of
        Inl e \<Rightarrow> (Inl e, st)
      | Inr level \<Rightarrow>
          if transaction_was_forced_back K st
          then (Inr (), unwind_written K (written (s_txn st)) (st\<lparr>s_txn := no_txn\<rparr>))
          else (case c_rollback K (s_catalog st) of
                  (Inl e, k) \<Rightarrow> (Inl e, st\<lparr>s_catalog := k\<rparr>)
                | (Inr _, k) \<Rightarrow>
                    let t = s_txn st;
                        (gone, kept) = fo_split_off (last (marks t)) (written t);
                        t' = (if level = 0 then no_txn
                              else t\<lparr>shared_sets := no_shared_sets, marks := butlast (marks t), written := kept\<rparr>);
                        st' = unwind_written K gone (st\<lparr>s_catalog := k, s_txn := t'\<rparr>)
                    in (check_transaction_alive K st', st')))"

section \<open>Adding a batch\<close>

definition stage_timestamp_vector ::
    "chrono \<Rightarrow> pack_group \<Rightarrow> datetime list option \<Rightarrow> shared_set_cache \<Rightarrow> file_objects \<Rightarrow> memory_backend \<Rightarrow>
     unit result \<times> shared_set_cache \<times> file_objects \<times> memory_backend" where
  "stage_timestamp_vector C g ts seen staged s =
     (case (g, ts) of
        (Irregular h, Some v) \<Rightarrow>
          (case note_timestamps h seen of
             (False, seen') \<Rightarrow> (Inr (), seen', staged, s)
           | (True, seen') \<Rightarrow>
               (case mem_put_timestamps C s h v of
                  (Inl e, s') \<Rightarrow> (Inl e, seen', staged, s')
                | (Inr new, s') \<Rightarrow>
                    (Inr (), seen',
                     if new then staged\<lparr>fo_timestamps := fo_timestamps staged @ [h]\<rparr> else staged, s')))
      | _ \<Rightarrow> (Inr (), seen, staged, s))"

fun stage_axes ::
    "chrono \<Rightarrow> request_parts list \<Rightarrow> shared_set_cache \<Rightarrow> file_objects \<Rightarrow> memory_backend \<Rightarrow>
     unit result \<times> shared_set_cache \<times> file_objects \<times> memory_backend" where
  "stage_axes C [] seen staged s = (Inr (), seen, staged, s)"
| "stage_axes C (p # ps) seen staged s =
     (case stage_timestamp_vector C (p_group p) (m_timestamps (p_meta p)) seen staged s of
        (Inl e, seen', staged', s') \<Rightarrow> (Inl e, seen', staged', s')
      | (Inr _, seen', staged', s') \<Rightarrow> stage_axes C ps seen' staged' s')"

type_synonym part = "typed_array \<times> request_parts"

definition put_staged :: "iteration \<Rightarrow> part \<Rightarrow> file_objects \<Rightarrow> array_store \<Rightarrow> unit result \<times> file_objects \<times> array_store" where
  "put_staged iter x staged S =
     (case store_put_array iter S (p_hash (snd x)) (fst x) (p_group (snd x)) (p_layout (snd x)) of
        (Inl e, S') \<Rightarrow> (Inl e, staged, S')
      | (Inr new, S') \<Rightarrow>
          (Inr (), if new then staged\<lparr>fo_arrays := fo_arrays staged @ [p_hash (snd x)]\<rparr> else staged, S'))"

text \<open>Inside a transaction the buffer does the grouping.\<close>

fun put_each :: "iteration \<Rightarrow> part list \<Rightarrow> file_objects \<Rightarrow> array_store \<Rightarrow> unit result \<times> file_objects \<times> array_store" where
  "put_each iter [] staged S = (Inr (), staged, S)"
| "put_each iter (x # xs) staged S =
     (case put_staged iter x staged S of
        (Inl e, staged', S') \<Rightarrow> (Inl e, staged', S')
      | (Inr _, staged', S') \<Rightarrow> put_each iter xs staged' S')"

text \<open>Outside one, the packed arrays of a batch are grouped by pool first; a pool holds the parts
  themselves where the code holds their positions.\<close>

type_synonym pools = "(pool_key \<times> part list) list"

definition push_pool :: "pool_key \<Rightarrow> part \<Rightarrow> pools \<Rightarrow> pools" where
  "push_pool key x pools =
     (case map_of pools key of
        None \<Rightarrow> pools @ [(key, [x])]
      | Some _ \<Rightarrow> map (\<lambda>(k, xs). if k = key then (k, xs @ [x]) else (k, xs)) pools)"

fun group_parts ::
    "iteration \<Rightarrow> part list \<Rightarrow> hash set \<Rightarrow> pools \<Rightarrow> file_objects \<Rightarrow> array_store \<Rightarrow>
     pools result \<times> file_objects \<times> array_store" where
  "group_parts iter [] seen pools staged S = (Inr pools, staged, S)"
| "group_parts iter (x # xs) seen pools staged S =
     (if p_hash (snd x) \<in> seen then group_parts iter xs seen pools staged S
      else if is_packed (p_layout (snd x))
      then group_parts iter xs (insert (p_hash (snd x)) seen) (push_pool (pool_key (fst x) (p_group (snd x))) x pools) staged S
      else (case put_staged iter x staged S of
              (Inl e, staged', S') \<Rightarrow> (Inl e, staged', S')
            | (Inr _, staged', S') \<Rightarrow> group_parts iter xs (insert (p_hash (snd x)) seen) pools staged' S'))"

definition block_of :: "part list \<Rightarrow> (hash \<times> typed_array) list" where
  "block_of xs = map (\<lambda>x. (p_hash (snd x), fst x)) xs"

definition flagged :: "hash list \<Rightarrow> bool list \<Rightarrow> hash list" where
  "flagged hs flags = map fst (filter snd (zip hs flags))"

fun write_pools :: "pools \<Rightarrow> file_objects \<Rightarrow> memory_backend \<Rightarrow> unit result \<times> file_objects \<times> memory_backend" where
  "write_pools [] staged s = (Inr (), staged, s)"
| "write_pools ((key, xs) # rest) staged s =
     (case put_block mem_ops s (block_of xs) (key_group key) of
        (Inl e, s') \<Rightarrow> (Inl e, staged, s')
      | (Inr flags, s') \<Rightarrow>
          write_pools rest (staged\<lparr>fo_arrays := fo_arrays staged @ flagged (map fst (block_of xs)) flags\<rparr>) s')"

definition put_grouped ::
    "iteration \<Rightarrow> (pools \<Rightarrow> pools) \<Rightarrow> part list \<Rightarrow> file_objects \<Rightarrow> array_store \<Rightarrow>
     unit result \<times> file_objects \<times> array_store" where
  "put_grouped iter order xs staged S =
     (case group_parts iter xs {} [] staged S of
        (Inl e, staged', S') \<Rightarrow> (Inl e, staged', S')
      | (Inr pools, staged', S') \<Rightarrow>
          (case write_pools (order pools) staged' (as_backend S') of
             (r, staged'', s) \<Rightarrow> (r, staged'', S'\<lparr>as_backend := s\<rparr>)))"

fun exclusive_counterpart :: "time_series_type \<Rightarrow> time_series_type option" where
  "exclusive_counterpart Deterministic = Some DeterministicSingleTimeSeries"
| "exclusive_counterpart DeterministicSingleTimeSeries = Some Deterministic"
| "exclusive_counterpart _ = None"

definition check_forecast_family_free :: "'k catalog_ops \<Rightarrow> ts_metadata \<Rightarrow> ('k, unit) catalog_call" where
  "check_forecast_family_free K m =
     (case exclusive_counterpart (m_type m) of
        None \<Rightarrow> cret ()
      | Some conflicting \<Rightarrow>
          cbind (c_family_conflict K m conflicting) (\<lambda>conflict.
            if conflict then cerr (InvalidParameter ''they are mutually exclusive'') else cret ()))"

definition insert_association ::
    "'k catalog_ops \<Rightarrow> ts_metadata \<Rightarrow> shared_set_cache \<Rightarrow> ('k, int \<times> shared_set_cache) catalog_call" where
  "insert_association K m cache = cbind (check_forecast_family_free K m) (\<lambda>_. c_insert K m cache)"

fun insert_rows :: "'k catalog_ops \<Rightarrow> ts_metadata list \<Rightarrow> shared_set_cache \<Rightarrow> ('k, int list \<times> shared_set_cache) catalog_call" where
  "insert_rows K [] cache = cret ([], cache)"
| "insert_rows K (m # ms) cache =
     cbind (insert_association K m cache) (\<lambda>(i, cache'). cbind (insert_rows K ms cache') (\<lambda>(ids, cache''). cret (i # ids, cache'')))"

text \<open>The backend as it is while a transaction is open or not.\<close>

definition arrays_in :: "'k store \<Rightarrow> array_store" where
  "arrays_in st = (s_arrays st)\<lparr>as_in_transaction := in_transaction st\<rparr>"

definition insert_batch ::
    "'k catalog_ops \<Rightarrow> bool \<Rightarrow> ts_metadata list \<Rightarrow> shared_set_cache \<Rightarrow> ('k, int list \<times> shared_set_cache) catalog_call" where
  "insert_batch K flush ms cache =
     (if flush \<or> 1 < length ms then in_savepoint K (insert_rows K ms cache) else insert_rows K ms cache)"

definition add_parts ::
    "'k catalog_ops \<Rightarrow> iteration \<Rightarrow> (pools \<Rightarrow> pools) \<Rightarrow> chrono \<Rightarrow> part list \<Rightarrow> 'k store \<Rightarrow>
     int list result \<times> file_objects \<times> 'k store" where
  "add_parts K iter order C xs st =
     (let in_txn = in_transaction st;
          cache = (if in_txn then shared_sets (s_txn st) else no_shared_sets);
          st1 = (if in_txn then invalidate_shared_sets st else st);
          S = arrays_in st
      in case stage_axes C (map snd xs) cache no_objects (as_backend S) of
           (Inl e, cache', staged, s) \<Rightarrow> (Inl e, staged, st1\<lparr>s_arrays := S\<lparr>as_backend := s\<rparr>\<rparr>)
         | (Inr _, cache', staged, s) \<Rightarrow>
             (case (if in_txn then put_each iter xs else put_grouped iter order xs) staged (S\<lparr>as_backend := s\<rparr>) of
                (Inl e, staged', S') \<Rightarrow> (Inl e, staged', st1\<lparr>s_arrays := S'\<rparr>)
              | (Inr _, staged', S') \<Rightarrow>
                  (case insert_batch K (\<not> in_txn) (map (p_meta \<circ> snd) xs) cache' (s_catalog st) of
                     (Inl e, k) \<Rightarrow> (Inl e, staged', st1\<lparr>s_arrays := S', s_catalog := k\<rparr>)
                   | (Inr (ids, cache''), k) \<Rightarrow>
                       (Inr ids, staged',
                        st1\<lparr>s_arrays := S', s_catalog := k,
                           s_txn := (if in_txn then (s_txn st1)\<lparr>shared_sets := cache''\<rparr> else s_txn st1)\<rparr>))))"

definition add_requests_staged ::
    "'k catalog_ops \<Rightarrow> iteration \<Rightarrow> (pools \<Rightarrow> pools) \<Rightarrow> (byte list \<Rightarrow> hash) \<Rightarrow> chrono \<Rightarrow> add_request list \<Rightarrow> 'k store \<Rightarrow>
     (ts_error failure + int list) \<times> file_objects \<times> 'k store" where
  "add_requests_staged K iter order sha C items st =
     (if s_read_only st then (Inl (Raised ReadOnlyStore), no_objects, st)
      else case check_transaction_alive K st of
             Inl e \<Rightarrow> (Inl (Raised e), no_objects, st)
           | Inr _ \<Rightarrow>
               if items = [] then (Inr [], no_objects, st)
               else (case rmap_all (build_request_parts sha C) items of
                       Inl e \<Rightarrow> (Inl e, no_objects, st)
                     | Inr parts \<Rightarrow>
                         (case add_parts K iter order C (zip (map (data_array \<circ> r_data) items) parts) st of
                            (r, staged, st') \<Rightarrow> (raise r, staged, st'))))"

definition add_requests ::
    "'k catalog_ops \<Rightarrow> iteration \<Rightarrow> (pools \<Rightarrow> pools) \<Rightarrow> (byte list \<Rightarrow> hash) \<Rightarrow> chrono \<Rightarrow> add_request list \<Rightarrow> 'k store \<Rightarrow>
     (ts_error failure + int list) \<times> 'k store" where
  "add_requests K iter order sha C items st =
     (case add_requests_staged K iter order sha C items st of (r, staged, st') \<Rightarrow> settle staged r st')"

section \<open>Removing\<close>

definition family_of :: "deleted_row \<Rightarrow> int \<times> owner_category \<times> string \<times> period option \<times> hash \<times> hash" where
  "family_of row = (d_owner_id row, d_owner_category row, d_name row, d_resolution row, d_features_hash row, d_data_hash row)"

fun orphaned_dst_loop ::
    "'k catalog_ops \<Rightarrow> (int \<times> owner_category \<times> string \<times> period option \<times> hash \<times> hash) set \<Rightarrow> deleted_row list \<Rightarrow>
     ('k, unit) catalog_call" where
  "orphaned_dst_loop K seen [] = cret ()"
| "orphaned_dst_loop K seen (row # rows) =
     (if family_of row \<in> seen then orphaned_dst_loop K seen rows
      else cbind (c_family_holds K row DeterministicSingleTimeSeries) (\<lambda>derived.
           cbind (if derived then c_family_holds K row SingleTimeSeries else cret True) (\<lambda>backed.
             if derived \<and> \<not> backed then cerr (InvalidParameter ''it backs a DeterministicSingleTimeSeries'')
             else orphaned_dst_loop K (insert (family_of row) seen) rows)))"

definition check_no_orphaned_dst :: "'k catalog_ops \<Rightarrow> deleted_row list \<Rightarrow> ('k, unit) catalog_call" where
  "check_no_orphaned_dst K rows = orphaned_dst_loop K {} rows"

fun delete_ids ::
    "'k catalog_ops \<Rightarrow> (int \<times> owner_category) option \<Rightarrow> int set \<Rightarrow> int list \<Rightarrow> ('k, deleted_row list) catalog_call" where
  "delete_ids K owner seen [] = cret []"
| "delete_ids K owner seen (i # ids) =
     (if i \<in> seen then delete_ids K owner seen ids
      else cbind (c_delete K i owner) (\<lambda>found.
             case found of
               None \<Rightarrow> cerr NotFound
             | Some row \<Rightarrow> cbind (delete_ids K owner (insert i seen) ids) (\<lambda>rows. cret (row # rows))))"

definition remove_by_ids_inner ::
    "'k catalog_ops \<Rightarrow> int list \<Rightarrow> (int \<times> owner_category) option \<Rightarrow> 'k store \<Rightarrow> nat result \<times> 'k store" where
  "remove_by_ids_inner K ids owner st =
     (case write_catalog K
        (cbind (delete_ids K owner {} ids) (\<lambda>rows.
         cbind (check_no_orphaned_dst K (filter (\<lambda>r. d_type r = SingleTimeSeries) rows)) (\<lambda>_.
         cbind (unreferenced_in K (map d_data_hash rows) DataHash) (\<lambda>as.
           cret (length rows, \<lparr>fo_arrays = as, fo_timestamps = []\<rparr>))))) st of
        (Inl e, st') \<Rightarrow> (Inl e, st')
      | (Inr (n, garbage), st') \<Rightarrow> (Inr n, free_or_defer garbage st'))"

definition remove_by_ids :: "'k catalog_ops \<Rightarrow> int list \<Rightarrow> 'k store \<Rightarrow> nat result \<times> 'k store" where
  "remove_by_ids K ids st = remove_by_ids_inner K ids None st"

definition remove_by_ids_for_owner ::
    "'k catalog_ops \<Rightarrow> int list \<Rightarrow> int \<times> owner_category \<Rightarrow> 'k store \<Rightarrow> nat result \<times> 'k store" where
  "remove_by_ids_for_owner K ids owner st = remove_by_ids_inner K ids (Some owner) st"

definition orphaned_timestamp_vectors :: "'k catalog_ops \<Rightarrow> memory_backend \<Rightarrow> ('k, hash list) catalog_call" where
  "orphaned_timestamp_vectors K s =
     cbind (c_referenced_axes K) (\<lambda>(referenced, problems).
       if problems \<noteq> [] then cerr (IntegrityError ''cannot sweep timestamp vectors'')
       else (\<lambda>k. (rbind (mem_timestamp_hashes s) (\<lambda>hs. Inr (sorted_list_of_set (hs - referenced))), k)))"

definition clear_time_series ::
    "'k catalog_ops \<Rightarrow> (int \<times> owner_category) option \<Rightarrow> 'k store \<Rightarrow> nat result \<times> 'k store" where
  "clear_time_series K owner st0 =
     (let st = invalidate_shared_sets st0
      in case write_catalog K
           (cbind (c_delete_all K owner) (\<lambda>removed.
            cbind (unreferenced_in K removed DataHash) (\<lambda>as. cret (length removed, as)))) st of
           (Inl e, st') \<Rightarrow> (Inl e, st')
         | (Inr (n, as), st') \<Rightarrow>
             (case orphaned_timestamp_vectors K (as_backend (s_arrays st')) (s_catalog st') of
                (swept, k) \<Rightarrow>
                  let ts = (case swept of Inl _ \<Rightarrow> [] | Inr hs \<Rightarrow> hs); st'' = st'\<lparr>s_catalog := k\<rparr>
                  in case check_transaction_alive K st'' of
                       Inl e \<Rightarrow> (Inl e, st'')
                     | Inr _ \<Rightarrow> (Inr n, free_or_defer \<lparr>fo_arrays = as, fo_timestamps = ts\<rparr> st'')))"

end
