(* ===== verification/StoreObjects.thy ===== *)
theory StoreObjects
  imports StoreTxn
begin

text \<open>
  What the operations on the array half do to the objects it stores: the arrays, buffered or in the
  backend, and the time axes. A write through the buffer touches no axis and takes no array out of
  the backend; removing objects removes exactly those.
\<close>

section \<open>What writing through the buffer keeps\<close>

text \<open>A property of the backend that every write, and every removal of one of \<open>R\<close>, keeps.\<close>

locale backend_keeps =
  fixes B :: "'s backend_ops" and P :: "'s \<Rightarrow> bool" and R :: "hash set"
  assumes put_keeps: "P s \<Longrightarrow> P (snd (b_put B s h a g l))"
    and block_keeps: "P s \<Longrightarrow> P (snd (b_put_block B s block g))"
    and remove_keeps: "P s \<Longrightarrow> h \<in> R \<Longrightarrow> P (snd (b_remove B s h))"
begin

lemma put_block_keeps: "P s \<Longrightarrow> P (snd (put_block B s block g))"
  using put_keeps block_keeps
  by (auto simp: put_block_def Let_def split: sum.splits list.splits prod.splits) (metis snd_conv)+

lemma write_block_keeps: "P s \<Longrightarrow> P (snd (snd (write_block_except B key skip W s)))"
proof -
  assume P: "P s"
  show ?thesis
  proof (cases "blocks W key")
    case (Some b)
    let ?live = "filter (\<lambda>(h, a). h \<notin> skip) (zip (b_hashes b) (b_arrays b))"
    obtain r s' where w: "(if ?live = [] then (Inr [], s) else put_block B s ?live (key_group key)) = (r, s')"
      by fastforce
    then have "P s'" using P put_block_keeps [OF P, of ?live "key_group key"] by (auto split: if_splits)
    then show ?thesis using Some w by (auto simp: write_block_except_def Let_def split: sum.splits prod.splits)
  qed (simp add: write_block_except_def P)
qed

lemma write_blocks_keeps: "P s \<Longrightarrow> P (snd (snd (write_blocks B skip keys W s)))"
proof (induction keys arbitrary: W s)
  case (Cons key keys)
  obtain r W1 s1 where w: "write_block_except B key skip W s = (r, W1, s1)" by (metis prod_cases3)
  then have "P s1" using write_block_keeps [OF Cons.prems, of key skip W] by simp
  then show ?case using Cons.IH [of s1 W1] w by (cases r) simp_all
qed simp

lemma evict_loop_keeps: "P s \<Longrightarrow> P (snd (snd (evict_loop n B iter W s)))"
proof (induction n arbitrary: W s)
  case (Suc n)
  show ?case
  proof (cases "max_by_key (\<lambda>k. case blocks W k of Some b \<Rightarrow> b_bytes b | None \<Rightarrow> 0) (iter (blocks W))")
    case (Some key)
    obtain r W1 s1 where w: "write_block B key W s = (r, W1, s1)" by (metis prod_cases3)
    then have "P s1" using write_block_keeps [OF Suc.prems, of key "{}" W] by (simp add: write_block_def)
    then show ?thesis using Suc.IH [of s1 W1] Some w Suc.prems by (cases r) simp_all
  qed (simp add: Suc.prems)
qed simp

lemma wb_push_keeps: "P s \<Longrightarrow> h \<in> R \<Longrightarrow> P (snd (snd (wb_push B iter h a g W s)))"
proof -
  assume P: "P s" "h \<in> R"
  obtain r W' s' where w: "push_writes B iter h a g W s = (r, W', s')" by (metis prod_cases3)
  from w obtain r1 W1 s1 where one: "write_block_except B (pool_key a g) {} (wb_accept h a g W) s = (r1, W1, s1) \<or>
      r1 = Inr () \<and> W1 = wb_accept h a g W \<and> s1 = s"
    and two: "case r1 of Inl e \<Rightarrow> r = Inl e \<and> W' = W1 \<and> s' = s1 | Inr _ \<Rightarrow> evict_over_budget B iter W1 s1 = (r, W', s')"
    by (rule push_writes_cases)
  have "P s1" using one P(1) write_block_keeps [OF P(1), of "pool_key a g" "{}" "wb_accept h a g W"] by auto
  then have "P s'" using two evict_loop_keeps [of s1 "length (iter (blocks W1)) + 1" iter W1]
    by (cases r1) (auto simp: evict_over_budget_def)
  then show ?thesis using remove_keeps [OF _ P(2)] by (cases r) (simp_all add: wb_push_writes w)
qed

end

text \<open>In the in-memory backend: the time axes, and the arrays of \<open>H\<close>, stay.\<close>

definition axes_and_arrays :: "(hash \<rightharpoonup> int list) \<Rightarrow> hash set \<Rightarrow> memory_backend \<Rightarrow> bool" where
  "axes_and_arrays axes H s \<longleftrightarrow> memory_backend.timestamps s = axes \<and> H \<subseteq> dom (arrays s)"

lemma mem_put_keeps: "axes_and_arrays axes H s \<Longrightarrow> axes_and_arrays axes H (snd (mem_put_array s h a g l))"
  by (auto simp: axes_and_arrays_def mem_put_array_def Let_def split: option.splits)

lemma mem_put_block_keeps:
  "axes_and_arrays axes H s \<Longrightarrow> axes_and_arrays axes H (snd (put_packed_block mem_put_array s block g))"
proof (induction mem_put_array s block g rule: put_packed_block.induct)
  case (2 s h a rest g)
  obtain r s1 where one: "mem_put_array s h a g Packed = (r, s1)" by fastforce
  then have "axes_and_arrays axes H s1" using mem_put_keeps [OF 2(2), of h a g Packed] by simp
  then show ?case using 2(1) one by (cases r) (auto split: prod.splits sum.splits)
qed simp

interpretation mem_keeps: backend_keeps mem_ops "axes_and_arrays axes H" "- H" for axes H
proof
  fix s h a g l block
  show "axes_and_arrays axes H s \<Longrightarrow> axes_and_arrays axes H (snd (b_put mem_ops s h a g l))"
    by (simp add: mem_ops_def mem_put_keeps)
  show "axes_and_arrays axes H s \<Longrightarrow> axes_and_arrays axes H (snd (b_put_block mem_ops s block g))"
    by (simp add: mem_ops_def mem_put_block_keeps)
  show "axes_and_arrays axes H s \<Longrightarrow> h \<in> - H \<Longrightarrow> axes_and_arrays axes H (snd (b_remove mem_ops s h))"
    by (auto simp: mem_ops_def axes_and_arrays_def mem_remove_array_def split: option.splits)
qed

section \<open>The objects of an array store\<close>

fun objects :: "file_objects \<Rightarrow> column \<Rightarrow> hash list" where
  "objects f DataHash = fo_arrays f"
| "objects f TimestampsHash = fo_timestamps f"

fun stored_objects :: "array_store \<Rightarrow> column \<Rightarrow> hash set" where
  "stored_objects S DataHash = dom (arrays (view S))"
| "stored_objects S TimestampsHash = dom (memory_backend.timestamps (as_backend S))"

definition buffered_arrays :: "array_store \<Rightarrow> hash set" where
  "buffered_arrays S = {h. wb_contains (as_buffer S) h}"

lemma buffered_view:
  assumes "store_ok S"
  shows "buffered_arrays S = dom (arrays (view S)) - dom (arrays (as_backend S))"
    and "dom (arrays (as_backend S)) \<subseteq> dom (arrays (view S))"
proof -
  have "wb_contains (as_buffer S) h \<longleftrightarrow> h \<in> dom (arrays (view S)) - dom (arrays (as_backend S))" for h
    using assms contains_get [OF assms, of h]
    by (cases "wb_get (as_buffer S) h") (auto simp: view_lookup store_ok_def apart_def domIff)
  then show "buffered_arrays S = dom (arrays (view S)) - dom (arrays (as_backend S))" by (auto simp: buffered_arrays_def)
  show "dom (arrays (as_backend S)) \<subseteq> dom (arrays (view S))"
    by (auto simp: view_arrays contents_def split: option.splits)
qed

lemma store_put_objects:
  assumes ok: "store_ok S" and put: "store_put_array iter S h a g layout = (r, S')"
  shows "memory_backend.timestamps (as_backend S') = memory_backend.timestamps (as_backend S)"
    and "buffered_arrays S' \<subseteq> buffered_arrays S \<union> (if r = Inr True then {h} else {})"
proof -
  have after: "axes_and_arrays (memory_backend.timestamps (as_backend S)) (dom (arrays (as_backend S))) (as_backend S')"
  proof (cases "arrays (view S) h")
    case (Some b)
    then have "S' = S" using put store_holds_array_view [OF ok, of h] by (simp add: store_put_array_def mem_contains_def)
    then show ?thesis by (simp add: axes_and_arrays_def)
  next
    case None
    then have h: "h \<in> - dom (arrays (as_backend S))" using buffered_view(2) [OF ok] by blast
    have s: "axes_and_arrays (memory_backend.timestamps (as_backend S)) (dom (arrays (as_backend S))) (as_backend S)"
      by (simp add: axes_and_arrays_def)
    show ?thesis
      using put None store_holds_array_view [OF ok, of h] mem_keeps.wb_push_keeps [OF s h, of iter a g "as_buffer S"]
        mem_put_keeps [OF s, of h a g layout]
      by (auto simp: store_put_array_def mem_contains_def split: if_splits sum.splits prod.splits)
  qed
  then show "memory_backend.timestamps (as_backend S') = memory_backend.timestamps (as_backend S)"
    by (simp add: axes_and_arrays_def)
  have ok': "store_ok S'" using store_put_view(1) [OF ok put] .
  have "dom (arrays (view S')) \<subseteq> dom (arrays (view S)) \<union> (if r = Inr True then {h} else {})"
  proof (cases r)
    case (Inr new)
    then show ?thesis using store_put_view(2) [OF ok put, of new] by (cases new) auto
  next
    case (Inl e)
    then show ?thesis using store_put_view(3) [OF ok put, of e] by simp
  qed
  then show "buffered_arrays S' \<subseteq> buffered_arrays S \<union> (if r = Inr True then {h} else {})"
    using after by (auto simp: buffered_view(1) [OF ok] buffered_view(1) [OF ok'] axes_and_arrays_def)
qed

subsection \<open>Removing\<close>

lemma store_remove_objects:
  assumes ok: "store_ok S" and S': "S' = snd (store_remove_array S h)"
  shows "store_ok S'" "arrays (view S') = (arrays (view S))(h := None)"
    and "memory_backend.timestamps (as_backend S') = memory_backend.timestamps (as_backend S)"
    and "buffered_arrays S' = buffered_arrays S - {h}"
proof -
  have inv: "wb_inv (as_buffer S)" using ok by (simp add: store_ok_def)
  obtain b W where rem: "wb_remove h (as_buffer S) = (b, W)" by fastforce
  have W: "wb_inv W" "wb_get W = (wb_get (as_buffer S))(h := None)"
    using wb_remove_inv [OF inv, of h] rem by auto
  have buf: "as_buffer S' = W" by (auto simp: S' store_remove_array_def rem split: bool.splits prod.splits)
  show "store_ok S'" "arrays (view S') = (arrays (view S))(h := None)"
    using store_remove_view [OF ok, of h] by (simp_all add: S')
  show "memory_backend.timestamps (as_backend S') = memory_backend.timestamps (as_backend S)"
    by (auto simp: S' store_remove_array_def mem_remove_array_def rem split: bool.splits prod.splits option.splits)
  show "buffered_arrays S' = buffered_arrays S - {h}"
    using W wb_contains_get [OF W(1)] wb_contains_get [OF inv] by (auto simp: buffered_arrays_def buf)
qed

lemma remove_arrays_objects:
  assumes "store_ok S"
  shows "store_ok (remove_arrays hs S) \<and> arrays (view (remove_arrays hs S)) = (arrays (view S)) |` (- set hs) \<and>
    memory_backend.timestamps (as_backend (remove_arrays hs S)) = memory_backend.timestamps (as_backend S) \<and>
    buffered_arrays (remove_arrays hs S) = buffered_arrays S - set hs"
  using assms
proof (induction hs arbitrary: S)
  case (Cons h hs)
  note one = store_remove_objects [OF Cons.prems refl, of h]
  show ?case using Cons.IH [OF one(1)] one by (auto simp: restrict_map_def fun_eq_iff)
qed (simp add: restrict_map_def fun_eq_iff)

lemma remove_axes_timestamps:
  "memory_backend.timestamps (remove_axes hs s) = (memory_backend.timestamps s) |` (- set hs)" "arrays (remove_axes hs s) = arrays s"
  by (induction hs arbitrary: s) (auto simp: mem_remove_timestamps_def restrict_map_def fun_eq_iff)

lemma change_axes:
  assumes "arrays s = arrays (as_backend S)"
  shows "store_ok (S\<lparr>as_backend := s\<rparr>) = store_ok S" "arrays (view (S\<lparr>as_backend := s\<rparr>)) = arrays (view S)"
    "buffered_arrays (S\<lparr>as_backend := s\<rparr>) = buffered_arrays S"
  by (simp_all add: assms store_ok_def view_arrays buffered_arrays_def)

lemma remove_writes_objects:
  assumes "store_ok S"
  shows "store_ok (remove_writes f S)" "arrays (view (remove_writes f S)) = (arrays (view S)) |` (- set (fo_arrays f))"
    "memory_backend.timestamps (as_backend (remove_writes f S)) = (memory_backend.timestamps (as_backend S)) |` (- set (fo_timestamps f))"
    "buffered_arrays (remove_writes f S) = buffered_arrays S - set (fo_arrays f)"
  using remove_arrays_objects [OF assms, of "fo_arrays f"] change_axes [OF remove_axes_timestamps(2), of "fo_timestamps f" "remove_arrays (fo_arrays f) S"]
  by (simp_all add: remove_writes_def Let_def remove_axes_timestamps(1))

lemma remove_writes_stored:
  "store_ok S \<Longrightarrow> stored_objects (remove_writes f S) col = stored_objects S col - set (objects f col)"
  by (cases col) (auto simp: remove_writes_objects)

lemma drop_buffered_props:
  assumes "wb_inv W" "drop_buffered hs W = (rest, W')"
  shows "wb_inv W' \<and> wb_get W' = (wb_get W) |` (- set hs) \<and> set rest \<subseteq> set hs \<and> {h \<in> set hs. wb_get W h = None} \<subseteq> set rest"
  using assms
proof (induction hs arbitrary: W rest W')
  case (Cons h hs)
  obtain b W1 where rem: "wb_remove h W = (b, W1)" by fastforce
  obtain rest1 W2 where more: "drop_buffered hs W1 = (rest1, W2)" by fastforce
  have W1: "wb_inv W1" "wb_get W1 = (wb_get W)(h := None)" "b \<longleftrightarrow> wb_get W h \<noteq> None"
    using wb_remove_inv [OF Cons.prems(1), of h] rem wb_contains_get [OF Cons.prems(1), of h] by (auto simp: wb_contains_def)
  have "rest = (if b then rest1 else h # rest1)" "W' = W2" using Cons.prems(2) rem more by (cases b; simp)+
  then show ?case using Cons.IH [OF W1(1) more] W1 by (auto simp: restrict_map_def fun_eq_iff)
qed (simp add: restrict_map_def fun_eq_iff)

subsection \<open>Writing out\<close>

lemma write_buffered_objects:
  assumes ok: "store_ok S" and w: "write_buffered iter garbage S = (r, S')"
  shows "store_ok S'" "arrays (view S') = arrays (view S)"
    "memory_backend.timestamps (as_backend S') = memory_backend.timestamps (as_backend S)"
    "buffered_arrays S' \<subseteq> buffered_arrays S"
    "lawful iter \<Longrightarrow> r = Inr u \<Longrightarrow> buffered_arrays S' \<subseteq> set garbage"
proof -
  have inv: "wb_inv (as_buffer S)" "apart (arrays (as_backend S)) (as_buffer S)" using ok by (simp_all add: store_ok_def)
  obtain W s where run: "write_all_except mem_ops iter (set garbage) (as_buffer S) (as_backend S) = (r, W, s)"
    and S': "S' = S\<lparr>as_buffer := W, as_backend := s\<rparr>"
    using w by (auto simp: write_buffered_def split: prod.splits)
  have c: "apart (arrays s) W" "contents (arrays s) W = arrays (view S)"
    using mem_store.write_blocks_contents [OF inv run [unfolded write_all_except_def]] by (simp_all add: view_arrays)
  have "wb_inv W" using write_blocks_inv [OF inv(1) run [unfolded write_all_except_def]] by simp
  then show ok': "store_ok S'" using c S' by (simp add: store_ok_def)
  show view: "arrays (view S') = arrays (view S)" using c S' by (simp add: view_arrays)
  have "axes_and_arrays (memory_backend.timestamps (as_backend S)) (dom (arrays (as_backend S))) s"
    using mem_keeps.write_blocks_keeps [of "memory_backend.timestamps (as_backend S)" "dom (arrays (as_backend S))" "as_backend S"
        "set garbage" "iter (blocks (as_buffer S))" "as_buffer S"] run
    by (simp add: axes_and_arrays_def write_all_except_def)
  then have keeps: "memory_backend.timestamps s = memory_backend.timestamps (as_backend S)" "dom (arrays (as_backend S)) \<subseteq> dom (arrays s)"
    by (simp_all add: axes_and_arrays_def)
  show "memory_backend.timestamps (as_backend S') = memory_backend.timestamps (as_backend S)" using keeps(1) S' by simp
  show "buffered_arrays S' \<subseteq> buffered_arrays S"
    using keeps(2) unfolding buffered_view(1) [OF ok] buffered_view(1) [OF ok'] view by (auto simp: S')
  show "lawful iter \<Longrightarrow> r = Inr u \<Longrightarrow> buffered_arrays S' \<subseteq> set garbage"
    using write_all_except_done [of iter "as_buffer S" mem_ops "set garbage" "as_backend S" u W s] inv(1) run S'
    by (auto simp: buffered_arrays_def)
qed

lemma flagged_none: "flagged hs (replicate n False) = []"
  by (auto simp: flagged_def filter_empty_conv dest!: set_zip_rightD)

lemma flagged_one: "i < length hs \<Longrightarrow> set (flagged hs ((replicate (length hs) False)[i := w])) = (if w then {hs ! i} else {})"
proof (induction i arbitrary: hs)
  case 0
  then obtain h hs' where "hs = h # hs'" by (cases hs) auto
  then show ?case using flagged_none [of hs' "length hs'"] by (simp add: flagged_def)
next
  case (Suc i)
  then obtain h hs' where "hs = h # hs'" "i < length hs'" by (cases hs) auto
  then show ?case using Suc.IH [of hs'] by (simp add: flagged_def)
qed

lemma mem_put_block_flags:
  assumes "put_block mem_ops s block g = (Inr flags, s')"
  shows "set (flagged (map fst block) flags) = dom (arrays s') - dom (arrays s)" "dom (arrays s) \<subseteq> dom (arrays s')"
    "fst ` set block \<subseteq> dom (arrays s')" "memory_backend.timestamps s' = memory_backend.timestamps s"
proof -
  have ok: "arrays s' = add_new (arrays s) block" by (rule mem_store.put_block_ok [OF assms])
  show "dom (arrays s) \<subseteq> dom (arrays s')" "fst ` set block \<subseteq> dom (arrays s')"
    by (auto simp: ok add_new_lookup domIff image_iff split: option.splits dest: weak_map_of_SomeI)
  have "axes_and_arrays (memory_backend.timestamps s) {} s" by (simp add: axes_and_arrays_def)
  from mem_keeps.put_block_keeps [OF this, of block g] assms
  show "memory_backend.timestamps s' = memory_backend.timestamps s" by (simp add: axes_and_arrays_def)
  let ?scan = "scan_new (b_contains mem_ops s) {} [] (enumerate 0 (map fst block))"
  obtain new where scan: "?scan = Inr new" using assms by (cases ?scan) (auto simp: put_block_def)
  consider "new = []" | i where "new = [i]" | "\<exists>i j r. new = i # j # r" by (metis list.exhaust)
  then show "set (flagged (map fst block) flags) = dom (arrays s') - dom (arrays s)"
  proof cases
    case 1
    then have "s' = s" "flags = replicate (length block) False" using assms scan by (auto simp: put_block_def)
    then show ?thesis by (simp add: flagged_none)
  next
    case 2
    have "\<exists>ys h zs. enumerate 0 (map fst block) = ys @ (i, h) # zs \<and> arrays s h = None \<and> h \<notin> {} \<and>
        (\<forall>(j, k) \<in> set ys. k \<in> {} \<or> arrays s k \<noteq> None) \<and> (\<forall>(j, k) \<in> set zs. k \<in> {} \<or> k = h \<or> arrays s k \<noteq> None)"
      by (rule scan_new_one [where m = "arrays s", OF scan [unfolded 2]]) (rule mem_store.contains_stored)
    then obtain ys h zs where split: "enumerate 0 (map fst block) = ys @ (i, h) # zs" "arrays s h = None" by auto
    note pos = enumerate_split [OF split(1)]
    obtain a where bi: "block ! i = (h, a)" using pos(3) by (cases "block ! i") simp
    obtain l where "put_block mem_ops s block g = (case mem_put_array s h a g l of
          (Inl e, s') \<Rightarrow> (Inl e, s') | (Inr w, s') \<Rightarrow> (Inr ((replicate (length block) False)[i := w]), s'))"
      by (simp add: put_block_def scan 2 bi) (simp add: mem_ops_def)
    then have "flags = (replicate (length block) False)[i := True]" "s' = snd (mem_put_array s h a g l)"
      using assms split(2) by (auto simp: mem_put_array_def Let_def)
    then show ?thesis
      using flagged_one [of i "map fst block" True] pos(2,3) split(2) memory.put_stored [of s h a g l]
      by auto
  next
    case 3
    then obtain i j r where new: "new = i # j # r" by blast
    then have run: "put_packed_block mem_put_array s block g = (Inr flags, s')" using assms scan by (simp add: put_block_def mem_ops_def)
    have flags: "flags = map (\<lambda>i. arrays s (fst (block ! i)) = None \<and> fst (block ! i) \<notin> fst ` set (take i block)) [0..<length block]"
      using memory.put_packed_block [of s block g] run by simp
    have "h \<in> set (flagged (map fst block) flags) \<longleftrightarrow> arrays s h = None \<and> h \<in> fst ` set block" for h
    proof
      assume "h \<in> set (flagged (map fst block) flags)"
      then obtain i where "i < length block" "h = fst (block ! i)" "flags ! i"
        by (auto simp: flagged_def in_set_zip)
      then show "arrays s h = None \<and> h \<in> fst ` set block" by (simp add: flags)
    next
      assume h: "arrays s h = None \<and> h \<in> fst ` set block"
      then have "\<exists>i. i < length block \<and> fst (block ! i) = h" by (force simp: in_set_conv_nth)
      then obtain i where i: "i < length block" "fst (block ! i) = h" and first: "\<forall>j < i. \<not> (j < length block \<and> fst (block ! j) = h)"
        unfolding exists_least_iff [of "\<lambda>i. i < length block \<and> fst (block ! i) = h"] by blast
      have "h \<notin> fst ` set (take i block)" using first i(1) by (force simp: in_set_conv_nth)
      then have "flags ! i" "length flags = length block" using h i by (simp_all add: flags)
      then show "h \<in> set (flagged (map fst block) flags)" using i by (force simp: flagged_def in_set_zip image_iff)
    qed
    moreover have "h \<in> dom (arrays s') - dom (arrays s) \<longleftrightarrow> arrays s h = None \<and> h \<in> fst ` set block" for h
      by (auto simp: ok add_new_lookup split: option.splits dest: weak_map_of_SomeI) (force dest: map_of_SomeD)
    ultimately show ?thesis by blast
  qed
qed

end
