(* ===== verification/TxnInv.thy ===== *)
theory TxnInv
  imports StoreObjects
begin

text \<open>
  The invariant of a store with transactions: whatever a row of the catalog names, now or after any
  rollback the open savepoints allow, is stored. Its parts, what keeps them, and what the calls on
  the catalog do to them under the laws of \<open>catalog_laws\<close>.
\<close>

section \<open>The invariant\<close>

text \<open>The current table is \<open>T\<close>, the saved ones are \<open>L\<close>, innermost first. \<open>E\<close> names arrays that may be
  buffered although no transaction has recorded them yet.\<close>

definition refs_stored :: "(byte list \<Rightarrow> hash) \<Rightarrow> chrono \<Rightarrow> array_store \<Rightarrow> table \<Rightarrow> bool" where
  "refs_stored sha C S t \<longleftrightarrow> sets_interned sha t \<and> (\<forall>col. table_refs sha C t col \<subseteq> stored_objects S col)"

fun mark_at :: "mark \<Rightarrow> column \<Rightarrow> nat" where
  "mark_at m DataHash = mk_arrays m"
| "mark_at m TimestampsHash = mk_timestamps m"

text \<open>What level \<open>i\<close> and the levels inside it have written.\<close>

definition since :: "open_txn \<Rightarrow> nat \<Rightarrow> column \<Rightarrow> hash list" where
  "since t i col = drop (mark_at (marks t ! i) col) (objects (written t) col)"

definition marks_ok :: "open_txn \<Rightarrow> bool" where
  "marks_ok t \<longleftrightarrow>
     (marks t = [] \<longrightarrow> t = no_txn) \<and> (marks t \<noteq> [] \<longrightarrow> marks t ! 0 = fo_mark no_objects) \<and>
     (\<forall>i j col. i \<le> j \<longrightarrow> j < length (marks t) \<longrightarrow> mark_at (marks t ! i) col \<le> mark_at (marks t ! j) col) \<and>
     (\<forall>i < length (marks t). \<forall>col. mark_at (marks t ! i) col \<le> length (objects (written t) col))"

text \<open>No level has written what the table it would roll back to names.\<close>

definition levels_apart :: "(byte list \<Rightarrow> hash) \<Rightarrow> chrono \<Rightarrow> table \<Rightarrow> table list \<Rightarrow> open_txn \<Rightarrow> bool" where
  "levels_apart sha C T L t \<longleftrightarrow>
     (L \<noteq> [] \<longrightarrow> length L = length (marks t)) \<and> (marks t = [] \<longrightarrow> L = []) \<and>
     (\<forall>i < length L. \<forall>col. set (since t i col) \<inter> table_refs sha C (rev L ! i) col = {}) \<and>
     (L = [] \<longrightarrow> (\<forall>col. set (objects (written t) col) \<inter> table_refs sha C T col = {}))"

definition cache_true :: "(byte list \<Rightarrow> hash) \<Rightarrow> table \<Rightarrow> array_store \<Rightarrow> shared_set_cache \<Rightarrow> bool" where
  "cache_true sha T S c \<longleftrightarrow>
     ss_timestamps c \<subseteq> stored_objects S TimestampsHash \<and> ss_features c \<subseteq> insert (features_hash sha []) (t_sets T)"

definition txn_inv ::
    "(byte list \<Rightarrow> hash) \<Rightarrow> chrono \<Rightarrow> hash set \<Rightarrow> table \<Rightarrow> table list \<Rightarrow> open_txn \<Rightarrow> array_store \<Rightarrow> bool" where
  "txn_inv sha C E T L t S \<longleftrightarrow>
     store_ok S \<and> (\<forall>t' \<in> set (T # L). refs_stored sha C S t') \<and> marks_ok t \<and> levels_apart sha C T L t \<and>
     buffered_arrays S \<subseteq> set (fo_arrays (written t)) \<union> E \<and> (L \<noteq> [] \<longrightarrow> cache_true sha T S (shared_sets t))"

lemma cache_true_none: "cache_true sha T S no_shared_sets"
  by (simp add: cache_true_def no_shared_sets_def)

lemma marks_ok_no_txn: "marks_ok no_txn"
  by (simp add: marks_ok_def no_txn_def)

lemma objects_no_objects: "objects no_objects col = []"
  by (cases col) (simp_all add: no_objects_def)

lemma mark_at_fo_mark: "mark_at (fo_mark f) col = length (objects f col)"
  by (cases col) (simp_all add: fo_mark_def)

lemma objects_append: "objects (fo_append f g) col = objects f col @ objects g col"
  by (cases col) (simp_all add: fo_append_def)

lemma objects_split_off:
  "objects (fst (fo_split_off m f)) col = drop (mark_at m col) (objects f col)"
  "objects (snd (fo_split_off m f)) col = take (mark_at m col) (objects f col)"
  by (cases col; simp add: fo_split_off_def)+

lemma table_refs_mono: "set (t_rows T) \<subseteq> set (t_rows T') \<Longrightarrow> table_refs sha C T col \<subseteq> table_refs sha C T' col"
  by (auto simp: table_refs_def)

lemma since_outermost: "marks_ok t \<Longrightarrow> marks t \<noteq> [] \<Longrightarrow> since t 0 col = objects (written t) col"
  by (simp add: marks_ok_def since_def mark_at_fo_mark objects_no_objects)

lemma since_mono: "marks_ok t \<Longrightarrow> i \<le> j \<Longrightarrow> j < length (marks t) \<Longrightarrow> set (since t j col) \<subseteq> set (since t i col)"
  by (auto simp: marks_ok_def since_def intro: set_drop_subset_set_drop [THEN subsetD])

section \<open>Failing calls\<close>

text \<open>SQLite has rolled the whole transaction back.\<close>

lemma txn_inv_lost:
  assumes inv: "txn_inv sha C E T L t S" and L: "L \<noteq> []"
  shows "txn_inv sha C E (last L) [] t S"
proof -
  have marks: "marks t \<noteq> []" "length L = length (marks t)" using inv L by (auto simp: txn_inv_def levels_apart_def)
  have "rev L ! 0 = last L" using L by (simp add: rev_nth last_conv_nth)
  moreover have "\<forall>i < length L. \<forall>col. set (since t i col) \<inter> table_refs sha C (rev L ! i) col = {}" "marks_ok t"
    using inv by (simp_all add: txn_inv_def levels_apart_def)
  ultimately have "set (objects (written t) col) \<inter> table_refs sha C (last L) col = {}" for col
    using since_outermost [of t col] marks(1) L by (metis length_greater_0_conv)
  then show ?thesis using inv L by (auto simp: txn_inv_def levels_apart_def)
qed

lemma txn_inv_fell:
  assumes "txn_inv sha C E (tbl k) (saved k) t S" "fell tbl saved k k'"
  shows "txn_inv sha C E (tbl k') (saved k') t S"
  using assms txn_inv_lost [OF assms(1)] by (cases "saved k = []") (auto simp: fell_def)

text \<open>The table changes, the rows it loses and the feature sets it gains do no harm.\<close>

lemma txn_inv_table:
  assumes inv: "txn_inv sha C E T L t S" and rows: "set (t_rows T') \<subseteq> set (t_rows T)"
    and sets: "sets_interned sha T'" "L \<noteq> [] \<Longrightarrow> cache_true sha T' S (shared_sets t)"
  shows "txn_inv sha C E T' L t S"
  using assms table_refs_mono [OF rows, of sha C]
  by (auto simp: txn_inv_def refs_stored_def levels_apart_def) (meson disjoint_iff subset_iff)+

lemma txn_inv_more_sets:
  assumes inv: "txn_inv sha C E T L t S" and T': "t_rows T' = t_rows T" "t_sets T \<subseteq> t_sets T'"
  shows "txn_inv sha C E T' L t S"
  using inv T' by (intro txn_inv_table [OF inv]) (auto simp: txn_inv_def refs_stored_def sets_interned_def cache_true_def)

text \<open>The array half changes: every object a table names stays.\<close>

lemma txn_inv_arrays:
  assumes inv: "txn_inv sha C E T L t S" and ok: "store_ok S'"
    and refs: "\<And>t' col h. t' \<in> set (T # L) \<Longrightarrow> h \<in> table_refs sha C t' col \<Longrightarrow> h \<in> stored_objects S col \<Longrightarrow> h \<in> stored_objects S' col"
    and buf: "buffered_arrays S' \<subseteq> set (fo_arrays (written t)) \<union> E'"
    and cache: "L \<noteq> [] \<Longrightarrow> ss_timestamps (shared_sets t) \<subseteq> stored_objects S' TimestampsHash"
  shows "txn_inv sha C E' T L t S'"
proof -
  have "refs_stored sha C S' t'" if "t' \<in> set (T # L)" for t'
    using inv that refs [OF that] unfolding txn_inv_def refs_stored_def by (meson subset_iff)
  then show ?thesis using inv ok buf cache by (simp add: txn_inv_def cache_true_def)
qed

section \<open>Calls on the catalog\<close>

context catalog_laws
begin

lemma unreferenced_loop_cases:
  assumes "unreferenced_loop K col seen hs k = (r, k')"
  shows "case r of Inl e \<Rightarrow> saved k' = saved k \<and> tbl k' = tbl k \<or> saved k \<noteq> [] \<and> saved k' = [] \<and> tbl k' = last (saved k)
    | Inr out \<Rightarrow> tbl k' = tbl k \<and> saved k' = saved k \<and> set out = {h \<in> set hs. h \<notin> seen \<and> h \<notin> table_refs sha C (tbl k) col}"
  using assms
proof (induction hs arbitrary: seen k r k')
  case (Cons h hs)
  show ?case
  proof (cases "h \<in> seen")
    case True
    then show ?thesis using Cons.IH [of seen k r] Cons.prems by (auto split: sum.splits)
  next
    case False
    obtain x k1 where ref: "c_references K col h k = (x, k1)" by fastforce
    show ?thesis
    proof (cases x)
      case (Inl e)
      then show ?thesis using references_Inl [of col h k e k1] ref Cons.prems False by (auto simp: cbind_def fell_def)
    next
      case (Inr b)
      then have k1: "tbl k1 = tbl k" "saved k1 = saved k" "b \<longleftrightarrow> h \<in> table_refs sha C (tbl k) col"
        using references_Inr [of col h k b k1] ref by auto
      obtain y k2 where more: "unreferenced_loop K col (insert h seen) hs k1 = (y, k2)" by fastforce
      have "r = (case y of Inl e \<Rightarrow> Inl e | Inr out \<Rightarrow> Inr (if b then out else h # out))" "k' = k2"
        using Cons.prems False ref Inr more by (auto simp: cbind_def cret_def split: sum.splits)
      then show ?thesis using Cons.IH [OF more] k1 False by (auto split: sum.splits)
    qed
  qed
qed (auto simp: cret_def)

lemma tame_unreferenced_in: "tame tbl saved (unreferenced_in K hs col)"
proof -
  have "tame tbl saved (unreferenced_loop K col seen hs)" for seen
    by (induction hs arbitrary: seen) (auto intro!: tame_rules)
  then show ?thesis by (simp add: unreferenced_in_def)
qed

lemma unreferenced_cases:
  assumes "unreferenced K f k = (r, k')"
  shows "case r of Inl e \<Rightarrow> fell tbl saved k k'
    | Inr g \<Rightarrow> tbl k' = tbl k \<and> saved k' = saved k \<and>
        (\<forall>col. set (objects g col) = set (objects f col) - table_refs sha C (tbl k) col)"
proof (cases "fo_is_empty f")
  case True
  then have "objects f col = []" for col by (cases col) (simp_all add: fo_is_empty_def)
  then show ?thesis using assms True by (auto simp: unreferenced_def cret_def objects_no_objects)
next
  case False
  let ?f = "cbind (unreferenced_in K (fo_arrays f) DataHash) (\<lambda>as.
         cbind (unreferenced_in K (fo_timestamps f) TimestampsHash) (\<lambda>ts. cret \<lparr>fo_arrays = as, fo_timestamps = ts\<rparr>))"
  have run: "in_savepoint K ?f k = (r, k')" using assms False by (simp add: unreferenced_def)
  have "tame tbl saved ?f" by (intro tame_rules tame_unreferenced_in)
  from in_savepoint_cases [OF this run] show ?thesis
  proof (elim disjE exE conjE)
    fix a k1 k2
    assume r: "r = Inr a" and k: "tbl k1 = tbl k" "saved k1 = tbl k # saved k" "tbl k' = tbl k2" "saved k' = saved k"
      and f: "?f k1 = (Inr a, k2)"
    obtain as k3 where one: "unreferenced_in K (fo_arrays f) DataHash k1 = (Inr as, k3)"
      using f by (auto simp: cbind_def split: prod.splits sum.splits)
    obtain ts where two: "unreferenced_in K (fo_timestamps f) TimestampsHash k3 = (Inr ts, k2)" "a = \<lparr>fo_arrays = as, fo_timestamps = ts\<rparr>"
      using f one by (auto simp: cbind_def cret_def split: prod.splits sum.splits)
    note u1 = unreferenced_loop_cases [OF one [unfolded unreferenced_in_def], simplified]
    note u2 = unreferenced_loop_cases [OF two(1) [unfolded unreferenced_in_def], simplified]
    have "set (objects a col) = set (objects f col) - table_refs sha C (tbl k) col" for col
      using u1 u2 k two(2) by (cases col) auto
    then show ?thesis using r k u1 u2 by simp
  qed auto
qed

lemma insert_association_cases:
  assumes "insert_association K m cache k = (r, k')"
  shows "case r of
      Inl e \<Rightarrow> saved k' = saved k \<and> t_rows (tbl k') = t_rows (tbl k) \<and> t_sets (tbl k) \<subseteq> t_sets (tbl k') \<or>
        saved k' = [] \<and> tbl k' = last (tbl k # saved k)
    | Inr (i, cache') \<Rightarrow> saved k' = saved k \<and> t_rows (tbl k') = t_rows (tbl k) @ [m\<lparr>m_id := Some i\<rparr>] \<and>
        t_sets (tbl k') = (if features_hash sha (m_features m) \<notin> ss_features cache \<and> m_features m \<noteq> []
            then insert (features_hash sha (m_features m)) (t_sets (tbl k)) else t_sets (tbl k)) \<and>
        cache' = cache\<lparr>ss_features := insert (features_hash sha (m_features m)) (ss_features cache)\<rparr>"
proof -
  obtain x k1 where free: "check_forecast_family_free K m k = (x, k1)" by fastforce
  have x: "case x of Inl e \<Rightarrow> fell tbl saved k k1 | Inr _ \<Rightarrow> tbl k1 = tbl k \<and> saved k1 = saved k"
  proof (cases "exclusive_counterpart (m_type m)")
    case (Some t)
    obtain y k2 where y: "c_family_conflict K m t k = (y, k2)" by fastforce
    show ?thesis
      using free Some y family_conflict_Inl [of m t k _ k2] family_conflict_Inr [of m t k _ k2]
      by (cases y) (auto simp: check_forecast_family_free_def cbind_def cret_def cerr_def fell_def split: if_splits sum.splits)
  qed (use free in \<open>auto simp: check_forecast_family_free_def cret_def\<close>)
  show ?thesis
  proof (cases x)
    case (Inl e)
    then show ?thesis using assms free x by (auto simp: insert_association_def cbind_def fell_def)
  next
    case (Inr u)
    then have ins: "c_insert K m cache k1 = (r, k')" and k1: "tbl k1 = tbl k" "saved k1 = saved k"
      using assms free x by (simp_all add: insert_association_def cbind_def)
    show ?thesis
    proof (cases r)
      case (Inl e)
      then show ?thesis using insert_Inl [of m cache k1 e k'] ins k1 by (simp split: if_splits) fastforce
    next
      case (Inr ic)
      then show ?thesis using insert_Inr [of m cache k1 "fst ic" "snd ic" k'] ins k1 by (cases ic) simp
    qed
  qed
qed

lemma tame_insert_rows: "tame tbl saved (insert_rows K ms cache)"
proof -
  have free: "tame tbl saved (check_forecast_family_free K m)" for m
    by (cases "exclusive_counterpart (m_type m)") (auto simp: check_forecast_family_free_def intro!: tame_rules)
  have one: "tame tbl saved (insert_association K m c)" for m c
    unfolding insert_association_def by (intro tame_rules free)
  show ?thesis
  proof (induction ms arbitrary: cache)
    case (Cons m ms)
    have "tame tbl saved (case x of (i, c') \<Rightarrow> cbind (insert_rows K ms c') (\<lambda>(ids, c''). cret (i # ids, c'')))" for x
      by (cases x) (auto intro!: tame_rules Cons.IH)
    then show ?case by (simp add: tame_cbind one)
  qed (simp add: tame_rules)
qed

text \<open>The rows are appended with the ids they were given; the cache stays true of the feature sets.\<close>

lemma insert_rows_Inr:
  assumes "insert_rows K ms cache k = (Inr (ids, cache'), k')"
  shows "saved k' = saved k \<and> length ids = length ms \<and>
    t_rows (tbl k') = t_rows (tbl k) @ map (\<lambda>(m, i). m\<lparr>m_id := Some i\<rparr>) (zip ms ids) \<and>
    t_sets (tbl k) \<subseteq> t_sets (tbl k') \<and> ss_timestamps cache' = ss_timestamps cache \<and>
    (ss_features cache \<subseteq> insert (features_hash sha []) (t_sets (tbl k)) \<longrightarrow>
      ss_features cache' \<subseteq> insert (features_hash sha []) (t_sets (tbl k')) \<and>
      (\<forall>m \<in> set ms. features_hash sha (m_features m) \<in> insert (features_hash sha []) (t_sets (tbl k'))))"
  using assms
proof (induction ms arbitrary: cache k ids)
  case (Cons m ms)
  obtain i c1 k1 where one: "insert_association K m cache k = (Inr (i, c1), k1)"
    using Cons.prems by (auto simp: cbind_def split: prod.splits sum.splits)
  obtain ids' where rest: "insert_rows K ms c1 k1 = (Inr (ids', cache'), k')" "ids = i # ids'"
    using Cons.prems one by (auto simp: cbind_def cret_def split: prod.splits sum.splits)
  note ih = Cons.IH [OF rest(1)]
  note a = insert_association_cases [OF one, simplified]
  have sub: "ss_features cache \<subseteq> insert (features_hash sha []) (t_sets (tbl k)) \<Longrightarrow>
      ss_features c1 \<subseteq> insert (features_hash sha []) (t_sets (tbl k1))"
    using a by (auto split: if_splits)
  moreover have "features_hash sha (m_features m) \<in> ss_features c1" "t_sets (tbl k1) \<subseteq> t_sets (tbl k')" using a ih by auto
  ultimately have mine: "ss_features cache \<subseteq> insert (features_hash sha []) (t_sets (tbl k)) \<Longrightarrow>
      features_hash sha (m_features m) \<in> insert (features_hash sha []) (t_sets (tbl k'))" by blast
  show ?case using ih a sub mine rest(2) by (auto split: if_splits)
qed (auto simp: cret_def)

lemma insert_batch_cases:
  assumes "insert_batch K flush ms cache k = (r, k')"
  shows "case r of
      Inl e \<Rightarrow> saved k' = saved k \<and> t_rows (tbl k') = t_rows (tbl k) \<and> t_sets (tbl k) \<subseteq> t_sets (tbl k') \<or>
        saved k' = [] \<and> tbl k' = last (tbl k # saved k)
    | Inr (ids, cache') \<Rightarrow> saved k' = saved k \<and> length ids = length ms \<and>
        t_rows (tbl k') = t_rows (tbl k) @ map (\<lambda>(m, i). m\<lparr>m_id := Some i\<rparr>) (zip ms ids) \<and>
        t_sets (tbl k) \<subseteq> t_sets (tbl k') \<and> ss_timestamps cache' = ss_timestamps cache \<and>
        (ss_features cache \<subseteq> insert (features_hash sha []) (t_sets (tbl k)) \<longrightarrow>
          ss_features cache' \<subseteq> insert (features_hash sha []) (t_sets (tbl k')) \<and>
          (\<forall>m \<in> set ms. features_hash sha (m_features m) \<in> insert (features_hash sha []) (t_sets (tbl k'))))"
proof (cases "flush \<or> 1 < length ms")
  case True
  then have run: "in_savepoint K (insert_rows K ms cache) k = (r, k')" using assms by (simp add: insert_batch_def)
  from in_savepoint_cases [OF tame_insert_rows run] show ?thesis
  proof (elim disjE exE conjE)
    fix a k1 k2
    assume r: "r = Inr a" and k: "tbl k1 = tbl k" "saved k1 = tbl k # saved k" "tbl k' = tbl k2" "saved k' = saved k"
      and f: "insert_rows K ms cache k1 = (Inr a, k2)"
    obtain ids cache' where "a = (ids, cache')" by (cases a)
    then show ?thesis using insert_rows_Inr [of ms cache k1 ids cache' k2] f r k by simp
  qed (auto simp: fell_def)
next
  case False
  then have run: "insert_rows K ms cache k = (r, k')" using assms by (simp add: insert_batch_def)
  show ?thesis
  proof (cases r)
    case (Inr a)
    then show ?thesis using insert_rows_Inr [of ms cache k "fst a" "snd a" k'] run by (cases a) simp
  next
    case (Inl e)
    then obtain m where "ms = [m]" using run False by (cases ms) (auto simp: cret_def Suc_le_eq)
    then have "insert_association K m cache k = (Inl e, k')"
      using run Inl by (auto simp: cbind_def cret_def split: prod.splits sum.splits)
    from insert_association_cases [OF this] show ?thesis using Inl by simp
  qed
qed

end

end
