(* ===== verification/TxnSteps.thy ===== *)
theory TxnSteps
  imports TxnInv
begin

text \<open>
  Every operation of a store with transactions keeps the invariant: begin, commit and rollback, adding
  a batch, removing by id and clearing, whatever statement fails and however it fails.
\<close>

section \<open>Levels\<close>

lemma txn_inv_push:
  assumes inv: "txn_inv sha C {} T L t S" and len: "length L = length (marks t)"
  shows "txn_inv sha C {} T (T # L) (t\<lparr>marks := marks t @ [fo_mark (written t)]\<rparr>) S"
proof -
  let ?t = "t\<lparr>marks := marks t @ [fo_mark (written t)]\<rparr>"
  have ok: "marks_ok t" and apart: "levels_apart sha C T L t" using inv by (simp_all add: txn_inv_def)
  have at: "mark_at (marks ?t ! i) col = (if i < length L then mark_at (marks t ! i) col else length (objects (written t) col))"
    if "i \<le> length L" for i col
    using that len by (auto simp: nth_append mark_at_fo_mark)
  have since: "since ?t i col = (if i < length L then since t i col else [])" if "i \<le> length L" for i col
    using at [OF that, of col] by (simp add: since_def)
  have "marks_ok ?t"
    unfolding marks_ok_def
  proof (intro conjI allI impI)
    show "marks ?t = [] \<Longrightarrow> ?t = no_txn" by simp
    show "marks ?t ! 0 = fo_mark no_objects" using ok by (cases "marks t") (auto simp: marks_ok_def no_txn_def)
    show "mark_at (marks ?t ! i) col \<le> mark_at (marks ?t ! j) col" if "i \<le> j" "j < length (marks ?t)" for i j col
      using at [of i col] at [of j col] that ok len by (auto simp: marks_ok_def)
    show "mark_at (marks ?t ! i) col \<le> length (objects (written ?t) col)" if "i < length (marks ?t)" for i col
      using at [of i col] that ok len by (auto simp: marks_ok_def)
  qed
  moreover have "levels_apart sha C T (T # L) ?t"
    using apart since len by (auto simp: levels_apart_def nth_append less_Suc_eq_le)
  moreover have "cache_true sha T S (shared_sets ?t)"
    using inv len ok cache_true_none by (cases "L = []") (auto simp: txn_inv_def marks_ok_def no_txn_def)
  ultimately show ?thesis using inv by (auto simp: txn_inv_def)
qed

lemma txn_inv_pop:
  assumes inv: "txn_inv sha C {} T L t S" and len: "1 < length L"
  shows "txn_inv sha C {} T (tl L) (t\<lparr>marks := butlast (marks t)\<rparr>) S"
proof -
  let ?t = "t\<lparr>marks := butlast (marks t)\<rparr>"
  have n: "length L = length (marks t)" using inv len by (auto simp: txn_inv_def levels_apart_def)
  have L: "tl L \<noteq> []" using len by (cases L) auto
  have below: "rev (tl L) ! i = rev L ! i" if "i < length (tl L)" for i
    using that len by (cases L) (simp_all add: nth_append)
  have since: "since ?t i col = since t i col" if "i < length (tl L)" for i col
    using that n by (simp add: since_def nth_butlast)
  have "marks ?t \<noteq> []" using len n by (cases "marks t" rule: rev_cases) auto
  then have "marks_ok ?t" using inv n len by (auto simp: txn_inv_def marks_ok_def nth_butlast)
  moreover have "levels_apart sha C T (tl L) ?t"
    using inv n since below L \<open>marks ?t \<noteq> []\<close> by (auto simp: txn_inv_def levels_apart_def)
  ultimately show ?thesis using inv len by (cases L) (auto simp: txn_inv_def)
qed

lemma written_no_txn: "written no_txn = no_objects"
  by (simp add: no_txn_def)

lemma levels_apart_no_txn: "levels_apart sha C T [] no_txn"
  by (simp add: levels_apart_def no_txn_def objects_no_objects)

lemma txn_inv_committed:
  assumes inv: "txn_inv sha C E T L t S" and S': "store_ok S'" "\<And>col. stored_objects S' col = stored_objects S col"
    and g: "\<And>col. set (objects g col) \<inter> table_refs sha C T col = {}" "buffered_arrays S' \<subseteq> set (fo_arrays g)"
  shows "txn_inv sha C {} T [] no_txn (remove_writes g S')"
proof -
  have "refs_stored sha C (remove_writes g S') T"
    using inv g(1) by (auto simp: txn_inv_def refs_stored_def remove_writes_stored [OF S'(1)] S'(2))
  moreover have "buffered_arrays (remove_writes g S') = {}" using g(2) remove_writes_objects(4) [OF S'(1), of g] by blast
  ultimately show ?thesis
    using remove_writes_objects(1) [OF S'(1), of g] by (simp add: txn_inv_def marks_ok_no_txn levels_apart_no_txn)
qed

definition rolled_back_txn :: "open_txn \<Rightarrow> open_txn" where
  "rolled_back_txn t =
     (if length (marks t) - 1 = 0 then no_txn
      else t\<lparr>shared_sets := no_shared_sets, marks := butlast (marks t), written := snd (fo_split_off (last (marks t)) (written t))\<rparr>)"

lemma txn_inv_rollback:
  assumes inv: "txn_inv sha C {} T L t S" and L: "L \<noteq> []"
  defines "gone \<equiv> fst (fo_split_off (last (marks t)) (written t))"
  shows "txn_inv sha C (set (fo_arrays gone)) (hd L) (tl L) (rolled_back_txn t) S"
    and "t' \<in> set L \<Longrightarrow> set (objects gone col) \<inter> table_refs sha C t' col = {}"
proof -
  define n where "n = length (marks t) - 1"
  have ok: "marks_ok t" and len: "length L = length (marks t)" and apart: "levels_apart sha C T L t"
    using inv L by (simp_all add: txn_inv_def levels_apart_def)
  then have "marks t \<noteq> []" using L by auto
  then have marks: "marks t \<noteq> []" "n < length (marks t)" "last (marks t) = marks t ! n"
    by (simp_all add: n_def last_conv_nth)
  have gone: "objects gone col = since t n col" for col
    by (simp add: gone_def objects_split_off since_def marks(3))
  have disjoint: "set (objects gone col) \<inter> table_refs sha C (rev L ! i) col = {}" if "i < length L" for i col
  proof -
    have "set (since t n col) \<subseteq> set (since t i col)" using since_mono [OF ok _ marks(2)] that len by (simp add: n_def)
    moreover have "set (since t i col) \<inter> table_refs sha C (rev L ! i) col = {}"
      using apart that by (simp add: levels_apart_def)
    ultimately show ?thesis unfolding gone by blast
  qed
  show all: "set (objects gone col) \<inter> table_refs sha C t' col = {}" if "t' \<in> set L" for t' col
  proof -
    have "t' \<in> set (rev L)" using that by simp
    then obtain i where "i < length L" "rev L ! i = t'" unfolding in_set_conv_nth by auto
    then show ?thesis using disjoint by blast
  qed
  have kept: "objects (snd (fo_split_off (last (marks t)) (written t))) col = take (mark_at (marks t ! n) col) (objects (written t) col)" for col
    by (simp add: objects_split_off marks(3))
  have split: "set (objects (written t) col) =
      set (objects (snd (fo_split_off (last (marks t)) (written t))) col) \<union> set (objects gone col)" for col
    unfolding kept gone since_def by (metis append_take_drop_id set_append)
  have refs: "refs_stored sha C S t'" if "t' \<in> set L" for t' using inv that by (simp add: txn_inv_def)
  have buf: "buffered_arrays S \<subseteq> set (objects (written t) DataHash)" using inv by (simp add: txn_inv_def)
  show "txn_inv sha C (set (fo_arrays gone)) (hd L) (tl L) (rolled_back_txn t) S"
  proof (cases "n = 0")
    case True
    have "length (tl L) = 0" using len True by (simp add: n_def)
    then have "tl L = []" by (simp only: length_0_conv)
    moreover have "objects gone DataHash = objects (written t) DataHash"
      using gone [of DataHash] since_outermost [OF ok marks(1), of DataHash] True by simp
    moreover have "rolled_back_txn t = no_txn" using True by (simp add: rolled_back_txn_def n_def)
    ultimately show ?thesis
      using inv buf refs L by (auto simp: txn_inv_def marks_ok_no_txn levels_apart_no_txn)
  next
    case False
    let ?t = "rolled_back_txn t"
    have t: "marks ?t = butlast (marks t)" "written ?t = snd (fo_split_off (last (marks t)) (written t))"
      "shared_sets ?t = no_shared_sets" using False by (simp_all add: rolled_back_txn_def n_def)
    have n: "length (butlast (marks t)) = n" "length (tl L) = n" using len by (simp_all add: n_def)
    have at: "marks ?t ! i = marks t ! i" "mark_at (marks t ! i) col \<le> mark_at (marks t ! n) col" if "i < n" for i col
      using that ok marks(2) n by (auto simp: t nth_butlast marks_ok_def)
    have level: "mark_at (marks t ! n) col \<le> length (objects (written t) col)" for col
      using ok marks(2) by (simp add: marks_ok_def)
    have "marks_ok ?t"
      unfolding marks_ok_def
    proof (intro conjI allI impI)
      show "marks ?t = [] \<Longrightarrow> ?t = no_txn" using False n by (cases "marks t" rule: rev_cases) (auto simp: t)
      show "marks ?t ! 0 = fo_mark no_objects" using at(1) [of 0] False ok marks(1) by (simp add: marks_ok_def)
      show "mark_at (marks ?t ! i) col \<le> mark_at (marks ?t ! j) col" if "i \<le> j" "j < length (marks ?t)" for i j col
        using at(1) [of i] at(1) [of j] that n ok by (simp add: t marks_ok_def)
      show "mark_at (marks ?t ! i) col \<le> length (objects (written ?t) col)" if "i < length (marks ?t)" for i col
        using at(1) [of i] at(2) [of i col] that n level [of col] by (simp add: t kept)
    qed
    moreover have "levels_apart sha C (hd L) (tl L) ?t"
    proof -
      have sub: "set (since ?t i col) \<subseteq> set (since t i col)" if "i < n" for i col
        using at(1) [OF that] at(2) [OF that, of col] by (auto simp: since_def t(2) kept drop_take dest: in_set_takeD)
      have below: "rev (tl L) ! i = rev L ! i" if "i < n" for i using that n(2) L by (cases L) (auto simp: nth_append)
      have "set (since ?t i col) \<inter> table_refs sha C (rev (tl L) ! i) col = {}" if "i < n" for i col
      proof -
        have "set (since t i col) \<inter> table_refs sha C (rev L ! i) col = {}"
          using apart that n(2) by (simp add: levels_apart_def)
        then show ?thesis using sub [OF that, of col] below [OF that] by auto
      qed
      moreover have "tl L \<noteq> []" "butlast (marks t) \<noteq> []" using n False by (metis list.size(3))+
      ultimately show ?thesis using n by (simp add: levels_apart_def t(1))
    qed
    moreover have "cache_true sha (hd L) S (shared_sets ?t)" using cache_true_none by (simp add: t)
    moreover have "buffered_arrays S \<subseteq> set (fo_arrays (written ?t)) \<union> set (fo_arrays gone)"
      using buf split [of DataHash] by (simp add: t)
    moreover have "set (hd L # tl L) = set L" using L by simp
    ultimately show ?thesis using inv refs unfolding txn_inv_def by auto
  qed
qed

section \<open>Unwinding\<close>

context catalog_laws
begin

abbreviation store_inv :: "'k store \<Rightarrow> bool" where
  "store_inv st \<equiv> txn_inv sha C {} (tbl (s_catalog st)) (saved (s_catalog st)) (s_txn st) (s_arrays st)"

lemma unwind_inv:
  assumes inv: "txn_inv sha C (set (fo_arrays f)) (tbl (s_catalog st)) (saved (s_catalog st)) (s_txn st) (s_arrays st)"
    and apart: "\<And>t' col. t' \<in> set (tbl (s_catalog st) # saved (s_catalog st)) \<Longrightarrow> set (objects f col) \<inter> table_refs sha C t' col = {}"
    and cache: "shared_sets (s_txn st) = no_shared_sets"
  shows "store_inv (unwind_written K f st)" "s_txn (unwind_written K f st) = s_txn st"
proof -
  let ?S = "s_arrays st" and ?t = "s_txn st"
  obtain rest W where drop: "drop_buffered (fo_arrays f) (as_buffer ?S) = (rest, W)" by fastforce
  define S1 where "S1 = ?S\<lparr>as_buffer := W\<rparr>"
  define f1 where "f1 = f\<lparr>fo_arrays := rest\<rparr>"
  obtain r k where un: "unreferenced K f1 (s_catalog st) = (r, k)" by fastforce
  have unwound: "unwind_written K f st =
      (case r of Inr g \<Rightarrow> st\<lparr>s_arrays := remove_writes g S1, s_catalog := k\<rparr> | Inl _ \<Rightarrow> st\<lparr>s_arrays := S1, s_catalog := k\<rparr>)"
    using drop un by (simp add: unwind_written_def Let_def S1_def f1_def split: sum.split)
  then show "s_txn (unwind_written K f st) = s_txn st" by (simp split: sum.split)
  have ok: "store_ok ?S" using inv by (simp add: txn_inv_def)
  note W = drop_buffered_props [OF _ drop]
  have W: "wb_inv W" "wb_get W = wb_get (as_buffer ?S) |` (- set (fo_arrays f))" "set rest \<subseteq> set (fo_arrays f)"
    using W ok by (simp_all add: store_ok_def)
  have ok1: "store_ok S1" using ok W by (auto simp: store_ok_def S1_def apart_def restrict_map_def split: if_splits)
  have keeps: "h \<in> stored_objects S1 col" if "h \<in> stored_objects ?S col" "h \<notin> set (objects f col)" for h col
    using that by (cases col) (auto simp: S1_def view_arrays contents_def W(2) restrict_map_def split: option.splits)
  have buf1: "buffered_arrays S1 = buffered_arrays ?S - set (fo_arrays f)"
    using W(1,2) ok wb_contains_get by (auto simp: buffered_arrays_def S1_def store_ok_def restrict_map_def split: if_splits)
  have inv1: "txn_inv sha C {} (tbl (s_catalog st)) (saved (s_catalog st)) ?t S1"
  proof (rule txn_inv_arrays [OF inv ok1])
    show "buffered_arrays S1 \<subseteq> set (fo_arrays (written ?t)) \<union> {}" using inv buf1 by (auto simp: txn_inv_def)
    show "ss_timestamps (shared_sets ?t) \<subseteq> stored_objects S1 TimestampsHash" by (simp add: cache no_shared_sets_def)
    show "h \<in> stored_objects S1 col"
      if "t' \<in> set (tbl (s_catalog st) # saved (s_catalog st))" "h \<in> table_refs sha C t' col" "h \<in> stored_objects ?S col" for t' col h
      using keeps [OF that(3)] apart [OF that(1), of col] that(2) by blast
  qed
  show "store_inv (unwind_written K f st)"
  proof (cases r)
    case (Inl e)
    then show ?thesis using unreferenced_cases [OF un] txn_inv_fell [of sha C "{}" tbl "s_catalog st" saved ?t S1 k] inv1 unwound by simp
  next
    case (Inr g)
    then have k: "tbl k = tbl (s_catalog st)" "saved k = saved (s_catalog st)"
      and g: "\<And>col. set (objects g col) \<subseteq> set (objects f1 col)"
      using unreferenced_cases [OF un] by auto
    have "set (objects f1 col) \<subseteq> set (objects f col)" for col using W(3) by (cases col) (simp_all add: f1_def)
    then have gone: "set (objects g col) \<inter> table_refs sha C t' col = {}"
      if "t' \<in> set (tbl (s_catalog st) # saved (s_catalog st))" for t' col
      using g [of col] apart [OF that, of col] by blast
    have "txn_inv sha C {} (tbl (s_catalog st)) (saved (s_catalog st)) ?t (remove_writes g S1)"
    proof (rule txn_inv_arrays [OF inv1 remove_writes_objects(1) [OF ok1]])
      show "buffered_arrays (remove_writes g S1) \<subseteq> set (fo_arrays (written ?t)) \<union> {}"
        using inv1 remove_writes_objects(4) [OF ok1, of g] by (auto simp: txn_inv_def)
      show "ss_timestamps (shared_sets ?t) \<subseteq> stored_objects (remove_writes g S1) TimestampsHash"
        by (simp add: cache no_shared_sets_def)
      show "h \<in> stored_objects (remove_writes g S1) col"
        if "t' \<in> set (tbl (s_catalog st) # saved (s_catalog st))" "h \<in> table_refs sha C t' col" "h \<in> stored_objects S1 col" for t' col h
        using that gone [OF that(1), of col] by (auto simp: remove_writes_stored [OF ok1])
    qed
    then show ?thesis using Inr k unwound by simp
  qed
qed

section \<open>Begin, commit and rollback\<close>

lemma alive:
  assumes "store_inv st" "check_transaction_alive K st = Inr u"
  shows "length (saved (s_catalog st)) = length (marks (s_txn st))"
    and "\<not> in_transaction st \<Longrightarrow> saved (s_catalog st) = [] \<and> s_txn st = no_txn"
  using assms
  by (auto simp: check_transaction_alive_def transaction_was_forced_back_def in_transaction_def autocommit
      txn_inv_def levels_apart_def marks_ok_def split: if_splits)

lemma inv_fell: "store_inv st \<Longrightarrow> fell tbl saved (s_catalog st) k \<Longrightarrow> store_inv (st\<lparr>s_catalog := k\<rparr>)"
  using txn_inv_fell [of sha C "{}" tbl "s_catalog st" saved "s_txn st" "s_arrays st" k] by simp

lemma begin_inv:
  assumes inv: "store_inv st" and run: "begin_transaction K st = (r, st')"
  shows "store_inv st'"
proof (cases "check_transaction_alive K st")
  case (Inl e)
  then show ?thesis using inv run by (simp add: begin_transaction_def)
next
  case (Inr u)
  obtain x k where sp: "c_savepoint K (s_catalog st) = (x, k)" by fastforce
  show ?thesis
  proof (cases x)
    case (Inl e)
    then have "st' = st\<lparr>s_catalog := k\<rparr>" using run \<open>check_transaction_alive K st = Inr u\<close> sp by (simp add: begin_transaction_def)
    then show ?thesis using inv_fell [OF inv] savepoint_Inl sp Inl by simp
  next
    case (Inr v)
    then have st': "st' = st\<lparr>s_catalog := k, s_txn := (s_txn st)\<lparr>marks := marks (s_txn st) @ [fo_mark (written (s_txn st))]\<rparr>\<rparr>"
      using run \<open>check_transaction_alive K st = Inr u\<close> sp by (simp add: begin_transaction_def)
    show ?thesis
      using txn_inv_push [OF inv alive(1) [OF inv \<open>check_transaction_alive K st = Inr u\<close>]] savepoint_Inr sp Inr st' by simp
  qed
qed

lemma commit_outermost_inv:
  assumes inv: "store_inv st" and one: "length (saved (s_catalog st)) = 1"
    and iter: "lawful iter" and run: "commit_outermost K iter st = (r, st')"
  shows "store_inv st'"
proof -
  let ?t = "s_txn st" and ?S = "s_arrays st"
  have ok: "store_ok ?S" using inv by (simp add: txn_inv_def)
  obtain x k where un: "unreferenced K (pending_free ?t) (s_catalog st) = (x, k)" by fastforce
  show ?thesis
  proof (cases x)
    case (Inl e)
    then have "st' = st\<lparr>s_catalog := k\<rparr>" using run un by (simp add: commit_outermost_def)
    then show ?thesis using inv_fell [OF inv] unreferenced_cases [OF un] Inl by simp
  next
    case (Inr g)
    then have k: "tbl k = tbl (s_catalog st)" "saved k = saved (s_catalog st)"
      and g: "\<And>col. set (objects g col) \<inter> table_refs sha C (tbl (s_catalog st)) col = {}"
      using unreferenced_cases [OF un] by auto
    obtain y S where w: "(if fo_is_empty (written ?t) then (Inr (), ?S) else write_buffered iter (fo_arrays g) ?S) = (y, S)"
      by fastforce
    have S: "store_ok S" "\<And>col. stored_objects S col = stored_objects ?S col" "buffered_arrays S \<subseteq> buffered_arrays ?S"
      "y = Inr () \<Longrightarrow> buffered_arrays S \<subseteq> set (fo_arrays g)"
    proof -
      have "store_ok S \<and> arrays (view S) = arrays (view ?S) \<and>
          memory_backend.timestamps (as_backend S) = memory_backend.timestamps (as_backend ?S) \<and>
          buffered_arrays S \<subseteq> buffered_arrays ?S \<and> (y = Inr () \<longrightarrow> buffered_arrays S \<subseteq> set (fo_arrays g))"
      proof (cases "fo_is_empty (written ?t)")
        case True
        then have "buffered_arrays ?S = {}" using inv by (simp add: txn_inv_def fo_is_empty_def)
        then show ?thesis using w True ok by auto
      next
        case False
        then have "write_buffered iter (fo_arrays g) ?S = (y, S)" using w by simp
        from write_buffered_objects [OF ok this] show ?thesis using iter by blast
      qed
      then show "store_ok S" "buffered_arrays S \<subseteq> buffered_arrays ?S"
          "y = Inr () \<Longrightarrow> buffered_arrays S \<subseteq> set (fo_arrays g)" "stored_objects S col = stored_objects ?S col" for col
        by (cases col; simp)+
    qed
    have inv': "txn_inv sha C {} (tbl k) (saved k) ?t S"
      using inv S(1-3) S(2) [of TimestampsHash] by (auto simp: k txn_inv_def refs_stored_def cache_true_def)
    obtain z k' where rel: "c_release K k = (z, k')" by fastforce
    have failed: "store_inv (st\<lparr>s_catalog := kk, s_arrays := S\<rparr>)" if "fell tbl saved k kk" for kk
      using txn_inv_fell [of sha C "{}" tbl k saved ?t S kk] inv' that by simp
    show ?thesis
    proof (cases y)
      case (Inl e)
      then have "st' = st\<lparr>s_catalog := k, s_arrays := S\<rparr>" using run un \<open>x = Inr g\<close> w by (simp add: commit_outermost_def)
      then show ?thesis using failed [of k] by (simp add: fell_def)
    next
      case (Inr u)
      show ?thesis
      proof (cases z)
        case (Inl e)
        then have "st' = st\<lparr>s_catalog := k', s_arrays := S\<rparr>"
          using run un \<open>x = Inr g\<close> w \<open>y = Inr u\<close> rel by (simp add: commit_outermost_def)
        then show ?thesis using failed [of k'] release_Inl rel Inl by simp
      next
        case (Inr v)
        then have "st' = st\<lparr>s_catalog := k', s_arrays := remove_writes g S, s_txn := no_txn\<rparr>"
          using run un \<open>x = Inr g\<close> w \<open>y = Inr u\<close> rel by (simp add: commit_outermost_def)
        moreover have "tbl k' = tbl k" "saved k' = []"
          using release_Inr [of k v k'] rel Inr one by (auto simp: k length_Suc_conv)
        moreover have "buffered_arrays S \<subseteq> set (fo_arrays g)" using S(4) \<open>y = Inr u\<close> by simp
        ultimately show ?thesis
          using txn_inv_committed [OF inv' S(1) refl, of g] g by (simp add: k)
      qed
    qed
  qed
qed

lemma commit_inv:
  assumes inv: "store_inv st" and iter: "lawful iter" and run: "commit_transaction K iter st = (r, st')"
  shows "store_inv st'"
proof -
  consider "st' = st" | level u where "innermost_level st = Inr level" "check_transaction_alive K st = Inr u"
    using run by (auto simp: commit_transaction_def split: sum.splits)
  then show ?thesis
  proof cases
    case 2
    note len = alive(1) [OF inv 2(2)]
    have level: "marks (s_txn st) \<noteq> []" "level = length (marks (s_txn st)) - 1"
      using 2(1) by (auto simp: innermost_level_def split: if_splits)
    show ?thesis
    proof (cases "0 < level")
      case True
      obtain x k where rel: "c_release K (s_catalog st) = (x, k)" by fastforce
      show ?thesis
      proof (cases x)
        case (Inl e)
        then have "st' = st\<lparr>s_catalog := k\<rparr>" using run 2 True rel by (simp add: commit_transaction_def)
        then show ?thesis using inv_fell [OF inv] release_Inl rel Inl by simp
      next
        case (Inr v)
        then have "st' = st\<lparr>s_catalog := k, s_txn := (s_txn st)\<lparr>marks := butlast (marks (s_txn st))\<rparr>\<rparr>"
          using run 2 True rel by (simp add: commit_transaction_def)
        moreover have "1 < length (saved (s_catalog st))" using len level True by simp
        ultimately show ?thesis using txn_inv_pop [OF inv] release_Inr [of "s_catalog st" v k] rel Inr by simp
      qed
    next
      case False
      then have "length (saved (s_catalog st)) = 1" using len level by (cases "marks (s_txn st)") auto
      moreover have "commit_outermost K iter st = (r, st')" using run 2 False by (simp add: commit_transaction_def)
      ultimately show ?thesis using commit_outermost_inv [OF inv _ iter] by blast
    qed
  qed (use inv in simp)
qed

lemma rollback_inv:
  assumes inv: "store_inv st" and run: "rollback_transaction K st = (r, st')"
  shows "store_inv st'"
proof (cases "marks (s_txn st) = []")
  case True
  then show ?thesis using inv run by (simp add: rollback_transaction_def innermost_level_def)
next
  case marks: False
  let ?t = "s_txn st"
  show ?thesis
  proof (cases "transaction_was_forced_back K st")
    case True
    define st1 where "st1 = st\<lparr>s_txn := no_txn\<rparr>"
    have none: "saved (s_catalog st) = []" using True by (simp add: transaction_was_forced_back_def autocommit)
    then have "txn_inv sha C (set (fo_arrays (written ?t))) (tbl (s_catalog st1)) (saved (s_catalog st1)) (s_txn st1) (s_arrays st1)"
      and "\<And>col. set (objects (written ?t) col) \<inter> table_refs sha C (tbl (s_catalog st1)) col = {}"
      using inv by (auto simp: st1_def txn_inv_def marks_ok_no_txn levels_apart_no_txn levels_apart_def written_no_txn objects_no_objects)
    from unwind_inv(1) [OF this(1)] this(2) none have "store_inv (unwind_written K (written ?t) st1)"
      by (simp add: st1_def no_txn_def)
    then show ?thesis using run True marks by (simp add: rollback_transaction_def innermost_level_def st1_def)
  next
    case False
    then have L: "saved (s_catalog st) \<noteq> []" using marks
      by (simp add: transaction_was_forced_back_def in_transaction_def autocommit)
    obtain k where k: "c_rollback K (s_catalog st) = (Inr (), k)" "tbl k = hd (saved (s_catalog st))" "saved k = tl (saved (s_catalog st))"
      using rollback_open [OF L] by blast
    define gone where "gone = fst (fo_split_off (last (marks ?t)) (written ?t))"
    define st1 where "st1 = st\<lparr>s_catalog := k, s_txn := rolled_back_txn ?t\<rparr>"
    have st': "st' = unwind_written K gone st1"
      using run False marks k(1)
      by (auto simp: rollback_transaction_def innermost_level_def st1_def gone_def rolled_back_txn_def Let_def split: prod.splits if_splits)
    have "store_inv (unwind_written K gone st1)"
    proof (rule unwind_inv(1))
      show "txn_inv sha C (set (fo_arrays gone)) (tbl (s_catalog st1)) (saved (s_catalog st1)) (s_txn st1) (s_arrays st1)"
        using txn_inv_rollback(1) [OF inv L] by (simp add: st1_def gone_def k)
      show "set (objects gone col) \<inter> table_refs sha C t' col = {}"
        if "t' \<in> set (tbl (s_catalog st1) # saved (s_catalog st1))" for t' col
        using txn_inv_rollback(2) [OF inv L, of t' col] that L by (auto simp: st1_def gone_def k)
      show "shared_sets (s_txn st1) = no_shared_sets" by (simp add: st1_def rolled_back_txn_def no_txn_def)
    qed
    then show ?thesis using st' by simp
  qed
qed

section \<open>Removals\<close>

lemma write_catalog_inv:
  assumes inv: "store_inv st" and f: "tame tbl saved f" and run: "write_catalog K f st = (r, st')"
    and keep: "\<And>k a k'. f k = (Inr a, k') \<Longrightarrow> tbl k = tbl (s_catalog st) \<Longrightarrow>
        set (t_rows (tbl k')) \<subseteq> set (t_rows (tbl (s_catalog st))) \<and>
        (t_sets (tbl k') = t_sets (tbl (s_catalog st)) \<or> t_rows (tbl k') = [] \<and> shared_sets (s_txn st) = no_shared_sets) \<and>
        P a (tbl k')"
  shows "store_inv st'" "s_txn st' = s_txn st" "s_arrays st' = s_arrays st"
    and "r = Inr a \<Longrightarrow> P a (tbl (s_catalog st')) \<and> (in_transaction st \<or> saved (s_catalog st') = [] \<and> s_txn st = no_txn)"
proof -
  have "store_inv st' \<and> s_txn st' = s_txn st \<and> s_arrays st' = s_arrays st \<and>
      (\<forall>a. r = Inr a \<longrightarrow> P a (tbl (s_catalog st')) \<and> (in_transaction st \<or> saved (s_catalog st') = [] \<and> s_txn st = no_txn))"
  proof (cases "check_transaction_alive K st")
    case (Inl e)
    then show ?thesis using inv run by (auto simp: write_catalog_def)
  next
    case (Inr u)
    then obtain k where k: "in_savepoint K f (s_catalog st) = (r, k)" "st' = st\<lparr>s_catalog := k\<rparr>"
      using run by (auto simp: write_catalog_def split: prod.splits)
    from in_savepoint_cases [OF f k(1)] show ?thesis
    proof (elim disjE exE conjE)
      fix e
      assume "r = Inl e" "fell tbl saved (s_catalog st) k"
      then show ?thesis using inv_fell [OF inv] k(2) by simp
    next
      fix a k1 k2
      assume r: "r = Inr a" and k1: "tbl k1 = tbl (s_catalog st)" "f k1 = (Inr a, k2)"
        and k': "tbl k = tbl k2" "saved k = saved (s_catalog st)"
      note kept = keep [OF k1(2,1)]
      have "txn_inv sha C {} (tbl k2) (saved (s_catalog st)) (s_txn st) (s_arrays st)"
        using kept inv
        by (intro txn_inv_table [OF inv]) (auto simp: txn_inv_def refs_stored_def sets_interned_def cache_true_def no_shared_sets_def)
      then show ?thesis using r k' k(2) kept alive(2) [OF inv Inr] by auto
    qed
  qed
  then show "store_inv st'" "s_txn st' = s_txn st" "s_arrays st' = s_arrays st"
    and "r = Inr a \<Longrightarrow> P a (tbl (s_catalog st')) \<and> (in_transaction st \<or> saved (s_catalog st') = [] \<and> s_txn st = no_txn)"
    by blast+
qed

lemma free_or_defer_inv:
  assumes inv: "store_inv st" and g: "\<And>col. set (objects g col) \<inter> table_refs sha C (tbl (s_catalog st)) col = {}"
    and none: "\<not> in_transaction st \<Longrightarrow> saved (s_catalog st) = []"
  shows "store_inv (free_or_defer g st)"
proof (cases "in_transaction st")
  case True
  then show ?thesis using inv
    by (simp add: free_or_defer_def in_transaction_def txn_inv_def marks_ok_def levels_apart_def since_def)
next
  case False
  have ok: "store_ok (s_arrays st)" using inv by (simp add: txn_inv_def)
  have "txn_inv sha C {} (tbl (s_catalog st)) (saved (s_catalog st)) (s_txn st) (remove_writes g (s_arrays st))"
  proof (rule txn_inv_arrays [OF inv remove_writes_objects(1) [OF ok]])
    show "buffered_arrays (remove_writes g (s_arrays st)) \<subseteq> set (fo_arrays (written (s_txn st))) \<union> {}"
      using inv remove_writes_objects(4) [OF ok, of g] by (auto simp: txn_inv_def)
  qed (use none [OF False] g in \<open>auto simp: remove_writes_stored [OF ok]\<close>)
  then show ?thesis using False by (simp add: free_or_defer_def)
qed

end

end
