(* ===== verification/TxnWrites.thy ===== *)
theory TxnWrites
  imports TxnSteps
begin

text \<open>
  The calls that change the data keep the invariant of \<open>TxnInv\<close>: adding a batch, inside a transaction and
  outside one, removing by id and clearing. What a call has staged is what the array half has gained.
\<close>

section \<open>What a call has staged\<close>

definition gained :: "array_store \<Rightarrow> file_objects \<Rightarrow> array_store \<Rightarrow> bool" where
  "gained S0 f S \<longleftrightarrow>
     store_ok S \<and> (\<forall>col. stored_objects S col = stored_objects S0 col \<union> set (objects f col)) \<and>
     (\<forall>col. set (objects f col) \<inter> stored_objects S0 col = {}) \<and>
     buffered_arrays S \<subseteq> buffered_arrays S0 \<union> set (fo_arrays f) \<and> as_in_transaction S = as_in_transaction S0 \<and>
     (\<not> as_in_transaction S0 \<longrightarrow> as_buffer S = as_buffer S0)"

definition extends :: "file_objects \<Rightarrow> file_objects \<Rightarrow> bool" where
  "extends f g \<longleftrightarrow> (\<forall>col. set (objects f col) \<subseteq> set (objects g col))"

lemma gained_start: "store_ok S \<Longrightarrow> gained S no_objects S"
  by (simp add: gained_def objects_no_objects)

lemma extends_refl: "extends f f"
  by (simp add: extends_def)

lemma extends_trans: "extends f g \<Longrightarrow> extends g h \<Longrightarrow> extends f h"
  by (auto simp: extends_def)

lemma extends_stored: "gained S0 f S \<Longrightarrow> gained S0 g S' \<Longrightarrow> extends f g \<Longrightarrow> stored_objects S col \<subseteq> stored_objects S' col"
  by (auto simp: gained_def extends_def)

lemma extends_array: "extends f (f\<lparr>fo_arrays := fo_arrays f @ hs\<rparr>)"
  unfolding extends_def
proof
  fix col
  show "set (objects f col) \<subseteq> set (objects (f\<lparr>fo_arrays := fo_arrays f @ hs\<rparr>) col)" by (cases col) auto
qed

lemma extends_axis: "extends f (f\<lparr>fo_timestamps := fo_timestamps f @ hs\<rparr>)"
  unfolding extends_def
proof
  fix col
  show "set (objects f col) \<subseteq> set (objects (f\<lparr>fo_timestamps := fo_timestamps f @ hs\<rparr>) col)" by (cases col) auto
qed

text \<open>New arrays alone, new axes alone.\<close>

lemma gained_arrays:
  assumes S: "gained S0 f S" and S': "store_ok S'" "dom (arrays (view S')) = dom (arrays (view S)) \<union> set hs"
    "set hs \<inter> dom (arrays (view S)) = {}"
    "memory_backend.timestamps (as_backend S') = memory_backend.timestamps (as_backend S)"
    "buffered_arrays S' \<subseteq> buffered_arrays S \<union> set hs" "as_in_transaction S' = as_in_transaction S"
    "\<not> as_in_transaction S \<Longrightarrow> as_buffer S' = as_buffer S"
  shows "gained S0 (f\<lparr>fo_arrays := fo_arrays f @ hs\<rparr>) S'"
proof -
  have "stored_objects S' col = stored_objects S0 col \<union> set (objects (f\<lparr>fo_arrays := fo_arrays f @ hs\<rparr>) col) \<and>
      set (objects (f\<lparr>fo_arrays := fo_arrays f @ hs\<rparr>) col) \<inter> stored_objects S0 col = {}" for col
  proof -
    have "stored_objects S col = stored_objects S0 col \<union> set (objects f col)" "set (objects f col) \<inter> stored_objects S0 col = {}"
      using S by (simp_all add: gained_def)
    then show ?thesis using S'(2-4) by (cases col) auto
  qed
  then show ?thesis using S S'(1,5-7) by (auto simp: gained_def)
qed

lemma gained_axis:
  assumes S: "gained S0 f S" and s: "mem_put_timestamps C (as_backend S) h ts = (r, s)"
  defines "f' \<equiv> if r = Inr True then f\<lparr>fo_timestamps := fo_timestamps f @ [h]\<rparr> else f"
  shows "gained S0 f' (S\<lparr>as_backend := s\<rparr>)" "\<exists>new. r = Inr new" "h \<in> dom (memory_backend.timestamps s)"
proof -
  have ts: "memory_backend.timestamps s = (if memory_backend.timestamps (as_backend S) h = None
        then (memory_backend.timestamps (as_backend S))(h \<mapsto> to_millis C ts) else memory_backend.timestamps (as_backend S))"
      "r = Inr (memory_backend.timestamps (as_backend S) h = None)" "arrays s = arrays (as_backend S)"
    using s by (auto simp: mem_put_timestamps_def split: option.splits)
  note same = change_axes [OF ts(3)]
  have "stored_objects (S\<lparr>as_backend := s\<rparr>) col = stored_objects S0 col \<union> set (objects f' col) \<and>
      set (objects f' col) \<inter> stored_objects S0 col = {}" for col
  proof -
    have "stored_objects S col = stored_objects S0 col \<union> set (objects f col)" "set (objects f col) \<inter> stored_objects S0 col = {}"
      using S by (simp_all add: gained_def)
    then show ?thesis using ts by (cases col) (auto simp: same(2) f'_def split: if_splits)
  qed
  then show "gained S0 f' (S\<lparr>as_backend := s\<rparr>)" using S same by (auto simp: gained_def f'_def)
  show "\<exists>new. r = Inr new" "h \<in> dom (memory_backend.timestamps s)" using ts by auto
qed

section \<open>Time axes\<close>

lemma stage_axes_gained:
  assumes "stage_axes C ps seen f (as_backend S) = (r, seen', f', s')" "gained S0 f S"
  shows "r = Inr () \<and> gained S0 f' (S\<lparr>as_backend := s'\<rparr>) \<and> extends f f' \<and> ss_features seen' = ss_features seen \<and>
    (ss_timestamps seen \<subseteq> dom (memory_backend.timestamps (as_backend S)) \<longrightarrow>
      ss_timestamps seen' \<subseteq> dom (memory_backend.timestamps s') \<and>
      (\<forall>p \<in> set ps. \<forall>h. p_group p = Irregular h \<and> m_timestamps (p_meta p) \<noteq> None \<longrightarrow> h \<in> dom (memory_backend.timestamps s')))"
  using assms
proof (induction ps arbitrary: seen f S)
  case Nil
  then show ?case by (auto simp: extends_refl)
next
  case (Cons p ps)
  let ?s = "as_backend S"
  obtain r1 seen1 f1 s1 where one: "stage_timestamp_vector C (p_group p) (m_timestamps (p_meta p)) seen f ?s = (r1, seen1, f1, s1)"
    by (metis prod_cases4)
  have step: "r1 = Inr () \<and> gained S0 f1 (S\<lparr>as_backend := s1\<rparr>) \<and> extends f f1 \<and> ss_features seen1 = ss_features seen \<and>
      (ss_timestamps seen \<subseteq> dom (memory_backend.timestamps ?s) \<longrightarrow>
        ss_timestamps seen1 \<subseteq> dom (memory_backend.timestamps s1) \<and>
        (\<forall>h. p_group p = Irregular h \<and> m_timestamps (p_meta p) \<noteq> None \<longrightarrow> h \<in> dom (memory_backend.timestamps s1)))"
  proof (cases "\<exists>h v. p_group p = Irregular h \<and> m_timestamps (p_meta p) = Some v \<and> h \<notin> ss_timestamps seen")
    case True
    then obtain h v where hv: "p_group p = Irregular h" "m_timestamps (p_meta p) = Some v" "h \<notin> ss_timestamps seen" by blast
    obtain x s where put: "mem_put_timestamps C ?s h v = (x, s)" by fastforce
    note g = gained_axis [OF Cons.prems(2) put]
    obtain new where x: "x = Inr new" using g(2) by blast
    have dom: "dom (memory_backend.timestamps ?s) \<subseteq> dom (memory_backend.timestamps s)"
      using put by (auto simp: mem_put_timestamps_def split: option.splits if_splits)
    have "r1 = Inr ()" "seen1 = seen\<lparr>ss_timestamps := insert h (ss_timestamps seen)\<rparr>" "s1 = s"
      "f1 = (if x = Inr True then f\<lparr>fo_timestamps := fo_timestamps f @ [h]\<rparr> else f)"
      using one hv put x by (auto simp: stage_timestamp_vector_def note_timestamps_def)
    moreover have "insert h (ss_timestamps seen) \<subseteq> dom (memory_backend.timestamps s)"
      if "ss_timestamps seen \<subseteq> dom (memory_backend.timestamps ?s)" using that dom g(3) by blast
    ultimately show ?thesis using g(1,3) hv extends_refl [of f] extends_axis [of f "[h]"] by auto
  next
    case False
    then have "r1 = Inr ()" "f1 = f" "s1 = ?s" "ss_timestamps seen1 = ss_timestamps seen" "ss_features seen1 = ss_features seen"
      using one by (auto simp: stage_timestamp_vector_def note_timestamps_def split: pack_group.splits option.splits)
    then show ?thesis using Cons.prems(2) False by (auto simp: extends_refl)
  qed
  have rest: "stage_axes C ps seen1 f1 (as_backend (S\<lparr>as_backend := s1\<rparr>)) = (r, seen', f', s')"
    using Cons.prems(1) one step by simp
  note ih = Cons.IH [OF rest] step
  have "\<exists>u. memory_backend.timestamps s' h = Some u" if "memory_backend.timestamps s1 h = Some v" for h v
    using extends_stored [of S0 f1 "S\<lparr>as_backend := s1\<rparr>" f' "S\<lparr>as_backend := s'\<rparr>" TimestampsHash] ih that by auto
  then show ?case using ih by (auto intro: extends_trans)
qed

section \<open>Arrays\<close>

lemma put_staged_gained:
  assumes put: "put_staged iter x f S = (r, f', S')" and S: "gained S0 f S"
  shows "gained S0 f' S'" "extends f f'" "r = Inr u \<Longrightarrow> p_hash (snd x) \<in> stored_objects S' DataHash"
    and "memory_backend.timestamps (as_backend S') = memory_backend.timestamps (as_backend S)"
proof -
  let ?h = "p_hash (snd x)"
  have ok: "store_ok S" using S by (simp add: gained_def)
  obtain y where y: "store_put_array iter S ?h (fst x) (p_group (snd x)) (p_layout (snd x)) = (y, S')"
    and r: "r = (case y of Inl e \<Rightarrow> Inl e | Inr _ \<Rightarrow> Inr ())"
    and f': "f' = f\<lparr>fo_arrays := fo_arrays f @ (if y = Inr True then [?h] else [])\<rparr>"
    using put by (auto simp: put_staged_def split: sum.splits prod.splits if_splits)
  note v = store_put_view [OF ok y] and o = store_put_objects [OF ok y]
  have keep: "as_in_transaction S' = as_in_transaction S" "\<not> as_in_transaction S \<Longrightarrow> as_buffer S' = as_buffer S"
    using y by (auto simp: store_put_array_def split: sum.splits prod.splits if_splits)
  have arr: "dom (arrays (view S')) = dom (arrays (view S)) \<union> set (if y = Inr True then [?h] else []) \<and>
      set (if y = Inr True then [?h] else []) \<inter> dom (arrays (view S)) = {} \<and> ((\<exists>new. y = Inr new) \<longrightarrow> ?h \<in> dom (arrays (view S')))"
  proof (cases y)
    case (Inl e)
    then show ?thesis using v(3) by simp
  next
    case (Inr new)
    then show ?thesis using v(2) [of new] by (cases new) auto
  qed
  show "gained S0 f' S'"
    unfolding f' using arr v(1) o keep by (intro gained_arrays [OF S]) (auto split: if_splits)
  show "extends f f'" unfolding f' by (rule extends_array)
  show "r = Inr u \<Longrightarrow> ?h \<in> stored_objects S' DataHash" using arr r by (auto split: sum.splits)
  show "memory_backend.timestamps (as_backend S') = memory_backend.timestamps (as_backend S)" by (rule o(1))
qed

lemma put_each_gained:
  assumes "put_each iter xs f S = (r, f', S')" "gained S0 f S"
  shows "gained S0 f' S' \<and> extends f f' \<and> (r = Inr () \<longrightarrow> (\<forall>x \<in> set xs. p_hash (snd x) \<in> stored_objects S' DataHash)) \<and>
    memory_backend.timestamps (as_backend S') = memory_backend.timestamps (as_backend S)"
  using assms
proof (induction xs arbitrary: f S)
  case (Cons x xs)
  obtain y f1 S1 where one: "put_staged iter x f S = (y, f1, S1)" by (metis prod_cases3)
  note p = put_staged_gained [OF one Cons.prems(2)]
  show ?case
  proof (cases y)
    case (Inl e)
    then show ?thesis using Cons.prems(1) one p by auto
  next
    case (Inr u)
    then have rest: "put_each iter xs f1 S1 = (r, f', S')" using Cons.prems(1) one by simp
    note ih = Cons.IH [OF rest p(1)]
    have "stored_objects S1 DataHash \<subseteq> stored_objects S' DataHash" using extends_stored [OF p(1), of f' S'] ih by blast
    then show ?thesis using ih p(2,4) p(3) [OF Inr] by (auto intro: extends_trans simp del: stored_objects.simps)
  qed
qed (simp add: extends_refl)

subsection \<open>Grouped by pool\<close>

definition pooled :: "pools \<Rightarrow> hash set" where
  "pooled pools = (\<Union>(key, xs) \<in> set pools. (\<lambda>x. p_hash (snd x)) ` set xs)"

lemma pooled_map:
  "pooled (map (\<lambda>(k, xs). if k = key then (k, xs @ [x]) else (k, xs)) pools) =
     pooled pools \<union> (if \<exists>ys. (key, ys) \<in> set pools then {p_hash (snd x)} else {})"
proof (induction pools)
  case (Cons pool pools)
  obtain k ys where pool: "pool = (k, ys)" by (cases pool)
  have Cons': "pooled ((k, ys) # rest) = (\<lambda>x. p_hash (snd x)) ` set ys \<union> pooled rest" for k ys rest
    by (simp add: pooled_def)
  show ?case using Cons.IH by (cases "k = key") (auto simp: pool Cons')
qed (simp add: pooled_def)

lemma pooled_push: "pooled (push_pool key x pools) = insert (p_hash (snd x)) (pooled pools)"
proof (cases "map_of pools key")
  case None
  then show ?thesis by (auto simp: push_pool_def pooled_def)
next
  case (Some ys)
  then have "\<exists>ys. (key, ys) \<in> set pools" by (blast dest: map_of_SomeD)
  then show ?thesis using Some by (simp add: push_pool_def pooled_map)
qed

lemma group_parts_gained:
  assumes "group_parts iter xs seen pools f S = (r, f', S')" "gained S0 f S"
  shows "gained S0 f' S' \<and> extends f f' \<and> memory_backend.timestamps (as_backend S') = memory_backend.timestamps (as_backend S) \<and>
    (\<forall>pools'. r = Inr pools' \<longrightarrow> pooled pools \<subseteq> pooled pools' \<and>
      (\<forall>x \<in> set xs. p_hash (snd x) \<in> seen \<or> p_hash (snd x) \<in> stored_objects S' DataHash \<union> pooled pools'))"
  using assms
proof (induction xs arbitrary: seen pools f S)
  case (Cons x xs)
  let ?h = "p_hash (snd x)"
  have both: "\<forall>x' \<in> set (x # xs). p_hash (snd x') \<in> seen \<or> p_hash (snd x') \<in> A"
    if "\<forall>x \<in> set xs. p_hash (snd x) \<in> insert ?h seen \<or> p_hash (snd x) \<in> A" "?h \<in> A" for A
    using that by auto
  consider "?h \<in> seen" | "?h \<notin> seen" "is_packed (p_layout (snd x))" | "?h \<notin> seen" "\<not> is_packed (p_layout (snd x))" by blast
  then show ?case
  proof cases
    case 1
    then show ?thesis using Cons.IH [of seen pools f S] Cons.prems by simp
  next
    case 2
    then have run: "group_parts iter xs (insert ?h seen) (push_pool (pool_key (fst x) (p_group (snd x))) x pools) f S = (r, f', S')"
      using Cons.prems by simp
    note ih = Cons.IH [OF run Cons.prems(2), unfolded pooled_push]
    have "\<forall>x' \<in> set (x # xs). p_hash (snd x') \<in> seen \<or> p_hash (snd x') \<in> stored_objects S' DataHash \<union> pooled pools'"
      if "r = Inr pools'" for pools' using ih that by (intro both) auto
    then show ?thesis using ih by blast
  next
    case 3
    obtain y f1 S1 where one: "put_staged iter x f S = (y, f1, S1)" by (metis prod_cases3)
    note p = put_staged_gained [OF one Cons.prems(2)]
    show ?thesis
    proof (cases y)
      case (Inl e)
      then show ?thesis using Cons.prems 3 one p by auto
    next
      case (Inr u)
      then have run: "group_parts iter xs (insert ?h seen) pools f1 S1 = (r, f', S')" using Cons.prems 3 one by simp
      note ih = Cons.IH [OF run p(1)]
      have "stored_objects S1 DataHash \<subseteq> stored_objects S' DataHash" using extends_stored [OF p(1), of f' S'] ih by blast
      then have "\<forall>x' \<in> set (x # xs). p_hash (snd x') \<in> seen \<or> p_hash (snd x') \<in> stored_objects S' DataHash \<union> pooled pools'"
        if "r = Inr pools'" for pools' using ih p(3) [OF Inr] that by (intro both) auto
      then show ?thesis using ih p(2,4) extends_trans [OF p(2)] by metis
    qed
  qed
qed (auto simp: extends_refl)

lemma put_block_mem_Inr: "\<exists>flags s'. put_block mem_ops s block g = (Inr flags, s')"
proof -
  have "\<exists>found. scan_new (b_contains mem_ops s) seen new xs = Inr found" for seen new xs
  proof (induction xs arbitrary: seen new)
    case (Cons x xs)
    obtain i h where "x = (i, h)" by (cases x)
    then show ?case
      using Cons.IH [of seen new] Cons.IH [of "insert h seen" new] Cons.IH [of "insert h seen" "new @ [i]"]
      by (auto simp: mem_ops_def mem_contains_def rbind_def)
  qed simp
  then obtain new where scan: "scan_new (b_contains mem_ops s) {} [] (enumerate 0 (map fst block)) = Inr new" by blast
  have one: "\<exists>w s'. b_put mem_ops s h a g l = (Inr w, s')" for h a l
    using mem_put_array_ok [of s h a g l] by (cases "mem_put_array s h a g l") (auto simp: mem_ops_def)
  have many: "\<exists>w s'. b_put_block mem_ops s block g = (Inr w, s')"
    using mem_put_block_ok [of s block g] by (cases "put_packed_block mem_put_array s block g") (auto simp: mem_ops_def)
  consider "new = []" | i where "new = [i]" | i j rest where "new = i # j # rest" by (metis list.exhaust)
  then show ?thesis
  proof cases
    case 2
    obtain h a where "block ! i = (h, a)" by (cases "block ! i")
    moreover obtain w s' where "b_put mem_ops s h a g
        (if is_irregular_group g \<and> \<not> b_has_pack_group mem_ops s (arr_dtype a) (element_shape a) (ta_length a) g
         then Standalone else Packed) = (Inr w, s')" using one by blast
    ultimately show ?thesis using scan 2 by (simp add: put_block_def Let_def)
  qed (use scan many in \<open>simp_all add: put_block_def\<close>)
qed

lemma write_pools_gained:
  assumes "write_pools pools f (as_backend S) = (r, f', s')" "gained S0 f S" "wb_get (as_buffer S) = Map.empty"
  shows "r = Inr () \<and> gained S0 f' (S\<lparr>as_backend := s'\<rparr>) \<and> extends f f' \<and>
    memory_backend.timestamps s' = memory_backend.timestamps (as_backend S) \<and>
    pooled pools \<subseteq> stored_objects (S\<lparr>as_backend := s'\<rparr>) DataHash"
  using assms
proof (induction pools arbitrary: f S)
  case (Cons pool pools)
  obtain key xs where pool: "pool = (key, xs)" by (cases pool)
  obtain flags s1 where put: "put_block mem_ops (as_backend S) (block_of xs) (key_group key) = (Inr flags, s1)"
    using put_block_mem_Inr by blast
  define S1 where "S1 = S\<lparr>as_backend := s1\<rparr>"
  define new where "new = flagged (map fst (block_of xs)) flags"
  note b = mem_put_block_flags [OF put, folded new_def]
  have none: "arrays (view S) = arrays (as_backend S)" "arrays (view S1) = arrays s1"
    using Cons.prems(3) by (auto simp: view_arrays contents_def S1_def fun_eq_iff)
  have ok: "store_ok S" using Cons.prems(2) by (simp add: gained_def)
  have ok1: "store_ok S1" using ok Cons.prems(3) by (simp add: store_ok_def S1_def apart_def)
  have "buffered_arrays S1 = buffered_arrays S" by (simp add: buffered_arrays_def S1_def)
  then have S1: "gained S0 (f\<lparr>fo_arrays := fo_arrays f @ new\<rparr>) S1"
    using b ok1 none by (intro gained_arrays [OF Cons.prems(2)]) (auto simp: S1_def)
  have rest: "write_pools pools (f\<lparr>fo_arrays := fo_arrays f @ new\<rparr>) (as_backend S1) = (r, f', s')"
    using Cons.prems(1) put by (simp add: pool new_def S1_def)
  have "wb_get (as_buffer S1) = Map.empty" using Cons.prems(3) by (simp add: S1_def)
  note ih = Cons.IH [OF rest S1 this]
  have S': "S1\<lparr>as_backend := s'\<rparr> = S\<lparr>as_backend := s'\<rparr>" by (simp add: S1_def)
  have "stored_objects S1 DataHash \<subseteq> stored_objects (S\<lparr>as_backend := s'\<rparr>) DataHash"
    by (rule extends_stored [OF S1, of f']) (use ih S' in simp_all)
  moreover have "(\<lambda>x. p_hash (snd x)) ` set xs \<subseteq> stored_objects S1 DataHash"
    using b(3) none(2) by (auto simp: block_of_def image_image)
  moreover have "memory_backend.timestamps (as_backend S1) = memory_backend.timestamps (as_backend S)" using b(4) by (simp add: S1_def)
  ultimately show ?case
    using ih extends_trans [OF extends_array] S' by (auto simp: pool pooled_def simp del: stored_objects.simps)
next
  case Nil
  then show ?case by (cases S) (auto simp: extends_refl pooled_def)
qed

lemma put_grouped_gained:
  assumes run: "put_grouped iter order xs f S = (r, f', S')" and S: "gained S0 f S"
    and out: "\<not> as_in_transaction S0" "wb_get (as_buffer S0) = Map.empty" and order: "\<And>ps. set (order ps) = set ps"
  shows "gained S0 f' S' \<and> extends f f' \<and> (r = Inr () \<longrightarrow> (\<forall>x \<in> set xs. p_hash (snd x) \<in> stored_objects S' DataHash)) \<and>
    memory_backend.timestamps (as_backend S') = memory_backend.timestamps (as_backend S)"
proof -
  obtain y f1 S1 where grp: "group_parts iter xs {} [] f S = (y, f1, S1)" by (metis prod_cases3)
  note g = group_parts_gained [OF grp S]
  show ?thesis
  proof (cases y)
    case (Inl e)
    then show ?thesis using run grp g by (auto simp: put_grouped_def)
  next
    case (Inr pools)
    obtain z s' where w: "write_pools (order pools) f1 (as_backend S1) = (z, f', s')" and S': "r = z" "S' = S1\<lparr>as_backend := s'\<rparr>"
      using run grp Inr by (auto simp: put_grouped_def split: prod.splits)
    have S1: "gained S0 f1 S1" and none: "wb_get (as_buffer S1) = Map.empty" using g out by (auto simp: gained_def)
    note p = write_pools_gained [OF w S1 none]
    have "pooled (order pools) = pooled pools" using order by (simp add: pooled_def)
    moreover have "stored_objects S1 DataHash \<subseteq> stored_objects S' DataHash"
      using extends_stored [OF S1, of f' S'] p S'(2) by blast
    ultimately show ?thesis using g p Inr S' by (auto intro: extends_trans simp del: stored_objects.simps)
  qed
qed

section \<open>Adding\<close>

definition placed :: "(byte list \<Rightarrow> hash) \<Rightarrow> chrono \<Rightarrow> request_parts \<Rightarrow> bool" where
  "placed sha C p \<longleftrightarrow> m_data_hash (p_meta p) = p_hash p \<and>
     (\<forall>ts. m_timestamps (p_meta p) = Some ts \<longrightarrow> p_group p = Irregular (timestamps_hash sha C ts))"

lemma placed_row_group:
  assumes "placed_row sha C d base = Inr (g, m)" "m_timestamps base = None" "m_timestamps m = Some ts"
  shows "g = Irregular (timestamps_hash sha C ts)"
  using assms by (cases d) (auto simp: forecast_row_def rbind_Inr_iff)

lemma build_request_parts_placed:
  assumes "build_request_parts sha C item = Inr p"
  shows "placed sha C p"
proof -
  let ?base = "base_row sha item (data_element_type (r_data item))"
  have row: "placed_row sha C (r_data item) ?base = Inr (p_group p, p_meta p)" "p_hash p = array_hash sha (data_array (r_data item))"
    using assms by (simp_all add: build_request_parts_Inr)
  have "m_data_hash ?base = p_hash p" "m_timestamps ?base = None" using row(2) by (simp_all add: base_row_def Let_def)
  then show ?thesis using placed_row_keeps [OF row(1)] placed_row_group [OF row(1)] by (simp add: placed_def)
qed

lemma placed_refs:
  assumes "placed sha C p" "p_hash p \<in> stored_objects S DataHash"
    "\<And>h. p_group p = Irregular h \<Longrightarrow> m_timestamps (p_meta p) \<noteq> None \<Longrightarrow> h \<in> stored_objects S TimestampsHash"
  shows "row_refs sha C col ((p_meta p)\<lparr>m_id := i\<rparr>) \<subseteq> stored_objects S col"
  using assms by (cases col) (auto simp: placed_def split: option.splits simp del: stored_objects.simps)

lemma arrays_in_same:
  "store_ok (arrays_in st) = store_ok (s_arrays st)" "stored_objects (arrays_in st) col = stored_objects (s_arrays st) col"
  "buffered_arrays (arrays_in st) = buffered_arrays (s_arrays st)"
  by (cases col; simp add: arrays_in_def store_ok_def view_def buffered_arrays_def)+

lemma gained_removed:
  assumes "gained S0 f S"
  shows "store_ok (remove_writes f S)" "stored_objects (remove_writes f S) col = stored_objects S0 col"
    "buffered_arrays (remove_writes f S) \<subseteq> buffered_arrays S0"
  using assms remove_writes_objects [of S f] by (auto simp: gained_def remove_writes_stored simp del: stored_objects.simps)

context catalog_laws
begin

text \<open>A call that fails takes what it staged out again.\<close>

lemma failed_add_inv:
  assumes inv: "txn_inv sha C {} (tbl k) (saved k) t S0" and S: "gained S0 f S"
    and cache: "saved k \<noteq> [] \<Longrightarrow> shared_sets t = no_shared_sets"
    and k': "saved k' = saved k \<and> t_rows (tbl k') = t_rows (tbl k) \<and> t_sets (tbl k) \<subseteq> t_sets (tbl k') \<or>
        saved k' = [] \<and> tbl k' = last (tbl k # saved k)"
  shows "txn_inv sha C {} (tbl k') (saved k') t (remove_writes f S)"
proof -
  have "txn_inv sha C {} (tbl k) (saved k) t (remove_writes f S)"
    using inv gained_removed [OF S] cache
    by (intro txn_inv_arrays [OF inv]) (auto simp: txn_inv_def no_shared_sets_def simp del: stored_objects.simps)
  then show ?thesis using k' txn_inv_more_sets txn_inv_lost by (auto split: if_splits)
qed

text \<open>A call that succeeds has stored all that its rows name.\<close>

lemma added_tables:
  assumes inv: "txn_inv sha C {} T L t S0" and S: "gained S0 f S"
    and rows: "t_rows T' = t_rows T @ map (\<lambda>(m, i). m\<lparr>m_id := Some i\<rparr>) (zip (map p_meta ps) ids)" "t_sets T \<subseteq> t_sets T'"
    and sets: "\<And>p. p \<in> set ps \<Longrightarrow> features_hash sha (m_features (p_meta p)) \<in> insert (features_hash sha []) (t_sets T')"
    and ps: "\<And>p i col. p \<in> set ps \<Longrightarrow> row_refs sha C col ((p_meta p)\<lparr>m_id := Some i\<rparr>) \<subseteq> stored_objects S col"
    and t': "t' \<in> set (T' # L)"
  shows "refs_stored sha C S t'"
proof -
  have more: "stored_objects S0 col \<subseteq> stored_objects S col" for col using S by (auto simp: gained_def simp del: stored_objects.simps)
  have old: "refs_stored sha C S0 t'" if "t' \<in> set (T # L)" for t' using inv that unfolding txn_inv_def by blast
  show ?thesis
  proof (cases "t' = T'")
    case False
    then have "refs_stored sha C S0 t'" using old t' by simp
    then show ?thesis using more by (auto simp: refs_stored_def simp del: stored_objects.simps)
  next
    case True
    have row: "(\<exists>p i. p \<in> set ps \<and> m = (p_meta p)\<lparr>m_id := Some i\<rparr>) \<or> m \<in> set (t_rows T)" if "m \<in> set (t_rows T')" for m
      using that rows(1) by (force dest: set_zip_leftD)
    have "refs_stored sha C S0 T" using old by simp
    then have T: "sets_interned sha T" "\<And>col m. m \<in> set (t_rows T) \<Longrightarrow> row_refs sha C col m \<subseteq> stored_objects S col"
      using more unfolding refs_stored_def table_refs_def by blast+
    have "sets_interned sha T'"
      unfolding sets_interned_def
    proof
      fix m
      assume "m \<in> set (t_rows T')"
      then consider p i where "p \<in> set ps" "m = (p_meta p)\<lparr>m_id := Some i\<rparr>" | "m \<in> set (t_rows T)" using row by blast
      then show "features_hash sha (m_features m) \<in> t_sets T' \<or> features_hash sha (m_features m) = features_hash sha []"
      proof cases
        case 1
        then show ?thesis using sets [OF 1(1)] by auto
      qed (use T(1) rows(2) in \<open>auto simp: sets_interned_def\<close>)
    qed
    moreover have "table_refs sha C T' col \<subseteq> stored_objects S col" for col
      unfolding table_refs_def
    proof (rule UN_least)
      fix m
      assume "m \<in> set (t_rows T')"
      from row [OF this] show "row_refs sha C col m \<subseteq> stored_objects S col" using T(2) ps by blast
    qed
    ultimately show ?thesis using True by (simp add: refs_stored_def)
  qed
qed

lemma added_txn:
  assumes inv: "txn_inv sha C {} T L t S0" and S: "gained S0 f S" and L: "L \<noteq> []"
    and tables: "\<And>t'. t' \<in> set (T' # L) \<Longrightarrow> refs_stored sha C S t'" and cache: "cache_true sha T' S c"
  shows "txn_inv sha C {} T' L (t\<lparr>shared_sets := c, written := fo_append (written t) f\<rparr>) S"
proof -
  let ?t = "t\<lparr>shared_sets := c, written := fo_append (written t) f\<rparr>"
  have ok: "marks_ok t" and apart: "levels_apart sha C T L t" and len: "length L = length (marks t)"
    using inv L by (simp_all add: txn_inv_def levels_apart_def)
  have marks: "marks t \<noteq> []" using len L by auto
  have since: "since ?t i col = since t i col @ objects f col" if "i < length (marks t)" for i col
    using ok that by (simp add: since_def objects_append marks_ok_def)
  have "marks_ok ?t" using ok marks by (auto simp: marks_ok_def objects_append trans_le_add1)
  moreover have "levels_apart sha C T' L ?t"
  proof -
    have "set (since ?t i col) \<inter> table_refs sha C (rev L ! i) col = {}" if "i < length L" for i col
    proof -
      have "rev L ! i \<in> set L" using that nth_mem [of i "rev L"] by simp
      then have "table_refs sha C (rev L ! i) col \<subseteq> stored_objects S0 col" using inv by (simp add: txn_inv_def refs_stored_def del: stored_objects.simps)
      moreover have "set (objects f col) \<inter> stored_objects S0 col = {}" using S by (simp add: gained_def del: stored_objects.simps)
      moreover have "set (since t i col) \<inter> table_refs sha C (rev L ! i) col = {}" using apart that by (simp add: levels_apart_def)
      ultimately show ?thesis using since [of i col] that len by (simp del: stored_objects.simps) blast
    qed
    then show ?thesis using L len marks by (simp add: levels_apart_def)
  qed
  moreover have "buffered_arrays S \<subseteq> set (fo_arrays (written ?t)) \<union> {}"
    using inv S by (auto simp: txn_inv_def gained_def fo_append_def)
  ultimately show ?thesis using tables cache S by (simp add: txn_inv_def gained_def)
qed

lemma add_parts_inv:
  assumes inv: "store_inv st" and live: "check_transaction_alive K st = Inr u" and order: "\<And>ps. set (order ps) = set ps"
    and xs: "\<And>x. x \<in> set xs \<Longrightarrow> placed sha C (snd x)" and run: "add_parts K iter order C xs st = (r, staged, st')"
  shows "store_inv (snd (settle staged (raise r) st'))"
proof -
  let ?t = "s_txn st" and ?T = "tbl (s_catalog st)" and ?L = "saved (s_catalog st)"
  define S0 where "S0 = arrays_in st"
  define b where "b = in_transaction st"
  define cache where "cache = (if b then shared_sets ?t else no_shared_sets)"
  define t1 where "t1 = (if b then ?t\<lparr>shared_sets := no_shared_sets\<rparr> else ?t)"
  define st1 where "st1 = (if b then invalidate_shared_sets st else st)"
  have L: "b \<Longrightarrow> ?L \<noteq> []" and out: "\<not> b \<Longrightarrow> ?L = [] \<and> ?t = no_txn"
    using alive(1) [OF inv live] alive(2) [OF inv live] by (auto simp: b_def in_transaction_def)
  have st1: "s_txn st1 = t1" "s_catalog st1 = s_catalog st" by (simp_all add: st1_def t1_def invalidate_shared_sets_def)
  have S0: "store_ok S0" "\<And>col. stored_objects S0 col = stored_objects (s_arrays st) col"
      "buffered_arrays S0 = buffered_arrays (s_arrays st)"
    using inv by (simp_all add: S0_def arrays_in_same txn_inv_def del: stored_objects.simps)
  have inv0: "txn_inv sha C {} ?T ?L ?t S0"
    using inv S0 by (simp add: txn_inv_def refs_stored_def cache_true_def del: stored_objects.simps)
  have inv1: "txn_inv sha C {} ?T ?L t1 S0"
    using inv0 L cache_true_none by (auto simp: t1_def b_def in_transaction_def txn_inv_def marks_ok_def levels_apart_def since_def)
  have cache: "ss_timestamps cache \<subseteq> stored_objects S0 TimestampsHash"
      "ss_features cache \<subseteq> insert (features_hash sha []) (t_sets ?T)"
    using inv0 L by (auto simp: cache_def txn_inv_def cache_true_def no_shared_sets_def simp del: stored_objects.simps)
  obtain r1 c1 f s where stage: "stage_axes C (map snd xs) cache no_objects (as_backend S0) = (r1, c1, f, s)" by (metis prod_cases4)
  note axes = stage_axes_gained [OF stage gained_start [OF S0(1)]]
  define S1 where "S1 = S0\<lparr>as_backend := s\<rparr>"
  obtain y f' S' where put: "(if b then put_each iter xs else put_grouped iter order xs) f S1 = (y, f', S')" by (metis prod_cases3)
  have "gained S0 f' S' \<and> (y = Inr () \<longrightarrow> (\<forall>x \<in> set xs. p_hash (snd x) \<in> stored_objects S' DataHash)) \<and>
      memory_backend.timestamps (as_backend S') = memory_backend.timestamps (as_backend S1)"
  proof (cases b)
    case True
    then show ?thesis using put_each_gained [of iter xs f S1 y f' S' S0] put axes by (simp add: S1_def)
  next
    case False
    have none: "buffered_arrays S0 = {}" using inv0 out [OF False] by (simp add: txn_inv_def no_txn_def no_objects_def)
    have "wb_get (as_buffer S0) h = None" for h
      using none wb_contains_get [of "as_buffer S0" h] S0(1) by (auto simp: buffered_arrays_def store_ok_def)
    then have "wb_get (as_buffer S0) = Map.empty" by (rule ext)
    then show ?thesis
      using put_grouped_gained [of iter order xs f S1 y f' S' S0] put axes False order
      by (simp add: S1_def S0_def arrays_in_def b_def)
  qed
  then have S': "gained S0 f' S'" and arrs: "y = Inr () \<Longrightarrow> x \<in> set xs \<Longrightarrow> p_hash (snd x) \<in> stored_objects S' DataHash"
    and same: "stored_objects S' TimestampsHash = dom (memory_backend.timestamps s)" for x
    by (simp_all add: S1_def del: stored_objects.simps(1))
  have settled: "snd (settle staged (Inl (Raised e)) (st1\<lparr>s_arrays := S', s_catalog := k\<rparr>)) =
      st1\<lparr>s_arrays := remove_writes staged S', s_catalog := k\<rparr>" for staged e k and S' :: array_store
    by (simp add: settle_def)
  have failed: "store_inv (snd (settle f' (Inl (Raised e)) (st1\<lparr>s_arrays := S', s_catalog := k\<rparr>)))"
    if "saved k = ?L \<and> t_rows (tbl k) = t_rows ?T \<and> t_sets ?T \<subseteq> t_sets (tbl k) \<or> saved k = [] \<and> tbl k = last (?T # ?L)" for k e
    unfolding settled using failed_add_inv [OF inv1 S' _ that] out by (auto simp: st1 t1_def)
  show ?thesis
  proof (cases y)
    case (Inl e)
    then have "r = Inl e" "staged = f'" "st' = st1\<lparr>s_arrays := S', s_catalog := s_catalog st\<rparr>"
      using run stage axes put
      by (auto simp: add_parts_def Let_def S0_def [symmetric] cache_def b_def S1_def st1_def invalidate_shared_sets_def)
    then show ?thesis using failed [of "s_catalog st" e] by simp
  next
    case (Inr v)
    obtain z k where ins: "insert_batch K (\<not> b) (map (p_meta \<circ> snd) xs) c1 (s_catalog st) = (z, k)" by fastforce
    note i = insert_batch_cases [OF ins]
    show ?thesis
    proof (cases z)
      case (Inl e)
      then have "r = Inl e" "staged = f'" "st' = st1\<lparr>s_arrays := S', s_catalog := k\<rparr>"
        using run stage axes put \<open>y = Inr v\<close> ins
        by (auto simp: add_parts_def Let_def S0_def [symmetric] cache_def b_def S1_def st1_def)
      then show ?thesis using failed [of k e] i Inl by simp
    next
      case (Inr w)
      then obtain ids c2 where w: "z = Inr (ids, c2)" by (cases w) simp
      have res: "r = Inr ids" "staged = f'"
          "st' = st1\<lparr>s_arrays := S', s_catalog := k, s_txn := (if b then t1\<lparr>shared_sets := c2\<rparr> else t1)\<rparr>"
        using run stage axes put \<open>y = Inr v\<close> ins w
        by (auto simp: add_parts_def Let_def S0_def [symmetric] cache_def b_def S1_def st1_def t1_def invalidate_shared_sets_def)
      have k: "saved k = ?L" "t_rows (tbl k) = t_rows ?T @ map (\<lambda>(m, i). m\<lparr>m_id := Some i\<rparr>) (zip (map p_meta (map snd xs)) ids)"
          "t_sets ?T \<subseteq> t_sets (tbl k)" "ss_timestamps c2 = ss_timestamps c1"
        using i w by simp_all
      have "ss_features c1 \<subseteq> insert (features_hash sha []) (t_sets ?T)" using axes cache(2) by simp
      then have sets: "ss_features c2 \<subseteq> insert (features_hash sha []) (t_sets (tbl k))"
          "p \<in> set (map snd xs) \<Longrightarrow> features_hash sha (m_features (p_meta p)) \<in> insert (features_hash sha []) (t_sets (tbl k))" for p
        using i w by auto
      have refs: "row_refs sha C col ((p_meta p)\<lparr>m_id := Some i\<rparr>) \<subseteq> stored_objects S' col" if mem: "p \<in> set (map snd xs)" for p i col
      proof (rule placed_refs)
        obtain q where "q \<in> set xs" "p = snd q" using mem by auto
        then show "placed sha C p" "p_hash p \<in> stored_objects S' DataHash"
          using xs arrs [of q] \<open>y = Inr v\<close> by (simp_all del: stored_objects.simps)
        show "h \<in> stored_objects S' TimestampsHash" if "p_group p = Irregular h" "m_timestamps (p_meta p) \<noteq> None" for h
          using axes cache(1) that mem unfolding same by auto
      qed
      have tables: "refs_stored sha C S' t'" if "t' \<in> set (tbl k # ?L)" for t'
        using added_tables [OF inv1 S' k(2,3) sets(2) refs that] by blast
      show ?thesis
      proof (cases b)
        case True
        have "cache_true sha (tbl k) S' c2"
          using axes cache(1) k(4) sets(1) unfolding cache_true_def same by simp
        from added_txn [OF inv1 S' L [OF True] tables this]
        show ?thesis using True res k(1) by (simp add: settle_def in_transaction_def st1 t1_def b_def)
      next
        case False
        have "as_buffer S' = as_buffer S0" using S' False by (simp add: gained_def S0_def arrays_in_def b_def)
        then have "buffered_arrays S' = {}"
          using inv0 out [OF False] by (simp add: txn_inv_def buffered_arrays_def no_txn_def no_objects_def)
        then have "txn_inv sha C {} (tbl k) [] no_txn S'"
          using tables S' by (simp add: txn_inv_def gained_def marks_ok_no_txn levels_apart_no_txn del: stored_objects.simps)
        then show ?thesis
          using False res k(1) out [OF False] by (simp add: settle_def in_transaction_def t1_def no_txn_def)
      qed
    qed
  qed
qed

lemma add_inv:
  assumes inv: "store_inv st" and order: "\<And>ps. set (order ps) = set ps" and run: "add_requests K iter order sha C items st = (r, st')"
  shows "store_inv st'"
proof -
  have none: "snd (settle no_objects r st) = st" for r :: "ts_error failure + int list"
    by (cases r; cases st)
      (auto simp: settle_def fo_append_def no_objects_def remove_writes_def split: failure.split)
  obtain q staged st1 where one: "add_requests_staged K iter order sha C items st = (q, staged, st1)" by (metis prod_cases3)
  have st': "st' = snd (settle staged q st1)" using run one by (cases "settle staged q st1") (simp add: add_requests_def)
  consider "staged = no_objects" "st1 = st" |
    parts u x where "check_transaction_alive K st = Inr u" "rmap_all (build_request_parts sha C) items = Inr parts"
      "add_parts K iter order C (zip (map (data_array \<circ> r_data) items) parts) st = (x, staged, st1)" "q = raise x"
    using one by (auto simp: add_requests_staged_def split: if_splits sum.splits prod.splits)
  then show ?thesis
  proof cases
    case 1
    then show ?thesis using inv none st' by simp
  next
    case 2
    have "placed sha C (snd x)" if "x \<in> set (zip (map (data_array \<circ> r_data) items) parts)" for x
    proof -
      have "snd x \<in> set parts" using that by (metis prod.collapse set_zip_rightD)
      then show ?thesis
        using 2(2) build_request_parts_placed unfolding rmap_all_Inr_iff list_all2_conv_all_nth by (metis in_set_conv_nth)
    qed
    from add_parts_inv [OF inv 2(1) order this 2(3)] show ?thesis using 2(4) st' by simp
  qed
qed

section \<open>Removing\<close>

lemma sorted_list_subset: "set (sorted_list_of_set A) \<subseteq> A"
  by (cases "finite A") auto

lemma tame_delete_ids: "tame tbl saved (delete_ids K owner seen ids)"
proof (induction ids arbitrary: seen)
  case (Cons i ids)
  have "tame tbl saved (case found of None \<Rightarrow> cerr NotFound
      | Some row \<Rightarrow> cbind (delete_ids K owner (insert i seen) ids) (\<lambda>rows. cret (row # rows)))" for found
    by (cases found) (auto intro!: tame_rules Cons.IH)
  then show ?case using Cons.IH by (simp add: tame_cbind tame_delete)
qed (simp add: tame_rules)

lemma tame_no_orphaned_dst: "tame tbl saved (check_no_orphaned_dst K rows)"
proof -
  have "tame tbl saved (orphaned_dst_loop K seen rows)" for seen
    by (induction rows arbitrary: seen) (auto intro!: tame_rules)
  then show ?thesis by (simp add: check_no_orphaned_dst_def)
qed

lemma delete_ids_Inr:
  assumes "delete_ids K owner seen ids k = (Inr rows, k')"
  shows "set (t_rows (tbl k')) \<subseteq> set (t_rows (tbl k)) \<and> t_sets (tbl k') = t_sets (tbl k)"
  using assms
proof (induction ids arbitrary: seen k rows)
  case (Cons i ids)
  show ?case
  proof (cases "i \<in> seen")
    case False
    obtain row k1 where del: "c_delete K i owner k = (Inr (Some row), k1)"
      using Cons.prems False by (auto simp: cbind_def cerr_def split: prod.splits sum.splits option.splits)
    obtain rows' where "delete_ids K owner (insert i seen) ids k1 = (Inr rows', k')"
      using Cons.prems False del by (auto simp: cbind_def cret_def split: prod.splits sum.splits)
    from Cons.IH [OF this] show ?thesis using delete_Some [OF del] by auto
  qed (use Cons in simp)
qed (simp add: cret_def)

lemma no_orphaned_dst_Inr:
  assumes "check_no_orphaned_dst K rows k = (Inr u, k')"
  shows "tbl k' = tbl k"
proof -
  have "tbl k' = tbl k" if "orphaned_dst_loop K seen rows k = (Inr u, k')" for seen rows k
    using that
  proof (induction rows arbitrary: seen k)
    case (Cons row rows)
    show ?case
    proof (cases "family_of row \<in> seen")
      case False
      obtain d k1 where one: "c_family_holds K row DeterministicSingleTimeSeries k = (Inr d, k1)"
        using Cons.prems False by (auto simp: cbind_def split: prod.splits sum.splits)
      obtain e k2 where two: "(if d then c_family_holds K row SingleTimeSeries else cret True) k1 = (Inr e, k2)"
        using Cons.prems False one by (auto simp: cbind_def split: prod.splits sum.splits)
      have "orphaned_dst_loop K (insert (family_of row) seen) rows k2 = (Inr u, k')"
        using Cons.prems False one two by (auto simp: cbind_def cerr_def split: if_splits)
      moreover have "tbl k2 = tbl k1" using two family_holds_Inr by (auto simp: cret_def split: if_splits)
      ultimately show ?thesis using Cons.IH family_holds_Inr [OF one] by simp
    qed (use Cons in simp)
  qed (simp add: cret_def)
  then show ?thesis using assms by (simp add: check_no_orphaned_dst_def)
qed

lemma remove_inv:
  assumes inv: "store_inv st" and run: "remove_by_ids_inner K ids owner st = (r, st')"
  shows "store_inv st'"
proof -
  define f where "f = cbind (delete_ids K owner {} ids) (\<lambda>rows.
      cbind (check_no_orphaned_dst K (filter (\<lambda>r. d_type r = SingleTimeSeries) rows)) (\<lambda>_.
      cbind (unreferenced_in K (map d_data_hash rows) DataHash) (\<lambda>as.
        cret (length rows, \<lparr>fo_arrays = as, fo_timestamps = []\<rparr>))))"
  have tame: "tame tbl saved f"
    unfolding f_def by (intro tame_rules tame_delete_ids tame_no_orphaned_dst tame_unreferenced_in)
  define P where "P a T \<longleftrightarrow> (\<forall>col. set (objects (snd a) col) \<inter> table_refs sha C T col = {})" for a :: "nat \<times> file_objects" and T
  obtain x st1 where w: "write_catalog K f st = (x, st1)" by fastforce
  have keep: "set (t_rows (tbl k')) \<subseteq> set (t_rows (tbl (s_catalog st))) \<and>
      (t_sets (tbl k') = t_sets (tbl (s_catalog st)) \<or> t_rows (tbl k') = [] \<and> shared_sets (s_txn st) = no_shared_sets) \<and> P a (tbl k')"
    if f: "f k = (Inr a, k')" and k: "tbl k = tbl (s_catalog st)" for k a k'
  proof -
    obtain rows k1 where one: "delete_ids K owner {} ids k = (Inr rows, k1)"
      using f by (auto simp: f_def cbind_def split: prod.splits sum.splits)
    obtain u k2 where two: "check_no_orphaned_dst K (filter (\<lambda>r. d_type r = SingleTimeSeries) rows) k1 = (Inr u, k2)"
      using f one by (auto simp: f_def cbind_def split: prod.splits sum.splits)
    obtain as where three: "unreferenced_in K (map d_data_hash rows) DataHash k2 = (Inr as, k')"
      and a: "a = (length rows, \<lparr>fo_arrays = as, fo_timestamps = []\<rparr>)"
      using f one two by (auto simp: f_def cbind_def cret_def split: prod.splits sum.splits)
    note gone = unreferenced_loop_cases [OF three [unfolded unreferenced_in_def], simplified]
    have "set (objects (snd a) col) \<inter> table_refs sha C (tbl k') col = {}" for col using gone by (cases col) (auto simp: a)
    then show ?thesis using delete_ids_Inr [OF one] no_orphaned_dst_Inr [OF two] gone k by (auto simp: P_def)
  qed
  have c: "store_inv st1" "s_txn st1 = s_txn st"
    by (rule write_catalog_inv(1,2) [OF inv tame w, of P], erule (1) keep)+
  have wrote: "P a (tbl (s_catalog st1)) \<and> (in_transaction st \<or> saved (s_catalog st1) = [] \<and> s_txn st = no_txn)" if "x = Inr a" for a
    by (rule write_catalog_inv(4) [OF inv tame w _ that], erule (1) keep)
  show ?thesis
  proof (cases x)
    case (Inl e)
    then show ?thesis using run w c(1) by (simp add: remove_by_ids_inner_def f_def)
  next
    case (Inr a)
    then have "st' = free_or_defer (snd a) st1" using run w by (cases a) (simp add: remove_by_ids_inner_def f_def)
    moreover have "in_transaction st1 = in_transaction st" using c(2) by (simp add: in_transaction_def)
    ultimately show ?thesis using free_or_defer_inv [OF c(1), of "snd a"] wrote [OF Inr]
      by (auto simp: P_def)
  qed
qed

lemma clear_inv:
  assumes inv: "store_inv st" and run: "clear_time_series K owner st = (r, st')"
  shows "store_inv st'"
proof -
  define st0 where "st0 = invalidate_shared_sets st"
  have inv0: "store_inv st0"
    using inv cache_true_none
    by (auto simp: st0_def invalidate_shared_sets_def txn_inv_def marks_ok_def no_txn_def levels_apart_def since_def)
  have none: "shared_sets (s_txn st0) = no_shared_sets" by (simp add: st0_def invalidate_shared_sets_def)
  define f where "f = cbind (c_delete_all K owner) (\<lambda>removed.
      cbind (unreferenced_in K removed DataHash) (\<lambda>as. cret (length removed, as)))"
  have tame: "tame tbl saved f" unfolding f_def by (intro tame_rules tame_unreferenced_in)
  define P where "P a T \<longleftrightarrow> set (snd a) \<inter> table_refs sha C T DataHash = {}" for a :: "nat \<times> hash list" and T
  obtain x st1 where w: "write_catalog K f st0 = (x, st1)" by fastforce
  have keep: "set (t_rows (tbl k')) \<subseteq> set (t_rows (tbl (s_catalog st0))) \<and>
      (t_sets (tbl k') = t_sets (tbl (s_catalog st0)) \<or> t_rows (tbl k') = [] \<and> shared_sets (s_txn st0) = no_shared_sets) \<and> P a (tbl k')"
    if f: "f k = (Inr a, k')" and k: "tbl k = tbl (s_catalog st0)" for k a k'
  proof -
    obtain removed k1 where one: "c_delete_all K owner k = (Inr removed, k1)"
      using f by (auto simp: f_def cbind_def split: prod.splits sum.splits)
    obtain as where two: "unreferenced_in K removed DataHash k1 = (Inr as, k')" and a: "a = (length removed, as)"
      using f one by (auto simp: f_def cbind_def cret_def split: prod.splits sum.splits)
    note gone = unreferenced_loop_cases [OF two [unfolded unreferenced_in_def], simplified]
    have "set (snd a) \<inter> table_refs sha C (tbl k') DataHash = {}" using gone by (auto simp: a)
    then show ?thesis using delete_all_Inr [OF one] gone k none by (auto simp: P_def)
  qed
  have c: "store_inv st1" "s_txn st1 = s_txn st0"
    by (rule write_catalog_inv(1,2) [OF inv0 tame w, of P], erule (1) keep)+
  have wrote: "P a (tbl (s_catalog st1)) \<and> (in_transaction st0 \<or> saved (s_catalog st1) = [] \<and> s_txn st0 = no_txn)" if "x = Inr a" for a
    by (rule write_catalog_inv(4) [OF inv0 tame w _ that], erule (1) keep)
  show ?thesis
  proof (cases x)
    case (Inl e)
    then show ?thesis using run w c(1) by (simp add: clear_time_series_def Let_def f_def st0_def)
  next
    case (Inr a)
    obtain swept k where sw: "orphaned_timestamp_vectors K (as_backend (s_arrays st1)) (s_catalog st1) = (swept, k)" by fastforce
    define st2 where "st2 = st1\<lparr>s_catalog := k\<rparr>"
    define g where "g = \<lparr>fo_arrays = snd a, fo_timestamps = (case swept of Inl _ \<Rightarrow> [] | Inr hs \<Rightarrow> hs)\<rparr>"
    have k: "fell tbl saved (s_catalog st1) k \<and>
        (\<forall>hs. swept = Inr hs \<longrightarrow> tbl k = tbl (s_catalog st1) \<and> set hs \<inter> table_refs sha C (tbl k) TimestampsHash = {})"
    proof -
      obtain q k1 where ax: "c_referenced_axes K (s_catalog st1) = (q, k1)" by fastforce
      show ?thesis
      proof (cases q)
        case (Inl e)
        then show ?thesis using sw ax referenced_axes_Inl by (auto simp: orphaned_timestamp_vectors_def cbind_def)
      next
        case (Inr ap)
        obtain axes problems where "ap = (axes, problems)" by (cases ap)
        then show ?thesis using sw ax Inr referenced_axes_Inr [of "s_catalog st1" axes problems k1]
          by (auto simp: orphaned_timestamp_vectors_def cbind_def cerr_def fell_def mem_timestamp_hashes_def rbind_def
              split: if_splits dest!: subsetD [OF sorted_list_subset])
      qed
    qed
    have inv2: "store_inv st2" using inv_fell [OF c(1)] k by (simp add: st2_def)
    show ?thesis
    proof (cases "check_transaction_alive K st2")
      case (Inl e)
      then have "st' = st2" using run w \<open>x = Inr a\<close> sw
        by (cases a) (simp add: clear_time_series_def Let_def f_def st0_def st2_def)
      then show ?thesis using inv2 by simp
    next
      case (Inr u)
      then have "st' = free_or_defer g st2" using run w \<open>x = Inr a\<close> sw
        by (cases a) (simp add: clear_time_series_def Let_def f_def st0_def st2_def g_def)
      moreover have "store_inv (free_or_defer g st2)"
      proof (rule free_or_defer_inv [OF inv2])
        have in_txn: "in_transaction st2 = in_transaction st0" using c(2) by (simp add: in_transaction_def st2_def)
        show "saved (s_catalog st2) = []" if "\<not> in_transaction st2"
          using that wrote [OF \<open>x = Inr a\<close>] k in_txn by (auto simp: st2_def fell_def)
        have "tbl k = tbl (s_catalog st1)"
        proof (cases "in_transaction st2")
          case True
          then have "saved k \<noteq> []" using Inr
            by (auto simp: check_transaction_alive_def transaction_was_forced_back_def autocommit st2_def split: if_splits)
          then show ?thesis using k by (auto simp: fell_def)
        next
          case False
          then show ?thesis using wrote [OF \<open>x = Inr a\<close>] k in_txn by (auto simp: fell_def)
        qed
        then show "set (objects g col) \<inter> table_refs sha C (tbl (s_catalog st2)) col = {}" for col
          using wrote [OF \<open>x = Inr a\<close>] k by (cases col) (auto simp: g_def st2_def P_def split: sum.splits)
      qed
      ultimately show ?thesis by simp
    qed
  qed
qed

end

end
