(* ===== verification/TxnContents.thy ===== *)
theory TxnContents
  imports TxnWrites
begin

text \<open>
  What the calls on a store do to the contents of its arrays: no array is ever replaced, and the only
  new ones are those of the requests being added, under the hash of their bytes.
\<close>

definition drawn_from :: "(hash \<times> typed_array) set \<Rightarrow> array_store \<Rightarrow> array_store \<Rightarrow> bool" where
  "drawn_from A S S' \<longleftrightarrow>
     (\<forall>h a. arrays (view S') h = Some a \<longrightarrow> arrays (view S) h = Some a \<or> (h, a) \<in> A)"

lemma drawn_refl: "drawn_from A S S"
  by (simp add: drawn_from_def)

lemma drawn_trans: "drawn_from A S S1 \<Longrightarrow> drawn_from A S1 S2 \<Longrightarrow> drawn_from A S S2"
  unfolding drawn_from_def by blast

lemma drawn_mono: "drawn_from A S S' \<Longrightarrow> A \<subseteq> B \<Longrightarrow> drawn_from B S S'"
  unfolding drawn_from_def by blast

lemma drawn_same: "arrays (view S') = arrays (view S) \<Longrightarrow> drawn_from A S S'"
  by (simp add: drawn_from_def)

lemma drawn_removed: "store_ok S \<Longrightarrow> drawn_from A S (remove_writes f S)"
  by (auto simp: drawn_from_def remove_writes_objects(2) restrict_map_def split: if_splits)

section \<open>Unwinding and writing out\<close>

lemma drawn_dropped:
  assumes ok: "store_ok S" and drop: "drop_buffered hs (as_buffer S) = (rest, W)"
  shows "store_ok (S\<lparr>as_buffer := W\<rparr>)" "drawn_from A S (S\<lparr>as_buffer := W\<rparr>)"
proof -
  have W: "wb_inv W" "wb_get W = wb_get (as_buffer S) |` (- set hs)"
    using drop_buffered_props [OF _ drop] ok by (simp_all add: store_ok_def)
  show "store_ok (S\<lparr>as_buffer := W\<rparr>)"
    using ok W by (auto simp: store_ok_def apart_def restrict_map_def split: if_splits)
  have "wb_get (as_buffer S) h = None \<or> arrays (as_backend S) h = None" for h using ok by (auto simp: store_ok_def apart_def)
  then show "drawn_from A S (S\<lparr>as_buffer := W\<rparr>)"
    by (auto simp: drawn_from_def view_arrays contents_def W(2) restrict_map_def split: option.splits if_splits) (metis option.distinct(1))
qed

lemma drawn_unwound:
  assumes "store_ok (s_arrays st)"
  shows "drawn_from A (s_arrays st) (s_arrays (unwind_written K f st))"
proof -
  obtain rest W where drop: "drop_buffered (fo_arrays f) (as_buffer (s_arrays st)) = (rest, W)" by fastforce
  note d = drawn_dropped [OF assms drop]
  show ?thesis
    using d(2) drawn_trans [OF d(2) drawn_removed [OF d(1)]] drop
    by (auto simp: unwind_written_def Let_def split: prod.splits sum.splits)
qed

lemma drawn_freed: "store_ok (s_arrays st) \<Longrightarrow> drawn_from A (s_arrays st) (s_arrays (free_or_defer g st))"
  by (simp add: free_or_defer_def drawn_refl drawn_removed)

section \<open>Writing\<close>

lemma drawn_staged:
  assumes "put_staged iter x f S = (r, f', S')" "store_ok S" "(p_hash (snd x), fst x) \<in> A"
  shows "store_ok S'" "drawn_from A S S'"
proof -
  obtain y where y: "store_put_array iter S (p_hash (snd x)) (fst x) (p_group (snd x)) (p_layout (snd x)) = (y, S')"
    using assms(1) by (auto simp: put_staged_def split: sum.splits prod.splits)
  show "store_ok S'" by (rule store_put_view(1) [OF assms(2) y])
  show "drawn_from A S S'"
    using store_put_view(2,3) [OF assms(2) y] assms(3) by (cases y) (auto simp: drawn_from_def split: if_splits)
qed

lemma drawn_each:
  assumes "put_each iter xs f S = (r, f', S')" "store_ok S" "\<And>x. x \<in> set xs \<Longrightarrow> (p_hash (snd x), fst x) \<in> A"
  shows "drawn_from A S S'"
  using assms
proof (induction xs arbitrary: f S)
  case (Cons x xs)
  obtain y f1 S1 where one: "put_staged iter x f S = (y, f1, S1)" by (metis prod_cases3)
  have "(p_hash (snd x), fst x) \<in> A" using Cons.prems(3) by simp
  note d = drawn_staged [OF one Cons.prems(2) this]
  show ?case
  proof (cases y)
    case (Inr u)
    then have "drawn_from A S1 S'" using Cons.IH [of f1 S1] Cons.prems one d(1) by simp
    then show ?thesis by (rule drawn_trans [OF d(2)])
  qed (use Cons.prems one d in auto)
qed (simp add: drawn_refl)

definition parts_in :: "pools \<Rightarrow> (hash \<times> typed_array) set" where
  "parts_in pools = (\<Union>(key, xs) \<in> set pools. (\<lambda>x. (p_hash (snd x), fst x)) ` set xs)"

lemma parts_in_push: "parts_in (push_pool key x pools) \<subseteq> insert (p_hash (snd x), fst x) (parts_in pools)"
proof -
  have "parts_in (map (\<lambda>(k, xs). if k = key then (k, xs @ [x]) else (k, xs)) pools) \<subseteq> insert (p_hash (snd x), fst x) (parts_in pools)"
  proof (induction pools)
    case (Cons pool pools)
    obtain k ys where pool: "pool = (k, ys)" by (cases pool)
    have Cons': "parts_in ((k, ys) # rest) = (\<lambda>x. (p_hash (snd x), fst x)) ` set ys \<union> parts_in rest" for k ys rest
      by (simp add: parts_in_def)
    show ?case using Cons.IH by (cases "k = key") (auto simp: pool Cons')
  qed (simp add: parts_in_def)
  moreover have "parts_in (pools @ [(key, [x])]) = insert (p_hash (snd x), fst x) (parts_in pools)"
    by (simp add: parts_in_def)
  ultimately show ?thesis by (auto simp: push_pool_def split: option.splits)
qed

lemma drawn_group:
  assumes "group_parts iter xs seen pools f S = (r, f', S')" "store_ok S" "\<And>x. x \<in> set xs \<Longrightarrow> (p_hash (snd x), fst x) \<in> A"
    "parts_in pools \<subseteq> A"
  shows "store_ok S' \<and> drawn_from A S S' \<and> (\<forall>pools'. r = Inr pools' \<longrightarrow> parts_in pools' \<subseteq> A)"
  using assms
proof (induction xs arbitrary: seen pools f S)
  case (Cons x xs)
  let ?h = "p_hash (snd x)"
  have x: "(?h, fst x) \<in> A" using Cons.prems(3) by simp
  consider "?h \<in> seen" | "?h \<notin> seen" "is_packed (p_layout (snd x))" | "?h \<notin> seen" "\<not> is_packed (p_layout (snd x))" by blast
  then show ?case
  proof cases
    case 1
    then show ?thesis using Cons.IH [of seen pools f S] Cons.prems by simp
  next
    case 2
    have "parts_in (push_pool (pool_key (fst x) (p_group (snd x))) x pools) \<subseteq> A"
      using parts_in_push x Cons.prems(4) by blast
    then show ?thesis
      using Cons.IH [of "insert ?h seen" "push_pool (pool_key (fst x) (p_group (snd x))) x pools" f S] Cons.prems 2 by simp
  next
    case 3
    obtain y f1 S1 where one: "put_staged iter x f S = (y, f1, S1)" by (metis prod_cases3)
    note d = drawn_staged [OF one Cons.prems(2) x]
    show ?thesis
    proof (cases y)
      case (Inr u)
      then have "group_parts iter xs (insert ?h seen) pools f1 S1 = (r, f', S')" using Cons.prems(1) 3 one by simp
      from Cons.IH [OF this d(1)] show ?thesis using Cons.prems(3,4) drawn_trans [OF d(2)] by simp
    qed (use Cons.prems 3 one d in auto)
  qed
qed (auto simp: drawn_refl)

lemma drawn_pools:
  assumes "write_pools pools f (as_backend S) = (r, f', s')" "store_ok S" "wb_get (as_buffer S) = Map.empty" "parts_in pools \<subseteq> A"
  shows "drawn_from A S (S\<lparr>as_backend := s'\<rparr>)"
  using assms
proof (induction pools arbitrary: f S)
  case (Cons pool pools)
  obtain key xs where pool: "pool = (key, xs)" by (cases pool)
  obtain flags s1 where put: "put_block mem_ops (as_backend S) (block_of xs) (key_group key) = (Inr flags, s1)"
    using put_block_mem_Inr by blast
  define S1 where "S1 = S\<lparr>as_backend := s1\<rparr>"
  have A: "(\<lambda>x. (p_hash (snd x), fst x)) ` set xs \<subseteq> A" "parts_in pools \<subseteq> A" using Cons.prems(4) by (simp_all add: parts_in_def pool)
  have "arrays s1 = add_new (arrays (as_backend S)) (block_of xs)" by (rule mem_store.put_block_ok [OF put])
  then have "arrays (as_backend S) h = Some a \<or> (h, a) \<in> set (block_of xs)" if "arrays s1 h = Some a" for h a
    using that by (auto simp: add_new_lookup split: option.splits dest: map_of_SomeD)
  moreover have "set (block_of xs) \<subseteq> A" using A(1) by (auto simp: block_of_def)
  ultimately have d: "drawn_from A S S1"
    using Cons.prems(3) by (auto simp: drawn_from_def S1_def view_arrays contents_def)
  have "store_ok S1" using Cons.prems(2,3) by (simp add: store_ok_def S1_def apart_def)
  moreover have "write_pools pools (f\<lparr>fo_arrays := fo_arrays f @ flagged (map fst (block_of xs)) flags\<rparr>) (as_backend S1) = (r, f', s')"
    using Cons.prems(1) put by (simp add: pool S1_def)
  moreover have "wb_get (as_buffer S1) = Map.empty" using Cons.prems(3) by (simp add: S1_def)
  ultimately have "drawn_from A S1 (S1\<lparr>as_backend := s'\<rparr>)" using Cons.IH A(2) by blast
  then show ?case using drawn_trans [OF d] by (simp add: S1_def)
next
  case Nil
  then show ?case by (cases S) (simp add: drawn_refl)
qed

lemma drawn_grouped:
  assumes run: "put_grouped iter order xs f S = (r, f', S')" and S: "gained S0 f S"
    and out: "\<not> as_in_transaction S0" "wb_get (as_buffer S0) = Map.empty"
    and xs: "\<And>x. x \<in> set xs \<Longrightarrow> (p_hash (snd x), fst x) \<in> A" and order: "\<And>ps. set (order ps) = set ps"
  shows "drawn_from A S S'"
proof -
  obtain y f1 S1 where grp: "group_parts iter xs {} [] f S = (y, f1, S1)" by (metis prod_cases3)
  have g: "store_ok S1 \<and> drawn_from A S S1 \<and> (\<forall>pools. y = Inr pools \<longrightarrow> parts_in pools \<subseteq> A)"
    by (rule drawn_group [OF grp _ xs]) (use S in \<open>simp_all add: parts_in_def gained_def\<close>)
  show ?thesis
  proof (cases y)
    case (Inl e)
    then show ?thesis using run grp g by (auto simp: put_grouped_def)
  next
    case (Inr pools)
    obtain z s' where w: "write_pools (order pools) f1 (as_backend S1) = (z, f', s')" and S': "S' = S1\<lparr>as_backend := s'\<rparr>"
      using run grp Inr by (auto simp: put_grouped_def split: prod.splits)
    have "parts_in (order pools) \<subseteq> A" using g Inr order by (simp add: parts_in_def)
    moreover have "wb_get (as_buffer S1) = Map.empty"
      using group_parts_gained [OF grp S] out by (auto simp: gained_def)
    ultimately have "drawn_from A S1 S'" using drawn_pools [OF w] g S' by simp
    then show ?thesis using g drawn_trans by blast
  qed
qed

section \<open>The calls\<close>

definition request_arrays :: "(byte list \<Rightarrow> hash) \<Rightarrow> (hash \<times> typed_array) set" where
  "request_arrays sha = {(h, a). array_hash sha a = h}"

context catalog_laws
begin

lemma drawn_arrays_in: "drawn_from A (s_arrays st) (arrays_in st)"
  by (rule drawn_same) (simp add: arrays_in_def view_def)

lemma add_parts_drawn:
  assumes inv: "store_inv st" and live: "check_transaction_alive K st = Inr u" and order: "\<And>ps. set (order ps) = set ps"
    and xs: "\<And>x. x \<in> set xs \<Longrightarrow> (p_hash (snd x), fst x) \<in> A" and run: "add_parts K iter order C xs st = (r, staged, st')"
  shows "store_ok (s_arrays st') \<and> drawn_from A (s_arrays st) (s_arrays st')"
proof -
  define S0 where "S0 = arrays_in st"
  define b where "b = in_transaction st"
  define cache where "cache = (if b then shared_sets (s_txn st) else no_shared_sets)"
  have S0: "store_ok S0" using inv by (simp add: S0_def arrays_in_same txn_inv_def)
  obtain r1 c1 f s where stage: "stage_axes C (map snd xs) cache no_objects (as_backend S0) = (r1, c1, f, s)" by (metis prod_cases4)
  note axes = stage_axes_gained [OF stage gained_start [OF S0]]
  define S1 where "S1 = S0\<lparr>as_backend := s\<rparr>"
  obtain y f' S' where put: "(if b then put_each iter xs else put_grouped iter order xs) f S1 = (y, f', S')" by (metis prod_cases3)
  have same: "arrays s = arrays (as_backend S0)"
  proof -
    have "stage_axes C ps seen f s0 = (r, seen', f', s1) \<Longrightarrow> arrays s1 = arrays s0" for ps seen f s0 r seen' f' s1
      by (induction ps arbitrary: seen f s0)
        (fastforce simp: stage_timestamp_vector_def note_timestamps_def mem_put_timestamps_def
          split: prod.splits sum.splits pack_group.splits option.splits bool.splits if_splits)+
    then show ?thesis using stage by blast
  qed
  have d1: "drawn_from A (s_arrays st) S1"
    using drawn_trans [OF drawn_arrays_in [of A st] drawn_same] change_axes(2) [OF same] by (simp add: S1_def S0_def)
  have S1: "gained S0 f S1" using axes by (simp add: S1_def)
  then have ok1: "store_ok S1" by (simp add: gained_def)
  have "store_ok S' \<and> drawn_from A S1 S'"
  proof (cases b)
    case True
    then show ?thesis using put drawn_each [of iter xs f S1 y f' S' A] put_each_gained [OF _ S1, of iter xs y f' S'] xs ok1
      by (simp add: gained_def)
  next
    case False
    then have out: "s_txn st = no_txn" using alive(2) [OF inv live] by (simp add: b_def)
    have "buffered_arrays S0 = {}" using inv out by (simp add: S0_def arrays_in_same txn_inv_def no_txn_def no_objects_def)
    then have "wb_get (as_buffer S0) h = None" for h
      using wb_contains_get [of "as_buffer S0" h] S0 by (auto simp: buffered_arrays_def store_ok_def)
    then have none: "wb_get (as_buffer S0) = Map.empty" by (rule ext)
    have off: "\<not> as_in_transaction S0" using False by (simp add: S0_def arrays_in_def b_def)
    have g: "put_grouped iter order xs f S1 = (y, f', S')" using put False by simp
    show ?thesis
      using put_grouped_gained [OF g S1 off none order] drawn_grouped [OF g S1 off none xs order] by (simp add: gained_def)
  qed
  moreover have "s_arrays st' = S'"
    using run stage axes put
    by (auto simp: add_parts_def Let_def S0_def [symmetric] cache_def b_def S1_def invalidate_shared_sets_def split: sum.splits prod.splits)
  ultimately show ?thesis using drawn_trans [OF d1] by simp
qed

lemma add_drawn:
  assumes inv: "store_inv st" and order: "\<And>ps. set (order ps) = set ps" and run: "add_requests K iter order sha C items st = (r, st')"
  shows "drawn_from (request_arrays sha) (s_arrays st) (s_arrays st')"
proof -
  let ?A = "request_arrays sha"
  have settled: "drawn_from ?A (s_arrays st) (s_arrays (snd (settle staged q st1)))"
    if "store_ok (s_arrays st1)" "drawn_from ?A (s_arrays st) (s_arrays st1)" for staged st1 and q :: "ts_error failure + int list"
    using that(2) drawn_trans [OF that(2) drawn_removed [OF that(1)]] by (auto simp: settle_def split: sum.splits failure.splits)
  obtain q staged st1 where one: "add_requests_staged K iter order sha C items st = (q, staged, st1)" by (metis prod_cases3)
  have st': "st' = snd (settle staged q st1)" using run one by (cases "settle staged q st1") (simp add: add_requests_def)
  consider "st1 = st" |
    parts u x where "check_transaction_alive K st = Inr u" "rmap_all (build_request_parts sha C) items = Inr parts"
      "add_parts K iter order C (zip (map (data_array \<circ> r_data) items) parts) st = (x, staged, st1)"
    using one by (auto simp: add_requests_staged_def split: if_splits sum.splits prod.splits)
  then show ?thesis
  proof cases
    case 1
    then show ?thesis using settled [of st1] inv st' drawn_refl by (simp add: txn_inv_def)
  next
    case 2
    have "(p_hash (snd x), fst x) \<in> ?A" if x: "x \<in> set (zip (map (data_array \<circ> r_data) items) parts)" for x
    proof -
      have each: "list_all2 (\<lambda>i p. build_request_parts sha C i = Inr p) items parts" using 2(2) by (simp add: rmap_all_Inr_iff)
      obtain n where n: "n < length items" "n < length parts" "x = (data_array (r_data (items ! n)), parts ! n)"
        using x by (auto simp: in_set_zip)
      then have "build_request_parts sha C (items ! n) = Inr (parts ! n)" using list_all2_nthD [OF each] by simp
      then show ?thesis using n(3) by (simp add: build_request_parts_Inr request_arrays_def)
    qed
    from add_parts_drawn [OF inv 2(1) order this 2(3)] show ?thesis unfolding st' by (intro settled) simp_all
  qed
qed

lemma commit_drawn:
  assumes inv: "store_inv st" and run: "commit_transaction K iter st = (r, st')"
  shows "drawn_from A (s_arrays st) (s_arrays st')"
proof -
  have ok: "store_ok (s_arrays st)" using inv by (simp add: txn_inv_def)
  have "drawn_from A (s_arrays st) S'" if "write_buffered iter g (s_arrays st) = (y, S')" for g y S'
    using write_buffered_objects(2) [OF ok that] by (rule drawn_same)
  moreover have "drawn_from A (s_arrays st) (remove_writes f S')" if "write_buffered iter g (s_arrays st) = (y, S')" for g y S' f
    using drawn_trans [OF drawn_same [OF write_buffered_objects(2) [OF ok that]] drawn_removed [OF write_buffered_objects(1) [OF ok that]]] .
  ultimately show ?thesis
    using run drawn_refl drawn_removed [OF ok]
    by (auto simp: commit_transaction_def commit_outermost_def split: sum.splits prod.splits if_splits)
qed

lemma rollback_drawn:
  assumes inv: "store_inv st" and run: "rollback_transaction K st = (r, st')"
  shows "drawn_from A (s_arrays st) (s_arrays st')"
proof -
  have ok: "store_ok (s_arrays st)" using inv by (simp add: txn_inv_def)
  have "drawn_from A (s_arrays st) (s_arrays (unwind_written K f (st\<lparr>s_catalog := k, s_txn := t\<rparr>)))"
    "drawn_from A (s_arrays st) (s_arrays (unwind_written K f (st\<lparr>s_txn := t\<rparr>)))" for f k t
    using drawn_unwound [of "st\<lparr>s_catalog := k, s_txn := t\<rparr>" A K f] drawn_unwound [of "st\<lparr>s_txn := t\<rparr>" A K f] ok by simp_all
  then show ?thesis
    using run drawn_refl
    by (auto simp: rollback_transaction_def Let_def split: sum.splits prod.splits if_splits)
qed

lemma removal_drawn:
  assumes inv: "store_inv st"
    and run: "remove_by_ids_inner K ids owner st = (r, st') \<or> clear_time_series K owner' st = (r', st')"
  shows "drawn_from A (s_arrays st) (s_arrays st')"
proof -
  have ok: "store_ok (s_arrays st)" using inv by (simp add: txn_inv_def)
  have w: "s_arrays st2 = s_arrays st1" if "write_catalog K f st1 = (x, st2)" for f :: "('k, 'x) catalog_call" and x st1 st2
    using that by (auto simp: write_catalog_def split: sum.splits prod.splits)
  have "drawn_from A (s_arrays st) (s_arrays (free_or_defer g st1))" if "s_arrays st1 = s_arrays st" for g st1
    using drawn_freed [of st1 A g] that ok by simp
  then show ?thesis
    using run drawn_refl
    by (auto simp: remove_by_ids_inner_def clear_time_series_def Let_def invalidate_shared_sets_def
        split: sum.splits prod.splits dest!: w)
qed

lemma begin_drawn: "begin_transaction K st = (r, st') \<Longrightarrow> s_arrays st' = s_arrays st"
  by (auto simp: begin_transaction_def split: sum.splits prod.splits)

end

end
