(* ===== verification/TxnReach.thy ===== *)
theory TxnReach
  imports TxnContents
begin

text \<open>
  A store from its creation on: the calls that change it as a step relation, the states they reach, and
  what holds in all of them. Inside an outermost transaction the first saved table stays the one the
  transaction began with, so rolling it back restores the rows.
\<close>

section \<open>Steps and reachable states\<close>

definition new_store :: "'k \<Rightarrow> bool \<Rightarrow> 'k store" where
  "new_store k read_only =
     \<lparr>s_arrays = \<lparr>as_buffer = wb_new, as_backend = memory_new, as_in_transaction = False\<rparr>,
      s_catalog = k, s_txn = no_txn, s_read_only = read_only\<rparr>"

inductive txn_step ::
  "'k catalog_ops \<Rightarrow> iteration \<Rightarrow> (pools \<Rightarrow> pools) \<Rightarrow> (byte list \<Rightarrow> hash) \<Rightarrow> chrono \<Rightarrow> 'k store \<Rightarrow> 'k store \<Rightarrow> bool"
  for K iter order sha C where
  step_begin: "begin_transaction K st = (r, st') \<Longrightarrow> txn_step K iter order sha C st st'"
| step_commit: "commit_transaction K iter st = (r, st') \<Longrightarrow> txn_step K iter order sha C st st'"
| step_rollback: "rollback_transaction K st = (r, st') \<Longrightarrow> txn_step K iter order sha C st st'"
| step_add: "add_requests K iter order sha C items st = (r, st') \<Longrightarrow> txn_step K iter order sha C st st'"
| step_remove: "remove_by_ids_inner K ids owner st = (r, st') \<Longrightarrow> txn_step K iter order sha C st st'"
| step_clear: "clear_time_series K owner st = (r, st') \<Longrightarrow> txn_step K iter order sha C st st'"

inductive txn_reachable ::
  "'k catalog_ops \<Rightarrow> iteration \<Rightarrow> (pools \<Rightarrow> pools) \<Rightarrow> (byte list \<Rightarrow> hash) \<Rightarrow> chrono \<Rightarrow> 'k store \<Rightarrow> 'k store \<Rightarrow> bool"
  for K iter order sha C st0 where
  reach_start: "txn_reachable K iter order sha C st0 st0"
| reach_step: "txn_reachable K iter order sha C st0 st \<Longrightarrow> txn_step K iter order sha C st st' \<Longrightarrow>
    txn_reachable K iter order sha C st0 st'"

text \<open>Steps that stay inside a transaction.\<close>

inductive inside ::
  "'k catalog_ops \<Rightarrow> iteration \<Rightarrow> (pools \<Rightarrow> pools) \<Rightarrow> (byte list \<Rightarrow> hash) \<Rightarrow> chrono \<Rightarrow> 'k store \<Rightarrow> 'k store \<Rightarrow> bool"
  for K iter order sha C st0 where
  inside_start: "inside K iter order sha C st0 st0"
| inside_step: "inside K iter order sha C st0 st \<Longrightarrow> txn_step K iter order sha C st st' \<Longrightarrow> in_transaction st' \<Longrightarrow>
    inside K iter order sha C st0 st'"

text \<open>The table the outermost open transaction began with.\<close>

definition outermost :: "('k \<Rightarrow> table) \<Rightarrow> ('k \<Rightarrow> table list) \<Rightarrow> 'k \<Rightarrow> table" where
  "outermost tbl saved k = last (tbl k # saved k)"

lemma outermost_saved: "saved k' = saved k \<Longrightarrow> saved k \<noteq> [] \<or> tbl k' = tbl k \<Longrightarrow> outermost tbl saved k' = outermost tbl saved k"
  by (auto simp: outermost_def)

context catalog_laws
begin

lemma new_store_inv:
  assumes "t_rows (tbl k) = []" "saved k = []"
  shows "store_inv (new_store k ro)"
proof -
  have none: "wb_get wb_new h = None" "\<not> wb_contains wb_new h" for h
    by (simp_all add: wb_new_def wb_get_def wb_contains_def)
  have "store_ok (s_arrays (new_store k ro))"
    using wb_new_inv none(1) by (simp add: new_store_def store_ok_def apart_def)
  moreover have "refs_stored sha C S (tbl k)" for S
    using assms(1) by (simp add: refs_stored_def sets_interned_def table_refs_def)
  moreover have "buffered_arrays (s_arrays (new_store k ro)) = {}"
    using none(2) by (simp add: buffered_arrays_def new_store_def)
  ultimately show ?thesis
    using assms(2) by (simp add: txn_inv_def new_store_def marks_ok_no_txn levels_apart_no_txn)
qed

lemma step_inv:
  assumes "store_inv st" "lawful iter" "\<And>ps. set (order ps) = set ps" "txn_step K iter order sha C st st'"
  shows "store_inv st'"
  using assms(4)
proof cases
  case (step_begin r)
  then show ?thesis by (rule begin_inv [OF assms(1)])
next
  case (step_commit r)
  then show ?thesis by (rule commit_inv [OF assms(1,2)])
next
  case (step_rollback r)
  then show ?thesis by (rule rollback_inv [OF assms(1)])
next
  case (step_add items r)
  then show ?thesis by (rule add_inv [OF assms(1,3)])
next
  case (step_remove ids owner r)
  then show ?thesis by (rule remove_inv [OF assms(1)])
next
  case (step_clear owner r)
  then show ?thesis by (rule clear_inv [OF assms(1)])
qed

lemma txn_reachable_inv:
  assumes "txn_reachable K iter order sha C st0 st" "store_inv st0" "lawful iter" "\<And>ps. set (order ps) = set ps"
  shows "store_inv st"
  using assms(1)
proof induction
  case reach_start
  show ?case by (rule assms(2))
next
  case (reach_step st st')
  then show ?case using step_inv [OF reach_step.IH assms(3,4)] by simp
qed

text \<open>Every array is held under the hash of its bytes.\<close>

lemma step_contents:
  assumes "store_inv st" "\<And>ps. set (order ps) = set ps" "txn_step K iter order sha C st st'"
  shows "drawn_from (request_arrays sha) (s_arrays st) (s_arrays st')"
  using assms(3)
proof cases
  case (step_begin r)
  then show ?thesis using begin_drawn [OF step_begin] by (simp add: drawn_refl)
next
  case (step_commit r)
  then show ?thesis by (rule commit_drawn [OF assms(1)])
next
  case (step_rollback r)
  then show ?thesis by (rule rollback_drawn [OF assms(1)])
next
  case (step_add items r)
  then show ?thesis by (rule add_drawn [OF assms(1,2)])
next
  case (step_remove ids owner r)
  then show ?thesis by (rule removal_drawn [OF assms(1) disjI1])
next
  case (step_clear owner r)
  then show ?thesis by (rule removal_drawn [OF assms(1) disjI2])
qed

lemma reachable_contents:
  assumes "txn_reachable K iter order sha C (new_store k ro) st" "t_rows (tbl k) = []" "saved k = []"
    "lawful iter" "\<And>ps. set (order ps) = set ps"
  shows "arrays (view (s_arrays st)) h = Some a \<Longrightarrow> array_hash sha a = h"
  using assms(1)
proof (induction arbitrary: h a)
  case reach_start
  then show ?case by (simp add: new_store_def view_arrays contents_def wb_new_def wb_get_def memory_new_def)
next
  case (reach_step st st')
  have "store_inv st" using txn_reachable_inv [OF reach_step.hyps(1) new_store_inv [OF assms(2,3)] assms(4,5)] .
  from step_contents [OF this assms(5) reach_step.hyps(2)] show ?case
    using reach_step.IH reach_step.prems by (auto simp: drawn_from_def request_arrays_def)
qed

text \<open>What the invariant says of one row.\<close>

lemma stored_rows:
  assumes inv: "store_inv st" and contents: "\<And>h a. arrays (view (s_arrays st)) h = Some a \<Longrightarrow> array_hash sha a = h"
    and m: "m \<in> set (t_rows (tbl (s_catalog st)))"
  shows "(\<exists>a. arrays (view (s_arrays st)) (m_data_hash m) = Some a \<and> array_hash sha a = m_data_hash m) \<and>
    (\<forall>ts. m_timestamps m = Some ts \<longrightarrow> timestamps_hash sha C ts \<in> dom (memory_backend.timestamps (as_backend (s_arrays st)))) \<and>
    (m_features m = [] \<or> features_hash sha (m_features m) \<in> insert (features_hash sha []) (t_sets (tbl (s_catalog st))))"
proof -
  have refs: "sets_interned sha (tbl (s_catalog st))" "\<And>col. table_refs sha C (tbl (s_catalog st)) col \<subseteq> stored_objects (s_arrays st) col"
    using inv by (simp_all add: txn_inv_def refs_stored_def)
  have "m_data_hash m \<in> table_refs sha C (tbl (s_catalog st)) DataHash" using m by (auto simp: table_refs_def)
  then have "m_data_hash m \<in> dom (arrays (view (s_arrays st)))" using refs(2) [of DataHash] by auto
  moreover have "timestamps_hash sha C ts \<in> dom (memory_backend.timestamps (as_backend (s_arrays st)))"
    if "m_timestamps m = Some ts" for ts
  proof -
    have "timestamps_hash sha C ts \<in> table_refs sha C (tbl (s_catalog st)) TimestampsHash"
      using m that by (auto simp: table_refs_def intro!: bexI [of _ m])
    then show ?thesis using refs(2) [of TimestampsHash] by auto
  qed
  ultimately show ?thesis using refs(1) m contents by (auto simp: sets_interned_def)
qed

lemma reachable_rows:
  assumes "txn_reachable K iter order sha C (new_store k ro) st" "t_rows (tbl k) = []" "saved k = []"
    "lawful iter" "\<And>ps. set (order ps) = set ps" and m: "m \<in> set (t_rows (tbl (s_catalog st)))"
  shows "(\<exists>a. arrays (view (s_arrays st)) (m_data_hash m) = Some a \<and> array_hash sha a = m_data_hash m) \<and>
    (\<forall>ts. m_timestamps m = Some ts \<longrightarrow> timestamps_hash sha C ts \<in> dom (memory_backend.timestamps (as_backend (s_arrays st)))) \<and>
    (m_features m = [] \<or> features_hash sha (m_features m) \<in> insert (features_hash sha []) (t_sets (tbl (s_catalog st))))"
  by (rule stored_rows [OF txn_reachable_inv [OF assms(1) new_store_inv [OF assms(2,3)] assms(4,5)] reachable_contents [OF assms(1-5)] m])

section \<open>Rolling back\<close>

lemma outermost_fell: "fell tbl saved k k' \<Longrightarrow> outermost tbl saved k' = outermost tbl saved k"
  by (auto simp: fell_def outermost_def)

lemma outermost_tame: "tame tbl saved f \<Longrightarrow> f k = (r, k') \<Longrightarrow> saved k \<noteq> [] \<Longrightarrow> outermost tbl saved k' = outermost tbl saved k"
  unfolding tame_def outermost_def by (metis last_ConsL last_ConsR)

lemma unwind_fell: "fell tbl saved (s_catalog st) (s_catalog (unwind_written K f st))"
proof -
  have un: "fell tbl saved k k'" if "unreferenced K g k = (r, k')" for g k r k'
    using unreferenced_cases [OF that] by (cases r) (auto simp: fell_def)
  show ?thesis
    by (auto simp: unwind_written_def Let_def fell_def split: prod.splits sum.splits dest!: un [unfolded fell_def])
qed

lemma unwind_txn: "s_txn (unwind_written K f st) = s_txn st"
  by (auto simp: unwind_written_def Let_def split: prod.splits sum.splits)

lemma write_catalog_outermost:
  assumes "write_catalog K f st = (r, st')" "tame tbl saved f" "in_transaction st"
  shows "outermost tbl saved (s_catalog st') = outermost tbl saved (s_catalog st)" "r = Inr a \<Longrightarrow> saved (s_catalog st') \<noteq> []"
proof -
  have "outermost tbl saved (s_catalog st') = outermost tbl saved (s_catalog st) \<and> (\<forall>a. r = Inr a \<longrightarrow> saved (s_catalog st') \<noteq> [])"
  proof (cases "check_transaction_alive K st")
    case (Inl e)
    then show ?thesis using assms(1) by (auto simp: write_catalog_def)
  next
    case (Inr u)
    then have open': "saved (s_catalog st) \<noteq> []"
      using assms(3) by (simp add: check_transaction_alive_def transaction_was_forced_back_def autocommit split: if_splits)
    obtain k where k: "in_savepoint K f (s_catalog st) = (r, k)" "st' = st\<lparr>s_catalog := k\<rparr>"
      using assms(1) Inr by (auto simp: write_catalog_def split: prod.splits)
    from in_savepoint_cases [OF assms(2) k(1)] show ?thesis
    proof (elim disjE exE conjE)
      fix e
      assume "r = Inl e" "fell tbl saved (s_catalog st) k"
      then show ?thesis using k(2) outermost_fell [of "s_catalog st" k] by auto
    qed (use open' k(2) in \<open>auto intro: outermost_saved\<close>)
  qed
  then show "outermost tbl saved (s_catalog st') = outermost tbl saved (s_catalog st)" "r = Inr a \<Longrightarrow> saved (s_catalog st') \<noteq> []" by blast+
qed

lemma add_outermost:
  assumes run: "add_requests K iter order sha C items st = (r, st')" and in_txn: "in_transaction st"
  shows "outermost tbl saved (s_catalog st') = outermost tbl saved (s_catalog st)"
proof -
  obtain q staged st1 where one: "add_requests_staged K iter order sha C items st = (q, staged, st1)" by (metis prod_cases3)
  have "s_catalog st' = s_catalog st1"
    using run one by (auto simp: add_requests_def settle_def split: sum.splits failure.splits if_splits)
  moreover have "outermost tbl saved (s_catalog st1) = outermost tbl saved (s_catalog st)"
  proof -
    have add: "outermost tbl saved (s_catalog st1) = outermost tbl saved (s_catalog st)"
      if "add_parts K iter order C xs st = (x, staged, st1)" "saved (s_catalog st) \<noteq> []" for xs x
    proof -
      have ins: "outermost tbl saved k' = outermost tbl saved k" if "insert_batch K flush ms cache k = (y, k')" "saved k \<noteq> []" for flush ms cache k y k'
        using insert_batch_cases [OF that(1)] that(2)
          by (cases y) (auto simp: outermost_def split: if_splits)
      have "s_catalog (if in_transaction st then invalidate_shared_sets st else st) = s_catalog st"
        by (simp add: invalidate_shared_sets_def)
      then show ?thesis
        using that by (auto simp: add_parts_def Let_def split: sum.splits prod.splits dest: ins)
    qed
    show ?thesis
      using one add in_txn
      by (auto simp: add_requests_staged_def check_transaction_alive_def transaction_was_forced_back_def autocommit
          split: if_splits sum.splits prod.splits)
  qed
  ultimately show ?thesis by simp
qed

lemma commit_outermost_bottom:
  assumes run: "commit_outermost K iter st = (r, st')" and ins: "in_transaction st'"
  shows "outermost tbl saved (s_catalog st') = outermost tbl saved (s_catalog st)"
proof -
  obtain x k where un: "unreferenced K (pending_free (s_txn st)) (s_catalog st) = (x, k)" by fastforce
  have k: "fell tbl saved (s_catalog st) k" using unreferenced_cases [OF un] by (cases x) (auto simp: fell_def)
  show ?thesis
  proof (cases x)
    case (Inl e)
    then show ?thesis using run un outermost_fell [OF k] by (auto simp: commit_outermost_def)
  next
    case (Inr g)
    obtain y S where w: "(if fo_is_empty (written (s_txn st)) then (Inr (), s_arrays st)
        else write_buffered iter (fo_arrays g) (s_arrays st)) = (y, S)" by fastforce
    obtain z k' where rel: "c_release K k = (z, k')" by fastforce
    show ?thesis
    proof (cases "\<exists>u v. y = Inr u \<and> z = Inr v")
      case True
      then have "s_txn st' = no_txn" using run un Inr w rel by (auto simp: commit_outermost_def)
      then show ?thesis using ins by (simp add: in_transaction_def no_txn_def)
    next
      case False
      then have "s_catalog st' = k \<or> s_catalog st' = k' \<and> (\<exists>e. z = Inl e)"
        using run un Inr w rel by (cases y; cases z) (auto simp: commit_outermost_def)
      then show ?thesis using outermost_fell [OF k] outermost_fell [OF release_Inl] rel by auto
    qed
  qed
qed

lemma step_outermost:
  assumes inv: "store_inv st" and ins: "in_transaction st" "in_transaction st'" and step: "txn_step K iter order sha C st st'"
  shows "outermost tbl saved (s_catalog st') = outermost tbl saved (s_catalog st)"
  using step
proof cases
  case (step_begin r)
  have push: "outermost tbl saved k' = outermost tbl saved k" if "c_savepoint K k = (x, k')" for k k' x
    using savepoint_Inr [of k _ k'] outermost_fell [OF savepoint_Inl [of k _ k']] that
    by (cases x) (auto simp: outermost_def)
  then show ?thesis using step_begin by (auto simp: begin_transaction_def split: sum.splits prod.splits dest: push)
next
  case (step_commit r)
  consider "st' = st" | u where "check_transaction_alive K st = Inr u" "1 < length (marks (s_txn st))"
    | "commit_outermost K iter st = (r, st')"
    using step_commit by (auto simp: commit_transaction_def innermost_level_def split: sum.splits if_splits)
  then show ?thesis
  proof cases
    case 2
    obtain x k where rel: "c_release K (s_catalog st) = (x, k)" by fastforce
    have cat: "s_catalog st' = k"
      using step_commit 2 rel by (auto simp: commit_transaction_def innermost_level_def split: sum.splits if_splits)
    show ?thesis
    proof (cases x)
      case (Inl e)
      then show ?thesis using outermost_fell [OF release_Inl] rel cat by simp
    next
      case (Inr v)
      then show ?thesis using release_Inr [of "s_catalog st" v k] rel alive(1) [OF inv 2(1)] 2(2) cat
        by (cases "saved (s_catalog st)") (auto simp: outermost_def)
    qed
  qed (use ins(2) commit_outermost_bottom in auto)
next
  case (step_rollback r)
  have unwind: "outermost tbl saved (s_catalog (unwind_written K f st1)) = outermost tbl saved (s_catalog st1)" for f st1
    by (rule outermost_fell [OF unwind_fell])
  have marks: "marks (s_txn st) \<noteq> []" using ins(1) by (simp add: in_transaction_def)
  show ?thesis
  proof (cases "transaction_was_forced_back K st")
    case True
    then have "st' = unwind_written K (written (s_txn st)) (st\<lparr>s_txn := no_txn\<rparr>)"
      using step_rollback marks by (simp add: rollback_transaction_def innermost_level_def)
    then show ?thesis using ins(2) by (simp add: in_transaction_def unwind_txn no_txn_def)
  next
    case False
    then have L: "saved (s_catalog st) \<noteq> []" using ins(1) by (simp add: transaction_was_forced_back_def autocommit)
    obtain k where k: "c_rollback K (s_catalog st) = (Inr (), k)" "tbl k = hd (saved (s_catalog st))" "saved k = tl (saved (s_catalog st))"
      using rollback_open [OF L] by blast
    obtain gone t where st': "st' = unwind_written K gone (st\<lparr>s_catalog := k, s_txn := t\<rparr>)"
      and t: "t = (if length (marks (s_txn st)) - 1 = 0 then no_txn else t)"
      using step_rollback False marks k(1)
      by (auto simp: rollback_transaction_def innermost_level_def Let_def split: prod.splits if_splits)
    have "outermost tbl saved (s_catalog st') = outermost tbl saved k" using unwind st' by simp
    also have "\<dots> = outermost tbl saved (s_catalog st)"
      using L k(2,3) by (cases "saved (s_catalog st)") (auto simp: outermost_def)
    finally show ?thesis .
  qed
next
  case (step_add items r)
  then show ?thesis using add_outermost ins(1) by blast
next
  case (step_remove ids owner r)
  have free: "s_catalog (free_or_defer g st1) = s_catalog st1" for g st1 by (simp add: free_or_defer_def)
  define f where "f = cbind (delete_ids K owner {} ids) (\<lambda>rows.
      cbind (check_no_orphaned_dst K (filter (\<lambda>r. d_type r = SingleTimeSeries) rows)) (\<lambda>_.
      cbind (unreferenced_in K (map d_data_hash rows) DataHash) (\<lambda>as.
        cret (length rows, \<lparr>fo_arrays = as, fo_timestamps = []\<rparr>))))"
  have tame: "tame tbl saved f"
    unfolding f_def by (intro tame_rules tame_delete_ids tame_no_orphaned_dst tame_unreferenced_in)
  obtain x st1 where w: "write_catalog K f st = (x, st1)" by fastforce
  have "s_catalog st' = s_catalog st1"
    using step_remove w by (cases x) (auto simp: remove_by_ids_inner_def f_def free)
  then show ?thesis using write_catalog_outermost(1) [OF w tame ins(1)] by simp
next
  case (step_clear owner r)
  let ?st0 = "invalidate_shared_sets st"
  have st0: "in_transaction ?st0" "s_catalog ?st0 = s_catalog st"
    using ins(1) by (simp_all add: in_transaction_def invalidate_shared_sets_def)
  have free: "s_catalog (free_or_defer g st1) = s_catalog st1" for g st1 by (simp add: free_or_defer_def)
  define f where "f = cbind (c_delete_all K owner) (\<lambda>removed.
      cbind (unreferenced_in K removed DataHash) (\<lambda>as. cret (length removed, as)))"
  have tame: "tame tbl saved f" unfolding f_def by (intro tame_rules tame_unreferenced_in)
  have axes: "tame tbl saved (orphaned_timestamp_vectors K s)" for s
  proof -
    have "tame tbl saved (case ap of (referenced, problems) \<Rightarrow>
        if problems \<noteq> [] then cerr (IntegrityError ''cannot sweep timestamp vectors'')
        else (\<lambda>k. (rbind (mem_timestamp_hashes s) (\<lambda>hs. Inr (sorted_list_of_set (hs - referenced))), k)))" for ap
      by (cases ap) (auto simp: tame_def cerr_def)
    then show ?thesis unfolding orphaned_timestamp_vectors_def by (intro tame_rules) auto
  qed
  obtain x st1 where w: "write_catalog K f ?st0 = (x, st1)" by fastforce
  note c = write_catalog_outermost [OF w tame st0(1), unfolded st0(2)]
  show ?thesis
  proof (cases x)
    case (Inl e)
    then show ?thesis using step_clear w c(1) by (simp add: clear_time_series_def Let_def f_def)
  next
    case (Inr a)
    obtain swept k where sw: "orphaned_timestamp_vectors K (as_backend (s_arrays st1)) (s_catalog st1) = (swept, k)" by fastforce
    have "s_catalog st' = k"
      using step_clear w sw Inr by (cases a) (auto simp: clear_time_series_def Let_def f_def free split: sum.splits)
    then show ?thesis using outermost_tame [OF axes sw c(2) [OF Inr]] c(1) by simp
  qed
qed

lemma inside_outermost:
  assumes "inside K iter order sha C st1 st2" "store_inv st1" "in_transaction st1" "lawful iter" "\<And>ps. set (order ps) = set ps"
  shows "store_inv st2 \<and> in_transaction st2 \<and> outermost tbl saved (s_catalog st2) = outermost tbl saved (s_catalog st1)"
  using assms(1)
proof induction
  case inside_start
  show ?case using assms(2,3) by simp
next
  case (inside_step st st')
  have inv: "store_inv st" "in_transaction st" using inside_step.IH by simp_all
  show ?case
    using step_inv [OF inv(1) assms(4,5) inside_step.hyps(2)] step_outermost [OF inv inside_step.hyps(3,2)]
      inside_step.IH inside_step.hyps(3) by simp
qed

text \<open>Rolling back the last open level cannot fail.\<close>

lemma rollback_last:
  assumes inv: "store_inv st" and one: "length (marks (s_txn st)) = 1"
  shows "\<exists>st'. rollback_transaction K st = (Inr (), st') \<and> tbl (s_catalog st') = outermost tbl saved (s_catalog st) \<and>
    saved (s_catalog st') = [] \<and> \<not> in_transaction st'"
proof -
  have marks: "marks (s_txn st) \<noteq> []" using one by auto
  show ?thesis
  proof (cases "transaction_was_forced_back K st")
    case True
    then have none: "saved (s_catalog st) = []" by (simp add: transaction_was_forced_back_def autocommit)
    let ?st' = "unwind_written K (written (s_txn st)) (st\<lparr>s_txn := no_txn\<rparr>)"
    have "fell tbl saved (s_catalog st) (s_catalog ?st')" using unwind_fell [of "st\<lparr>s_txn := no_txn\<rparr>"] by simp
    then have "tbl (s_catalog ?st') = outermost tbl saved (s_catalog st)" "saved (s_catalog ?st') = []"
      using none by (auto simp: fell_def outermost_def)
    then show ?thesis
      using True marks by (simp add: rollback_transaction_def innermost_level_def in_transaction_def unwind_txn no_txn_def)
  next
    case False
    then have L: "saved (s_catalog st) \<noteq> []" using marks by (simp add: transaction_was_forced_back_def in_transaction_def autocommit)
    then have len: "length (saved (s_catalog st)) = 1" using inv one by (simp add: txn_inv_def levels_apart_def)
    obtain k where k: "c_rollback K (s_catalog st) = (Inr (), k)" "tbl k = hd (saved (s_catalog st))" "saved k = tl (saved (s_catalog st))"
      using rollback_open [OF L] by blast
    define st' where "st' = unwind_written K (fst (fo_split_off (last (marks (s_txn st))) (written (s_txn st))))
      (st\<lparr>s_catalog := k, s_txn := no_txn\<rparr>)"
    have k': "tbl k = outermost tbl saved (s_catalog st)" "saved k = []"
      using k(2,3) len by (auto simp: outermost_def length_Suc_conv)
    have "fell tbl saved k (s_catalog st')"
      using unwind_fell [of "st\<lparr>s_catalog := k, s_txn := no_txn\<rparr>"] by (simp add: st'_def)
    then have cat: "tbl (s_catalog st') = outermost tbl saved (s_catalog st)" "saved (s_catalog st') = []"
      using k' by (auto simp: fell_def)
    have out: "\<not> in_transaction st'" by (simp add: st'_def in_transaction_def unwind_txn no_txn_def)
    then have "rollback_transaction K st = (Inr (), st')"
      using False marks k(1) one
      by (auto simp: rollback_transaction_def innermost_level_def Let_def st'_def check_transaction_alive_def
          transaction_was_forced_back_def split: prod.splits)
    then show ?thesis using cat out by blast
  qed
qed

end

section \<open>Stores over the SQLite catalog\<close>

abbreviation sqlite_reachable ::
    "bool \<Rightarrow> outcome list \<Rightarrow> iteration \<Rightarrow> (pools \<Rightarrow> pools) \<Rightarrow> (byte list \<Rightarrow> hash) \<Rightarrow> chrono \<Rightarrow> connection store \<Rightarrow> bool" where
  "sqlite_reachable ro outcomes iter order sha C \<equiv>
     txn_reachable (sqlite_catalog ro sha C) iter order sha C (new_store (open_in_memory outcomes) ro)"

lemma empty_tables:
  "t_rows (table_of (cn_db (open_in_memory outcomes))) = []" "tables_saved (open_in_memory outcomes) = []"
  by (simp_all add: open_in_memory_def empty_db_def table_of_def)

text \<open>C1: in every state a store can reach, whatever batches are added, removed and cleared, however
  transactions nest, commit and roll back, and whichever statements SQLite refuses or answers by rolling
  everything back, each row of the catalog names an array that is stored, under the hash of its bytes; an
  explicit timeline it names is stored, and so is its feature set.\<close>

theorem rows_name_stored_data:
  assumes "lawful iter" "\<And>ps. set (order ps) = set ps"
    and "sqlite_reachable ro outcomes iter order sha C st" "m \<in> set (db_rows (cn_db (s_catalog st)))"
  shows "(\<exists>a. arrays (view (s_arrays st)) (m_data_hash m) = Some a \<and> array_hash sha a = m_data_hash m) \<and>
    (\<forall>ts. m_timestamps m = Some ts \<longrightarrow> timestamps_hash sha C ts \<in> dom (memory_backend.timestamps (as_backend (s_arrays st)))) \<and>
    (m_features m = [] \<or>
      features_hash sha (m_features m) \<in> insert (features_hash sha []) (feature_hashes (cn_db (s_catalog st))))"
  using sqlite.reachable_rows [OF assms(3) empty_tables assms(1,2), of m] assms(4) by (simp add: table_of_def)


section \<open>Concrete stores\<close>

abbreviation demo_sha :: "byte list \<Rightarrow> hash" where "demo_sha \<equiv> \<lambda>_. [9]"

abbreviation demo_catalog :: "connection catalog_ops" where "demo_catalog \<equiv> sqlite_catalog False demo_sha gregorian"

abbreviation demo_start :: "connection store" where "demo_start \<equiv> new_store (open_in_memory []) False"

definition demo_added_row :: ts_metadata where
  "demo_added_row = (base_row demo_sha demo_request (ScalarOf U8))\<lparr>m_initial_timestamp := Some (day_2024 1 31), m_resolution := Some (Months 1)\<rparr>"

lemma demo_added_fields:
  "m_type demo_added_row = SingleTimeSeries" "m_data_hash demo_added_row = [9]" "m_id demo_added_row = None" "m_features demo_added_row = []"
  "m_timestamps demo_added_row = None" "m_length demo_added_row = Some 2" "m_element_shape demo_added_row = [3]" "m_resolution demo_added_row = Some (Months 1)"
proof -
  have a: "ta_length demo_array = 2" "element_shape demo_array = [3]" by (simp_all add: demo_array_def ta_length_def element_shape_def)
  show "m_type demo_added_row = SingleTimeSeries" "m_data_hash demo_added_row = [9]" "m_id demo_added_row = None" "m_features demo_added_row = []"
    "m_timestamps demo_added_row = None" "m_length demo_added_row = Some 2" "m_element_shape demo_added_row = [3]" "m_resolution demo_added_row = Some (Months 1)"
    by (simp_all add: demo_added_row_def base_row_def Let_def demo_request_fields array_hash_def a)
qed

text \<open>The store holds the one array and its row.\<close>

definition demo_state :: "connection store \<Rightarrow> bool" where
  "demo_state st \<longleftrightarrow>
     s_catalog st = \<lparr>cn_db = \<lparr>db_rows = [demo_added_row\<lparr>m_id := Some 1\<rparr>], db_last_id = 1, db_features = []\<rparr>, cn_saved = [], cn_outcomes = []\<rparr> \<and>
     s_txn st = no_txn \<and> \<not> s_read_only st \<and> as_buffer (s_arrays st) = wb_new \<and>
     arrays (as_backend (s_arrays st)) = [[9] \<mapsto> demo_array]"

lemma demo_stored:
  "\<exists>ids st. add_requests demo_catalog some_order (\<lambda>ps. ps) demo_sha gregorian [demo_request] demo_start = (Inr ids, st) \<and> demo_state st"
proof -
  obtain p where p: "build_request_parts demo_sha gregorian demo_request = Inr p" "p_hash p = [9]" "p_layout p = Packed"
    by (rule demo_request_accepted)
  have row: "p_group p = Regular (Months 1)"
      "p_meta p = demo_added_row"
    using p(1) by (simp_all add: demo_added_row_def build_request_parts_Inr demo_request_fields demo_series_fields del: series_of.simps)
  note m = demo_added_fields [folded row(2)]
  let ?s = "memory_new" and ?x = "(demo_array, p)" and ?g = "Regular (Months 1)"
  let ?key = "pool_key demo_array ?g"
  obtain s1 where put: "put_block mem_ops ?s [([9], demo_array)] ?g = (Inr [True], s1)" "arrays s1 = [[9] \<mapsto> demo_array]"
    by (simp add: put_block_def mem_ops_def mem_contains_def memory_new_def mem_put_array_def is_irregular_group_def Let_def)
  have key: "key_group ?key = ?g" by (simp add: pool_key_def key_group_def)
  define S where "S = arrays_in demo_start"
  have S: "as_backend S = ?s" "S\<lparr>as_backend := ?s\<rparr> = S" by (simp_all add: S_def arrays_in_def new_store_def)
  have stage: "stage_axes gregorian [p] no_shared_sets no_objects ?s = (Inr (), no_shared_sets, no_objects, ?s)"
    by (simp add: stage_timestamp_vector_def row(1))
  have grp: "put_grouped some_order (\<lambda>ps. ps) [?x] no_objects S =
      (Inr (), \<lparr>fo_arrays = [[9]], fo_timestamps = []\<rparr>, S\<lparr>as_backend := s1\<rparr>)"
    using put by (simp add: put_grouped_def p(2,3) row(1) push_pool_def S(1) block_of_def key flagged_def no_objects_def)
  have row_in: "statement (insert_row demo_sha gregorian (p_meta p)) k =
      (Inr 1, k\<lparr>cn_db := (cn_db k)\<lparr>db_rows := [(p_meta p)\<lparr>m_id := Some 1\<rparr>], db_last_id := 1\<rparr>\<rparr>)"
    if "cn_outcomes k = []" "cn_db k = empty_db" for k
    using that m(3) by (simp add: statement_def insert_row_def empty_db_def)
  have one: "insert_association demo_catalog (p_meta p) no_shared_sets k =
      (Inr (1, no_shared_sets\<lparr>ss_features := {[9]}\<rparr>), k\<lparr>cn_db := (cn_db k)\<lparr>db_rows := [(p_meta p)\<lparr>m_id := Some 1\<rparr>], db_last_id := 1\<rparr>\<rparr>)"
    if "cn_outcomes k = []" "cn_db k = empty_db" for k
    using row_in [OF that] m
    by (simp add: insert_association_def check_forecast_family_free_def cbind_def cret_def sqlite_catalog_def insert_batched_def
        Let_def no_shared_sets_def features_hash_def)
  obtain ids c k where ins: "insert_batch demo_catalog True [p_meta p] no_shared_sets (open_in_memory []) = (Inr (ids, c), k)"
    "k = \<lparr>cn_db = \<lparr>db_rows = [demo_added_row\<lparr>m_id := Some 1\<rparr>], db_last_id = 1, db_features = []\<rparr>, cn_saved = [], cn_outcomes = []\<rparr>"
    by (simp add: row(2) [symmetric] empty_db_def insert_batch_def in_savepoint_def sqlite_catalog_def savepoint_def release_def statement_def open_in_memory_def
        cbind_def cret_def one [unfolded sqlite_catalog_def, simplified])
  have grp': "put_grouped some_order (\<lambda>ps. ps) [?x] no_objects (S\<lparr>as_backend := ?s\<rparr>) =
      (Inr (), \<lparr>fo_arrays = [[9]], fo_timestamps = []\<rparr>, S\<lparr>as_backend := s1\<rparr>)"
    unfolding S(2) by (rule grp)
  have out: "\<not> in_transaction demo_start" "s_catalog demo_start = open_in_memory []"
    by (simp_all add: in_transaction_def new_store_def no_txn_def)
  have add: "add_parts demo_catalog some_order (\<lambda>ps. ps) gregorian [?x] demo_start =
      (Inr ids, \<lparr>fo_arrays = [[9]], fo_timestamps = []\<rparr>, demo_start\<lparr>s_arrays := S\<lparr>as_backend := s1\<rparr>, s_catalog := k\<rparr>)"
    using stage grp' ins(1) S(1) out
    by (simp add: add_parts_def Let_def S_def [symmetric] del: stage_axes.simps)
  have "add_requests demo_catalog some_order (\<lambda>ps. ps) demo_sha gregorian [demo_request] demo_start =
      (Inr ids, demo_start\<lparr>s_arrays := S\<lparr>as_backend := s1\<rparr>, s_catalog := k\<rparr>)"
    using p(1) add
    by (simp add: add_requests_def add_requests_staged_def check_transaction_alive_def transaction_was_forced_back_def
        in_transaction_def new_store_def no_txn_def demo_request_fields settle_def)
  moreover have "demo_state (demo_start\<lparr>s_arrays := S\<lparr>as_backend := s1\<rparr>, s_catalog := k\<rparr>)"
    using ins(2) put(2) by (simp add: demo_state_def S_def arrays_in_def new_store_def)
  ultimately show ?thesis by blast
qed

lemma demo_added:
  "\<exists>ids st. add_requests demo_catalog some_order (\<lambda>ps. ps) demo_sha gregorian [demo_request] demo_start = (Inr ids, st) \<and>
     map m_id (db_rows (cn_db (s_catalog st))) = [Some 1] \<and> map m_data_hash (db_rows (cn_db (s_catalog st))) = [[9]]"
  using demo_stored by (auto simp: demo_state_def demo_added_fields)

text \<open>The added row names the one array that is stored.\<close>

theorem rows_name_stored_data_witness:
  "\<exists>ids st. add_requests demo_catalog some_order (\<lambda>ps. ps) demo_sha gregorian [demo_request] demo_start = (Inr ids, st) \<and>
     (\<exists>a. arrays (view (s_arrays st)) [9] = Some a \<and> array_hash demo_sha a = [9])"
proof -
  from demo_added
  obtain ids st where add: "add_requests demo_catalog some_order (\<lambda>ps. ps) demo_sha gregorian [demo_request] demo_start = (Inr ids, st)"
    and rows: "map m_data_hash (db_rows (cn_db (s_catalog st))) = [[9]]" by (elim exE conjE)
  obtain m where m: "m \<in> set (db_rows (cn_db (s_catalog st)))" "m_data_hash m = [9]"
    using rows by (cases "db_rows (cn_db (s_catalog st))") auto
  have "sqlite_reachable False [] some_order (\<lambda>ps. ps) demo_sha gregorian st"
    by (rule reach_step [OF reach_start step_add [OF add]])
  from rows_name_stored_data [OF lawful_some_order refl this m(1)] show ?thesis using add m(2) by auto
qed



end
