(* ===== verification/CatalogInv.thy ===== *)
theory CatalogInv
  imports TxnReach
begin

text \<open>
  What the rows of a catalog keep to: an id and an identity name one row, no id is given out twice, and no
  forecast family holds both a stored and a derived deterministic forecast. The unique index guarantees
  the identities, \<open>insert_association\<close> the families; every call of the store keeps both.
\<close>

section \<open>The invariant of the rows\<close>

definition family_rows :: "(byte list \<Rightarrow> hash) \<Rightarrow> chrono \<Rightarrow> ts_metadata \<Rightarrow> ts_metadata \<Rightarrow> bool" where
  "family_rows sha C m r \<longleftrightarrow>
     same_family sha C (m_owner_id m, m_owner_category m, m_name m, m_resolution m, features_hash sha (m_features m)) r"

definition rows_ok :: "(byte list \<Rightarrow> hash) \<Rightarrow> chrono \<Rightarrow> catalog_db \<Rightarrow> bool" where
  "rows_ok sha C db \<longleftrightarrow>
     distinct (map m_id (db_rows db)) \<and> (\<forall>m \<in> set (db_rows db). \<exists>i. m_id m = Some i \<and> i \<le> db_last_id db) \<and>
     distinct (map (row_identity sha C) (db_rows db)) \<and>
     (\<forall>m \<in> set (db_rows db). \<forall>r \<in> set (db_rows db).
        m_type m = Deterministic \<longrightarrow> m_type r = DeterministicSingleTimeSeries \<longrightarrow> \<not> family_rows sha C m r)"

definition conn_ok :: "(byte list \<Rightarrow> hash) \<Rightarrow> chrono \<Rightarrow> connection \<Rightarrow> bool" where
  "conn_ok sha C k \<longleftrightarrow> (\<forall>db \<in> set (cn_db k # cn_saved k). rows_ok sha C db)"

lemma family_rows_sym: "family_rows sha C m r \<longleftrightarrow> family_rows sha C r m"
  by (auto simp: family_rows_def same_family_def)

lemma same_columns:
  "row_identity sha C (m\<lparr>m_id := i\<rparr>) = row_identity sha C m" "family_rows sha C (m\<lparr>m_id := i\<rparr>) r = family_rows sha C m r"
  "family_rows sha C r (m\<lparr>m_id := i\<rparr>) = family_rows sha C r m"
  by (simp_all add: row_identity_def family_rows_def same_family_def)

lemma rows_ok_filter: "rows_ok sha C db \<Longrightarrow> rows_ok sha C (db\<lparr>db_rows := filter P (db_rows db)\<rparr>)"
  by (auto simp: rows_ok_def distinct_map_filter)

definition no_counterpart :: "(byte list \<Rightarrow> hash) \<Rightarrow> chrono \<Rightarrow> ts_metadata \<Rightarrow> catalog_db \<Rightarrow> bool" where
  "no_counterpart sha C m db \<longleftrightarrow>
     (\<forall>t. exclusive_counterpart (m_type m) = Some t \<longrightarrow> (\<forall>r \<in> set (db_rows db). m_type r = t \<longrightarrow> \<not> family_rows sha C m r))"

lemma insert_row_ok:
  assumes ok: "rows_ok sha C db" and free: "no_counterpart sha C m db" and run: "insert_row sha C m db = (r, db')"
  shows "rows_ok sha C db'"
proof (cases r)
  case (Inl e)
  then show ?thesis using insert_row_Inl run ok by blast
next
  case (Inr i)
  then have db': "db' = db\<lparr>db_rows := db_rows db @ [m\<lparr>m_id := Some i\<rparr>], db_last_id := max (db_last_id db) i\<rparr>"
    and i: "(case m_id m of None \<Rightarrow> i = db_last_id db + 1 | Some j \<Rightarrow> i = j \<and> (\<forall>r \<in> set (db_rows db). m_id r \<noteq> Some j))"
    and new: "\<forall>r \<in> set (db_rows db). row_identity sha C r \<noteq> row_identity sha C m"
    using run by (auto simp: insert_row_def Let_def list_ex_iff split: if_splits option.splits)
  have fresh: "m_id r \<noteq> Some i" if "r \<in> set (db_rows db)" for r
    using i ok that by (auto simp: rows_ok_def split: option.splits)
  have "\<not> family_rows sha C m m'" if "m_type m = Deterministic" "m_type m' = DeterministicSingleTimeSeries"
      "m' \<in> set (db_rows db) \<or> m' = m" for m'
    using that free by (auto simp: no_counterpart_def)
  moreover have "\<not> family_rows sha C m' m" if "m_type m' = Deterministic" "m_type m = DeterministicSingleTimeSeries"
      "m' \<in> set (db_rows db)" for m'
    using that free by (simp add: no_counterpart_def family_rows_sym [of sha C m' m])
  ultimately show ?thesis
    using ok fresh new unfolding db' rows_ok_def by (auto simp: same_columns image_iff)
qed

section \<open>Calls that keep it\<close>

definition keeps :: "('k \<Rightarrow> bool) \<Rightarrow> ('k, 'a) catalog_call \<Rightarrow> bool" where
  "keeps P f \<longleftrightarrow> (\<forall>k. P k \<longrightarrow> P (snd (f k)))"

lemma keepsD: "keeps P f \<Longrightarrow> f k = (r, k') \<Longrightarrow> P k \<Longrightarrow> P k'"
  by (auto simp: keeps_def)

lemma keeps_cret: "keeps P (cret a)" and keeps_cerr: "keeps P (cerr e)"
  by (simp_all add: keeps_def cret_def cerr_def)

lemma keeps_cbind: "keeps P f \<Longrightarrow> (\<And>a. keeps P (g a)) \<Longrightarrow> keeps P (cbind f g)"
  unfolding keeps_def cbind_def by (auto split: prod.splits sum.splits)

lemma keeps_if: "keeps P f \<Longrightarrow> keeps P g \<Longrightarrow> keeps P (if b then f else g)"
  by simp

lemma keeps_in_savepoint:
  "keeps P (c_savepoint K) \<Longrightarrow> keeps P (c_release K) \<Longrightarrow> keeps P (c_rollback K) \<Longrightarrow> keeps P f \<Longrightarrow> keeps P (in_savepoint K f)"
  unfolding keeps_def in_savepoint_def by (auto split: prod.splits sum.splits) (metis snd_conv)+

lemma conn_ok_step:
  assumes "conn_ok sha C k" "rows_ok sha C db'" "set dbs \<subseteq> set (cn_db k # cn_saved k)"
  shows "conn_ok sha C (k\<lparr>cn_db := db', cn_saved := dbs, cn_outcomes := os\<rparr>)"
  using assms by (auto simp: conn_ok_def)

lemma statement_ok:
  assumes k: "conn_ok sha C k" and run: "statement f k = (r, k')"
    and f: "\<And>r db'. f (cn_db k) = (r, db') \<Longrightarrow> rows_ok sha C db'"
  shows "conn_ok sha C k'"
proof -
  have last: "last (cn_db k # cn_saved k) \<in> set (cn_db k # cn_saved k)" by (rule last_in_set) simp
  from run show ?thesis
  proof (cases rule: statement_cases)
    case ran
    then show ?thesis using k f by (auto simp: conn_ok_def)
  next
    case failed
    then show ?thesis using k by (simp add: conn_ok_def)
  next
    case lost
    then show ?thesis using k last by (simp only: conn_ok_def list.set) blast
  qed
qed

lemma keeps_statement:
  assumes "\<And>db r db'. rows_ok sha C db \<Longrightarrow> f db = (r, db') \<Longrightarrow> rows_ok sha C db'"
  shows "keeps (conn_ok sha C) (statement f)"
  unfolding keeps_def
proof (intro allI impI)
  fix k
  assume k: "conn_ok sha C k"
  then have "rows_ok sha C (cn_db k)" by (simp add: conn_ok_def)
  then show "conn_ok sha C (snd (statement f k))"
    using statement_ok [OF k, of f] assms by (cases "statement f k") auto
qed

lemma keeps_query: "keeps (conn_ok sha C) (statement (\<lambda>db. (g db, db)))"
  by (rule keeps_statement) auto

lemma keeps_savepoint: "keeps (conn_ok sha C) (savepoint ro)"
  unfolding keeps_def
proof (intro allI impI)
  fix k
  assume k: "conn_ok sha C k"
  obtain r k1 where run: "statement (\<lambda>db. (Inr (), db)) k = (r, k1)" by fastforce
  have "conn_ok sha C k1" by (rule keepsD [OF keeps_query run k])
  then show "conn_ok sha C (snd (savepoint ro k))"
    using k run by (cases r) (simp_all add: savepoint_def conn_ok_def)
qed

lemma keeps_release: "keeps (conn_ok sha C) (release ro)"
  unfolding keeps_def
proof (intro allI impI)
  fix k
  assume k: "conn_ok sha C k"
  obtain r k1 where run: "statement (\<lambda>db. (Inr (), db)) k = (r, k1)" by fastforce
  have k1: "conn_ok sha C k1" by (rule keepsD [OF keeps_query run k])
  then have "conn_ok sha C (k1\<lparr>cn_saved := tl (cn_saved k1)\<rparr>)"
    by (cases "cn_saved k1") (simp_all add: conn_ok_def)
  then show "conn_ok sha C (snd (release ro k))"
    using k k1 run by (cases r) (simp_all add: release_def)
qed

lemma keeps_roll_back: "keeps (conn_ok sha C) (roll_back ro)"
  by (auto simp: keeps_def roll_back_def conn_ok_def split: list.splits)

lemma keeps_delete_by_id: "keeps (conn_ok sha C) (delete_by_id sha C i owner)"
proof -
  have row: "keeps (conn_ok sha C) (statement (delete_row i))"
    by (rule keeps_statement) (auto simp: delete_row_def rows_ok_filter)
  have "keeps (conn_ok sha C) (case m_resolution m of
               None \<Rightarrow> cret (Some (deleted_of sha m None))
             | Some p \<Rightarrow>
                 (case iso_to_period C (to_iso8601 C p) of
                    Inl e \<Rightarrow> cerr e
                  | Inr q \<Rightarrow> cret (Some (deleted_of sha m (Some q)))))" for m
    by (auto intro: keeps_cret keeps_cerr split: option.splits sum.splits)
  then have tail: "keeps (conn_ok sha C) (cbind (statement (delete_row i)) (\<lambda>_. case m_resolution m of
               None \<Rightarrow> cret (Some (deleted_of sha m None))
             | Some p \<Rightarrow>
                 (case iso_to_period C (to_iso8601 C p) of
                    Inl e \<Rightarrow> cerr e
                  | Inr q \<Rightarrow> cret (Some (deleted_of sha m (Some q))))))" for m
    by (intro keeps_cbind row)
  show ?thesis
    unfolding delete_by_id_def
  proof (intro keeps_cbind keeps_query)
    show "keeps (conn_ok sha C) (case found of
         None \<Rightarrow> cret None
       | Some m \<Rightarrow>
           if (case owner of None \<Rightarrow> False | Some (owner, cat) \<Rightarrow> m_owner_id m \<noteq> owner \<or> m_owner_category m \<noteq> cat)
           then cerr (OwnerMismatch i (fst (the owner)) (owner_category_str (snd (the owner)))
                        (m_owner_id m) (owner_category_str (m_owner_category m)))
           else cbind (statement (delete_row i)) (\<lambda>_.
             case m_resolution m of
               None \<Rightarrow> cret (Some (deleted_of sha m None))
             | Some p \<Rightarrow>
                 (case iso_to_period C (to_iso8601 C p) of
                    Inl e \<Rightarrow> cerr e
                  | Inr q \<Rightarrow> cret (Some (deleted_of sha m (Some q))))))" for found
    proof (cases found)
      case (Some m)
      show ?thesis unfolding Some option.case by (rule keeps_if [OF keeps_cerr tail])
    qed (simp add: keeps_cret)
  qed
qed

lemma keeps_delete_by_owner: "keeps (conn_ok sha C) (delete_by_owner o')"
  unfolding delete_by_owner_def
  by (intro keeps_cbind keeps_query keeps_cret keeps_statement) (auto simp: rows_ok_filter)

lemma keeps_delete_all: "keeps (conn_ok sha C) delete_all"
  unfolding delete_all_def
  by (intro keeps_cbind keeps_query keeps_cret keeps_statement) (auto simp: rows_ok_def)

lemma keeps_features: "keeps (conn_ok sha C) (insert_feature_set h fs)"
proof (induction fs)
  case (Cons kv fs)
  have "keeps (conn_ok sha C) (statement (insert_feature h kv))"
    by (rule keeps_statement) (auto simp: insert_feature_def rows_ok_def split: if_splits)
  then show ?case using Cons.IH by (simp add: keeps_cbind)
qed (simp add: keeps_cret)

lemma insert_batched_ok:
  assumes ins: "insert_batched sha C m cache k = (r, k')" and k: "conn_ok sha C k" and free: "no_counterpart sha C m (cn_db k)"
  shows "conn_ok sha C k'"
proof -
  define h where "h = features_hash sha (m_features m)"
  obtain y k2 where sets: "(if h \<in> ss_features cache then cret () else insert_feature_set h (m_features m)) k = (y, k2)" by fastforce
  have k2: "conn_ok sha C k2"
    using keepsD [OF keeps_features, of h "m_features m" k y k2] sets k by (auto simp: cret_def split: if_splits)
  have rows: "\<exists>v. y = Inr v \<Longrightarrow> db_rows (cn_db k2) = db_rows (cn_db k)"
    using sets insert_feature_set_cases [of h "m_features m" k y k2] by (auto simp: cret_def split: if_splits)
  obtain z k3 where row: "statement (insert_row sha C m) k2 = (z, k3)" by fastforce
  show ?thesis
  proof (cases y)
    case (Inl e)
    then show ?thesis using ins sets k2 by (auto simp: insert_batched_def Let_def h_def [symmetric] cbind_def)
  next
    case (Inr v)
    have "no_counterpart sha C m (cn_db k2)" using free rows Inr by (simp add: no_counterpart_def)
    then have "conn_ok sha C k3"
      using statement_ok [OF k2 row] insert_row_ok k2 by (metis conn_ok_def list.set_intros(1))
    then show ?thesis
      using ins sets Inr row
      by (auto simp: insert_batched_def Let_def h_def [symmetric] cbind_def cret_def split: sum.splits)
  qed
qed

text \<open>The check for a counterpart comes before the row goes in.\<close>

lemma check_forecast_family_free_ok:
  assumes check: "check_forecast_family_free (sqlite_catalog ro sha C) m k = (x, k1)" and k: "conn_ok sha C k"
  shows "conn_ok sha C k1" "x = Inr u \<Longrightarrow> no_counterpart sha C m (cn_db k1)"
proof -
  have "conn_ok sha C k1 \<and> (\<forall>u. x = Inr u \<longrightarrow> no_counterpart sha C m (cn_db k1))"
  proof (cases "exclusive_counterpart (m_type m)")
    case None
    then show ?thesis using check k by (auto simp: check_forecast_family_free_def cret_def no_counterpart_def)
  next
    case (Some t)
    obtain y k2 where q: "forecast_family_conflict sha C m t k = (y, k2)" by fastforce
    have "conn_ok sha C k2"
      using q by (auto simp: forecast_family_conflict_def intro: keepsD [OF keeps_query _ k])
    moreover have "no_counterpart sha C m (cn_db k2)" if "y = Inr False"
      using query_Inr [OF q [unfolded forecast_family_conflict_def that]] Some
      by (auto simp: no_counterpart_def family_rows_def list_ex_iff)
    ultimately show ?thesis
      using check Some q
      by (cases y) (auto simp: check_forecast_family_free_def cbind_def cret_def cerr_def sqlite_catalog_def split: if_splits)
  qed
  then show "conn_ok sha C k1" "x = Inr u \<Longrightarrow> no_counterpart sha C m (cn_db k1)" by blast+
qed

lemma keeps_insert_association: "keeps (conn_ok sha C) (insert_association (sqlite_catalog ro sha C) m cache)"
proof -
  let ?K = "sqlite_catalog ro sha C"
  have "conn_ok sha C k'" if run: "insert_association ?K m cache k = (r, k')" and k: "conn_ok sha C k" for r k k'
  proof -
    obtain x k1 where check: "check_forecast_family_free ?K m k = (x, k1)" by fastforce
    note free = check_forecast_family_free_ok [OF check k]
    show ?thesis
    proof (cases x)
      case (Inl e)
      then show ?thesis using run check free(1) by (simp add: insert_association_def cbind_def)
    next
      case (Inr u)
      then have "insert_batched sha C m cache k1 = (r, k')"
        using run check by (simp add: insert_association_def cbind_def sqlite_catalog_def)
      then show ?thesis using insert_batched_ok free Inr by blast
    qed
  qed
  then show ?thesis unfolding keeps_def by (metis prod.collapse)
qed

section \<open>The calls of the store\<close>

lemma keeps_calls:
  "keeps (conn_ok sha C) (c_savepoint (sqlite_catalog ro sha C))" "keeps (conn_ok sha C) (c_release (sqlite_catalog ro sha C))"
  "keeps (conn_ok sha C) (c_rollback (sqlite_catalog ro sha C))" "keeps (conn_ok sha C) (c_references (sqlite_catalog ro sha C) col h)"
  "keeps (conn_ok sha C) (c_delete (sqlite_catalog ro sha C) i owner)"
  "keeps (conn_ok sha C) (c_family_holds (sqlite_catalog ro sha C) d t)"
  "keeps (conn_ok sha C) (c_delete_all (sqlite_catalog ro sha C) owner)"
  "keeps (conn_ok sha C) (c_referenced_axes (sqlite_catalog ro sha C))"
  by (auto simp: sqlite_catalog_def hash_is_referenced_in_tx_def forecast_family_conflict_on_array_def referenced_timestamp_hashes_def
      split: option.splits intro: keeps_savepoint keeps_release keeps_roll_back keeps_query keeps_delete_by_id keeps_delete_by_owner
        keeps_delete_all)

lemmas keeps_rules = keeps_cret keeps_cerr keeps_cbind keeps_calls keeps_in_savepoint keeps_insert_association

lemma keeps_unreferenced_in: "keeps (conn_ok sha C) (unreferenced_in (sqlite_catalog ro sha C) hs col)"
proof -
  have "keeps (conn_ok sha C) (unreferenced_loop (sqlite_catalog ro sha C) col seen hs)" for seen
    by (induction hs arbitrary: seen) (auto intro!: keeps_rules)
  then show ?thesis by (simp add: unreferenced_in_def)
qed

lemma keeps_unreferenced: "keeps (conn_ok sha C) (unreferenced (sqlite_catalog ro sha C) f)"
  by (auto simp: unreferenced_def intro!: keeps_rules keeps_unreferenced_in)

lemma keeps_insert_rows: "keeps (conn_ok sha C) (insert_rows (sqlite_catalog ro sha C) ms cache)"
  by (induction ms arbitrary: cache) (auto intro!: keeps_rules split: prod.splits)

lemma keeps_insert_batch: "keeps (conn_ok sha C) (insert_batch (sqlite_catalog ro sha C) flush ms cache)"
  by (auto simp: insert_batch_def intro!: keeps_rules keeps_insert_rows)

lemma keeps_delete_ids: "keeps (conn_ok sha C) (delete_ids (sqlite_catalog ro sha C) owner seen ids)"
  by (induction ids arbitrary: seen) (auto intro!: keeps_rules split: option.splits)

lemma keeps_no_orphaned_dst: "keeps (conn_ok sha C) (check_no_orphaned_dst (sqlite_catalog ro sha C) rows)"
proof -
  have "keeps (conn_ok sha C) (orphaned_dst_loop (sqlite_catalog ro sha C) seen rows)" for seen
    by (induction rows arbitrary: seen) (auto intro!: keeps_rules)
  then show ?thesis by (simp add: check_no_orphaned_dst_def)
qed

lemma keeps_orphaned_axes: "keeps (conn_ok sha C) (orphaned_timestamp_vectors (sqlite_catalog ro sha C) s)"
  unfolding orphaned_timestamp_vectors_def
  by (intro keeps_cbind keeps_calls) (auto simp: keeps_def cerr_def split: prod.splits)

lemma write_catalog_ok:
  assumes "write_catalog (sqlite_catalog ro sha C) f st = (r, st')" "keeps (conn_ok sha C) f" "conn_ok sha C (s_catalog st)"
  shows "conn_ok sha C (s_catalog st')"
  using assms keepsD [OF keeps_in_savepoint [OF keeps_calls(1,2,3) assms(2)]]
  by (auto simp: write_catalog_def split: sum.splits prod.splits)

lemma unwind_ok: "conn_ok sha C (s_catalog st) \<Longrightarrow> conn_ok sha C (s_catalog (unwind_written (sqlite_catalog ro sha C) f st))"
  by (auto simp: unwind_written_def Let_def split: sum.splits prod.splits dest: keepsD [OF keeps_unreferenced])

lemma add_ok:
  assumes "add_requests (sqlite_catalog ro sha C) iter order sha C items st = (r, st')" "conn_ok sha C (s_catalog st)"
  shows "conn_ok sha C (s_catalog st')"
proof -
  obtain q staged st1 where one: "add_requests_staged (sqlite_catalog ro sha C) iter order sha C items st = (q, staged, st1)"
    by (metis prod_cases3)
  have "s_catalog st' = s_catalog st1"
    using assms(1) one by (auto simp: add_requests_def settle_def split: sum.splits failure.splits if_splits)
  moreover have "conn_ok sha C (s_catalog st1)"
    if "add_parts (sqlite_catalog ro sha C) iter order C xs st = (x, staged, st1)" for xs x
  proof -
    have "s_catalog (if in_transaction st then invalidate_shared_sets st else st) = s_catalog st"
      by (simp add: invalidate_shared_sets_def)
    then show ?thesis
      using that assms(2)
      by (auto simp: add_parts_def Let_def split: sum.splits prod.splits dest: keepsD [OF keeps_insert_batch])
  qed
  ultimately show ?thesis
    using one assms(2) by (auto simp: add_requests_staged_def split: if_splits sum.splits prod.splits)
qed

lemma step_ok:
  assumes ok: "conn_ok sha C (s_catalog st)" and step: "txn_step (sqlite_catalog ro sha C) iter order sha C st st'"
  shows "conn_ok sha C (s_catalog st')"
  using step
proof cases
  case (step_begin r)
  then show ?thesis using ok
    by (auto simp: begin_transaction_def split: sum.splits prod.splits dest: keepsD [OF keeps_calls(1)])
next
  case (step_commit r)
  then show ?thesis using ok
    by (auto simp: commit_transaction_def commit_outermost_def split: sum.splits prod.splits if_splits
        dest: keepsD [OF keeps_calls(2)] keepsD [OF keeps_unreferenced])
next
  case (step_rollback r)
  then show ?thesis using ok
    by (auto simp: rollback_transaction_def Let_def split: sum.splits prod.splits if_splits
        intro!: unwind_ok dest: keepsD [OF keeps_calls(3)])
next
  case (step_add items r)
  then show ?thesis by (rule add_ok [OF _ ok])
next
  case (step_remove ids owner r)
  have free: "s_catalog (free_or_defer g st1) = s_catalog st1" for g and st1 :: "connection store" by (simp add: free_or_defer_def)
  define f where "f = cbind (delete_ids (sqlite_catalog ro sha C) owner {} ids) (\<lambda>rows.
      cbind (check_no_orphaned_dst (sqlite_catalog ro sha C) (filter (\<lambda>r. d_type r = SingleTimeSeries) rows)) (\<lambda>_.
      cbind (unreferenced_in (sqlite_catalog ro sha C) (map d_data_hash rows) DataHash) (\<lambda>as.
        cret (length rows, \<lparr>fo_arrays = as, fo_timestamps = []\<rparr>))))"
  have f: "keeps (conn_ok sha C) f"
    unfolding f_def by (intro keeps_rules keeps_delete_ids keeps_no_orphaned_dst keeps_unreferenced_in)
  obtain x st1 where w: "write_catalog (sqlite_catalog ro sha C) f st = (x, st1)" by fastforce
  have "s_catalog st' = s_catalog st1"
    using step_remove w by (cases x) (auto simp: remove_by_ids_inner_def f_def free)
  then show ?thesis using write_catalog_ok [OF w f ok] by simp
next
  case (step_clear owner r)
  have free: "s_catalog (free_or_defer g st1) = s_catalog st1" for g and st1 :: "connection store" by (simp add: free_or_defer_def)
  define f where "f = cbind (c_delete_all (sqlite_catalog ro sha C) owner) (\<lambda>removed.
      cbind (unreferenced_in (sqlite_catalog ro sha C) removed DataHash) (\<lambda>as. cret (length removed, as)))"
  have f: "keeps (conn_ok sha C) f" unfolding f_def by (intro keeps_rules keeps_unreferenced_in)
  obtain x st1 where w: "write_catalog (sqlite_catalog ro sha C) f (invalidate_shared_sets st) = (x, st1)" by fastforce
  have ok1: "conn_ok sha C (s_catalog st1)" by (rule write_catalog_ok [OF w f]) (simp add: ok invalidate_shared_sets_def)
  obtain swept k where sw: "orphaned_timestamp_vectors (sqlite_catalog ro sha C) (as_backend (s_arrays st1)) (s_catalog st1) = (swept, k)"
    by fastforce
  have "s_catalog st' = s_catalog st1 \<or> s_catalog st' = k"
    using step_clear w sw by (cases x) (auto simp: clear_time_series_def Let_def f_def free split: sum.splits)
  then show ?thesis using ok1 keepsD [OF keeps_orphaned_axes sw ok1] by auto
qed

end
