(* ===== verification/ForecastLayout.thy ===== *)
theory ForecastLayout
  imports ForecastReads
begin

text \<open>
  What building a forecast reader establishes: the entries in identity order, one slot per array,
  read plan and element type, and slots that fit the arrays they read, which is what reading relies
  on.
\<close>

section \<open>Slots and entries\<close>

definition slot_key :: "window_slot \<Rightarrow> slot_key" where
  "slot_key s = (ws_hash s, ws_read s, ws_element_type s)"

lemma slot_key_new [simp]: "slot_key (new_slot m s n ws plan) = (m_data_hash m, plan, m_element_type m)"
  by (simp add: slot_key_def new_slot_def)








section \<open>Properties\<close>









end
