(* ===== verification/Transform.thy ===== *)
theory Transform
  imports Materialize PeriodGrid
begin

text \<open>
  Deriving forecasts from single series, as \<open>TransformPlan\<close> of \<open>crates/infrastore-core/src/store.rs\<close>
  plans it: for each distinct grid of the stored series the interval and the number of windows a derived
  view gets, or the reason the request cannot be met. The plan's map is an association list in the order
  its entries went in.
\<close>

section \<open>The plan\<close>

record static_consistency =
  sc_resolution :: period
  sc_initial_timestamp :: datetime
  sc_length :: nat

record forecast_parameters =
  fp_horizon :: "period option"
  fp_interval :: "period option"
  fp_count :: "nat option"
  fp_resolution :: "period option"
  fp_initial_timestamp :: "datetime option"

definition default_parameters :: forecast_parameters where
  "default_parameters =
     \<lparr>fp_horizon = None, fp_interval = None, fp_count = None, fp_resolution = None, fp_initial_timestamp = None\<rparr>"

record transform_policy =
  tp_dry_run :: bool
  tp_normalize_single_window :: bool
  tp_require_uniform_forecast_grid :: bool

record grid_plan =
  gp_interval :: period
  gp_count :: nat

record transform_plan =
  pl_by_resolution :: "(period \<times> grid_plan) list"
  pl_interval :: period
  pl_count :: nat
  pl_interval_normalized :: bool
  pl_horizon :: period
  pl_initial_timestamp :: datetime

fun period_ms :: "chrono \<Rightarrow> period \<Rightarrow> int" where
  "period_ms C (Fixed d) = num_milliseconds C d"
| "period_ms C (Months m) = m"

subsection \<open>One grid\<close>

definition stored_interval ::
    "chrono \<Rightarrow> period \<Rightarrow> period \<Rightarrow> transform_policy \<Rightarrow> static_consistency \<Rightarrow> nat \<Rightarrow> (period \<times> bool) result" where
  "stored_interval C hor requested policy g h =
     (if sc_length g = h \<and> requested = hor
      then Inr (if tp_normalize_single_window policy then zero_period else requested, True)
      else if same_kind requested hor \<and> period_ms C hor < period_ms C requested
      then Inl (InvalidParameter ''the interval is longer than the horizon'')
      else Inr (requested, False))"

definition window_steps :: "chrono \<Rightarrow> static_consistency \<Rightarrow> nat \<Rightarrow> period \<Rightarrow> (nat \<times> nat) result" where
  "window_steps C g h itv =
     (if is_zero itv
      then if h \<noteq> sc_length g then Inl (InvalidParameter ''the horizon does not span the series'') else Inr (1, 1)
      else rbind (map_err (\<lambda>_. InvalidParameter ''interval must be a multiple of the resolution'')
                    (divide_into C (sc_resolution g) itv)) (\<lambda>steps.
             Inr ((sc_length g - h) div steps + 1, steps)))"

definition unanchored_window :: "chrono \<Rightarrow> static_consistency \<Rightarrow> nat \<Rightarrow> nat \<Rightarrow> nat \<Rightarrow> nat option" where
  "unanchored_window C g h cnt steps =
     find (\<lambda>k. \<not> sub_grid_is_anchorable C (sc_resolution g) (sc_initial_timestamp g) (k * steps) h) [0..<cnt]"

definition derive_grid ::
    "chrono \<Rightarrow> period \<Rightarrow> period \<Rightarrow> transform_policy \<Rightarrow> static_consistency \<Rightarrow> (grid_plan \<times> bool) result" where
  "derive_grid C hor requested policy g =
     rbind (map_err (\<lambda>_. InvalidParameter ''the horizon is not divisible by the resolution'') (compute_h C hor (sc_resolution g))) (\<lambda>h.
     if sc_length g < h then Inl (InvalidParameter ''the horizon exceeds the series'')
     else rbind (stored_interval C hor requested policy g h) (\<lambda>(itv, normalized).
       rbind (window_steps C g h itv) (\<lambda>(cnt, steps).
         if is_irregular (sc_resolution g) \<and> unanchored_window C g h cnt steps \<noteq> None
         then Inl (InvalidParameter ''a window could not describe the timestamps of its source'')
         else Inr (\<lparr>gp_interval = itv, gp_count = cnt\<rparr>, normalized))))"

subsection \<open>All of them\<close>

text \<open>\<open>agreed\<close> holds the first grid's interval and count.\<close>

definition check_agreed ::
    "transform_policy \<Rightarrow> static_consistency \<Rightarrow> (period \<times> nat) option \<Rightarrow> static_consistency \<Rightarrow> grid_plan \<Rightarrow>
     (period \<times> nat) result" where
  "check_agreed policy first agreed g p =
     (case agreed of
        None \<Rightarrow> Inr (gp_interval p, gp_count p)
      | Some (itv, n) \<Rightarrow>
          if tp_require_uniform_forecast_grid policy \<and> (itv \<noteq> gp_interval p \<or> n \<noteq> gp_count p)
          then Inl (InvalidParameter ''different window parameters per resolution'')
          else if tp_require_uniform_forecast_grid policy \<and> sc_initial_timestamp g \<noteq> sc_initial_timestamp first
          then Inl (InvalidParameter ''different initial timestamps'')
          else Inr (itv, n))"

definition plan_insert :: "period \<Rightarrow> grid_plan \<Rightarrow> (period \<times> grid_plan) list \<Rightarrow> (period \<times> grid_plan) list" where
  "plan_insert res p ps = filter (\<lambda>(r, _). r \<noteq> res) ps @ [(res, p)]"

fun derive_grids ::
    "chrono \<Rightarrow> period \<Rightarrow> period \<Rightarrow> transform_policy \<Rightarrow> static_consistency \<Rightarrow> static_consistency list \<Rightarrow>
     (period \<times> grid_plan) list \<Rightarrow> (period \<times> nat) option \<Rightarrow> bool \<Rightarrow>
     ((period \<times> grid_plan) list \<times> (period \<times> nat) option \<times> bool) result" where
  "derive_grids C hor requested policy first [] ps agreed normalized = Inr (ps, agreed, normalized)"
| "derive_grids C hor requested policy first (g # gs) ps agreed normalized =
     rbind (derive_grid C hor requested policy g) (\<lambda>(p, single).
     rbind (check_agreed policy first agreed g p) (\<lambda>agreed'.
       derive_grids C hor requested policy first gs (plan_insert (sc_resolution g) p ps) (Some agreed') (normalized \<or> single)))"

definition derive :: "chrono \<Rightarrow> static_consistency list \<Rightarrow> period \<Rightarrow> period \<Rightarrow> transform_policy \<Rightarrow> transform_plan option result" where
  "derive C grids hor requested policy =
     (case grids of
        [] \<Rightarrow> Inr None
      | first # _ \<Rightarrow>
          rbind (derive_grids C hor requested policy first grids [] None False) (\<lambda>(ps, agreed, normalized).
            Inr (Some \<lparr>pl_by_resolution = ps, pl_interval = fst (the agreed), pl_count = snd (the agreed),
                       pl_interval_normalized = normalized, pl_horizon = hor,
                       pl_initial_timestamp = sc_initial_timestamp first\<rparr>)))"

definition for_resolution :: "transform_plan \<Rightarrow> period \<Rightarrow> grid_plan result" where
  "for_resolution plan res = ok_or (map_of (pl_by_resolution plan) res) (IntegrityError ''no static grid for the resolution'')"

definition check_compatible_with :: "transform_plan \<Rightarrow> forecast_parameters \<Rightarrow> unit result" where
  "check_compatible_with plan existing =
     (case fp_count existing of
        None \<Rightarrow> Inr ()
      | Some n \<Rightarrow>
          if n \<noteq> pl_count plan then Inl (InvalidParameter ''the stored forecast count differs'')
          else if (case fp_initial_timestamp existing of None \<Rightarrow> False | Some t \<Rightarrow> t \<noteq> pl_initial_timestamp plan)
          then Inl (InvalidParameter ''the stored forecast initial_timestamp differs'')
          else if (case fp_horizon existing of None \<Rightarrow> False | Some h \<Rightarrow> h \<noteq> pl_horizon plan)
          then Inl (InvalidParameter ''the stored forecast horizon differs'')
          else Inr ())"

definition derived_view_row :: "ts_metadata \<Rightarrow> period \<Rightarrow> period \<Rightarrow> nat \<Rightarrow> ts_metadata" where
  "derived_view_row src hor itv cnt =
     src\<lparr>m_type := DeterministicSingleTimeSeries, m_horizon := Some hor, m_interval := Some itv, m_count := Some cnt,
         m_id := None\<rparr>"

section \<open>What a plan promises\<close>

text \<open>The windows of a view: \<open>count\<close> of them, \<open>h\<close> steps each, \<open>stride\<close> steps apart, as reading the view
  computes them. They fit the series, one more would not, and each is the grid of the resolution started
  at its own first instant.\<close>

definition windows_fit ::
    "chrono \<Rightarrow> period \<Rightarrow> static_consistency \<Rightarrow> grid_plan \<Rightarrow> nat \<Rightarrow> nat \<Rightarrow> bool" where
  "windows_fit C hor g p h stride \<longleftrightarrow>
     compute_h C hor (sc_resolution g) = Inr h \<and> derived_interval C (sc_resolution g) (gp_interval p) (gp_count p) = Inr stride \<and>
     0 < h \<and> 0 < gp_count p \<and> (gp_count p - 1) * stride + h \<le> sc_length g \<and>
     (if stride = 0 then h = sc_length g \<and> gp_count p = 1 else sc_length g < gp_count p * stride + h)"

definition windows_anchored ::
    "chrono \<Rightarrow> static_consistency \<Rightarrow> grid_plan \<Rightarrow> nat \<Rightarrow> nat \<Rightarrow> bool" where
  "windows_anchored C g p h stride \<longleftrightarrow>
     (\<forall>k < gp_count p. \<forall>at. add_to C (sc_resolution g) (sc_initial_timestamp g) (int (k * stride)) = Some at \<longrightarrow>
        (\<forall>j < h. add_to C (sc_resolution g) at (int j) =
           add_to C (sc_resolution g) (sc_initial_timestamp g) (int (k * stride + j))))"

lemma ratio_pos: "ratio a b = Inr n \<Longrightarrow> 0 < n"
proof -
  assume r: "ratio a b = Inr n"
  then have ab: "0 < b" "0 < a" "remt a b = 0" "n = nat (quot a b)" by (auto simp: ratio_def split: if_splits)
  then have "quot a b = a div b" "a = a div b * b" by (simp_all add: quot_def remt_def mult.commute)
  then have "0 < a div b" using ab(1,2) by (metis zero_less_mult_pos2)
  then show "0 < n" using ab(4) \<open>quot a b = a div b\<close> by simp
qed

lemma divide_into_pos: "divide_into C p q = Inr n \<Longrightarrow> 0 < n"
  by (cases p; cases q) (auto dest: ratio_pos)

lemma compute_h_pos: "compute_h C hor res = Inr h \<Longrightarrow> 0 < h"
  by (auto simp: compute_h_def map_err_Inr_iff dest: divide_into_pos)

lemma derive_grid_fits:
  assumes run: "derive_grid C hor requested policy g = Inr (p, normalized)"
  shows "\<exists>h stride. windows_fit C hor g p h stride \<and>
    (is_irregular (sc_resolution g) \<longrightarrow>
       (\<forall>k < gp_count p. sub_grid_is_anchorable C (sc_resolution g) (sc_initial_timestamp g) (k * stride) h))"
proof -
  obtain h itv cnt steps where h: "compute_h C hor (sc_resolution g) = Inr h" "h \<le> sc_length g"
    and itv: "stored_interval C hor requested policy g h = Inr (itv, normalized)"
    and w: "window_steps C g h itv = Inr (cnt, steps)"
    and ok: "\<not> (is_irregular (sc_resolution g) \<and> unanchored_window C g h cnt steps \<noteq> None)"
    and p: "p = \<lparr>gp_interval = itv, gp_count = cnt\<rparr>"
    using run by (auto simp: derive_grid_def rbind_Inr_iff map_err_Inr_iff split: if_splits)
  have hp: "0 < h" using compute_h_pos [OF h(1)] .
  have anchored: "sub_grid_is_anchorable C (sc_resolution g) (sc_initial_timestamp g) (k * steps) h"
    if "is_irregular (sc_resolution g)" "k < cnt" for k
    using ok that by (auto simp: unanchored_window_def find_None_iff)
  show ?thesis
  proof (cases "is_zero itv")
    case True
    then have c: "h = sc_length g" "cnt = 1" "steps = 1" using w by (auto simp: window_steps_def split: if_splits)
    have "windows_fit C hor g p h 0" using h hp True c by (simp add: windows_fit_def p derived_interval_def)
    then show ?thesis using anchored c p by (intro exI [of _ h] exI [of _ 0]) auto
  next
    case False
    then have s: "divide_into C (sc_resolution g) itv = Inr steps" "cnt = (sc_length g - h) div steps + 1"
      using w by (auto simp: window_steps_def rbind_Inr_iff map_err_Inr_iff)
    have sp: "0 < steps" using divide_into_pos [OF s(1)] .
    have "(cnt - 1) * steps + h \<le> sc_length g" using s(2) h(2)
      by (metis add_diff_cancel_right' add_le_cancel_right div_times_less_eq_dividend le_add_diff_inverse2)
    moreover have "sc_length g < cnt * steps + h"
      using dividend_less_div_times [OF sp, of "sc_length g - h"] s(2) h(2) by simp
    ultimately have "windows_fit C hor g p h steps"
      using h hp s sp False by (simp add: windows_fit_def p derived_interval_def)
    then show ?thesis using anchored p by (intro exI [of _ h] exI [of _ steps]) auto
  qed
qed

lemma map_of_plan_insert: "map_of (plan_insert res p ps) r = (if r = res then Some p else map_of ps r)"
proof -
  have "map_of (filter (\<lambda>(r, _). r \<noteq> res) ps) r = (if r = res then None else map_of ps r)"
    by (induction ps) auto
  then show ?thesis by (simp add: plan_insert_def map_add_def split: option.split)
qed

text \<open>What the loop has done once it is through: each grid has its plan, and under the uniform policy
  every plan is the first one's.\<close>

lemma derive_grids_Inr:
  assumes "derive_grids C hor requested policy first gs ps agreed normalized = Inr (ps', agreed', normalized')"
    and "distinct (map sc_resolution gs)"
  shows "(\<forall>r. r \<notin> sc_resolution ` set gs \<longrightarrow> map_of ps' r = map_of ps r) \<and>
    (\<forall>x. agreed = Some x \<longrightarrow> agreed' = Some x) \<and> (agreed = None \<longrightarrow> gs \<noteq> [] \<longrightarrow> agreed' \<noteq> None) \<and>
    (\<forall>g \<in> set gs. \<exists>p. map_of ps' (sc_resolution g) = Some p \<and>
       (\<exists>single. derive_grid C hor requested policy g = Inr (p, single)) \<and>
       (tp_require_uniform_forecast_grid policy \<longrightarrow> agreed' = Some (gp_interval p, gp_count p) \<and>
          (sc_initial_timestamp g = sc_initial_timestamp first \<or> agreed = None \<and> g = hd gs)))"
  using assms
proof (induction gs arbitrary: ps agreed normalized)
  case Nil
  then show ?case by simp
next
  case (Cons g gs)
  from Cons.prems(1) obtain p single ag where g: "derive_grid C hor requested policy g = Inr (p, single)"
    and ag: "check_agreed policy first agreed g p = Inr ag"
    and rest: "derive_grids C hor requested policy first gs (plan_insert (sc_resolution g) p ps) (Some ag) (normalized \<or> single) =
      Inr (ps', agreed', normalized')"
    by (auto simp: rbind_Inr_iff)
  have new: "sc_resolution g \<notin> sc_resolution ` set gs" using Cons.prems(2) by auto
  note IH = Cons.IH [OF rest] 
  have d: "distinct (map sc_resolution gs)" using Cons.prems(2) by simp
  have keep: "agreed = Some ag \<or> agreed = None \<and> ag = (gp_interval p, gp_count p)"
    using ag by (auto simp: check_agreed_def split: option.splits if_splits)
  have uniform: "ag = (gp_interval p, gp_count p) \<and> (sc_initial_timestamp g = sc_initial_timestamp first \<or> agreed = None)"
    if "tp_require_uniform_forecast_grid policy"
    using ag that by (auto simp: check_agreed_def split: option.splits if_splits)
  have here: "map_of ps' (sc_resolution g) = Some p" "agreed' = Some ag"
    using IH [OF d] new by (auto simp: map_of_plan_insert)
  have others: "map_of ps' r = map_of ps r" if "r \<notin> sc_resolution ` set (g # gs)" for r
    using IH [OF d] that by (auto simp: map_of_plan_insert)
  have tail: "\<forall>g' \<in> set gs. \<exists>p. map_of ps' (sc_resolution g') = Some p \<and>
       (\<exists>single. derive_grid C hor requested policy g' = Inr (p, single)) \<and>
       (tp_require_uniform_forecast_grid policy \<longrightarrow> agreed' = Some (gp_interval p, gp_count p) \<and>
          sc_initial_timestamp g' = sc_initial_timestamp first)"
    using IH [OF d] by auto
  show ?case
    using here others tail keep uniform g by auto
qed

lemma derive_Inr:
  assumes "derive C grids hor requested policy = Inr (Some plan)" "distinct (map sc_resolution grids)" "g \<in> set grids"
  shows "\<exists>p single. for_resolution plan (sc_resolution g) = Inr p \<and> derive_grid C hor requested policy g = Inr (p, single) \<and>
    (tp_require_uniform_forecast_grid policy \<longrightarrow> gp_interval p = pl_interval plan \<and> gp_count p = pl_count plan \<and>
       sc_initial_timestamp g = pl_initial_timestamp plan)"
proof -
  obtain first rest where gs: "grids = first # rest" using assms(3) by (cases grids) auto
  obtain ps agreed normalized where loop: "derive_grids C hor requested policy first grids [] None False = Inr (ps, agreed, normalized)"
    and plan: "plan = \<lparr>pl_by_resolution = ps, pl_interval = fst (the agreed), pl_count = snd (the agreed),
      pl_interval_normalized = normalized, pl_horizon = hor, pl_initial_timestamp = sc_initial_timestamp first\<rparr>"
    using assms(1) gs by (auto simp: derive_def rbind_Inr_iff simp del: derive_grids.simps)
  from derive_grids_Inr [OF loop assms(2)] assms(3)
  obtain p single where p: "map_of ps (sc_resolution g) = Some p" "derive_grid C hor requested policy g = Inr (p, single)"
    and u: "tp_require_uniform_forecast_grid policy \<longrightarrow> agreed = Some (gp_interval p, gp_count p) \<and>
      (sc_initial_timestamp g = sc_initial_timestamp first \<or> g = hd grids)"
    by (elim conjE) (drule bspec [of _ _ g], assumption, blast)
  show ?thesis using p u gs by (intro exI [of _ p] exI [of _ single]) (auto simp: for_resolution_def plan)
qed

section \<open>Properties\<close>

text \<open>The plan of a transform. For every resolution in scope it holds the interval and the number of
  windows of the views to write, and those are right: the windows as reading a view computes them fit the
  series, one more would not, every window is the grid of the resolution started at its own first instant
  (so no step is read under another's date), and under the uniform policy all resolutions have one
  interval, one count and one start.\<close>

theorem derived_windows_fit:
  assumes "chrono_laws C dim tod" "derive C grids hor requested policy = Inr (Some plan)"
    and "distinct (map sc_resolution grids)" "g \<in> set grids"
    and "regular C (sc_initial_timestamp g)" "is_positive C (sc_resolution g)"
  shows "\<exists>p h stride. for_resolution plan (sc_resolution g) = Inr p \<and> windows_fit C hor g p h stride \<and>
    windows_anchored C g p h stride \<and>
    (\<not> tp_require_uniform_forecast_grid policy \<or> gp_interval p = pl_interval plan \<and> gp_count p = pl_count plan \<and>
       sc_initial_timestamp g = pl_initial_timestamp plan)"
proof -
  obtain p single where p: "for_resolution plan (sc_resolution g) = Inr p" "derive_grid C hor requested policy g = Inr (p, single)"
    and u: "tp_require_uniform_forecast_grid policy \<longrightarrow> gp_interval p = pl_interval plan \<and> gp_count p = pl_count plan \<and>
       sc_initial_timestamp g = pl_initial_timestamp plan"
    using derive_Inr [OF assms(2-4)] by blast
  obtain h stride where fit: "windows_fit C hor g p h stride"
    and anchored: "is_irregular (sc_resolution g) \<longrightarrow>
       (\<forall>k < gp_count p. sub_grid_is_anchorable C (sc_resolution g) (sc_initial_timestamp g) (k * stride) h)"
    using derive_grid_fits [OF p(2)] by blast
  have "sub_grid_is_anchorable C (sc_resolution g) (sc_initial_timestamp g) (k * stride) h" if "k < gp_count p" for k
    using anchored that by (cases "sc_resolution g") (simp_all del: sub_grid_is_anchorable.simps(2))
  then have "windows_anchored C g p h stride"
    using chrono_laws.anchorable_iff [OF assms(1,5,6)] unfolding windows_anchored_def by blast
  then show ?thesis using p(1) fit u by blast
qed

theorem derived_windows_fit_witness:
  "\<exists>plan p. derive gregorian
       [\<lparr>sc_resolution = Fixed (3600000 * 1000000), sc_initial_timestamp = day_2024 1 31, sc_length = 48\<rparr>,
        \<lparr>sc_resolution = Fixed (1800000 * 1000000), sc_initial_timestamp = day_2024 1 31, sc_length = 96\<rparr>]
       (Fixed (86400000 * 1000000)) (Fixed (43200000 * 1000000))
       \<lparr>tp_dry_run = False, tp_normalize_single_window = True, tp_require_uniform_forecast_grid = True\<rparr> = Inr (Some plan) \<and>
     for_resolution plan (Fixed (1800000 * 1000000)) = Inr p \<and> gp_count p = pl_count plan \<and> pl_count plan = 3"
proof -
  let ?gs = "[\<lparr>sc_resolution = Fixed (3600000 * 1000000), sc_initial_timestamp = day_2024 1 31, sc_length = 48\<rparr>,
        \<lparr>sc_resolution = Fixed (1800000 * 1000000), sc_initial_timestamp = day_2024 1 31, sc_length = 96\<rparr>]"
  let ?pol = "\<lparr>tp_dry_run = False, tp_normalize_single_window = True, tp_require_uniform_forecast_grid = True\<rparr>"
  let ?day = "Fixed (86400000 * 1000000)" and ?half = "Fixed (43200000 * 1000000)"
  let ?p = "\<lparr>gp_interval = ?half, gp_count = 3\<rparr>"
  have div: "divide_into gregorian (Fixed (3600000 * 1000000)) ?day = Inr 24" "divide_into gregorian (Fixed (1800000 * 1000000)) ?day = Inr 48"
    "divide_into gregorian (Fixed (3600000 * 1000000)) ?half = Inr 12" "divide_into gregorian (Fixed (1800000 * 1000000)) ?half = Inr 24"
    by (simp_all add: gregorian_simps ratio_def quot_def remt_def)
  have grid: "derive_grid gregorian ?day ?half ?pol (?gs ! 0) = Inr (?p, False)" "derive_grid gregorian ?day ?half ?pol (?gs ! 1) = Inr (?p, False)"
    using div by (simp_all add: derive_grid_def compute_h_def stored_interval_def window_steps_def gregorian_simps quot_def
        del: divide_into.simps)
  have plan: "derive gregorian ?gs ?day ?half ?pol =
    Inr (Some \<lparr>pl_by_resolution = [(Fixed (3600000 * 1000000), ?p), (Fixed (1800000 * 1000000), ?p)],
      pl_interval = ?half, pl_count = 3, pl_interval_normalized = False, pl_horizon = ?day,
      pl_initial_timestamp = day_2024 1 31\<rparr>)" (is "_ = Inr (Some ?plan)")
    using grid by (simp add: derive_def check_agreed_def plan_insert_def)
  from derived_windows_fit [OF gregorian_laws plan, of "?gs ! 1"]
  have "\<exists>p. for_resolution ?plan (Fixed (1800000 * 1000000)) = Inr p \<and> gp_count p = 3"
    using regular_2024(1) by (auto simp: gregorian_simps quot_def remt_def)
  then show ?thesis using plan by auto
qed

end
