(* ===== verification/Listing.thy ===== *)
theory Listing
  imports Catalog Transform "HOL-Library.List_Lexorder" "HOL-Library.Char_ord"
begin

text \<open>
  The queries of \<open>MetadataStore\<close> in \<open>crates/infrastore-core/src/metadata.rs\<close> and of \<open>Store\<close> over them:
  filters and the predicate they render to, listing rows with their features and time axes, existence
  probes, identities, distinct grids, and the checks a transform, an import and a change of owner ask.
  SQLite returns rows in an order of its own (\<open>scan\<close>) and matches \<open>GLOB\<close> patterns (\<open>glob\<close>). The axis of a
  row is looked up in the array file by its hash (\<open>vectors\<close>).
\<close>

section \<open>Filters\<close>

datatype type_match = Requested time_series_type | Exact time_series_type

fun match_span :: "type_match \<Rightarrow> int \<times> int" where
  "match_span (Requested t) = code_span t"
| "match_span (Exact t) = (type_code t, type_code t)"

datatype nullable_period = NullPeriod | ValuePeriod period

record metadata_filter =
  mf_owner_id :: "int option"
  mf_owner_category :: "owner_category option"
  mf_owner_type :: "string option"
  mf_type :: "type_match option"
  mf_name :: "string option"
  mf_name_glob :: "string option"
  mf_component_field :: "string option"
  mf_zoneless :: "bool option"
  mf_resolution :: "period option"
  mf_resolution_identity :: "nullable_period option"
  mf_initial_timestamp :: "datetime option"
  mf_length :: "nat option"
  mf_interval :: "period option"
  mf_interval_identity :: "nullable_period option"
  mf_features :: "features option"
  mf_features_hash :: "hash option"
  mf_ids :: "int list option"

definition no_filter :: metadata_filter where
  "no_filter =
     \<lparr>mf_owner_id = None, mf_owner_category = None, mf_owner_type = None, mf_type = None, mf_name = None,
      mf_name_glob = None, mf_component_field = None, mf_zoneless = None, mf_resolution = None,
      mf_resolution_identity = None, mf_initial_timestamp = None, mf_length = None, mf_interval = None,
      mf_interval_identity = None, mf_features = None, mf_features_hash = None, mf_ids = None\<rparr>"

record list_filter =
  lf_owner_id :: "int option"
  lf_owner_category :: "owner_category option"
  lf_owner_type :: "string option"
  lf_type :: "time_series_type option"
  lf_name :: "string option"
  lf_name_glob :: "string option"
  lf_component_field :: "string option"
  lf_zoneless :: "bool option"
  lf_resolution :: "period option"
  lf_initial_timestamp :: "datetime option"
  lf_length :: "nat option"
  lf_interval :: "period option"
  lf_features :: "features option"
  lf_features_exact :: bool

definition filter_of :: "(byte list \<Rightarrow> hash) \<Rightarrow> list_filter \<Rightarrow> metadata_filter" where
  "filter_of sha f =
     \<lparr>mf_owner_id = lf_owner_id f, mf_owner_category = lf_owner_category f, mf_owner_type = lf_owner_type f,
      mf_type = map_option Requested (lf_type f), mf_name = lf_name f, mf_name_glob = lf_name_glob f,
      mf_component_field = lf_component_field f, mf_zoneless = lf_zoneless f, mf_resolution = lf_resolution f,
      mf_resolution_identity = None, mf_initial_timestamp = lf_initial_timestamp f, mf_length = lf_length f,
      mf_interval = lf_interval f, mf_interval_identity = None,
      mf_features = (if lf_features_exact f then None else lf_features f),
      mf_features_hash =
        (if lf_features_exact f
         then Some (features_hash sha (case lf_features f of None \<Rightarrow> [] | Some fs \<Rightarrow> fs)) else None),
      mf_ids = None\<rparr>"

fun nullable :: "period option \<Rightarrow> nullable_period" where
  "nullable None = NullPeriod"
| "nullable (Some p) = ValuePeriod p"

definition identity_filter :: "(byte list \<Rightarrow> hash) \<Rightarrow> key_identity \<Rightarrow> metadata_filter" where
  "identity_filter sha key =
     no_filter\<lparr>mf_owner_id := Some (k_owner_id key), mf_owner_category := Some (k_owner_category key),
       mf_type := Some (Exact (k_type key)), mf_name := Some (k_name key),
       mf_resolution_identity := Some (nullable (k_resolution key)),
       mf_interval_identity := Some (nullable (k_interval key)),
       mf_features_hash := Some (features_hash sha (k_features key))\<rparr>"

subsection \<open>The predicate\<close>

datatype span_form = RangeForm | InForm

definition form_of :: "metadata_filter \<Rightarrow> span_form" where
  "form_of f =
     (if mf_name f \<noteq> None \<or> mf_name_glob f \<noteq> None \<or> mf_resolution f \<noteq> None \<or> mf_resolution_identity f \<noteq> None \<or>
         mf_interval f \<noteq> None \<or> mf_interval_identity f \<noteq> None \<or> mf_features_hash f \<noteq> None
      then InForm else RangeForm)"

definition type_predicate :: "type_match \<Rightarrow> span_form \<Rightarrow> int \<Rightarrow> bool" where
  "type_predicate requested form code =
     (case match_span requested of (lo, hi) \<Rightarrow>
        if lo = hi then code = lo
        else case form of RangeForm \<Rightarrow> lo \<le> code \<and> code \<le> hi | InForm \<Rightarrow> code \<in> set [lo..hi])"

text \<open>One conjunct for each field that is set.\<close>

definition on :: "'a option \<Rightarrow> ('a \<Rightarrow> bool) \<Rightarrow> bool" where
  "on x p = (case x of None \<Rightarrow> True | Some a \<Rightarrow> p a)"

fun identity_text :: "chrono \<Rightarrow> nullable_period \<Rightarrow> string" where
  "identity_text C NullPeriod = ''''"
| "identity_text C (ValuePeriod p) = to_iso8601 C p"

definition period_clause :: "chrono \<Rightarrow> nullable_period option \<Rightarrow> period option \<Rightarrow> period option \<Rightarrow> bool" where
  "period_clause C identity plain column =
     (case identity of
        Some i \<Rightarrow> iso_or_empty C column = identity_text C i
      | None \<Rightarrow> on plain (\<lambda>p. map_option (to_iso8601 C) column = Some (to_iso8601 C p)))"

definition zoneless_clause :: "bool \<Rightarrow> time_reference option \<Rightarrow> bool" where
  "zoneless_clause zoneless r =
     (let column = map_option as_storage_string r
      in if zoneless then column = Some ZONELESS_LITERAL else column = None \<or> column \<noteq> Some ZONELESS_LITERAL)"

definition row_matches ::
    "(string \<Rightarrow> string \<Rightarrow> bool) \<Rightarrow> (byte list \<Rightarrow> hash) \<Rightarrow> chrono \<Rightarrow> metadata_filter \<Rightarrow> ts_metadata \<Rightarrow> bool" where
  "row_matches glob sha C f m \<longleftrightarrow>
     on (mf_ids f) (\<lambda>ids. list_ex (\<lambda>i. m_id m = Some i) ids) \<and>
     on (mf_owner_id f) (\<lambda>i. m_owner_id m = i) \<and>
     on (mf_owner_category f) (\<lambda>c. owner_category_code (m_owner_category m) = owner_category_code c) \<and>
     on (mf_owner_type f) (\<lambda>t. m_owner_type m = t) \<and>
     on (mf_type f) (\<lambda>t. type_predicate t (form_of f) (type_code (m_type m))) \<and>
     on (mf_name f) (\<lambda>n. m_name m = n) \<and>
     on (mf_name_glob f) (\<lambda>p. glob p (m_name m)) \<and>
     on (mf_component_field f) (\<lambda>c. m_component_field m = Some c) \<and>
     on (mf_zoneless f) (\<lambda>z. zoneless_clause z (m_time_reference m)) \<and>
     period_clause C (mf_resolution_identity f) (mf_resolution f) (m_resolution m) \<and>
     on (mf_initial_timestamp f) (\<lambda>t. m_initial_timestamp m = Some t) \<and>
     on (mf_length f) (\<lambda>n. map_option as_i64 (m_length m) = Some (as_i64 n)) \<and>
     period_clause C (mf_interval_identity f) (mf_interval f) (m_interval m) \<and>
     on (mf_features_hash f) (\<lambda>h. features_hash sha (m_features m) = h)"

section \<open>Listing rows\<close>

definition opt_period :: "chrono \<Rightarrow> period option \<Rightarrow> period option result" where
  "opt_period C p =
     (case p of None \<Rightarrow> Inr None | Some q \<Rightarrow> rbind (iso_to_period C (to_iso8601 C q)) (\<lambda>q'. Inr (Some q')))"

text \<open>
  A row is stored with its periods and time reference as text and parsed when it is read; a text that
  does not parse is an error of SQLite's row conversion. The other columns hold the value itself.
\<close>

definition opt_reference :: "time_reference option \<Rightarrow> time_reference option result" where
  "opt_reference r =
     (case r of None \<Rightarrow> Inr None | Some q \<Rightarrow> rbind (parse_reference (as_storage_string q)) (\<lambda>q'. Inr (Some q')))"

definition parse_meta_row :: "chrono \<Rightarrow> ts_metadata \<Rightarrow> ts_metadata result" where
  "parse_meta_row C m =
     map_err (\<lambda>_. SqliteError)
       (rbind (opt_reference (m_time_reference m)) (\<lambda>ref.
        rbind (opt_period C (m_resolution m)) (\<lambda>res.
        rbind (opt_period C (m_horizon m)) (\<lambda>hor.
        rbind (opt_period C (m_interval m)) (\<lambda>itv.
          Inr (m\<lparr>m_time_reference := ref, m_resolution := res, m_horizon := hor, m_interval := itv\<rparr>))))))"

fun lookup_feature :: "features \<Rightarrow> byte list \<Rightarrow> feature_value option" where
  "lookup_feature [] k = None"
| "lookup_feature ((k', v) # fs) k = (if k' = k then Some v else lookup_feature fs k)"

definition is_subset :: "features \<Rightarrow> features \<Rightarrow> bool" where
  "is_subset required actual \<longleftrightarrow>
     list_all (\<lambda>(k, v). case lookup_feature actual k of None \<Rightarrow> False | Some a \<Rightarrow> feature_eq a v) required"

text \<open>The rows of a feature set, collected into a map ordered by key.\<close>

definition stored_features :: "catalog_db \<Rightarrow> hash \<Rightarrow> features" where
  "stored_features db h =
     sort_by (\<lambda>a b. cmp_bytes (fst a) (fst b)) (map snd (filter (\<lambda>(h', _). h' = h) (db_features db)))"

fun fetch_axes ::
    "(hash \<Rightarrow> datetime list result) \<Rightarrow> hash list \<Rightarrow> (hash \<times> datetime list) list \<Rightarrow> (hash \<times> datetime list) list result" where
  "fetch_axes vectors [] got = Inr got"
| "fetch_axes vectors (h # hs) got =
     (if map_of got h \<noteq> None then fetch_axes vectors hs got
      else case vectors h of
             Inr ts \<Rightarrow> fetch_axes vectors hs ((h, ts) # got)
           | Inl e \<Rightarrow> if e = NotFound then fetch_axes vectors hs got else Inl e)"

fun fetch_features ::
    "(byte list \<Rightarrow> hash) \<Rightarrow> hash list \<Rightarrow> (hash \<times> features) list \<Rightarrow> (connection, (hash \<times> features) list) catalog_call" where
  "fetch_features sha [] got = cret got"
| "fetch_features sha (h # hs) got =
     (if h = features_hash sha [] \<or> map_of got h \<noteq> None then fetch_features sha hs got
      else cbind (statement (\<lambda>db. (Inr (stored_features db h), db))) (\<lambda>fs. fetch_features sha hs ((h, fs) # got)))"

definition row_axis :: "(byte list \<Rightarrow> hash) \<Rightarrow> chrono \<Rightarrow> ts_metadata \<Rightarrow> hash option" where
  "row_axis sha C m = map_option (timestamps_hash sha C) (m_timestamps m)"

definition features_of :: "(hash \<times> features) list \<Rightarrow> hash \<Rightarrow> features" where
  "features_of sets h = (case map_of sets h of None \<Rightarrow> [] | Some fs \<Rightarrow> fs)"

definition hydrated_axis ::
    "(hash \<Rightarrow> datetime list result) option \<Rightarrow> (hash \<times> datetime list) list \<Rightarrow> hash option \<Rightarrow> datetime list option result" where
  "hydrated_axis vectors axes axis =
     (case axis of
        None \<Rightarrow> Inr None
      | Some h \<Rightarrow>
          if vectors = None then Inr None
          else rbind (ok_or (map_of axes h) (IntegrityError ''the store does not hold the timestamp vector'')) (\<lambda>ts.
                 Inr (Some ts)))"

fun assemble ::
    "(byte list \<Rightarrow> hash) \<Rightarrow> chrono \<Rightarrow> metadata_filter \<Rightarrow> (hash \<Rightarrow> datetime list result) option \<Rightarrow>
     (hash \<times> features) list \<Rightarrow> (hash \<times> datetime list) list \<Rightarrow> ts_metadata list \<Rightarrow> ts_metadata list result" where
  "assemble sha C f vectors sets axes [] = Inr []"
| "assemble sha C f vectors sets axes (m # ms) =
     (let fs = features_of sets (features_hash sha (m_features m))
      in if on (mf_features f) (\<lambda>required. is_subset required fs)
         then rbind (hydrated_axis vectors axes (row_axis sha C m)) (\<lambda>ts.
                rbind (assemble sha C f vectors sets axes ms) (\<lambda>rows.
                  Inr (m\<lparr>m_features := fs, m_timestamps := ts\<rparr> # rows)))
         else assemble sha C f vectors sets axes ms)"

definition list_rows ::
    "(string \<Rightarrow> string \<Rightarrow> bool) \<Rightarrow> (ts_metadata list \<Rightarrow> ts_metadata list) \<Rightarrow> (byte list \<Rightarrow> hash) \<Rightarrow> chrono \<Rightarrow> metadata_filter \<Rightarrow>
     (hash \<Rightarrow> datetime list result) option \<Rightarrow> (connection, ts_metadata list) catalog_call" where
  "list_rows glob scan sha C f vectors =
     cbind (statement (\<lambda>db. (Inr (scan (filter (row_matches glob sha C f) (db_rows db))), db))) (\<lambda>found.
     cbind (\<lambda>k. (rmap_all (parse_meta_row C) found, k)) (\<lambda>rows.
     cbind (\<lambda>k. ((case vectors of None \<Rightarrow> Inr []
                   | Some v \<Rightarrow> fetch_axes v (List.map_filter (row_axis sha C) rows) []), k)) (\<lambda>axes.
     cbind (fetch_features sha (map (\<lambda>m. features_hash sha (m_features m)) rows) []) (\<lambda>sets k.
       (assemble sha C f vectors sets axes rows, k)))))"

section \<open>Rows by id\<close>

definition get_by_id ::
    "(string \<Rightarrow> string \<Rightarrow> bool) \<Rightarrow> (ts_metadata list \<Rightarrow> ts_metadata list) \<Rightarrow> (byte list \<Rightarrow> hash) \<Rightarrow> chrono \<Rightarrow>
     (hash \<Rightarrow> datetime list result) \<Rightarrow> int \<Rightarrow> (connection, ts_metadata option) catalog_call" where
  "get_by_id glob scan sha C vectors i =
     cbind (list_rows glob scan sha C (no_filter\<lparr>mf_ids := Some [i]\<rparr>) (Some vectors)) (\<lambda>rows.
       cret (if rows = [] then None else Some (last rows)))"

definition IDS_PER_QUERY :: nat where "IDS_PER_QUERY = 500"

function list_chunks ::
    "(int list \<Rightarrow> (connection, ts_metadata list) catalog_call) \<Rightarrow> int list \<Rightarrow> (connection, ts_metadata list) catalog_call" where
  "list_chunks query ids =
     (if ids = [] then cret []
      else cbind (query (take IDS_PER_QUERY ids)) (\<lambda>rows.
           cbind (list_chunks query (drop IDS_PER_QUERY ids)) (\<lambda>more. cret (rows @ more))))"
  by pat_completeness auto
termination by (relation "measure (length \<circ> snd)") (auto simp: IDS_PER_QUERY_def)

definition list_by_ids ::
    "(string \<Rightarrow> string \<Rightarrow> bool) \<Rightarrow> (ts_metadata list \<Rightarrow> ts_metadata list) \<Rightarrow> (byte list \<Rightarrow> hash) \<Rightarrow> chrono \<Rightarrow>
     (hash \<Rightarrow> datetime list result) option \<Rightarrow> int list \<Rightarrow> (connection, ts_metadata list) catalog_call" where
  "list_by_ids glob scan sha C vectors ids =
     list_chunks (\<lambda>chunk. list_rows glob scan sha C (no_filter\<lparr>mf_ids := Some chunk\<rparr>) vectors) (sorted_list_of_set (set ids))"

definition exists_by_id :: "int \<Rightarrow> (connection, bool) catalog_call" where
  "exists_by_id i = statement (\<lambda>db. (Inr (list_ex (\<lambda>m. m_id m = Some i) (db_rows db)), db))"

section \<open>Existence\<close>

text \<open>SQL compares a feature by kind and value: the zeros are equal, a NaN equals nothing.\<close>

fun sql_feature_eq :: "feature_value \<Rightarrow> feature_value \<Rightarrow> bool" where
  "sql_feature_eq (FInt a) (FInt b) = (a = b)"
| "sql_feature_eq (FFloat a) (FFloat b) =
     (\<not> is_nan64 a \<and> \<not> is_nan64 b \<and> (a = b \<or> a \<in> {0, 0x8000000000000000} \<and> b \<in> {0, 0x8000000000000000}))"
| "sql_feature_eq (FBool a) (FBool b) = (a = b)"
| "sql_feature_eq (FStr a) (FStr b) = (a = b)"
| "sql_feature_eq _ _ = False"

definition exists_feature_subset ::
    "(string \<Rightarrow> string \<Rightarrow> bool) \<Rightarrow> (byte list \<Rightarrow> hash) \<Rightarrow> chrono \<Rightarrow> metadata_filter \<Rightarrow> features \<Rightarrow> (connection, bool) catalog_call" where
  "exists_feature_subset glob sha C f required =
     (if list_ex (unstorable \<circ> snd) required then cret False
      else statement (\<lambda>db.
        (Inr (list_ex (\<lambda>m. row_matches glob sha C f m \<and>
           list_all (\<lambda>(k, v). list_ex (\<lambda>(h, k', v'). h = features_hash sha (m_features m) \<and> k' = k \<and> sql_feature_eq v' v)
             (db_features db)) required) (db_rows db)), db)))"

definition exists_plain ::
    "(string \<Rightarrow> string \<Rightarrow> bool) \<Rightarrow> (byte list \<Rightarrow> hash) \<Rightarrow> chrono \<Rightarrow> metadata_filter \<Rightarrow> (connection, bool) catalog_call" where
  "exists_plain glob sha C f = statement (\<lambda>db. (Inr (list_ex (row_matches glob sha C f) (db_rows db)), db))"

definition row_exists ::
    "(string \<Rightarrow> string \<Rightarrow> bool) \<Rightarrow> (byte list \<Rightarrow> hash) \<Rightarrow> chrono \<Rightarrow> metadata_filter \<Rightarrow> (connection, bool) catalog_call" where
  "row_exists glob sha C f =
     (case mf_features f of
        Some (kv # required) \<Rightarrow>
          cbind (if mf_features_hash f = None
                 then exists_plain glob sha C (f\<lparr>mf_features := None, mf_features_hash := Some (features_hash sha (kv # required))\<rparr>)
                 else cret False) (\<lambda>found.
            if found then cret True else exists_feature_subset glob sha C f (kv # required))
      | _ \<Rightarrow> exists_plain glob sha C f)"

section \<open>Identities and families\<close>

record series_family =
  sf_owner_id :: int
  sf_owner_category :: owner_category
  sf_name :: string
  sf_resolution :: "string option"
  sf_features_hash :: hash

record association_identity = series_family +
  ai_interval :: "string option"

definition family_of_identity :: "association_identity \<Rightarrow> series_family" where
  "family_of_identity a =
     \<lparr>sf_owner_id = sf_owner_id a, sf_owner_category = sf_owner_category a, sf_name = sf_name a,
      sf_resolution = sf_resolution a, sf_features_hash = sf_features_hash a\<rparr>"

definition identity_of :: "(byte list \<Rightarrow> hash) \<Rightarrow> chrono \<Rightarrow> ts_metadata \<Rightarrow> association_identity" where
  "identity_of sha C m =
     \<lparr>sf_owner_id = m_owner_id m, sf_owner_category = m_owner_category m, sf_name = m_name m,
      sf_resolution = map_option (to_iso8601 C) (m_resolution m), sf_features_hash = features_hash sha (m_features m),
      ai_interval = map_option (to_iso8601 C) (m_interval m)\<rparr>"

definition list_identities ::
    "(ts_metadata list \<Rightarrow> ts_metadata list) \<Rightarrow> (byte list \<Rightarrow> hash) \<Rightarrow> chrono \<Rightarrow> time_series_type \<Rightarrow>
     (connection, (association_identity \<times> period option) list) catalog_call" where
  "list_identities scan sha C t =
     cbind (statement (\<lambda>db. (Inr (scan (filter (\<lambda>m. type_code (m_type m) = type_code t) (db_rows db))), db))) (\<lambda>rows k.
       (rmap_all (\<lambda>m. rbind (opt_period C (m_horizon m)) (\<lambda>hor. Inr (identity_of sha C m, hor))) rows, k))"

section \<open>Grids\<close>

text \<open>A column that holds no value is not a string.\<close>

definition grid_columns :: "chrono \<Rightarrow> ts_metadata \<Rightarrow> (string \<times> datetime \<times> nat) result" where
  "grid_columns C m =
     (case (m_resolution m, m_initial_timestamp m, m_length m) of
        (Some res, Some at, Some len) \<Rightarrow> Inr (to_iso8601 C res, at, len)
      | _ \<Rightarrow> Inl SqliteError)"

definition distinct_single_grids ::
    "chrono \<Rightarrow> period option \<Rightarrow> owner_category option \<Rightarrow> (connection, (period \<times> datetime \<times> nat) list) catalog_call" where
  "distinct_single_grids C res cat =
     cbind (statement (\<lambda>db.
       (Inr (filter (\<lambda>m. m_type m = SingleTimeSeries \<and>
          on res (\<lambda>p. map_option (to_iso8601 C) (m_resolution m) = Some (to_iso8601 C p)) \<and>
          on cat (\<lambda>c. m_owner_category m = c)) (db_rows db)), db))) (\<lambda>rows k.
       (rbind (rmap_all (grid_columns C) rows) (\<lambda>cols.
        rmap_all (\<lambda>(text, at, len). rbind (iso_to_period C text) (\<lambda>p. Inr (p, at, len)))
          (sort_key fst (remdups cols))), k))"

fun collect_grids :: "(period \<times> datetime \<times> nat) list \<Rightarrow> static_consistency list \<Rightarrow> static_consistency list result" where
  "collect_grids [] out = Inr out"
| "collect_grids ((res, at, len) # rows) out =
     (if out \<noteq> [] \<and> sc_resolution (last out) = res
      then Inl (IntegrityError ''more than one grid at one resolution'')
      else collect_grids rows (out @ [\<lparr>sc_resolution = res, sc_initial_timestamp = at, sc_length = len\<rparr>]))"

definition static_grids :: "chrono \<Rightarrow> period option \<Rightarrow> owner_category option \<Rightarrow> (connection, static_consistency list) catalog_call" where
  "static_grids C res cat = cbind (distinct_single_grids C res cat) (\<lambda>rows k. (collect_grids rows [], k))"

fun forecast_parameters_of ::
    "(metadata_filter \<Rightarrow> (connection, ts_metadata list) catalog_call) \<Rightarrow> period option \<Rightarrow> period option \<Rightarrow>
     time_series_type list \<Rightarrow> (connection, forecast_parameters) catalog_call" where
  "forecast_parameters_of query res itv [] = cret default_parameters"
| "forecast_parameters_of query res itv (t # ts) =
     cbind (query (no_filter\<lparr>mf_type := Some (Exact t), mf_resolution := res, mf_interval := itv\<rparr>)) (\<lambda>rows.
       case rows of
         [] \<Rightarrow> forecast_parameters_of query res itv ts
       | row # _ \<Rightarrow>
           cret \<lparr>fp_horizon = m_horizon row, fp_interval = m_interval row, fp_count = m_count row,
                 fp_resolution = m_resolution row, fp_initial_timestamp = m_initial_timestamp row\<rparr>)"

definition get_forecast_parameters ::
    "(string \<Rightarrow> string \<Rightarrow> bool) \<Rightarrow> (ts_metadata list \<Rightarrow> ts_metadata list) \<Rightarrow> (byte list \<Rightarrow> hash) \<Rightarrow> chrono \<Rightarrow>
     (hash \<Rightarrow> datetime list result) \<Rightarrow> period option \<Rightarrow> period option \<Rightarrow> (connection, forecast_parameters) catalog_call" where
  "get_forecast_parameters glob scan sha C vectors res itv =
     forecast_parameters_of (\<lambda>f. list_rows glob scan sha C f (Some vectors)) res itv
       [Deterministic, DeterministicSingleTimeSeries, Probabilistic, Scenarios]"

section \<open>Explicit ids and changes of owner\<close>

definition check_explicit_time_series_ids :: "int list \<Rightarrow> (connection, unit) catalog_call" where
  "check_explicit_time_series_ids ids =
     (if ids = [] then cret ()
      else case List.find (\<lambda>i. i \<le> 0) ids of
             Some bad \<Rightarrow> cerr (InvalidParameter ''association ids are positive integers'')
           | None \<Rightarrow>
               cbind (statement (\<lambda>db. (Inr (db_last_id db), db))) (\<lambda>high_water.
                 case List.find (\<lambda>i. i \<le> high_water) ids of
                   Some i \<Rightarrow> cerr (DuplicateAssociationId i)
                 | None \<Rightarrow> cret ()))"

text \<open>The series whose move would put both deterministic kinds in one family, as SQLite finds it first.\<close>

definition owner_move_conflicts ::
    "(byte list \<Rightarrow> hash) \<Rightarrow> chrono \<Rightarrow> int \<Rightarrow> int \<Rightarrow> owner_category \<Rightarrow> catalog_db \<Rightarrow>
     (string \<times> time_series_type \<times> time_series_type) list" where
  "owner_move_conflicts sha C old new cat db =
     concat (map (\<lambda>moving. if m_owner_id moving = old \<and> m_owner_category moving = cat
         then map (\<lambda>existing. (m_name moving, m_type moving, m_type existing))
           (filter (\<lambda>existing. same_family sha C (new, m_owner_category moving, m_name moving, m_resolution moving,
                 features_hash sha (m_features moving)) existing \<and>
               (m_type moving = Deterministic \<and> m_type existing = DeterministicSingleTimeSeries \<or>
                m_type moving = DeterministicSingleTimeSeries \<and> m_type existing = Deterministic)) (db_rows db))
         else []) (db_rows db))"

definition forecast_family_conflict_on_owner_move ::
    "(byte list \<Rightarrow> hash) \<Rightarrow> chrono \<Rightarrow> int \<Rightarrow> int \<Rightarrow> owner_category \<Rightarrow>
     (connection, (string \<times> time_series_type \<times> time_series_type) option) catalog_call" where
  "forecast_family_conflict_on_owner_move sha C old new cat =
     statement (\<lambda>db. (Inr (case owner_move_conflicts sha C old new cat db of [] \<Rightarrow> None | x # _ \<Rightarrow> Some x), db))"

text \<open>The unique index refuses the update when a moved row meets one the new owner already has.\<close>

definition update_owner :: "(byte list \<Rightarrow> hash) \<Rightarrow> chrono \<Rightarrow> int \<Rightarrow> int \<Rightarrow> owner_category \<Rightarrow> catalog_db \<Rightarrow> nat result \<times> catalog_db" where
  "update_owner sha C old new cat db =
     (let (moving, staying) = partition (owned_by (old, cat)) (db_rows db)
      in if list_ex (\<lambda>m. list_ex (\<lambda>r. row_identity sha C r = row_identity sha C (m\<lparr>m_owner_id := new\<rparr>)) staying) moving
         then (Inl DuplicateTimeSeries, db)
         else (Inr (length moving),
               db\<lparr>db_rows := map (\<lambda>m. if owned_by (old, cat) m then m\<lparr>m_owner_id := new\<rparr> else m) (db_rows db)\<rparr>))"

definition replace_owner_rows :: "(byte list \<Rightarrow> hash) \<Rightarrow> chrono \<Rightarrow> int \<Rightarrow> int \<Rightarrow> owner_category \<Rightarrow> (connection, nat) catalog_call" where
  "replace_owner_rows sha C old new cat = statement (update_owner sha C old new cat)"

end
