(* ===== verification/TxnAxes.thy ===== *)
theory TxnAxes
  imports TxnReach
begin

text \<open>
  What the calls on a store do to its time axes: none is ever replaced, and the only new ones are those of
  the requests being added, under the hash of their instants. So an axis read back is the one its hash
  names.
\<close>

section \<open>Axes and their hashes\<close>

definition axes_drawn :: "(hash \<times> int list) set \<Rightarrow> array_store \<Rightarrow> array_store \<Rightarrow> bool" where
  "axes_drawn A S S' \<longleftrightarrow>
     (\<forall>h ms. memory_backend.timestamps (as_backend S') h = Some ms \<longrightarrow>
        memory_backend.timestamps (as_backend S) h = Some ms \<or> (h, ms) \<in> A)"

definition request_axes :: "(byte list \<Rightarrow> hash) \<Rightarrow> chrono \<Rightarrow> (hash \<times> int list) set" where
  "request_axes sha C = {(h, ms). \<exists>ts. ms = to_millis C ts \<and> h = timestamps_hash sha C ts}"

definition axes_hashed :: "(byte list \<Rightarrow> hash) \<Rightarrow> chrono \<Rightarrow> array_store \<Rightarrow> bool" where
  "axes_hashed sha C S \<longleftrightarrow>
     (\<forall>h ms. memory_backend.timestamps (as_backend S) h = Some ms \<longrightarrow> (h, ms) \<in> request_axes sha C)"

lemma axes_hashed_drawn: "axes_drawn (request_axes sha C) S S' \<Longrightarrow> axes_hashed sha C S \<Longrightarrow> axes_hashed sha C S'"
  unfolding axes_hashed_def axes_drawn_def by blast

lemma axes_trans: "axes_drawn A S S1 \<Longrightarrow> axes_drawn A S1 S2 \<Longrightarrow> axes_drawn A S S2"
  unfolding axes_drawn_def by blast

lemma axes_same:
  "memory_backend.timestamps (as_backend S') = memory_backend.timestamps (as_backend S) \<Longrightarrow> axes_drawn A S S'"
  by (simp add: axes_drawn_def)

lemma axes_removed: "store_ok S \<Longrightarrow> axes_drawn A S (remove_writes f S)"
  by (simp add: axes_drawn_def remove_writes_objects(3) restrict_map_def)

text \<open>What a hashed axis reads back as hashes to its hash.\<close>

lemma millis_read_back:
  assumes "chrono_laws C dim tod" "from_millis C ms = Inr ts"
  shows "to_millis C ts = ms"
proof -
  have "list_all2 (\<lambda>ms t. from_timestamp_millis C ms = Some t) ms ts"
    using assms(2) by (simp add: from_millis_def rmap_all_Inr_iff ok_or_Inr_iff)
  then show ?thesis
  proof (induction rule: list_all2_induct)
    case (Cons m ms t ts)
    have "timestamp_millis C t = m"
      using Cons.hyps(1) chrono_laws.from_timestamp_millis [OF assms(1), of m] chrono_laws.timestamp_millis [OF assms(1), of t]
      by (auto simp: regular_def split: if_splits)
    then show ?case using Cons.IH by (simp add: to_millis_def)
  qed (simp add: to_millis_def)
qed

lemma axis_read_back:
  assumes C: "chrono_laws C dim tod" and S: "axes_hashed sha C S" and get: "mem_get_timestamps C (as_backend S) h = Inr ts"
  shows "timestamps_hash sha C ts = h" "h \<in> dom (memory_backend.timestamps (as_backend S))"
proof -
  obtain ms where ms: "memory_backend.timestamps (as_backend S) h = Some ms" "from_millis C ms = Inr ts"
    using get by (auto simp: mem_get_timestamps_def rbind_Inr_iff ok_or_Inr_iff)
  have to: "to_millis C ts = ms" by (rule millis_read_back [OF C ms(2)])
  obtain us where us: "ms = to_millis C us" "h = timestamps_hash sha C us"
    using S ms(1) by (auto simp: axes_hashed_def request_axes_def)
  have len: "length us = length ts" using us(1) to by (metis length_map to_millis_def)
  show "timestamps_hash sha C ts = h" using us to len by (simp add: timestamps_hash_def timestamps_stream_def)
  show "h \<in> dom (memory_backend.timestamps (as_backend S))" using ms(1) by blast
qed

section \<open>The calls\<close>

lemma axes_staged:
  assumes "stage_axes C ps seen f s = (r, seen', f', s')"
    and "\<And>p h v. p \<in> set ps \<Longrightarrow> p_group p = Irregular h \<Longrightarrow> m_timestamps (p_meta p) = Some v \<Longrightarrow> (h, to_millis C v) \<in> A"
  shows "memory_backend.timestamps s' h = Some ms \<Longrightarrow> memory_backend.timestamps s h = Some ms \<or> (h, ms) \<in> A"
  using assms
proof (induction ps arbitrary: seen f s)
  case (Cons p ps)
  obtain r1 seen1 f1 s1 where one: "stage_timestamp_vector C (p_group p) (m_timestamps (p_meta p)) seen f s = (r1, seen1, f1, s1)"
    by (metis prod_cases4)
  have step: "memory_backend.timestamps s h = Some ms \<or> (h, ms) \<in> A" if "memory_backend.timestamps s1 h = Some ms"
    using one that Cons.prems(3) [of p]
    by (auto simp: stage_timestamp_vector_def mem_put_timestamps_def
        split: pack_group.splits option.splits prod.splits bool.splits sum.splits if_splits)
  show ?case
  proof (cases r1)
    case (Inl e)
    then show ?thesis using Cons.prems(1,2) one step by simp
  next
    case (Inr u)
    then have rest: "stage_axes C ps seen1 f1 s1 = (r, seen', f', s')" using Cons.prems(2) one by simp
    show ?thesis using Cons.IH [OF Cons.prems(1) rest] Cons.prems(3) step by auto
  qed
qed simp

lemma axes_unwound:
  assumes "store_ok (s_arrays st)"
  shows "axes_drawn A (s_arrays st) (s_arrays (unwind_written K f st))"
proof -
  obtain rest W where drop: "drop_buffered (fo_arrays f) (as_buffer (s_arrays st)) = (rest, W)" by fastforce
  note d = drawn_dropped [OF assms drop]
  have same: "axes_drawn A (s_arrays st) ((s_arrays st)\<lparr>as_buffer := W\<rparr>)" by (rule axes_same) simp
  show ?thesis
    using same axes_trans [OF same axes_removed [OF d(1)]] drop
    by (auto simp: unwind_written_def Let_def split: prod.splits sum.splits)
qed

lemma placed_row_axis:
  "placed_row sha C d base = Inr (Irregular h, m) \<Longrightarrow> m_timestamps m = Some v \<Longrightarrow> h = timestamps_hash sha C v"
  by (cases d) (auto simp: rbind_Inr_iff)

context catalog_laws
begin

lemma add_parts_axes:
  assumes inv: "store_inv st" and live: "check_transaction_alive K st = Inr u" and order: "\<And>ps. set (order ps) = set ps"
    and xs: "\<And>x h v. x \<in> set xs \<Longrightarrow> p_group (snd x) = Irregular h \<Longrightarrow> m_timestamps (p_meta (snd x)) = Some v \<Longrightarrow> (h, to_millis C v) \<in> A"
    and run: "add_parts K iter order C xs st = (r, staged, st')"
  shows "axes_drawn A (s_arrays st) (s_arrays st')"
proof -
  define S0 where "S0 = arrays_in st"
  define b where "b = in_transaction st"
  define cache where "cache = (if b then shared_sets (s_txn st) else no_shared_sets)"
  have S0: "store_ok S0" using inv by (simp add: S0_def arrays_in_same txn_inv_def)
  obtain r1 c1 f s where stage: "stage_axes C (map snd xs) cache no_objects (as_backend S0) = (r1, c1, f, s)" by (metis prod_cases4)
  note axes = stage_axes_gained [OF stage gained_start [OF S0]]
  define S1 where "S1 = S0\<lparr>as_backend := s\<rparr>"
  obtain y f' S' where put: "(if b then put_each iter xs else put_grouped iter order xs) f S1 = (y, f', S')" by (metis prod_cases3)
  have d1: "axes_drawn A (s_arrays st) S1"
    unfolding axes_drawn_def
  proof (intro allI impI)
    fix h ms
    assume "memory_backend.timestamps (as_backend S1) h = Some ms"
    then have "memory_backend.timestamps s h = Some ms" by (simp add: S1_def)
    have parts: "(h, to_millis C v) \<in> A" if p: "p \<in> set (map snd xs)" "p_group p = Irregular h" "m_timestamps (p_meta p) = Some v" for p h v
    proof -
      obtain x where "x \<in> set xs" "snd x = p" using p(1) by auto
      then show ?thesis using xs [of x] p(2,3) by simp
    qed
    from axes_staged [OF stage parts \<open>memory_backend.timestamps s h = Some ms\<close>]
    show "memory_backend.timestamps (as_backend (s_arrays st)) h = Some ms \<or> (h, ms) \<in> A"
      by (simp add: S0_def arrays_in_def)
  qed
  have S1: "gained S0 f S1" using axes by (simp add: S1_def)
  have "memory_backend.timestamps (as_backend S') = memory_backend.timestamps (as_backend S1)"
  proof (cases b)
    case True
    then show ?thesis using put put_each_gained [OF _ S1, of iter xs y f' S'] by simp
  next
    case False
    then have out: "s_txn st = no_txn" using alive(2) [OF inv live] by (simp add: b_def)
    have "buffered_arrays S0 = {}" using inv out by (simp add: S0_def arrays_in_same txn_inv_def no_txn_def no_objects_def)
    then have "wb_get (as_buffer S0) h = None" for h
      using wb_contains_get [of "as_buffer S0" h] S0 by (auto simp: buffered_arrays_def store_ok_def)
    then have none: "wb_get (as_buffer S0) = Map.empty" by (rule ext)
    have off: "\<not> as_in_transaction S0" using False by (simp add: S0_def arrays_in_def b_def)
    show ?thesis using put False put_grouped_gained [OF _ S1 off none order, of iter xs y f' S'] by simp
  qed
  moreover have "s_arrays st' = S'"
    using run stage axes put
    by (auto simp: add_parts_def Let_def S0_def [symmetric] cache_def b_def S1_def invalidate_shared_sets_def split: sum.splits prod.splits)
  ultimately show ?thesis using axes_trans [OF d1 axes_same] by simp
qed

lemma add_axes:
  assumes inv: "store_inv st" and order: "\<And>ps. set (order ps) = set ps" and run: "add_requests K iter order sha C items st = (r, st')"
  shows "axes_drawn (request_axes sha C) (s_arrays st) (s_arrays st')"
proof -
  let ?A = "request_axes sha C"
  have settled: "axes_drawn ?A (s_arrays st) (s_arrays (snd (settle staged q st1)))"
    if "store_ok (s_arrays st1)" "axes_drawn ?A (s_arrays st) (s_arrays st1)" for staged st1 and q :: "ts_error failure + int list"
    using that(2) axes_trans [OF that(2) axes_removed [OF that(1)]] by (auto simp: settle_def split: sum.splits failure.splits)
  obtain q staged st1 where one: "add_requests_staged K iter order sha C items st = (q, staged, st1)" by (metis prod_cases3)
  have st': "st' = snd (settle staged q st1)" using run one by (cases "settle staged q st1") (simp add: add_requests_def)
  consider "st1 = st" |
    parts u x where "check_transaction_alive K st = Inr u" "rmap_all (build_request_parts sha C) items = Inr parts"
      "add_parts K iter order C (zip (map (data_array \<circ> r_data) items) parts) st = (x, staged, st1)"
    using one by (auto simp: add_requests_staged_def split: if_splits sum.splits prod.splits)
  then show ?thesis
  proof cases
    case 1
    then show ?thesis using settled [of st1] inv st' axes_same [of "s_arrays st" "s_arrays st" ?A] by (simp add: txn_inv_def)
  next
    case 2
    have parts: "(h, to_millis C v) \<in> ?A"
      if x: "x \<in> set (zip (map (data_array \<circ> r_data) items) parts)" "p_group (snd x) = Irregular h" "m_timestamps (p_meta (snd x)) = Some v"
      for x h v
    proof -
      have each: "list_all2 (\<lambda>i p. build_request_parts sha C i = Inr p) items parts" using 2(2) by (simp add: rmap_all_Inr_iff)
      obtain n where n: "n < length items" "n < length parts" "x = (data_array (r_data (items ! n)), parts ! n)"
        using x(1) by (auto simp: in_set_zip)
      then have "build_request_parts sha C (items ! n) = Inr (parts ! n)" using list_all2_nthD [OF each] by simp
      then have "placed_row sha C (r_data (items ! n)) (base_row sha (items ! n) (data_element_type (r_data (items ! n)))) =
          Inr (Irregular h, p_meta (parts ! n))" "m_timestamps (p_meta (parts ! n)) = Some v"
        using n(3) x(2,3) by (simp_all add: build_request_parts_Inr)
      then show ?thesis
        using placed_row_axis by (auto simp: request_axes_def)
    qed
    have "store_ok (s_arrays st1) \<and> drawn_from UNIV (s_arrays st) (s_arrays st1)"
      by (rule add_parts_drawn [OF inv 2(1) order _ 2(3)]) simp
    then show ?thesis unfolding st' using add_parts_axes [OF inv 2(1) order parts 2(3)] by (intro settled) simp_all
  qed
qed

lemma step_axes:
  assumes inv: "store_inv st" and order: "\<And>ps. set (order ps) = set ps" and step: "txn_step K iter order sha C st st'"
  shows "axes_drawn (request_axes sha C) (s_arrays st) (s_arrays st')"
proof -
  let ?A = "request_axes sha C"
  have ok: "store_ok (s_arrays st)" using inv by (simp add: txn_inv_def)
  have id: "axes_drawn ?A (s_arrays st) (s_arrays st)" by (rule axes_same) simp
  from step show ?thesis
  proof cases
    case (step_begin r)
    then show ?thesis using begin_drawn [OF step_begin] id by simp
  next
    case (step_commit r)
    have w: "axes_drawn ?A (s_arrays st) S'" "axes_drawn ?A (s_arrays st) (remove_writes f S')"
      if "write_buffered iter g (s_arrays st) = (y, S')" for g y S' f
      using axes_same [OF write_buffered_objects(3) [OF ok that], of ?A]
        axes_trans [OF axes_same [OF write_buffered_objects(3) [OF ok that]] axes_removed [OF write_buffered_objects(1) [OF ok that]]]
      by blast+
    show ?thesis
      using step_commit id w axes_removed [OF ok]
      by (auto simp: commit_transaction_def commit_outermost_def split: sum.splits prod.splits if_splits)
  next
    case (step_rollback r)
    have "axes_drawn ?A (s_arrays st) (s_arrays (unwind_written K f (st\<lparr>s_catalog := k, s_txn := t\<rparr>)))"
      "axes_drawn ?A (s_arrays st) (s_arrays (unwind_written K f (st\<lparr>s_txn := t\<rparr>)))" for f k t
      using axes_unwound [of "st\<lparr>s_catalog := k, s_txn := t\<rparr>" ?A K f] axes_unwound [of "st\<lparr>s_txn := t\<rparr>" ?A K f] ok by simp_all
    then show ?thesis
      using step_rollback id by (auto simp: rollback_transaction_def Let_def split: sum.splits prod.splits if_splits)
  next
    case (step_add items r)
    then show ?thesis by (rule add_axes [OF inv order])
  next
    case (step_remove ids owner r)
    have w: "s_arrays st2 = s_arrays st1" if "write_catalog K f st1 = (x, st2)" for f :: "('k, nat \<times> file_objects) catalog_call" and x st1 st2
      using that by (auto simp: write_catalog_def split: sum.splits prod.splits)
    have "axes_drawn ?A (s_arrays st) (s_arrays (free_or_defer g st1))" if "s_arrays st1 = s_arrays st" for g st1
      using axes_removed [of "s_arrays st1" ?A g] id that ok by (simp add: free_or_defer_def)
    then show ?thesis
      using step_remove id by (auto simp: remove_by_ids_inner_def split: sum.splits prod.splits dest!: w)
  next
    case (step_clear owner r)
    have w: "s_arrays st2 = s_arrays st1" if "write_catalog K f st1 = (x, st2)" for f :: "('k, nat \<times> hash list) catalog_call" and x st1 st2
      using that by (auto simp: write_catalog_def split: sum.splits prod.splits)
    have freed: "axes_drawn ?A (s_arrays st) (s_arrays (free_or_defer g st1))" if "s_arrays st1 = s_arrays st" for g st1
      using axes_removed [of "s_arrays st1" ?A g] id that ok by (simp add: free_or_defer_def)
    have "s_arrays st' = s_arrays st \<or> (\<exists>g st1. st' = free_or_defer g st1 \<and> s_arrays st1 = s_arrays st)"
      using step_clear by (auto simp: clear_time_series_def Let_def invalidate_shared_sets_def split: sum.splits prod.splits dest!: w)
        (metis store.select_convs(1) store.surjective store.update_convs(2))+
    then show ?thesis using freed id by auto
  qed
qed

end

end
