(* ===== verification/StoreMoves.thy ===== *)
theory StoreMoves
  imports StoreTxn Listing
begin

text \<open>
  The remaining calls of \<open>Store\<close> that write rows, from \<open>crates/infrastore-core/src/store.rs\<close>: deriving
  forecasts from single series, copying a series to another owner, moving an owner's series, and filing
  rows as a document gives them. Each reads what it needs on the store's connection and then writes in one
  savepoint. A call on the store is a \<open>catalog_call\<close> whose state is the store.
\<close>

section \<open>Calls on a store\<close>

definition on_catalog :: "('k, 'a) catalog_call \<Rightarrow> ('k store, 'a) catalog_call" where
  "on_catalog f st = (case f (s_catalog st) of (r, k) \<Rightarrow> (r, st\<lparr>s_catalog := k\<rparr>))"

definition cresult :: "'a result \<Rightarrow> ('k, 'a) catalog_call" where "cresult r k = (r, k)"

definition axis_lookup :: "chrono \<Rightarrow> 'k store \<Rightarrow> hash \<Rightarrow> datetime list result" where
  "axis_lookup C st h = mem_get_timestamps C (as_backend (s_arrays st)) h"

section \<open>Deriving forecasts\<close>

record transform_outcome =
  to_transformed :: nat
  to_sources :: nat
  to_interval :: period
  to_interval_normalized :: bool
  to_written :: "int list"

text \<open>The row of each source that has no such view yet; a later entry of a map replaces an earlier one.\<close>

fun view_rows ::
    "(byte list \<Rightarrow> hash) \<Rightarrow> chrono \<Rightarrow> transform_plan \<Rightarrow> period \<Rightarrow> (association_identity \<times> period option) list \<Rightarrow>
     series_family set \<Rightarrow> ts_metadata list \<Rightarrow> ts_metadata list result" where
  "view_rows sha C plan hor views stored [] = Inr []"
| "view_rows sha C plan hor views stored (src # srcs) =
     (if family_of_identity (identity_of sha C src) \<in> stored
      then Inl (InvalidParameter ''a Deterministic forecast of the same series already exists'')
      else rbind (required_field (m_resolution src) ''resolution'') (\<lambda>res.
           rbind (for_resolution plan res) (\<lambda>p.
           case map_of (rev views) ((identity_of sha C src)\<lparr>ai_interval := Some (to_iso8601 C (gp_interval p))\<rparr>) of
             Some existing \<Rightarrow>
               if existing = Some hor then view_rows sha C plan hor views stored srcs
               else Inl (InvalidParameter ''a view with another horizon already exists'')
           | None \<Rightarrow>
               rbind (view_rows sha C plan hor views stored srcs) (\<lambda>rows.
                 Inr (derived_view_row src hor (gp_interval p) (gp_count p) # rows)))))"

fun check_stored_forecasts ::
    "(period \<Rightarrow> period \<Rightarrow> (connection, forecast_parameters) catalog_call) \<Rightarrow> transform_plan \<Rightarrow> (period \<times> grid_plan) list \<Rightarrow>
     (connection, unit) catalog_call" where
  "check_stored_forecasts params plan [] = cret ()"
| "check_stored_forecasts params plan ((res, p) # ps) =
     cbind (params res (gp_interval p)) (\<lambda>existing.
     cbind (cresult (check_compatible_with plan existing)) (\<lambda>_. check_stored_forecasts params plan ps))"

fun insert_views :: "'k catalog_ops \<Rightarrow> ts_metadata list \<Rightarrow> shared_set_cache \<Rightarrow> ('k, int list) catalog_call" where
  "insert_views K [] cache = cret []"
| "insert_views K (m # ms) cache =
     cbind (c_insert K m cache) (\<lambda>(i, cache'). cbind (insert_views K ms cache') (\<lambda>ids. cret (i # ids)))"

text \<open>Once the plan is known: the sources, the views there are, the rows to write.\<close>

definition derive_views ::
    "connection catalog_ops \<Rightarrow> (string \<Rightarrow> string \<Rightarrow> bool) \<Rightarrow> (ts_metadata list \<Rightarrow> ts_metadata list) \<Rightarrow> (byte list \<Rightarrow> hash) \<Rightarrow>
     chrono \<Rightarrow> period \<Rightarrow> owner_category option \<Rightarrow> period option \<Rightarrow> transform_policy \<Rightarrow> transform_plan \<Rightarrow>
     (connection store, transform_outcome) catalog_call" where
  "derive_views K glob scan sha C hor cat res policy plan st =
     cbind (on_catalog (list_rows glob scan sha C
              (no_filter\<lparr>mf_type := Some (Exact SingleTimeSeries), mf_owner_category := cat, mf_resolution := res\<rparr>)
              (Some (axis_lookup C st)))) (\<lambda>sources.
     cbind (on_catalog (list_identities scan sha C DeterministicSingleTimeSeries)) (\<lambda>views.
     cbind (on_catalog (list_identities scan sha C Deterministic)) (\<lambda>stored.
     cbind (cresult (view_rows sha C plan hor views (family_of_identity ` fst ` set stored) sources)) (\<lambda>rows.
     cbind (if tp_dry_run policy then cret [] else write_catalog K (insert_views K rows no_shared_sets)) (\<lambda>ids.
       cret \<lparr>to_transformed = length rows, to_sources = length sources, to_interval = pl_interval plan,
             to_interval_normalized = pl_interval_normalized plan, to_written = ids\<rparr>))))) st"

definition transform_single_time_series ::
    "connection catalog_ops \<Rightarrow> (string \<Rightarrow> string \<Rightarrow> bool) \<Rightarrow> (ts_metadata list \<Rightarrow> ts_metadata list) \<Rightarrow>
     ((period \<times> grid_plan) list \<Rightarrow> (period \<times> grid_plan) list) \<Rightarrow> (byte list \<Rightarrow> hash) \<Rightarrow> chrono \<Rightarrow>
     period \<Rightarrow> period \<Rightarrow> owner_category option \<Rightarrow> period option \<Rightarrow> transform_policy \<Rightarrow>
     (connection store, transform_outcome) catalog_call" where
  "transform_single_time_series K glob scan pick sha C hor requested cat res policy st =
     (if s_read_only st \<and> \<not> tp_dry_run policy then (Inl ReadOnlyStore, st)
      else
       cbind (on_catalog (static_grids C res cat)) (\<lambda>grids.
       cbind (cresult (derive C grids hor requested policy)) (\<lambda>found.
       case found of
         None \<Rightarrow> cret \<lparr>to_transformed = 0, to_sources = 0, to_interval = requested, to_interval_normalized = False, to_written = []\<rparr>
       | Some plan \<Rightarrow>
           cbind (on_catalog (if tp_require_uniform_forecast_grid policy
                  then check_stored_forecasts
                    (\<lambda>r i. get_forecast_parameters glob scan sha C (axis_lookup C st) (Some r) (Some i)) plan
                    (pick (pl_by_resolution plan))
                  else cret ())) (\<lambda>_.
             derive_views K glob scan sha C hor cat res policy plan))) st)"

section \<open>Copying and moving\<close>

definition copied_row :: "ts_metadata \<Rightarrow> int \<Rightarrow> string \<Rightarrow> string option \<Rightarrow> ts_metadata" where
  "copied_row m owner owner_type new_name =
     m\<lparr>m_owner_id := owner, m_owner_type := owner_type,
       m_name := (case new_name of None \<Rightarrow> m_name m | Some n \<Rightarrow> n), m_id := None\<rparr>"

definition key_of_row :: "ts_metadata \<Rightarrow> key_identity" where
  "key_of_row m =
     \<lparr>k_owner_id = m_owner_id m, k_owner_category = m_owner_category m, k_type = m_type m, k_name = m_name m,
      k_resolution = m_resolution m, k_interval = m_interval m, k_features = m_features m\<rparr>"

definition copy_time_series ::
    "connection catalog_ops \<Rightarrow> (string \<Rightarrow> string \<Rightarrow> bool) \<Rightarrow> (ts_metadata list \<Rightarrow> ts_metadata list) \<Rightarrow> (byte list \<Rightarrow> hash) \<Rightarrow>
     chrono \<Rightarrow> int \<Rightarrow> int \<Rightarrow> string \<Rightarrow> string option \<Rightarrow> (connection store, int) catalog_call" where
  "copy_time_series K glob scan sha C src owner owner_type new_name st =
     (if s_read_only st then (Inl ReadOnlyStore, st)
      else
       cbind (on_catalog (get_by_id glob scan sha C (axis_lookup C st) src)) (\<lambda>found.
       case found of
         None \<Rightarrow> cerr NotFound
       | Some row \<Rightarrow>
           let m = copied_row row owner owner_type new_name in
           cbind (on_catalog (row_exists glob sha C (identity_filter sha (key_of_row m)))) (\<lambda>taken.
           if taken then cerr DuplicateTimeSeries
           else write_catalog K
             (cbind (check_forecast_family_free K m) (\<lambda>_.
              cbind (c_insert K m no_shared_sets) (\<lambda>(i, _). cret i))))) st)"

definition replace_owner ::
    "connection catalog_ops \<Rightarrow> (byte list \<Rightarrow> hash) \<Rightarrow> chrono \<Rightarrow> int \<Rightarrow> int \<Rightarrow> owner_category \<Rightarrow>
     (connection store, nat) catalog_call" where
  "replace_owner K sha C old new cat =
     write_catalog K
       (cbind (forecast_family_conflict_on_owner_move sha C old new cat) (\<lambda>conflict.
        if conflict \<noteq> None then cerr (InvalidParameter ''they are mutually exclusive'')
        else replace_owner_rows sha C old new cat))"

section \<open>Filing rows\<close>

definition irregular_types :: "time_series_type set" where
  "irregular_types = {NonSequentialTimeSeries, PersistentTimeSeries}"

definition check_import_axis :: "(byte list \<Rightarrow> hash) \<Rightarrow> chrono \<Rightarrow> memory_backend \<Rightarrow> ts_metadata \<Rightarrow> unit result" where
  "check_import_axis sha C s m =
     (if m_type m \<notin> irregular_types then Inr ()
      else case m_timestamps m of
             None \<Rightarrow> Inl (InvalidParameter ''the row names no time axis'')
           | Some ts \<Rightarrow>
               if (case m_length m of None \<Rightarrow> False | Some n \<Rightarrow> n \<noteq> length ts)
               then Inl (InvalidParameter ''the length differs from the time axis'')
               else rbind (mem_timestamp_hashes s) (\<lambda>axes.
                      if timestamps_hash sha C ts \<in> axes then Inr ()
                      else Inl (InvalidParameter ''the store does not hold the time axis'')))"

definition check_import_row :: "(byte list \<Rightarrow> hash) \<Rightarrow> chrono \<Rightarrow> array_store \<Rightarrow> ts_metadata \<Rightarrow> unit result" where
  "check_import_row sha C S m =
     rbind (check_import_axis sha C (as_backend S) m) (\<lambda>_.
     rbind (store_holds_array S (m_data_hash m)) (\<lambda>held.
     if \<not> held then Inl (InvalidParameter ''the store does not hold the array'')
     else case m_length m of
            None \<Rightarrow> Inr ()
          | Some n \<Rightarrow>
              rbind (store_array_shape S (m_data_hash m)) (\<lambda>stored.
                if n # m_element_shape m \<noteq> stored then Inl (InvalidParameter ''the declared shape differs'')
                else Inr ())))"

fun import_views ::
    "'k catalog_ops \<Rightarrow> ts_metadata list \<Rightarrow> shared_set_cache \<Rightarrow> ('k, unit) catalog_call" where
  "import_views K [] cache = cret ()"
| "import_views K (m # ms) cache =
     cbind (c_family_conflict K m SingleTimeSeries) (\<lambda>has_source.
       if \<not> has_source then cerr (InvalidParameter ''a view of a SingleTimeSeries that is not stored'')
       else cbind (insert_association K m cache) (\<lambda>(_, cache'). import_views K ms cache'))"

definition import_association_rows ::
    "connection catalog_ops \<Rightarrow> (byte list \<Rightarrow> hash) \<Rightarrow> chrono \<Rightarrow> ts_metadata list \<Rightarrow> (connection store, nat) catalog_call" where
  "import_association_rows K sha C rows st =
     (if s_read_only st then (Inl ReadOnlyStore, st)
      else case rmap_all (check_import_row sha C (arrays_in st)) rows of
             Inl e \<Rightarrow> (Inl e, st)
           | Inr _ \<Rightarrow>
               (let explicit = length (filter (\<lambda>m. m_id m \<noteq> None) rows)
                in if explicit \<noteq> 0 \<and> explicit \<noteq> length rows
                   then (Inl (InvalidParameter ''either every row carries an id or none does''), st)
                   else case partition (\<lambda>m. m_type m = DeterministicSingleTimeSeries) rows of
                     (views, plain) \<Rightarrow>
                       write_catalog K
                         (cbind (check_explicit_time_series_ids (List.map_filter m_id (plain @ views))) (\<lambda>_.
                          cbind (insert_rows K plain no_shared_sets) (\<lambda>(_, cache).
                          cbind (import_views K views cache) (\<lambda>_.
                            cret (length plain + length views))))) st))"

end
