(* ===== verification/MovesInv.thy ===== *)
theory MovesInv
  imports CatalogInv TxnAxes StoreMoves
begin

text \<open>
  The calls of \<open>StoreMoves\<close> keep what every call of a store keeps: rows name stored data, the rows are
  unique, the axes are stored under their hashes, and the table an outermost transaction began with stays.
  A query leaves the tables as they are or fails with SQLite having rolled everything back; what a
  call reads before it writes is therefore still so when it writes.
\<close>

section \<open>Queries\<close>

definition asks :: "(connection, 'a) catalog_call \<Rightarrow> (catalog_db \<Rightarrow> 'a \<Rightarrow> bool) \<Rightarrow> bool" where
  "asks f P \<longleftrightarrow>
     (\<forall>k r k'. f k = (r, k') \<longrightarrow>
        (case r of
           Inr a \<Rightarrow> cn_db k' = cn_db k \<and> cn_saved k' = cn_saved k \<and> P (cn_db k) a
         | Inl e \<Rightarrow> cn_db k' = cn_db k \<and> cn_saved k' = cn_saved k \<or>
             cn_saved k' = [] \<and> cn_db k' = last (cn_db k # cn_saved k)))"

lemma asks_mono: "asks f P \<Longrightarrow> (\<And>db a. P db a \<Longrightarrow> Q db a) \<Longrightarrow> asks f Q"
  unfolding asks_def
proof (intro allI impI)
  fix k r k'
  assume all: "\<forall>k r k'. f k = (r, k') \<longrightarrow> (case r of
      Inr a \<Rightarrow> cn_db k' = cn_db k \<and> cn_saved k' = cn_saved k \<and> P (cn_db k) a
    | Inl e \<Rightarrow> cn_db k' = cn_db k \<and> cn_saved k' = cn_saved k \<or> cn_saved k' = [] \<and> cn_db k' = last (cn_db k # cn_saved k))"
    and PQ: "\<And>db a. P db a \<Longrightarrow> Q db a" and run: "f k = (r, k')"
  from all [rule_format, OF run] PQ show "case r of
      Inr a \<Rightarrow> cn_db k' = cn_db k \<and> cn_saved k' = cn_saved k \<and> Q (cn_db k) a
    | Inl e \<Rightarrow> cn_db k' = cn_db k \<and> cn_saved k' = cn_saved k \<or> cn_saved k' = [] \<and> cn_db k' = last (cn_db k # cn_saved k)"
    by (cases r) simp_all
qed

lemma asks_statement: "asks (statement (\<lambda>db. (g db, db))) (\<lambda>db a. g db = Inr a)"
  unfolding asks_def
proof (intro allI impI)
  fix k r k'
  assume run: "statement (\<lambda>db. (g db, db)) k = (r, k')"
  show "case r of
      Inr a \<Rightarrow> cn_db k' = cn_db k \<and> cn_saved k' = cn_saved k \<and> g (cn_db k) = Inr a
    | Inl e \<Rightarrow> cn_db k' = cn_db k \<and> cn_saved k' = cn_saved k \<or> cn_saved k' = [] \<and> cn_db k' = last (cn_db k # cn_saved k)"
    using run by (cases rule: statement_cases) (auto split: sum.splits)
qed

lemma asks_cret: "asks (cret a) (\<lambda>db b. b = a)" and asks_cerr: "asks (cerr e) (\<lambda>db b. False)"
  and asks_pure: "asks (\<lambda>k. (x, k)) (\<lambda>db b. x = Inr b)"
  by (auto simp: asks_def cret_def cerr_def split: sum.splits)

lemma asks_cbind:
  assumes f: "asks f P" and g: "\<And>a. asks (g a) (Q a)"
  shows "asks (cbind f g) (\<lambda>db b. \<exists>a. P db a \<and> Q a db b)"
  unfolding asks_def
proof (intro allI impI)
  fix k r k'
  assume run: "cbind f g k = (r, k')"
  obtain x k1 where one: "f k = (x, k1)" by fastforce
  note f1 = f [unfolded asks_def, rule_format, OF one]
  show "case r of
      Inr b \<Rightarrow> cn_db k' = cn_db k \<and> cn_saved k' = cn_saved k \<and> (\<exists>a. P (cn_db k) a \<and> Q a (cn_db k) b)
    | Inl e \<Rightarrow> cn_db k' = cn_db k \<and> cn_saved k' = cn_saved k \<or> cn_saved k' = [] \<and> cn_db k' = last (cn_db k # cn_saved k)"
  proof (cases x)
    case (Inl e)
    then show ?thesis using run one f1 by (auto simp: cbind_def)
  next
    case (Inr a)
    then have "g a k1 = (r, k')" using run one by (simp add: cbind_def)
    from g [unfolded asks_def, rule_format, OF this] show ?thesis using f1 Inr by (auto split: sum.splits)
  qed
qed

lemma asks_any: "asks f P \<Longrightarrow> asks f (\<lambda>_ _. True)"
  by (erule asks_mono) simp

lemma asks_any_cbind: "asks f (\<lambda>_ _. True) \<Longrightarrow> (\<And>a. asks (g a) (\<lambda>_ _. True)) \<Longrightarrow> asks (cbind f g) (\<lambda>_ _. True)"
  by (rule asks_any [OF asks_cbind])

lemmas asks_rules = asks_any [OF asks_statement] asks_any [OF asks_cret] asks_any [OF asks_cerr] asks_any [OF asks_pure] asks_any_cbind

lemma asks_fetch_features: "asks (fetch_features sha hs got) (\<lambda>_ _. True)"
  by (induction hs arbitrary: got) (auto intro!: asks_rules)

text \<open>A listed row is one that matches, but for what was read back for it.\<close>

definition listed_from ::
    "(byte list \<Rightarrow> hash) \<Rightarrow> chrono \<Rightarrow> (hash \<Rightarrow> datetime list result) \<Rightarrow> ts_metadata \<Rightarrow> ts_metadata \<Rightarrow> bool" where
  "listed_from sha C v m0 m \<longleftrightarrow>
     (m_owner_id m = m_owner_id m0 \<and> m_owner_category m = m_owner_category m0 \<and> m_type m = m_type m0 \<and>
      m_name m = m_name m0 \<and> m_data_hash m = m_data_hash m0 \<and> m_id m = m_id m0) \<and>
     (\<forall>ts. m_timestamps m = Some ts \<longrightarrow> (\<exists>h. v h = Inr ts)) \<and> (m_timestamps m = None \<longleftrightarrow> m_timestamps m0 = None)"

lemma fetch_axes_found:
  "fetch_axes v hs got = Inr axes \<Longrightarrow> map_of axes h = Some ts \<Longrightarrow> map_of got h = Some ts \<or> v h = Inr ts"
proof (induction hs arbitrary: got)
  case (Cons a hs)
  show ?case
  proof (cases "map_of got a = None \<and> (\<exists>us. v a = Inr us)")
    case True
    then obtain us where us: "v a = Inr us" "map_of got a = None" by blast
    then have "fetch_axes v hs ((a, us) # got) = Inr axes" using Cons.prems(1) by simp
    from Cons.IH [OF this Cons.prems(2)] show ?thesis using us by (auto split: if_splits)
  next
    case False
    then have "fetch_axes v hs got = Inr axes" using Cons.prems(1) by (auto split: if_splits sum.splits)
    then show ?thesis using Cons.IH Cons.prems(2) by blast
  qed
qed simp

lemma parse_meta_row_same:
  "parse_meta_row C m0 = Inr m \<Longrightarrow> \<exists>ref res hor itv.
     m = m0\<lparr>m_time_reference := ref, m_resolution := res, m_horizon := hor, m_interval := itv\<rparr>"
  by (auto simp: parse_meta_row_def map_err_Inr_iff rbind_Inr_iff)

lemma listed_from_parsed: "parse_meta_row C m0 = Inr m1 \<Longrightarrow> listed_from sha C v m1 m \<Longrightarrow> listed_from sha C v m0 m"
  by (auto simp: listed_from_def dest!: parse_meta_row_same)

lemma parsed_rows: "rmap_all (parse_meta_row C) found = Inr rows \<Longrightarrow> m \<in> set rows \<Longrightarrow> \<exists>m0 \<in> set found. parse_meta_row C m0 = Inr m"
  by (induction found arbitrary: rows) (auto simp: rbind_Inr_iff)

lemma assemble_listed:
  assumes "assemble sha C f (Some v) sets axes ms = Inr rows" "\<And>h ts. map_of axes h = Some ts \<Longrightarrow> v h = Inr ts" "m \<in> set rows"
  shows "\<exists>m0 \<in> set ms. listed_from sha C v m0 m"
  using assms(1,3)
proof (induction ms arbitrary: rows)
  case (Cons x xs)
  define fs where "fs = features_of sets (features_hash sha (m_features x))"
  consider "assemble sha C f (Some v) sets axes xs = Inr rows"
    | ts rest where "hydrated_axis (Some v) axes (row_axis sha C x) = Inr ts" "assemble sha C f (Some v) sets axes xs = Inr rest"
      "rows = x\<lparr>m_features := fs, m_timestamps := ts\<rparr> # rest"
    using Cons.prems(1) by (auto simp: Let_def fs_def rbind_Inr_iff split: if_splits)
  then show ?case
  proof cases
    case 1
    then show ?thesis using Cons.IH Cons.prems(2) by auto
  next
    case 2
    have "listed_from sha C v x (x\<lparr>m_features := fs, m_timestamps := ts\<rparr>)"
      using 2(1) assms(2)
      by (auto simp: listed_from_def hydrated_axis_def row_axis_def map_err_Inr_iff rbind_Inr_iff ok_or_Inr_iff split: option.splits)
    then show ?thesis using Cons.IH [OF 2(2)] Cons.prems(2) 2(3) by auto
  qed
qed simp

lemma asks_list_rows:
  assumes scan: "\<And>xs. set (scan xs) = set xs"
  shows "asks (list_rows glob scan sha C f (Some v))
    (\<lambda>db rows. \<forall>m \<in> set rows. \<exists>m0 \<in> set (db_rows db). row_matches glob sha C f m0 \<and> listed_from sha C v m0 m)"
proof -
  have step: "asks (\<lambda>k. (assemble sha C f (Some v) sets axes rows, k)) (\<lambda>db b. assemble sha C f (Some v) sets axes rows = Inr b)"
    for sets axes rows by (rule asks_pure)
  have axes: "\<exists>m1 \<in> set rows. listed_from sha C v m1 m"
    if "fetch_axes v hs [] = Inr axes" "assemble sha C f (Some v) sets axes rows = Inr out" "m \<in> set out" for hs axes sets rows out m
    using assemble_listed [OF that(2) _ that(3)] fetch_axes_found [OF that(1)] by simp
  have listed: "\<exists>m0 \<in> set (db_rows db). row_matches glob sha C f m0 \<and> listed_from sha C v m0 m"
    if found: "Inr (scan (filter (row_matches glob sha C f) (db_rows db))) = Inr found"
      and rows: "rmap_all (parse_meta_row C) found = Inr rows"
      and got: "fetch_axes v (List.map_filter (row_axis sha C) rows) [] = Inr axes"
        "assemble sha C f (Some v) sets axes rows = Inr out" "m \<in> set out" for db found rows axes sets out m
  proof -
    obtain m1 where "m1 \<in> set rows" and m: "listed_from sha C v m1 m" using axes [OF got] by blast
    then obtain m0 where m0: "m0 \<in> set found" "parse_meta_row C m0 = Inr m1" using parsed_rows [OF rows] by blast
    from m0(1) found have "m0 \<in> set (db_rows db) \<and> row_matches glob sha C f m0" using scan by auto
    then show ?thesis using listed_from_parsed [OF m0(2) m] by blast
  qed
  show ?thesis
    unfolding list_rows_def option.case
    by (rule asks_mono [OF asks_cbind [OF asks_statement asks_cbind [OF asks_pure asks_cbind [OF asks_pure
          asks_cbind [OF asks_fetch_features step]]]]]) (elim exE conjE, intro ballI, rule listed)
qed

lemma asks_list_any: "asks (list_rows glob scan sha C f v) (\<lambda>_ _. True)"
  unfolding list_rows_def by (intro asks_rules asks_fetch_features)

lemma asks_get_by_id:
  assumes scan: "\<And>xs. set (scan xs) = set xs"
  shows "asks (get_by_id glob scan sha C v i)
    (\<lambda>db found. \<forall>m. found = Some m \<longrightarrow> (\<exists>m0 \<in> set (db_rows db). listed_from sha C v m0 m))"
  unfolding get_by_id_def
  by (rule asks_mono [OF asks_cbind [OF asks_list_rows [where f = "no_filter\<lparr>mf_ids := Some [i]\<rparr>", OF scan] asks_cret]])
    (auto split: if_splits dest: last_in_set)

lemma asks_row_exists: "asks (row_exists glob sha C f) (\<lambda>_ _. True)"
  by (auto simp: row_exists_def exists_plain_def exists_feature_subset_def split: option.splits list.splits intro!: asks_rules)

lemma asks_list_identities:
  assumes scan: "\<And>xs. set (scan xs) = set xs"
  shows "asks (list_identities scan sha C t)
    (\<lambda>db out. identity_of sha C ` {m \<in> set (db_rows db). m_type m = t} \<subseteq> fst ` set out)"
proof -
  have code: "type_code a = type_code b \<longleftrightarrow> a = b" for a b by (cases a; cases b) simp_all
  have each: "identity_of sha C ` set rows = fst ` set out"
    if "rmap_all (\<lambda>m. rbind (opt_period C (m_horizon m)) (\<lambda>hor. Inr (identity_of sha C m, hor))) rows = Inr out" for rows out
  proof -
    have "list_all2 (\<lambda>m y. rbind (opt_period C (m_horizon m)) (\<lambda>hor. Inr (identity_of sha C m, hor)) = Inr y) rows out"
      using that by (simp add: rmap_all_Inr_iff)
    then have "list_all2 (\<lambda>m y. identity_of sha C m = fst y) rows out"
      by (rule list_all2_mono) (auto simp: rbind_Inr_iff)
    then have "map (identity_of sha C) rows = map fst out" by (induction rule: list_all2_induct) simp_all
    then show ?thesis by (metis list.set_map)
  qed
  show ?thesis
    unfolding list_identities_def
    by (rule asks_mono [OF asks_cbind [OF asks_statement asks_pure]]) (use scan code in \<open>auto simp: each [symmetric]\<close>)
qed

lemma asks_static_grids: "asks (static_grids C res cat) (\<lambda>_ _. True)"
  unfolding static_grids_def distinct_single_grids_def by (intro asks_rules)

lemma asks_forecast_parameters: "asks (get_forecast_parameters glob scan sha C v res itv) (\<lambda>_ _. True)"
proof -
  have "asks (forecast_parameters_of query res itv ts) (\<lambda>_ _. True)" if "\<And>f. asks (query f) (\<lambda>_ _. True)" for query ts
    by (induction ts) (auto intro!: asks_rules that split: list.splits)
  from this [of "\<lambda>f. list_rows glob scan sha C f (Some v)"] show ?thesis
    unfolding get_forecast_parameters_def by (simp add: asks_list_any del: forecast_parameters_of.simps)
qed

lemma asks_check_stored: "(\<And>r i. asks (params r i) (\<lambda>_ _. True)) \<Longrightarrow> asks (check_stored_forecasts params plan ps) (\<lambda>_ _. True)"
proof (induction ps)
  case (Cons p ps)
  have "asks (cresult (check_compatible_with plan x)) (\<lambda>_ _. True)" for x
    unfolding cresult_def by (rule asks_rules)
  then show ?case using Cons by (cases p) (auto intro!: asks_rules)
qed (auto intro!: asks_rules)

section \<open>Stores\<close>

definition store_good :: "(byte list \<Rightarrow> hash) \<Rightarrow> chrono \<Rightarrow> connection store \<Rightarrow> bool" where
  "store_good sha C st \<longleftrightarrow>
     txn_inv sha C {} (table_of (cn_db (s_catalog st))) (tables_saved (s_catalog st)) (s_txn st) (s_arrays st) \<and>
     conn_ok sha C (s_catalog st) \<and> axes_hashed sha C (s_arrays st)"

abbreviation first_table :: "connection \<Rightarrow> table" where
  "first_table \<equiv> outermost (\<lambda>k. table_of (cn_db k)) tables_saved"

definition moved :: "(byte list \<Rightarrow> hash) \<Rightarrow> chrono \<Rightarrow> connection store \<Rightarrow> connection store \<Rightarrow> bool" where
  "moved sha C st st' \<longleftrightarrow>
     s_arrays st' = s_arrays st \<and> s_txn st' = s_txn st \<and> store_good sha C st' \<and>
     (in_transaction st \<longrightarrow> first_table (s_catalog st') = first_table (s_catalog st))"

lemma moved_refl: "store_good sha C st \<Longrightarrow> moved sha C st st"
  by (simp add: moved_def)

lemma moved_trans: "moved sha C st st1 \<Longrightarrow> moved sha C st1 st2 \<Longrightarrow> moved sha C st st2"
  by (auto simp: moved_def in_transaction_def)

lemma moved_query:
  assumes good: "store_good sha C st"
    and k: "cn_db k = cn_db (s_catalog st) \<and> cn_saved k = cn_saved (s_catalog st) \<or>
      cn_saved k = [] \<and> cn_db k = last (cn_db (s_catalog st) # cn_saved (s_catalog st))"
  shows "moved sha C st (st\<lparr>s_catalog := k\<rparr>)"
proof -
  have fell: "fell (\<lambda>k. table_of (cn_db k)) tables_saved (s_catalog st) k"
    using k by (auto simp: fell_def last_map)
  have "last (cn_db (s_catalog st) # cn_saved (s_catalog st)) \<in> set (cn_db (s_catalog st) # cn_saved (s_catalog st))"
    by (rule last_in_set) simp
  then have "conn_ok sha C k" using k good by (auto simp: conn_ok_def store_good_def split: if_splits)
  then show ?thesis
    using good txn_inv_fell [of sha C "{}" "\<lambda>k. table_of (cn_db k)" "s_catalog st" tables_saved "s_txn st" "s_arrays st" k] fell
      sqlite.outermost_fell [OF fell]
    by (simp add: moved_def store_good_def)
qed

lemma ask_then:
  assumes f: "asks f P" and good: "store_good sha C st" and run: "cbind (on_catalog f) G st = (r, st')"
    and rest: "\<And>a k. cn_db k = cn_db (s_catalog st) \<Longrightarrow> cn_saved k = cn_saved (s_catalog st) \<Longrightarrow> P (cn_db (s_catalog st)) a \<Longrightarrow>
      store_good sha C (st\<lparr>s_catalog := k\<rparr>) \<Longrightarrow> G a (st\<lparr>s_catalog := k\<rparr>) = (r, st') \<Longrightarrow> moved sha C (st\<lparr>s_catalog := k\<rparr>) st'"
  shows "moved sha C st st'"
proof -
  obtain x k where one: "f (s_catalog st) = (x, k)" by fastforce
  note q = f [unfolded asks_def, rule_format, OF one]
  show ?thesis
  proof (cases x)
    case (Inl e)
    then show ?thesis using run one q moved_query [OF good, of k] by (auto simp: cbind_def on_catalog_def)
  next
    case (Inr a)
    then have m: "moved sha C st (st\<lparr>s_catalog := k\<rparr>)" using q moved_query [OF good, of k] by auto
    have G: "G a (st\<lparr>s_catalog := k\<rparr>) = (r, st')" using run one Inr by (simp add: cbind_def on_catalog_def)
    have "cn_db k = cn_db (s_catalog st)" "cn_saved k = cn_saved (s_catalog st)" "P (cn_db (s_catalog st)) a" using q Inr by simp_all
    moreover have "store_good sha C (st\<lparr>s_catalog := k\<rparr>)" using m by (simp only: moved_def)
    ultimately show ?thesis using rest G by (intro moved_trans [OF m])
  qed
qed

section \<open>Writing in a savepoint\<close>

lemma in_savepoint_sqlite:
  assumes run: "in_savepoint (sqlite_catalog ro sha C) f k = (r, k')" and k: "conn_ok sha C k"
    and f: "\<And>k1 r1 k2. cn_db k1 = cn_db k \<Longrightarrow> conn_ok sha C k1 \<Longrightarrow> f k1 = (r1, k2) \<Longrightarrow> conn_ok sha C k2"
  shows "conn_ok sha C k'" "r = Inr a \<Longrightarrow> \<exists>k1 k2. cn_db k1 = cn_db k \<and> conn_ok sha C k1 \<and> f k1 = (Inr a, k2) \<and> cn_db k' = cn_db k2"
proof -
  let ?K = "sqlite_catalog ro sha C"
  obtain x k1 where sp: "c_savepoint ?K k = (x, k1)" by fastforce
  have k1: "conn_ok sha C k1" by (rule keepsD [OF keeps_calls(1) sp k])
  have rewound: "conn_ok sha C (snd (c_rollback ?K k2))" if "conn_ok sha C k2" for k2
    using keeps_calls(3) [of sha C ro] that by (simp add: keeps_def)
  have "conn_ok sha C k' \<and> (\<forall>a. r = Inr a \<longrightarrow> (\<exists>k1 k2. cn_db k1 = cn_db k \<and> conn_ok sha C k1 \<and> f k1 = (Inr a, k2) \<and> cn_db k' = cn_db k2))"
  proof (cases x)
    case (Inl e)
    then show ?thesis using run sp k1 by (auto simp: in_savepoint_def)
  next
    case (Inr u)
    have same: "cn_db k1 = cn_db k"
      using sp Inr by (auto simp: sqlite_catalog_def savepoint_def split: if_splits prod.splits sum.splits dest!: query_Inr)
    obtain y k2 where fk: "f k1 = (y, k2)" by fastforce
    have k2: "conn_ok sha C k2" by (rule f [OF same k1 fk])
    show ?thesis
    proof (cases y)
      case (Inl e)
      then show ?thesis using run sp Inr fk rewound [OF k2] by (auto simp: in_savepoint_def)
    next
      case (Inr a)
      obtain z k3 where rel: "c_release ?K k2 = (z, k3)" by fastforce
      have k3: "conn_ok sha C k3" by (rule keepsD [OF keeps_calls(2) rel k2])
      show ?thesis
      proof (cases z)
        case (Inl e)
        then show ?thesis using run sp \<open>x = Inr u\<close> fk Inr rel rewound [OF k3] by (auto simp: in_savepoint_def)
      next
        case (Inr v)
        then have "cn_db k3 = cn_db k2"
          using rel by (auto simp: sqlite_catalog_def release_def split: if_splits prod.splits sum.splits dest!: query_Inr)
        then show ?thesis using run sp \<open>x = Inr u\<close> fk \<open>y = Inr a\<close> rel Inr k3 same k1 by (auto simp: in_savepoint_def)
      qed
    qed
  qed
  then show "conn_ok sha C k'" "r = Inr a \<Longrightarrow> \<exists>k1 k2. cn_db k1 = cn_db k \<and> conn_ok sha C k1 \<and> f k1 = (Inr a, k2) \<and> cn_db k' = cn_db k2"
    by blast+
qed

abbreviation tamed :: "(connection, 'a) catalog_call \<Rightarrow> bool" where
  "tamed \<equiv> tame (\<lambda>k. table_of (cn_db k)) tables_saved"

text \<open>A write is fine when it keeps the rows unique and, if it succeeds, every row names what is stored.\<close>

lemma write_moved:
  assumes run: "write_catalog (sqlite_catalog ro sha C) f st = (r, st')" and good: "store_good sha C st" and f: "tamed f"
    and conn: "\<And>k1 r1 k2. cn_db k1 = cn_db (s_catalog st) \<Longrightarrow> conn_ok sha C k1 \<Longrightarrow> f k1 = (r1, k2) \<Longrightarrow> conn_ok sha C k2"
    and refs: "\<And>k1 a k2. cn_db k1 = cn_db (s_catalog st) \<Longrightarrow> f k1 = (Inr a, k2) \<Longrightarrow>
      refs_stored sha C (s_arrays st) (table_of (cn_db k2)) \<and> feature_hashes (cn_db (s_catalog st)) \<subseteq> feature_hashes (cn_db k2)"
  shows "moved sha C st st'"
proof (cases "check_transaction_alive (sqlite_catalog ro sha C) st")
  case (Inl e)
  then show ?thesis using run moved_refl [OF good] by (simp add: write_catalog_def)
next
  case (Inr u)
  let ?K = "sqlite_catalog ro sha C"
  have inv: "txn_inv sha C {} (table_of (cn_db (s_catalog st))) (tables_saved (s_catalog st)) (s_txn st) (s_arrays st)"
    and ok: "conn_ok sha C (s_catalog st)" "axes_hashed sha C (s_arrays st)"
    using good by (simp_all add: store_good_def)
  obtain k where k: "in_savepoint ?K f (s_catalog st) = (r, k)" "st' = st\<lparr>s_catalog := k\<rparr>"
    using run Inr by (auto simp: write_catalog_def split: prod.splits)
  have c1: "conn_ok sha C k" by (rule in_savepoint_sqlite(1) [OF k(1) ok(1)]) (rule conn)
  have first: "in_transaction st \<longrightarrow> first_table (s_catalog st') = first_table (s_catalog st)"
    using sqlite.write_catalog_outermost(1) [OF run f] by blast
  have "txn_inv sha C {} (table_of (cn_db k)) (tables_saved k) (s_txn st) (s_arrays st)"
    using sqlite.in_savepoint_cases [OF f k(1)]
  proof (elim disjE exE conjE)
    fix e
    assume "fell (\<lambda>k. table_of (cn_db k)) tables_saved (s_catalog st) k"
    then show ?thesis
      using txn_inv_fell [of sha C "{}" "\<lambda>k. table_of (cn_db k)" "s_catalog st" tables_saved "s_txn st" "s_arrays st" k] inv by simp
  next
    fix a
    assume a: "r = Inr a" and saved: "tables_saved k = tables_saved (s_catalog st)"
    have "\<exists>k1 k2. cn_db k1 = cn_db (s_catalog st) \<and> conn_ok sha C k1 \<and> f k1 = (Inr a, k2) \<and> cn_db k = cn_db k2"
      by (rule in_savepoint_sqlite(2) [OF k(1) ok(1) _ a]) (rule conn)
    then obtain k1 k2 where k12: "cn_db k1 = cn_db (s_catalog st)" "f k1 = (Inr a, k2)" "cn_db k = cn_db k2" by blast
    note new = refs [OF k12(1,2)]
    have apart: "levels_apart sha C (table_of (cn_db k)) (tables_saved k) (s_txn st)"
    proof (cases "in_transaction st")
      case True
      have "length (tables_saved (s_catalog st)) = length (marks (s_txn st))" by (rule sqlite.alive(1) [OF inv Inr])
      then have "tables_saved k \<noteq> []" using True saved by (auto simp: in_transaction_def)
      then show ?thesis using inv saved by (simp add: txn_inv_def levels_apart_def)
    next
      case False
      then show ?thesis using sqlite.alive(2) [OF inv Inr False] saved levels_apart_no_txn by simp
    qed
    have "cache_true sha (table_of (cn_db k)) (s_arrays st) (shared_sets (s_txn st))" if "tables_saved k \<noteq> []"
      using inv that saved new k12(3) by (auto simp: txn_inv_def cache_true_def table_of_def)
    then show ?thesis using inv new k12(3) saved apart by (simp add: txn_inv_def)
  qed
  then show ?thesis using k(2) first ok(2) c1 by (simp add: moved_def store_good_def)
qed

end
