(* ===== verification/MovesKept.thy ===== *)
theory MovesKept
  imports MovesInv
begin

text \<open>
  Each of the calls of \<open>StoreMoves\<close> leaves a good store: deriving forecasts, copying a series, changing an
  owner and filing rows, whichever statement fails.
\<close>

section \<open>Rows that may be written\<close>

definition nameable :: "(byte list \<Rightarrow> hash) \<Rightarrow> chrono \<Rightarrow> array_store \<Rightarrow> ts_metadata \<Rightarrow> bool" where
  "nameable sha C S m \<longleftrightarrow> (\<forall>col. row_refs sha C col m \<subseteq> stored_objects S col)"

lemma nameable_stored: "refs_stored sha C S (table_of db) \<Longrightarrow> m \<in> set (db_rows db) \<Longrightarrow> nameable sha C S m"
  unfolding refs_stored_def nameable_def table_refs_def by (force simp: table_of_def)

lemma nameable_columns:
  assumes "m_data_hash m = m_data_hash m'" "m_timestamps m = m_timestamps m'"
  shows "nameable sha C S m \<longleftrightarrow> nameable sha C S m'"
proof -
  have "row_refs sha C col m = row_refs sha C col m'" for col using assms by (cases col) simp_all
  then show ?thesis by (simp add: nameable_def)
qed

lemma nameable_listed:
  assumes "chrono_laws C dim tod" "axes_hashed sha C (s_arrays st)" "listed_from sha C (axis_lookup C st) m0 m"
    and m0: "nameable sha C (s_arrays st) m0"
  shows "nameable sha C (s_arrays st) m"
  unfolding nameable_def
proof
  fix col
  show "row_refs sha C col m \<subseteq> stored_objects (s_arrays st) col"
  proof (cases col)
    case DataHash
    have "m_data_hash m = m_data_hash m0" using assms(3) by (simp add: listed_from_def)
    then show ?thesis using m0 DataHash by (auto simp: nameable_def dest: spec [of _ DataHash])
  next
    case TimestampsHash
    have "timestamps_hash sha C ts \<in> dom (memory_backend.timestamps (as_backend (s_arrays st)))" if ts: "m_timestamps m = Some ts" for ts
    proof -
      obtain h where "mem_get_timestamps C (as_backend (s_arrays st)) h = Inr ts"
        using assms(3) ts unfolding listed_from_def axis_lookup_def by blast
      then show ?thesis using axis_read_back [OF assms(1,2)] by metis
    qed
    then show ?thesis using TimestampsHash by (auto split: option.splits)
  qed
qed

text \<open>A table that names what is stored still does when a nameable row is added with its feature set.\<close>

lemma refs_stored_added:
  assumes T: "refs_stored sha C S T" and rows: "t_rows T' = t_rows T @ ms" and sets: "t_sets T \<subseteq> t_sets T'"
    and ms: "\<And>m. m \<in> set ms \<Longrightarrow> nameable sha C S m \<and> features_hash sha (m_features m) \<in> insert (features_hash sha []) (t_sets T')"
  shows "refs_stored sha C S T'"
proof -
  have "table_refs sha C T' col \<subseteq> stored_objects S col" for col
    using T ms rows unfolding refs_stored_def table_refs_def nameable_def by auto
  then show ?thesis using T rows sets ms by (auto simp: refs_stored_def sets_interned_def)
qed

section \<open>Calls that leave the savepoints alone\<close>

lemma tame_statement: "tamed (statement f)"
  unfolding tame_def
proof (intro allI impI)
  fix k r k'
  assume "statement f k = (r, k')"
  from statement_saved [OF this] show "tables_saved k' = tables_saved k \<or> tables_saved k \<noteq> [] \<and> tables_saved k' = [] \<and>
      table_of (cn_db k') = last (tables_saved k) \<and> (\<exists>e. r = Inl e)"
    by (auto simp: last_map)
qed

lemma tame_asks:
  assumes "asks f P" shows "tamed f"
  unfolding tame_def
proof (intro allI impI)
  fix k r k'
  assume run: "f k = (r, k')"
  from assms [unfolded asks_def, rule_format, OF run]
  show "tables_saved k' = tables_saved k \<or> tables_saved k \<noteq> [] \<and> tables_saved k' = [] \<and>
      table_of (cn_db k') = last (tables_saved k) \<and> (\<exists>e. r = Inl e)"
    by (cases r) (auto simp: last_map split: if_splits)
qed

lemma tame_free: "tamed (check_forecast_family_free (sqlite_catalog ro sha C) m)"
  by (cases "exclusive_counterpart (m_type m)") (auto simp: check_forecast_family_free_def intro!: sqlite.tame_rules)

lemma tame_one: "tamed (insert_association (sqlite_catalog ro sha C) m cache)"
  unfolding insert_association_def by (intro sqlite.tame_rules tame_free)

lemma tame_insert_views: "tamed (insert_views (sqlite_catalog ro sha C) ms cache)"
proof (induction ms arbitrary: cache)
  case (Cons m ms)
  have "tamed (case x of (i, c') \<Rightarrow> cbind (insert_views (sqlite_catalog ro sha C) ms c') (\<lambda>ids. cret (i # ids)))" for x
    by (cases x) (auto intro!: sqlite.tame_rules Cons.IH)
  then show ?case by (simp add: sqlite.tame_cbind sqlite.tame_insert)
qed (simp add: sqlite.tame_cret)

lemma tame_import_views: "tamed (import_views (sqlite_catalog ro sha C) ms cache)"
proof (induction ms arbitrary: cache)
  case (Cons m ms)
  have "tamed (case x of (i, c') \<Rightarrow> import_views (sqlite_catalog ro sha C) ms c')" for x
    by (cases x) (auto intro!: Cons.IH)
  then show ?case by (auto intro!: sqlite.tame_rules tame_one)
qed (simp add: sqlite.tame_cret)

section \<open>Changing the owner\<close>

lemma update_owner_ok:
  assumes ok: "rows_ok sha C db" and none: "owner_move_conflicts sha C old new cat db = []"
    and run: "update_owner sha C old new cat db = (r, db')"
  shows "rows_ok sha C db'"
proof (cases r)
  case (Inl e)
  then show ?thesis using run ok by (auto simp: update_owner_def Let_def split: if_splits)
next
  case (Inr n)
  define g where "g m = (if owned_by (old, cat) m then m\<lparr>m_owner_id := new\<rparr> else m)" for m
  have db': "db' = db\<lparr>db_rows := map g (db_rows db)\<rparr>"
    and apart: "\<And>m r. m \<in> set (db_rows db) \<Longrightarrow> owned_by (old, cat) m \<Longrightarrow> r \<in> set (db_rows db) \<Longrightarrow> \<not> owned_by (old, cat) r \<Longrightarrow>
      row_identity sha C r \<noteq> row_identity sha C (m\<lparr>m_owner_id := new\<rparr>)"
    using run Inr by (auto simp: update_owner_def Let_def g_def [abs_def] list_ex_iff split: if_splits)
  have ids: "m_id (g m) = m_id m" "m_type (g m) = m_type m" for m by (simp_all add: g_def)
  have distinct: "distinct (map (row_identity sha C) (map g (db_rows db)))"
  proof -
    have inj: "distinct (db_rows db)" "inj_on (row_identity sha C) (set (db_rows db))"
      using ok by (simp_all add: rows_ok_def distinct_map)
    have "x = y" if xy: "x \<in> set (db_rows db)" "y \<in> set (db_rows db)" "row_identity sha C (g x) = row_identity sha C (g y)" for x y
    proof -
      consider "owned_by (old, cat) x" "owned_by (old, cat) y" | "owned_by (old, cat) x" "\<not> owned_by (old, cat) y"
        | "\<not> owned_by (old, cat) x" "owned_by (old, cat) y" | "\<not> owned_by (old, cat) x" "\<not> owned_by (old, cat) y" by blast
      then have "row_identity sha C x = row_identity sha C y"
      proof cases
        case 1
        then show ?thesis using xy(3) by (simp add: g_def row_identity_def owned_by_def)
      next
        case 2
        then show ?thesis using apart [OF xy(1) 2(1) xy(2) 2(2)] xy(3) by (simp add: g_def)
      next
        case 3
        then show ?thesis using apart [OF xy(2) 3(2) xy(1) 3(1)] xy(3) by (simp add: g_def)
      next
        case 4
        then show ?thesis using xy(3) by (simp add: g_def)
      qed
      then show "x = y" using inj(2) xy(1,2) by (auto dest: inj_onD)
    qed
    then have "inj_on (\<lambda>m. row_identity sha C (g m)) (set (db_rows db))" by (auto intro: inj_onI)
    then show ?thesis using inj(1) by (simp add: distinct_map o_def)
  qed
  have clash: "\<not> family_rows sha C (m\<lparr>m_owner_id := new\<rparr>) r"
    if "m \<in> set (db_rows db)" "owned_by (old, cat) m" "r \<in> set (db_rows db)"
      "m_type m = Deterministic \<and> m_type r = DeterministicSingleTimeSeries \<or> m_type m = DeterministicSingleTimeSeries \<and> m_type r = Deterministic" for m r
  proof
    assume "family_rows sha C (m\<lparr>m_owner_id := new\<rparr>) r"
    then have "same_family sha C (new, m_owner_category m, m_name m, m_resolution m, features_hash sha (m_features m)) r"
      by (simp add: family_rows_def)
    then have "(m_name m, m_type m, m_type r) \<in> set (owner_move_conflicts sha C old new cat db)"
      using that by (force simp: owner_move_conflicts_def owned_by_def)
    then show False using none by simp
  qed
  have "\<not> family_rows sha C (g m) (g r)"
    if mr: "m \<in> set (db_rows db)" "r \<in> set (db_rows db)" "m_type m = Deterministic" "m_type r = DeterministicSingleTimeSeries" for m r
  proof -
    have old: "\<not> family_rows sha C m r" using ok mr by (auto simp: rows_ok_def)
    consider "owned_by (old, cat) m" "owned_by (old, cat) r" | "owned_by (old, cat) m" "\<not> owned_by (old, cat) r"
      | "\<not> owned_by (old, cat) m" "owned_by (old, cat) r" | "\<not> owned_by (old, cat) m" "\<not> owned_by (old, cat) r" by blast
    then show ?thesis
    proof cases
      case 1
      then show ?thesis using old by (auto simp: g_def family_rows_def same_family_def owned_by_def)
    next
      case 2
      then show ?thesis using clash [OF mr(1) 2(1) mr(2)] mr(3,4) by (simp add: g_def)
    next
      case 3
      then show ?thesis using clash [OF mr(2) 3(2) mr(1)] mr(3,4) family_rows_sym [of sha C m] by (simp add: g_def)
    next
      case 4
      then show ?thesis using old by (simp add: g_def)
    qed
  qed
  then show ?thesis using ok distinct ids unfolding db' rows_ok_def by (simp add: o_def)
qed

lemma replace_owner_moved:
  assumes good: "store_good sha C st" and run: "replace_owner (sqlite_catalog ro sha C) sha C old new cat st = (r, st')"
  shows "moved sha C st st'"
proof -
  let ?ask = "forecast_family_conflict_on_owner_move sha C old new cat"
  have q: "asks ?ask (\<lambda>db c. c = None \<longrightarrow> owner_move_conflicts sha C old new cat db = [])"
    unfolding forecast_family_conflict_on_owner_move_def
    by (rule asks_mono [OF asks_statement]) (auto split: list.splits)
  show ?thesis
  proof (rule write_moved [OF run [unfolded replace_owner_def] good])
    show "tamed (cbind ?ask (\<lambda>conflict. if conflict \<noteq> None then cerr (InvalidParameter ''they are mutually exclusive'')
        else replace_owner_rows sha C old new cat))"
      by (auto simp: replace_owner_rows_def intro!: sqlite.tame_rules tame_asks [OF q] tame_statement)
  next
    fix k1 r1 k2
    assume k1: "cn_db k1 = cn_db (s_catalog st)" "conn_ok sha C k1" and run: "cbind ?ask (\<lambda>conflict. if conflict \<noteq> None
        then cerr (InvalidParameter ''they are mutually exclusive'') else replace_owner_rows sha C old new cat) k1 = (r1, k2)"
    obtain x k where one: "?ask k1 = (x, k)" by fastforce
    have k: "conn_ok sha C k"
      by (rule keepsD [of "conn_ok sha C" ?ask k1 x k, OF _ one k1(2)]) (simp add: forecast_family_conflict_on_owner_move_def keeps_query)
    show "conn_ok sha C k2"
    proof (cases "x = Inr None")
      case True
      then have "owner_move_conflicts sha C old new cat (cn_db k) = []" "statement (update_owner sha C old new cat) k = (r1, k2)"
        using q [unfolded asks_def, rule_format, OF one] run one by (auto simp: cbind_def replace_owner_rows_def)
      moreover have "rows_ok sha C (cn_db k)" using k by (simp add: conn_ok_def)
      ultimately show ?thesis using statement_ok [OF k] update_owner_ok by blast
    next
      case False
      then show ?thesis using run one k by (cases x) (auto simp: cbind_def cerr_def)
    qed
  next
    fix k1 a k2
    assume k1: "cn_db k1 = cn_db (s_catalog st)" and run: "cbind ?ask (\<lambda>conflict. if conflict \<noteq> None
        then cerr (InvalidParameter ''they are mutually exclusive'') else replace_owner_rows sha C old new cat) k1 = (Inr a, k2)"
    obtain x k where one: "?ask k1 = (x, k)" by fastforce
    have upd: "statement (update_owner sha C old new cat) k = (Inr a, k2)" "cn_db k = cn_db k1"
      using q [unfolded asks_def, rule_format, OF one] run one
      by (auto simp: cbind_def cerr_def replace_owner_rows_def split: sum.splits if_splits)
    let ?db = "cn_db (s_catalog st)"
    have upd': "update_owner sha C old new cat ?db = (Inr a, cn_db k2)" using statement_Inr [OF upd(1)] upd(2) k1 by simp
    have refs: "refs_stored sha C (s_arrays st) (table_of ?db)" using good by (simp add: store_good_def txn_inv_def)
    define g where "g = (\<lambda>m. if owned_by (old, cat) m then m\<lparr>m_owner_id := new\<rparr> else m)"
    have db: "cn_db k2 = ?db\<lparr>db_rows := map g (db_rows ?db)\<rparr>"
      using upd' by (simp add: update_owner_def Let_def g_def split: if_splits)
    have g: "row_refs sha C col (g m) = row_refs sha C col m" "m_features (g m) = m_features m" for col m
      by (cases col; simp add: g_def) (simp add: g_def)
    have "table_refs sha C (table_of (cn_db k2)) col = table_refs sha C (table_of ?db) col" for col
      by (simp add: table_refs_def table_of_def db g)
    then show "refs_stored sha C (s_arrays st) (table_of (cn_db k2)) \<and> feature_hashes ?db \<subseteq> feature_hashes (cn_db k2)"
      using refs by (auto simp: refs_stored_def sets_interned_def table_of_def db g feature_hashes_def)
  qed
qed

end
