(* ===== verification/MovesFiled.thy ===== *)
theory MovesFiled
  imports MovesKept
begin

text \<open>
  The calls of \<open>StoreMoves\<close> that add rows: a copy, the views of a transform and the rows of a document.
  Each row is appended with the feature set it names, and names stored data.
\<close>

section \<open>Rows appended with their feature sets\<close>

definition numbered :: "ts_metadata list \<Rightarrow> ts_metadata list \<Rightarrow> bool" where
  "numbered ms rows \<longleftrightarrow> list_all2 (\<lambda>m r. \<exists>i. r = m\<lparr>m_id := Some i\<rparr>) ms rows"

definition filed ::
    "(byte list \<Rightarrow> hash) \<Rightarrow> ts_metadata list \<Rightarrow> table \<Rightarrow> table \<Rightarrow> shared_set_cache \<Rightarrow> shared_set_cache \<Rightarrow> bool" where
  "filed sha ms T T' c c' \<longleftrightarrow>
     (\<exists>rows. numbered ms rows \<and> t_rows T' = t_rows T @ rows) \<and> t_sets T \<subseteq> t_sets T' \<and>
     (ss_features c \<subseteq> insert (features_hash sha []) (t_sets T) \<longrightarrow>
        ss_features c' \<subseteq> insert (features_hash sha []) (t_sets T') \<and>
        (\<forall>m \<in> set ms. features_hash sha (m_features m) \<in> insert (features_hash sha []) (t_sets T')))"

lemma numbered_zip: "length ids = length ms \<Longrightarrow> numbered ms (map (\<lambda>(m, i). m\<lparr>m_id := Some i\<rparr>) (zip ms ids))"
  by (auto simp: numbered_def list_all2_conv_all_nth)

lemma numbered_in: "numbered ms rows \<Longrightarrow> r \<in> set rows \<Longrightarrow> \<exists>m \<in> set ms. \<exists>i. r = m\<lparr>m_id := Some i\<rparr>"
  unfolding numbered_def by (auto simp: in_set_conv_nth list_all2_conv_all_nth) (metis nth_mem)

lemma filed_nil: "filed sha [] T T c c"
  by (simp add: filed_def numbered_def)

lemma filed_append:
  assumes "filed sha ms T T1 c c1" "filed sha ns T1 T2 c1 c2"
  shows "filed sha (ms @ ns) T T2 c c2"
proof -
  obtain rows rows' where "numbered ms rows" "t_rows T1 = t_rows T @ rows" "numbered ns rows'" "t_rows T2 = t_rows T1 @ rows'"
    using assms unfolding filed_def by blast
  then have "numbered (ms @ ns) (rows @ rows') \<and> t_rows T2 = t_rows T @ rows @ rows'"
    by (simp add: numbered_def list_all2_appendI)
  moreover have "t_sets T \<subseteq> t_sets T1" "t_sets T1 \<subseteq> t_sets T2" using assms by (simp_all add: filed_def)
  moreover have "ss_features c2 \<subseteq> insert (features_hash sha []) (t_sets T2) \<and>
      (\<forall>m \<in> set (ms @ ns). features_hash sha (m_features m) \<in> insert (features_hash sha []) (t_sets T2))"
    if "ss_features c \<subseteq> insert (features_hash sha []) (t_sets T)"
    using assms that \<open>t_sets T1 \<subseteq> t_sets T2\<close> by (auto simp: filed_def)
  ultimately show ?thesis unfolding filed_def by blast
qed

lemma filed_one:
  assumes "t_rows T' = t_rows T @ [m\<lparr>m_id := Some i\<rparr>]"
    "t_sets T' = (if features_hash sha (m_features m) \<notin> ss_features c \<and> m_features m \<noteq> []
      then insert (features_hash sha (m_features m)) (t_sets T) else t_sets T)"
    "c' = c\<lparr>ss_features := insert (features_hash sha (m_features m)) (ss_features c)\<rparr>"
  shows "filed sha [m] T T' c c'"
proof -
  have "numbered [m] [m\<lparr>m_id := Some i\<rparr>]" by (auto simp: numbered_def)
  moreover have "ss_features c' \<subseteq> insert (features_hash sha []) (t_sets T') \<and>
      features_hash sha (m_features m) \<in> insert (features_hash sha []) (t_sets T')"
    if "ss_features c \<subseteq> insert (features_hash sha []) (t_sets T)"
    using assms that by (auto split: if_splits)
  moreover have "t_sets T \<subseteq> t_sets T'" using assms(2) by auto
  ultimately show ?thesis unfolding filed_def using assms(1) by auto
qed

lemma filed_insert:
  assumes "insert_batched sha C m c k = (Inr (i, c'), k')"
  shows "filed sha [m] (table_of (cn_db k)) (table_of (cn_db k')) c c'"
  using insert_batched_cases [OF assms] by (intro filed_one) (simp_all add: table_of_def)

lemma filed_stored:
  assumes T: "refs_stored sha C S T" and new: "filed sha ms T T' no_shared_sets c'" and ms: "\<And>m. m \<in> set ms \<Longrightarrow> nameable sha C S m"
  shows "refs_stored sha C S T'"
proof -
  obtain rows where rows: "numbered ms rows" "t_rows T' = t_rows T @ rows" using new by (auto simp: filed_def)
  show ?thesis
  proof (rule refs_stored_added [OF T rows(2)])
    show "t_sets T \<subseteq> t_sets T'" using new by (simp add: filed_def)
  next
    fix m
    assume "m \<in> set rows"
    then obtain m0 i where "m = m0\<lparr>m_id := Some i\<rparr>" "m0 \<in> set ms" using numbered_in [OF rows(1)] by blast
    then show "nameable sha C S m \<and> features_hash sha (m_features m) \<in> insert (features_hash sha []) (t_sets T')"
      using ms [of m0] new nameable_columns [of m m0] by (auto simp: filed_def no_shared_sets_def)
  qed
qed

section \<open>Copying\<close>

lemma filed_written:
  assumes good: "store_good sha C st" and k1: "cn_db k1 = cn_db (s_catalog st)"
    and new: "filed sha ms (table_of (cn_db k1)) (table_of (cn_db k2)) no_shared_sets c'"
    and ms: "\<And>m. m \<in> set ms \<Longrightarrow> nameable sha C (s_arrays st) m"
  shows "refs_stored sha C (s_arrays st) (table_of (cn_db k2)) \<and> feature_hashes (cn_db (s_catalog st)) \<subseteq> feature_hashes (cn_db k2)"
proof -
  have "refs_stored sha C (s_arrays st) (table_of (cn_db k1))" using good k1 by (simp add: store_good_def txn_inv_def)
  then show ?thesis using filed_stored [OF _ new ms] new k1 by (simp add: filed_def table_of_def)
qed

lemma good_listed:
  assumes C: "chrono_laws C dim tod" and good: "store_good sha C st" and m0: "m0 \<in> set (db_rows (cn_db (s_catalog st)))"
    and m: "listed_from sha C (axis_lookup C st) m0 m"
  shows "nameable sha C (s_arrays st) m"
proof -
  have "axes_hashed sha C (s_arrays st)" "refs_stored sha C (s_arrays st) (table_of (cn_db (s_catalog st)))"
    using good by (simp_all add: store_good_def txn_inv_def)
  then show ?thesis using nameable_listed [OF C _ m] nameable_stored m0 by blast
qed

lemma insert_copy_moved:
  assumes good: "store_good sha C st" and m: "nameable sha C (s_arrays st) m"
    and run: "write_catalog (sqlite_catalog ro sha C)
      (cbind (check_forecast_family_free (sqlite_catalog ro sha C) m) (\<lambda>_.
       cbind (c_insert (sqlite_catalog ro sha C) m no_shared_sets) (\<lambda>(i, _). cret i))) st = (r, st')"
  shows "moved sha C st st'"
proof -
  let ?K = "sqlite_catalog ro sha C"
  let ?tail = "\<lambda>_ :: unit. cbind (insert_batched sha C m no_shared_sets) (\<lambda>(i, _). cret i)"
  have K: "c_insert ?K = insert_batched sha C" by (simp add: sqlite_catalog_def)
  have tail: "tamed (?tail u)" for u
    unfolding K [symmetric] by (auto intro!: sqlite.tame_rules split: prod.split)
  show ?thesis
  proof (rule write_moved [OF run [unfolded K] good sqlite.tame_cbind [OF tame_free tail]])
    fix k1 r1 k2
    assume k1: "conn_ok sha C k1" and run: "cbind (check_forecast_family_free ?K m) ?tail k1 = (r1, k2)"
    obtain x k where one: "check_forecast_family_free ?K m k1 = (x, k)" by fastforce
    note free = check_forecast_family_free_ok [OF one k1]
    show "conn_ok sha C k2"
    proof (cases x)
      case (Inl e)
      then show ?thesis using run one free(1) by (simp add: cbind_def)
    next
      case (Inr u)
      obtain y k3 where ins: "insert_batched sha C m no_shared_sets k = (y, k3)" by fastforce
      have "conn_ok sha C k3" by (rule insert_batched_ok [OF ins free(1) free(2) [OF Inr]])
      then show ?thesis using run one Inr ins by (auto simp: cbind_def cret_def split: sum.splits prod.splits)
    qed
  next
    fix k1 a k2
    assume k1: "cn_db k1 = cn_db (s_catalog st)" and run: "cbind (check_forecast_family_free ?K m) ?tail k1 = (Inr a, k2)"
    obtain i c where "insert_association ?K m no_shared_sets k1 = (Inr (i, c), k2)"
      using run by (auto simp: insert_association_def K cbind_def cret_def split: sum.splits prod.splits)
    from sqlite.insert_association_cases [OF this]
    have "filed sha [m] (table_of (cn_db k1)) (table_of (cn_db k2)) no_shared_sets c" by (intro filed_one) simp_all
    from filed_written [OF good k1 this] m
    show "refs_stored sha C (s_arrays st) (table_of (cn_db k2)) \<and> feature_hashes (cn_db (s_catalog st)) \<subseteq> feature_hashes (cn_db k2)"
      by simp
  qed
qed

lemma copy_moved:
  assumes C: "chrono_laws C dim tod" and scan: "\<And>xs. set (scan xs) = set xs" and good: "store_good sha C st"
    and run: "copy_time_series (sqlite_catalog ro sha C) glob scan sha C src owner typ new_name st = (r, st')"
  shows "moved sha C st st'"
proof (cases "s_read_only st")
  case True
  then show ?thesis using run moved_refl [OF good] by (simp add: copy_time_series_def)
next
  case False
  note run' = run [unfolded copy_time_series_def, simplified False, simplified]
  show ?thesis
  proof (rule ask_then [OF asks_get_by_id [OF scan] good run'], goal_cases)
    case (1 found k)
    show ?case
    proof (cases found)
      case None
      then show ?thesis using 1(5) moved_refl [OF 1(4)] by (simp add: cerr_def)
    next
      case (Some row)
      obtain m0 where m0: "m0 \<in> set (db_rows (cn_db (s_catalog st)))" "listed_from sha C (axis_lookup C st) m0 row"
        using 1(3) Some by blast
      have "nameable sha C (s_arrays st) row" by (rule good_listed [OF C good m0])
      then have m: "nameable sha C (s_arrays st) (copied_row row owner typ new_name)"
        using nameable_columns [of "copied_row row owner typ new_name" row] by (simp add: copied_row_def)
      show ?thesis
      proof (rule ask_then [OF asks_row_exists 1(4) 1(5) [unfolded Some option.case Let_def]], goal_cases)
        case (1 taken k)
        show ?case
        proof (cases taken)
          case True
          then show ?thesis using 1(5) moved_refl [OF 1(4)] by (simp add: cerr_def)
        next
          case False
          then show ?thesis using 1(5) insert_copy_moved [OF 1(4)] m by simp
        qed
      qed
    qed
  qed
qed

end
