(* ===== verification/MovesAdded.thy ===== *)
theory MovesAdded
  imports MovesFiled
begin

text \<open>
  Deriving forecasts and filing rows leave a good store. The views of a transform belong to families that hold
  no stored forecast, which the transform reads before it writes.
\<close>

section \<open>Deriving forecasts\<close>

lemma view_rows_from:
  assumes "view_rows sha C plan hor views stored sources = Inr rows" "m \<in> set rows"
  shows "\<exists>src \<in> set sources. \<exists>itv cnt. m = derived_view_row src hor itv cnt \<and> family_of_identity (identity_of sha C src) \<notin> stored"
  using assms
proof (induction sources arbitrary: rows)
  case (Cons src srcs)
  then have new: "family_of_identity (identity_of sha C src) \<notin> stored" by (auto split: if_splits)
  consider "view_rows sha C plan hor views stored srcs = Inr rows"
    | rest itv cnt where "view_rows sha C plan hor views stored srcs = Inr rest" "rows = derived_view_row src hor itv cnt # rest"
    using Cons.prems(1) by (auto simp: rbind_Inr_iff split: if_splits option.splits)
  then show ?case
  proof cases
    case 1
    then show ?thesis using Cons.IH Cons.prems(2) by auto
  next
    case 2
    show ?thesis
    proof (cases "m = derived_view_row src hor itv cnt")
      case True
      then show ?thesis using new by auto
    next
      case False
      then have "m \<in> set rest" using 2(2) Cons.prems(2) by simp
      then show ?thesis using Cons.IH [OF 2(1)] by auto
    qed
  qed
qed simp

lemma family_rows_identity:
  "family_rows sha C m r \<longleftrightarrow> family_of_identity (identity_of sha C m) = family_of_identity (identity_of sha C r)"
  by (auto simp: family_rows_def same_family_def family_of_identity_def identity_of_def)

lemma family_rows_view: "family_rows sha C (derived_view_row src hor itv cnt) r \<longleftrightarrow> family_rows sha C src r"
  by (simp add: family_rows_def derived_view_row_def)

lemma insert_views_ok:
  assumes "insert_views (sqlite_catalog ro sha C) ms cache k = (r, k')" "conn_ok sha C k"
    and "\<And>m. m \<in> set ms \<Longrightarrow> m_type m = DeterministicSingleTimeSeries \<and> no_counterpart sha C m (cn_db k)"
  shows "conn_ok sha C k'"
  using assms
proof (induction ms arbitrary: cache k r k')
  case (Cons m ms)
  obtain x k1 where one: "insert_batched sha C m cache k = (x, k1)" by fastforce
  have k1: "conn_ok sha C k1" by (rule insert_batched_ok [OF one Cons.prems(2)]) (use Cons.prems(3) in simp)
  show ?case
  proof (cases x)
    case (Inl e)
    then show ?thesis using Cons.prems(1) one k1 by (simp add: sqlite_catalog_def cbind_def)
  next
    case (Inr ic)
    obtain i c where ic: "ic = (i, c)" by (cases ic)
    obtain y k2 where rest: "insert_views (sqlite_catalog ro sha C) ms c k1 = (y, k2)" by fastforce
    have "db_rows (cn_db k1) = db_rows (cn_db k) @ [m\<lparr>m_id := Some i\<rparr>]"
      using insert_batched_cases [OF one] Inr ic by simp
    then have "conn_ok sha C k2"
      by (intro Cons.IH [OF rest k1]) (use Cons.prems(3) in \<open>auto simp: no_counterpart_def\<close>)
    then show ?thesis
      using Cons.prems(1) one Inr ic rest
      by (auto simp: cbind_def cret_def sqlite_catalog_def split: sum.splits)
  qed
qed (simp add: cret_def)

lemma filed_views:
  "insert_views (sqlite_catalog ro sha C) ms c k = (Inr ids, k') \<Longrightarrow>
     \<exists>c'. filed sha ms (table_of (cn_db k)) (table_of (cn_db k')) c c'"
proof (induction ms arbitrary: c k ids)
  case (Cons m ms)
  obtain i c1 k1 ids' where one: "insert_batched sha C m c k = (Inr (i, c1), k1)"
    and rest: "insert_views (sqlite_catalog ro sha C) ms c1 k1 = (Inr ids', k')"
    using Cons.prems by (auto simp: cbind_def cret_def sqlite_catalog_def split: prod.splits sum.splits)
  obtain c' where "filed sha ms (table_of (cn_db k1)) (table_of (cn_db k')) c1 c'" using Cons.IH [OF rest] by blast
  then show ?case using filed_append [OF filed_insert [OF one]] by fastforce
qed (auto simp: cret_def intro!: exI filed_nil)

lemma insert_views_moved:
  assumes good: "store_good sha C st" and run: "write_catalog (sqlite_catalog ro sha C) (insert_views (sqlite_catalog ro sha C) ms no_shared_sets) st = (r, st')"
    and ms: "\<And>m. m \<in> set ms \<Longrightarrow> m_type m = DeterministicSingleTimeSeries \<and>
      no_counterpart sha C m (cn_db (s_catalog st)) \<and> nameable sha C (s_arrays st) m"
  shows "moved sha C st st'"
proof (rule write_moved [OF run good tame_insert_views])
  fix k1 r1 k2
  assume "cn_db k1 = cn_db (s_catalog st)" "conn_ok sha C k1" "insert_views (sqlite_catalog ro sha C) ms no_shared_sets k1 = (r1, k2)"
  then show "conn_ok sha C k2" using insert_views_ok ms by metis
next
  fix k1 a k2
  assume k1: "cn_db k1 = cn_db (s_catalog st)" and ins: "insert_views (sqlite_catalog ro sha C) ms no_shared_sets k1 = (Inr a, k2)"
  obtain c' where "filed sha ms (table_of (cn_db k1)) (table_of (cn_db k2)) no_shared_sets c'" using filed_views [OF ins] by blast
  from filed_written [OF good k1 this] ms
  show "refs_stored sha C (s_arrays st) (table_of (cn_db k2)) \<and> feature_hashes (cn_db (s_catalog st)) \<subseteq> feature_hashes (cn_db k2)"
    by blast
qed

lemma result_then:
  assumes "cbind (cresult x) G st = (r, st')" "store_good sha C st" "\<And>a. x = Inr a \<Longrightarrow> G a st = (r, st') \<Longrightarrow> moved sha C st st'"
  shows "moved sha C st st'"
  using assms moved_refl by (cases x) (auto simp: cbind_def cresult_def)

lemma cret_then:
  assumes "cbind f (\<lambda>a. cret (h a)) st = (r, st')" "\<And>x st1. f st = (x, st1) \<Longrightarrow> moved sha C st st1"
  shows "moved sha C st st'"
  using assms by (cases "f st") (auto simp: cbind_def cret_def split: sum.splits)

lemma derive_views_moved:
  assumes C: "chrono_laws C dim tod" and scan: "\<And>xs. set (scan xs) = set xs" and good: "store_good sha C st"
    and run: "derive_views (sqlite_catalog ro sha C) glob scan sha C hor cat res policy plan st = (r, st')"
  shows "moved sha C st st'"
proof (rule ask_then [OF asks_list_rows [OF scan] good run [unfolded derive_views_def]], goal_cases)
  case s: (1 sources k)
  show ?case
  proof (rule ask_then [OF asks_list_identities [OF scan] s(4) s(5)], goal_cases)
    case v: (1 views k1)
    show ?case
    proof (rule ask_then [OF asks_list_identities [OF scan] v(4) v(5)], goal_cases)
      case d: (1 stored k2)
      show ?case
      proof (rule result_then [OF d(5) d(4)], goal_cases)
        case r: (1 rows)
        have new: "m_type m = DeterministicSingleTimeSeries \<and> no_counterpart sha C m (cn_db k2) \<and> nameable sha C (s_arrays st) m"
          if m: "m \<in> set rows" for m
        proof -
          obtain src itv cnt where src: "src \<in> set sources" "m = derived_view_row src hor itv cnt"
              "family_of_identity (identity_of sha C src) \<notin> family_of_identity ` fst ` set stored"
            using view_rows_from [OF r(1) m] by blast
          obtain m0 where m0: "m0 \<in> set (db_rows (cn_db (s_catalog st)))" "listed_from sha C (axis_lookup C st) m0 src"
            using s(3) src(1) by blast
          have "nameable sha C (s_arrays st) src" by (rule good_listed [OF C good m0])
          then have "nameable sha C (s_arrays st) m"
            using nameable_columns [of m src] src(2) by (simp add: derived_view_row_def)
          moreover have "\<not> family_rows sha C m r" if "r \<in> set (db_rows (cn_db k2))" "m_type r = Deterministic" for r
          proof -
            have "identity_of sha C r \<in> fst ` set stored" using d(1,3) that by auto
            then show ?thesis using src(3) unfolding src(2) family_rows_view unfolding family_rows_identity by force
          qed
          ultimately show ?thesis by (simp add: src(2) derived_view_row_def no_counterpart_def)
        qed
        show ?case
        proof (rule cret_then [OF r(2)], goal_cases)
          case (1 x st1)
          show ?case
          proof (cases "tp_dry_run policy")
            case True
            then show ?thesis using 1 moved_refl [OF d(4)] by (simp add: cret_def)
          next
            case False
            then have "write_catalog (sqlite_catalog ro sha C) (insert_views (sqlite_catalog ro sha C) rows no_shared_sets)
                (st\<lparr>s_catalog := k2\<rparr>) = (x, st1)" using 1 by simp
            then show ?thesis using insert_views_moved [OF d(4)] new by simp
          qed
        qed
      qed
    qed
  qed
qed

lemma transform_moved:
  assumes C: "chrono_laws C dim tod" and scan: "\<And>xs. set (scan xs) = set xs" and good: "store_good sha C st"
    and run: "transform_single_time_series (sqlite_catalog ro sha C) glob scan pick sha C hor requested cat res policy st = (r, st')"
  shows "moved sha C st st'"
proof (cases "s_read_only st \<and> \<not> tp_dry_run policy")
  case True
  then show ?thesis using run moved_refl [OF good] by (simp add: transform_single_time_series_def)
next
  case False
  note run' = run [unfolded transform_single_time_series_def if_not_P [OF False]]
  show ?thesis
  proof (rule ask_then [OF asks_static_grids good run'], goal_cases)
    case g: (1 grids k)
    show ?case
    proof (rule result_then [OF g(5) g(4)], goal_cases)
      case f: (1 found)
      show ?case
      proof (cases found)
        case None
        then show ?thesis using f(2) moved_refl [OF g(4)] by (simp add: cret_def)
      next
        case (Some plan)
        let ?check = "if tp_require_uniform_forecast_grid policy
          then check_stored_forecasts (\<lambda>r i. get_forecast_parameters glob scan sha C (axis_lookup C st) (Some r) (Some i)) plan
            (pick (pl_by_resolution plan))
          else cret ()"
        have "asks ?check (\<lambda>_ _. True)"
          using asks_check_stored [OF asks_forecast_parameters] asks_any [OF asks_cret [of "()"]] by simp
        then show ?thesis
          using f(2) [unfolded Some option.case] derive_views_moved [OF C scan] by (rule ask_then [OF _ g(4)]) simp
      qed
    qed
  qed
qed

section \<open>Filing rows\<close>

text \<open>The axis a row carries is checked for the irregular types only; a row of another type carries none.\<close>

definition importable :: "ts_metadata \<Rightarrow> bool" where
  "importable m \<longleftrightarrow> (m_timestamps m \<noteq> None \<longrightarrow> m_type m \<in> irregular_types)"

lemma checked_nameable:
  assumes check: "check_import_row sha C S m = Inr u" and ok: "store_ok S" and m: "importable m"
  shows "nameable sha C S m"
  unfolding nameable_def
proof
  fix col
  show "row_refs sha C col m \<subseteq> stored_objects S col"
  proof (cases col)
    case DataHash
    have "store_holds_array S (m_data_hash m) = Inr True"
      using check by (auto simp: check_import_row_def rbind_Inr_iff split: if_splits)
    then show ?thesis using DataHash store_holds_array_view [OF ok] by (auto simp: mem_contains_def)
  next
    case TimestampsHash
    have "check_import_axis sha C (as_backend S) m = Inr ()" using check by (auto simp: check_import_row_def rbind_Inr_iff)
    then show ?thesis using TimestampsHash m
      by (auto simp: check_import_axis_def importable_def rbind_Inr_iff mem_timestamp_hashes_def split: option.splits if_splits)
  qed
qed

lemma filed_rows:
  assumes "insert_rows (sqlite_catalog ro sha C) ms c k = (Inr (ids, c'), k')"
  shows "filed sha ms (table_of (cn_db k)) (table_of (cn_db k')) c c'"
  using sqlite.insert_rows_Inr [OF assms] numbered_zip [of ids ms] unfolding filed_def by blast

lemma filed_import:
  "import_views (sqlite_catalog ro sha C) ms c k = (Inr u, k') \<Longrightarrow>
     \<exists>c'. filed sha ms (table_of (cn_db k)) (table_of (cn_db k')) c c'"
proof (induction ms arbitrary: c k)
  case (Cons m ms)
  let ?K = "sqlite_catalog ro sha C"
  obtain b k1 where source: "c_family_conflict ?K m SingleTimeSeries k = (Inr b, k1)"
    using Cons.prems by (auto simp: cbind_def split: prod.splits sum.splits)
  obtain i c1 k2 where one: "insert_association ?K m c k1 = (Inr (i, c1), k2)" and rest: "import_views ?K ms c1 k2 = (Inr u, k')"
    using Cons.prems source by (auto simp: cbind_def cerr_def split: prod.splits sum.splits if_splits)
  have k1: "table_of (cn_db k1) = table_of (cn_db k)" using sqlite.family_conflict_Inr [OF source] by simp
  have "filed sha [m] (table_of (cn_db k)) (table_of (cn_db k2)) c c1"
    using sqlite.insert_association_cases [OF one] k1 by (intro filed_one) simp_all
  moreover obtain c' where "filed sha ms (table_of (cn_db k2)) (table_of (cn_db k')) c1 c'" using Cons.IH [OF rest] by blast
  ultimately show ?case using filed_append by fastforce
qed (auto simp: cret_def intro!: exI filed_nil)

lemma keeps_import_views: "keeps (conn_ok sha C) (import_views (sqlite_catalog ro sha C) ms cache)"
proof (induction ms arbitrary: cache)
  case (Cons m ms)
  have "keeps (conn_ok sha C) (c_family_conflict (sqlite_catalog ro sha C) m SingleTimeSeries)"
    by (simp add: sqlite_catalog_def forecast_family_conflict_def keeps_query)
  then show ?case using Cons.IH by (auto intro!: keeps_rules split: prod.split)
qed (simp add: keeps_cret)

lemma asks_explicit: "asks (check_explicit_time_series_ids ids) (\<lambda>_ _. True)"
  by (auto simp: check_explicit_time_series_ids_def Let_def intro!: asks_rules split: option.splits)

lemma tame_filing:
  "tamed (cbind (check_explicit_time_series_ids ids) (\<lambda>_.
     cbind (insert_rows (sqlite_catalog ro sha C) plain no_shared_sets) (\<lambda>(_, cache).
     cbind (import_views (sqlite_catalog ro sha C) views cache) (\<lambda>_. cret n))))"
  by (auto intro!: sqlite.tame_cbind tame_asks [OF asks_explicit] sqlite.tame_insert_rows tame_import_views sqlite.tame_cret split: prod.split)

lemma import_moved:
  assumes good: "store_good sha C st" and rows: "\<And>m. m \<in> set rows \<Longrightarrow> importable m"
    and run: "import_association_rows (sqlite_catalog ro sha C) sha C rows st = (r, st')"
  shows "moved sha C st st'"
proof -
  let ?K = "sqlite_catalog ro sha C"
  let ?plain = "filter (\<lambda>m. m_type m \<noteq> DeterministicSingleTimeSeries) rows"
  let ?views = "filter (\<lambda>m. m_type m = DeterministicSingleTimeSeries) rows"
  let ?ids = "List.map_filter m_id (?plain @ ?views)"
  let ?file = "cbind (check_explicit_time_series_ids ?ids) (\<lambda>_. cbind (insert_rows ?K ?plain no_shared_sets) (\<lambda>(_, cache).
    cbind (import_views ?K ?views cache) (\<lambda>_. cret (length ?plain + length ?views))))"
  have parted: "partition (\<lambda>m. m_type m = DeterministicSingleTimeSeries) rows = (?views, ?plain)"
    by (simp add: o_def)
  note run' = run [unfolded import_association_rows_def Let_def parted prod.case]
  have "st' = st \<or> (\<exists>us. rmap_all (check_import_row sha C (arrays_in st)) rows = Inr us \<and> write_catalog ?K ?file st = (r, st'))"
  proof (cases "s_read_only st")
    case False
    note run = run' [unfolded if_not_P [OF False]]
    show ?thesis
    proof (cases "rmap_all (check_import_row sha C (arrays_in st)) rows")
      case (Inr us)
      then show ?thesis using run by (auto split: if_split_asm simp del: rmap_all.simps)
    qed (use run in simp)
  qed (use run' in simp)
  then consider "st' = st" |
    us where "rmap_all (check_import_row sha C (arrays_in st)) rows = Inr us" "write_catalog ?K ?file st = (r, st')" by blast
  then show ?thesis
  proof cases
    case 1
    then show ?thesis using moved_refl [OF good] by simp
  next
    case 2
    have ok: "store_ok (arrays_in st)" using good by (simp add: store_good_def txn_inv_def arrays_in_same)
    have each: "list_all2 (\<lambda>m u. check_import_row sha C (arrays_in st) m = Inr u) rows us" using 2(1) by (simp add: rmap_all_Inr_iff)
    have name: "nameable sha C (s_arrays st) m" if m: "m \<in> set rows" for m
    proof -
      obtain n where n: "n < length rows" "rows ! n = m" using m by (auto simp: in_set_conv_nth)
      have "check_import_row sha C (arrays_in st) m = Inr (us ! n)" using list_all2_nthD [OF each n(1)] n(2) by simp
      from checked_nameable [OF this ok rows [OF m]] show ?thesis by (simp add: nameable_def arrays_in_same)
    qed
    show ?thesis
    proof (rule write_moved [OF 2(2) good tame_filing])
      fix k1 r1 k2
      assume k1: "conn_ok sha C k1" and run: "?file k1 = (r1, k2)"
      have "keeps (conn_ok sha C) (check_explicit_time_series_ids ?ids)"
        by (auto simp: check_explicit_time_series_ids_def Let_def intro!: keeps_rules keeps_query split: option.splits)
      then have "keeps (conn_ok sha C) ?file"
        by (auto intro!: keeps_cbind keeps_insert_rows keeps_import_views keeps_cret split: prod.split)
      from keepsD [OF this run k1] show "conn_ok sha C k2" .
    next
      fix k1 a k2
      assume k1: "cn_db k1 = cn_db (s_catalog st)" and run: "?file k1 = (Inr a, k2)"
      obtain x k where one: "check_explicit_time_series_ids ?ids k1 = (x, k)" by fastforce
      obtain js c k3 where two: "cn_db k = cn_db k1" "insert_rows ?K ?plain no_shared_sets k = (Inr (js, c), k3)" "import_views ?K ?views c k3 = (Inr (), k2)"
        using run one asks_explicit [unfolded asks_def, rule_format, OF one]
        by (auto simp: cbind_def cret_def split: sum.splits prod.splits)
      obtain c' where "filed sha ?views (table_of (cn_db k3)) (table_of (cn_db k2)) c c'" using filed_import [OF two(3)] by blast
      with filed_rows [OF two(2)] two(1) have "filed sha (?plain @ ?views) (table_of (cn_db k1)) (table_of (cn_db k2)) no_shared_sets c'"
        using filed_append by fastforce
      from filed_written [OF good k1 this] name
      show "refs_stored sha C (s_arrays st) (table_of (cn_db k2)) \<and> feature_hashes (cn_db (s_catalog st)) \<subseteq> feature_hashes (cn_db k2)"
        by auto
    qed
  qed
qed

end
