(* ===== verification/StoreReach.thy ===== *)
theory StoreReach
  imports MovesAdded
begin

text \<open>
  A store over its SQLite catalog with every call that writes: transactions, adding, removing and clearing
  (\<open>txn_step\<close>), deriving forecasts, copying, changing an owner, filing rows, and any query in
  between. What holds of the rows in every state these calls reach.
\<close>

section \<open>Steps\<close>

text \<open>SQLite returns the rows of a query in an order of its own. Of a query that is not part of a call only its
  success or failure matters here. The rows of an import are \<open>importable\<close>, as the rows of a document are: the
  code checks the axis of irregular rows only, and would file another row with any time stamps it carries.\<close>

inductive store_step ::
  "bool \<Rightarrow> iteration \<Rightarrow> (pools \<Rightarrow> pools) \<Rightarrow> (byte list \<Rightarrow> hash) \<Rightarrow> chrono \<Rightarrow> connection store \<Rightarrow> connection store \<Rightarrow> bool"
  for ro iter order sha C where
  step_txn: "txn_step (sqlite_catalog ro sha C) iter order sha C st st' \<Longrightarrow> store_step ro iter order sha C st st'"
| step_query: "statement (\<lambda>db. (g db :: unit result, db)) (s_catalog st) = (r, k) \<Longrightarrow>
    store_step ro iter order sha C st (st\<lparr>s_catalog := k\<rparr>)"
| step_transform: "(\<And>xs. set (scan xs) = set xs) \<Longrightarrow>
    transform_single_time_series (sqlite_catalog ro sha C) glob scan pick sha C hor requested cat res policy st = (r, st') \<Longrightarrow>
    store_step ro iter order sha C st st'"
| step_copy: "(\<And>xs. set (scan xs) = set xs) \<Longrightarrow>
    copy_time_series (sqlite_catalog ro sha C) glob scan sha C src owner typ new_name st = (r, st') \<Longrightarrow>
    store_step ro iter order sha C st st'"
| step_replace_owner: "replace_owner (sqlite_catalog ro sha C) sha C old new cat st = (r, st') \<Longrightarrow>
    store_step ro iter order sha C st st'"
| step_import: "(\<And>m. m \<in> set rows \<Longrightarrow> importable m) \<Longrightarrow>
    import_association_rows (sqlite_catalog ro sha C) sha C rows st = (r, st') \<Longrightarrow>
    store_step ro iter order sha C st st'"

inductive store_reachable ::
  "bool \<Rightarrow> outcome list \<Rightarrow> iteration \<Rightarrow> (pools \<Rightarrow> pools) \<Rightarrow> (byte list \<Rightarrow> hash) \<Rightarrow> chrono \<Rightarrow> connection store \<Rightarrow> bool"
  for ro outcomes iter order sha C where
  store_start: "store_reachable ro outcomes iter order sha C (new_store (open_in_memory outcomes) ro)"
| store_next: "store_reachable ro outcomes iter order sha C st \<Longrightarrow> store_step ro iter order sha C st st' \<Longrightarrow>
    store_reachable ro outcomes iter order sha C st'"

section \<open>What every state keeps\<close>

definition contents_hashed :: "(byte list \<Rightarrow> hash) \<Rightarrow> array_store \<Rightarrow> bool" where
  "contents_hashed sha S \<longleftrightarrow> (\<forall>h a. arrays (view S) h = Some a \<longrightarrow> array_hash sha a = h)"

lemma store_step_cases:
  assumes C: "chrono_laws C dim tod" and good: "store_good sha C st" and step: "store_step ro iter order sha C st st'"
  obtains (txn) "txn_step (sqlite_catalog ro sha C) iter order sha C st st'" | (moved) "moved sha C st st'"
  using step
proof cases
  case step_txn
  then show ?thesis by (rule txn)
next
  case (step_query g r k)
  have "moved sha C st st'"
    unfolding step_query(1)
    by (rule moved_query [OF good]) (use asks_statement [unfolded asks_def, rule_format, OF step_query(2)] in \<open>auto split: sum.splits\<close>)
  then show ?thesis by (rule moved)
next
  case step_transform
  from transform_moved [OF C step_transform(1) good step_transform(2)] show ?thesis by (rule moved)
next
  case step_copy
  from copy_moved [OF C step_copy(1) good step_copy(2)] show ?thesis by (rule moved)
next
  case step_replace_owner
  from replace_owner_moved [OF good step_replace_owner] show ?thesis by (rule moved)
next
  case step_import
  from import_moved [OF good step_import] show ?thesis by (rule moved)
qed

lemma txn_step_good:
  assumes good: "store_good sha C st" and iter: "lawful iter" and order: "\<And>ps. set (order ps) = set ps"
    and step: "txn_step (sqlite_catalog ro sha C) iter order sha C st st'"
  shows "store_good sha C st'"
proof -
  have inv: "txn_inv sha C {} (table_of (cn_db (s_catalog st))) (tables_saved (s_catalog st)) (s_txn st) (s_arrays st)"
    using good by (simp add: store_good_def)
  have "axes_drawn (request_axes sha C) (s_arrays st) (s_arrays st')" by (rule sqlite.step_axes [OF inv order step])
  then show ?thesis
    using good sqlite.step_inv [OF inv iter order step] step_ok [OF _ step] axes_hashed_drawn by (auto simp: store_good_def)
qed

lemma reachable_good:
  assumes C: "chrono_laws C dim tod" and iter: "lawful iter" and order: "\<And>ps. set (order ps) = set ps"
    and "store_reachable ro outcomes iter order sha C st"
  shows "store_good sha C st \<and> contents_hashed sha (s_arrays st)"
  using assms(4)
proof induction
  case store_start
  have "conn_ok sha C (open_in_memory outcomes)" by (simp add: open_in_memory_def empty_db_def conn_ok_def rows_ok_def)
  moreover have "axes_hashed sha C (s_arrays (new_store (open_in_memory outcomes) ro))"
    by (simp add: new_store_def axes_hashed_def memory_new_def)
  moreover have "contents_hashed sha (s_arrays (new_store (open_in_memory outcomes) ro))"
    by (simp add: contents_hashed_def new_store_def view_arrays contents_def wb_new_def wb_get_def memory_new_def)
  moreover have "s_catalog (new_store (open_in_memory outcomes) ro) = open_in_memory outcomes" by (simp add: new_store_def)
  ultimately show ?case
    using sqlite.new_store_inv [OF empty_tables, of sha C outcomes ro] by (simp add: store_good_def)
next
  case (store_next st st')
  then have good: "store_good sha C st" and hashed: "contents_hashed sha (s_arrays st)" by simp_all
  from C good store_next.hyps(2) show ?case
  proof (cases rule: store_step_cases)
    case txn
    have inv: "txn_inv sha C {} (table_of (cn_db (s_catalog st))) (tables_saved (s_catalog st)) (s_txn st) (s_arrays st)"
      using good by (simp add: store_good_def)
    have "contents_hashed sha (s_arrays st')"
      using sqlite.step_contents [OF inv order txn] hashed
      by (auto simp: contents_hashed_def drawn_from_def request_arrays_def)
    then show ?thesis using txn_step_good [OF good iter order txn] by blast
  next
    case moved
    then show ?thesis using hashed by (simp add: moved_def)
  qed
qed

section \<open>The rows of every reachable catalog\<close>

text \<open>C3: in every state a store can reach by the calls that write its catalog (adding, removing and
  clearing, deriving forecasts, copying a series, changing an owner, filing rows, all of them inside
  transactions that commit, roll back or are lost to SQLite), no forecast family holds both a stored and a
  derived deterministic forecast, no two rows have one id or one identity, every id was given out, and each
  row names an array that is stored under the hash of its bytes and, when it has one, a stored timeline. Of
  the rows given to an import it is assumed that only irregular series carry time stamps.\<close>

theorem catalog_rows_unique:
  assumes "chrono_laws C dim tod" "lawful iter" "\<And>ps. set (order ps) = set ps"
    and "store_reachable ro outcomes iter order sha C st"
  shows "list_all (\<lambda>m. m_type m \<noteq> Deterministic \<or>
      list_all (\<lambda>r. m_type r \<noteq> DeterministicSingleTimeSeries \<or> \<not> family_rows sha C m r) (db_rows (cn_db (s_catalog st))))
      (db_rows (cn_db (s_catalog st))) \<and>
    distinct (map m_id (db_rows (cn_db (s_catalog st)))) \<and>
    distinct (map (row_identity sha C) (db_rows (cn_db (s_catalog st)))) \<and>
    list_all (\<lambda>m. (\<exists>i. m_id m = Some i \<and> i \<le> db_last_id (cn_db (s_catalog st))) \<and>
      (\<exists>a. arrays (view (s_arrays st)) (m_data_hash m) = Some a \<and> array_hash sha a = m_data_hash m) \<and>
      (case m_timestamps m of None \<Rightarrow> True
       | Some ts \<Rightarrow> timestamps_hash sha C ts \<in> dom (memory_backend.timestamps (as_backend (s_arrays st)))))
      (db_rows (cn_db (s_catalog st)))"
proof -
  note good = reachable_good [OF assms]
  have ok: "rows_ok sha C (cn_db (s_catalog st))" using good by (simp add: store_good_def conn_ok_def)
  have inv: "txn_inv sha C {} (table_of (cn_db (s_catalog st))) (tables_saved (s_catalog st)) (s_txn st) (s_arrays st)"
    using good by (simp add: store_good_def)
  have named: "(\<exists>a. arrays (view (s_arrays st)) (m_data_hash m) = Some a \<and> array_hash sha a = m_data_hash m) \<and>
      (case m_timestamps m of None \<Rightarrow> True
       | Some ts \<Rightarrow> timestamps_hash sha C ts \<in> dom (memory_backend.timestamps (as_backend (s_arrays st))))"
    if "m \<in> set (db_rows (cn_db (s_catalog st)))" for m
    using sqlite.stored_rows [OF inv, of m] good that by (auto simp: contents_hashed_def table_of_def split: option.split)
  show ?thesis using ok named by (auto simp: rows_ok_def list_all_iff)
qed

text \<open>A view of the stored series is filed beside it; a stored forecast of the same family is then refused.\<close>

definition demo_derived :: ts_metadata where
  "demo_derived = derived_view_row demo_added_row (Months 1) (Months 1) 2"

lemma demo_derived_fields:
  "m_type demo_derived = DeterministicSingleTimeSeries" "m_id demo_derived = None" "m_features demo_derived = []"
  "m_timestamps demo_derived = None" "m_data_hash demo_derived = [9]" "m_length demo_derived = Some 2" "m_element_shape demo_derived = [3]"
  by (simp_all add: demo_derived_def derived_view_row_def demo_added_fields)

lemma demo_family:
  "same_family demo_sha C (m_owner_id demo_derived, m_owner_category demo_derived, m_name demo_derived, m_resolution demo_derived,
     features_hash demo_sha (m_features demo_derived)) (demo_added_row\<lparr>m_id := i\<rparr>)"
  "row_identity demo_sha C (demo_added_row\<lparr>m_id := i\<rparr>) \<noteq> row_identity demo_sha C demo_derived"
  by (simp_all add: same_family_def demo_derived_def derived_view_row_def row_identity_def demo_added_fields)

definition demo_stored_forecast :: ts_metadata where
  "demo_stored_forecast = demo_derived\<lparr>m_type := Deterministic\<rparr>"

lemma demo_check:
  assumes "demo_state (st\<lparr>s_catalog := k\<rparr>)" "m \<in> {demo_derived, demo_stored_forecast}"
  shows "check_import_row demo_sha gregorian (arrays_in st) m = Inr ()"
proof -
  have "wb_get wb_new h = None" "\<not> wb_contains wb_new h" for h by (simp_all add: wb_new_def wb_get_def wb_contains_def)
  moreover have "m_type m \<notin> irregular_types" "m_data_hash m = [9]" "m_length m = Some 2" "m_element_shape m = [3]"
    using assms(2) by (auto simp: irregular_types_def demo_stored_forecast_def demo_derived_fields)
  ultimately show ?thesis
    using assms(1)
    by (simp add: demo_state_def check_import_row_def check_import_axis_def arrays_in_def
        store_holds_array_def mem_contains_def store_array_shape_def mem_array_shape_def)
      (simp add: demo_array_def)
qed

lemma demo_live:
  assumes "demo_state (st\<lparr>s_catalog := k\<rparr>)"
  shows "check_transaction_alive demo_catalog st = Inr ()" "\<not> s_read_only st"
  using assms by (simp_all add: demo_state_def check_transaction_alive_def transaction_was_forced_back_def in_transaction_def no_txn_def)

lemmas demo_sqlite = in_savepoint_def sqlite_catalog_def savepoint_def release_def roll_back_def statement_def cbind_def cret_def
  cerr_def check_explicit_time_series_ids_def insert_association_def check_forecast_family_free_def forecast_family_conflict_def
  insert_batched_def insert_row_def Let_def no_shared_sets_def

definition demo_filed :: connection where
  "demo_filed = \<lparr>cn_db = \<lparr>db_rows = [demo_added_row\<lparr>m_id := Some 1\<rparr>, demo_derived\<lparr>m_id := Some 2\<rparr>], db_last_id = 2, db_features = []\<rparr>,
     cn_saved = [], cn_outcomes = []\<rparr>"

lemma demo_files_view:
  assumes st: "demo_state st"
  shows "import_association_rows demo_catalog demo_sha gregorian [demo_derived] st = (Inr 1, st\<lparr>s_catalog := demo_filed\<rparr>)"
proof -
  have same: "demo_state (st\<lparr>s_catalog := s_catalog st\<rparr>)" using st by simp
  have "in_savepoint demo_catalog (cbind (check_explicit_time_series_ids []) (\<lambda>_.
      cbind (insert_rows demo_catalog [] no_shared_sets) (\<lambda>(_, cache).
      cbind (import_views demo_catalog [demo_derived] cache) (\<lambda>_. cret (length ([] :: ts_metadata list) + length [demo_derived])))))
      (s_catalog st) = (Inr 1, demo_filed)"
    using st demo_family
    by (simp add: demo_state_def demo_sqlite demo_derived_fields demo_added_fields demo_filed_def)
  then show ?thesis
    using st demo_live [OF same] demo_check [OF same, of demo_derived]
    by (auto simp: import_association_rows_def Let_def demo_derived_fields write_catalog_def map_filter_simps)
qed

lemma demo_refuses_forecast:
  assumes st: "demo_state st"
  shows "\<exists>e. import_association_rows demo_catalog demo_sha gregorian [demo_stored_forecast] (st\<lparr>s_catalog := demo_filed\<rparr>) =
    (Inl e, st\<lparr>s_catalog := demo_filed\<rparr>)"
proof -
  have same: "demo_state (st\<lparr>s_catalog := demo_filed, s_catalog := s_catalog st\<rparr>)" using st by simp
  have family: "same_family demo_sha C (m_owner_id demo_stored_forecast, m_owner_category demo_stored_forecast, m_name demo_stored_forecast,
      m_resolution demo_stored_forecast, features_hash demo_sha (m_features demo_stored_forecast)) (demo_derived\<lparr>m_id := i\<rparr>)" for C i
    by (simp add: same_family_def demo_stored_forecast_def)
  have "\<exists>e. in_savepoint demo_catalog (cbind (check_explicit_time_series_ids []) (\<lambda>_.
      cbind (insert_rows demo_catalog [demo_stored_forecast] no_shared_sets) (\<lambda>(_, cache).
      cbind (import_views demo_catalog [] cache) (\<lambda>_. cret (length [demo_stored_forecast] + length ([] :: ts_metadata list))))))
      demo_filed = (Inl e, demo_filed)"
    using family by (simp add: demo_sqlite demo_derived_fields demo_filed_def demo_stored_forecast_def)
  then show ?thesis
    using demo_live [OF same] demo_check [OF same, of demo_stored_forecast]
    by (auto simp: import_association_rows_def Let_def demo_derived_fields demo_stored_forecast_def write_catalog_def map_filter_simps)
qed

theorem catalog_rows_unique_witness:
  "\<exists>ids st1 st2 e. add_requests demo_catalog some_order (\<lambda>ps. ps) demo_sha gregorian [demo_request] demo_start = (Inr ids, st1) \<and>
     import_association_rows demo_catalog demo_sha gregorian [demo_derived] st1 = (Inr 1, st2) \<and>
     import_association_rows demo_catalog demo_sha gregorian [demo_stored_forecast] st2 = (Inl e, st2) \<and>
     map m_type (db_rows (cn_db (s_catalog st2))) = [SingleTimeSeries, DeterministicSingleTimeSeries] \<and>
     distinct (map (row_identity demo_sha gregorian) (db_rows (cn_db (s_catalog st2)))) \<and>
     list_all (\<lambda>m. \<exists>a. arrays (view (s_arrays st2)) (m_data_hash m) = Some a) (db_rows (cn_db (s_catalog st2)))"
proof -
  obtain ids st1 where add: "add_requests demo_catalog some_order (\<lambda>ps. ps) demo_sha gregorian [demo_request] demo_start = (Inr ids, st1)"
    and st1: "demo_state st1" using demo_stored by blast
  define st2 where "st2 = st1\<lparr>s_catalog := demo_filed\<rparr>"
  obtain e where two: "import_association_rows demo_catalog demo_sha gregorian [demo_derived] st1 = (Inr 1, st2)"
    and three: "import_association_rows demo_catalog demo_sha gregorian [demo_stored_forecast] st2 = (Inl e, st2)"
    using demo_files_view [OF st1] demo_refuses_forecast [OF st1] by (auto simp: st2_def)
  have "store_reachable False [] some_order (\<lambda>ps. ps) demo_sha gregorian st1"
    by (rule store_next [OF store_start step_txn [OF step_add [OF add]]])
  then have reach: "store_reachable False [] some_order (\<lambda>ps. ps) demo_sha gregorian st2"
    by (rule store_next [OF _ step_import [OF _ two]]) (simp add: importable_def demo_derived_fields)
  have types: "map m_type (db_rows (cn_db (s_catalog st2))) = [SingleTimeSeries, DeterministicSingleTimeSeries]"
    by (simp add: st2_def demo_filed_def demo_added_fields demo_derived_fields)
  from catalog_rows_unique [OF gregorian_laws lawful_some_order refl reach]
  have "distinct (map (row_identity demo_sha gregorian) (db_rows (cn_db (s_catalog st2)))) \<and>
     list_all (\<lambda>m. \<exists>a. arrays (view (s_arrays st2)) (m_data_hash m) = Some a) (db_rows (cn_db (s_catalog st2)))"
    by (auto simp: list_all_iff)
  with add two three types show ?thesis by (intro exI conjI) auto
qed

end
