(* ===== verification/Version.thy ===== *)
theory Version
  imports RustStr
begin

text \<open>
  \<open>crates/infrastore-core/src/version.rs\<close>: the data-format stamp of a store and the tier it falls into.
  A panic (an unparsable bound) is \<open>Panicked\<close>.
\<close>

definition DATA_FORMAT_VERSION :: string where "DATA_FORMAT_VERSION = ''0.19.0''"
definition MIN_UPGRADABLE_VERSION :: string where "MIN_UPGRADABLE_VERSION = ''0.19.0''"

datatype compat = Current | Upgradable | Incompatible

type_synonym semver = "nat \<times> nat \<times> nat"

definition parse_semver :: "string \<Rightarrow> semver option" where
  "parse_semver v =
     (case split_all (CHR ''.'') v of
        major # minor # patch # rest \<Rightarrow>
          Option.bind (parse_usize major) (\<lambda>a. Option.bind (parse_usize minor) (\<lambda>b.
          Option.bind (parse_usize patch) (\<lambda>c. if rest \<noteq> [] then None else Some (a, b, c))))
      | _ \<Rightarrow> None)"

text \<open>Tuples compare lexicographically.\<close>

fun semver_less :: "semver \<Rightarrow> semver \<Rightarrow> bool" where
  "semver_less (a, b, c) (a', b', c') \<longleftrightarrow> a < a' \<or> a = a' \<and> (b < b' \<or> b = b' \<and> c < c')"

definition compatibility_within :: "string \<Rightarrow> string \<Rightarrow> string \<Rightarrow> string failure + compat" where
  "compatibility_within found minimum current =
     (if found = current then Inr Current
      else case parse_semver found of
        None \<Rightarrow> Inr Incompatible
      | Some v \<Rightarrow>
          (case (parse_semver current, parse_semver minimum) of
             (Some cur, Some floor) \<Rightarrow>
               if \<not> semver_less v floor \<and> semver_less v cur then Inr Upgradable else Inr Incompatible
           | _ \<Rightarrow> Inl Panicked))"

definition active_bounds :: "string \<times> string" where
  "active_bounds = (MIN_UPGRADABLE_VERSION, DATA_FORMAT_VERSION)"

definition compatibility :: "string \<Rightarrow> string failure + compat" where
  "compatibility found = (case active_bounds of (minimum, current) \<Rightarrow> compatibility_within found minimum current)"

definition show_semver :: "semver \<Rightarrow> string" where
  "show_semver v = (case v of (a, b, c) \<Rightarrow> join ''.'' [show_nat a, show_nat b, show_nat c])"

definition u64_semver :: "semver \<Rightarrow> bool" where
  "u64_semver v \<longleftrightarrow> (case v of (a, b, c) \<Rightarrow> a \<le> usize_max \<and> b \<le> usize_max \<and> c \<le> usize_max)"

lemma dot_not_digit: "CHR ''.'' \<notin> set (show_nat n)"
  using show_nat_digits [of "CHR ''.''" n] by (auto simp: is_ascii_digit_def code_of_def)

lemma parse_show_semver: "u64_semver v \<Longrightarrow> parse_semver (show_semver v) = Some v"
proof (cases v)
  case (fields a b c)
  assume "u64_semver v"
  then have small: "a \<le> usize_max" "b \<le> usize_max" "c \<le> usize_max" by (simp_all add: u64_semver_def fields)
  have "split_all (CHR ''.'') (show_semver v) = [show_nat a, show_nat b, show_nat c]"
    unfolding show_semver_def fields prod.case by (rule split_all_join) (use dot_not_digit in auto)
  then show ?thesis by (simp add: parse_semver_def parse_usize_show_nat small fields)
qed

lemma parse_semver_current: "parse_semver DATA_FORMAT_VERSION = Some (0, 19, 0)"
  and parse_semver_minimum: "parse_semver MIN_UPGRADABLE_VERSION = Some (0, 19, 0)"
  by (simp_all add: DATA_FORMAT_VERSION_def MIN_UPGRADABLE_VERSION_def parse_semver_def parse_usize_def
      parse_unsigned_def parse_digits_def strip_plus_def is_ascii_digit_def code_of_def digits_value_def usize_max_def)

text \<open>The version gate. A stamp that is not the current one is classified by its three numbers: a
  store is upgradable exactly when its version is at least the floor and below the current one, every
  other stamp is refused (newer, older or unparsable), and with the bounds this build ships nothing
  is upgradable and classifying never panics.\<close>

lemma version_gate:
  assumes "u64_semver v" "u64_semver floor" "u64_semver cur" "v \<noteq> cur"
  shows "compatibility_within (show_semver v) (show_semver floor) (show_semver cur) =
      Inr (if \<not> semver_less v floor \<and> semver_less v cur then Upgradable else Incompatible) \<and>
    compatibility found = Inr (if found = ''0.19.0'' then Current else Incompatible)"
proof
  have "show_semver v \<noteq> show_semver cur" using parse_show_semver assms by (metis option.inject)
  then show "compatibility_within (show_semver v) (show_semver floor) (show_semver cur) =
      Inr (if \<not> semver_less v floor \<and> semver_less v cur then Upgradable else Incompatible)"
    using assms by (simp add: compatibility_within_def parse_show_semver)
  show "compatibility found = Inr (if found = ''0.19.0'' then Current else Incompatible)"
    using parse_semver_current parse_semver_minimum
    by (auto simp: compatibility_def active_bounds_def compatibility_within_def MIN_UPGRADABLE_VERSION_def
        DATA_FORMAT_VERSION_def split: option.splits prod.splits)
qed

end
