(* ===== verification/Spec2Isabelle.thy ===== *)
theory Spec2Isabelle
  imports AddRequests Backend Bytes Catalog CatalogInv CatalogOps Chrono Codec DerivedReads
    ElementType Features ForecastLayout ForecastReader ForecastReads Gregorian Hash Layout Listing
    Materialize Metadata MovesAdded MovesFiled MovesInv MovesKept Period PeriodGrid PeriodText
    Prelude ReadWindow Reader ReaderLayout ReaderReads RustStr SeriesReads SeriesTimelines
    SliceReads StoreArrays StoreMoves StoreObjects StoreReach StoreReads StoreTxn TimeReference
    TimeSeries Timestamps Transform TxnAxes TxnContents TxnInv TxnReach TxnSteps TxnWrites
    TypedArray Version WindowReads WriteBuffer WriteBufferInv WriteBufferRuns
begin

text \<open>
  A verification library of the core crate of the time-series store, \<open>crates/infrastore-core/src\<close>.

  \<^bold>\<open>The program.\<close> A store keeps time series as three things: arrays of elements and time axes in an
  array file, addressed by the SHA-256 of their bytes, and rows of a catalog in SQLite, each naming an
  array, an axis and the identity of the series (owner, type, name, resolution, features). \<open>Store\<close>
  (\<open>store.rs\<close>) is the facade: it validates a series, writes the array through a transaction's write
  buffer to the storage backend, and writes the row; it reads a row back into a typed series, a part of
  one, or a batch. Readers (\<open>reader.rs\<close>) are prepared once from rows of the catalog and then deliver one
  instant after another without allocation. Under both lie the calendar (\<open>period.rs\<close>), the element types
  and their bytes (\<open>array.rs\<close>, \<open>element_type.rs\<close>, \<open>codec.rs\<close>) and the content hash (\<open>hash.rs\<close>).

  \<^bold>\<open>The theories and the code they translate.\<close>
  \<^item> Vocabulary: \<open>Prelude\<close> (\<open>error.rs\<close>; results with failures as values), \<open>RustStr\<close> (the operations of
    \<open>str\<close> and the integer parsers), \<open>Bytes\<close> (little-endian codecs of the element types).
  \<^item> Types: \<open>TypedArray\<close> (\<open>types/array.rs\<close>, slicing of \<open>storage.rs\<close>), \<open>ElementType\<close>, \<open>Codec\<close>
    (\<open>codec.rs\<close>, value-level validation of \<open>element_type.rs\<close>), \<open>Features\<close> and \<open>Metadata\<close>
    (\<open>types/metadata.rs\<close>, \<open>types/key.rs\<close>), \<open>TimeReference\<close>, \<open>Version\<close>, \<open>Hash\<close>.
  \<^item> Time: \<open>Chrono\<close> (the laws of the date-time package), \<open>Gregorian\<close> (an instance of them), \<open>Period\<close>,
    \<open>PeriodGrid\<close>, \<open>PeriodText\<close> (\<open>types/period.rs\<close>: definitions, correctness of the grids, ISO 8601),
    \<open>Timestamps\<close> (\<open>timestamps.rs\<close>), \<open>TimeSeries\<close> and \<open>SeriesTimelines\<close> (\<open>types/time_series.rs\<close>).
  \<^item> Storage: \<open>Layout\<close> (\<open>storage/common.rs\<close>), \<open>Backend\<close> (the trait of \<open>storage.rs\<close> and
    \<open>storage/memory.rs\<close>), \<open>WriteBuffer\<close>, \<open>WriteBufferInv\<close>, \<open>WriteBufferRuns\<close> (\<open>write_buffer.rs\<close>),
    \<open>StoreArrays\<close> and \<open>StoreReads\<close> (the array half of \<open>store.rs\<close>: every read and write of an array
    inside and outside a transaction).
  \<^item> Readers: \<open>Reader\<close>, \<open>ReaderLayout\<close>, \<open>ReaderReads\<close> (the static reader), \<open>ForecastReader\<close>,
    \<open>ForecastReads\<close>, \<open>ForecastLayout\<close> (the forecast reader with its block cache and derived batches).
  \<^item> Reading series, from \<open>store.rs\<close>: \<open>ReadWindow\<close> and \<open>WindowReads\<close> (windows over one series),
    \<open>Materialize\<close> (\<open>materialize_array\<close>, the slices of each type, windows of forecasts, forecasts
    derived from a single series, bulk reads), \<open>SeriesReads\<close>, \<open>SliceReads\<close>, \<open>DerivedReads\<close>.
  \<^item> Writing series: \<open>AddRequests\<close> (the request, its validation, the row and the array it becomes),
    \<open>CatalogOps\<close> (the statements \<open>Store\<close> issues and their laws), \<open>Catalog\<close> (\<open>metadata.rs\<close> and
    \<open>metadata/schema.rs\<close>: the rows, the unique index and the savepoints), \<open>StoreTxn\<close> (transactions,
    adding a batch, removing rows, the purge of what nothing names any more), \<open>StoreObjects\<close>, \<open>TxnInv\<close>,
    \<open>TxnSteps\<close>, \<open>TxnWrites\<close>, \<open>TxnContents\<close>, \<open>TxnReach\<close>, \<open>CatalogInv\<close>.
  \<^item> Moving rows: \<open>Transform\<close> (\<open>TransformPlan\<close> of \<open>store.rs\<close>: the windows each grid of the stored series
    gives), \<open>Listing\<close> (filters, listings, identities, existence and grids, from \<open>metadata.rs\<close>),
    \<open>StoreMoves\<close> (\<open>transform_single_time_series\<close>, \<open>copy_time_series\<close>, \<open>replace_owner\<close> and
    \<open>import_association_rows\<close> of \<open>store.rs\<close>), \<open>TxnAxes\<close>, \<open>MovesInv\<close>, \<open>MovesKept\<close>, \<open>MovesFiled\<close>,
    \<open>MovesAdded\<close> (what these calls keep), \<open>StoreReach\<close> (a store with all its writing calls).

  \<^bold>\<open>Interfaces.\<close> \<open>chrono_laws\<close> is what the code relies on of the date-time package, interpreted on the
  proleptic Gregorian calendar. \<open>element_codec\<close> is one element type's bytes, interpreted for all eleven.
  \<open>block_store\<close> is the contract of the backend the write buffer sits on, interpreted on the in-memory
  backend; \<open>row_source\<close> and \<open>window_source\<close> are what the readers rely on of the store's reads,
  interpreted on \<open>store.rs\<close> over that backend. \<open>catalog_laws\<close> is what the transactions rely on of the
  catalog, interpreted on the SQLite catalog.

  \<^bold>\<open>What the lemmas show.\<close>
  \<^item> Transactions: in every state a run of begin, commit, rollback, add, remove and clear reaches,
    whatever statement of SQLite fails and however it fails, each row names an array and an axis that are
    stored, now and after any rollback still possible; a rollback that succeeds restores the rows.
  \<^item> The catalog: with deriving, copying, changing an owner and filing rows among the calls, no two rows
    share an id or an identity, no forecast family holds a stored and a derived forecast, and rows name
    stored data. The windows of a derived forecast fit the series it is derived from.
  \<^item> Arrays: the write buffer and the backend together behave as one map from hashes to arrays; the
    buffer keeps its invariant and its budget; the readers' block reads agree with whole arrays.
  \<^item> Calendar: stepping, flooring, counting and inferring steps agree with the grid they describe,
    clamped month ends included; the ISO 8601 text reads back.
  \<^item> Values: encoders and decoders are inverse, with the panics of the decoder characterised exactly;
    what was added is what is read back, whole, in a window, as a slice or as a derived forecast.
  \<^item> Readers: groups hold each selected row exactly once in identity order; a read delivers the values
    in force at the instant, raises where the code raises, and never panics.

  \<^bold>\<open>Conventions.\<close> A \<open>Result\<close> is a sum; where the code can panic the left side is \<open>Raised\<close> (an error it
  returns) or \<open>Panicked\<close>. Error messages are abbreviated to the branch that raised them. Machine integers
  of arithmetic that may overflow are words or numbers with the wrap written out; unchecked arithmetic
  wraps, as in a release build, and checked arithmetic yields an error. A \<open>String\<close> is a list of
  characters up to code point 255, with its UTF-8 encoding where bytes are hashed. Floats are their bit
  patterns: the code compares and copies them and canonicalises NaNs, but computes nothing with them.
  A hash map or set that is iterated takes its order as a parameter. SHA-256 is a parameter; where a
  theorem needs that different bytes have different hashes, it says so.

  \<^bold>\<open>SQLite.\<close> \<open>Catalog\<close> keeps the rows of \<open>time_series_associations\<close>, the next id and a stack of saved
  tables, one per savepoint. A connection carries a schedule of outcomes, so that each statement may
  succeed, fail and leave the tables as they are, or fail with SQLite rolling back the whole
  transaction. The properties hold for every schedule. Rows of a query come in an order \<open>scan\<close> of SQLite's
  own, \<open>GLOB\<close> is the parameter \<open>glob\<close>, and the order a hash map of plans is walked in is \<open>pick\<close>. Periods
  and time references are read back from their text; the other columns hold their value. The memo of
  decoded time axes (\<open>TimestampCache\<close>) is not modelled: an axis is read from the array file each time. The
  rows given to an import are assumed to carry time stamps only if their type has an explicit axis
  (\<open>importable\<close>), which is all a document can spell.

  \<^bold>\<open>Loops, fuel and bounds.\<close> Loops over data are structural recursion. The eviction of the block cache
  takes one more unit of fuel than there are blocks, each round removing one; the binary search over
  windows and the other non-structural loops have a measure and are total. A \<open>usize\<close> is 64 bits.

  \<^bold>\<open>Not modelled.\<close> Of the core crate: the HDF5 backend (calls into the HDF5 C library, whose naming,
  chunk sizing and contract are modelled), the counts and summaries of the catalog, the association
  catalogs of components and attributes, migrations of old schemas, opening, saving, copying and
  compacting store files, the OpenAPI row types. Pre-sizing of vectors, exhaustion of memory and log
  messages leave no trace. The in-memory backend stands for the backend of a store; its flush does
  nothing. The C interface, the Python bindings, the command line, the gRPC server and the Parquet and
  tabular adapters are glue over the core crate or over libraries that are not part of the repository.
\<close>

end
